(* ===== verification/Prelude.thy ===== *)
theory Prelude
  imports Main "HOL-Library.Word" "HOL-Library.Multiset"
begin

unbundle bit_operations_syntax

text \<open>
  Shared vocabulary of the development: the types the model's text is made of,
  the collections its automation lives in, and generic facts about lists that
  several components use.

  A \<open>std::string\<close>, \<open>std::string_view\<close> or \<open>char*\<close> of the source is a
  \<open>bytes\<close>: a list of 8-bit characters.  A \<open>char32_t\<close> is a 32-bit word.
  Byte offsets and lengths (\<open>std::size_t\<close>) are natural numbers; every place
  where the code lets one wrap around is written out as a case of its own.
\<close>

type_synonym bytes = string
type_synonym offset = nat
type_synonym char32 = "32 word"

named_theorems text_simps
  \<open>equations that compute the text a structure stands for\<close>
named_theorems stat_simps
  \<open>equations that compute the cached lengths and counts of a structure\<close>
named_theorems inv_intros
  \<open>introduction rules: operations keep their component's invariant\<close>

abbreviation newline :: char where
  "newline \<equiv> CHR 0x0A"

abbreviation carriage_return :: char where
  "carriage_return \<equiv> CHR 0x0D"

abbreviation u8 :: "char \<Rightarrow> 8 word" where
  "u8 c \<equiv> of_char c"

text \<open>\<open>std::string_view::substr\<close> with an offset inside the text: the length is clamped.\<close>

definition substr :: "'a list \<Rightarrow> nat \<Rightarrow> nat \<Rightarrow> 'a list" where
  "substr xs off len = take len (drop off xs)"

lemma substr_length [simp]: "length (substr xs off len) = min len (length xs - off)"
  by (simp add: substr_def)

lemma substr_0 [simp]: "substr xs 0 n = take n xs"
  by (simp add: substr_def)

lemma substr_append_take_drop: "off \<le> length xs \<Longrightarrow> take off xs @ substr xs off len @ drop (off + len) xs = xs"
  by (simp add: substr_def add.commute flip: drop_drop)

text \<open>Splicing: what every text edit does to the sequence of bytes.\<close>

definition splice_in :: "'a list \<Rightarrow> nat \<Rightarrow> 'a list \<Rightarrow> 'a list" where
  "splice_in xs off ys = take off xs @ ys @ drop off xs"

definition cut_out :: "'a list \<Rightarrow> nat \<Rightarrow> nat \<Rightarrow> 'a list" where
  "cut_out xs off len = take off xs @ drop (off + len) xs"

lemma length_splice_in [simp]: "length (splice_in xs off ys) = length xs + length ys"
  by (simp add: splice_in_def)

lemma length_cut_out [simp]:
  "off + len \<le> length xs \<Longrightarrow> length (cut_out xs off len) = length xs - len"
  by (simp add: cut_out_def)

lemma splice_in_clamp: "splice_in xs (min off (length xs)) ys = splice_in xs off ys"
  by (simp add: splice_in_def min_def)

lemma cut_out_splice_in:
  "off \<le> length xs \<Longrightarrow> cut_out (splice_in xs off ys) off (length ys) = xs"
  by (simp add: cut_out_def splice_in_def)

lemma splice_in_cut_out:
  "off + len \<le> length xs \<Longrightarrow> splice_in (cut_out xs off len) off (substr xs off len) = xs"
  by (simp add: cut_out_def splice_in_def substr_def add.commute flip: drop_drop)

lemma substr_splice_in:
  "off \<le> length xs \<Longrightarrow> substr (splice_in xs off ys) off (length ys) = ys"
  by (simp add: substr_def splice_in_def)

text \<open>Counting the bytes of a text that satisfy a predicate.\<close>

definition count_if :: "('a \<Rightarrow> bool) \<Rightarrow> 'a list \<Rightarrow> nat" where
  "count_if p xs = length (filter p xs)"

lemma count_if_simps [simp]:
  "count_if p [] = 0"
  "count_if p (x # xs) = (if p x then Suc (count_if p xs) else count_if p xs)"
  "count_if p (xs @ ys) = count_if p xs + count_if p ys"
  by (simp_all add: count_if_def)

lemma count_if_le_length: "count_if p xs \<le> length xs"
  by (simp add: count_if_def)

lemma count_if_take_le: "count_if p (take n xs) \<le> count_if p xs"
proof -
  have "count_if p xs = count_if p (take n xs) + count_if p (drop n xs)"
    using count_if_simps(3) [of p "take n xs" "drop n xs"] by simp
  then show ?thesis by simp
qed

text \<open>A byte as a number, whichever type it is read at.\<close>

lemma u8_of_nat: "of_nat (of_char c) = u8 c"
  by (cases c) (simp add: of_char_def)

lemma int_of_char [simp]: "int (of_char c) = of_char c"
  by (cases c) (simp add: of_char_def)

lemma unat_u8 [simp]: "unat (u8 c) = of_char c"
  by (simp add: u8_of_nat [symmetric] unat_of_nat)

lemma nth_append_right_min: "n < length ys \<Longrightarrow> (xs @ ys) ! (length xs + n) = ys ! n"
  by simp

lemma take_append_le: "n \<le> length xs \<Longrightarrow> take n (xs @ ys) = take n xs"
  by simp

lemma not_None_iff_Some: "x \<noteq> None \<longleftrightarrow> (\<exists>y. x = Some y)"
  by auto

end
