(* ===== verification/Utf8.thy ===== *)
theory Utf8
  imports Prelude
begin

text \<open>
  \<open>Source/Text/Utf8.h\<close> and \<open>Source/Text/Utf8.cpp\<close>: encoding one Unicode
  codepoint as bytes, decoding the codepoint at an offset, and the helpers that
  step over or snap to codepoint boundaries of a byte string that is usually, but
  not guaranteedly, valid UTF-8.

  The lemmas show that decoding inverts encoding for every Unicode scalar value,
  that a malformed byte decodes as U+FFFD, that a decoded codepoint is always a
  scalar value, and that the boundary helpers stay inside the text, make progress
  and land on boundaries.
\<close>

section \<open>Encoding\<close>

text \<open>\<open>static_cast<char>\<close> of a codepoint expression keeps the low eight bits.\<close>

definition to_byte :: "char32 \<Rightarrow> char" where
  "to_byte w = char_of (unat w)"

definition is_continuation_byte :: "char \<Rightarrow> bool" where
  "is_continuation_byte c \<longleftrightarrow> u8 c AND 0xC0 = 0x80"

definition encode_codepoint_utf8 :: "char32 \<Rightarrow> bytes" where
  "encode_codepoint_utf8 cp =
     (if cp < 0x80 then [to_byte cp]
      else if cp < 0x800 then
        [to_byte (0xC0 OR drop_bit 6 cp),
         to_byte (0x80 OR (cp AND 0x3F))]
      else if cp < 0x10000 then
        [to_byte (0xE0 OR drop_bit 12 cp),
         to_byte (0x80 OR (drop_bit 6 cp AND 0x3F)),
         to_byte (0x80 OR (cp AND 0x3F))]
      else
        [to_byte (0xF0 OR drop_bit 18 cp),
         to_byte (0x80 OR (drop_bit 12 cp AND 0x3F)),
         to_byte (0x80 OR (drop_bit 6 cp AND 0x3F)),
         to_byte (0x80 OR (cp AND 0x3F))])"

definition is_scalar_value_encoding :: "char32 \<Rightarrow> nat \<Rightarrow> bool" where
  "is_scalar_value_encoding cp len =
     (let overlong = (len = 2 \<and> cp < 0x80) \<or> (len = 3 \<and> cp < 0x800) \<or>
                     (len = 4 \<and> cp < 0x10000)
      in \<not> overlong \<and> cp \<le> 0x10FFFF \<and> (cp < 0xD800 \<or> cp > 0xDFFF))"

section \<open>Decoding\<close>

abbreviation replacement_char :: char32 where
  "replacement_char \<equiv> 0xFFFD"

text \<open>The lead byte: the sequence's length and its own payload bits.\<close>

definition decode_lead :: "8 word \<Rightarrow> (nat \<times> char32) option" where
  "decode_lead b0 =
     (if b0 AND 0xE0 = 0xC0 then Some (2, ucast (b0 AND 0x1F))
      else if b0 AND 0xF0 = 0xE0 then Some (3, ucast (b0 AND 0x0F))
      else if b0 AND 0xF8 = 0xF0 then Some (4, ucast (b0 AND 0x07))
      else None)"

text \<open>The loop over the bytes after the lead; \<open>None\<close> is the early return.\<close>

fun decode_tail :: "bytes \<Rightarrow> char32 \<Rightarrow> char32 option" where
  "decode_tail [] cp = Some cp"
| "decode_tail (b # bs) cp =
     (if \<not> is_continuation_byte b then None
      else decode_tail bs (push_bit 6 cp OR (ucast (u8 b) AND 0x3F)))"

definition decode_codepoint_utf8 :: "bytes \<Rightarrow> offset \<Rightarrow> char32" where
  "decode_codepoint_utf8 text off =
     (if off \<ge> length text then replacement_char
      else let b0 = u8 (text ! off) in
        if b0 < 0x80 then ucast b0
        else case decode_lead b0 of
            None \<Rightarrow> replacement_char
          | Some (len, cp) \<Rightarrow>
              if off + len > length text then replacement_char
              else case decode_tail (substr text (off + 1) (len - 1)) cp of
                  None \<Rightarrow> replacement_char
                | Some cp' \<Rightarrow>
                    if is_scalar_value_encoding cp' len then cp' else replacement_char)"

section \<open>Boundaries\<close>

text \<open>\<open>while (next < size && continuation(text[next])) ++next;\<close>\<close>

function skip_continuation :: "bytes \<Rightarrow> offset \<Rightarrow> offset" where
  "skip_continuation text pos =
     (if pos < length text \<and> is_continuation_byte (text ! pos)
      then skip_continuation text (Suc pos) else pos)"
  by pat_completeness auto
termination
  by (relation "measure (\<lambda>(text, pos). length text - pos)") auto

declare skip_continuation.simps [simp del]

text \<open>\<open>while (prev > 0 && continuation(text[prev])) --prev;\<close>\<close>

fun back_over_continuation :: "bytes \<Rightarrow> offset \<Rightarrow> offset" where
  "back_over_continuation text 0 = 0"
| "back_over_continuation text (Suc pos) =
     (if is_continuation_byte (text ! Suc pos)
      then back_over_continuation text pos else Suc pos)"

definition next_codepoint_boundary :: "bytes \<Rightarrow> offset \<Rightarrow> offset" where
  "next_codepoint_boundary text off =
     (if off \<ge> length text then length text else skip_continuation text (off + 1))"

text \<open>
  The code computes \<open>min(offset, size) - 1\<close>; on an empty text with a positive
  offset that subtraction wraps and the loop reads out of bounds, so the offset there
  is \<open>None\<close>.
\<close>

definition previous_codepoint_boundary :: "bytes \<Rightarrow> offset \<Rightarrow> offset option" where
  "previous_codepoint_boundary text off =
     (if off = 0 then Some 0
      else if text = [] then None
      else Some (back_over_continuation text (min off (length text) - 1)))"

fun snap_down_loop :: "nat \<Rightarrow> bytes \<Rightarrow> offset \<Rightarrow> offset" where
  "snap_down_loop 0 text pos = pos"
| "snap_down_loop (Suc steps) text pos =
     (if 0 < pos \<and> pos < length text \<and> is_continuation_byte (text ! pos)
      then snap_down_loop steps text (pos - 1) else pos)"

definition snap_down_to_codepoint_boundary :: "bytes \<Rightarrow> offset \<Rightarrow> offset" where
  "snap_down_to_codepoint_boundary text off = snap_down_loop 3 text (min off (length text))"

fun snap_up_loop :: "nat \<Rightarrow> bytes \<Rightarrow> offset \<Rightarrow> offset" where
  "snap_up_loop 0 text pos = pos"
| "snap_up_loop (Suc steps) text pos =
     (if pos < length text \<and> is_continuation_byte (text ! pos)
      then snap_up_loop steps text (Suc pos) else pos)"

definition snap_up_to_codepoint_boundary :: "bytes \<Rightarrow> offset \<Rightarrow> offset" where
  "snap_up_to_codepoint_boundary text off = snap_up_loop 3 text (min off (length text))"

definition remove_last_codepoint :: "bytes \<Rightarrow> bytes" where
  "remove_last_codepoint text =
     (if text = [] then []
      else case previous_codepoint_boundary text (length text) of
          None \<Rightarrow> text
        | Some p \<Rightarrow> take p text)"

section \<open>Bytes as words\<close>

lemma u8_to_byte [simp]: "u8 (to_byte w) = ucast w"
proof (rule bit_word_eqI)
  fix n assume n: "n < LENGTH(8)"
  have "(of_char (char_of (unat w)) :: 8 word) = of_nat (of_char (char_of (unat w)))"
    by (rule of_nat_of_char [symmetric])
  also have "\<dots> = of_nat (unat w mod 256)"
    by simp
  finally have eq: "u8 (to_byte w) = of_nat (unat w mod 256)"
    by (simp add: to_byte_def)
  have "bit (of_nat (unat w mod 256) :: 8 word) n \<longleftrightarrow> bit (take_bit 8 (unat w)) n"
    using n by (simp add: bit_simps take_bit_eq_mod)
  also have "\<dots> \<longleftrightarrow> bit w n"
    using n by (simp add: bit_simps)
  finally show "bit (u8 (to_byte w)) n \<longleftrightarrow> bit (ucast w :: 8 word) n"
    using n eq by (simp add: bit_simps)
qed

text \<open>Equality of bytes, bit by bit: an 8-bit word has eight of them.\<close>

lemma word8_eqI:
  assumes "bit a 0 = bit b 0" "bit a 1 = bit b 1" "bit a 2 = bit b 2" "bit a 3 = bit b 3"
    "bit a 4 = bit b 4" "bit a 5 = bit b 5" "bit a 6 = bit b 6" "bit a 7 = bit (b :: 8 word) 7"
  shows "a = b"
proof (rule bit_word_eqI)
  fix n assume "n < LENGTH(8)"
  then have "n \<in> {0,1,2,3,4,5,6,7}" by auto
  with assms show "bit a n = bit b n" by auto
qed

lemma take_bit_eq_self_less: "(w :: 'a::len word) < 2 ^ n \<Longrightarrow> n < LENGTH('a) \<Longrightarrow> take_bit n w = w"
  by (metis less_mask_eq take_bit_eq_mask)

lemma bit_less_2p: "(cp :: char32) < 2 ^ k \<Longrightarrow> k < 32 \<Longrightarrow> bit cp n \<Longrightarrow> n < k"
  by (metis bit_take_bit_iff take_bit_eq_self_less len_bit0 len_num1 mult.right_neutral mult_2 numeral_Bit0)

lemma high_bits:
  "(cp :: char32) < 0x80 \<Longrightarrow> bit cp n \<Longrightarrow> n < 7"
  "cp < 0x800 \<Longrightarrow> bit cp n \<Longrightarrow> n < 11"
  "cp < 0x10000 \<Longrightarrow> bit cp n \<Longrightarrow> n < 16"
  "cp < 0x200000 \<Longrightarrow> bit cp n \<Longrightarrow> n < 21"
  using bit_less_2p [of cp 7] bit_less_2p [of cp 11] bit_less_2p [of cp 16] bit_less_2p [of cp 21]
  by simp_all

lemma and_masks:
  "(w :: 'a::len word) AND 0x3F = take_bit 6 w" "w AND 0x1F = take_bit 5 w"
  "w AND 0x0F = take_bit 4 w" "w AND 0x07 = take_bit 3 w"
  by (simp_all add: take_bit_eq_mask mask_eq_exp_minus_1)

lemma ucast_take_ucast:
  "k \<le> 8 \<Longrightarrow> ucast (take_bit k (ucast (w :: char32) :: 8 word)) = take_bit k w"
  by (rule bit_word_eqI) (auto simp: bit_simps)

lemma take6_ucast: "take_bit 6 (ucast (ucast (w :: char32) :: 8 word)) = take_bit 6 w"
  by (rule bit_word_eqI) (auto simp: bit_simps)

lemma continuation_of_encoded [simp]:
  "is_continuation_byte (to_byte (0x80 OR (x AND 0x3F)))"
  "is_continuation_byte (to_byte (0x80 OR take_bit 6 x))"
proof -
  show "is_continuation_byte (to_byte (0x80 OR take_bit 6 x))"
    unfolding is_continuation_byte_def u8_to_byte
    by (rule word8_eqI) (simp_all add: bit_simps)
  then show "is_continuation_byte (to_byte (0x80 OR (x AND 0x3F)))"
    by (simp add: and_masks)
qed

text \<open>The lead bytes the encoder writes are the ones the decoder tells apart.\<close>

lemma lead1:
  assumes "(cp :: char32) < 0x80"
  shows "(ucast cp :: 8 word) < 0x80" "ucast (ucast cp :: 8 word) = cp"
proof -
  show "ucast (ucast cp :: 8 word) = cp"
    using assms by (intro bit_word_eqI) (auto simp: bit_simps dest: high_bits)
  have "unat (ucast cp :: 8 word) = unat cp mod 256"
    by (simp add: unsigned_ucast_eq take_bit_eq_mod)
  then show "(ucast cp :: 8 word) < 0x80"
    using assms by (simp add: word_less_nat_alt)
qed

lemma lead_ge_0x80:
  "\<not> (ucast (0xC0 OR (w :: char32)) :: 8 word) < 0x80"
  "\<not> (ucast (0xE0 OR (w :: char32)) :: 8 word) < 0x80"
  "\<not> (ucast (0xF0 OR (w :: char32)) :: 8 word) < 0x80"
proof -
  have *: "\<not> (b :: 8 word) < 0x80" if "bit b 7" for b
  proof
    assume "b < 0x80"
    then have "take_bit 7 b = b" using take_bit_eq_self_less [of b 7] by simp
    with that show False by (metis bit_take_bit_iff less_irrefl)
  qed
  show "\<not> (ucast (0xC0 OR w) :: 8 word) < 0x80" "\<not> (ucast (0xE0 OR w) :: 8 word) < 0x80"
    "\<not> (ucast (0xF0 OR w) :: 8 word) < 0x80"
    by (rule *, simp add: bit_simps)+
qed

lemma lead2: "(cp :: char32) < 0x800 \<Longrightarrow> (ucast (0xC0 OR drop_bit 6 cp) :: 8 word) AND 0xE0 = 0xC0"
  by (rule word8_eqI) (auto simp: bit_simps dest: high_bits)

lemma lead3: "(cp :: char32) < 0x10000 \<Longrightarrow> (ucast (0xE0 OR drop_bit 12 cp) :: 8 word) AND 0xF0 = 0xE0"
  by (rule word8_eqI) (auto simp: bit_simps dest: high_bits)

lemma lead4: "(cp :: char32) < 0x200000 \<Longrightarrow> (ucast (0xF0 OR drop_bit 18 cp) :: 8 word) AND 0xF8 = 0xF0"
  by (rule word8_eqI) (auto simp: bit_simps dest: high_bits)

lemma lead_apart:
  "(ucast (0xE0 OR (w :: char32)) :: 8 word) AND 0xE0 \<noteq> 0xC0"
  "(ucast (0xF0 OR (w :: char32)) :: 8 word) AND 0xE0 \<noteq> 0xC0"
  "(ucast (0xF0 OR (w :: char32)) :: 8 word) AND 0xF0 \<noteq> 0xE0"
proof -
  have *: "a \<noteq> b" if "bit a n \<noteq> bit (b :: 8 word) n" for a b n
    using that by auto
  show "(ucast (0xE0 OR w) :: 8 word) AND 0xE0 \<noteq> 0xC0" by (rule * [of _ 5]) (simp add: bit_simps)
  show "(ucast (0xF0 OR w) :: 8 word) AND 0xE0 \<noteq> 0xC0" by (rule * [of _ 5]) (simp add: bit_simps)
  show "(ucast (0xF0 OR w) :: 8 word) AND 0xF0 \<noteq> 0xE0" by (rule * [of _ 4]) (simp add: bit_simps)
qed

text \<open>Putting the payload bits back together.\<close>

lemma reassemble2: "(cp :: char32) < 0x800 \<Longrightarrow>
   push_bit 6 (take_bit 5 (drop_bit 6 cp)) OR take_bit 6 cp = cp"
  by (rule bit_word_eqI) (auto simp: bit_simps dest: high_bits)

lemma reassemble3: "(cp :: char32) < 0x10000 \<Longrightarrow>
   (push_bit 12 (take_bit 4 (drop_bit 12 cp)) OR push_bit 6 (take_bit 6 (drop_bit 6 cp)))
     OR take_bit 6 cp = cp"
  by (rule bit_word_eqI) (auto simp: bit_simps dest: high_bits)

lemma reassemble4: "(cp :: char32) < 0x200000 \<Longrightarrow>
   ((push_bit 18 (take_bit 3 (drop_bit 18 cp)) OR push_bit 12 (take_bit 6 (drop_bit 12 cp)))
     OR push_bit 6 (take_bit 6 (drop_bit 6 cp))) OR take_bit 6 cp = cp"
  by (rule bit_word_eqI) (auto simp: bit_simps dest: high_bits)


text \<open>
  What the decoder and the encoder agree on: Unicode scalar values.  \<open>decoded_at\<close>
  is the reference the two tree structures' \<open>CodepointAt\<close> is compared with: the
  codepoint at an offset of a plain byte string and how many bytes it takes, a
  malformed byte counting as U+FFFD of length 1.
\<close>

definition unicode_scalar :: "char32 \<Rightarrow> bool" where
  "unicode_scalar cp \<longleftrightarrow> cp \<le> 0x10FFFF \<and> (cp < 0xD800 \<or> cp > 0xDFFF)"

definition decoded_at :: "bytes \<Rightarrow> offset \<Rightarrow> char32 \<times> nat" where
  "decoded_at text off =
     (if off \<ge> length text then (replacement_char, 0)
      else let b0 = u8 (text ! off) in
        if b0 < 0x80 then (ucast b0, 1)
        else case decode_lead b0 of
            None \<Rightarrow> (replacement_char, 1)
          | Some (len, cp) \<Rightarrow>
              if off + len > length text then (replacement_char, 1)
              else case decode_tail (substr text (off + 1) (len - 1)) cp of
                  None \<Rightarrow> (replacement_char, 1)
                | Some cp' \<Rightarrow>
                    if is_scalar_value_encoding cp' len then (cp', len)
                    else (replacement_char, 1))"

lemma fst_decoded_at: "fst (decoded_at text off) = decode_codepoint_utf8 text off"
  by (simp add: decoded_at_def decode_codepoint_utf8_def Let_def split: option.splits prod.splits)

lemma decode_lead_length: "decode_lead b = Some (len, cp) \<Longrightarrow> len \<in> {2, 3, 4}"
  by (auto simp: decode_lead_def split: if_splits)

lemma snd_decoded_at_le: "off + snd (decoded_at text off) \<le> max off (length text)"
  by (auto simp: decoded_at_def Let_def split: option.splits prod.splits)

lemma snd_decoded_at_pos: "off < length text \<Longrightarrow> 1 \<le> snd (decoded_at text off)"
  by (auto simp: decoded_at_def Let_def dest: decode_lead_length split: option.splits prod.splits)

lemma snd_decoded_at_bound: "snd (decoded_at text off) \<le> 4"
  by (auto simp: decoded_at_def Let_def dest: decode_lead_length split: option.splits prod.splits)

lemma decoded_scalar: "unicode_scalar (decode_codepoint_utf8 text off)"
proof -
  have "unicode_scalar (ucast b)" if "b < (0x80 :: 8 word)" for b
  proof -
    have "unat b < 128" using that by (simp add: word_less_nat_alt)
    then have "(ucast b :: char32) < 0x80"
      by (simp add: word_less_nat_alt unsigned_ucast_eq take_bit_eq_mod)
    then have "(ucast b :: char32) < 0xD800" "(ucast b :: char32) \<le> 0x10FFFF"
      using order.strict_trans [of "ucast b :: char32" "0x80" "0xD800"]
        order.strict_trans [of "ucast b :: char32" "0x80" "0x10FFFF"] by simp_all
    then show ?thesis by (simp add: unicode_scalar_def)
  qed
  moreover have "unicode_scalar cp" if "is_scalar_value_encoding cp len" for cp len
    using that by (simp add: is_scalar_value_encoding_def unicode_scalar_def Let_def)
  moreover have "unicode_scalar replacement_char"
    by (simp add: unicode_scalar_def)
  ultimately show ?thesis
    by (auto simp: decode_codepoint_utf8_def Let_def split: option.splits)
qed

lemma length_encode: "length (encode_codepoint_utf8 cp) =
    (if cp < 0x80 then 1 else if cp < 0x800 then 2 else if cp < 0x10000 then 3 else 4)"
  by (simp add: encode_codepoint_utf8_def)

lemmas decode_encoded_simps =
  decode_codepoint_utf8_def encode_codepoint_utf8_def decode_lead_def substr_def
  lead_ge_0x80 lead2 lead3 lead4 lead_apart and_masks ucast_take_ucast take6_ucast
  reassemble2 reassemble3 reassemble4 is_scalar_value_encoding_def unicode_scalar_def Let_def

lemma decode_encode_at:
  assumes "unicode_scalar cp"
  shows "decode_codepoint_utf8 (pre @ encode_codepoint_utf8 cp @ post) (length pre) = cp"
proof -
  have lt: "cp < 0x200000"
    using assms order.strict_trans1 [of cp "0x10FFFF" "0x200000"] by (simp add: unicode_scalar_def)
  have mono: "\<not> cp < 0x80" if "\<not> cp < 0x800"
    using that order.strict_trans [of cp "0x80" "0x800"] by auto
  have mono': "\<not> cp < 0x800" if "\<not> cp < 0x10000"
    using that order.strict_trans [of cp "0x800" "0x10000"] by auto
  consider "cp < 0x80" | "\<not> cp < 0x80" "cp < 0x800"
    | "\<not> cp < 0x80" "\<not> cp < 0x800" "cp < 0x10000"
    | "\<not> cp < 0x80" "\<not> cp < 0x800" "\<not> cp < 0x10000"
    using mono mono' by blast
  then show ?thesis
  proof cases
    case 1
    then show ?thesis
      by (simp add: decode_codepoint_utf8_def encode_codepoint_utf8_def lead1)
  next
    case 2
    with assms show ?thesis by (simp add: decode_encoded_simps)
  next
    case 3
    with assms show ?thesis by (simp add: decode_encoded_simps)
  next
    case 4
    with assms lt show ?thesis by (simp add: decode_encoded_simps)
  qed
qed

section \<open>Boundaries of encoded text\<close>

lemma encode_shape:
  obtains c cs where "encode_codepoint_utf8 cp = c # cs" "\<not> is_continuation_byte c"
    "\<forall>x\<in>set cs. is_continuation_byte x"
proof -
  have *: "\<not> is_continuation_byte (to_byte w)" if "\<not> bit w 7 \<or> bit w 6" for w
  proof
    assume "is_continuation_byte (to_byte w)"
    then have eq: "(ucast w :: 8 word) AND 0xC0 = 0x80"
      unfolding is_continuation_byte_def u8_to_byte .
    have "bit ((ucast w :: 8 word) AND 0xC0) 7 = bit (0x80 :: 8 word) 7"
      "bit ((ucast w :: 8 word) AND 0xC0) 6 = bit (0x80 :: 8 word) 6"
      unfolding eq by (rule refl)+
    with that show False by (simp add: bit_simps)
  qed
  have first: "\<not> is_continuation_byte (to_byte cp)" if "cp < 0x80"
    using high_bits(1) [OF that] by (intro *) auto
  have lead: "\<not> is_continuation_byte (to_byte (0xC0 OR w))"
    "\<not> is_continuation_byte (to_byte (0xE0 OR w))"
    "\<not> is_continuation_byte (to_byte (0xF0 OR w))" for w
    by (rule *, simp add: bit_simps)+
  show thesis
    by (cases "cp < 0x80"; cases "cp < 0x800"; cases "cp < 0x10000")
      (auto intro!: that simp: encode_codepoint_utf8_def first lead)
qed

lemma back_over_continuation_run:
  assumes "text = pre @ c # cs @ post" "\<not> is_continuation_byte c"
    "\<forall>x\<in>set cs. is_continuation_byte x"
  shows "back_over_continuation text (length pre + length cs) = length pre"
  using assms
proof (induction cs arbitrary: post rule: rev_induct)
  case Nil
  then show ?case by (cases "length pre") (auto simp: nth_append)
next
  case (snoc x xs)
  have "back_over_continuation text (length pre + length xs) = length pre"
    using snoc.prems by (intro snoc.IH [of "x # post"]) auto
  with snoc.prems show ?case by (simp add: nth_append)
qed

lemma skip_continuation_run:
  assumes "text = pre @ cs @ post" "\<forall>x\<in>set cs. is_continuation_byte x"
    "post = [] \<or> \<not> is_continuation_byte (hd post)"
  shows "skip_continuation text (length pre) = length pre + length cs"
  using assms
proof (induction cs arbitrary: pre)
  case Nil
  then show ?case
    by (cases post) (auto simp: skip_continuation.simps [of _ "length pre"] nth_append)
next
  case (Cons c cs)
  have "skip_continuation text (length (pre @ [c])) = length (pre @ [c]) + length cs"
    using Cons.prems by (intro Cons.IH) auto
  with Cons.prems show ?case
    by (simp add: skip_continuation.simps [of _ "length pre"] nth_append)
qed

lemma skip_continuation_bounds:
  "pos \<le> skip_continuation text pos"
  "pos \<le> length text \<Longrightarrow> skip_continuation text pos \<le> length text"
proof (induction "text" pos rule: skip_continuation.induct)
  case (1 "text" pos)
  { case 1 show ?case using "1.IH"(1) by (auto simp: skip_continuation.simps [of "text" pos]) }
  { case 2 then show ?case using "1.IH"(2) by (auto simp: skip_continuation.simps [of "text" pos]) }
qed

lemma back_over_continuation_le: "back_over_continuation text pos \<le> pos"
  by (induction pos) auto

text \<open>Stepping forward from the start of an encoded codepoint lands just past it.\<close>

lemma next_boundary_of_encoded:
  assumes "post = [] \<or> \<not> is_continuation_byte (hd post)"
  shows "next_codepoint_boundary (pre @ encode_codepoint_utf8 cp @ post) (length pre) =
         length pre + length (encode_codepoint_utf8 cp)"
proof -
  obtain c cs where *: "encode_codepoint_utf8 cp = c # cs" "\<forall>x\<in>set cs. is_continuation_byte x"
    by (rule encode_shape)
  with assms show ?thesis
    using skip_continuation_run [of "pre @ c # cs @ post" "pre @ [c]" cs post]
    by (simp add: next_codepoint_boundary_def)
qed

lemma next_boundary_progress:
  "off < length text \<Longrightarrow> off < next_codepoint_boundary text off"
  using skip_continuation_bounds(1) [of "off + 1" "text"] by (simp add: next_codepoint_boundary_def)

lemma next_boundary_bound: "next_codepoint_boundary text off \<le> length text"
  using skip_continuation_bounds(2) [of "off + 1" "text"] by (simp add: next_codepoint_boundary_def)

lemma remove_last_codepoint_append:
  "remove_last_codepoint (text @ encode_codepoint_utf8 cp) = text"
proof -
  obtain c cs where *: "encode_codepoint_utf8 cp = c # cs" "\<not> is_continuation_byte c"
    "\<forall>x\<in>set cs. is_continuation_byte x"
    by (rule encode_shape)
  then have "back_over_continuation (text @ c # cs @ []) (length text + length cs) = length text"
    by (intro back_over_continuation_run) auto
  with * show ?thesis
    by (simp add: remove_last_codepoint_def previous_codepoint_boundary_def)
qed

text \<open>Snapping: never past the text, never the wrong way, at most three bytes.\<close>

lemma snap_down_loop_bounds: "snap_down_loop k text pos \<le> pos \<and> pos \<le> snap_down_loop k text pos + k"
proof (induction k arbitrary: pos)
  case 0
  then show ?case by simp
next
  case (Suc k)
  from Suc.IH [of "pos - 1"] show ?case by auto
qed

lemma snap_up_loop_bounds:
  "pos \<le> length text \<Longrightarrow>
     pos \<le> snap_up_loop k text pos \<and> snap_up_loop k text pos \<le> min (length text) (pos + k)"
proof (induction k arbitrary: pos)
  case 0
  then show ?case by simp
next
  case (Suc k)
  from Suc.IH [of "Suc pos"] Suc.prems show ?case by auto
qed

definition at_boundary :: "bytes \<Rightarrow> offset \<Rightarrow> bool" where
  "at_boundary text pos \<longleftrightarrow> pos \<ge> length text \<or> \<not> is_continuation_byte (text ! pos)"

lemma snap_down_aligned:
  "at_boundary text off \<Longrightarrow> off \<le> length text \<Longrightarrow> snap_down_to_codepoint_boundary text off = off"
  by (auto simp: snap_down_to_codepoint_boundary_def at_boundary_def eval_nat_numeral)

lemma snap_up_aligned:
  "at_boundary text off \<Longrightarrow> off \<le> length text \<Longrightarrow> snap_up_to_codepoint_boundary text off = off"
  by (auto simp: snap_up_to_codepoint_boundary_def at_boundary_def eval_nat_numeral)

text \<open>
  Inside a sequence of at most four bytes (every encoded codepoint is one), snapping
  down finds its lead byte and snapping up the byte after it.
\<close>

lemma snap_down_loop_run:
  assumes "text = pre @ c # cs @ post" "\<not> is_continuation_byte c"
    "\<forall>x\<in>set cs. is_continuation_byte x" "k \<le> length cs" "k \<le> n"
  shows "snap_down_loop n text (length pre + k) = length pre"
  using assms(4,5)
proof (induction k arbitrary: n)
  case 0
  then show ?case using assms(1,2) by (cases n) auto
next
  case (Suc k)
  obtain m where n: "n = Suc m" "k \<le> m" using Suc.prems by (cases n) auto
  have "text ! (length pre + Suc k) = cs ! k"
    using assms(1) Suc.prems by (simp add: nth_append)
  moreover have "is_continuation_byte (cs ! k)"
    using assms(3) Suc.prems by simp
  ultimately show ?case
    using Suc.IH [of m] Suc.prems n assms(1) by simp
qed

lemma snap_down_inside_encoded:
  assumes "k < length (encode_codepoint_utf8 cp)"
  shows "snap_down_to_codepoint_boundary (pre @ encode_codepoint_utf8 cp @ post) (length pre + k) = length pre"
proof -
  obtain c cs where *: "encode_codepoint_utf8 cp = c # cs" "\<not> is_continuation_byte c"
    "\<forall>x\<in>set cs. is_continuation_byte x"
    by (rule encode_shape)
  have "length (encode_codepoint_utf8 cp) \<le> 4" by (simp add: length_encode)
  with assms * have k: "k \<le> length cs" "k \<le> 3" by auto
  from k * show ?thesis
    using snap_down_loop_run [of "pre @ c # cs @ post" pre c cs post k 3]
    by (simp add: snap_down_to_codepoint_boundary_def min_def)
qed

section \<open>Where forward stepping lands\<close>

text \<open>
  A sequence of two or more bytes that decodes starts with a byte that is no
  continuation and goes on with bytes that are.
\<close>

lemma not_continuation_iff_bits:
  "is_continuation_byte c \<longleftrightarrow> bit (u8 c) 7 \<and> \<not> bit (u8 c) 6"
proof -
  have "bit (u8 c AND 0xC0) n = bit (0x80 :: 8 word) n"
    if "bit (u8 c) 7" "\<not> bit (u8 c) 6" "n \<in> {0,1,2,3,4,5,6,7}" for n
    using that by (auto simp: bit_simps)
  then have "u8 c AND 0xC0 = 0x80" if "bit (u8 c) 7" "\<not> bit (u8 c) 6"
    using that by (intro word8_eqI) simp_all
  moreover have "bit (u8 c) 7 \<and> \<not> bit (u8 c) 6" if eq: "u8 c AND 0xC0 = 0x80"
  proof -
    have "bit (u8 c AND 0xC0) 7 = bit (0x80 :: 8 word) 7" "bit (u8 c AND 0xC0) 6 = bit (0x80 :: 8 word) 6"
      unfolding eq by (rule refl)+
    then show ?thesis by (simp add: bit_simps)
  qed
  ultimately show ?thesis by (auto simp: is_continuation_byte_def)
qed

lemma decode_lead_not_continuation:
  "decode_lead (u8 c) = Some x \<Longrightarrow> \<not> is_continuation_byte c"
proof -
  assume "decode_lead (u8 c) = Some x"
  then consider "u8 c AND 0xE0 = 0xC0" | "u8 c AND 0xF0 = 0xE0" | "u8 c AND 0xF8 = 0xF0"
    by (auto simp: decode_lead_def split: if_splits)
  then have "bit (u8 c) 6"
  proof cases
    case 1
    then have "bit (u8 c AND 0xE0) 6 = bit (0xC0 :: 8 word) 6" by (rule arg_cong)
    then show ?thesis by (simp add: bit_simps)
  next
    case 2
    then have "bit (u8 c AND 0xF0) 6 = bit (0xE0 :: 8 word) 6" by (rule arg_cong)
    then show ?thesis by (simp add: bit_simps)
  next
    case 3
    then have "bit (u8 c AND 0xF8) 6 = bit (0xF0 :: 8 word) 6" by (rule arg_cong)
    then show ?thesis by (simp add: bit_simps)
  qed
  then show ?thesis by (simp add: not_continuation_iff_bits)
qed

lemma decode_tail_Some: "decode_tail bs cp = Some cp' \<Longrightarrow> \<forall>b\<in>set bs. is_continuation_byte b"
  by (induction bs cp rule: decode_tail.induct) (auto split: if_splits)

lemma decoded_multi:
  assumes "2 \<le> snd (decoded_at s off)"
  shows "\<not> is_continuation_byte (s ! off)"
    "\<forall>j. off < j \<and> j < off + snd (decoded_at s off) \<longrightarrow> is_continuation_byte (s ! j)"
proof -
  from assms obtain len cp cp' where d: "off < length s" "decode_lead (u8 (s ! off)) = Some (len, cp)"
    "off + len \<le> length s" "decode_tail (substr s (off + 1) (len - 1)) cp = Some cp'"
    "snd (decoded_at s off) = len"
    by (auto simp: decoded_at_def Let_def split: if_splits option.splits)
  show "\<not> is_continuation_byte (s ! off)"
    using d(2) by (rule decode_lead_not_continuation)
  show "\<forall>j. off < j \<and> j < off + snd (decoded_at s off) \<longrightarrow> is_continuation_byte (s ! j)"
  proof (intro allI impI)
    fix j assume j: "off < j \<and> j < off + snd (decoded_at s off)"
    then have "j - Suc off < len - Suc 0" "Suc off + (j - Suc off) = j"
      using d(5) by linarith+
    then have "s ! j = substr s (off + 1) (len - 1) ! (j - off - 1)"
      using d(3) by (simp add: substr_def)
    moreover have "j - off - 1 < length (substr s (off + 1) (len - 1))"
      using j d by (simp add: min_def) linarith
    ultimately show "is_continuation_byte (s ! j)"
      using decode_tail_Some [OF d(4)] by (metis nth_mem)
  qed
qed

text \<open>The offsets that stepping forward from 0 visits.\<close>

inductive codepoint_start :: "bytes \<Rightarrow> offset \<Rightarrow> bool" for s where
  first: "codepoint_start s 0"
| step: "codepoint_start s b \<Longrightarrow> b < length s \<Longrightarrow> codepoint_start s (b + snd (decoded_at s b))"

inductive_cases codepoint_start_cases: "codepoint_start s b"

lemma codepoint_start_le: "codepoint_start s b \<Longrightarrow> b \<le> length s"
proof (induction rule: codepoint_start.induct)
  case (step b)
  then show ?case using snd_decoded_at_le [of b s] by auto
qed simp

text \<open>No visited offset lies strictly inside a sequence that decodes as a whole.\<close>

lemma codepoint_start_not_inside:
  assumes "codepoint_start s b" "2 \<le> snd (decoded_at s off)"
  shows "\<not> (off < b \<and> b < off + snd (decoded_at s off))"
  using assms(1)
proof (induction rule: codepoint_start.induct)
  case first
  then show ?case by simp
next
  case (step b)
  show ?case
  proof
    assume inside: "off < b + snd (decoded_at s b) \<and> b + snd (decoded_at s b) < off + snd (decoded_at s off)"
    then consider "off < b" | "off = b" | "b < off" by linarith
    then show False
    proof cases
      case 1
      with step.IH inside show False by linarith
    next
      case 2
      with inside show False by simp
    next
      case 3
      with inside have "2 \<le> snd (decoded_at s b)" by linarith
      from decoded_multi(2) [OF this] 3 inside have "is_continuation_byte (s ! off)" by simp
      with decoded_multi(1) [OF assms(2)] show False by simp
    qed
  qed
qed

end
