(* ===== verification/TextTree.thy ===== *)
theory TextTree
  imports Utf8
begin

text \<open>
  The balanced tree the two text structures of \<open>Source/Text\<close> are built from.
  \<open>Rope.cpp\<close> and \<open>PieceTable.cpp\<close> hold the same node type but for what a leaf
  carries, and the same \<open>MakeInternal\<close>, \<open>RotateLeft\<close>, \<open>RotateRight\<close>,
  \<open>Rebalance\<close>, \<open>Concat\<close> and \<open>BuildBalanced\<close>; here they are written once,
  for any leaf payload.  A node caches its byte length, codepoint count, newline count
  and depth, as in the code.

  The lemmas show that the cached figures stay exact (\<open>wf_node\<close>), that joining never
  changes the text, that joining AVL-balanced trees gives an AVL-balanced tree at most
  one level deeper, and that an AVL-balanced tree is logarithmically deep.
\<close>

section \<open>Nodes\<close>

record node_stats =
  byteLength :: nat
  codepointLength :: nat
  lineCount :: nat
  depth :: nat

text \<open>
  A \<open>shared_ptr<const Node>\<close> is a \<open>node option\<close>.  The children of an internal node
  are plain nodes: \<open>MakeInternal\<close> is the only place that builds one, and it never
  stores a null child.
\<close>

datatype 'l node =
    Leaf (stats: node_stats) 'l
  | Internal (stats: node_stats) "'l node" "'l node"

fun count_codepoints :: "bytes \<Rightarrow> nat" where
  "count_codepoints [] = 0"
| "count_codepoints (c # cs) =
     (if \<not> is_continuation_byte c then Suc (count_codepoints cs) else count_codepoints cs)"

definition count_newlines :: "bytes \<Rightarrow> nat" where
  "count_newlines s = count_list s newline"

definition leaf_stats :: "bytes \<Rightarrow> node_stats" where
  "leaf_stats s = \<lparr>byteLength = length s, codepointLength = count_codepoints s,
     lineCount = count_newlines s, depth = 0\<rparr>"

definition join_stats :: "node_stats \<Rightarrow> node_stats \<Rightarrow> node_stats" where
  "join_stats a b = \<lparr>byteLength = byteLength a + byteLength b,
     codepointLength = codepointLength a + codepointLength b,
     lineCount = lineCount a + lineCount b,
     depth = 1 + max (depth a) (depth b)\<rparr>"

section \<open>Joining\<close>

text \<open>The part of \<open>MakeInternal\<close> after its two null checks.\<close>

definition join_nodes :: "'l node \<Rightarrow> 'l node \<Rightarrow> 'l node" where
  "join_nodes l r = Internal (join_stats (stats l) (stats r)) l r"

fun make_internal :: "'l node option \<Rightarrow> 'l node option \<Rightarrow> 'l node option" where
  "make_internal None r = r"
| "make_internal (Some l) None = Some l"
| "make_internal (Some l) (Some r) = Some (join_nodes l r)"

text \<open>
  The rotations dereference the children they rotate.  On a node without them the
  code would dereference a null pointer; those shapes are left as they are here, and
  \<open>rebalance_shapes\<close> shows that \<open>Rebalance\<close> never asks for a rotation of one.
\<close>

fun rotate_left :: "'l node \<Rightarrow> 'l node" where
  "rotate_left (Internal s l (Internal s' pl pr)) = join_nodes (join_nodes l pl) pr"
| "rotate_left n = n"

fun rotate_right :: "'l node \<Rightarrow> 'l node" where
  "rotate_right (Internal s (Internal s' pl pr) r) = join_nodes pl (join_nodes pr r)"
| "rotate_right n = n"

definition inner_heavy_right :: "'l node \<Rightarrow> bool" where
  "inner_heavy_right n = (case n of
     Internal _ l r \<Rightarrow> depth (stats r) > depth (stats l) | Leaf _ _ \<Rightarrow> False)"

definition inner_heavy_left :: "'l node \<Rightarrow> bool" where
  "inner_heavy_left n = (case n of
     Internal _ l r \<Rightarrow> depth (stats l) > depth (stats r) | Leaf _ _ \<Rightarrow> False)"

fun rebalance :: "'l node \<Rightarrow> 'l node" where
  "rebalance (Leaf s x) = Leaf s x"
| "rebalance (Internal s l r) =
     (let leftDepth = depth (stats l); rightDepth = depth (stats r) in
      if leftDepth > rightDepth + 1 then
        rotate_right (if inner_heavy_right l then join_nodes (rotate_left l) r
                      else Internal s l r)
      else if rightDepth > leftDepth + 1 then
        rotate_left (if inner_heavy_left r then join_nodes l (rotate_right r)
                     else Internal s l r)
      else Internal s l r)"

text \<open>\<open>Concat\<close> of two nodes that are not null.\<close>

function concat_nodes :: "'l node \<Rightarrow> 'l node \<Rightarrow> 'l node" where
  "concat_nodes l r =
     (if depth (stats l) > depth (stats r) + 1 then
        (case l of Internal _ ll lr \<Rightarrow> rebalance (join_nodes ll (concat_nodes lr r))
                 | Leaf _ _ \<Rightarrow> join_nodes l r)
      else if depth (stats r) > depth (stats l) + 1 then
        (case r of Internal _ rl rr \<Rightarrow> rebalance (join_nodes (concat_nodes l rl) rr)
                 | Leaf _ _ \<Rightarrow> join_nodes l r)
      else join_nodes l r)"
  by pat_completeness auto
termination
  by (relation "measure (\<lambda>(l, r). size l + size r)") auto

declare concat_nodes.simps [simp del]

fun concat_tree :: "'l node option \<Rightarrow> 'l node option \<Rightarrow> 'l node option" where
  "concat_tree None r = r"
| "concat_tree (Some l) None = Some l"
| "concat_tree (Some l) (Some r) = Some (concat_nodes l r)"

section \<open>Building from a list of leaves\<close>

text \<open>One pass of the loop: neighbours are paired, an odd one out is carried over.\<close>

fun pair_up :: "'l node option list \<Rightarrow> 'l node option list" where
  "pair_up (a # b # rest) = make_internal a b # pair_up rest"
| "pair_up [a] = [a]"
| "pair_up [] = []"

lemma length_pair_up: "length (pair_up ns) = (length ns + 1) div 2"
  by (induction ns rule: pair_up.induct) auto

function build_balanced :: "'l node option list \<Rightarrow> 'l node option" where
  "build_balanced leaves =
     (case leaves of [] \<Rightarrow> None
      | [a] \<Rightarrow> a
      | _ \<Rightarrow> build_balanced (pair_up leaves))"
  by pat_completeness auto
termination
  by (relation "measure length") (auto simp: length_pair_up)

declare build_balanced.simps [simp del]

lemma build_balanced_equations [simp]:
  "build_balanced [] = None"
  "build_balanced [a] = a"
  "build_balanced (a # b # rest) = build_balanced (make_internal a b # pair_up rest)"
  by (subst build_balanced.simps, simp)+

section \<open>Cutting a text into chunks\<close>

text \<open>
  The inner loop of \<open>BuildBalanced\<close> steps a chunk's end back while it sits on a
  continuation byte.  It has no lower bound: stepping back from 0 wraps \<open>chunkEnd\<close>
  around to the largest \<open>size_t\<close>, which is past the text and ends the loop.  That
  wrapped value is \<open>None\<close>.
\<close>

fun chunk_back :: "bytes \<Rightarrow> nat \<Rightarrow> nat option" where
  "chunk_back s 0 = (if 0 < length s \<and> is_continuation_byte (s ! 0) then None else Some 0)"
| "chunk_back s (Suc e) =
     (if Suc e < length s \<and> is_continuation_byte (s ! Suc e) then chunk_back s e
      else Some (Suc e))"

text \<open>
  The outer loop, as the list of chunks it visits: each chunk's offset, and its length
  \<open>chunkEnd - offset\<close>, which is \<open>None\<close> when that subtraction wraps around.  The
  loop may run forever (when the end steps back to the chunk's own start), so the
  result is an option and \<open>None\<close> is "does not return".
\<close>

partial_function (option) chunk_spans ::
  "nat \<Rightarrow> bytes \<Rightarrow> nat \<Rightarrow> (nat \<times> nat option) list option" where
  "chunk_spans chunkSize s off =
     (if off < length s then
        (case chunk_back s (min (off + chunkSize) (length s)) of
           None \<Rightarrow> Some [(off, None)]
         | Some chunkEnd \<Rightarrow>
             Option.bind (chunk_spans chunkSize s chunkEnd)
               (\<lambda>rest. Some ((off, if chunkEnd < off then None else Some (chunkEnd - off)) # rest)))
      else Some [])"

section \<open>The text of a tree and its invariants\<close>

text \<open>\<open>v\<close> reads the bytes a leaf stands for.\<close>

fun node_text :: "('l \<Rightarrow> bytes) \<Rightarrow> 'l node \<Rightarrow> bytes" where
  "node_text v (Leaf _ x) = v x"
| "node_text v (Internal _ l r) = node_text v l @ node_text v r"

fun wf_node :: "('l \<Rightarrow> bytes) \<Rightarrow> 'l node \<Rightarrow> bool" where
  "wf_node v (Leaf s x) \<longleftrightarrow> v x \<noteq> [] \<and> s = leaf_stats (v x)"
| "wf_node v (Internal s l r) \<longleftrightarrow>
     wf_node v l \<and> wf_node v r \<and> s = join_stats (stats l) (stats r)"

fun balanced :: "'l node \<Rightarrow> bool" where
  "balanced (Leaf _ _) \<longleftrightarrow> True"
| "balanced (Internal _ l r) \<longleftrightarrow>
     balanced l \<and> balanced r \<and>
     depth (stats l) \<le> depth (stats r) + 1 \<and> depth (stats r) \<le> depth (stats l) + 1"

definition tree_text :: "('l \<Rightarrow> bytes) \<Rightarrow> 'l node option \<Rightarrow> bytes" where
  "tree_text v t = (case t of None \<Rightarrow> [] | Some n \<Rightarrow> node_text v n)"

definition wf_tree :: "('l \<Rightarrow> bytes) \<Rightarrow> 'l node option \<Rightarrow> bool" where
  "wf_tree v t = (case t of None \<Rightarrow> True | Some n \<Rightarrow> wf_node v n)"

definition balanced_tree :: "'l node option \<Rightarrow> bool" where
  "balanced_tree t = (case t of None \<Rightarrow> True | Some n \<Rightarrow> balanced n)"

definition tree_depth :: "'l node option \<Rightarrow> nat" where
  "tree_depth t = (case t of None \<Rightarrow> 0 | Some n \<Rightarrow> depth (stats n))"

lemma tree_simps [simp]:
  "tree_text v None = []" "tree_text v (Some n) = node_text v n"
  "wf_tree v None" "wf_tree v (Some n) = wf_node v n"
  "balanced_tree None" "balanced_tree (Some n) = balanced n"
  "tree_depth None = 0" "tree_depth (Some n) = depth (stats n)"
  by (simp_all add: tree_text_def wf_tree_def balanced_tree_def tree_depth_def)


section \<open>Cached figures\<close>

lemma count_codepoints_append [simp]:
  "count_codepoints (s @ t) = count_codepoints s + count_codepoints t"
  by (induction s) auto

lemma count_newlines_append [simp]: "count_newlines (s @ t) = count_newlines s + count_newlines t"
  by (simp add: count_newlines_def)

lemma count_newlines_Nil [simp]: "count_newlines [] = 0"
  by (simp add: count_newlines_def)

lemma count_newlines_Cons [simp]:
  "count_newlines (c # s) = (if c = newline then Suc (count_newlines s) else count_newlines s)"
  by (simp add: count_newlines_def)

lemma leaf_stats_simps [simp]:
  "byteLength (leaf_stats s) = length s" "codepointLength (leaf_stats s) = count_codepoints s"
  "lineCount (leaf_stats s) = count_newlines s" "depth (leaf_stats s) = 0"
  by (simp_all add: leaf_stats_def)

lemma join_stats_simps [simp]:
  "byteLength (join_stats a b) = byteLength a + byteLength b"
  "codepointLength (join_stats a b) = codepointLength a + codepointLength b"
  "lineCount (join_stats a b) = lineCount a + lineCount b"
  "depth (join_stats a b) = Suc (max (depth a) (depth b))"
  by (simp_all add: join_stats_def)

lemma wf_node_stats [stat_simps]:
  assumes "wf_node v n"
  shows "byteLength (stats n) = length (node_text v n)"
    "codepointLength (stats n) = count_codepoints (node_text v n)"
    "lineCount (stats n) = count_newlines (node_text v n)"
  using assms by (induction n) auto

lemma wf_node_text_nonempty: "wf_node v n \<Longrightarrow> node_text v n \<noteq> []"
  by (induction n) auto

lemma wf_depth_0: "wf_node v (Internal s l r) \<Longrightarrow> depth s > 0"
  by auto

lemma stats_join_nodes [simp]: "stats (join_nodes l r) = join_stats (stats l) (stats r)"
  by (simp add: join_nodes_def)

section \<open>Joining keeps the text and the cached figures\<close>

lemma join_nodes_props [simp]:
  "node_text v (join_nodes l r) = node_text v l @ node_text v r"
  "wf_node v (join_nodes l r) \<longleftrightarrow> wf_node v l \<and> wf_node v r"
  by (auto simp: join_nodes_def)

lemma make_internal_props:
  "tree_text v (make_internal l r) = tree_text v l @ tree_text v r"
  "wf_tree v l \<Longrightarrow> wf_tree v r \<Longrightarrow> wf_tree v (make_internal l r)"
  by (cases l; cases r; simp)+

lemma rotate_left_text: "node_text v (rotate_left n) = node_text v n"
  by (cases n rule: rotate_left.cases) auto

lemma rotate_right_text: "node_text v (rotate_right n) = node_text v n"
  by (cases n rule: rotate_right.cases) auto

lemma rotate_left_wf: "wf_node v n \<Longrightarrow> wf_node v (rotate_left n)"
  by (cases n rule: rotate_left.cases) auto

lemma rotate_right_wf: "wf_node v n \<Longrightarrow> wf_node v (rotate_right n)"
  by (cases n rule: rotate_right.cases) auto

lemma rebalance_text: "node_text v (rebalance n) = node_text v n"
  by (cases n) (simp_all add: Let_def rotate_left_text rotate_right_text)

lemma rebalance_wf: "wf_node v n \<Longrightarrow> wf_node v (rebalance n)"
  by (cases n) (auto simp: Let_def intro!: rotate_left_wf rotate_right_wf)

text \<open>\<open>Concat\<close>'s three cases, as equations and as an induction rule.\<close>

lemma concat_nodes_left:
  "depth (stats r) + 1 < depth s \<Longrightarrow>
     concat_nodes (Internal s ll lr) r = rebalance (join_nodes ll (concat_nodes lr r))"
  by (subst concat_nodes.simps) simp

lemma concat_nodes_right:
  "depth (stats l) + 1 < depth s \<Longrightarrow>
     concat_nodes l (Internal s rl rr) = rebalance (join_nodes (concat_nodes l rl) rr)"
  by (subst concat_nodes.simps) simp

lemma concat_nodes_flat:
  "depth (stats l) + 1 < depth (stats r) \<longrightarrow> (\<exists>s x. r = Leaf s x) \<Longrightarrow>
   depth (stats r) + 1 < depth (stats l) \<longrightarrow> (\<exists>s x. l = Leaf s x) \<Longrightarrow>
     concat_nodes l r = join_nodes l r"
  by (subst concat_nodes.simps) auto

lemma concat_nodes_cases_induct [case_names left right flat]:
  fixes P :: "'l node \<Rightarrow> 'l node \<Rightarrow> bool"
  assumes "\<And>s ll lr r. depth (stats r) + 1 < depth s \<Longrightarrow> P lr r \<Longrightarrow> P (Internal s ll lr) r"
    and "\<And>l s rl rr. depth (stats l) + 1 < depth s \<Longrightarrow> P l rl \<Longrightarrow> P l (Internal s rl rr)"
    and "\<And>l r. depth (stats l) + 1 < depth (stats r) \<longrightarrow> (\<exists>s x. r = Leaf s x) \<Longrightarrow>
           depth (stats r) + 1 < depth (stats l) \<longrightarrow> (\<exists>s x. l = Leaf s x) \<Longrightarrow> P l r"
  shows "P l r"
proof (induction l r rule: concat_nodes.induct)
  case (1 l r)
  show ?case
  proof (cases "(\<exists>s ll lr. l = Internal s ll lr) \<and> depth (stats r) + 1 < depth (stats l)")
    case True
    then obtain s ll lr where l: "l = Internal s ll lr" and d: "depth (stats r) + 1 < depth (stats l)"
      by blast
    have "P lr r" by (rule "1.IH"(1) [OF d l])
    then show ?thesis unfolding l by (rule assms(1) [rotated]) (use d l in simp)
  next
    case notleft: False
    show ?thesis
    proof (cases "(\<exists>s rl rr. r = Internal s rl rr) \<and> depth (stats l) + 1 < depth (stats r)")
      case True
      then obtain s rl rr where r: "r = Internal s rl rr" and d: "depth (stats l) + 1 < depth (stats r)"
        by blast
      have nd: "\<not> depth (stats r) + 1 < depth (stats l)" using d by simp
      have "P l rl" by (rule "1.IH"(2) [OF nd d r])
      then show ?thesis unfolding r by (rule assms(2) [rotated]) (use d r in simp)
    next
      case False
      have "depth (stats l) + 1 < depth (stats r) \<longrightarrow> (\<exists>s x. r = Leaf s x)"
        using False by (cases r) simp_all
      moreover have "depth (stats r) + 1 < depth (stats l) \<longrightarrow> (\<exists>s x. l = Leaf s x)"
        using notleft by (cases l) simp_all
      ultimately show ?thesis by (rule assms(3))
    qed
  qed
qed

lemma concat_nodes_text: "node_text v (concat_nodes l r) = node_text v l @ node_text v r"
  by (induction l r rule: concat_nodes_cases_induct)
    (simp_all add: concat_nodes_left concat_nodes_right concat_nodes_flat rebalance_text)

lemma concat_nodes_wf: "wf_node v l \<Longrightarrow> wf_node v r \<Longrightarrow> wf_node v (concat_nodes l r)"
  by (induction l r rule: concat_nodes_cases_induct)
    (auto simp: concat_nodes_left concat_nodes_right concat_nodes_flat intro!: rebalance_wf)

lemma concat_tree_text [text_simps]:
  "tree_text v (concat_tree l r) = tree_text v l @ tree_text v r"
  by (cases l; cases r) (simp_all add: concat_nodes_text)

lemma concat_tree_wf [inv_intros]:
  "wf_tree v l \<Longrightarrow> wf_tree v r \<Longrightarrow> wf_tree v (concat_tree l r)"
  by (cases l; cases r) (simp_all add: concat_nodes_wf)

lemma pair_up_props:
  "concat (map (tree_text v) (pair_up ns)) = concat (map (tree_text v) ns)"
  "\<forall>n\<in>set ns. wf_tree v n \<Longrightarrow> \<forall>n\<in>set (pair_up ns). wf_tree v n"
  by (induction ns rule: pair_up.induct) (auto simp: make_internal_props)

lemma build_balanced_text [text_simps]:
  "tree_text v (build_balanced ns) = concat (map (tree_text v) ns)"
proof (induction ns rule: build_balanced.induct)
  case (1 ns)
  then show ?case
    by (cases ns rule: pair_up.cases) (simp_all add: pair_up_props make_internal_props)
qed

lemma build_balanced_wf [inv_intros]:
  "\<forall>n\<in>set ns. wf_tree v n \<Longrightarrow> wf_tree v (build_balanced ns)"
proof (induction ns rule: build_balanced.induct)
  case (1 ns)
  have pairs: "\<forall>n\<in>set (pair_up ns). wf_tree v n"
    by (rule pair_up_props(2) [OF "1.prems"])
  show ?case
  proof (cases "\<exists>a b rest. ns = a # b # rest")
    case True
    then obtain a b rest where ns: "ns = a # b # rest" by blast
    have "wf_tree v (build_balanced (pair_up ns))"
      by (rule "1.IH" [OF ns refl pairs])
    then show ?thesis by (simp add: ns)
  next
    case False
    then show ?thesis using "1.prems" by (cases ns rule: pair_up.cases) simp_all
  qed
qed


section \<open>Balance\<close>

text \<open>
  Where \<open>Rebalance\<close> rotates a well-formed node, the children it dereferences are there.
\<close>

lemma wf_depth_internal: "wf_node v n \<Longrightarrow> k < depth (stats n) \<Longrightarrow> \<exists>s l r. n = Internal s l r"
  by (cases n) auto

lemma rebalance_shapes:
  assumes "wf_node v (Internal s l r)"
  shows "depth (stats l) > depth (stats r) + 1 \<Longrightarrow> \<exists>s' a b. l = Internal s' a b"
    "depth (stats l) > depth (stats r) + 1 \<Longrightarrow> inner_heavy_right l \<Longrightarrow>
       \<exists>s' a s'' c d. l = Internal s' a (Internal s'' c d)"
    "depth (stats r) > depth (stats l) + 1 \<Longrightarrow> \<exists>s' a b. r = Internal s' a b"
    "depth (stats r) > depth (stats l) + 1 \<Longrightarrow> inner_heavy_left r \<Longrightarrow>
       \<exists>s' s'' c d b. r = Internal s' (Internal s'' c d) b"
  using assms wf_depth_internal [of v l] wf_depth_internal [of v r]
  by (auto simp: inner_heavy_left_def inner_heavy_right_def dest: wf_depth_internal split: node.splits)

text \<open>
  Rebalancing a node whose children are balanced and at most two levels apart: the
  result is balanced, and as deep as the node or one level less.
\<close>

lemma rebalance_balanced_left:
  assumes "wf_node v l" "wf_node v r" "balanced l" "balanced r"
    and dl: "depth (stats l) = depth (stats r) + 2"
  shows "balanced (rebalance (join_nodes l r)) \<and>
         depth (stats (rebalance (join_nodes l r))) \<in> {depth (stats l), depth (stats l) + 1}"
proof -
  let ?k = "depth (stats r)"
  obtain s a b where l: "l = Internal s a b"
    using assms(1) dl wf_depth_internal [of v l 0] by auto
  have max_ab: "max (depth (stats a)) (depth (stats b)) = ?k + 1"
    using assms(1) dl l by simp
  have near: "depth (stats a) \<le> depth (stats b) + 1" "depth (stats b) \<le> depth (stats a) + 1"
    and bal: "balanced a" "balanced b"
    using assms(3) l by simp_all
  show ?thesis
  proof (cases "depth (stats b) > depth (stats a)")
    case True
    with max_ab near have a: "depth (stats a) = ?k" and b: "depth (stats b) = ?k + 1"
      by linarith+
    obtain s' c d where bI: "b = Internal s' c d"
      using assms(1) l b wf_depth_internal [of v b 0] by auto
    have "max (depth (stats c)) (depth (stats d)) = ?k" "balanced c" "balanced d"
      "depth (stats c) \<le> depth (stats d) + 1" "depth (stats d) \<le> depth (stats c) + 1"
      using assms(1) b l bI bal by simp_all
    then show ?thesis
      using dl a b bal assms(4) by (simp add: join_nodes_def inner_heavy_right_def l bI) linarith
  next
    case False
    with max_ab near have "depth (stats a) = ?k + 1"
      "depth (stats b) = ?k \<or> depth (stats b) = ?k + 1"
      by linarith+
    with False show ?thesis
      using dl bal assms(4) by (auto simp: join_nodes_def inner_heavy_right_def l)
  qed
qed

lemma rebalance_balanced_right:
  assumes "wf_node v l" "wf_node v r" "balanced l" "balanced r"
    and dr: "depth (stats r) = depth (stats l) + 2"
  shows "balanced (rebalance (join_nodes l r)) \<and>
         depth (stats (rebalance (join_nodes l r))) \<in> {depth (stats r), depth (stats r) + 1}"
proof -
  let ?k = "depth (stats l)"
  obtain s a b where r: "r = Internal s a b"
    using assms(2) dr wf_depth_internal [of v r 0] by auto
  have max_ab: "max (depth (stats a)) (depth (stats b)) = ?k + 1"
    using assms(2) dr r by simp
  have near: "depth (stats a) \<le> depth (stats b) + 1" "depth (stats b) \<le> depth (stats a) + 1"
    and bal: "balanced a" "balanced b"
    using assms(4) r by simp_all
  show ?thesis
  proof (cases "depth (stats a) > depth (stats b)")
    case True
    with max_ab near have b: "depth (stats b) = ?k" and a: "depth (stats a) = ?k + 1"
      by linarith+
    obtain s' c d where aI: "a = Internal s' c d"
      using assms(2) r a wf_depth_internal [of v a 0] by auto
    have "max (depth (stats c)) (depth (stats d)) = ?k" "balanced c" "balanced d"
      "depth (stats c) \<le> depth (stats d) + 1" "depth (stats d) \<le> depth (stats c) + 1"
      using assms(2) a r aI bal by simp_all
    then show ?thesis
      using dr a b bal assms(3) by (simp add: join_nodes_def inner_heavy_left_def r aI) linarith
  next
    case False
    with max_ab near have "depth (stats b) = ?k + 1"
      "depth (stats a) = ?k \<or> depth (stats a) = ?k + 1"
      by linarith+
    with False show ?thesis
      using dr bal assms(3) by (auto simp: join_nodes_def inner_heavy_left_def r)
  qed
qed

lemma rebalance_near:
  assumes "depth (stats l) \<le> depth (stats r) + 1" "depth (stats r) \<le> depth (stats l) + 1"
  shows "rebalance (join_nodes l r) = join_nodes l r"
  using assms by (simp add: join_nodes_def)

lemma concat_nodes_balanced:
  assumes "wf_node v l" "wf_node v r" "balanced l" "balanced r"
  shows "balanced (concat_nodes l r) \<and>
         depth (stats (concat_nodes l r)) \<in>
           {max (depth (stats l)) (depth (stats r)), max (depth (stats l)) (depth (stats r)) + 1}"
  using assms
proof (induction l r rule: concat_nodes_cases_induct)
  case (left s ll lr r)
  let ?c = "concat_nodes lr r"
  from left have IH: "balanced ?c"
    "depth (stats ?c) \<in> {max (depth (stats lr)) (depth (stats r)), max (depth (stats lr)) (depth (stats r)) + 1}"
    by auto
  from left.prems(1,3) left.hyps have wf: "wf_node v ll" "wf_node v lr" "balanced ll" "balanced lr"
    and s: "depth s = Suc (max (depth (stats ll)) (depth (stats lr)))"
    and d: "depth (stats ll) \<le> depth (stats lr) + 1" "depth (stats lr) \<le> depth (stats ll) + 1"
    by auto
  have wfc: "wf_node v ?c" using wf left.prems by (simp add: concat_nodes_wf)
  have c: "depth (stats ?c) \<in> {depth (stats lr), depth (stats lr) + 1}"
    using IH(2) s d left.hyps by auto
  show ?case
  proof (cases "depth (stats ?c) = depth (stats ll) + 2")
    case True
    then show ?thesis
      using rebalance_balanced_right [OF wf(1) wfc wf(3) IH(1) True] c d s left.hyps
      by (auto simp: concat_nodes_left [OF left.hyps])
  next
    case False
    then have "depth (stats ll) \<le> depth (stats ?c) + 1" "depth (stats ?c) \<le> depth (stats ll) + 1"
      using c d by auto
    then show ?thesis
      using IH(1) wf c d s left.hyps
      by (auto simp: concat_nodes_left [OF left.hyps] rebalance_near) (auto simp: join_nodes_def)
  qed
next
  case (right l s rl rr)
  let ?c = "concat_nodes l rl"
  from right have IH: "balanced ?c"
    "depth (stats ?c) \<in> {max (depth (stats l)) (depth (stats rl)), max (depth (stats l)) (depth (stats rl)) + 1}"
    by auto
  from right.prems right.hyps have wf: "wf_node v rl" "wf_node v rr" "balanced rl" "balanced rr"
    and s: "depth s = Suc (max (depth (stats rl)) (depth (stats rr)))"
    and d: "depth (stats rl) \<le> depth (stats rr) + 1" "depth (stats rr) \<le> depth (stats rl) + 1"
    by auto
  have wfc: "wf_node v ?c" using wf right.prems by (simp add: concat_nodes_wf)
  have c: "depth (stats ?c) \<in> {depth (stats rl), depth (stats rl) + 1}"
    using IH(2) s d right.hyps by auto
  show ?case
  proof (cases "depth (stats ?c) = depth (stats rr) + 2")
    case True
    then show ?thesis
      using rebalance_balanced_left [OF wfc wf(2) IH(1) wf(4) True] c d s right.hyps
      by (auto simp: concat_nodes_right [OF right.hyps])
  next
    case False
    then have "depth (stats rr) \<le> depth (stats ?c) + 1" "depth (stats ?c) \<le> depth (stats rr) + 1"
      using c d by auto
    then show ?thesis
      using IH(1) wf c d s right.hyps
      by (auto simp: concat_nodes_right [OF right.hyps] rebalance_near) (auto simp: join_nodes_def)
  qed
next
  case (flat l r)
  then have "depth (stats l) \<le> depth (stats r) + 1" "depth (stats r) \<le> depth (stats l) + 1"
    by (auto simp: not_less)
  with flat show ?case
    by (auto simp: concat_nodes_flat join_nodes_def max_def)
qed

lemma concat_tree_balanced [inv_intros]:
  "wf_tree v l \<Longrightarrow> wf_tree v r \<Longrightarrow> balanced_tree l \<Longrightarrow> balanced_tree r \<Longrightarrow>
     balanced_tree (concat_tree l r)"
  using concat_nodes_balanced by (cases l; cases r) auto


text \<open>An AVL-balanced tree is logarithmically deep in the bytes it holds.\<close>

lemma balanced_depth_bound:
  "wf_node v n \<Longrightarrow> balanced n \<Longrightarrow> 2 ^ (depth (stats n) div 2) \<le> length (node_text v n)"
proof (induction "depth (stats n)" arbitrary: n rule: less_induct)
  case less
  show ?case
  proof (cases n)
    case (Leaf s x)
    then show ?thesis using less.prems by (cases "v x") auto
  next
    case (Internal s l r)
    with less.prems have wf: "wf_node v l" "wf_node v r" "balanced l" "balanced r"
      and s: "depth s = Suc (max (depth (stats l)) (depth (stats r)))"
      and near: "depth (stats l) \<le> depth (stats r) + 1" "depth (stats r) \<le> depth (stats l) + 1"
      by simp_all
    have IHl: "2 ^ (depth (stats l) div 2) \<le> length (node_text v l)"
      and IHr: "2 ^ (depth (stats r) div 2) \<le> length (node_text v r)"
      using less.hyps wf s Internal by simp_all
    let ?k = "(depth s - 2) div 2"
    have k: "?k \<le> depth (stats l) div 2" "?k \<le> depth (stats r) div 2"
      using s near by linarith+
    have "(2::nat) ^ ?k \<le> 2 ^ (depth (stats l) div 2)" "(2::nat) ^ ?k \<le> 2 ^ (depth (stats r) div 2)"
      using k by (intro power_increasing; simp)+
    with IHl IHr have "(2::nat) ^ ?k \<le> length (node_text v l)" "(2::nat) ^ ?k \<le> length (node_text v r)"
      by linarith+
    then have sum: "2 * 2 ^ ?k \<le> length (node_text v n)"
      using Internal by simp
    have "depth s div 2 \<le> Suc ?k" by linarith
    then have "(2::nat) ^ (depth s div 2) \<le> 2 ^ Suc ?k" by (rule power_increasing) simp
    with sum Internal show ?thesis by simp
  qed
qed

lemma pair_up_depth:
  "\<forall>n\<in>set ns. tree_depth n \<le> k \<Longrightarrow> \<forall>n\<in>set (pair_up ns). tree_depth n \<le> Suc k"
proof (induction ns rule: pair_up.induct)
  case (1 a b rest)
  have "tree_depth (make_internal a b) \<le> Suc k"
    using "1.prems" by (cases a; cases b) auto
  with 1 show ?case by auto
qed auto

lemma build_balanced_depth:
  "length ns \<le> 2 ^ m \<Longrightarrow> \<forall>n\<in>set ns. tree_depth n \<le> k \<Longrightarrow> tree_depth (build_balanced ns) \<le> k + m"
proof (induction m arbitrary: ns k)
  case 0
  then show ?case by (cases ns rule: pair_up.cases) auto
next
  case (Suc m)
  show ?case
  proof (cases ns rule: pair_up.cases)
    case (1 a b rest)
    have "length (pair_up ns) \<le> 2 ^ m" using Suc.prems(1) by (simp add: length_pair_up)
    from Suc.IH [OF this pair_up_depth [OF Suc.prems(2)]] show ?thesis by (simp add: 1)
  qed (use Suc.prems in auto)
qed

section \<open>Cutting a text into chunks: when it ends, and what it yields\<close>

text \<open>
  A text is chunkable at size \<open>k\<close> when no window of \<open>k\<close> bytes consists of
  continuation bytes only; every valid UTF-8 text is, for \<open>k \<ge> 4\<close>.
\<close>

definition chunkable :: "nat \<Rightarrow> bytes \<Rightarrow> bool" where
  "chunkable k s \<longleftrightarrow>
     0 < k \<and> (\<forall>off < length s. off + k \<le> length s \<longrightarrow>
       (\<exists>j < k. \<not> is_continuation_byte (s ! (off + j))))"

lemma chunk_back_finds:
  assumes "off < j" "j \<le> e" "e \<le> length s" "j = length s \<or> \<not> is_continuation_byte (s ! j)"
  shows "\<exists>e'. chunk_back s e = Some e' \<and> off < e' \<and> e' \<le> e \<and>
           (e' = length s \<or> \<not> is_continuation_byte (s ! e'))"
  using assms(2-)
proof (induction e)
  case 0
  with assms(1) show ?case by simp
next
  case (Suc e)
  show ?case
  proof (cases "Suc e < length s \<and> is_continuation_byte (s ! Suc e)")
    case True
    with Suc.prems have "j \<le> e" by (cases "j = Suc e") auto
    with Suc True show ?thesis by fastforce
  next
    case False
    with Suc.prems assms(1) show ?thesis by auto
  qed
qed

lemma chunk_end:
  assumes "chunkable k s" "off < length s"
  obtains e where "chunk_back s (min (off + k) (length s)) = Some e" "off < e" "e \<le> length s"
    "e \<le> off + k" "e = length s \<or> \<not> is_continuation_byte (s ! e)"
proof (cases "off + k < length s")
  case True
  then have "off + 1 + k \<le> length s" "off + 1 < length s \<or> k = 0" by auto
  with assms(1) obtain j where "j < k" "\<not> is_continuation_byte (s ! (off + 1 + j))"
    unfolding chunkable_def by (metis less_imp_neq)
  then show thesis
    using that chunk_back_finds [of off "off + 1 + j" "off + k" s] True by (auto simp: min_def)
next
  case False
  then have "min (off + k) (length s) = length s" by simp
  then show thesis
    using that chunk_back_finds [of off "length s" "length s" s] assms False by auto
qed

text \<open>
  On a chunkable text the cutting ends; the chunks tile the text, none is empty or
  longer than the chunk size, and none but the first starts inside a codepoint.
\<close>

fun tiles :: "nat \<Rightarrow> bytes \<Rightarrow> offset \<Rightarrow> (nat \<times> nat option) list \<Rightarrow> bool" where
  "tiles k s off [] \<longleftrightarrow> off = length s"
| "tiles k s off ((o', len) # rest) \<longleftrightarrow>
     (\<exists>n. len = Some n \<and> o' = off \<and> 0 < n \<and> n \<le> k \<and> off + n \<le> length s \<and>
       (off + n = length s \<or> \<not> is_continuation_byte (s ! (off + n))) \<and> tiles k s (off + n) rest)"

lemma chunk_spans_tiles:
  assumes "chunkable k s" "off \<le> length s"
  shows "\<exists>spans. chunk_spans k s off = Some spans \<and> tiles k s off spans"
  using assms(2)
proof (induction "length s - off" arbitrary: off rule: less_induct)
  case less
  show ?case
  proof (cases "off < length s")
    case True
    with assms(1) obtain e where e: "chunk_back s (min (off + k) (length s)) = Some e" "off < e"
      "e \<le> length s" "e \<le> off + k" "e = length s \<or> \<not> is_continuation_byte (s ! e)"
      by (rule chunk_end)
    have "length s - e < length s - off" using True e by linarith
    with less.hyps [of e] e(3) obtain rest
      where rest: "chunk_spans k s e = Some rest" "tiles k s e rest"
      by auto
    have "chunk_spans k s off = Some ((off, Some (e - off)) # rest)"
      using True e rest by (subst chunk_spans.simps) simp
    with rest e show ?thesis by auto
  next
    case False
    with less.prems show ?thesis by (subst chunk_spans.simps) auto
  qed
qed

lemma tiles_concat:
  "tiles k s off spans \<Longrightarrow>
     concat (map (\<lambda>(o', len). substr s o' (case len of None \<Rightarrow> length s - o' | Some n \<Rightarrow> n)) spans) =
     drop off s"
proof (induction k s off spans rule: tiles.induct)
  case (2 k s off o' len rest)
  then obtain n where "len = Some n" "o' = off" "off + n \<le> length s" "tiles k s (off + n) rest"
    by auto
  with "2.IH" show ?case
    by (simp add: substr_def) (metis add.commute append_take_drop_id drop_drop)
qed auto

text \<open>Valid UTF-8 has at most three continuation bytes in a row.\<close>

lemma encoded_text_chunkable:
  assumes "4 \<le> k"
  shows "chunkable k (concat (map encode_codepoint_utf8 cps))"
proof -
  have head: "\<not> is_continuation_byte (concat (map encode_codepoint_utf8 cps) ! 0)"
    if "concat (map encode_codepoint_utf8 cps) \<noteq> []" for cps
    using that by (cases cps; simp) (metis encode_shape append_Cons nth_Cons_0)
  have window: "\<exists>j < 4. \<not> is_continuation_byte (concat (map encode_codepoint_utf8 cps) ! (off + j))"
    if "off + 4 \<le> length (concat (map encode_codepoint_utf8 cps))" for off
    using that
  proof (induction cps arbitrary: off)
    case (Cons cp cps)
    let ?e = "encode_codepoint_utf8 cp" and ?s = "concat (map encode_codepoint_utf8 cps)"
    show ?case
    proof (cases "length ?e \<le> off")
      case True
      with Cons.prems have "off - length ?e + 4 \<le> length ?s" by simp
      from Cons.IH [OF this] True show ?thesis
        by (metis (no_types, lifting) concat.simps(2) le_add1 le_add_diff_inverse list.simps(9)
            nth_append_length_plus add.assoc)
    next
      case False
      show ?thesis
      proof (cases "off = 0")
        case True
        have "concat (map encode_codepoint_utf8 (cp # cps)) \<noteq> []"
          using Cons.prems by (metis add_is_0 le_zero_eq list.size(3) zero_neq_numeral)
        from head [OF this] True show ?thesis by (intro exI [of _ 0]) simp
      next
        case inside: False
        have "length ?e \<le> 4" by (simp add: length_encode)
        then have "0 < length ?s" using inside Cons.prems unfolding list.map concat.simps length_append
          by linarith
        then have "?s \<noteq> []" unfolding length_greater_0_conv .
        moreover have "length ?e - off < 4" using inside \<open>length ?e \<le> 4\<close> by linarith
        ultimately show ?thesis using head [of cps] False
          by (intro exI [of _ "length ?e - off"]) (simp add: nth_append)
      qed
    qed
  qed simp
  have "\<exists>j < k. \<not> is_continuation_byte (concat (map encode_codepoint_utf8 cps) ! (off + j))"
    if "off + k \<le> length (concat (map encode_codepoint_utf8 cps))" for off
  proof -
    have "off + 4 \<le> length (concat (map encode_codepoint_utf8 cps))" using that assms by linarith
    from window [OF this] obtain j where "j < 4"
      "\<not> is_continuation_byte (concat (map encode_codepoint_utf8 cps) ! (off + j))" by blast
    moreover from \<open>j < 4\<close> assms have "j < k" by linarith
    ultimately show ?thesis by blast
  qed
  then show ?thesis using assms by (simp add: chunkable_def)
qed

lemma short_text_chunkable: "0 < k \<Longrightarrow> length s < k \<Longrightarrow> chunkable k s"
  by (simp add: chunkable_def)

text \<open>
  Where an inner chunk starts with a byte followed by nothing but continuation bytes
  for the whole chunk size, the end steps back onto the start and the loop never ends.
\<close>

lemma chunk_back_all_continuation:
  assumes "off < e" "e < length s" "\<not> is_continuation_byte (s ! off)"
    "\<forall>j. off < j \<and> j \<le> e \<longrightarrow> is_continuation_byte (s ! j)"
  shows "chunk_back s e = Some off"
  using assms
proof (induction e)
  case (Suc e)
  show ?case
  proof (cases "off = e")
    case True
    with Suc.prems show ?thesis by (cases e) auto
  next
    case False
    with Suc show ?thesis by auto
  qed
qed simp

lemma chunk_spans_diverges:
  assumes "0 < k" "off + k < length s" "\<not> is_continuation_byte (s ! off)"
    "\<forall>j. off < j \<and> j \<le> off + k \<longrightarrow> is_continuation_byte (s ! j)"
  shows "chunk_spans k s off = None"
proof -
  have "chunk_back s (min (off + k) (length s)) = Some off"
    using assms chunk_back_all_continuation [of off "off + k" s] by (simp add: min_def)
  then have eq: "chunk_spans k s off =
      Option.bind (chunk_spans k s off) (\<lambda>rest. Some ((off, Some 0) # rest))"
    using assms(2) by (subst chunk_spans.simps) simp
  show ?thesis
  proof (cases "chunk_spans k s off")
    case (Some spans)
    with eq show ?thesis by simp
  qed
qed

section \<open>Trees over another leaf payload\<close>

text \<open>
  The joining operations never look inside a leaf, so they commute with mapping the
  leaves.  This carries facts about ropes over to piece tables.
\<close>

lemma stats_map_node [simp]: "stats (map_node f n) = stats n"
  by (cases n) auto

lemma node_text_map_node: "node_text v (map_node f n) = node_text (v \<circ> f) n"
  by (induction n) auto

lemma wf_node_map_node: "wf_node v (map_node f n) = wf_node (v \<circ> f) n"
  by (induction n) auto

lemma balanced_map_node [simp]: "balanced (map_node f n) = balanced n"
  by (induction n) auto

lemma map_join_nodes [simp]:
  "map_node f (join_nodes l r) = join_nodes (map_node f l) (map_node f r)"
  by (simp add: join_nodes_def)

lemma map_rotate [simp]:
  "map_node f (rotate_left n) = rotate_left (map_node f n)"
  "map_node f (rotate_right n) = rotate_right (map_node f n)"
  by (cases n rule: rotate_left.cases; simp) (cases n rule: rotate_right.cases; simp)

lemma inner_heavy_map_node [simp]:
  "inner_heavy_left (map_node f n) = inner_heavy_left n"
  "inner_heavy_right (map_node f n) = inner_heavy_right n"
  by (cases n; simp add: inner_heavy_left_def inner_heavy_right_def)+

lemma map_rebalance: "map_node f (rebalance n) = rebalance (map_node f n)"
  by (cases n) (simp_all add: Let_def)

lemma map_concat_nodes: "map_node f (concat_nodes l r) = concat_nodes (map_node f l) (map_node f r)"
proof (induction l r rule: concat_nodes_cases_induct)
  case (left s ll lr r)
  then show ?case by (simp add: concat_nodes_left map_rebalance)
next
  case (right l s rl rr)
  then show ?case by (simp add: concat_nodes_right map_rebalance)
next
  case (flat l r)
  have "concat_nodes (map_node f l) (map_node f r) = join_nodes (map_node f l) (map_node f r)"
    by (rule concat_nodes_flat) (use flat in \<open>cases l; cases r; simp\<close>)+
  with flat show ?case by (simp add: concat_nodes_flat)
qed

abbreviation map_tree :: "('a \<Rightarrow> 'b) \<Rightarrow> 'a node option \<Rightarrow> 'b node option" where
  "map_tree f \<equiv> map_option (map_node f)"

lemma map_concat_tree: "map_tree f (concat_tree l r) = concat_tree (map_tree f l) (map_tree f r)"
  by (cases l; cases r) (simp_all add: map_concat_nodes)

lemma tree_text_map_tree: "tree_text v (map_tree f t) = tree_text (v \<circ> f) t"
  by (cases t) (simp_all add: node_text_map_node)

lemma wf_tree_map_tree: "wf_tree v (map_tree f t) = wf_tree (v \<circ> f) t"
  by (cases t) (simp_all add: wf_node_map_node)

lemma map_make_internal: "map_tree f (make_internal l r) = make_internal (map_tree f l) (map_tree f r)"
  by (cases l; cases r) auto

lemma map_pair_up: "map (map_tree f) (pair_up ns) = pair_up (map (map_tree f) ns)"
  by (induction ns rule: pair_up.induct) (auto simp: map_make_internal)

lemma map_build_balanced: "map_tree f (build_balanced ns) = build_balanced (map (map_tree f) ns)"
proof (induction ns rule: build_balanced.induct)
  case (1 ns)
  show ?case
  proof (cases ns rule: pair_up.cases)
    case (1 a b rest)
    then show ?thesis using "1.IH" by (simp add: map_pair_up map_make_internal)
  qed auto
qed

lemma balanced_map_tree [simp]: "balanced_tree (map_tree f t) = balanced_tree t"
  by (cases t) auto

end
