(* ===== verification/Rope.thy ===== *)
theory Rope
  imports TextTree
begin

unbundle bit_operations_syntax

text \<open>
  \<open>Source/Text/Rope.h\<close> and \<open>Source/Text/Rope.cpp\<close>: the persistent rope every
  ordinary buffer holds its text in.  A leaf carries its bytes; every operation of the
  class is a definition here, over the shared tree of theory \<open>TextTree\<close>.

  The lemmas show that each operation computes on the tree what the plain operation
  computes on the byte string (\<open>rope_to_string\<close>), that the cached figures stay exact,
  that cutting and joining keep the tree AVL-balanced, and that stepping back over a
  codepoint undoes stepping forward over it, malformed bytes included.
\<close>

type_synonym rope = "bytes node option"

section \<open>Building\<close>

definition kChunkSize :: nat where
  "kChunkSize = 512"

definition rope_make_leaf :: "bytes \<Rightarrow> rope" where
  "rope_make_leaf s = (if s = [] then None else Some (Leaf (leaf_stats s) s))"

text \<open>\<open>text.substr(offset, chunkEnd - offset)\<close>: a wrapped length is clamped to the end.\<close>

definition chunk_bytes :: "bytes \<Rightarrow> nat \<times> nat option \<Rightarrow> bytes" where
  "chunk_bytes s c = (case c of (off, None) \<Rightarrow> drop off s | (off, Some n) \<Rightarrow> substr s off n)"

text \<open>\<open>None\<close> is "does not return".\<close>

definition rope_of_text :: "bytes \<Rightarrow> rope option" where
  "rope_of_text s =
     (if s = [] then Some None
      else map_option (\<lambda>spans. build_balanced (map (\<lambda>c. rope_make_leaf (chunk_bytes s c)) spans))
             (chunk_spans kChunkSize s 0))"

section \<open>Measures\<close>

definition rope_empty :: "rope \<Rightarrow> bool" where
  "rope_empty t \<longleftrightarrow> t = None"

definition rope_byte_length :: "rope \<Rightarrow> nat" where
  "rope_byte_length t = (case t of None \<Rightarrow> 0 | Some n \<Rightarrow> byteLength (stats n))"

definition rope_codepoint_length :: "rope \<Rightarrow> nat" where
  "rope_codepoint_length t = (case t of None \<Rightarrow> 0 | Some n \<Rightarrow> codepointLength (stats n))"

definition rope_line_count :: "rope \<Rightarrow> nat" where
  "rope_line_count t = (case t of None \<Rightarrow> 0 | Some n \<Rightarrow> lineCount (stats n)) + 1"

section \<open>Editing\<close>

fun split_node :: "bytes node \<Rightarrow> nat \<Rightarrow> rope \<times> rope" where
  "split_node (Leaf st s) off =
     (if off = 0 then (None, Some (Leaf st s))
      else if off \<ge> byteLength st then (Some (Leaf st s), None)
      else (rope_make_leaf (take off s), rope_make_leaf (drop off s)))"
| "split_node (Internal st l r) off =
     (if off = 0 then (None, Some (Internal st l r))
      else if off \<ge> byteLength st then (Some (Internal st l r), None)
      else let leftLen = byteLength (stats l) in
        if off < leftLen then
          (let (ll, lr) = split_node l off in (ll, concat_tree lr (Some r)))
        else if off > leftLen then
          (let (rl, rr) = split_node r (off - leftLen) in (concat_tree (Some l) rl, rr))
        else (Some l, Some r))"

definition rope_split :: "rope \<Rightarrow> nat \<Rightarrow> rope \<times> rope" where
  "rope_split t off = (case t of None \<Rightarrow> (None, None) | Some n \<Rightarrow> split_node n off)"

definition rope_inserted :: "rope \<Rightarrow> offset \<Rightarrow> bytes \<Rightarrow> rope option" where
  "rope_inserted t byteOffset s =
     (if s = [] then Some t
      else
        let off = min byteOffset (rope_byte_length t);
            (left, right) = rope_split t off
        in map_option (\<lambda>middle. concat_tree (concat_tree left middle) right) (rope_of_text s))"

definition rope_erased :: "rope \<Rightarrow> offset \<Rightarrow> nat \<Rightarrow> rope" where
  "rope_erased t byteOffset byteLen =
     (let off = min byteOffset (rope_byte_length t);
          len = min byteLen (rope_byte_length t - off)
      in if len = 0 then t
         else let (left, rest) = rope_split t off;
                  (middle, right) = rope_split rest len
              in concat_tree left right)"

section \<open>Reading text back\<close>

fun append_node_to_string :: "bytes node \<Rightarrow> bytes \<Rightarrow> bytes" where
  "append_node_to_string (Leaf st s) out = out @ s"
| "append_node_to_string (Internal st l r) out =
     append_node_to_string r (append_node_to_string l out)"

definition rope_append_to_string :: "rope \<Rightarrow> bytes \<Rightarrow> bytes" where
  "rope_append_to_string t out =
     (case t of None \<Rightarrow> out | Some n \<Rightarrow> append_node_to_string n out)"

definition rope_to_string :: "rope \<Rightarrow> bytes" where
  "rope_to_string t = rope_append_to_string t []"

definition rope_substring :: "rope \<Rightarrow> offset \<Rightarrow> nat \<Rightarrow> bytes" where
  "rope_substring t byteOffset byteLen =
     (let off = min byteOffset (rope_byte_length t);
          len = min byteLen (rope_byte_length t - off);
          (_, rest) = rope_split t off;
          (middle, right) = rope_split rest len
      in rope_append_to_string middle [])"

section \<open>Lines\<close>

fun count_newlines_before :: "bytes node \<Rightarrow> nat \<Rightarrow> nat" where
  "count_newlines_before (Leaf st s) off =
     (if off = 0 then 0 else count_newlines (take (min off (byteLength st)) s))"
| "count_newlines_before (Internal st l r) off =
     (if off = 0 then 0
      else let leftLen = byteLength (stats l) in
        if off \<le> leftLen then count_newlines_before l off
        else lineCount (stats l) + count_newlines_before r (off - leftLen))"

definition rope_byte_offset_to_line :: "rope \<Rightarrow> offset \<Rightarrow> nat" where
  "rope_byte_offset_to_line t byteOffset =
     (case t of None \<Rightarrow> 0
      | Some n \<Rightarrow> count_newlines_before n (min byteOffset (rope_byte_length t)))"

text \<open>
  The scan of a leaf for the end of its \<open>line\<close>-th newline.  Falling off the end gives the
  length of the leaf's text, which is the \<open>byteLength\<close> the code returns there: \<open>MakeLeaf\<close>,
  the only builder of a leaf, sets it so.
\<close>

fun leaf_line_start :: "bytes \<Rightarrow> nat \<Rightarrow> nat \<Rightarrow> nat \<Rightarrow> nat" where
  "leaf_line_start [] i seen line = i"
| "leaf_line_start (c # cs) i seen line =
     (if c = newline then
        (if Suc seen = line then i + 1 else leaf_line_start cs (Suc i) (Suc seen) line)
      else leaf_line_start cs (Suc i) seen line)"

fun find_line_start :: "bytes node \<Rightarrow> nat \<Rightarrow> nat" where
  "find_line_start (Leaf st s) line = (if line = 0 then 0 else leaf_line_start s 0 0 line)"
| "find_line_start (Internal st l r) line =
     (if line = 0 then 0
      else if lineCount (stats l) \<ge> line then find_line_start l line
      else byteLength (stats l) + find_line_start r (line - lineCount (stats l)))"

definition rope_line_to_byte_offset :: "rope \<Rightarrow> nat \<Rightarrow> offset" where
  "rope_line_to_byte_offset t line =
     (case t of None \<Rightarrow> 0
      | Some n \<Rightarrow>
          if line = 0 then 0
          else if line > lineCount (stats n) then byteLength (stats n)
          else find_line_start n line)"

section \<open>Codepoints\<close>

fun count_codepoints_before :: "bytes node \<Rightarrow> nat \<Rightarrow> nat" where
  "count_codepoints_before (Leaf st s) off =
     (if off = 0 then 0 else count_codepoints (take (min off (byteLength st)) s))"
| "count_codepoints_before (Internal st l r) off =
     (if off = 0 then 0
      else let leftLen = byteLength (stats l) in
        if off \<le> leftLen then count_codepoints_before l off
        else codepointLength (stats l) + count_codepoints_before r (off - leftLen))"

definition rope_byte_to_codepoint_offset :: "rope \<Rightarrow> offset \<Rightarrow> nat" where
  "rope_byte_to_codepoint_offset t byteOffset =
     (case t of None \<Rightarrow> 0
      | Some n \<Rightarrow> count_codepoints_before n (min byteOffset (rope_byte_length t)))"

fun leaf_codepoint_start :: "bytes \<Rightarrow> nat \<Rightarrow> nat \<Rightarrow> nat \<Rightarrow> nat" where
  "leaf_codepoint_start [] i seen target = i"
| "leaf_codepoint_start (c # cs) i seen target =
     (if \<not> is_continuation_byte c then
        (if seen = target then i else leaf_codepoint_start cs (Suc i) (Suc seen) target)
      else leaf_codepoint_start cs (Suc i) seen target)"

fun find_codepoint_start :: "bytes node \<Rightarrow> nat \<Rightarrow> nat" where
  "find_codepoint_start (Leaf st s) target =
     (if target = 0 then 0 else leaf_codepoint_start s 0 0 target)"
| "find_codepoint_start (Internal st l r) target =
     (if target = 0 then 0
      else if codepointLength (stats l) \<ge> target then find_codepoint_start l target
      else byteLength (stats l) + find_codepoint_start r (target - codepointLength (stats l)))"

definition rope_codepoint_to_byte_offset :: "rope \<Rightarrow> nat \<Rightarrow> offset" where
  "rope_codepoint_to_byte_offset t target =
     (case t of None \<Rightarrow> 0
      | Some n \<Rightarrow>
          if target = 0 then 0
          else if target \<ge> codepointLength (stats n) then byteLength (stats n)
          else find_codepoint_start n target)"

text \<open>\<open>ByteAt\<close>; \<open>None\<close> is a read outside the leaf's text or through a null root.\<close>

fun byte_at_node :: "bytes node \<Rightarrow> nat \<Rightarrow> char option" where
  "byte_at_node (Leaf st s) off = (if off < length s then Some (s ! off) else None)"
| "byte_at_node (Internal st l r) off =
     (let leftLen = byteLength (stats l) in
      if off < leftLen then byte_at_node l off else byte_at_node r (off - leftLen))"

definition rope_byte_at :: "rope \<Rightarrow> nat \<Rightarrow> char option" where
  "rope_byte_at t off = (case t of None \<Rightarrow> None | Some n \<Rightarrow> byte_at_node n off)"

text \<open>
  \<open>CodepointAt\<close> and the two boundary steps read the text through \<open>ByteAt\<close> only, so
  they are written over a byte reader \<open>rd\<close> and the total length; an outer \<open>None\<close> is
  an out-of-bounds read.  \<open>read_tail\<close> is the loop over the bytes after the lead, whose
  inner \<open>None\<close> is the early return on a byte that is no continuation.
\<close>

fun read_tail :: "(nat \<Rightarrow> char option) \<Rightarrow> nat \<Rightarrow> nat \<Rightarrow> char32 \<Rightarrow> char32 option option" where
  "read_tail rd pos 0 cp = Some (Some cp)"
| "read_tail rd pos (Suc n) cp =
     (case rd pos of None \<Rightarrow> None
      | Some b \<Rightarrow>
          if \<not> is_continuation_byte b then Some None
          else read_tail rd (Suc pos) n (push_bit 6 cp OR (ucast (u8 b) AND 0x3F)))"

definition codepoint_via :: "nat \<Rightarrow> (nat \<Rightarrow> char option) \<Rightarrow> offset \<Rightarrow> (char32 \<times> nat) option" where
  "codepoint_via tot rd byteOffset =
     (if byteOffset \<ge> tot then Some (replacement_char, 0)
      else case rd byteOffset of None \<Rightarrow> None
        | Some c \<Rightarrow>
            let b0 = u8 c in
            if b0 < 0x80 then Some (ucast b0, 1)
            else case decode_lead b0 of
                None \<Rightarrow> Some (replacement_char, 1)
              | Some (len, cp) \<Rightarrow>
                  if byteOffset + len > tot then Some (replacement_char, 1)
                  else case read_tail rd (byteOffset + 1) (len - 1) cp of
                      None \<Rightarrow> None
                    | Some None \<Rightarrow> Some (replacement_char, 1)
                    | Some (Some cp') \<Rightarrow>
                        if \<not> is_scalar_value_encoding cp' len then Some (replacement_char, 1)
                        else Some (cp', len))"

fun back_steps :: "(nat \<Rightarrow> char option) \<Rightarrow> nat \<Rightarrow> offset \<Rightarrow> offset option" where
  "back_steps rd left 0 = Some 0"
| "back_steps rd left (Suc off) =
     (case rd (Suc off) of None \<Rightarrow> None
      | Some c \<Rightarrow>
          if is_continuation_byte c \<and> left > 0 then back_steps rd (left - 1) off
          else Some (Suc off))"

definition previous_boundary_via :: "nat \<Rightarrow> (nat \<Rightarrow> char option) \<Rightarrow> offset \<Rightarrow> offset option" where
  "previous_boundary_via tot rd byteOffset =
     (if byteOffset = 0 then Some 0
      else case back_steps rd 3 (byteOffset - 1) of None \<Rightarrow> None
        | Some off \<Rightarrow>
            (case codepoint_via tot rd off of None \<Rightarrow> None
             | Some (_, len) \<Rightarrow> Some (if off + len \<ge> byteOffset then off else byteOffset - 1)))"

definition next_boundary_via :: "nat \<Rightarrow> (nat \<Rightarrow> char option) \<Rightarrow> offset \<Rightarrow> offset option" where
  "next_boundary_via tot rd byteOffset =
     (if byteOffset \<ge> tot then Some tot
      else map_option (\<lambda>(_, len). byteOffset + len) (codepoint_via tot rd byteOffset))"

definition rope_codepoint_at :: "rope \<Rightarrow> offset \<Rightarrow> (char32 \<times> nat) option" where
  "rope_codepoint_at t = codepoint_via (rope_byte_length t) (rope_byte_at t)"

definition rope_previous_boundary :: "rope \<Rightarrow> offset \<Rightarrow> offset option" where
  "rope_previous_boundary t = previous_boundary_via (rope_byte_length t) (rope_byte_at t)"

definition rope_next_boundary :: "rope \<Rightarrow> offset \<Rightarrow> offset option" where
  "rope_next_boundary t = next_boundary_via (rope_byte_length t) (rope_byte_at t)"


section \<open>The text a rope stands for\<close>

abbreviation rope_text :: "rope \<Rightarrow> bytes" where
  "rope_text \<equiv> tree_text (\<lambda>s. s)"

abbreviation rope_wf :: "rope \<Rightarrow> bool" where
  "rope_wf \<equiv> wf_tree (\<lambda>s. s)"

lemma append_node_to_string: "append_node_to_string n out = out @ node_text (\<lambda>s. s) n"
  by (induction n arbitrary: out) auto

lemma rope_append_to_string [simp]: "rope_append_to_string t out = out @ rope_text t"
  by (cases t) (simp_all add: rope_append_to_string_def append_node_to_string)

lemma rope_to_string [text_simps]: "rope_to_string t = rope_text t"
  by (simp add: rope_to_string_def)

lemma rope_make_leaf [simp]:
  "rope_text (rope_make_leaf s) = s" "rope_wf (rope_make_leaf s)" "balanced_tree (rope_make_leaf s)"
  by (simp_all add: rope_make_leaf_def)

lemma rope_measures [stat_simps]:
  assumes "rope_wf t"
  shows "rope_byte_length t = length (rope_text t)"
    "rope_codepoint_length t = count_codepoints (rope_text t)"
    "rope_line_count t = count_newlines (rope_text t) + 1"
    "rope_empty t \<longleftrightarrow> rope_text t = []"
  using assms
  by (cases t; simp add: rope_byte_length_def rope_codepoint_length_def rope_line_count_def
      rope_empty_def wf_node_stats wf_node_text_nonempty)+

text \<open>Building from a chunkable text returns, and the tree holds the text.\<close>

lemma tiles_chunk_bytes:
  "tiles k s off spans \<Longrightarrow> concat (map (chunk_bytes s) spans) = drop off s"
proof -
  assume t: "tiles k s off spans"
  have "map (chunk_bytes s) spans =
      map (\<lambda>(o', len). substr s o' (case len of None \<Rightarrow> length s - o' | Some n \<Rightarrow> n)) spans"
    by (auto simp: chunk_bytes_def substr_def split: option.splits)
  with tiles_concat [OF t] show ?thesis by (simp only:)
qed

lemma rope_of_text_returns [inv_intros]:
  assumes "chunkable kChunkSize s"
  shows "\<exists>t. rope_of_text s = Some t \<and> rope_text t = s \<and> rope_wf t"
proof (cases "s = []")
  case True
  then show ?thesis by (simp add: rope_of_text_def)
next
  case False
  from chunk_spans_tiles [OF assms, of 0] obtain spans
    where spans: "chunk_spans kChunkSize s 0 = Some spans" "tiles kChunkSize s 0 spans"
    by auto
  let ?t = "build_balanced (map (\<lambda>c. rope_make_leaf (chunk_bytes s c)) spans)"
  have "rope_text ?t = concat (map (chunk_bytes s) spans)"
    by (simp add: build_balanced_text comp_def)
  then have "rope_text ?t = s"
    using tiles_chunk_bytes [OF spans(2)] by simp
  moreover have "rope_wf ?t"
    by (rule build_balanced_wf) auto
  ultimately show ?thesis
    using False spans by (simp add: rope_of_text_def)
qed

text \<open>Splitting.\<close>

lemma split_node_props:
  assumes "wf_node (\<lambda>s. s) n"
  shows "rope_text (fst (split_node n off)) = take off (node_text (\<lambda>s. s) n)"
    "rope_text (snd (split_node n off)) = drop off (node_text (\<lambda>s. s) n)"
    "rope_wf (fst (split_node n off))" "rope_wf (snd (split_node n off))"
  using assms
proof (induction n arbitrary: off)
  case (Leaf st s)
  { case 1 then show ?case by simp
  next case 2 then show ?case by simp
  next case 3 then show ?case by simp
  next case 4 then show ?case by simp }
next
  case (Internal st l r)
  note IH = Internal.IH
  { case 1
    then show ?case using IH(1) [of off] IH(5) [of "off - byteLength (stats l)"]
      by (auto simp: Let_def wf_node_stats concat_tree_text split: prod.splits)
  next case 2
    then show ?case using IH(2) [of off] IH(6) [of "off - byteLength (stats l)"]
      by (auto simp: Let_def wf_node_stats concat_tree_text split: prod.splits)
  next case 3
    then show ?case using IH(3) [of off] IH(7) [of "off - byteLength (stats l)"]
      by (auto simp: Let_def intro!: concat_tree_wf split: prod.splits)
  next case 4
    then show ?case using IH(4) [of off] IH(8) [of "off - byteLength (stats l)"]
      by (auto simp: Let_def intro!: concat_tree_wf split: prod.splits) }
qed

lemma split_node_balanced:
  assumes "wf_node (\<lambda>s. s) n" "balanced n"
  shows "balanced_tree (fst (split_node n off)) \<and> balanced_tree (snd (split_node n off))"
  using assms
proof (induction n arbitrary: off)
  case (Leaf st s)
  then show ?case by simp
next
  case (Internal st l r)
  have "rope_wf (snd (split_node l off))" "rope_wf (fst (split_node r (off - byteLength (stats l))))"
    using Internal.prems split_node_props by auto
  with Internal.IH(1) [of off] Internal.IH(2) [of "off - byteLength (stats l)"] Internal.prems
  show ?case
    by (auto simp: Let_def intro!: concat_tree_balanced [where v = "\<lambda>s. s"] split: prod.splits)
qed

lemma rope_split_props:
  assumes "rope_wf t"
  shows "rope_text (fst (rope_split t off)) = take off (rope_text t)"
    "rope_text (snd (rope_split t off)) = drop off (rope_text t)"
    "rope_wf (fst (rope_split t off))" "rope_wf (snd (rope_split t off))"
    "balanced_tree t \<Longrightarrow> balanced_tree (fst (rope_split t off))"
    "balanced_tree t \<Longrightarrow> balanced_tree (snd (rope_split t off))"
  using assms
  by (cases t; simp add: rope_split_def split_node_props split_node_balanced)+

lemma rope_split_eqs:
  assumes "rope_wf t" "rope_split t off = (a, b)"
  shows "rope_text a = take off (rope_text t)" "rope_text b = drop off (rope_text t)"
    "rope_wf a" "rope_wf b" "balanced_tree t \<Longrightarrow> balanced_tree a" "balanced_tree t \<Longrightarrow> balanced_tree b"
  using rope_split_props [OF assms(1), of off] assms(2) by simp_all

text \<open>Insertion and erasure on the text.\<close>

lemma rope_inserted_text:
  assumes "rope_wf t" "chunkable kChunkSize s"
  shows "\<exists>t'. rope_inserted t off s = Some t' \<and>
           rope_text t' = splice_in (rope_text t) off s \<and> rope_wf t'"
proof (cases "s = []")
  case True
  with assms show ?thesis by (simp add: rope_inserted_def splice_in_def)
next
  case False
  let ?off = "min off (rope_byte_length t)"
  obtain left right where split: "rope_split t ?off = (left, right)" by fastforce
  from rope_of_text_returns [OF assms(2)] obtain middle
    where m: "rope_of_text s = Some middle" "rope_text middle = s" "rope_wf middle" by blast
  note sp = rope_split_eqs [OF assms(1) split]
  have "rope_text (concat_tree (concat_tree left middle) right) = splice_in (rope_text t) off s"
    using assms(1) m(2) sp(1,2)
    by (simp add: concat_tree_text rope_measures splice_in_def min_def)
  moreover have "rope_wf (concat_tree (concat_tree left middle) right)"
    using sp(3,4) m(3) by (intro concat_tree_wf)
  ultimately show ?thesis
    using False m(1) split by (simp add: rope_inserted_def Let_def)
qed

text \<open>
  Which texts the building loop never gets through.  It stalls at a byte that is no continuation
  byte and is followed by \<open>kChunkSize\<close> of them: the chunk's end steps back to its own start.  Only when the text begins with more than a chunk of
  continuation bytes does the end step below 0 and wrap around, which ends the loop with the
  whole text in one leaf.
\<close>

definition begins_inside :: "nat \<Rightarrow> bytes \<Rightarrow> bool" where
  "begins_inside k s \<longleftrightarrow> k < length s \<and> (\<forall>j\<le>k. is_continuation_byte (s ! j))"

definition stalls_at :: "nat \<Rightarrow> bytes \<Rightarrow> offset \<Rightarrow> bool" where
  "stalls_at k s p \<longleftrightarrow> p + k < length s \<and> \<not> is_continuation_byte (s ! p) \<and>
     (\<forall>i. p < i \<and> i \<le> p + k \<longrightarrow> is_continuation_byte (s ! i))"

definition stalls :: "nat \<Rightarrow> bytes \<Rightarrow> bool" where
  "stalls k s \<longleftrightarrow> \<not> begins_inside k s \<and> (\<exists>p. stalls_at k s p)"

lemma chunk_back_all: "e < length s \<Longrightarrow> \<forall>j\<le>e. is_continuation_byte (s ! j) \<Longrightarrow> chunk_back s e = None"
  by (induction e) auto

lemma chunk_back_to:
  "p \<le> e \<Longrightarrow> e < length s \<Longrightarrow> \<not> is_continuation_byte (s ! p) \<Longrightarrow>
    \<forall>i. p < i \<and> i \<le> e \<longrightarrow> is_continuation_byte (s ! i) \<Longrightarrow> chunk_back s e = Some p"
proof (induction e)
  case (Suc e)
  then show ?case by (cases "p = Suc e") auto
qed simp

lemma chunk_spans_stalled:
  assumes "stalls_at k s p"
  shows "chunk_spans k s p = None"
proof (rule ccontr)
  assume "chunk_spans k s p \<noteq> None"
  then obtain spans where spans: "chunk_spans k s p = Some spans" by blast
  have "chunk_back s (min (p + k) (length s)) = Some p"
    using assms chunk_back_to [of p "p + k" s] by (simp add: stalls_at_def min_def)
  then have "chunk_spans k s p = Some ((p, Some 0) # spans)"
    using assms spans by (subst chunk_spans.simps) (simp add: stalls_at_def)
  with spans show False by simp
qed

text \<open>A chunk's end, from a chunk start where the loop neither wraps around nor stalls.\<close>

lemma chunk_step:
  assumes "off < length s" "0 < k" "off = 0 \<or> \<not> is_continuation_byte (s ! off)" "\<not> begins_inside k s" "\<not> stalls_at k s off"
  obtains e where "chunk_back s (min (off + k) (length s)) = Some e" "off < e" "e \<le> length s" "e \<le> off + k"
    "e = length s \<or> \<not> is_continuation_byte (s ! e)" "off + k < length s \<Longrightarrow> e < length s"
proof (cases "off + k < length s")
  case True
  have "\<exists>j. off < j \<and> j \<le> off + k \<and> \<not> is_continuation_byte (s ! j)"
  proof (rule ccontr)
    assume "\<not> ?thesis"
    then have rest: "is_continuation_byte (s ! i)" if "off < i" "i \<le> off + k" for i using that by blast
    with assms(5) True have "is_continuation_byte (s ! off)" by (auto simp: stalls_at_def)
    then have "off = 0" using assms(3) by blast
    then have "is_continuation_byte (s ! j)" if "j \<le> k" for j
      using rest [of j] \<open>is_continuation_byte (s ! off)\<close> that by (cases "j = 0") auto
    with assms(4) True \<open>off = 0\<close> show False by (auto simp: begins_inside_def)
  qed
  then obtain j where "off < j" "j \<le> off + k" "\<not> is_continuation_byte (s ! j)" by blast
  with chunk_back_finds [of off j "off + k" s] True obtain e where
    "chunk_back s (off + k) = Some e" "off < e" "e \<le> off + k" "e = length s \<or> \<not> is_continuation_byte (s ! e)" by auto
  then show ?thesis using that [of e] True by (simp add: min_def)
next
  case False
  then have "chunk_back s (min (off + k) (length s)) = Some (length s)" by (cases "length s") (simp_all add: min_def)
  then show ?thesis using that [of "length s"] assms(1) False by simp
qed

lemma chunk_spans_stall:
  assumes "stalls_at k s p" "0 < k" "\<not> begins_inside k s" "off \<le> p" "off = 0 \<or> \<not> is_continuation_byte (s ! off)"
  shows "chunk_spans k s off = None"
  using assms(4,5)
proof (induction "p - off" arbitrary: off rule: less_induct)
  case less
  show ?case
  proof (cases "stalls_at k s off")
    case True
    then show ?thesis by (rule chunk_spans_stalled)
  next
    case False
    have off: "off < p" "off + k < length s" "off < length s"
      using less.prems(1) False assms(1) by (cases "off = p"; auto simp: stalls_at_def)+
    obtain e where e: "chunk_back s (min (off + k) (length s)) = Some e" "off < e" "e \<le> off + k"
      "e = length s \<or> \<not> is_continuation_byte (s ! e)" "e < length s"
      by (rule chunk_step [OF off(3) assms(2) less.prems(2) assms(3) False]) (use off(2) in blast)
    have "e \<le> p"
    proof (rule ccontr)
      assume "\<not> e \<le> p"
      then have "p < e" "e \<le> p + k" using e(3) off(1) by simp_all
      then show False using assms(1) e(4,5) by (auto simp: stalls_at_def)
    qed
    moreover have "p - e < p - off" using e(2) \<open>e \<le> p\<close> off(1) by linarith
    ultimately have "chunk_spans k s e = None" using less.hyps [of e] e(4,5) by auto
    then show ?thesis using e(1) off(3) by (subst chunk_spans.simps) simp
  qed
qed

lemma chunk_spans_cover:
  assumes "\<And>p. \<not> stalls_at k s p" "0 < k" "\<not> begins_inside k s" "off \<le> length s"
    "off = 0 \<or> off = length s \<or> \<not> is_continuation_byte (s ! off)"
  shows "\<exists>spans. chunk_spans k s off = Some spans \<and> concat (map (chunk_bytes s) spans) = drop off s"
  using assms(4,5)
proof (induction "length s - off" arbitrary: off rule: less_induct)
  case less
  show ?case
  proof (cases "off < length s")
    case True
    then have start: "off = 0 \<or> \<not> is_continuation_byte (s ! off)" using less.prems(2) by auto
    obtain e where e: "chunk_back s (min (off + k) (length s)) = Some e" "off < e" "e \<le> length s"
      "e = length s \<or> \<not> is_continuation_byte (s ! e)"
      by (rule chunk_step [OF True assms(2) start assms(3) assms(1)])
    have "length s - e < length s - off" using True e(2) by linarith
    then obtain rest where rest: "chunk_spans k s e = Some rest" "concat (map (chunk_bytes s) rest) = drop e s"
      using less.hyps [of e] e(3,4) by auto
    have "chunk_spans k s off = Some ((off, Some (e - off)) # rest)"
      using True e rest by (subst chunk_spans.simps) simp
    moreover have "take (e - off) (drop off s) @ drop e s = drop off s"
      using append_take_drop_id [of "e - off" "drop off s"] e(2) by simp
    ultimately show ?thesis using rest(2) by (auto simp: chunk_bytes_def substr_def)
  next
    case False
    with less.prems show ?thesis by (subst chunk_spans.simps) auto
  qed
qed

lemma rope_of_text_iff:
  "case rope_of_text s of None \<Rightarrow> stalls kChunkSize s
   | Some t \<Rightarrow> \<not> stalls kChunkSize s \<and> rope_text t = s \<and> rope_wf t"
proof -
  have k: "0 < kChunkSize" by (simp add: kChunkSize_def)
  consider (wraps) "begins_inside kChunkSize s" | (stall) p where "\<not> begins_inside kChunkSize s" "stalls_at kChunkSize s p"
    | (fine) "\<not> begins_inside kChunkSize s" "\<And>p. \<not> stalls_at kChunkSize s p" by blast
  then show ?thesis
  proof cases
    case stall
    have "chunk_spans kChunkSize s 0 = None" by (rule chunk_spans_stall [OF stall(2) k stall(1)]) simp_all
    moreover have "s \<noteq> []" using stall(2) by (auto simp: stalls_at_def)
    ultimately show ?thesis using stall by (auto simp: rope_of_text_def stalls_def)
  next
    case wraps
    then have "chunk_back s (min (0 + kChunkSize) (length s)) = None" "s \<noteq> []"
      using chunk_back_all [of kChunkSize s] by (auto simp: begins_inside_def min_def)
    then have "chunk_spans kChunkSize s 0 = Some [(0, None)]" by (subst chunk_spans.simps) simp
    then show ?thesis using wraps \<open>s \<noteq> []\<close>
      by (simp add: rope_of_text_def stalls_def chunk_bytes_def rope_make_leaf_def)
  next
    case fine
    obtain spans where spans: "chunk_spans kChunkSize s 0 = Some spans" "concat (map (chunk_bytes s) spans) = s"
      using chunk_spans_cover [OF fine(2) k fine(1), of 0] by auto
    let ?t = "build_balanced (map (\<lambda>c. rope_make_leaf (chunk_bytes s c)) spans)"
    have "rope_text ?t = s" using spans(2) by (simp add: build_balanced_text comp_def)
    moreover have "rope_wf ?t" by (rule build_balanced_wf) auto
    ultimately show ?thesis using spans(1) fine(2) by (cases "s = []") (simp_all add: rope_of_text_def stalls_def)
  qed
qed

lemma rope_inserted_iff:
  assumes "rope_wf t"
  shows "case rope_inserted t off s of None \<Rightarrow> stalls kChunkSize s
   | Some t' \<Rightarrow> \<not> stalls kChunkSize s \<and> rope_text t' = splice_in (rope_text t) off s \<and> rope_wf t'"
proof (cases "s = []")
  case True
  then show ?thesis using assms by (simp add: rope_inserted_def splice_in_def stalls_def stalls_at_def)
next
  case False
  let ?off = "min off (rope_byte_length t)"
  obtain left right where split: "rope_split t ?off = (left, right)" by fastforce
  note sp = rope_split_eqs [OF assms(1) split]
  show ?thesis
  proof (cases "rope_of_text s")
    case None
    then show ?thesis using rope_of_text_iff [of s] False split by (simp add: rope_inserted_def Let_def)
  next
    case (Some m)
    then have m: "\<not> stalls kChunkSize s" "rope_text m = s" "rope_wf m" using rope_of_text_iff [of s] by simp_all
    have "rope_text (concat_tree (concat_tree left m) right) = splice_in (rope_text t) off s"
      using assms(1) m(2) sp(1,2)
      by (simp add: concat_tree_text rope_measures splice_in_def min_def)
    moreover have "rope_wf (concat_tree (concat_tree left m) right)"
      using sp(3,4) m(3) by (intro concat_tree_wf)
    ultimately show ?thesis using False Some m(1) split by (simp add: rope_inserted_def Let_def)
  qed
qed

lemma rope_erased_text:
  assumes "rope_wf t"
  shows "rope_text (rope_erased t off len) = cut_out (rope_text t) off len"
    "rope_wf (rope_erased t off len)"
    "balanced_tree t \<Longrightarrow> balanced_tree (rope_erased t off len)"
proof -
  let ?off = "min off (rope_byte_length t)"
  let ?len = "min len (rope_byte_length t - ?off)"
  obtain left rest where s1: "rope_split t ?off = (left, rest)" by fastforce
  obtain middle right where s2: "rope_split rest ?len = (middle, right)" by fastforce
  note p1 = rope_split_eqs [OF assms s1]
  note p2 = rope_split_eqs [OF p1(4) s2]
  have erased: "rope_erased t off len = (if ?len = 0 then t else concat_tree left right)"
    by (simp only: rope_erased_def Let_def s1 s2 prod.case)
  have len: "rope_byte_length t = length (rope_text t)"
    using assms by (simp add: rope_measures)
  have cut: "rope_text (concat_tree left right) = cut_out (rope_text t) off len"
    using p1(1,2) p2(1,2) len
    by (simp add: concat_tree_text cut_out_def min_def add.commute)
  have noop: "cut_out (rope_text t) off len = rope_text t" if "?len = 0"
    using that len by (auto simp: cut_out_def min_def split: if_splits)
  show "rope_text (rope_erased t off len) = cut_out (rope_text t) off len"
    using erased cut noop by simp
  show "rope_wf (rope_erased t off len)"
    using erased assms p1(3) p2(4) by (simp add: concat_tree_wf)
  show "balanced_tree (rope_erased t off len)" if "balanced_tree t"
    using erased that p1(3,5,6) p2(4,6)
    by (simp add: concat_tree_balanced [where v = "\<lambda>s. s"])
qed

lemma rope_inserted_balanced:
  assumes "rope_wf t" "balanced_tree t" "rope_of_text s = Some m" "rope_wf m" "balanced_tree m"
    "rope_inserted t off s = Some t'"
  shows "balanced_tree t'"
proof (cases "s = []")
  case True
  with assms show ?thesis by (simp add: rope_inserted_def)
next
  case False
  obtain left right where split: "rope_split t (min off (rope_byte_length t)) = (left, right)"
    by fastforce
  note sp = rope_split_eqs [OF assms(1) split]
  have "t' = concat_tree (concat_tree left m) right"
    using False assms(3,6) split by (simp add: rope_inserted_def Let_def)
  then show ?thesis
    using sp assms(2,4,5)
    by (auto intro!: concat_tree_balanced [where v = "\<lambda>s. s"] concat_tree_wf)
qed

lemma rope_substring_text:
  assumes "rope_wf t"
  shows "rope_substring t off len = substr (rope_text t) off len"
proof -
  let ?off = "min off (rope_byte_length t)"
  let ?len = "min len (rope_byte_length t - ?off)"
  obtain left rest where s1: "rope_split t ?off = (left, rest)" by fastforce
  obtain middle right where s2: "rope_split rest ?len = (middle, right)" by fastforce
  note p1 = rope_split_eqs [OF assms s1]
  note p2 = rope_split_eqs [OF p1(4) s2]
  have len: "rope_byte_length t = length (rope_text t)"
    using assms by (simp add: rope_measures)
  show ?thesis
    using s1 s2 p1(2) p2(1) len by (simp add: rope_substring_def Let_def substr_def min_def)
qed


section \<open>Lines and codepoints of the text\<close>

text \<open>
  The reference for \<open>LineToByteOffset\<close>: the offset just past the \<open>line\<close>-th newline,
  or the length of a text that has fewer.
\<close>

fun line_start :: "bytes \<Rightarrow> nat \<Rightarrow> offset" where
  "line_start s 0 = 0"
| "line_start [] (Suc n) = 0"
| "line_start (c # cs) (Suc n) = Suc (line_start cs (if c = newline then n else Suc n))"

lemma line_start_le: "line_start s line \<le> length s"
  by (induction s line rule: line_start.induct) auto

lemma line_start_past_end: "count_newlines s < line \<Longrightarrow> line_start s line = length s"
  by (induction s line rule: line_start.induct) (auto split: if_splits)

lemma line_start_append:
  "line_start (a @ b) line =
     (if line \<le> count_newlines a then line_start a line
      else length a + line_start b (line - count_newlines a))"
proof (induction a line rule: line_start.induct)
  case (3 c cs n)
  have "Suc n - Suc (count_newlines cs) = n - count_newlines cs"
    "\<not> n \<le> k \<Longrightarrow> n - k = Suc (n - Suc k)" for k
    by auto
  with 3 show ?case by (cases "c = newline") (auto simp: Suc_diff_le)
qed auto

lemma count_newlines_line_start:
  "line \<le> count_newlines s \<Longrightarrow> count_newlines (take (line_start s line) s) = line"
  by (induction s line rule: line_start.induct) (auto split: if_splits)

lemma count_newlines_take_le: "count_newlines (take off s) \<le> count_newlines s"
proof -
  have "count_newlines s = count_newlines (take off s) + count_newlines (drop off s)"
    by (metis append_take_drop_id count_newlines_append)
  then show ?thesis by simp
qed

lemma leaf_line_start:
  "seen < line \<Longrightarrow> leaf_line_start s i seen line = i + line_start s (line - seen)"
proof (induction s i seen line rule: leaf_line_start.induct)
  case (1 i seen line)
  then show ?case by (cases "line - seen") auto
next
  case (2 c cs i seen line)
  from "2.prems" obtain n where n: "line - seen = Suc n" by (cases "line - seen") auto
  show ?case
  proof (cases "c = newline")
    case True
    show ?thesis
    proof (cases "Suc seen = line")
      case True
      with n have "n = 0" by simp
      with True n \<open>c = newline\<close> show ?thesis by simp
    next
      case False
      with "2.prems" have "Suc seen < line" "line - Suc seen = n" using n by linarith+
      with False True n "2.IH"(1) show ?thesis by simp
    qed
  next
    case False
    with n "2.IH"(2) "2.prems" show ?thesis by simp
  qed
qed

lemma find_line_start:
  "wf_node (\<lambda>s. s) n \<Longrightarrow> find_line_start n line = line_start (node_text (\<lambda>s. s) n) line"
proof (induction n line rule: find_line_start.induct)
  case (1 st s line)
  then show ?case by (simp add: leaf_line_start)
next
  case (2 st l r line)
  then show ?case
    by (cases "line = 0") (auto simp: line_start_append wf_node_stats)
qed

lemma count_newlines_before:
  "wf_node (\<lambda>s. s) n \<Longrightarrow> count_newlines_before n off = count_newlines (take off (node_text (\<lambda>s. s) n))"
proof (induction n off rule: count_newlines_before.induct)
  case (1 st s off)
  then show ?case by (simp add: min_def)
next
  case (2 st l r off)
  then show ?case
    by (cases "off = 0") (auto simp: Let_def wf_node_stats)
qed

lemma rope_line_queries:
  assumes "rope_wf t"
  shows "rope_byte_offset_to_line t off = count_newlines (take off (rope_text t))"
    "rope_line_to_byte_offset t line = line_start (rope_text t) line"
proof -
  show "rope_byte_offset_to_line t off = count_newlines (take off (rope_text t))"
    using assms
    by (cases t) (simp_all add: rope_byte_offset_to_line_def rope_byte_length_def
        count_newlines_before wf_node_stats min_def)
  show "rope_line_to_byte_offset t line = line_start (rope_text t) line"
    using assms
    by (cases t; cases line) (auto simp: rope_line_to_byte_offset_def find_line_start
        wf_node_stats line_start_past_end)
qed

lemma count_codepoints_before:
  "wf_node (\<lambda>s. s) n \<Longrightarrow>
     count_codepoints_before n off = count_codepoints (take off (node_text (\<lambda>s. s) n))"
proof (induction n off rule: count_codepoints_before.induct)
  case (1 st s off)
  then show ?case by (simp add: min_def)
next
  case (2 st l r off)
  then show ?case
    by (cases "off = 0") (auto simp: Let_def wf_node_stats)
qed

lemma leaf_codepoint_start:
  "seen \<le> target \<Longrightarrow>
     \<exists>k. leaf_codepoint_start s i seen target = i + k \<and> k \<le> length s \<and>
         count_codepoints (take k s) = min (target - seen) (count_codepoints s)"
proof (induction s i seen target rule: leaf_codepoint_start.induct)
  case (1 i seen target)
  then show ?case by simp
next
  case (2 c cs i seen target)
  show ?case
  proof (cases "\<not> is_continuation_byte c \<and> seen = target")
    case True
    then show ?thesis by (intro exI [of _ 0]) simp
  next
    case False
    define seen' where "seen' = (if is_continuation_byte c then seen else Suc seen)"
    have le: "seen' \<le> target" using False "2.prems" by (auto simp: seen'_def)
    have "\<exists>k. leaf_codepoint_start cs (Suc i) seen' target = Suc i + k \<and> k \<le> length cs \<and>
         count_codepoints (take k cs) = min (target - seen') (count_codepoints cs)"
      using "2.IH" False le by (auto simp: seen'_def split: if_splits)
    then obtain k where "leaf_codepoint_start cs (Suc i) seen' target = Suc i + k" "k \<le> length cs"
      "count_codepoints (take k cs) = min (target - seen') (count_codepoints cs)"
      by blast
    with False le show ?thesis
      by (intro exI [of _ "Suc k"]) (auto simp: seen'_def min_def split: if_splits)
  qed
qed

lemma find_codepoint_start:
  "wf_node (\<lambda>s. s) n \<Longrightarrow>
     find_codepoint_start n target \<le> length (node_text (\<lambda>s. s) n) \<and>
     count_codepoints (take (find_codepoint_start n target) (node_text (\<lambda>s. s) n)) =
       min target (count_codepoints (node_text (\<lambda>s. s) n))"
proof (induction n target rule: find_codepoint_start.induct)
  case (1 st s target)
  then show ?case using leaf_codepoint_start [of 0 target s 0] by auto
next
  case (2 st l r target)
  then show ?case
    by (cases "target = 0") (auto simp: wf_node_stats min_def)
qed

lemma rope_codepoint_queries:
  assumes "rope_wf t"
  shows "rope_byte_to_codepoint_offset t off = count_codepoints (take off (rope_text t))"
    "count_codepoints (take (rope_codepoint_to_byte_offset t n) (rope_text t)) =
       min n (count_codepoints (rope_text t))"
    "rope_codepoint_to_byte_offset t n \<le> length (rope_text t)"
proof -
  show "rope_byte_to_codepoint_offset t off = count_codepoints (take off (rope_text t))"
    using assms
    by (cases t) (simp_all add: rope_byte_to_codepoint_offset_def rope_byte_length_def
        count_codepoints_before wf_node_stats min_def)
  show "count_codepoints (take (rope_codepoint_to_byte_offset t n) (rope_text t)) =
       min n (count_codepoints (rope_text t))"
    using assms find_codepoint_start
    by (cases t) (auto simp: rope_codepoint_to_byte_offset_def wf_node_stats min_def)
  show "rope_codepoint_to_byte_offset t n \<le> length (rope_text t)"
    using assms find_codepoint_start
    by (cases t) (auto simp: rope_codepoint_to_byte_offset_def wf_node_stats)
qed

section \<open>Reading single codepoints\<close>

lemma byte_at_node:
  "wf_node (\<lambda>s. s) n \<Longrightarrow> off < length (node_text (\<lambda>s. s) n) \<Longrightarrow>
     byte_at_node n off = Some (node_text (\<lambda>s. s) n ! off)"
  by (induction n off rule: byte_at_node.induct) (auto simp: Let_def wf_node_stats nth_append)

lemma rope_byte_at:
  "rope_wf t \<Longrightarrow> off < length (rope_text t) \<Longrightarrow> rope_byte_at t off = Some (rope_text t ! off)"
  by (cases t) (simp_all add: rope_byte_at_def byte_at_node)

text \<open>A reader that reads \<open>s\<close> at every offset inside it.\<close>

definition reads :: "(nat \<Rightarrow> char option) \<Rightarrow> bytes \<Rightarrow> bool" where
  "reads rd s \<longleftrightarrow> (\<forall>i < length s. rd i = Some (s ! i))"

lemma readsD: "reads rd s \<Longrightarrow> i < length s \<Longrightarrow> rd i = Some (s ! i)"
  by (simp add: reads_def)

lemma reads_rope: "rope_wf t \<Longrightarrow> reads (rope_byte_at t) (rope_text t)"
  by (simp add: reads_def rope_byte_at)

lemma read_tail:
  "reads rd s \<Longrightarrow> pos + n \<le> length s \<Longrightarrow> read_tail rd pos n cp = Some (decode_tail (substr s pos n) cp)"
proof (induction n arbitrary: pos cp)
  case 0
  then show ?case by (simp add: substr_def)
next
  case (Suc n)
  have "substr s pos (Suc n) = s ! pos # substr s (Suc pos) n"
    using Suc.prems(2) by (simp add: substr_def Cons_nth_drop_Suc [symmetric])
  with Suc show ?case by (simp add: readsD)
qed

lemma codepoint_via: "reads rd s \<Longrightarrow> codepoint_via (length s) rd off = Some (decoded_at s off)"
proof -
  assume rd: "reads rd s"
  show ?thesis
  proof (cases "off < length s")
    case True
    then have "rd off = Some (s ! off)" by (rule readsD [OF rd])
    moreover have "read_tail rd (off + 1) (len - 1) cp = Some (decode_tail (substr s (off + 1) (len - 1)) cp)"
      if "decode_lead (u8 (s ! off)) = Some (len, cp)" "off + len \<le> length s" for len cp
      using that decode_lead_length [OF that(1)] by (intro read_tail [OF rd]) auto
    ultimately show ?thesis
      using True by (auto simp: codepoint_via_def decoded_at_def Let_def split: option.splits prod.splits)
  next
    case False
    then show ?thesis by (simp add: codepoint_via_def decoded_at_def)
  qed
qed

lemma next_boundary_via:
  "reads rd s \<Longrightarrow> next_boundary_via (length s) rd off =
     Some (if off \<ge> length s then length s else off + snd (decoded_at s off))"
  by (simp add: next_boundary_via_def codepoint_via split: prod.splits)

text \<open>Where the backward scan stops.\<close>

lemma back_steps:
  assumes "reads rd s" "off < length s"
  shows "\<exists>o'. back_steps rd k off = Some o' \<and> o' \<le> off \<and> off \<le> o' + k \<and>
     (\<forall>j. o' < j \<and> j \<le> off \<longrightarrow> is_continuation_byte (s ! j)) \<and>
     (o' = 0 \<or> off = o' + k \<or> \<not> is_continuation_byte (s ! o'))"
  using assms(2)
proof (induction off arbitrary: k)
  case 0
  then show ?case by simp
next
  case (Suc off)
  have rd: "rd (Suc off) = Some (s ! Suc off)" using readsD [OF assms(1)] Suc.prems by simp
  show ?case
  proof (cases "is_continuation_byte (s ! Suc off) \<and> k > 0")
    case True
    have "off < length s" using Suc.prems by simp
    from Suc.IH [OF this, of "k - 1"] obtain o' where
      o': "back_steps rd (k - 1) off = Some o'" "o' \<le> off" "off \<le> o' + (k - 1)"
      "\<forall>j. o' < j \<and> j \<le> off \<longrightarrow> is_continuation_byte (s ! j)"
      "o' = 0 \<or> off = o' + (k - 1) \<or> \<not> is_continuation_byte (s ! o')"
      by blast
    have all: "\<forall>j. o' < j \<and> j \<le> Suc off \<longrightarrow> is_continuation_byte (s ! j)"
      using o'(4) True by (metis le_Suc_eq)
    have some: "back_steps rd k (Suc off) = Some o'" using o'(1) True rd by simp
    have stop: "o' = 0 \<or> Suc off = o' + k \<or> \<not> is_continuation_byte (s ! o')"
      using o'(5) True by linarith
    have le: "o' \<le> Suc off" "Suc off \<le> o' + k" using o'(2,3) True by linarith+
    show ?thesis using all some stop le by blast
  next
    case False
    then have "back_steps rd k (Suc off) = Some (Suc off)" using rd by auto
    with False show ?thesis by (intro exI [of _ "Suc off"]) auto
  qed
qed

text \<open>
  Stepping back is total inside the text, makes progress, and from the end of a
  forward step returns to where that step began.
\<close>

lemma previous_boundary_progress:
  assumes "reads rd s" "0 < off" "off \<le> length s"
  shows "\<exists>p. previous_boundary_via (length s) rd off = Some p \<and> p < off \<and>
             off \<le> p + snd (decoded_at s p)"
proof -
  have "off - 1 < length s" using assms by simp
  then obtain o' where o': "back_steps rd 3 (off - 1) = Some o'" "o' \<le> off - 1"
    using back_steps [OF assms(1), of "off - 1" 3] by blast
  have "1 \<le> snd (decoded_at s (off - 1))"
    using assms by (intro snd_decoded_at_pos) simp
  with assms o' show ?thesis
    by (auto simp: previous_boundary_via_def codepoint_via split: prod.splits)
qed

lemma previous_undoes_next:
  assumes rd: "reads rd s" and start: "codepoint_start s b" and b: "b < length s"
  shows "previous_boundary_via (length s) rd (b + snd (decoded_at s b)) = Some b"
proof -
  let ?len = "snd (decoded_at s b)"
  let ?e = "b + ?len"
  have len: "1 \<le> ?len" "?len \<le> 4" "?e \<le> length s"
    using snd_decoded_at_pos [OF b] snd_decoded_at_bound snd_decoded_at_le [of b s] b by auto
  have "?e - 1 < length s" using len by simp
  then obtain o' where o': "back_steps rd 3 (?e - 1) = Some o'" "o' \<le> ?e - 1" "?e - 1 \<le> o' + 3"
    "\<forall>j. o' < j \<and> j \<le> ?e - 1 \<longrightarrow> is_continuation_byte (s ! j)"
    "o' = 0 \<or> ?e - 1 = o' + 3 \<or> \<not> is_continuation_byte (s ! o')"
    using back_steps [OF rd, of "?e - 1" 3] by blast
  have result: "previous_boundary_via (length s) rd ?e =
      Some (if o' + snd (decoded_at s o') \<ge> ?e then o' else ?e - 1)"
    using o'(1) len by (simp add: previous_boundary_via_def codepoint_via [OF rd] split: prod.splits)
  show ?thesis
  proof (cases "2 \<le> ?len")
    case True
    have "\<not> o' < b" using o'(4) decoded_multi(1) [OF True] len True by auto
    moreover have "\<not> b < o'"
      using o'(2,3,5) decoded_multi(2) [OF True] len by fastforce
    ultimately have "o' = b" by simp
    with result show ?thesis by simp
  next
    case False
    then have one: "?len = 1" using len by simp
    show ?thesis
    proof (cases "o' = b")
      case True
      with result show ?thesis by simp
    next
      case False
      then have "o' < b" using o'(2) one by simp
      have "\<not> o' + snd (decoded_at s o') \<ge> ?e"
      proof
        assume ge: "o' + snd (decoded_at s o') \<ge> ?e"
        then have "2 \<le> snd (decoded_at s o')" using \<open>o' < b\<close> one by simp
        from codepoint_start_not_inside [OF start this] \<open>o' < b\<close> ge one show False by simp
      qed
      with result one show ?thesis by simp
    qed
  qed
qed

section \<open>Ropes that editing builds\<close>

text \<open>
  The ropes reachable by typing: from the empty rope, any sequence of insertions of at
  most one chunk of UTF-8 text and of erasures, at any offsets.
\<close>

inductive rope_reachable :: "rope \<Rightarrow> bool" where
  start: "rope_reachable None"
| insert: "rope_reachable t \<Longrightarrow> length s \<le> kChunkSize \<Longrightarrow> chunkable kChunkSize s \<Longrightarrow>
    rope_inserted t off s = Some t' \<Longrightarrow> rope_reachable t'"
| erase: "rope_reachable t \<Longrightarrow> rope_reachable (rope_erased t off len)"

inductive_cases rope_reachableE: "rope_reachable t"

lemma short_rope_of_text:
  assumes "length s \<le> kChunkSize" "chunkable kChunkSize s"
  shows "rope_of_text s = Some (rope_make_leaf s)"
proof (cases "s = []")
  case True
  then show ?thesis by (simp add: rope_of_text_def rope_make_leaf_def)
next
  case False
  have "chunk_back s (length s) = Some (length s)" by (cases "length s") auto
  moreover have "chunk_spans kChunkSize s (length s) = Some []" by (subst chunk_spans.simps) simp
  moreover have "min (0 + kChunkSize) (length s) = length s" using assms(1) by simp
  ultimately have "chunk_spans kChunkSize s 0 = Some [(0, Some (length s))]"
    using False by (subst chunk_spans.simps) (simp only: length_greater_0_conv option.case bind.bind_lunit, simp)
  with False show ?thesis by (simp add: rope_of_text_def chunk_bytes_def)
qed

lemma rope_reachable_inv: "rope_reachable t \<Longrightarrow> rope_wf t \<and> balanced_tree t"
proof (induction rule: rope_reachable.induct)
  case (insert t s off t')
  have "rope_of_text s = Some (rope_make_leaf s)"
    using insert.hyps by (intro short_rope_of_text)
  then have "balanced_tree t'"
    using rope_inserted_balanced [OF _ _ _ _ _ insert.hyps(4)] insert.IH by simp
  moreover have "rope_wf t'"
    using rope_inserted_text [OF _ insert.hyps(3), of t off] insert.IH insert.hyps(4) by simp
  ultimately show ?case by simp
qed (simp_all add: rope_erased_text)

lemma rope_depth_bound:
  "rope_wf t \<Longrightarrow> balanced_tree t \<Longrightarrow> t \<noteq> None \<Longrightarrow>
     2 ^ (tree_depth t div 2) \<le> length (rope_text t)"
  by (cases t) (auto simp: balanced_depth_bound)

section \<open>The properties\<close>

text \<open>
  Building a rope from any valid UTF-8 text returns, the rope reads back as that
  text, and every figure it caches is the text's own.
\<close>

theorem rope_of_text_round_trip:
  "\<exists>t. rope_of_text (concat (map encode_codepoint_utf8 cps)) = Some t \<and>
     rope_to_string t = concat (map encode_codepoint_utf8 cps) \<and> rope_wf t \<and>
     rope_byte_length t = length (rope_to_string t) \<and>
     rope_codepoint_length t = length cps \<and>
     rope_line_count t = count_newlines (rope_to_string t) + 1"
proof -
  have "count_codepoints (encode_codepoint_utf8 cp) = 1" for cp
  proof -
    have none: "\<forall>x\<in>set cs. is_continuation_byte x \<Longrightarrow> count_codepoints cs = 0" for cs
      by (induction cs) auto
    obtain c cs where "encode_codepoint_utf8 cp = c # cs" "\<not> is_continuation_byte c"
      "\<forall>x\<in>set cs. is_continuation_byte x" by (rule encode_shape)
    with none show ?thesis by simp
  qed
  then have "count_codepoints (concat (map encode_codepoint_utf8 cps)) = length cps"
    by (induction cps) auto
  with rope_of_text_returns [OF encoded_text_chunkable [of kChunkSize cps]] show ?thesis
    by (auto simp: kChunkSize_def rope_to_string rope_measures)
qed

text \<open>
  C11: inserting into a well-formed rope returns exactly unless some byte of the new text that is
  no continuation byte is followed by \<open>kChunkSize\<close> continuation bytes, and the text does not
  begin with more than \<open>kChunkSize\<close> of them; on such a text it hangs.  What it returns is a
  well-formed rope whose text is the old text with the new bytes spliced in at the clamped
  offset; the inserted range reads back as them, and erasing it gives back the old text.
\<close>

theorem rope_insert_erase:
  assumes "rope_wf t"
  shows "case rope_inserted t off s of
     None \<Rightarrow> stalls kChunkSize s
   | Some t' \<Rightarrow> \<not> stalls kChunkSize s \<and> rope_wf t' \<and>
       rope_to_string t' = take off (rope_to_string t) @ s @ drop off (rope_to_string t) \<and>
       rope_substring t' (min off (rope_byte_length t)) (length s) = s \<and>
       rope_to_string (rope_erased t' (min off (rope_byte_length t)) (length s)) = rope_to_string t"
proof (cases "rope_inserted t off s")
  case None
  then show ?thesis using rope_inserted_iff [OF assms, where off = off and s = s] by simp
next
  case (Some t')
  then have t': "\<not> stalls kChunkSize s" "rope_text t' = splice_in (rope_text t) off s" "rope_wf t'"
    using rope_inserted_iff [OF assms, where off = off and s = s] by simp_all
  let ?o = "min off (length (rope_text t))"
  have "rope_text t' = splice_in (rope_text t) ?o s"
    using t'(2) by (simp add: splice_in_clamp)
  then have "substr (rope_text t') ?o (length s) = s" "cut_out (rope_text t') ?o (length s) = rope_text t"
    by (simp_all add: cut_out_splice_in substr_splice_in)
  with Some t' assms(1) show ?thesis
    by (simp add: rope_to_string rope_measures rope_erased_text rope_substring_text splice_in_def)
qed

theorem rope_insert_erase_witness:
  "\<exists>t'. rope_inserted (rope_make_leaf ''ad'') 1 ''bc'' = Some t' \<and> rope_wf t' \<and>
    rope_to_string t' = ''abcd'' \<and> rope_substring t' 1 2 = ''bc'' \<and> rope_to_string (rope_erased t' 1 2) = ''ad''"
proof -
  have "\<not> stalls kChunkSize ''bc''" by (simp add: stalls_def stalls_at_def kChunkSize_def)
  moreover have "rope_to_string (rope_make_leaf ''ad'') = ''ad''" "rope_byte_length (rope_make_leaf ''ad'') = 2"
    by (simp_all add: rope_to_string rope_measures)
  ultimately show ?thesis
    using rope_insert_erase [of "rope_make_leaf ''ad''", where off = 1 and s = "''bc''"]
    by (cases "rope_inserted (rope_make_leaf ''ad'') 1 ''bc''") (simp_all add: numeral_2_eq_2)
qed

text \<open>Malformed text that stalls: one letter and then 513 continuation bytes, which a file may well hold.\<close>

lemma malformed_text_stalls: "rope_inserted None 0 (CHR ''a'' # replicate 513 (CHR 0x80)) = None"
proof -
  have "stalls_at kChunkSize (CHR ''a'' # replicate 513 (CHR 0x80)) 0"
    by (auto simp: stalls_at_def kChunkSize_def is_continuation_byte_def nth_Cons' simp del: replicate.simps)
  moreover have "\<not> begins_inside kChunkSize (CHR ''a'' # replicate 513 (CHR 0x80))"
    by (auto simp: begins_inside_def is_continuation_byte_def simp del: replicate.simps intro!: exI [of _ 0])
  ultimately have "stalls kChunkSize (CHR ''a'' # replicate 513 (CHR 0x80))" unfolding stalls_def by blast
  then show ?thesis
    using rope_inserted_iff [of None, where off = 0 and s = "CHR ''a'' # replicate 513 (CHR 0x80)"]
    by (cases "rope_inserted None 0 (CHR ''a'' # replicate 513 (CHR 0x80))") simp_all
qed

text \<open>
  C12: whatever sequence of one-chunk insertions and erasures built it, a rope keeps its
  cached figures exact, is AVL-balanced, and a non-empty one is at most
  \<open>2 * log2 (bytes) + 1\<close> deep.
\<close>

theorem rope_reachable_logarithmic:
  assumes "rope_reachable t"
  shows "rope_wf t \<and> balanced_tree t \<and>
    (rope_empty t \<or> 2 ^ (tree_depth t div 2) \<le> length (rope_to_string t))"
  using rope_reachable_inv [OF assms] rope_depth_bound [of t]
  by (cases "t = None") (simp_all add: rope_to_string rope_empty_def)

theorem rope_reachable_logarithmic_witness:
  "\<exists>t t'. rope_inserted None 0 ''ad'' = Some t \<and> rope_inserted t 1 ''bc'' = Some t' \<and> rope_to_string t' = ''abcd'' \<and>
    rope_wf t' \<and> balanced_tree t' \<and> 2 ^ (tree_depth t' div 2) \<le> length (rope_to_string t')"
proof -
  have short: "length ''ad'' \<le> kChunkSize" "chunkable kChunkSize ''ad''" "length ''bc'' \<le> kChunkSize" "chunkable kChunkSize ''bc''"
    by (simp_all add: kChunkSize_def short_text_chunkable)
  obtain t where t: "rope_inserted None 0 ''ad'' = Some t" "rope_text t = splice_in [] 0 ''ad''" "rope_wf t"
    using rope_inserted_text [of None "''ad''" 0] short(2) by auto
  obtain t' where t': "rope_inserted t 1 ''bc'' = Some t'" "rope_text t' = splice_in (rope_text t) 1 ''bc''" "rope_wf t'"
    using rope_inserted_text [OF t(3) short(4), of 1] by blast
  have "rope_reachable t" by (rule rope_reachable.insert [OF rope_reachable.start short(1,2) t(1)])
  then have "rope_reachable t'" by (rule rope_reachable.insert [OF _ short(3,4) t'(1)])
  moreover have "rope_to_string t' = ''abcd''" using t(2) t'(2,3) by (simp add: rope_to_string splice_in_def)
  ultimately show ?thesis
    using rope_reachable_logarithmic [of t'] t(1) t'(1) by (auto simp: rope_empty_def rope_to_string_def)
qed

text \<open>
  The line index is a Galois pair over the text.  A byte is on the line numbered by
  the newlines before it; a line that exists starts just after that many newlines, and
  one that does not starts at the end.
\<close>

theorem rope_line_index:
  assumes "rope_wf t"
  shows "rope_byte_offset_to_line t off = count_newlines (take off (rope_to_string t)) \<and>
    rope_line_to_byte_offset t line = line_start (rope_to_string t) line \<and>
    rope_byte_offset_to_line t (rope_line_to_byte_offset t line) =
      min line (rope_line_count t - 1)"
proof -
  have "count_newlines (take (line_start s n) s) = min n (count_newlines s)" for s n
    by (cases "n \<le> count_newlines s") (simp_all add: count_newlines_line_start line_start_past_end)
  with assms show ?thesis by (simp add: rope_line_queries rope_to_string rope_measures)
qed

theorem rope_line_index_witness:
  "rope_byte_offset_to_line (rope_make_leaf ''a\<newline>b'') 2 =
      count_newlines (take 2 (rope_to_string (rope_make_leaf ''a\<newline>b''))) \<and>
    rope_line_to_byte_offset (rope_make_leaf ''a\<newline>b'') 1 =
      line_start (rope_to_string (rope_make_leaf ''a\<newline>b'')) 1 \<and>
    rope_byte_offset_to_line (rope_make_leaf ''a\<newline>b'')
      (rope_line_to_byte_offset (rope_make_leaf ''a\<newline>b'') 1) =
      min 1 (rope_line_count (rope_make_leaf ''a\<newline>b'') - 1)"
  by (rule rope_line_index) simp

text \<open>
  On any bytes, malformed ones included, stepping forward from a place forward
  steps reach lands inside the text and makes progress, and stepping back returns
  exactly to where the forward step began.
\<close>

theorem rope_step_back_undoes_step:
  assumes "rope_wf t" "codepoint_start (rope_to_string t) b" "b < rope_byte_length t"
  shows "\<exists>e. rope_next_boundary t b = Some e \<and> b < e \<and> e \<le> rope_byte_length t \<and>
    rope_previous_boundary t e = Some b"
proof -
  let ?s = "rope_text t"
  have b: "b < length ?s" using assms by (simp add: rope_measures)
  have "rope_next_boundary t b = Some (b + snd (decoded_at ?s b))"
    using b assms(1)
    by (simp add: rope_next_boundary_def rope_measures next_boundary_via [OF reads_rope [OF assms(1)]])
  moreover have "rope_previous_boundary t (b + snd (decoded_at ?s b)) = Some b"
    using previous_undoes_next [OF reads_rope [OF assms(1)] _ b] assms(1,2)
    by (simp add: rope_previous_boundary_def rope_measures rope_to_string)
  ultimately show ?thesis
    using snd_decoded_at_pos [OF b] snd_decoded_at_le [of b ?s] b assms(1)
    by (auto simp: rope_measures)
qed

theorem rope_step_back_undoes_step_witness:
  "\<exists>e. rope_next_boundary (rope_make_leaf (CHR 0xE2 # ''b'')) 0 = Some e \<and> 0 < e \<and>
    e \<le> rope_byte_length (rope_make_leaf (CHR 0xE2 # ''b'')) \<and>
    rope_previous_boundary (rope_make_leaf (CHR 0xE2 # ''b'')) e = Some 0"
  by (rule rope_step_back_undoes_step)
    (simp_all add: codepoint_start.first rope_byte_length_def rope_make_leaf_def)

text \<open>
  On bytes that are not UTF-8 building may not return.  A text that goes past its
  first chunk with a byte followed by continuation bytes only steps its chunk's end
  back onto the chunk's start, for ever.
\<close>

theorem rope_of_text_diverges:
  assumes "kChunkSize < length s" "\<not> is_continuation_byte (s ! 0)"
    "\<forall>j. 0 < j \<and> j \<le> kChunkSize \<longrightarrow> is_continuation_byte (s ! j)"
  shows "rope_of_text s = None"
  using assms chunk_spans_diverges [of kChunkSize 0 s]
  by (auto simp: rope_of_text_def kChunkSize_def)

theorem rope_of_text_diverges_witness:
  "rope_of_text (CHR 0x61 # replicate 512 (CHR 0x80)) = None"
  by (rule rope_of_text_diverges)
    (auto simp: kChunkSize_def is_continuation_byte_def nth_Cons')

end
