(* ===== verification/PieceTable.thy ===== *)
theory PieceTable
  imports Rope
begin

text \<open>
  \<open>Source/Text/PieceTable.h\<close> and \<open>Source/Text/PieceTable.cpp\<close>: the text structure of huge
  files.  A leaf holds no bytes, only a span of one of two buffers: the mapped file, which
  is never written, and an append buffer, which \<open>Inserted\<close> extends in place and which the
  tables derived from one another share.  The sharing is modelled as it is: append buffers
  live in a heap, a table holds the address of its own.

  The lemmas show that each operation does on a table exactly what the rope's does on the
  rope of the same text (\<open>pt_abs\<close>), and that appending in place never disturbs another
  table.
\<close>

section \<open>Spans, buffers and tables\<close>

datatype span_source = kOriginal | kAdded

record span =
  spanSource :: span_source
  spanStart :: nat
  spanLength :: nat

text \<open>The append buffers of the process; an address is an index.\<close>

type_synonym heap = "bytes list"

record backing =
  mappedFile :: "bytes option"
  added :: "nat option"

record piece_table =
  tableRoot :: "span node option"
  tableBacking :: backing

definition kAddedChunkSize :: nat where
  "kAddedChunkSize = 512"

definition kOriginalChunkSize :: nat where
  "kOriginalChunkSize = 256 * 1024"

definition pt_empty_table :: piece_table where
  "pt_empty_table = \<lparr>tableRoot = None, tableBacking = \<lparr>mappedFile = None, added = None\<rparr>\<rparr>"

text \<open>The bytes behind a source; \<open>None\<close> is a null pointer.\<close>

definition span_buffer :: "heap \<Rightarrow> backing \<Rightarrow> span_source \<Rightarrow> bytes option" where
  "span_buffer h b src = (case src of
     kOriginal \<Rightarrow> mappedFile b
   | kAdded \<Rightarrow> (case added b of None \<Rightarrow> None
       | Some a \<Rightarrow> if a < length h then Some (h ! a) else None))"

text \<open>
  \<open>SpanView\<close>.  A view past the end of its buffer is undefined behaviour in the code and
  reads as \<open>[]\<close> here; a well-formed table (\<open>pt_wf\<close>) has no such leaf.
\<close>

definition span_view :: "heap \<Rightarrow> backing \<Rightarrow> span \<Rightarrow> bytes" where
  "span_view h b x = (case span_buffer h b (spanSource x) of None \<Rightarrow> []
     | Some buf \<Rightarrow> if spanStart x + spanLength x \<le> length buf then substr buf (spanStart x) (spanLength x) else [])"

definition pt_make_leaf :: "heap \<Rightarrow> backing \<Rightarrow> span_source \<Rightarrow> nat \<Rightarrow> nat \<Rightarrow> span node option" where
  "pt_make_leaf h b src st n =
     (if n = 0 then None
      else let x = \<lparr>spanSource = src, spanStart = st, spanLength = n\<rparr>; s = span_view h b x
        in Some (Leaf \<lparr>byteLength = n, codepointLength = count_codepoints s,
                       lineCount = count_newlines s, depth = 0\<rparr> x))"

text \<open>
  \<open>BuildBalancedSpan\<close>.  \<open>None\<close> is a fault: the chunk loop does not return, the span lies
  outside its buffer, or a chunk's length wrapped around and \<open>MakeLeaf\<close> reads past the end.
\<close>

definition pt_build_span ::
  "heap \<Rightarrow> backing \<Rightarrow> span_source \<Rightarrow> nat \<Rightarrow> nat \<Rightarrow> nat \<Rightarrow> span node option option" where
  "pt_build_span h b src st n chunkSize =
     (if n = 0 then Some None
      else case span_buffer h b src of
        None \<Rightarrow> None
      | Some base \<Rightarrow>
          if st + n > length base then None
          else (case chunk_spans chunkSize (substr base st n) 0 of
              None \<Rightarrow> None
            | Some spans \<Rightarrow>
                if \<exists>c\<in>set spans. snd c = None then None
                else Some (build_balanced
                  (map (\<lambda>(off, l). pt_make_leaf h b src (st + off) (case l of None \<Rightarrow> 0 | Some m \<Rightarrow> m))
                    spans))))"

section \<open>Construction\<close>

text \<open>\<open>MappedFile::Open\<close> is the operating system's; the table gets the bytes it maps.\<close>

definition pt_from_file :: "heap \<Rightarrow> bytes \<Rightarrow> (heap \<times> piece_table) option" where
  "pt_from_file h file =
     (let h' = h @ [[]]; b = \<lparr>mappedFile = Some file, added = Some (length h)\<rparr>
      in map_option (\<lambda>r. (h', \<lparr>tableRoot = r, tableBacking = b\<rparr>))
           (pt_build_span h' b kOriginal 0 (length file) kOriginalChunkSize))"

definition pt_from_file_range :: "heap \<Rightarrow> bytes \<Rightarrow> nat \<Rightarrow> nat \<Rightarrow> (heap \<times> piece_table) option" where
  "pt_from_file_range h file fileByteOffset n =
     (let h' = h @ [[]]; b = \<lparr>mappedFile = Some file, added = Some (length h)\<rparr>
      in map_option (\<lambda>r. (h', \<lparr>tableRoot = r, tableBacking = b\<rparr>))
           (pt_build_span h' b kOriginal fileByteOffset n kOriginalChunkSize))"

definition pt_concatenated :: "piece_table \<Rightarrow> piece_table \<Rightarrow> piece_table" where
  "pt_concatenated t fragment =
     \<lparr>tableRoot = concat_tree (tableRoot t) (tableRoot fragment), tableBacking = tableBacking t\<rparr>"

definition pt_detached_copy :: "heap \<Rightarrow> piece_table \<Rightarrow> heap \<times> piece_table" where
  "pt_detached_copy h t = (case added (tableBacking t) of
     None \<Rightarrow> (h, t)
   | Some a \<Rightarrow> (h @ [h ! a], t\<lparr>tableBacking := (tableBacking t)\<lparr>added := Some (length h)\<rparr>\<rparr>))"

section \<open>Measures\<close>

definition pt_empty :: "piece_table \<Rightarrow> bool" where
  "pt_empty t \<longleftrightarrow> tableRoot t = None"

definition pt_byte_length :: "piece_table \<Rightarrow> nat" where
  "pt_byte_length t = (case tableRoot t of None \<Rightarrow> 0 | Some n \<Rightarrow> byteLength (stats n))"

definition pt_codepoint_length :: "piece_table \<Rightarrow> nat" where
  "pt_codepoint_length t = (case tableRoot t of None \<Rightarrow> 0 | Some n \<Rightarrow> codepointLength (stats n))"

definition pt_line_count :: "piece_table \<Rightarrow> nat" where
  "pt_line_count t = (case tableRoot t of None \<Rightarrow> 0 | Some n \<Rightarrow> lineCount (stats n)) + 1"

section \<open>Editing\<close>

fun pt_split_node :: "heap \<Rightarrow> backing \<Rightarrow> span node \<Rightarrow> nat \<Rightarrow> span node option \<times> span node option" where
  "pt_split_node h b (Leaf st x) off =
     (if off = 0 then (None, Some (Leaf st x))
      else if off \<ge> byteLength st then (Some (Leaf st x), None)
      else (pt_make_leaf h b (spanSource x) (spanStart x) off,
            pt_make_leaf h b (spanSource x) (spanStart x + off) (byteLength st - off)))"
| "pt_split_node h b (Internal st l r) off =
     (if off = 0 then (None, Some (Internal st l r))
      else if off \<ge> byteLength st then (Some (Internal st l r), None)
      else let leftLen = byteLength (stats l) in
        if off < leftLen then
          (let (ll, lr) = pt_split_node h b l off in (ll, concat_tree lr (Some r)))
        else if off > leftLen then
          (let (rl, rr) = pt_split_node h b r (off - leftLen) in (concat_tree (Some l) rl, rr))
        else (Some l, Some r))"

definition pt_split ::
  "heap \<Rightarrow> backing \<Rightarrow> span node option \<Rightarrow> nat \<Rightarrow> span node option \<times> span node option" where
  "pt_split h b t off = (case t of None \<Rightarrow> (None, None) | Some n \<Rightarrow> pt_split_node h b n off)"

text \<open>The append buffer \<open>Inserted\<close> writes to: the table's own, or a new one.\<close>

definition pt_own_buffer :: "heap \<Rightarrow> backing \<Rightarrow> heap \<times> nat" where
  "pt_own_buffer h b = (case added b of None \<Rightarrow> (h @ [[]], length h) | Some a \<Rightarrow> (h, a))"

definition pt_inserted :: "heap \<Rightarrow> piece_table \<Rightarrow> offset \<Rightarrow> bytes \<Rightarrow> (heap \<times> piece_table) option" where
  "pt_inserted h t byteOffset s =
     (if s = [] then Some (h, t)
      else
        let off = min byteOffset (pt_byte_length t);
            (h1, a) = pt_own_buffer h (tableBacking t);
            insertStart = length (h1 ! a);
            h2 = h1[a := h1 ! a @ s];
            newBacking = (tableBacking t)\<lparr>added := Some a\<rparr>;
            (left, right) = pt_split h2 (tableBacking t) (tableRoot t) off
        in map_option
             (\<lambda>middle. (h2, \<lparr>tableRoot = concat_tree (concat_tree left middle) right, tableBacking = newBacking\<rparr>))
             (pt_build_span h2 newBacking kAdded insertStart (length s) kAddedChunkSize))"

definition pt_erased :: "heap \<Rightarrow> piece_table \<Rightarrow> offset \<Rightarrow> nat \<Rightarrow> piece_table" where
  "pt_erased h t byteOffset byteLen =
     (let off = min byteOffset (pt_byte_length t);
          n = min byteLen (pt_byte_length t - off)
      in if n = 0 then t
         else let (left, rest) = pt_split h (tableBacking t) (tableRoot t) off;
                  (middle, right) = pt_split h (tableBacking t) rest n
              in \<lparr>tableRoot = concat_tree left right, tableBacking = tableBacking t\<rparr>)"

section \<open>Reading text back\<close>

fun pt_append_node :: "heap \<Rightarrow> backing \<Rightarrow> span node \<Rightarrow> bytes \<Rightarrow> bytes" where
  "pt_append_node h b (Leaf st x) out = out @ span_view h b x"
| "pt_append_node h b (Internal st l r) out = pt_append_node h b r (pt_append_node h b l out)"

definition pt_append_to_string :: "heap \<Rightarrow> backing \<Rightarrow> span node option \<Rightarrow> bytes \<Rightarrow> bytes" where
  "pt_append_to_string h b t out = (case t of None \<Rightarrow> out | Some n \<Rightarrow> pt_append_node h b n out)"

definition pt_to_string :: "heap \<Rightarrow> piece_table \<Rightarrow> bytes" where
  "pt_to_string h t = pt_append_to_string h (tableBacking t) (tableRoot t) []"

definition pt_substring :: "heap \<Rightarrow> piece_table \<Rightarrow> offset \<Rightarrow> nat \<Rightarrow> bytes" where
  "pt_substring h t byteOffset byteLen =
     (let off = min byteOffset (pt_byte_length t);
          n = min byteLen (pt_byte_length t - off);
          (_, rest) = pt_split h (tableBacking t) (tableRoot t) off;
          (middle, right) = pt_split h (tableBacking t) rest n
      in pt_append_to_string h (tableBacking t) middle [])"

text \<open>The chunks \<open>ForEachChunk\<close> hands to its sink, in order.\<close>

fun pt_chunks_node :: "heap \<Rightarrow> backing \<Rightarrow> span node \<Rightarrow> bytes list" where
  "pt_chunks_node h b (Leaf st x) = [span_view h b x]"
| "pt_chunks_node h b (Internal st l r) = pt_chunks_node h b l @ pt_chunks_node h b r"

definition pt_for_each_chunk :: "heap \<Rightarrow> piece_table \<Rightarrow> bytes list" where
  "pt_for_each_chunk h t = (case tableRoot t of None \<Rightarrow> [] | Some n \<Rightarrow> pt_chunks_node h (tableBacking t) n)"

section \<open>Lines and codepoints\<close>

fun pt_count_newlines_before :: "heap \<Rightarrow> backing \<Rightarrow> span node \<Rightarrow> nat \<Rightarrow> nat" where
  "pt_count_newlines_before h b (Leaf st x) off =
     (if off = 0 then 0 else count_newlines (take (min off (byteLength st)) (span_view h b x)))"
| "pt_count_newlines_before h b (Internal st l r) off =
     (if off = 0 then 0
      else let leftLen = byteLength (stats l) in
        if off \<le> leftLen then pt_count_newlines_before h b l off
        else lineCount (stats l) + pt_count_newlines_before h b r (off - leftLen))"

definition pt_byte_offset_to_line :: "heap \<Rightarrow> piece_table \<Rightarrow> offset \<Rightarrow> nat" where
  "pt_byte_offset_to_line h t byteOffset =
     (case tableRoot t of None \<Rightarrow> 0
      | Some n \<Rightarrow> pt_count_newlines_before h (tableBacking t) n (min byteOffset (pt_byte_length t)))"

fun pt_find_line_start :: "heap \<Rightarrow> backing \<Rightarrow> span node \<Rightarrow> nat \<Rightarrow> nat" where
  "pt_find_line_start h b (Leaf st x) line =
     (if line = 0 then 0 else leaf_line_start (span_view h b x) 0 0 line)"
| "pt_find_line_start h b (Internal st l r) line =
     (if line = 0 then 0
      else if lineCount (stats l) \<ge> line then pt_find_line_start h b l line
      else byteLength (stats l) + pt_find_line_start h b r (line - lineCount (stats l)))"

definition pt_line_to_byte_offset :: "heap \<Rightarrow> piece_table \<Rightarrow> nat \<Rightarrow> offset" where
  "pt_line_to_byte_offset h t line =
     (case tableRoot t of None \<Rightarrow> 0
      | Some n \<Rightarrow>
          if line = 0 then 0
          else if line > lineCount (stats n) then byteLength (stats n)
          else pt_find_line_start h (tableBacking t) n line)"

fun pt_count_codepoints_before :: "heap \<Rightarrow> backing \<Rightarrow> span node \<Rightarrow> nat \<Rightarrow> nat" where
  "pt_count_codepoints_before h b (Leaf st x) off =
     (if off = 0 then 0 else count_codepoints (take (min off (byteLength st)) (span_view h b x)))"
| "pt_count_codepoints_before h b (Internal st l r) off =
     (if off = 0 then 0
      else let leftLen = byteLength (stats l) in
        if off \<le> leftLen then pt_count_codepoints_before h b l off
        else codepointLength (stats l) + pt_count_codepoints_before h b r (off - leftLen))"

definition pt_byte_to_codepoint_offset :: "heap \<Rightarrow> piece_table \<Rightarrow> offset \<Rightarrow> nat" where
  "pt_byte_to_codepoint_offset h t byteOffset =
     (case tableRoot t of None \<Rightarrow> 0
      | Some n \<Rightarrow> pt_count_codepoints_before h (tableBacking t) n (min byteOffset (pt_byte_length t)))"

fun pt_find_codepoint_start :: "heap \<Rightarrow> backing \<Rightarrow> span node \<Rightarrow> nat \<Rightarrow> nat" where
  "pt_find_codepoint_start h b (Leaf st x) target =
     (if target = 0 then 0 else leaf_codepoint_start (span_view h b x) 0 0 target)"
| "pt_find_codepoint_start h b (Internal st l r) target =
     (if target = 0 then 0
      else if codepointLength (stats l) \<ge> target then pt_find_codepoint_start h b l target
      else byteLength (stats l) + pt_find_codepoint_start h b r (target - codepointLength (stats l)))"

definition pt_codepoint_to_byte_offset :: "heap \<Rightarrow> piece_table \<Rightarrow> nat \<Rightarrow> offset" where
  "pt_codepoint_to_byte_offset h t target =
     (case tableRoot t of None \<Rightarrow> 0
      | Some n \<Rightarrow>
          if target = 0 then 0
          else if target \<ge> codepointLength (stats n) then byteLength (stats n)
          else pt_find_codepoint_start h (tableBacking t) n target)"

fun pt_byte_at_node :: "heap \<Rightarrow> backing \<Rightarrow> span node \<Rightarrow> nat \<Rightarrow> char option" where
  "pt_byte_at_node h b (Leaf st x) off =
     (if off < length (span_view h b x) then Some (span_view h b x ! off) else None)"
| "pt_byte_at_node h b (Internal st l r) off =
     (let leftLen = byteLength (stats l) in
      if off < leftLen then pt_byte_at_node h b l off else pt_byte_at_node h b r (off - leftLen))"

definition pt_byte_at :: "heap \<Rightarrow> piece_table \<Rightarrow> nat \<Rightarrow> char option" where
  "pt_byte_at h t off = (case tableRoot t of None \<Rightarrow> None | Some n \<Rightarrow> pt_byte_at_node h (tableBacking t) n off)"

text \<open>
  \<open>CodepointAt\<close>, \<open>PreviousCodepointBoundary\<close> and \<open>NextCodepointBoundary\<close> are the rope's,
  line for line, over this class's \<open>ByteAt\<close>.
\<close>

definition pt_codepoint_at :: "heap \<Rightarrow> piece_table \<Rightarrow> offset \<Rightarrow> (char32 \<times> nat) option" where
  "pt_codepoint_at h t = codepoint_via (pt_byte_length t) (pt_byte_at h t)"

definition pt_previous_boundary :: "heap \<Rightarrow> piece_table \<Rightarrow> offset \<Rightarrow> offset option" where
  "pt_previous_boundary h t = previous_boundary_via (pt_byte_length t) (pt_byte_at h t)"

definition pt_next_boundary :: "heap \<Rightarrow> piece_table \<Rightarrow> offset \<Rightarrow> offset option" where
  "pt_next_boundary h t = next_boundary_via (pt_byte_length t) (pt_byte_at h t)"


section \<open>The rope a table stands for\<close>

definition pt_abs :: "heap \<Rightarrow> piece_table \<Rightarrow> rope" where
  "pt_abs h t = map_tree (span_view h (tableBacking t)) (tableRoot t)"

abbreviation pt_text :: "heap \<Rightarrow> piece_table \<Rightarrow> bytes" where
  "pt_text h t \<equiv> rope_text (pt_abs h t)"

definition pt_wf :: "heap \<Rightarrow> piece_table \<Rightarrow> bool" where
  "pt_wf h t \<longleftrightarrow> rope_wf (pt_abs h t) \<and> (\<forall>a. added (tableBacking t) = Some a \<longrightarrow> a < length h)"

lemma pt_measures:
  "pt_empty t = rope_empty (pt_abs h t)"
  "pt_byte_length t = rope_byte_length (pt_abs h t)"
  "pt_codepoint_length t = rope_codepoint_length (pt_abs h t)"
  "pt_line_count t = rope_line_count (pt_abs h t)"
  by (cases "tableRoot t"; simp add: pt_empty_def rope_empty_def pt_byte_length_def
      rope_byte_length_def pt_codepoint_length_def rope_codepoint_length_def pt_line_count_def
      rope_line_count_def pt_abs_def)+

lemma pt_append_node_abs:
  "pt_append_node h b n out = append_node_to_string (map_node (span_view h b) n) out"
  by (induction n arbitrary: out) auto

lemma pt_append_to_string_abs:
  "pt_append_to_string h b t out = rope_append_to_string (map_tree (span_view h b) t) out"
  by (cases t)
    (simp_all add: pt_append_to_string_def pt_append_node_abs append_node_to_string)

lemma pt_to_string_abs: "pt_to_string h t = rope_to_string (pt_abs h t)"
  by (simp add: pt_to_string_def rope_to_string_def pt_append_to_string_abs pt_abs_def)

lemma pt_chunks_concat: "concat (pt_for_each_chunk h t) = pt_text h t"
proof -
  have "concat (pt_chunks_node h b n) = node_text (\<lambda>s. s) (map_node (span_view h b) n)" for b n
    by (induction n) auto
  then show ?thesis by (cases "tableRoot t") (simp_all add: pt_for_each_chunk_def pt_abs_def)
qed

lemma pt_queries_abs:
  "pt_count_newlines_before h b n off = count_newlines_before (map_node (span_view h b) n) off"
  "pt_find_line_start h b n k = find_line_start (map_node (span_view h b) n) k"
  "pt_count_codepoints_before h b n off = count_codepoints_before (map_node (span_view h b) n) off"
  "pt_find_codepoint_start h b n k = find_codepoint_start (map_node (span_view h b) n) k"
  "pt_byte_at_node h b n off = byte_at_node (map_node (span_view h b) n) off"
  by (induction n arbitrary: off k) (simp_all add: Let_def)

lemma pt_line_codepoint_abs:
  "pt_byte_offset_to_line h t off = rope_byte_offset_to_line (pt_abs h t) off"
  "pt_line_to_byte_offset h t k = rope_line_to_byte_offset (pt_abs h t) k"
  "pt_byte_to_codepoint_offset h t off = rope_byte_to_codepoint_offset (pt_abs h t) off"
  "pt_codepoint_to_byte_offset h t k = rope_codepoint_to_byte_offset (pt_abs h t) k"
  "pt_byte_at h t off = rope_byte_at (pt_abs h t) off"
  by (cases "tableRoot t"; simp add: pt_abs_def pt_byte_offset_to_line_def pt_line_to_byte_offset_def
      pt_byte_to_codepoint_offset_def pt_codepoint_to_byte_offset_def pt_byte_at_def
      rope_byte_offset_to_line_def rope_line_to_byte_offset_def rope_byte_to_codepoint_offset_def
      rope_codepoint_to_byte_offset_def rope_byte_at_def pt_queries_abs
      pt_byte_length_def rope_byte_length_def)+

lemma pt_boundary_abs:
  "pt_codepoint_at h t off = rope_codepoint_at (pt_abs h t) off"
  "pt_previous_boundary h t off = rope_previous_boundary (pt_abs h t) off"
  "pt_next_boundary h t off = rope_next_boundary (pt_abs h t) off"
proof -
  have reader: "pt_byte_at h t = rope_byte_at (pt_abs h t)"
    by (rule ext) (rule pt_line_codepoint_abs)
  show "pt_codepoint_at h t off = rope_codepoint_at (pt_abs h t) off"
    "pt_previous_boundary h t off = rope_previous_boundary (pt_abs h t) off"
    "pt_next_boundary h t off = rope_next_boundary (pt_abs h t) off"
    by (simp_all add: pt_codepoint_at_def rope_codepoint_at_def pt_previous_boundary_def
        rope_previous_boundary_def pt_next_boundary_def rope_next_boundary_def reader
        pt_measures(2) [of t h])
qed

text \<open>Leaves and splitting.\<close>

lemma span_view_nonempty:
  assumes "span_view h b x \<noteq> []"
  obtains buf where "span_buffer h b (spanSource x) = Some buf"
    "spanStart x + spanLength x \<le> length buf"
    "span_view h b x = substr buf (spanStart x) (spanLength x)"
    "length (span_view h b x) = spanLength x"
  using assms by (auto simp: span_view_def split: option.splits if_splits)

lemma pt_make_leaf_abs:
  assumes "span_buffer h b src = Some buf" "st + n \<le> length buf"
  shows "map_tree (span_view h b) (pt_make_leaf h b src st n) = rope_make_leaf (substr buf st n)"
proof -
  have "span_view h b \<lparr>spanSource = src, spanStart = st, spanLength = n\<rparr> = substr buf st n"
    using assms by (simp add: span_view_def)
  moreover have "substr buf st n = [] \<longleftrightarrow> n = 0" using assms(2) by (auto simp: substr_def)
  ultimately show ?thesis
    using assms(2) by (simp add: pt_make_leaf_def rope_make_leaf_def Let_def leaf_stats_def)
qed

lemma pt_split_node_abs:
  "wf_node (\<lambda>s. s) (map_node (span_view h b) n) \<Longrightarrow>
     map_prod (map_tree (span_view h b)) (map_tree (span_view h b)) (pt_split_node h b n off) =
       split_node (map_node (span_view h b) n) off"
proof (induction n arbitrary: off)
  case (Leaf st x)
  then have ne: "span_view h b x \<noteq> []" and st: "st = leaf_stats (span_view h b x)" by simp_all
  from ne obtain buf where buf: "span_buffer h b (spanSource x) = Some buf"
    "spanStart x + spanLength x \<le> length buf"
    "span_view h b x = substr buf (spanStart x) (spanLength x)"
    "length (span_view h b x) = spanLength x" by (rule span_view_nonempty)
  have "substr buf (spanStart x) off = take off (span_view h b x)"
    "substr buf (spanStart x + off) (spanLength x - off) = drop off (span_view h b x)"
    if "off < spanLength x"
    using that buf(3) by (simp_all add: substr_def take_drop add.commute min_def)
  with buf show ?case
    by (auto simp: st pt_make_leaf_abs)
next
  case (Internal st l r)
  let ?f = "map_tree (span_view h b)" and ?off' = "off - byteLength (stats l)"
  obtain ll lr where l: "pt_split_node h b l off = (ll, lr)" by fastforce
  obtain rl rr where r: "pt_split_node h b r ?off' = (rl, rr)" by fastforce
  have "split_node (map_node (span_view h b) l) off = (?f ll, ?f lr)"
    "split_node (map_node (span_view h b) r) ?off' = (?f rl, ?f rr)"
    using Internal.IH(1) [of off] Internal.IH(2) [of ?off'] Internal.prems l r by simp_all
  with l r show ?case
    by (simp add: Let_def map_concat_tree)
qed

lemma pt_split_abs:
  "rope_wf (map_tree (span_view h b) t) \<Longrightarrow>
     map_prod (map_tree (span_view h b)) (map_tree (span_view h b)) (pt_split h b t off) =
       rope_split (map_tree (span_view h b) t) off"
  by (cases t) (simp_all add: pt_split_def rope_split_def pt_split_node_abs)

text \<open>Building from a span of a buffer.\<close>

lemma tiles_in_range:
  "tiles k s off spans \<Longrightarrow> (o', l) \<in> set spans \<Longrightarrow> \<exists>m. l = Some m \<and> o' + m \<le> length s"
  by (induction k s off spans rule: tiles.induct) auto

lemma pt_build_span_abs:
  assumes buf: "span_buffer h b src = Some buf" "st + n \<le> length buf"
    and k: "chunkable k (substr buf st n)"
  shows "\<exists>r. pt_build_span h b src st n k = Some r \<and>
    rope_text (map_tree (span_view h b) r) = substr buf st n \<and>
    rope_wf (map_tree (span_view h b) r) \<and>
    (k = kChunkSize \<longrightarrow> rope_of_text (substr buf st n) = Some (map_tree (span_view h b) r))"
proof (cases "n = 0")
  case True
  then show ?thesis by (simp add: pt_build_span_def rope_of_text_def substr_def)
next
  case False
  let ?s = "substr buf st n"
  have len: "length ?s = n" using buf(2) by simp
  with False have ne: "?s \<noteq> []" by (metis list.size(3))
  from chunk_spans_tiles [OF k, of 0] obtain spans
    where spans: "chunk_spans k ?s 0 = Some spans" "tiles k ?s 0 spans" by auto
  let ?leaf = "\<lambda>(off, l). pt_make_leaf h b src (st + off) (case l of None \<Rightarrow> 0 | Some m \<Rightarrow> m)"
  have leaf: "map_tree (span_view h b) (?leaf c) = rope_make_leaf (chunk_bytes ?s c)"
    if "c \<in> set spans" for c
  proof -
    obtain off l where c: "c = (off, l)" by fastforce
    with tiles_in_range [OF spans(2)] that obtain m where m: "l = Some m" "off + m \<le> length ?s" by blast
    then have "substr ?s off m = substr buf (st + off) m"
      using len by (simp add: substr_def take_drop add.commute min_def)
    with m len show ?thesis
      using pt_make_leaf_abs [OF buf(1), of "st + off" m] buf(2) by (simp add: c chunk_bytes_def)
  qed
  let ?r = "build_balanced (map ?leaf spans)"
  have "map_tree (span_view h b) ?r = build_balanced (map (\<lambda>c. rope_make_leaf (chunk_bytes ?s c)) spans)"
    using leaf by (simp add: map_build_balanced comp_def cong: map_cong)
  moreover have "pt_build_span h b src st n k = Some ?r"
    using False buf spans tiles_in_range [OF spans(2)] by (fastforce simp: pt_build_span_def)
  moreover have "rope_text (build_balanced (map (\<lambda>c. rope_make_leaf (chunk_bytes ?s c)) spans)) = ?s"
    using tiles_chunk_bytes [OF spans(2)] by (simp add: build_balanced_text comp_def)
  moreover have "rope_wf (build_balanced (map (\<lambda>c. rope_make_leaf (chunk_bytes ?s c)) spans))"
    by (rule build_balanced_wf) auto
  moreover have "k = kChunkSize \<longrightarrow> rope_of_text ?s =
      Some (build_balanced (map (\<lambda>c. rope_make_leaf (chunk_bytes ?s c)) spans))"
    using ne spans by (auto simp: rope_of_text_def)
  ultimately show ?thesis by auto
qed

section \<open>Appending in place disturbs nobody\<close>

text \<open>One heap extends another when every buffer is still there with its old bytes in front.\<close>

definition heap_le :: "heap \<Rightarrow> heap \<Rightarrow> bool" where
  "heap_le h h' \<longleftrightarrow> length h \<le> length h' \<and>
     (\<forall>a < length h. take (length (h ! a)) (h' ! a) = h ! a)"

lemma heap_le_refl [simp]: "heap_le h h"
  by (simp add: heap_le_def)

lemma heap_le_nth: "heap_le h h' \<Longrightarrow> a < length h \<Longrightarrow> \<exists>rest. h' ! a = h ! a @ rest"
  unfolding heap_le_def by (metis append_take_drop_id)

lemma heap_leI: "length h \<le> length h' \<Longrightarrow> (\<And>a. a < length h \<Longrightarrow> \<exists>rest. h' ! a = h ! a @ rest) \<Longrightarrow> heap_le h h'"
  unfolding heap_le_def by (metis append_eq_conv_conj)

lemma heap_le_trans: "heap_le a b \<Longrightarrow> heap_le b c \<Longrightarrow> heap_le a c"
proof (rule heap_leI)
  assume le: "heap_le a b" "heap_le b c"
  then show "length a \<le> length c" by (simp add: heap_le_def)
  fix i assume i: "i < length a"
  with le have "i < length b" by (simp add: heap_le_def)
  with i le obtain r r' where "b ! i = a ! i @ r" "c ! i = b ! i @ r'" by (meson heap_le_nth)
  then show "\<exists>rest. c ! i = a ! i @ rest" by simp
qed

lemma heap_le_snoc [simp]: "heap_le h (h @ [s])"
  by (rule heap_leI) (simp_all add: nth_append)

lemma heap_le_append_at: "heap_le h (h[a := h ! a @ s])"
proof (rule heap_leI)
  fix i
  assume "i < length h"
  then show "\<exists>rest. h[a := h ! a @ s] ! i = h ! i @ rest"
    by (cases "i = a") simp_all
qed simp

text \<open>A view that is not empty is the same in every extension of heap and backing.\<close>

definition backing_le :: "backing \<Rightarrow> backing \<Rightarrow> bool" where
  "backing_le b b' \<longleftrightarrow> mappedFile b' = mappedFile b \<and> (added b = None \<or> added b' = added b)"

lemma span_view_extend:
  assumes "span_view h b x \<noteq> []" "heap_le h h'" "backing_le b b'"
  shows "span_view h' b' x = span_view h b x"
proof -
  obtain buf where buf: "span_buffer h b (spanSource x) = Some buf"
    "spanStart x + spanLength x \<le> length buf"
    "span_view h b x = substr buf (spanStart x) (spanLength x)"
    using assms(1) by (rule span_view_nonempty)
  obtain rest where "span_buffer h' b' (spanSource x) = Some (buf @ rest)"
  proof (cases "spanSource x")
    case kOriginal
    with buf(1) assms(3) that [of "[]"] show thesis by (simp add: span_buffer_def backing_le_def)
  next
    case kAdded
    with buf(1) obtain a where a: "added b = Some a" "a < length h" "buf = h ! a"
      by (auto simp: span_buffer_def split: option.splits if_splits)
    with assms(2) have "a < length h'" by (simp add: heap_le_def)
    moreover obtain rest where "h' ! a = h ! a @ rest" using heap_le_nth [OF assms(2) a(2)] by blast
    ultimately show thesis
      using that [of rest] a assms(3) kAdded by (simp add: span_buffer_def backing_le_def)
  qed
  with buf show ?thesis by (simp add: span_view_def substr_def)
qed

lemma map_node_view_extend:
  assumes "wf_node (\<lambda>s. s) (map_node (span_view h b) n)" "heap_le h h'" "backing_le b b'"
  shows "map_node (span_view h' b') n = map_node (span_view h b) n"
  using assms(1) by (induction n) (simp_all add: span_view_extend [OF _ assms(2,3)])

lemma map_tree_view_extend:
  assumes "rope_wf (map_tree (span_view h b) t)" "heap_le h h'" "backing_le b b'"
  shows "map_tree (span_view h' b') t = map_tree (span_view h b) t"
  using assms by (cases t) (simp_all add: map_node_view_extend)

lemma pt_abs_extend: "pt_wf h t \<Longrightarrow> heap_le h h' \<Longrightarrow> pt_abs h' t = pt_abs h t"
  by (simp add: pt_abs_def pt_wf_def map_tree_view_extend backing_le_def)

lemma pt_wf_extend: "pt_wf h t \<Longrightarrow> heap_le h h' \<Longrightarrow> pt_wf h' t"
  using pt_abs_extend [of h t h'] by (auto simp: pt_wf_def heap_le_def)

section \<open>Editing simulates the rope\<close>

lemma pt_inserted_abs:
  assumes wf: "pt_wf h t" and s: "chunkable kChunkSize s"
  shows "\<exists>h' t'. pt_inserted h t off s = Some (h', t') \<and> heap_le h h' \<and> pt_wf h' t' \<and>
    rope_inserted (pt_abs h t) off s = Some (pt_abs h' t')"
proof (cases "s = []")
  case True
  with wf show ?thesis by (simp add: pt_inserted_def rope_inserted_def)
next
  case False
  let ?b = "tableBacking t"
  obtain h1 a where own: "pt_own_buffer h ?b = (h1, a)" by fastforce
  have h1: "a < length h1" "heap_le h h1" "added ?b = None \<or> added ?b = Some a"
    using own wf by (auto simp: pt_own_buffer_def pt_wf_def split: option.splits)
  let ?start = "length (h1 ! a)" and ?h2 = "h1[a := h1 ! a @ s]" and ?nb = "?b\<lparr>added := Some a\<rparr>"
  have h2: "heap_le h ?h2" using h1(2) heap_le_append_at heap_le_trans by blast
  have bl: "backing_le ?b ?nb" using h1(3) by (auto simp: backing_le_def)
  have rwf: "rope_wf (map_tree (span_view ?h2 ?b) (tableRoot t))"
    using pt_wf_extend [OF wf h2] by (simp add: pt_wf_def pt_abs_def)
  have same: "map_tree (span_view ?h2 ?b) (tableRoot t) = pt_abs h t"
    using pt_abs_extend [OF wf h2] by (simp add: pt_abs_def)
  let ?off = "min off (pt_byte_length t)"
  obtain left right where split: "pt_split ?h2 ?b (tableRoot t) ?off = (left, right)" by fastforce
  have sp: "rope_split (pt_abs h t) ?off =
      (map_tree (span_view ?h2 ?b) left, map_tree (span_view ?h2 ?b) right)"
    using pt_split_abs [OF rwf, of ?off] split same by simp
  have twf: "rope_wf (pt_abs h t)" using wf by (simp add: pt_wf_def)
  note spw = rope_split_eqs(3,4) [OF twf sp]
  have views: "map_tree (span_view ?h2 ?nb) left = map_tree (span_view ?h2 ?b) left"
    "map_tree (span_view ?h2 ?nb) right = map_tree (span_view ?h2 ?b) right"
    using map_tree_view_extend [OF spw(1) heap_le_refl bl] map_tree_view_extend [OF spw(2) heap_le_refl bl]
    by simp_all
  have buf: "span_buffer ?h2 ?nb kAdded = Some (h1 ! a @ s)"
    using h1(1) by (simp add: span_buffer_def)
  have sub: "substr (h1 ! a @ s) ?start (length s) = s" by (simp add: substr_def)
  obtain middle where m: "pt_build_span ?h2 ?nb kAdded ?start (length s) kAddedChunkSize = Some middle"
    "rope_of_text s = Some (map_tree (span_view ?h2 ?nb) middle)"
    "rope_wf (map_tree (span_view ?h2 ?nb) middle)"
    using pt_build_span_abs [OF buf, of ?start "length s" kAddedChunkSize] s sub
    by (auto simp: kAddedChunkSize_def kChunkSize_def)
  let ?t' = "\<lparr>tableRoot = concat_tree (concat_tree left middle) right, tableBacking = ?nb\<rparr>"
  have ins: "pt_inserted h t off s = Some (?h2, ?t')"
    using False own split m(1) by (simp add: pt_inserted_def Let_def)
  have "rope_inserted (pt_abs h t) off s = Some (pt_abs ?h2 ?t')"
    using False sp m(2) views
    by (simp add: rope_inserted_def Let_def pt_abs_def map_concat_tree pt_measures(2) [of t h])
  moreover have "pt_wf ?h2 ?t'"
    using spw m(3) views h1(1)
    by (simp add: pt_wf_def pt_abs_def map_concat_tree concat_tree_wf)
  ultimately show ?thesis using ins h2 by blast
qed

lemma pt_erased_abs:
  assumes "pt_wf h t"
  shows "pt_abs h (pt_erased h t off n) = rope_erased (pt_abs h t) off n"
    "pt_wf h (pt_erased h t off n)"
proof -
  let ?b = "tableBacking t" and ?off = "min off (pt_byte_length t)"
  let ?n = "min n (pt_byte_length t - ?off)"
  have wf: "rope_wf (map_tree (span_view h ?b) (tableRoot t))" using assms by (simp add: pt_wf_def pt_abs_def)
  obtain left rest where s1: "pt_split h ?b (tableRoot t) ?off = (left, rest)" by fastforce
  obtain middle right where s2: "pt_split h ?b rest ?n = (middle, right)" by fastforce
  have r1: "rope_split (pt_abs h t) ?off = (map_tree (span_view h ?b) left, map_tree (span_view h ?b) rest)"
    using pt_split_abs [OF wf, of ?off] s1 by (simp add: pt_abs_def)
  have rw: "rope_wf (map_tree (span_view h ?b) rest)"
    using rope_split_eqs(4) [OF _ r1] assms by (simp add: pt_wf_def)
  have r2: "rope_split (map_tree (span_view h ?b) rest) ?n =
      (map_tree (span_view h ?b) middle, map_tree (span_view h ?b) right)"
    using pt_split_abs [OF rw, of ?n] s2 by simp
  have e: "pt_erased h t off n =
      (if ?n = 0 then t else \<lparr>tableRoot = concat_tree left right, tableBacking = ?b\<rparr>)"
    by (simp only: pt_erased_def Let_def s1 s2 prod.case)
  have re: "rope_erased (pt_abs h t) off n = (if ?n = 0 then pt_abs h t
      else concat_tree (map_tree (span_view h ?b) left) (map_tree (span_view h ?b) right))"
    by (simp only: rope_erased_def Let_def pt_measures(2) [of t h, symmetric] r1 r2 prod.case)
  show abs: "pt_abs h (pt_erased h t off n) = rope_erased (pt_abs h t) off n"
    by (cases "?n = 0"; unfold e re) (simp_all only: if_True if_False, simp_all add: pt_abs_def map_concat_tree)
  have "tableBacking (pt_erased h t off n) = ?b" using e by simp
  then show "pt_wf h (pt_erased h t off n)"
    using abs assms by (simp add: pt_wf_def rope_erased_text)
qed

lemma pt_substring_abs:
  assumes "pt_wf h t"
  shows "pt_substring h t off n = rope_substring (pt_abs h t) off n"
proof -
  let ?b = "tableBacking t" and ?off = "min off (pt_byte_length t)"
  let ?n = "min n (pt_byte_length t - ?off)"
  have wf: "rope_wf (map_tree (span_view h ?b) (tableRoot t))" using assms by (simp add: pt_wf_def pt_abs_def)
  obtain left rest where s1: "pt_split h ?b (tableRoot t) ?off = (left, rest)" by fastforce
  obtain middle right where s2: "pt_split h ?b rest ?n = (middle, right)" by fastforce
  have r1: "rope_split (pt_abs h t) ?off = (map_tree (span_view h ?b) left, map_tree (span_view h ?b) rest)"
    using pt_split_abs [OF wf, of ?off] s1 by (simp add: pt_abs_def)
  have rw: "rope_wf (map_tree (span_view h ?b) rest)"
    using rope_split_eqs(4) [OF _ r1] assms by (simp add: pt_wf_def)
  have r2: "rope_split (map_tree (span_view h ?b) rest) ?n =
      (map_tree (span_view h ?b) middle, map_tree (span_view h ?b) right)"
    using pt_split_abs [OF rw, of ?n] s2 by simp
  show ?thesis
    by (simp only: pt_substring_def rope_substring_def Let_def pt_measures(2) [of t h, symmetric]
        s1 s2 r1 r2 prod.case pt_append_to_string_abs)
qed

section \<open>Construction\<close>

lemma pt_from_file_range_abs:
  assumes "off + n \<le> length file" "chunkable kOriginalChunkSize (substr file off n)"
  shows "\<exists>h' t. pt_from_file_range h file off n = Some (h', t) \<and> heap_le h h' \<and> pt_wf h' t \<and>
    (\<forall>hh b. mappedFile b = Some file \<longrightarrow>
       rope_text (map_tree (span_view hh b) (tableRoot t)) = substr file off n \<and>
       rope_wf (map_tree (span_view hh b) (tableRoot t)))"
proof -
  let ?h = "h @ [[]]" and ?b = "\<lparr>mappedFile = Some file, added = Some (length h)\<rparr>"
  have build: "\<exists>r. pt_build_span hh b kOriginal off n kOriginalChunkSize = Some r \<and>
      rope_text (map_tree (span_view hh b) r) = substr file off n \<and> rope_wf (map_tree (span_view hh b) r)"
    if "mappedFile b = Some file" for hh b
    using pt_build_span_abs [where src = kOriginal, OF _ assms] that
    by (auto simp: span_buffer_def)
  have indep: "pt_build_span hh b kOriginal off n kOriginalChunkSize =
      pt_build_span ?h ?b kOriginal off n kOriginalChunkSize"
    if "mappedFile b = Some file" for hh b
  proof -
    have e1: "span_buffer hh b kOriginal = span_buffer ?h ?b kOriginal"
      using that by (simp add: span_buffer_def)
    then have e2: "pt_make_leaf hh b kOriginal = pt_make_leaf ?h ?b kOriginal"
      by (intro ext) (simp add: pt_make_leaf_def span_view_def Let_def)
    show ?thesis unfolding pt_build_span_def e1 e2 by (rule refl)
  qed
  obtain r where r: "pt_build_span ?h ?b kOriginal off n kOriginalChunkSize = Some r"
    "rope_wf (map_tree (span_view ?h ?b) r)" using build [of ?b ?h] by auto
  have all: "rope_text (map_tree (span_view hh b) r) = substr file off n \<and>
      rope_wf (map_tree (span_view hh b) r)" if "mappedFile b = Some file" for hh b
    using build [OF that, of hh] indep [OF that, of hh] r(1) by auto
  show ?thesis
    using r all by (simp add: pt_from_file_range_def Let_def pt_wf_def pt_abs_def)
qed

lemma pt_from_file_is_range: "pt_from_file h file = pt_from_file_range h file 0 (length file)"
  by (simp add: pt_from_file_def pt_from_file_range_def)

lemma pt_detached_copy_abs:
  assumes "pt_wf h t" "pt_detached_copy h t = (h1, c)"
  shows "pt_wf h1 c \<and> pt_abs h1 c = pt_abs h t"
proof (cases "added (tableBacking t)")
  case None
  with assms show ?thesis by (auto simp: pt_detached_copy_def)
next
  case (Some a)
  with assms have a: "a < length h" and h1: "h1 = h @ [h ! a]"
    and c: "c = t\<lparr>tableBacking := (tableBacking t)\<lparr>added := Some (length h)\<rparr>\<rparr>"
    by (auto simp: pt_detached_copy_def pt_wf_def)
  have "span_buffer h1 (tableBacking c) src = span_buffer h (tableBacking t) src" for src
    using a Some by (cases src) (simp_all add: span_buffer_def h1 c)
  then have "span_view h1 (tableBacking c) = span_view h (tableBacking t)"
    by (intro ext) (simp add: span_view_def)
  then have abs: "pt_abs h1 c = pt_abs h t" by (simp add: pt_abs_def c)
  with assms(1) show ?thesis by (simp add: pt_wf_def h1 c)
qed

section \<open>The properties\<close>

text \<open>
  C14: a well-formed piece table is a rope.  Inserting returns a table whose rope is
  exactly, node for node, the rope that inserting into the table's rope gives; erasing
  likewise; and every read (text, substring, chunks, lines, codepoints, boundaries)
  answers what the rope answers.
\<close>

theorem piece_table_refines_rope:
  assumes "pt_wf h t" "chunkable kChunkSize s"
  shows "(\<exists>h' t'. pt_inserted h t off s = Some (h', t') \<and> pt_wf h' t' \<and>
      rope_inserted (pt_abs h t) off s = Some (pt_abs h' t')) \<and>
    pt_wf h (pt_erased h t off n) \<and>
    pt_abs h (pt_erased h t off n) = rope_erased (pt_abs h t) off n \<and>
    pt_to_string h t = rope_to_string (pt_abs h t) \<and>
    concat (pt_for_each_chunk h t) = rope_to_string (pt_abs h t) \<and>
    pt_substring h t off n = rope_substring (pt_abs h t) off n \<and>
    pt_byte_offset_to_line h t off = rope_byte_offset_to_line (pt_abs h t) off \<and>
    pt_line_to_byte_offset h t n = rope_line_to_byte_offset (pt_abs h t) n \<and>
    pt_byte_to_codepoint_offset h t off = rope_byte_to_codepoint_offset (pt_abs h t) off \<and>
    pt_codepoint_to_byte_offset h t n = rope_codepoint_to_byte_offset (pt_abs h t) n \<and>
    pt_codepoint_at h t off = rope_codepoint_at (pt_abs h t) off \<and>
    pt_previous_boundary h t off = rope_previous_boundary (pt_abs h t) off \<and>
    pt_next_boundary h t off = rope_next_boundary (pt_abs h t) off"
  using pt_inserted_abs [OF assms, of off] pt_erased_abs [OF assms(1)] pt_substring_abs [OF assms(1)]
  by (auto simp: pt_to_string_abs rope_to_string pt_chunks_concat pt_line_codepoint_abs pt_boundary_abs)

theorem piece_table_refines_rope_witness:
  "(\<exists>h' t'. pt_inserted [] pt_empty_table 0 ''ab'' = Some (h', t') \<and> pt_wf h' t' \<and>
      rope_inserted (pt_abs [] pt_empty_table) 0 ''ab'' = Some (pt_abs h' t'))"
proof -
  have "pt_wf [] pt_empty_table"
    by (simp add: pt_wf_def pt_abs_def pt_empty_table_def)
  moreover have "chunkable kChunkSize ''ab''" by (simp add: short_text_chunkable kChunkSize_def)
  ultimately show ?thesis
    using piece_table_refines_rope [of "[]" pt_empty_table "''ab''" 0 0] by blast
qed

text \<open>
  Appending to the shared buffer in place is safe.  Whatever table an insertion is
  made through, every table that was well formed before still is, and reads back the
  same bytes.
\<close>

theorem pt_insert_disturbs_nobody:
  assumes "pt_wf h t" "pt_wf h u" "chunkable kChunkSize s" "pt_inserted h t off s = Some (h', t')"
  shows "pt_wf h' u \<and> pt_to_string h' u = pt_to_string h u \<and>
    pt_to_string h' t' = take off (pt_to_string h t) @ s @ drop off (pt_to_string h t)"
proof -
  have le: "heap_le h h'" and ins: "rope_inserted (pt_abs h t) off s = Some (pt_abs h' t')"
    using pt_inserted_abs [OF assms(1,3), of off] assms(4) by auto
  have "pt_text h' t' = splice_in (pt_text h t) off s"
    using rope_inserted_text [of "pt_abs h t" s off] assms(1,3) ins by (auto simp: pt_wf_def)
  then show ?thesis
    using pt_wf_extend [OF assms(2) le] pt_abs_extend [OF assms(2) le]
    by (simp add: pt_to_string_abs rope_to_string splice_in_def)
qed

theorem pt_insert_disturbs_nobody_witness:
  "\<exists>h' t'. pt_inserted [] pt_empty_table 0 ''ab'' = Some (h', t') \<and>
     (pt_wf h' pt_empty_table \<and> pt_to_string h' pt_empty_table = pt_to_string [] pt_empty_table \<and>
      pt_to_string h' t' = take 0 (pt_to_string [] pt_empty_table) @ ''ab''
        @ drop 0 (pt_to_string [] pt_empty_table))"
proof -
  have wf: "pt_wf [] pt_empty_table"
    by (simp add: pt_wf_def pt_abs_def pt_empty_table_def)
  have k: "chunkable kChunkSize ''ab''" by (simp add: short_text_chunkable kChunkSize_def)
  obtain h' t' where i: "pt_inserted [] pt_empty_table 0 ''ab'' = Some (h', t')"
    using pt_inserted_abs [OF wf k, of 0] by blast
  show ?thesis using i pt_insert_disturbs_nobody [OF wf wf k i] by blast
qed

text \<open>
  A detached copy shares no mutable state.  It reads back the same bytes, and no
  insertion through the original writes to the buffer the copy reads, nor one through
  the copy to the buffer the original reads.
\<close>

theorem pt_detached_copy_isolated:
  assumes "pt_wf h t" "pt_detached_copy h t = (h1, c)"
  shows "pt_wf h1 c \<and> pt_to_string h1 c = pt_to_string h t \<and>
    (\<forall>a off s h2 t2. added (tableBacking c) = Some a \<longrightarrow>
       pt_inserted h1 t off s = Some (h2, t2) \<longrightarrow> h2 ! a = h1 ! a) \<and>
    (\<forall>a off s h2 t2. added (tableBacking t) = Some a \<longrightarrow>
       pt_inserted h1 c off s = Some (h2, t2) \<longrightarrow> h2 ! a = h1 ! a)"
proof -
  have writes: "h2 ! j = hh ! j"
    if "pt_inserted hh u off s = Some (h2, u2)" "added (tableBacking u) = Some i" "i \<noteq> j"
    for hh u off s h2 u2 i j
    using that by (auto simp: pt_inserted_def pt_own_buffer_def Let_def split: if_splits prod.splits)
  show ?thesis
    using pt_detached_copy_abs [OF assms] assms writes
    by (cases "added (tableBacking t)") (auto simp: pt_to_string_abs pt_detached_copy_def pt_wf_def)
qed

theorem pt_detached_copy_isolated_witness:
  "pt_wf [''x'', ''x''] \<lparr>tableRoot = None, tableBacking = \<lparr>mappedFile = None, added = Some 1\<rparr>\<rparr>"
proof -
  let ?t = "\<lparr>tableRoot = None, tableBacking = \<lparr>mappedFile = None, added = Some 0\<rparr>\<rparr>"
  have "pt_wf [''x''] ?t" by (simp add: pt_wf_def pt_abs_def)
  moreover have "pt_detached_copy [''x''] ?t =
      ([''x'', ''x''], \<lparr>tableRoot = None, tableBacking = \<lparr>mappedFile = None, added = Some 1\<rparr>\<rparr>)"
    by (simp add: pt_detached_copy_def)
  ultimately show ?thesis by (rule pt_detached_copy_isolated [THEN conjunct1])
qed

text \<open>
  Loading a file piece by piece.  Splicing a fragment built from a range of the
  mapped file onto a table over the same file, edited in the meantime or not, appends
  exactly that range, and the result is well formed.
\<close>

theorem pt_progressive_load:
  assumes "pt_wf h t" "mappedFile (tableBacking t) = Some file"
    "off + n \<le> length file" "chunkable kOriginalChunkSize (substr file off n)"
  shows "\<exists>h' fragment. pt_from_file_range h file off n = Some (h', fragment) \<and>
    pt_wf h' (pt_concatenated t fragment) \<and>
    pt_to_string h' (pt_concatenated t fragment) = pt_to_string h t @ substr file off n"
proof -
  obtain h' fr where fr: "pt_from_file_range h file off n = Some (h', fr)" "heap_le h h'"
    and view: "\<forall>hh b. mappedFile b = Some file \<longrightarrow>
       rope_text (map_tree (span_view hh b) (tableRoot fr)) = substr file off n \<and>
       rope_wf (map_tree (span_view hh b) (tableRoot fr))"
    using pt_from_file_range_abs [OF assms(3,4), of h] by blast
  have t: "pt_wf h' t" "pt_abs h' t = pt_abs h t"
    using pt_wf_extend [OF assms(1) fr(2)] pt_abs_extend [OF assms(1) fr(2)] .
  have cat: "pt_abs h' (pt_concatenated t fr) =
      concat_tree (pt_abs h' t) (map_tree (span_view h' (tableBacking t)) (tableRoot fr))"
    by (simp add: pt_abs_def pt_concatenated_def map_concat_tree)
  have "pt_wf h' (pt_concatenated t fr)"
    using t(1) view assms(2) cat by (simp add: pt_wf_def concat_tree_wf pt_concatenated_def)
  moreover have "pt_text h' (pt_concatenated t fr) = pt_text h t @ substr file off n"
    using t(2) view assms(2) cat by (simp add: concat_tree_text)
  ultimately show ?thesis
    using fr(1) by (simp add: pt_to_string_abs rope_to_string)
qed

theorem pt_progressive_load_witness:
  "\<exists>h' fragment. pt_from_file_range [] ''abcd'' 1 2 = Some (h', fragment) \<and>
    pt_wf h' (pt_concatenated \<lparr>tableRoot = None, tableBacking = \<lparr>mappedFile = Some ''abcd'', added = None\<rparr>\<rparr> fragment) \<and>
    pt_to_string h' (pt_concatenated \<lparr>tableRoot = None, tableBacking = \<lparr>mappedFile = Some ''abcd'', added = None\<rparr>\<rparr> fragment) =
      pt_to_string [] \<lparr>tableRoot = None, tableBacking = \<lparr>mappedFile = Some ''abcd'', added = None\<rparr>\<rparr> @ substr ''abcd'' 1 2"
  by (rule pt_progressive_load)
    (simp_all add: pt_wf_def pt_abs_def short_text_chunkable kOriginalChunkSize_def)

end
