(* ===== verification/TextStorage.thy ===== *)
theory TextStorage
  imports PieceTable
begin

text \<open>
  \<open>Source/Text/ITextStorage.h\<close>, \<open>RopeStorage.cpp\<close> and \<open>PieceTableStorage.cpp\<close>: the one
  interface a buffer's content is held through.  The abstract class is a record of its
  virtual methods; each concrete class fills the record; a \<open>storage\<close> is an object of
  either class, and the \<open>st_*\<close> operations are the virtual calls.

  The locale \<open>text_storage\<close> states what the interface promises its callers; it is
  interpreted on both classes and on the dynamically dispatched calls.
\<close>

section \<open>The interface and its two implementations\<close>

record ('h, 't) text_storage_class =
  m_clone :: "'t \<Rightarrow> 't"
  m_snapshot :: "'h \<Rightarrow> 't \<Rightarrow> 'h \<times> 't"
  m_is_huge :: "'t \<Rightarrow> bool"
  m_empty :: "'t \<Rightarrow> bool"
  m_byte_length :: "'t \<Rightarrow> nat"
  m_codepoint_length :: "'t \<Rightarrow> nat"
  m_line_count :: "'t \<Rightarrow> nat"
  m_inserted :: "'h \<Rightarrow> 't \<Rightarrow> offset \<Rightarrow> bytes \<Rightarrow> ('h \<times> 't) option"
  m_erased :: "'h \<Rightarrow> 't \<Rightarrow> offset \<Rightarrow> nat \<Rightarrow> 't"
  m_to_string :: "'h \<Rightarrow> 't \<Rightarrow> bytes"
  m_substring :: "'h \<Rightarrow> 't \<Rightarrow> offset \<Rightarrow> nat \<Rightarrow> bytes"
  m_byte_offset_to_line :: "'h \<Rightarrow> 't \<Rightarrow> offset \<Rightarrow> nat"
  m_line_to_byte_offset :: "'h \<Rightarrow> 't \<Rightarrow> nat \<Rightarrow> offset"
  m_byte_to_codepoint_offset :: "'h \<Rightarrow> 't \<Rightarrow> offset \<Rightarrow> nat"
  m_codepoint_to_byte_offset :: "'h \<Rightarrow> 't \<Rightarrow> nat \<Rightarrow> offset"
  m_codepoint_at :: "'h \<Rightarrow> 't \<Rightarrow> offset \<Rightarrow> (char32 \<times> nat) option"
  m_previous_boundary :: "'h \<Rightarrow> 't \<Rightarrow> offset \<Rightarrow> offset option"
  m_next_boundary :: "'h \<Rightarrow> 't \<Rightarrow> offset \<Rightarrow> offset option"
  m_for_each_chunk :: "'h \<Rightarrow> 't \<Rightarrow> bytes list"

definition rope_storage_class :: "(heap, rope) text_storage_class" where
  "rope_storage_class = \<lparr>
     m_clone = (\<lambda>r. r),
     m_snapshot = (\<lambda>h r. (h, r)),
     m_is_huge = (\<lambda>r. False),
     m_empty = rope_empty,
     m_byte_length = rope_byte_length,
     m_codepoint_length = rope_codepoint_length,
     m_line_count = rope_line_count,
     m_inserted = (\<lambda>h r off s. map_option (\<lambda>r'. (h, r')) (rope_inserted r off s)),
     m_erased = (\<lambda>h r off n. rope_erased r off n),
     m_to_string = (\<lambda>h r. rope_to_string r),
     m_substring = (\<lambda>h r off n. rope_substring r off n),
     m_byte_offset_to_line = (\<lambda>h r off. rope_byte_offset_to_line r off),
     m_line_to_byte_offset = (\<lambda>h r n. rope_line_to_byte_offset r n),
     m_byte_to_codepoint_offset = (\<lambda>h r off. rope_byte_to_codepoint_offset r off),
     m_codepoint_to_byte_offset = (\<lambda>h r n. rope_codepoint_to_byte_offset r n),
     m_codepoint_at = (\<lambda>h r off. rope_codepoint_at r off),
     m_previous_boundary = (\<lambda>h r off. rope_previous_boundary r off),
     m_next_boundary = (\<lambda>h r off. rope_next_boundary r off),
     m_for_each_chunk = (\<lambda>h r. [rope_to_string r])\<rparr>"

definition piece_table_storage_class :: "(heap, piece_table) text_storage_class" where
  "piece_table_storage_class = \<lparr>
     m_clone = (\<lambda>t. t),
     m_snapshot = pt_detached_copy,
     m_is_huge = (\<lambda>t. True),
     m_empty = pt_empty,
     m_byte_length = pt_byte_length,
     m_codepoint_length = pt_codepoint_length,
     m_line_count = pt_line_count,
     m_inserted = pt_inserted,
     m_erased = pt_erased,
     m_to_string = pt_to_string,
     m_substring = pt_substring,
     m_byte_offset_to_line = pt_byte_offset_to_line,
     m_line_to_byte_offset = pt_line_to_byte_offset,
     m_byte_to_codepoint_offset = pt_byte_to_codepoint_offset,
     m_codepoint_to_byte_offset = pt_codepoint_to_byte_offset,
     m_codepoint_at = pt_codepoint_at,
     m_previous_boundary = pt_previous_boundary,
     m_next_boundary = pt_next_boundary,
     m_for_each_chunk = pt_for_each_chunk\<rparr>"

text \<open>A \<open>unique_ptr<ITextStorage>\<close>, and the calls through it.\<close>

datatype storage = RopeStorage rope | PieceTableStorage piece_table

definition dispatch ::
  "((heap, rope) text_storage_class \<Rightarrow> heap \<Rightarrow> rope \<Rightarrow> 'a) \<Rightarrow>
   ((heap, piece_table) text_storage_class \<Rightarrow> heap \<Rightarrow> piece_table \<Rightarrow> 'a) \<Rightarrow> heap \<Rightarrow> storage \<Rightarrow> 'a" where
  "dispatch onRope onTable h st = (case st of
     RopeStorage r \<Rightarrow> onRope rope_storage_class h r
   | PieceTableStorage t \<Rightarrow> onTable piece_table_storage_class h t)"

definition storage_class :: "(heap, storage) text_storage_class" where
  "storage_class = \<lparr>
     m_clone = dispatch (\<lambda>c h r. RopeStorage (m_clone c r)) (\<lambda>c h t. PieceTableStorage (m_clone c t)) [],
     m_snapshot = dispatch (\<lambda>c h r. apsnd RopeStorage (m_snapshot c h r))
       (\<lambda>c h t. apsnd PieceTableStorage (m_snapshot c h t)),
     m_is_huge = dispatch (\<lambda>c h. m_is_huge c) (\<lambda>c h. m_is_huge c) [],
     m_empty = dispatch (\<lambda>c h. m_empty c) (\<lambda>c h. m_empty c) [],
     m_byte_length = dispatch (\<lambda>c h. m_byte_length c) (\<lambda>c h. m_byte_length c) [],
     m_codepoint_length = dispatch (\<lambda>c h. m_codepoint_length c) (\<lambda>c h. m_codepoint_length c) [],
     m_line_count = dispatch (\<lambda>c h. m_line_count c) (\<lambda>c h. m_line_count c) [],
     m_inserted = dispatch (\<lambda>c h r off s. map_option (apsnd RopeStorage) (m_inserted c h r off s))
       (\<lambda>c h t off s. map_option (apsnd PieceTableStorage) (m_inserted c h t off s)),
     m_erased = dispatch (\<lambda>c h r off n. RopeStorage (m_erased c h r off n))
       (\<lambda>c h t off n. PieceTableStorage (m_erased c h t off n)),
     m_to_string = dispatch m_to_string m_to_string,
     m_substring = dispatch m_substring m_substring,
     m_byte_offset_to_line = dispatch m_byte_offset_to_line m_byte_offset_to_line,
     m_line_to_byte_offset = dispatch m_line_to_byte_offset m_line_to_byte_offset,
     m_byte_to_codepoint_offset = dispatch m_byte_to_codepoint_offset m_byte_to_codepoint_offset,
     m_codepoint_to_byte_offset = dispatch m_codepoint_to_byte_offset m_codepoint_to_byte_offset,
     m_codepoint_at = dispatch m_codepoint_at m_codepoint_at,
     m_previous_boundary = dispatch m_previous_boundary m_previous_boundary,
     m_next_boundary = dispatch m_next_boundary m_next_boundary,
     m_for_each_chunk = dispatch m_for_each_chunk m_for_each_chunk\<rparr>"

lemmas storage_class_defs = rope_storage_class_def piece_table_storage_class_def
  storage_class_def dispatch_def

text \<open>The calls the other components make.\<close>

abbreviation st_byte_length :: "storage \<Rightarrow> nat" where
  "st_byte_length \<equiv> m_byte_length storage_class"

abbreviation st_substring :: "heap \<Rightarrow> storage \<Rightarrow> offset \<Rightarrow> nat \<Rightarrow> bytes" where
  "st_substring \<equiv> m_substring storage_class"

abbreviation st_to_string :: "heap \<Rightarrow> storage \<Rightarrow> bytes" where
  "st_to_string \<equiv> m_to_string storage_class"

abbreviation st_inserted :: "heap \<Rightarrow> storage \<Rightarrow> offset \<Rightarrow> bytes \<Rightarrow> (heap \<times> storage) option" where
  "st_inserted \<equiv> m_inserted storage_class"

abbreviation st_erased :: "heap \<Rightarrow> storage \<Rightarrow> offset \<Rightarrow> nat \<Rightarrow> storage" where
  "st_erased \<equiv> m_erased storage_class"

section \<open>What the interface promises\<close>

text \<open>
  An edit script, and what it means on the bytes.  \<open>run_edits\<close> runs a script through the
  methods of a class.
\<close>

datatype edit = InsertText offset bytes | EraseText offset nat

fun edit_text :: "edit \<Rightarrow> bytes \<Rightarrow> bytes" where
  "edit_text (InsertText off s) x = splice_in x off s"
| "edit_text (EraseText off n) x = cut_out x off n"

fun edit_chunkable :: "edit \<Rightarrow> bool" where
  "edit_chunkable (InsertText off s) = chunkable kChunkSize s"
| "edit_chunkable (EraseText off n) = True"

fun run_edits :: "('h, 't) text_storage_class \<Rightarrow> 'h \<Rightarrow> 't \<Rightarrow> edit list \<Rightarrow> ('h \<times> 't) option" where
  "run_edits c h t [] = Some (h, t)"
| "run_edits c h t (InsertText off s # es) =
     Option.bind (m_inserted c h t off s) (\<lambda>(h', t'). run_edits c h' t' es)"
| "run_edits c h t (EraseText off n # es) = run_edits c h (m_erased c h t off n) es"

text \<open>
  The contract.  \<open>ok\<close> is an object's invariant and \<open>content\<close> the bytes it holds; \<open>later\<close>
  relates the heap to what it may become while the object is kept.
\<close>

locale text_storage =
  fixes cls :: "('h, 't) text_storage_class"
    and content :: "'h \<Rightarrow> 't \<Rightarrow> bytes"
    and ok :: "'h \<Rightarrow> 't \<Rightarrow> bool"
    and later :: "'h \<Rightarrow> 'h \<Rightarrow> bool"
  assumes later_refl: "later h h"
    and later_trans: "later h h' \<Longrightarrow> later h' h'' \<Longrightarrow> later h h''"
    and kept: "ok h t \<Longrightarrow> later h h' \<Longrightarrow> ok h' t \<and> content h' t = content h t"
    and inserted: "ok h t \<Longrightarrow> chunkable kChunkSize s \<Longrightarrow>
      \<exists>h' t'. m_inserted cls h t off s = Some (h', t') \<and> later h h' \<and> ok h' t' \<and>
        content h' t' = splice_in (content h t) off s"
    and erased: "ok h t \<Longrightarrow> ok h (m_erased cls h t off n) \<and>
        content h (m_erased cls h t off n) = cut_out (content h t) off n"
    and snapshot: "ok h t \<Longrightarrow> m_snapshot cls h t = (h', t') \<Longrightarrow>
        later h h' \<and> ok h' t' \<and> content h' t' = content h t"
    and measures: "ok h t \<Longrightarrow> m_byte_length cls t = length (content h t) \<and>
        m_codepoint_length cls t = count_codepoints (content h t) \<and>
        m_line_count cls t = count_newlines (content h t) + 1 \<and>
        (m_empty cls t \<longleftrightarrow> content h t = [])"
    and reads_back: "ok h t \<Longrightarrow> m_to_string cls h t = content h t \<and>
        m_substring cls h t off n = substr (content h t) off n \<and>
        concat (m_for_each_chunk cls h t) = content h t"
    and lines: "ok h t \<Longrightarrow> m_byte_offset_to_line cls h t off = count_newlines (take off (content h t)) \<and>
        m_line_to_byte_offset cls h t n = line_start (content h t) n"
begin

lemma run_edits_text:
  assumes "ok h t" "list_all edit_chunkable es"
  shows "\<exists>h' t'. run_edits cls h t es = Some (h', t') \<and> later h h' \<and> ok h' t' \<and>
    content h' t' = fold edit_text es (content h t)"
  using assms
proof (induction es arbitrary: h t)
  case Nil
  then show ?case by (simp add: later_refl)
next
  case (Cons e es)
  show ?case
  proof (cases e)
    case (InsertText off s)
    with Cons.prems inserted [of h t s off] obtain h1 t1
      where i: "m_inserted cls h t off s = Some (h1, t1)" "later h h1" "ok h1 t1"
        "content h1 t1 = splice_in (content h t) off s" by auto
    from Cons.IH [OF i(3)] Cons.prems(2) obtain h2 t2
      where "run_edits cls h1 t1 es = Some (h2, t2)" "later h1 h2" "ok h2 t2"
        "content h2 t2 = fold edit_text es (content h1 t1)" by auto
    with i InsertText show ?thesis using later_trans by auto
  next
    case (EraseText off n)
    from erased [OF Cons.prems(1)] have "ok h (m_erased cls h t off n)"
      "content h (m_erased cls h t off n) = cut_out (content h t) off n" by auto
    with Cons.IH [of h "m_erased cls h t off n"] Cons.prems(2) EraseText show ?thesis by auto
  qed
qed

text \<open>A kept object is readable whatever was done through others since.\<close>

lemma kept_across_edits:
  assumes "ok h t" "ok h u" "list_all edit_chunkable es" "run_edits cls h t es = Some (h', t')"
  shows "m_to_string cls h' u = m_to_string cls h u"
  using run_edits_text [OF assms(1,3)] assms(4) kept [OF assms(2)] reads_back [OF assms(2)]
    reads_back [of h' u] by auto

end

section \<open>Both classes keep the promise\<close>

interpretation rope_class: text_storage rope_storage_class "\<lambda>_. rope_text" "\<lambda>_. rope_wf" "\<lambda>_ _. True"
proof (unfold_locales, goal_cases)
  case (4 h t s off)
  with rope_inserted_text [of t s off] show ?case by (auto simp: rope_storage_class_def)
qed (simp_all add: rope_storage_class_def rope_erased_text rope_measures rope_to_string
    rope_substring_text rope_line_queries)

interpretation table_class: text_storage piece_table_storage_class pt_text pt_wf heap_le
proof (unfold_locales, goal_cases)
  case (4 h t s off)
  then have "rope_wf (pt_abs h t)" by (simp add: pt_wf_def)
  with 4 pt_inserted_abs [of h t s off] rope_inserted_text [of "pt_abs h t" s off]
  show ?case by (auto simp: piece_table_storage_class_def)
next
  case (6 h t h' t')
  then have wf: "pt_wf h t" and copy: "pt_detached_copy h t = (h', t')"
    by (simp_all add: piece_table_storage_class_def)
  have "heap_le h h'"
    using copy by (auto simp: pt_detached_copy_def split: option.splits)
  moreover have "pt_wf h' t' \<and> pt_abs h' t' = pt_abs h t"
    by (rule pt_detached_copy_abs [OF wf copy])
  ultimately show ?case by simp
next
  case (2 h h' h'')
  then show ?case by (rule heap_le_trans)
next
  case (3 h t h')
  then show ?case using pt_abs_extend [of h t h'] pt_wf_extend [of h t h'] by simp
next
  case (5 h t off n)
  then have "rope_wf (pt_abs h t)" by (simp add: pt_wf_def)
  with 5 show ?case by (simp add: piece_table_storage_class_def pt_erased_abs rope_erased_text)
next
  case (7 h t)
  then have "rope_wf (pt_abs h t)" by (simp add: pt_wf_def)
  then show ?case by (simp add: piece_table_storage_class_def pt_measures [of t h] rope_measures)
next
  case (8 h t off n)
  then have "rope_wf (pt_abs h t)" by (simp add: pt_wf_def)
  with 8 show ?case
    by (simp add: piece_table_storage_class_def pt_to_string_abs rope_to_string pt_chunks_concat
        pt_substring_abs rope_substring_text)
next
  case (9 h t off n)
  then have "rope_wf (pt_abs h t)" by (simp add: pt_wf_def)
  then show ?case
    by (simp add: piece_table_storage_class_def pt_line_codepoint_abs rope_line_queries)
qed simp

text \<open>An object of either class, through the virtual calls.\<close>

fun st_content :: "heap \<Rightarrow> storage \<Rightarrow> bytes" where
  "st_content h (RopeStorage r) = rope_text r"
| "st_content h (PieceTableStorage t) = pt_text h t"

fun st_ok :: "heap \<Rightarrow> storage \<Rightarrow> bool" where
  "st_ok h (RopeStorage r) = rope_wf r"
| "st_ok h (PieceTableStorage t) = pt_wf h t"

interpretation any_class: text_storage storage_class st_content st_ok heap_le
proof (unfold_locales, goal_cases)
  case (1 h)
  then show ?case by simp
next
  case (2 h h' h'')
  then show ?case by (rule heap_le_trans)
next
  case (3 h t h')
  then show ?case using table_class.kept [of h _ h'] by (cases t) simp_all
next
  case (4 h t s off)
  show ?case
  proof (cases t)
    case (RopeStorage r)
    with 4 rope_class.inserted [of r s h off] show ?thesis
      by (auto simp: storage_class_def dispatch_def intro!: exI [of _ h]) (auto simp: rope_storage_class_def)
  next
    case (PieceTableStorage u)
    with 4 table_class.inserted [of h u s off] show ?thesis
      by (auto simp: storage_class_def dispatch_def)
  qed
next
  case (5 h t off n)
  then show ?case
    using rope_class.erased table_class.erased
    by (cases t) (simp_all add: storage_class_def dispatch_def)
next
  case (6 h t h' t')
  show ?case
  proof (cases t)
    case (RopeStorage r)
    with 6 show ?thesis
      by (auto simp: storage_class_def dispatch_def rope_storage_class_def)
  next
    case (PieceTableStorage u)
    with 6 obtain u' where "m_snapshot piece_table_storage_class h u = (h', u')" "t' = PieceTableStorage u'"
      by (auto simp: storage_class_def dispatch_def apsnd_def map_prod_def split: prod.splits)
    with 6 PieceTableStorage table_class.snapshot [of h u h' u'] show ?thesis by simp
  qed
next
  case (7 h t)
  then show ?case
    using rope_class.measures table_class.measures
    by (cases t) (simp_all add: storage_class_def dispatch_def)
next
  case (8 h t off n)
  then show ?case
    using rope_class.reads_back table_class.reads_back
    by (cases t) (simp_all add: storage_class_def dispatch_def)
next
  case (9 h t off n)
  then show ?case
    using rope_class.lines table_class.lines
    by (cases t) (simp_all add: storage_class_def dispatch_def)
qed

section \<open>The properties\<close>

text \<open>
  C15: whatever storage a buffer opened with, a script of edits does to it exactly what
  the script means on plain bytes, as long as every text it inserts can be cut into chunks,
  having no \<open>kChunkSize\<close> continuation bytes in a row (the loops that cut a text can hang on
  others); so the rope and the piece table of a text agree after any such script.
\<close>

theorem storage_runs_edits:
  assumes "st_ok h t" "list_all edit_chunkable es"
  shows "\<exists>h' t'. run_edits storage_class h t es = Some (h', t') \<and> st_ok h' t' \<and>
    st_to_string h' t' = fold edit_text es (st_to_string h t) \<and>
    st_byte_length t' = length (fold edit_text es (st_to_string h t))"
proof -
  from any_class.run_edits_text [OF assms] obtain h' t'
    where r: "run_edits storage_class h t es = Some (h', t')" "st_ok h' t'"
      "st_content h' t' = fold edit_text es (st_content h t)" by blast
  then show ?thesis
    using any_class.reads_back [OF assms(1)] any_class.reads_back [OF r(2)]
      any_class.measures [OF r(2)]
    by auto
qed

theorem storage_runs_edits_witness:
  "\<exists>h' t'. run_edits storage_class [] (PieceTableStorage pt_empty_table)
        [InsertText 0 ''abc'', EraseText 1 1] = Some (h', t') \<and> st_ok h' t' \<and>
    st_to_string h' t' = fold edit_text [InsertText 0 ''abc'', EraseText 1 1]
      (st_to_string [] (PieceTableStorage pt_empty_table)) \<and>
    st_byte_length t' = length (fold edit_text [InsertText 0 ''abc'', EraseText 1 1]
      (st_to_string [] (PieceTableStorage pt_empty_table)))"
  by (rule storage_runs_edits)
    (simp_all add: pt_wf_def pt_abs_def pt_empty_table_def short_text_chunkable kChunkSize_def)

text \<open>
  A copy kept aside, a clone or a background snapshot, still reads back the text it
  was taken of after any script of edits runs on the original.
\<close>

theorem kept_copy_survives_edits:
  assumes "st_ok h t" "m_snapshot storage_class h t = (h1, u)" "list_all edit_chunkable es"
    "run_edits storage_class h1 t es = Some (h2, t')"
  shows "st_to_string h2 u = st_to_string h t \<and>
    st_to_string h2 (m_clone storage_class t) = st_to_string h t"
proof -
  have "m_clone storage_class t = t"
    by (cases t) (simp_all add: storage_class_defs)
  moreover have s: "heap_le h h1" "st_ok h1 u" "st_content h1 u = st_content h t"
    using any_class.snapshot [OF assms(1,2)] by auto
  moreover have t: "st_ok h1 t" "st_content h1 t = st_content h t"
    using any_class.kept [OF assms(1) s(1)] by auto
  ultimately show ?thesis
    using any_class.kept_across_edits [OF t(1) s(2) assms(3,4)]
      any_class.kept_across_edits [OF t(1) t(1) assms(3,4)]
      any_class.reads_back [OF s(2)] any_class.reads_back [OF t(1)] any_class.reads_back [OF assms(1)]
    by simp
qed

theorem kept_copy_survives_edits_witness:
  "st_to_string [] (RopeStorage (rope_make_leaf ''ab'')) = st_to_string [] (RopeStorage (rope_make_leaf ''ab'')) \<and>
   st_to_string [] (m_clone storage_class (RopeStorage (rope_make_leaf ''ab''))) =
     st_to_string [] (RopeStorage (rope_make_leaf ''ab''))"
  by (rule kept_copy_survives_edits [where es = "[EraseText 0 1]" and ?h1.0 = "[]"
        and t' = "RopeStorage (rope_erased (rope_make_leaf ''ab'') 0 1)"])
    (simp_all add: storage_class_defs)

end
