(* ===== verification/OffsetRemap.thy ===== *)
theory OffsetRemap
  imports TextStorage
begin

text \<open>
  \<open>Source/Text/OffsetRemap.h\<close> and \<open>OffsetRemap.cpp\<close>: the one contiguous region in which two
  versions of a document differ, found by reading both through \<open>Substring\<close> in blocks that
  double, and how an offset of the old version is carried to the new one.

  The lemmas show that the two doubling searches find the longest common prefix and
  suffix of the two texts, so that the region is exact and minimal.
\<close>

section \<open>The searches\<close>

text \<open>The inner loop of both: how many leading bytes two blocks share.\<close>

fun common_run :: "bytes \<Rightarrow> bytes \<Rightarrow> nat" where
  "common_run (x # xs) (y # ys) = (if x = y then Suc (common_run xs ys) else 0)"
| "common_run _ _ = 0"

text \<open>
  The outer loops.  The block size is 4096, doubled once per block read; \<open>k\<close> counts the
  doublings.
\<close>

function common_prefix_loop :: "heap \<Rightarrow> storage \<Rightarrow> storage \<Rightarrow> nat \<Rightarrow> nat \<Rightarrow> nat \<Rightarrow> nat" where
  "common_prefix_loop h a b maxLen checked k =
     (if checked < maxLen then
        (let n = min (4096 * 2 ^ k) (maxLen - checked);
             blockA = st_substring h a checked n;
             blockB = st_substring h b checked n;
             common = common_run blockA blockB
         in if common < n then checked + common
            else common_prefix_loop h a b maxLen (checked + common) (k + 1))
      else maxLen)"
  by pat_completeness auto
termination
proof (relation "measure (\<lambda>(h, a, b, maxLen, checked, k). maxLen - checked)", goal_cases)
  case (2 h a b maxLen checked k n blockA blockB common)
  have "0 < n" unfolding 2(2) using 2(1) by simp
  moreover have "n \<le> common" using 2(6) by (rule leI)
  ultimately have "maxLen - (checked + common) < maxLen - checked" using 2(1) by linarith
  then show ?case by simp
qed simp

definition common_prefix_length :: "heap \<Rightarrow> storage \<Rightarrow> storage \<Rightarrow> nat" where
  "common_prefix_length h a b =
     common_prefix_loop h a b (min (st_byte_length a) (st_byte_length b)) 0 0"

function common_suffix_loop :: "heap \<Rightarrow> storage \<Rightarrow> storage \<Rightarrow> nat \<Rightarrow> nat \<Rightarrow> nat \<Rightarrow> nat" where
  "common_suffix_loop h a b maxLen checked k =
     (if checked < maxLen then
        (let n = min (4096 * 2 ^ k) (maxLen - checked);
             blockA = st_substring h a (st_byte_length a - checked - n) n;
             blockB = st_substring h b (st_byte_length b - checked - n) n;
             common = common_run (rev blockA) (rev blockB)
         in if common < n then checked + common
            else common_suffix_loop h a b maxLen (checked + common) (k + 1))
      else maxLen)"
  by pat_completeness auto
termination
proof (relation "measure (\<lambda>(h, a, b, maxLen, checked, k). maxLen - checked)", goal_cases)
  case (2 h a b maxLen checked k n blockA blockB common)
  have "0 < n" unfolding 2(2) using 2(1) by simp
  moreover have "n \<le> common" using 2(6) by (rule leI)
  ultimately have "maxLen - (checked + common) < maxLen - checked" using 2(1) by linarith
  then show ?case by simp
qed simp

declare common_prefix_loop.simps [simp del] common_suffix_loop.simps [simp del]

definition common_suffix_length :: "heap \<Rightarrow> storage \<Rightarrow> storage \<Rightarrow> nat \<Rightarrow> nat" where
  "common_suffix_length h a b maxLen = common_suffix_loop h a b maxLen 0 0"

definition storage_content_equals :: "heap \<Rightarrow> storage \<Rightarrow> storage \<Rightarrow> bool" where
  "storage_content_equals h a b \<longleftrightarrow>
     st_byte_length a = st_byte_length b \<and> common_prefix_length h a b = st_byte_length a"

section \<open>The changed region and offsets across it\<close>

record changed_span =
  oldStart :: offset
  oldEnd :: offset
  newStart :: offset
  newEnd :: offset

definition changed_byte_range :: "heap \<Rightarrow> storage \<Rightarrow> storage \<Rightarrow> changed_span option" where
  "changed_byte_range h oldStorage newStorage =
     (let oldLen = st_byte_length oldStorage;
          newLen = st_byte_length newStorage;
          maxCommon = min oldLen newLen;
          prefix = common_prefix_length h oldStorage newStorage
      in if prefix = oldLen \<and> prefix = newLen then None
         else
           let maxSuffix = maxCommon - prefix;
               suffix = common_suffix_length h oldStorage newStorage maxSuffix
           in Some \<lparr>oldStart = prefix, oldEnd = oldLen - suffix,
                    newStart = prefix, newEnd = newLen - suffix\<rparr>)"

definition remap_offset :: "offset \<Rightarrow> changed_span \<Rightarrow> offset" where
  "remap_offset off span =
     (if off \<le> oldStart span then off
      else if off \<ge> oldEnd span then off - oldEnd span + newEnd span
      else newStart span)"

definition remap_offset_between :: "heap \<Rightarrow> offset \<Rightarrow> storage \<Rightarrow> storage \<Rightarrow> offset" where
  "remap_offset_between h off oldStorage newStorage =
     (case changed_byte_range h oldStorage newStorage of
        None \<Rightarrow> off | Some span \<Rightarrow> remap_offset off span)"

section \<open>Common runs\<close>

lemma common_run_le: "common_run xs ys \<le> length xs \<and> common_run xs ys \<le> length ys"
  by (induction xs ys rule: common_run.induct) auto

lemma common_run_take: "common_run (take n xs) (take n ys) = min n (common_run xs ys)"
proof (induction xs ys arbitrary: n rule: common_run.induct)
  case (1 x xs y ys)
  then show ?case by (cases n) auto
qed simp_all

lemma common_run_eq: "take (common_run xs ys) xs = take (common_run xs ys) ys"
  by (induction xs ys rule: common_run.induct) auto

lemma common_run_drop:
  "c \<le> common_run xs ys \<Longrightarrow> common_run xs ys = c + common_run (drop c xs) (drop c ys)"
proof (induction xs ys arbitrary: c rule: common_run.induct)
  case (1 x xs y ys)
  then show ?case by (cases c) (auto split: if_splits)
qed simp_all

lemma common_run_stop:
  "common_run xs ys < length xs \<Longrightarrow> common_run xs ys < length ys \<Longrightarrow>
     xs ! common_run xs ys \<noteq> ys ! common_run xs ys"
  by (induction xs ys rule: common_run.induct) (auto split: if_splits)

lemma common_run_full: "common_run xs ys = length xs \<Longrightarrow> length xs = length ys \<Longrightarrow> xs = ys"
  using common_run_eq [of xs ys] by simp

lemma common_run_self [simp]: "common_run xs xs = length xs"
  by (induction xs) auto

lemma rev_substr_end:
  assumes "checked + n \<le> length s"
  shows "rev (substr s (length s - checked - n) n) = take n (drop checked (rev s))"
proof -
  let ?m = "length s - checked - n"
  have m: "length s - ?m = checked + n" using assms by simp
  have "rev (substr s ?m n) = drop (length (drop ?m s) - n) (rev (drop ?m s))"
    unfolding substr_def by (rule rev_take)
  also have "\<dots> = drop checked (take (checked + n) (rev s))"
    by (simp only: rev_drop length_drop m add_diff_cancel_right')
  also have "\<dots> = take n (drop checked (rev s))" by (simp add: drop_take)
  finally show ?thesis .
qed

section \<open>The searches are exact\<close>

lemma common_prefix_loop_exact:
  assumes "st_ok h a" "st_ok h b"
    "maxLen = min (length (st_content h a)) (length (st_content h b))"
    "checked \<le> common_run (st_content h a) (st_content h b)"
  shows "common_prefix_loop h a b maxLen checked k = common_run (st_content h a) (st_content h b)"
  using assms(3-)
proof (induction "maxLen - checked" arbitrary: checked k rule: less_induct)
  case less
  let ?A = "st_content h a" and ?B = "st_content h b"
  let ?run = "common_run ?A ?B"
  have bound: "?run \<le> maxLen" using common_run_le [of ?A ?B] less.prems(1) by simp
  show ?case
  proof (cases "checked < maxLen")
    case True
    define n where "n = min (4096 * 2 ^ k) (maxLen - checked)"
    define c where "c = common_run (st_substring h a checked n) (st_substring h b checked n)"
    have n: "0 < n" using True by (simp add: n_def)
    have step: "common_prefix_loop h a b maxLen checked k =
        (if c < n then checked + c else common_prefix_loop h a b maxLen (checked + c) (k + 1))"
      by (subst common_prefix_loop.simps) (simp only: Let_def n_def c_def True if_True)
    have "c = min n (common_run (drop checked ?A) (drop checked ?B))"
      using any_class.reads_back [OF assms(1)] any_class.reads_back [OF assms(2)]
      by (simp add: c_def substr_def common_run_take)
    moreover have "?run = checked + common_run (drop checked ?A) (drop checked ?B)"
      by (rule common_run_drop [OF less.prems(2)])
    ultimately have c: "c = min n (?run - checked)" by simp
    show ?thesis
    proof (cases "c < n")
      case True
      then have "checked + c = ?run" using c less.prems(2) by linarith
      with True step show ?thesis by simp
    next
      case False
      then have "common_prefix_loop h a b maxLen (checked + c) (k + 1) = ?run"
        using c n \<open>checked < maxLen\<close> less.prems by (intro less.hyps) linarith+
      with False step show ?thesis by simp
    qed
  next
    case False
    with bound less.prems(2) show ?thesis by (subst common_prefix_loop.simps) simp
  qed
qed

lemma common_prefix_length_exact:
  assumes "st_ok h a" "st_ok h b"
  shows "common_prefix_length h a b = common_run (st_content h a) (st_content h b)"
  using common_prefix_loop_exact [OF assms] any_class.measures [OF assms(1)] any_class.measures [OF assms(2)]
  by (simp add: common_prefix_length_def)

lemma common_suffix_loop_exact:
  assumes "st_ok h a" "st_ok h b"
    "maxLen \<le> length (st_content h a)" "maxLen \<le> length (st_content h b)"
    "checked \<le> min maxLen (common_run (rev (st_content h a)) (rev (st_content h b)))"
  shows "common_suffix_loop h a b maxLen checked k =
    min maxLen (common_run (rev (st_content h a)) (rev (st_content h b)))"
  using assms(3-)
proof (induction "maxLen - checked" arbitrary: checked k rule: less_induct)
  case less
  let ?A = "st_content h a" and ?B = "st_content h b"
  let ?run = "common_run (rev ?A) (rev ?B)"
  show ?case
  proof (cases "checked < maxLen")
    case True
    define n where "n = min (4096 * 2 ^ k) (maxLen - checked)"
    define ba where "ba = st_substring h a (st_byte_length a - checked - n) n"
    define bb where "bb = st_substring h b (st_byte_length b - checked - n) n"
    define c where "c = common_run (rev ba) (rev bb)"
    have n: "0 < n" "n \<le> maxLen - checked" using True by (simp_all add: n_def)
    have step: "common_suffix_loop h a b maxLen checked k =
        (if c < n then checked + c else common_suffix_loop h a b maxLen (checked + c) (k + 1))"
      by (subst common_suffix_loop.simps) (simp only: Let_def n_def ba_def bb_def c_def True if_True)
    have "checked + n \<le> length ?A" "checked + n \<le> length ?B"
      using less.prems(1,2) True n(2) by linarith+
    then have "rev ba = take n (drop checked (rev ?A))" "rev bb = take n (drop checked (rev ?B))"
      using any_class.reads_back [OF assms(1)] any_class.reads_back [OF assms(2)]
        any_class.measures [OF assms(1)] any_class.measures [OF assms(2)]
      by (simp_all only: rev_substr_end ba_def bb_def)
    then have "c = min n (common_run (drop checked (rev ?A)) (drop checked (rev ?B)))"
      by (simp only: common_run_take c_def)
    moreover have "?run = checked + common_run (drop checked (rev ?A)) (drop checked (rev ?B))"
      using less.prems(3) by (intro common_run_drop) simp
    ultimately have c: "c = min n (?run - checked)" by simp
    show ?thesis
    proof (cases "c < n")
      case True
      then have "checked + c = min maxLen ?run" using c n less.prems(3) by linarith
      with True step show ?thesis by simp
    next
      case False
      then have "common_suffix_loop h a b maxLen (checked + c) (k + 1) = min maxLen ?run"
        using c n \<open>checked < maxLen\<close> less.prems by (intro less.hyps) linarith+
      with False step show ?thesis by simp
    qed
  next
    case False
    with less.prems(3) show ?thesis by (subst common_suffix_loop.simps) simp
  qed
qed

section \<open>The region is exact\<close>

lemma changed_byte_range_cases:
  assumes "st_ok h a" "st_ok h b"
  defines "A \<equiv> st_content h a" and "B \<equiv> st_content h b"
  defines "run \<equiv> common_run A B"
  defines "suf \<equiv> min (min (length A) (length B) - run) (common_run (rev A) (rev B))"
  shows "changed_byte_range h a b =
    (if A = B then None
     else Some \<lparr>oldStart = run, oldEnd = length A - suf, newStart = run, newEnd = length B - suf\<rparr>)"
proof -
  have len: "st_byte_length a = length A" "st_byte_length b = length B"
    using any_class.measures [OF assms(1)] any_class.measures [OF assms(2)] by (simp_all add: A_def B_def)
  have pre: "common_prefix_length h a b = run"
    using common_prefix_length_exact [OF assms(1,2)] by (simp add: run_def A_def B_def)
  have "common_suffix_length h a b (min (length A) (length B) - run) = suf"
    using common_suffix_loop_exact [OF assms(1,2), of "min (length A) (length B) - run" 0 0]
    by (simp add: common_suffix_length_def suf_def A_def B_def)
  moreover have "run = length A \<and> run = length B \<longleftrightarrow> A = B"
    using common_run_full [of A B] by (auto simp: run_def)
  ultimately show ?thesis
    by (simp add: changed_byte_range_def len pre Let_def)
qed

lemma storage_content_equals_exact:
  assumes "st_ok h a" "st_ok h b"
  shows "storage_content_equals h a b \<longleftrightarrow> st_content h a = st_content h b"
  using common_prefix_length_exact [OF assms] common_run_full [of "st_content h a" "st_content h b"]
    any_class.measures [OF assms(1)] any_class.measures [OF assms(2)]
  by (auto simp: storage_content_equals_def)

text \<open>What a region says about two texts, and that it says it minimally.\<close>

definition region_of :: "bytes \<Rightarrow> bytes \<Rightarrow> changed_span \<Rightarrow> bool" where
  "region_of A B sp \<longleftrightarrow>
     newStart sp = oldStart sp \<and> oldStart sp \<le> oldEnd sp \<and> oldEnd sp \<le> length A \<and>
     newStart sp \<le> newEnd sp \<and> newEnd sp \<le> length B \<and>
     take (oldStart sp) A = take (newStart sp) B \<and> drop (oldEnd sp) A = drop (newEnd sp) B"

definition region_minimal :: "bytes \<Rightarrow> bytes \<Rightarrow> changed_span \<Rightarrow> bool" where
  "region_minimal A B sp \<longleftrightarrow>
     (oldStart sp < oldEnd sp \<and> newStart sp < newEnd sp \<longrightarrow>
        A ! oldStart sp \<noteq> B ! newStart sp \<and> A ! (oldEnd sp - 1) \<noteq> B ! (newEnd sp - 1))"

lemma changed_byte_range_region:
  assumes "st_ok h a" "st_ok h b" "changed_byte_range h a b = Some sp"
  shows "region_of (st_content h a) (st_content h b) sp \<and> region_minimal (st_content h a) (st_content h b) sp"
proof -
  let ?A = "st_content h a" and ?B = "st_content h b"
  define run where "run = common_run ?A ?B"
  define rrun where "rrun = common_run (rev ?A) (rev ?B)"
  define suf where "suf = min (min (length ?A) (length ?B) - run) rrun"
  have sp: "sp = \<lparr>oldStart = run, oldEnd = length ?A - suf, newStart = run, newEnd = length ?B - suf\<rparr>"
    using changed_byte_range_cases [OF assms(1,2)] assms(3)
    by (simp add: run_def rrun_def suf_def split: if_splits)
  have run: "run \<le> length ?A" "run \<le> length ?B" using common_run_le [of ?A ?B] by (simp_all add: run_def)
  have suf: "suf \<le> length ?A - run" "suf \<le> length ?B - run" "suf \<le> rrun" by (auto simp: suf_def)
  have "take suf (rev ?A) = take suf (rev ?B)"
    using common_run_eq [of "rev ?A" "rev ?B"] suf(3) by (metis min.absorb1 rrun_def take_take)
  then have "drop (length ?A - suf) ?A = drop (length ?B - suf) ?B"
    by (metis rev_rev_ident rev_take length_rev)
  moreover have "run \<le> length ?A - suf" "run \<le> length ?B - suf" using run suf by linarith+
  ultimately have "region_of ?A ?B sp"
    using run common_run_eq [of ?A ?B] by (simp add: region_of_def sp run_def)
  moreover have "?A ! run \<noteq> ?B ! run \<and> ?A ! (length ?A - suf - 1) \<noteq> ?B ! (length ?B - suf - 1)"
    if "run < length ?A - suf" "run < length ?B - suf"
  proof
    show "?A ! run \<noteq> ?B ! run"
      using common_run_stop [of ?A ?B] that by (simp add: run_def)
    have "suf = rrun" using that suf_def by linarith
    then have "rev ?A ! suf \<noteq> rev ?B ! suf"
      using common_run_stop [of "rev ?A" "rev ?B"] that by (simp add: rrun_def)
    with that show "?A ! (length ?A - suf - 1) \<noteq> ?B ! (length ?B - suf - 1)"
      by (simp add: rev_nth Suc_diff_Suc)
  qed
  ultimately show ?thesis by (simp add: region_minimal_def sp)
qed

lemma remap_offset_region:
  assumes "region_of A B sp" "i < length A" "i < oldStart sp \<or> oldEnd sp \<le> i" "i \<noteq> oldStart sp"
  shows "remap_offset i sp < length B \<and> B ! remap_offset i sp = A ! i"
proof (cases "i < oldStart sp")
  case True
  then have "A ! i = take (oldStart sp) A ! i" by simp
  also have "\<dots> = take (newStart sp) B ! i" using assms(1) by (simp add: region_of_def)
  also have "\<dots> = B ! i" using True assms(1) by (simp add: region_of_def)
  finally show ?thesis using True assms(1) by (auto simp: remap_offset_def region_of_def)
next
  case False
  with assms(3,4) have i: "oldEnd sp \<le> i" "oldStart sp < i" by simp_all
  have same: "drop (oldEnd sp) A = drop (newEnd sp) B" using assms(1) by (simp add: region_of_def)
  then have "length A - oldEnd sp = length B - newEnd sp" by (metis length_drop)
  moreover have "A ! i = drop (newEnd sp) B ! (i - oldEnd sp)"
    using i assms(2) same [symmetric] by simp
  moreover have "remap_offset i sp = newEnd sp + (i - oldEnd sp)"
    using i by (simp add: remap_offset_def)
  ultimately show ?thesis using i assms(1,2) by (simp add: region_of_def)
qed

lemma remap_offset_mono:
  assumes "region_of A B sp" "i \<le> j" "j \<le> length A"
  shows "remap_offset i sp \<le> remap_offset j sp \<and> remap_offset j sp \<le> length B"
proof -
  have "length A - oldEnd sp = length B - newEnd sp"
    using assms(1) by (metis length_drop region_of_def)
  then show ?thesis
    using assms by (auto simp: remap_offset_def region_of_def)
qed

section \<open>The properties\<close>

text \<open>
  C16: \<open>ChangedByteRange\<close> finds nothing exactly when the two versions hold the same bytes
  (as does \<open>StorageContentEquals\<close>), and otherwise a region outside of which they agree
  and that cannot be shrunk at either end.
\<close>

theorem changed_byte_range_exact:
  assumes "st_ok h a" "st_ok h b"
  shows "(storage_content_equals h a b \<longleftrightarrow> st_to_string h a = st_to_string h b) \<and>
    (case changed_byte_range h a b of
       None \<Rightarrow> st_to_string h a = st_to_string h b
     | Some sp \<Rightarrow> st_to_string h a \<noteq> st_to_string h b \<and>
         region_of (st_to_string h a) (st_to_string h b) sp \<and>
         region_minimal (st_to_string h a) (st_to_string h b) sp)"
  using storage_content_equals_exact [OF assms] changed_byte_range_cases [OF assms]
    changed_byte_range_region [OF assms] any_class.reads_back [OF assms(1)] any_class.reads_back [OF assms(2)]
  by (auto split: option.splits if_splits)

theorem changed_byte_range_exact_witness:
  "(storage_content_equals [] (RopeStorage None) (RopeStorage (rope_make_leaf ''a'')) \<longleftrightarrow>
      st_to_string [] (RopeStorage None) = st_to_string [] (RopeStorage (rope_make_leaf ''a''))) \<and>
    (case changed_byte_range [] (RopeStorage None) (RopeStorage (rope_make_leaf ''a'')) of
       None \<Rightarrow> st_to_string [] (RopeStorage None) = st_to_string [] (RopeStorage (rope_make_leaf ''a''))
     | Some sp \<Rightarrow> st_to_string [] (RopeStorage None) \<noteq> st_to_string [] (RopeStorage (rope_make_leaf ''a'')) \<and>
         region_of (st_to_string [] (RopeStorage None)) (st_to_string [] (RopeStorage (rope_make_leaf ''a''))) sp \<and>
         region_minimal (st_to_string [] (RopeStorage None)) (st_to_string [] (RopeStorage (rope_make_leaf ''a''))) sp)"
  by (rule changed_byte_range_exact) simp_all

text \<open>
  Carrying offsets from one version to the other keeps their order and stays inside
  the new version; an offset off the changed region names the same byte as before.
\<close>

theorem remap_between_versions:
  assumes "st_ok h a" "st_ok h b" "i \<le> j" "j \<le> st_byte_length a"
  shows "remap_offset_between h i a b \<le> remap_offset_between h j a b \<and>
    remap_offset_between h j a b \<le> st_byte_length b \<and>
    (case changed_byte_range h a b of
       None \<Rightarrow> remap_offset_between h i a b = i
     | Some sp \<Rightarrow>
         (i < oldStart sp \<or> oldEnd sp \<le> i) \<and> i \<noteq> oldStart sp \<and> i < st_byte_length a \<longrightarrow>
         st_to_string h b ! remap_offset_between h i a b = st_to_string h a ! i)"
proof (cases "changed_byte_range h a b")
  case None
  with changed_byte_range_cases [OF assms(1,2)] have "st_content h a = st_content h b"
    by (simp split: if_splits)
  with None assms any_class.measures [OF assms(1)] any_class.measures [OF assms(2)] show ?thesis
    by (simp add: remap_offset_between_def)
next
  case (Some sp)
  have r: "region_of (st_content h a) (st_content h b) sp"
    using changed_byte_range_region [OF assms(1,2) Some] by simp
  have len: "st_byte_length a = length (st_content h a)" "st_byte_length b = length (st_content h b)"
    using any_class.measures [OF assms(1)] any_class.measures [OF assms(2)] by simp_all
  show ?thesis
    using Some remap_offset_mono [OF r assms(3)] remap_offset_region [OF r, of i] assms(4) len
      any_class.reads_back [OF assms(1)] any_class.reads_back [OF assms(2)]
    by (auto simp: remap_offset_between_def)
qed

theorem remap_between_versions_witness:
  "remap_offset_between [] 0 (RopeStorage None) (RopeStorage (rope_make_leaf ''a'')) \<le>
      remap_offset_between [] 0 (RopeStorage None) (RopeStorage (rope_make_leaf ''a'')) \<and>
    remap_offset_between [] 0 (RopeStorage None) (RopeStorage (rope_make_leaf ''a'')) \<le>
      st_byte_length (RopeStorage (rope_make_leaf ''a'')) \<and>
    (case changed_byte_range [] (RopeStorage None) (RopeStorage (rope_make_leaf ''a'')) of
       None \<Rightarrow> remap_offset_between [] 0 (RopeStorage None) (RopeStorage (rope_make_leaf ''a'')) = 0
     | Some sp \<Rightarrow>
         (0 < oldStart sp \<or> oldEnd sp \<le> 0) \<and> 0 \<noteq> oldStart sp \<and> 0 < st_byte_length (RopeStorage None) \<longrightarrow>
         st_to_string [] (RopeStorage (rope_make_leaf ''a'')) !
           remap_offset_between [] 0 (RopeStorage None) (RopeStorage (rope_make_leaf ''a'')) =
         st_to_string [] (RopeStorage None) ! 0)"
  by (rule remap_between_versions) simp_all

end
