(* ===== verification/EditJournal.thy ===== *)
theory EditJournal
  imports Prelude
begin

text \<open>
  \<open>Source/Text/EditJournal.h\<close> and \<open>EditJournal.cpp\<close>: a document's recent edits, by which an
  offset resolved against an older generation is carried to the present.

  The lemmas show what relocating an offset means for the bytes it names, that it keeps
  offsets in order, and that the bounded journal answers exactly when the edits a holder
  has missed are all still there.
\<close>

section \<open>Edits and policies\<close>

record edit_op =
  generation :: nat
  opOffset :: offset
  oldLength :: nat
  newLength :: nat
  barrier :: bool

definition op_inserted :: "nat \<Rightarrow> offset \<Rightarrow> nat \<Rightarrow> edit_op" where
  "op_inserted gen off n =
     \<lparr>generation = gen, opOffset = off, oldLength = 0, newLength = n, barrier = False\<rparr>"

definition op_deleted :: "nat \<Rightarrow> offset \<Rightarrow> offset \<Rightarrow> edit_op" where
  "op_deleted gen rangeStart rangeEnd =
     \<lparr>generation = gen, opOffset = rangeStart, oldLength = rangeEnd - rangeStart, newLength = 0,
      barrier = False\<rparr>"

definition op_replaced :: "nat \<Rightarrow> offset \<Rightarrow> nat \<Rightarrow> nat \<Rightarrow> edit_op" where
  "op_replaced gen off oldLen newLen =
     \<lparr>generation = gen, opOffset = off, oldLength = oldLen, newLength = newLen, barrier = False\<rparr>"

definition op_barrier :: "nat \<Rightarrow> edit_op" where
  "op_barrier gen =
     \<lparr>generation = gen, opOffset = 0, oldLength = 0, newLength = 0, barrier = True\<rparr>"

datatype gravity = GravityLeft | GravityRight

datatype inside_delete = Clamp | Invalidate

record anchor_policy =
  gravity :: gravity
  insideDelete :: inside_delete

section \<open>Relocation\<close>

definition relocate_through :: "offset \<Rightarrow> edit_op \<Rightarrow> anchor_policy \<Rightarrow> offset option" where
  "relocate_through off op policy =
     (if barrier op then None
      else
        let oldEnd = opOffset op + oldLength op in
        if off < opOffset op then Some off
        else if off = opOffset op then
          Some (if gravity policy = GravityRight then opOffset op + newLength op else opOffset op)
        else if off \<ge> oldEnd then Some (off + newLength op - oldLength op)
        else if insideDelete policy = Invalidate then None
        else Some (opOffset op))"

fun relocate_through_all :: "offset \<Rightarrow> edit_op list \<Rightarrow> anchor_policy \<Rightarrow> offset option" where
  "relocate_through_all off [] policy = Some off"
| "relocate_through_all off (op # ops) policy =
     (case relocate_through off op policy of
        None \<Rightarrow> None
      | Some next_off \<Rightarrow> relocate_through_all next_off ops policy)"

section \<open>The journal\<close>

text \<open>The front of the deque is the head of the list.\<close>

record edit_journal =
  journalOps :: "edit_op list"
  oldestReachable :: nat

definition kCapacity :: nat where
  "kCapacity = 4096"

definition empty_journal :: edit_journal where
  "empty_journal = \<lparr>journalOps = [], oldestReachable = 0\<rparr>"

text \<open>The trimming loop of \<open>Record\<close>.\<close>

fun trim_ops :: "edit_op list \<Rightarrow> nat \<Rightarrow> edit_op list \<times> nat" where
  "trim_ops [] oldest = ([], oldest)"
| "trim_ops (op # ops) oldest =
     (if length (op # ops) > kCapacity then trim_ops ops (generation op) else (op # ops, oldest))"

text \<open>\<open>None\<close> is the failed assertion.\<close>

definition journal_record :: "edit_journal \<Rightarrow> edit_op \<Rightarrow> edit_journal option" where
  "journal_record j op =
     (if journalOps j = [] \<or> generation op > generation (last (journalOps j)) then
        (let (ops, oldest) = trim_ops (journalOps j @ [op]) (oldestReachable j)
         in Some \<lparr>journalOps = ops, oldestReachable = oldest\<rparr>)
      else None)"

definition ops_since :: "edit_journal \<Rightarrow> nat \<Rightarrow> edit_op list option" where
  "ops_since j gen =
     (if gen < oldestReachable j then None
      else Some (filter (\<lambda>op. generation op > gen) (journalOps j)))"

definition journal_relocate :: "edit_journal \<Rightarrow> offset \<Rightarrow> nat \<Rightarrow> anchor_policy \<Rightarrow> offset option" where
  "journal_relocate j off gen policy =
     (case ops_since j gen of
        None \<Rightarrow> None
      | Some ops \<Rightarrow> relocate_through_all off ops policy)"

definition journal_empty :: "edit_journal \<Rightarrow> bool" where
  "journal_empty j \<longleftrightarrow> journalOps j = []"

definition journal_size :: "edit_journal \<Rightarrow> nat" where
  "journal_size j = length (journalOps j)"

definition oldest_reachable_generation :: "edit_journal \<Rightarrow> nat" where
  "oldest_reachable_generation j = oldestReachable j"

section \<open>What relocation means\<close>

text \<open>
  What an edit does to a text: the bytes it names become \<open>ins\<close>.  An edit applies when its
  range is inside the text and \<open>ins\<close> has its length.
\<close>

definition op_result :: "edit_op \<Rightarrow> bytes \<Rightarrow> bytes \<Rightarrow> bytes" where
  "op_result op ins s = take (opOffset op) s @ ins @ drop (opOffset op + oldLength op) s"

definition op_applies :: "edit_op \<Rightarrow> bytes \<Rightarrow> bytes \<Rightarrow> bool" where
  "op_applies op ins s \<longleftrightarrow> \<not> barrier op \<and> opOffset op + oldLength op \<le> length s \<and> length ins = newLength op"

lemma relocate_keeps_byte:
  assumes "op_applies op ins s" "off < length s"
    "off < opOffset op \<or> opOffset op + oldLength op \<le> off"
    "off = opOffset op \<longrightarrow> gravity policy = GravityRight"
  shows "\<exists>off'. relocate_through off op policy = Some off' \<and> off' < length (op_result op ins s) \<and>
    op_result op ins s ! off' = s ! off"
  using assms
  by (cases "off < opOffset op"; cases "off = opOffset op")
    (auto simp: op_applies_def relocate_through_def op_result_def nth_append Let_def)

lemma relocate_in_bounds:
  "op_applies op ins s \<Longrightarrow> off \<le> length s \<Longrightarrow> relocate_through off op policy = Some off' \<Longrightarrow>
     off' \<le> length (op_result op ins s)"
  by (auto simp: op_applies_def relocate_through_def op_result_def Let_def split: if_splits)

lemma relocate_mono:
  "i \<le> j \<Longrightarrow> relocate_through i op policy = Some i' \<Longrightarrow> relocate_through j op policy = Some j' \<Longrightarrow>
     gravity policy = GravityLeft \<or> oldLength op = 0 \<or> insideDelete policy = Invalidate \<Longrightarrow> i' \<le> j'"
  by (auto simp: relocate_through_def Let_def split: if_splits)

lemma relocate_clamp_survives:
  "\<not> barrier op \<Longrightarrow> insideDelete policy = Clamp \<Longrightarrow> \<exists>off'. relocate_through off op policy = Some off'"
  by (auto simp: relocate_through_def Let_def)

lemma relocate_through_all_append:
  "relocate_through_all off (xs @ ys) policy =
     Option.bind (relocate_through_all off xs policy) (\<lambda>off'. relocate_through_all off' ys policy)"
  by (induction xs arbitrary: off) (auto split: option.splits)

text \<open>Two ends of a span, each with its own policy, never cross.\<close>

lemma relocate_range_ordered:
  assumes "i \<le> j" "gravity startPolicy = GravityLeft" "gravity endPolicy = GravityRight"
    "relocate_through i op startPolicy = Some i'" "relocate_through j op endPolicy = Some j'"
  shows "i' \<le> j'"
  using assms by (auto simp: relocate_through_def Let_def split: if_splits)

text \<open>
  A replacement and the deletion and insertion it stands for: they agree off the
  replaced bytes.  Strictly inside, the insertion half would carry a right-leaning
  clamped offset over the new text, the replacement leaves it in front.
\<close>

definition delete_then_insert :: "edit_op \<Rightarrow> edit_op list" where
  "delete_then_insert op =
     [op_deleted (generation op) (opOffset op) (opOffset op + oldLength op),
      op_inserted (generation op) (opOffset op) (newLength op)]"

lemma replace_as_two:
  assumes "\<not> barrier op"
  shows "relocate_through_all off (delete_then_insert op) policy =
    (if opOffset op < off \<and> off < opOffset op + oldLength op \<and>
        insideDelete policy = Clamp \<and> gravity policy = GravityRight
     then Some (opOffset op + newLength op)
     else if off = opOffset op + oldLength op \<and> gravity policy = GravityLeft \<and> 0 < oldLength op
     then Some (opOffset op)
     else relocate_through off op policy)"
  using assms
  by (cases "gravity policy"; cases "insideDelete policy";
      cases "off < opOffset op"; cases "off = opOffset op")
    (auto simp: delete_then_insert_def op_deleted_def op_inserted_def relocate_through_def Let_def)

section \<open>What the journal remembers\<close>

fun record_all :: "edit_journal \<Rightarrow> edit_op list \<Rightarrow> edit_journal option" where
  "record_all j [] = Some j"
| "record_all j (op # ops) = Option.bind (journal_record j op) (\<lambda>j'. record_all j' ops)"

lemma record_all_append:
  "record_all j (xs @ ys) = Option.bind (record_all j xs) (\<lambda>j'. record_all j' ys)"
  by (induction xs arbitrary: j) (auto split: option.splits bind_splits)

lemma trim_ops_small: "length ops \<le> kCapacity \<Longrightarrow> trim_ops ops oldest = (ops, oldest)"
  by (cases ops) (simp_all add: not_less)

text \<open>The journal after recording a whole history: its last \<open>kCapacity\<close> edits.\<close>

definition journal_of :: "edit_op list \<Rightarrow> edit_journal" where
  "journal_of hist =
     \<lparr>journalOps = drop (length hist - kCapacity) hist,
      oldestReachable =
        (if length hist \<le> kCapacity then 0 else generation (hist ! (length hist - kCapacity - 1)))\<rparr>"

lemma kCapacity_pos: "0 < kCapacity"
  by (simp add: kCapacity_def)

lemma trim_ops_one:
  "length ops = Suc kCapacity \<Longrightarrow> trim_ops ops oldest = (tl ops, generation (hd ops))"
  by (cases ops) (simp_all add: trim_ops_small)

lemma journal_record_of:
  assumes "\<forall>op'\<in>set hist. generation op' < generation op"
  shows "journal_record (journal_of hist) op = Some (journal_of (hist @ [op]))"
proof -
  let ?ops = "drop (length hist - kCapacity) hist"
  have "?ops = [] \<or> generation op > generation (last ?ops)"
    using assms by (metis in_set_dropD last_in_set)
  moreover have "trim_ops (?ops @ [op]) (oldestReachable (journal_of hist)) =
      (journalOps (journal_of (hist @ [op])), oldestReachable (journal_of (hist @ [op])))"
  proof (cases "length hist < kCapacity")
    case True
    then show ?thesis by (simp add: trim_ops_small journal_of_def)
  next
    case False
    let ?m = "length hist - kCapacity"
    have m: "?m < length hist" "Suc (length hist) - kCapacity = Suc ?m"
      using False kCapacity_pos by linarith+
    have ops: "?ops = hist ! ?m # drop (Suc ?m) hist"
      using m(1) by (rule Cons_nth_drop_Suc [symmetric])
    have len: "length (?ops @ [op]) = Suc kCapacity" using False by simp
    have trim: "trim_ops (?ops @ [op]) oldest = (drop (Suc ?m) hist @ [op], generation (hist ! ?m))" for oldest
      unfolding trim_ops_one [OF len] by (simp add: ops)
    have "journal_of (hist @ [op]) =
        \<lparr>journalOps = drop (Suc ?m) hist @ [op], oldestReachable = generation (hist ! ?m)\<rparr>"
      using False m by (simp add: journal_of_def nth_append)
    then show ?thesis using trim by simp
  qed
  ultimately show ?thesis
    by (simp add: journal_record_def journal_of_def)
qed

lemma record_all_of:
  "sorted_wrt (<) (map generation hist) \<Longrightarrow> record_all empty_journal hist = Some (journal_of hist)"
proof (induction hist rule: rev_induct)
  case Nil
  then show ?case by (simp add: empty_journal_def journal_of_def)
next
  case (snoc op hist)
  then have "sorted_wrt (<) (map generation hist)" "\<forall>op'\<in>set hist. generation op' < generation op"
    by (auto simp: sorted_wrt_append)
  with snoc.IH show ?case by (simp add: record_all_append journal_record_of)
qed

lemma ascending_filter_drop:
  assumes "sorted_wrt (<) (map generation hist)" "k < length hist" "generation (hist ! k) \<le> gen"
  shows "filter (\<lambda>op. gen < generation op) (drop (Suc k) hist) = filter (\<lambda>op. gen < generation op) hist"
proof -
  have "generation op \<le> gen" if "op \<in> set (take (Suc k) hist)" for op
  proof -
    from that obtain i where i: "i < Suc k" "op = hist ! i"
      using assms(2) by (auto simp: in_set_conv_nth)
    have "generation (hist ! i) \<le> generation (hist ! k)"
      using i(1) assms(1,2) by (cases "i = k") (auto simp: sorted_wrt_iff_nth_less less_imp_le)
    with i(2) assms(3) show ?thesis by simp
  qed
  then have "filter (\<lambda>op. gen < generation op) (take (Suc k) hist) = []"
    by (force simp: filter_empty_conv)
  then show ?thesis by (metis append_take_drop_id filter_append append_Nil)
qed

lemma ascending_count:
  assumes "sorted_wrt (<) (map generation hist)" "k < length hist" "gen < generation (hist ! k)"
  shows "length hist - k \<le> length (filter (\<lambda>op. gen < generation op) hist)"
proof -
  have "gen < generation op" if "op \<in> set (drop k hist)" for op
  proof -
    from that obtain i where i: "i < length (drop k hist)" "op = drop k hist ! i"
      by (metis in_set_conv_nth)
    then have i: "k + i < length hist" "op = hist ! (k + i)" by simp_all
    have "generation (hist ! k) \<le> generation (hist ! (k + i))"
      using i(1) assms(1) by (cases "i = 0") (auto simp: sorted_wrt_iff_nth_less less_imp_le)
    with i(2) assms(3) show ?thesis by simp
  qed
  then have "filter (\<lambda>op. gen < generation op) (drop k hist) = drop k hist"
    by (simp add: filter_id_conv)
  moreover have "filter (\<lambda>op. gen < generation op) hist =
      filter (\<lambda>op. gen < generation op) (take k hist) @ filter (\<lambda>op. gen < generation op) (drop k hist)"
    by (metis append_take_drop_id filter_append)
  ultimately show ?thesis by simp
qed

lemma ops_since_journal_of:
  assumes "sorted_wrt (<) (map generation hist)"
  defines "missed gen \<equiv> filter (\<lambda>op. gen < generation op) hist"
  shows "ops_since (journal_of hist) gen =
    (if length (missed gen) \<le> kCapacity then Some (missed gen) else None)"
proof (cases "length hist \<le> kCapacity")
  case True
  then have "length (missed gen) \<le> kCapacity" unfolding missed_def
    using length_filter_le le_trans by blast
  with True show ?thesis by (simp add: ops_since_def journal_of_def missed_def)
next
  case False
  let ?k = "length hist - kCapacity - 1"
  have k: "?k < length hist" "Suc ?k = length hist - kCapacity" using False by simp_all
  show ?thesis
  proof (cases "gen < generation (hist ! ?k)")
    case True
    with ascending_count [OF assms(1) k(1)] have "length hist - ?k \<le> length (missed gen)"
      by (simp add: missed_def)
    then have "kCapacity < length (missed gen)" using False by linarith
    with True False show ?thesis by (simp add: ops_since_def journal_of_def)
  next
    case reach: False
    then have eq: "filter (\<lambda>op. gen < generation op) (drop (length hist - kCapacity) hist) = missed gen"
      using ascending_filter_drop [OF assms(1) k(1), of gen] k(2) by (simp add: missed_def)
    have "length (missed gen) \<le> kCapacity"
      using eq length_filter_le [of "\<lambda>op. gen < generation op" "drop (length hist - kCapacity) hist"] by simp
    with reach False eq show ?thesis by (simp add: ops_since_def journal_of_def)
  qed
qed

section \<open>The properties\<close>



text \<open>
  C10: the bounded journal is exact.  After any history of edits with rising generations,
  it hands a holder stamped \<open>gen\<close> precisely the edits it has missed when they number at
  most \<open>kCapacity\<close>, and refuses otherwise; so relocating through it is relocating through
  the whole history, or nothing.
\<close>

theorem journal_exact:
  assumes "sorted_wrt (<) (map generation hist)"
  shows "\<exists>j. record_all empty_journal hist = Some j \<and> journal_size j \<le> kCapacity \<and>
    (\<forall>gen off policy.
       let missed = filter (\<lambda>op. gen < generation op) hist in
       ops_since j gen = (if length missed \<le> kCapacity then Some missed else None) \<and>
       journal_relocate j off gen policy =
         (if length missed \<le> kCapacity then relocate_through_all off missed policy else None))"
  using record_all_of [OF assms] ops_since_journal_of [OF assms]
  by (auto simp: Let_def journal_relocate_def journal_size_def journal_of_def)

theorem journal_exact_witness:
  "\<exists>j. record_all empty_journal [op_inserted 1 0 2, op_deleted 2 0 1] = Some j \<and> journal_size j \<le> kCapacity \<and>
    (\<forall>gen off policy.
       let missed = filter (\<lambda>op. gen < generation op) [op_inserted 1 0 2, op_deleted 2 0 1] in
       ops_since j gen = (if length missed \<le> kCapacity then Some missed else None) \<and>
       journal_relocate j off gen policy =
         (if length missed \<le> kCapacity then relocate_through_all off missed policy else None))"
  by (rule journal_exact) (simp add: op_inserted_def op_deleted_def)

text \<open>
  A replacement relocates as the deletion and the insertion it is read as, but for
  two kinds of offset: one strictly inside that clamps with right gravity (the pair
  carries it past the new text, the replacement leaves it in front), and one just past
  the replaced bytes with left gravity (the pair leaves it in front of the new text).
\<close>

theorem replacement_is_delete_then_insert:
  assumes "\<not> barrier op"
  shows "relocate_through_all off (delete_then_insert op) policy = relocate_through off op policy \<longleftrightarrow>
    newLength op = 0 \<or>
    \<not> ((opOffset op < off \<and> off < opOffset op + oldLength op \<and>
        insideDelete policy = Clamp \<and> gravity policy = GravityRight) \<or>
       (off = opOffset op + oldLength op \<and> 0 < oldLength op \<and> gravity policy = GravityLeft))"
  using replace_as_two [OF assms, of off policy] assms
  by (cases "gravity policy"; cases "insideDelete policy") (auto simp: relocate_through_def Let_def)

theorem replacement_is_delete_then_insert_witness:
  "relocate_through_all 1 (delete_then_insert (op_replaced 1 0 2 3))
      \<lparr>gravity = GravityRight, insideDelete = Clamp\<rparr> =
    relocate_through 1 (op_replaced 1 0 2 3) \<lparr>gravity = GravityRight, insideDelete = Clamp\<rparr> \<longleftrightarrow>
    newLength (op_replaced 1 0 2 3) = 0 \<or>
    \<not> ((opOffset (op_replaced 1 0 2 3) < 1 \<and> 1 < opOffset (op_replaced 1 0 2 3) + oldLength (op_replaced 1 0 2 3) \<and>
        insideDelete \<lparr>gravity = GravityRight, insideDelete = Clamp\<rparr> = Clamp \<and>
        gravity \<lparr>gravity = GravityRight, insideDelete = Clamp\<rparr> = GravityRight) \<or>
       (1 = opOffset (op_replaced 1 0 2 3) + oldLength (op_replaced 1 0 2 3) \<and>
        0 < oldLength (op_replaced 1 0 2 3) \<and> gravity \<lparr>gravity = GravityRight, insideDelete = Clamp\<rparr> = GravityLeft))"
  by (rule replacement_is_delete_then_insert) (simp add: op_replaced_def)

end
