(* ===== verification/AnchorSet.thy ===== *)
theory AnchorSet
  imports EditJournal
begin

text \<open>
  \<open>Source/Text/AnchorSet.h\<close> and \<open>AnchorSet.cpp\<close>: positions kept beside a document and moved
  by every edit.  Slots are reused; a 32-bit version in the handle tells a stale handle
  from the slot's new owner.

  The lemmas show that the free list is exactly the free slots, that a held anchor is
  always where relocating it through every edit since puts it, and that a destroyed
  handle never names anything again before the versions wrap around.
\<close>

section \<open>Handles, slots and the set\<close>

record anchor_id =
  idIndex :: nat
  idVersion :: "32 word"

record anchor_range =
  rangeStart :: anchor_id
  rangeEnd :: anchor_id

record anchor_entry =
  entryOffset :: offset
  entryPolicy :: anchor_policy
  entryVersion :: "32 word"
  occupied :: bool
  alive :: bool

record anchor_set =
  entries :: "anchor_entry list"
  freeSlots :: "nat list"
  nextVersion :: "32 word"

definition id_valid :: "anchor_id \<Rightarrow> bool" where
  "id_valid i \<longleftrightarrow> idVersion i \<noteq> 0"

definition empty_anchor_set :: anchor_set where
  "empty_anchor_set = \<lparr>entries = [], freeSlots = [], nextVersion = 1\<rparr>"

definition kDefaultPolicy :: anchor_policy where
  "kDefaultPolicy = \<lparr>gravity = GravityRight, insideDelete = Clamp\<rparr>"

section \<open>Operations\<close>

text \<open>The back of the free list is the end of the list.\<close>

definition anchor_create :: "anchor_set \<Rightarrow> offset \<Rightarrow> anchor_policy \<Rightarrow> anchor_set \<times> anchor_id" where
  "anchor_create a off policy =
     (let version = nextVersion a;
          bumped = version + 1;
          a1 = a\<lparr>nextVersion := (if bumped = 0 then 1 else bumped)\<rparr>;
          entry = \<lparr>entryOffset = off, entryPolicy = policy, entryVersion = version,
                   occupied = True, alive = True\<rparr>
      in if freeSlots a \<noteq> [] then
           (let index = last (freeSlots a)
            in (a1\<lparr>freeSlots := butlast (freeSlots a), entries := (entries a)[index := entry]\<rparr>,
                \<lparr>idIndex = index, idVersion = version\<rparr>))
         else
           (a1\<lparr>entries := entries a @ [entry]\<rparr>,
            \<lparr>idIndex = length (entries a) mod 2 ^ 32, idVersion = version\<rparr>))"

definition anchor_create_range_with ::
  "anchor_set \<Rightarrow> offset \<Rightarrow> offset \<Rightarrow> anchor_policy \<Rightarrow> anchor_policy \<Rightarrow> anchor_set \<times> anchor_range" where
  "anchor_create_range_with a start_off end_off startPolicy endPolicy =
     (let (a1, s) = anchor_create a start_off startPolicy;
          (a2, e) = anchor_create a1 end_off endPolicy
      in (a2, \<lparr>rangeStart = s, rangeEnd = e\<rparr>))"

definition anchor_create_range :: "anchor_set \<Rightarrow> offset \<Rightarrow> offset \<Rightarrow> anchor_set \<times> anchor_range" where
  "anchor_create_range a start_off end_off =
     anchor_create_range_with a start_off end_off
       \<lparr>gravity = GravityLeft, insideDelete = Clamp\<rparr> \<lparr>gravity = GravityRight, insideDelete = Clamp\<rparr>"

definition anchor_find :: "anchor_set \<Rightarrow> anchor_id \<Rightarrow> anchor_entry option" where
  "anchor_find a i =
     (if \<not> id_valid i \<or> idIndex i \<ge> length (entries a) then None
      else let entry = entries a ! idIndex i in
        if \<not> occupied entry \<or> entryVersion entry \<noteq> idVersion i then None else Some entry)"

definition anchor_destroy :: "anchor_set \<Rightarrow> anchor_id \<Rightarrow> anchor_set" where
  "anchor_destroy a i =
     (if anchor_find a i = None then a
      else a\<lparr>entries := (entries a)[idIndex i :=
                (entries a ! idIndex i)\<lparr>occupied := False, alive := False, entryVersion := 0\<rparr>],
             freeSlots := freeSlots a @ [idIndex i]\<rparr>)"

definition anchor_destroy_range :: "anchor_set \<Rightarrow> anchor_range \<Rightarrow> anchor_set" where
  "anchor_destroy_range a r = anchor_destroy (anchor_destroy a (rangeStart r)) (rangeEnd r)"

definition anchor_offset :: "anchor_set \<Rightarrow> anchor_id \<Rightarrow> offset option" where
  "anchor_offset a i = (case anchor_find a i of
     None \<Rightarrow> None
   | Some entry \<Rightarrow> if \<not> alive entry then None else Some (entryOffset entry))"

definition anchor_range_offsets :: "anchor_set \<Rightarrow> anchor_range \<Rightarrow> (offset \<times> offset) option" where
  "anchor_range_offsets a r =
     (case (anchor_offset a (rangeStart r), anchor_offset a (rangeEnd r)) of
        (Some s, Some e) \<Rightarrow> Some (s, e) | _ \<Rightarrow> None)"

definition entry_apply_edit :: "edit_op \<Rightarrow> anchor_entry \<Rightarrow> anchor_entry" where
  "entry_apply_edit op entry =
     (if \<not> occupied entry \<or> \<not> alive entry then entry
      else case relocate_through (entryOffset entry) op (entryPolicy entry) of
             None \<Rightarrow> entry\<lparr>alive := False\<rparr>
           | Some off \<Rightarrow> entry\<lparr>entryOffset := off\<rparr>)"

definition anchor_apply_edit :: "anchor_set \<Rightarrow> offset \<Rightarrow> nat \<Rightarrow> nat \<Rightarrow> anchor_set" where
  "anchor_apply_edit a off oldLen newLen =
     (if oldLen = 0 \<and> newLen = 0 then a
      else a\<lparr>entries := map (entry_apply_edit (op_replaced 0 off oldLen newLen)) (entries a)\<rparr>)"

definition anchor_apply_barrier :: "anchor_set \<Rightarrow> anchor_set" where
  "anchor_apply_barrier a = a\<lparr>entries := map (\<lambda>entry. entry\<lparr>alive := False\<rparr>) (entries a)\<rparr>"

definition anchor_live_count :: "anchor_set \<Rightarrow> nat" where
  "anchor_live_count a = count_if (\<lambda>entry. occupied entry \<and> alive entry) (entries a)"

definition anchor_clear :: "anchor_set \<Rightarrow> anchor_set" where
  "anchor_clear a = a\<lparr>entries := [], freeSlots := []\<rparr>"

section \<open>Histories\<close>

text \<open>What holders and the document do to the set, one after the other.\<close>

datatype anchor_event =
    Create offset anchor_policy
  | Destroy anchor_id
  | Edit offset nat nat
  | BarrierEdit
  | ClearAll

fun anchor_step :: "anchor_set \<Rightarrow> anchor_event \<Rightarrow> anchor_set" where
  "anchor_step a (Create off policy) = fst (anchor_create a off policy)"
| "anchor_step a (Destroy i) = anchor_destroy a i"
| "anchor_step a (Edit off oldLen newLen) = anchor_apply_edit a off oldLen newLen"
| "anchor_step a BarrierEdit = anchor_apply_barrier a"
| "anchor_step a ClearAll = anchor_clear a"

abbreviation anchor_run :: "anchor_set \<Rightarrow> anchor_event list \<Rightarrow> anchor_set" where
  "anchor_run \<equiv> foldl anchor_step"

text \<open>The edits of a history, as the journal would record them.\<close>

fun event_ops :: "anchor_event list \<Rightarrow> edit_op list" where
  "event_ops [] = []"
| "event_ops (Edit off oldLen newLen # evs) = op_replaced 0 off oldLen newLen # event_ops evs"
| "event_ops (BarrierEdit # evs) = op_barrier 0 # event_ops evs"
| "event_ops (_ # evs) = event_ops evs"

fun creations :: "anchor_event list \<Rightarrow> nat" where
  "creations [] = 0"
| "creations (Create _ _ # evs) = Suc (creations evs)"
| "creations (_ # evs) = creations evs"

text \<open>The set's invariant: the free list is the unoccupied slots, each once.\<close>

definition anchor_inv :: "anchor_set \<Rightarrow> bool" where
  "anchor_inv a \<longleftrightarrow> distinct (freeSlots a) \<and> nextVersion a \<noteq> 0 \<and>
     set (freeSlots a) = {i. i < length (entries a) \<and> \<not> occupied (entries a ! i)}"

lemma entry_apply_edit_simps [simp]:
  "occupied (entry_apply_edit op e) = occupied e" "entryVersion (entry_apply_edit op e) = entryVersion e"
  "entryPolicy (entry_apply_edit op e) = entryPolicy e"
  by (simp_all add: entry_apply_edit_def split: option.splits)

lemma anchor_inv_empty: "anchor_inv empty_anchor_set"
  by (simp add: anchor_inv_def empty_anchor_set_def)

lemma anchor_create_inv:
  assumes "anchor_inv a"
  shows "anchor_inv (fst (anchor_create a off policy))"
proof (cases "freeSlots a" rule: rev_cases)
  case Nil
  with assms show ?thesis
    by (auto simp: anchor_inv_def anchor_create_def Let_def nth_append less_Suc_eq)
next
  case (snoc fs i)
  with assms have mem: "distinct fs" "i \<notin> set fs" "i < length (entries a)"
    "insert i (set fs) = {j. j < length (entries a) \<and> \<not> occupied (entries a ! j)}"
    by (auto simp: anchor_inv_def)
  then have "set fs = {j. j < length (entries a) \<and> \<not> occupied (entries a ! j)} - {i}" by blast
  with mem snoc assms show ?thesis
    by (auto simp: anchor_inv_def anchor_create_def Let_def nth_list_update)
qed

lemma anchor_findD:
  assumes "anchor_find a i = Some e"
  shows "idIndex i < length (entries a)" "entries a ! idIndex i = e" "occupied e"
    "entryVersion e = idVersion i" "idVersion i \<noteq> 0"
  using assms by (auto simp: anchor_find_def id_valid_def Let_def split: if_splits)

lemma anchor_destroy_inv:
  assumes "anchor_inv a"
  shows "anchor_inv (anchor_destroy a i)"
proof (cases "anchor_find a i")
  case None
  with assms show ?thesis by (simp add: anchor_destroy_def)
next
  case (Some e)
  note e = anchor_findD [OF Some]
  then have "idIndex i \<notin> set (freeSlots a)" using assms by (auto simp: anchor_inv_def)
  with assms e Some show ?thesis
    by (auto simp: anchor_inv_def anchor_destroy_def nth_list_update)
qed

lemma anchor_inv_map:
  assumes "anchor_inv a" "\<And>e. occupied (f e) = occupied e"
  shows "anchor_inv (a\<lparr>entries := map f (entries a)\<rparr>)"
proof -
  have "{i. i < length (map f (entries a)) \<and> \<not> occupied (map f (entries a) ! i)} =
      {i. i < length (entries a) \<and> \<not> occupied (entries a ! i)}"
    by (rule Collect_cong, rule conj_cong) (simp_all add: assms(2))
  with assms(1) show ?thesis by (simp add: anchor_inv_def)
qed

lemma anchor_step_inv:
  assumes "anchor_inv a"
  shows "anchor_inv (anchor_step a ev)"
proof (cases ev)
  case (Edit off oldLen newLen)
  with assms show ?thesis by (simp add: anchor_apply_edit_def anchor_inv_map)
next
  case BarrierEdit
  with assms show ?thesis by (simp add: anchor_apply_barrier_def anchor_inv_map)
next
  case ClearAll
  with assms show ?thesis by (simp add: anchor_clear_def anchor_inv_def)
qed (simp_all add: assms anchor_create_inv anchor_destroy_inv)

lemma anchor_run_inv: "anchor_inv a \<Longrightarrow> anchor_inv (anchor_run a evs)"
  by (induction evs arbitrary: a) (auto simp: anchor_step_inv)

section \<open>A held anchor is where the edits since put it\<close>

text \<open>Where the slot of a held handle stands after one event.\<close>

definition entry_after :: "anchor_event \<Rightarrow> anchor_entry \<Rightarrow> anchor_entry" where
  "entry_after ev e = (case ev of
     Edit off oldLen newLen \<Rightarrow>
       if oldLen = 0 \<and> newLen = 0 then e else entry_apply_edit (op_replaced 0 off oldLen newLen) e
   | BarrierEdit \<Rightarrow> e\<lparr>alive := False\<rparr>
   | _ \<Rightarrow> e)"

lemma anchor_find_step:
  assumes "anchor_inv a" "anchor_find a i = Some e" "ev \<noteq> Destroy i" "ev \<noteq> ClearAll"
  shows "anchor_find (anchor_step a ev) i = Some (entry_after ev e)"
proof -
  note e = anchor_findD [OF assms(2)]
  show ?thesis
  proof (cases ev)
    case (Create off policy)
    show ?thesis
    proof (cases "freeSlots a" rule: rev_cases)
      case Nil
      with e Create show ?thesis
        by (simp add: anchor_find_def id_valid_def anchor_create_def Let_def nth_append entry_after_def)
    next
      case (snoc fs j)
      with assms(1) e have "j \<noteq> idIndex i" by (auto simp: anchor_inv_def)
      with e Create snoc show ?thesis
        by (simp add: anchor_find_def id_valid_def anchor_create_def Let_def entry_after_def)
    qed
  next
    case (Destroy j)
    show ?thesis
    proof (cases "anchor_find a j")
      case None
      with Destroy assms(2) show ?thesis by (simp add: anchor_destroy_def entry_after_def)
    next
      case (Some e')
      note e' = anchor_findD [OF Some]
      have "idIndex j \<noteq> idIndex i"
      proof
        assume "idIndex j = idIndex i"
        with e e' have "j = i" by (cases i; cases j) auto
        with Destroy assms(3) show False by simp
      qed
      moreover have "anchor_step a ev = a\<lparr>entries := (entries a)[idIndex j :=
            (entries a ! idIndex j)\<lparr>occupied := False, alive := False, entryVersion := 0\<rparr>],
          freeSlots := freeSlots a @ [idIndex j]\<rparr>"
        using Destroy Some by (simp add: anchor_destroy_def)
      ultimately show ?thesis
        using e Destroy by (simp add: anchor_find_def id_valid_def entry_after_def)
    qed
  next
    case (Edit off oldLen newLen)
    with e assms(2) show ?thesis
      by (simp add: anchor_find_def [of "anchor_step a ev"] id_valid_def anchor_apply_edit_def
          entry_after_def Let_def)
        (simp add: anchor_find_def id_valid_def)
  next
    case BarrierEdit
    with e show ?thesis
      by (simp add: anchor_find_def id_valid_def anchor_apply_barrier_def entry_after_def)
  next
    case ClearAll
    with assms(4) show ?thesis by simp
  qed
qed

lemma anchor_find_run:
  assumes "anchor_inv a" "anchor_find a i = Some e" "Destroy i \<notin> set evs" "ClearAll \<notin> set evs"
  shows "anchor_find (anchor_run a evs) i = Some (foldl (\<lambda>e ev. entry_after ev e) e evs)"
  using assms
proof (induction evs arbitrary: a e)
  case (Cons ev evs)
  then have "anchor_find (anchor_step a ev) i = Some (entry_after ev e)"
    by (intro anchor_find_step) auto
  with Cons show ?case by (auto simp: anchor_step_inv)
qed simp

lemma relocate_identity: "relocate_through off (op_replaced 0 p 0 0) policy = Some off"
  by (simp add: relocate_through_def op_replaced_def)

lemma relocate_barrier: "relocate_through off (op_barrier g) policy = None"
  by (simp add: relocate_through_def op_barrier_def)

lemma entries_track_relocation:
  "occupied e \<Longrightarrow>
   (let e' = foldl (\<lambda>e ev. entry_after ev e) e evs in
     (if alive e' then Some (entryOffset e') else None) =
     (if alive e then relocate_through_all (entryOffset e) (event_ops evs) (entryPolicy e) else None))"
proof (induction evs arbitrary: e)
  case (Cons ev evs)
  have occ: "occupied (entry_after ev e)"
    using Cons.prems by (simp add: entry_after_def split: anchor_event.splits)
  from Cons.IH [OF occ] show ?case
    using Cons.prems
    by (cases ev)
      (auto simp: entry_after_def entry_apply_edit_def relocate_identity relocate_barrier Let_def
        split: option.splits if_splits)
qed simp

section \<open>A stale handle names nothing\<close>

lemma unat_bump: "unat (v :: 32 word) + 1 < 2 ^ 32 \<Longrightarrow> unat (v + 1) = unat v + 1"
  by (simp add: unat_word_ariths)

lemma anchor_stale_step:
  assumes "anchor_find a i = None" "unat (idVersion i) < unat (nextVersion a)"
    "unat (nextVersion a) + creations (ev # evs) < 2 ^ 32"
  shows "anchor_find (anchor_step a ev) i = None"
    "unat (idVersion i) < unat (nextVersion (anchor_step a ev))"
    "unat (nextVersion (anchor_step a ev)) + creations evs < 2 ^ 32"
proof -
  show "anchor_find (anchor_step a ev) i = None"
  proof (cases ev)
    case (Create off policy)
    have fresh: "nextVersion a \<noteq> idVersion i" using assms(2) by auto
    show ?thesis
    proof (cases "freeSlots a" rule: rev_cases)
      case Nil
      consider "idIndex i < length (entries a)" | "idIndex i = length (entries a)"
        | "length (entries a) < idIndex i" by linarith
      then show ?thesis
        using assms(1) Create Nil fresh
        by cases (auto simp: anchor_find_def anchor_create_def Let_def nth_append split: if_splits)
    next
      case (snoc fs k)
      then show ?thesis
        using assms(1) Create fresh
        by (cases "idIndex i = k") (auto simp: anchor_find_def anchor_create_def Let_def split: if_splits)
    qed
  next
    case (Destroy j)
    with assms(1) show ?thesis
      by (auto simp: anchor_destroy_def anchor_find_def Let_def nth_list_update split: if_splits)
  next
    case (Edit off oldLen newLen)
    with assms(1) show ?thesis
      by (auto simp: anchor_apply_edit_def anchor_find_def Let_def split: if_splits)
  next
    case BarrierEdit
    with assms(1) show ?thesis
      by (auto simp: anchor_apply_barrier_def anchor_find_def Let_def split: if_splits)
  next
    case ClearAll
    then show ?thesis by (simp add: anchor_clear_def anchor_find_def)
  qed
  have bump: "nextVersion (anchor_step a ev) =
      (case ev of Create _ _ \<Rightarrow> nextVersion a + 1 | _ \<Rightarrow> nextVersion a)"
    and room: "case ev of Create _ _ \<Rightarrow> unat (nextVersion a) + 1 + creations evs < 2 ^ 32 | _ \<Rightarrow> True"
  proof -
    show "case ev of Create _ _ \<Rightarrow> unat (nextVersion a) + 1 + creations evs < 2 ^ 32 | _ \<Rightarrow> True"
      using assms(3) by (cases ev) simp_all
    show "nextVersion (anchor_step a ev) =
      (case ev of Create _ _ \<Rightarrow> nextVersion a + 1 | _ \<Rightarrow> nextVersion a)"
    proof (cases ev)
      case (Create off policy)
      with assms(3) have "unat (nextVersion a + 1) = unat (nextVersion a) + 1"
        by (intro unat_bump) simp
      then have "nextVersion a + 1 \<noteq> 0" by auto
      with Create show ?thesis by (simp add: anchor_create_def Let_def)
    qed (simp_all add: anchor_destroy_def anchor_apply_edit_def anchor_apply_barrier_def anchor_clear_def)
  qed
  have "unat (nextVersion (anchor_step a ev)) + creations evs = unat (nextVersion a) + creations (ev # evs)"
    using bump room unat_bump [of "nextVersion a"] by (cases ev) simp_all
  moreover have "unat (nextVersion a) \<le> unat (nextVersion (anchor_step a ev))"
    using bump room unat_bump [of "nextVersion a"] by (cases ev) simp_all
  ultimately show "unat (idVersion i) < unat (nextVersion (anchor_step a ev))"
    "unat (nextVersion (anchor_step a ev)) + creations evs < 2 ^ 32"
    using assms(2,3) by linarith+
qed

lemma anchor_stale_run:
  assumes "anchor_find a i = None" "unat (idVersion i) < unat (nextVersion a)"
    "unat (nextVersion a) + creations evs < 2 ^ 32"
  shows "anchor_find (anchor_run a evs) i = None"
  using assms
proof (induction evs arbitrary: a)
  case (Cons ev evs)
  from Cons.IH [OF anchor_stale_step [OF Cons.prems]] show ?case by simp
qed simp

section \<open>The properties\<close>

text \<open>
  C18: a held anchor stands exactly where relocating its offset through every edit since,
  in order, puts it, whatever other anchors were created and destroyed meanwhile; and it
  is gone exactly when that relocation says the position did not survive.
\<close>

theorem anchor_tracks_journal:
  assumes "anchor_inv a" "anchor_find a i = Some e" "alive e"
    "Destroy i \<notin> set evs" "ClearAll \<notin> set evs"
  shows "anchor_offset (anchor_run a evs) i =
    relocate_through_all (entryOffset e) (event_ops evs) (entryPolicy e) \<and> anchor_inv (anchor_run a evs)"
  using anchor_find_run [OF assms(1,2,4,5)] entries_track_relocation [OF anchor_findD(3) [OF assms(2)], of evs]
    anchor_run_inv [OF assms(1), of evs] assms(3)
  by (auto simp: anchor_offset_def Let_def split: if_splits)

theorem anchor_tracks_journal_witness:
  "anchor_offset (anchor_run (fst (anchor_create empty_anchor_set 4 kDefaultPolicy)) [Create 0 kDefaultPolicy, Edit 0 1 3])
      \<lparr>idIndex = 0, idVersion = 1\<rparr> =
    relocate_through_all 4 (event_ops [Create 0 kDefaultPolicy, Edit 0 1 3]) kDefaultPolicy \<and>
   anchor_inv (anchor_run (fst (anchor_create empty_anchor_set 4 kDefaultPolicy)) [Create 0 kDefaultPolicy, Edit 0 1 3])"
  using anchor_tracks_journal [OF anchor_create_inv [OF anchor_inv_empty, of 4 kDefaultPolicy],
      of "\<lparr>idIndex = 0, idVersion = 1\<rparr>"
        "\<lparr>entryOffset = 4, entryPolicy = kDefaultPolicy, entryVersion = 1, occupied = True, alive = True\<rparr>"
        "[Create 0 kDefaultPolicy, Edit 0 1 3]"]
  by (simp add: anchor_find_def id_valid_def anchor_create_def empty_anchor_set_def Let_def)

text \<open>
  Once destroyed, a handle never names an anchor again, even after its slot is reused
  or the set cleared, for as long as the 32-bit versions have not wrapped around.
\<close>

theorem destroyed_handle_stays_gone:
  assumes "unat (idVersion i) < unat (nextVersion a)" "unat (nextVersion a) + creations evs < 2 ^ 32"
  shows "anchor_offset (anchor_run (anchor_destroy a i) evs) i = None"
proof -
  have "anchor_find (anchor_destroy a i) i = None"
    by (auto simp: anchor_destroy_def) (auto simp: anchor_find_def Let_def)
  moreover have "nextVersion (anchor_destroy a i) = nextVersion a"
    by (simp add: anchor_destroy_def)
  ultimately show ?thesis
    using anchor_stale_run [of "anchor_destroy a i" i evs] assms by (simp add: anchor_offset_def)
qed

theorem destroyed_handle_stays_gone_witness:
  "anchor_offset (anchor_run (anchor_destroy (fst (anchor_create empty_anchor_set 4 kDefaultPolicy))
      \<lparr>idIndex = 0, idVersion = 1\<rparr>) [Create 7 kDefaultPolicy]) \<lparr>idIndex = 0, idVersion = 1\<rparr> = None"
  by (rule destroyed_handle_stays_gone)
    (simp_all add: anchor_create_def empty_anchor_set_def Let_def)

end
