(* ===== verification/UndoTree.thy ===== *)
theory UndoTree
  imports TextStorage
begin

text \<open>
  \<open>Source/Text/UndoTree.h\<close> and \<open>UndoTree.cpp\<close>: the branching undo history.  Nodes live at
  addresses (indices of \<open>nodes\<close>); parents and children are addresses, as the raw and
  owning pointers of the code are.  An \<open>option\<close> around a result is a call that does not
  return normally: \<open>Redo\<close> through an index outside \<open>children\<close>, or a rope that is never
  finished; the exceptions of \<open>Deserialize\<close> are \<open>Inl\<close> values.

  The lemmas show that history is never lost, that undo and redo are inverse, and that a
  tree written by \<open>Serialize\<close> and read by \<open>Deserialize\<close> is the same tree.
\<close>

section \<open>Nodes and trees\<close>

record undo_node =
  nodeState :: storage
  nodeParent :: "nat option"
  nodeChildren :: "nat list"
  mostRecentChild :: nat
  nodeSequence :: nat

record undo_tree =
  nodes :: "undo_node list"
  rootNode :: nat
  currentNode :: nat
  nextSequence :: nat
  bySequence :: "nat \<rightharpoonup> nat"

text \<open>\<open>unordered_map::emplace\<close> keeps an entry that is there.\<close>

definition emplace :: "('k \<rightharpoonup> 'v) \<Rightarrow> 'k \<Rightarrow> 'v \<Rightarrow> ('k \<rightharpoonup> 'v)" where
  "emplace m k v = (if m k = None then m(k \<mapsto> v) else m)"

definition undo_init :: "storage \<Rightarrow> undo_tree" where
  "undo_init initialState =
     \<lparr>nodes = [\<lparr>nodeState = initialState, nodeParent = None, nodeChildren = [], mostRecentChild = 0,
                nodeSequence = 0\<rparr>],
      rootNode = 0, currentNode = 0, nextSequence = 1, bySequence = emplace Map.empty 0 0\<rparr>"

abbreviation cur :: "undo_tree \<Rightarrow> undo_node" where
  "cur t \<equiv> nodes t ! currentNode t"

definition undo_current :: "undo_tree \<Rightarrow> storage" where
  "undo_current t = nodeState (cur t)"

definition undo_record :: "undo_tree \<Rightarrow> storage \<Rightarrow> undo_tree" where
  "undo_record t newState =
     (let child = \<lparr>nodeState = newState, nodeParent = Some (currentNode t), nodeChildren = [],
                   mostRecentChild = 0, nodeSequence = nextSequence t\<rparr>;
          childPtr = length (nodes t);
          kids = nodeChildren (cur t) @ [childPtr]
      in \<lparr>nodes = (nodes t)[currentNode t :=
                      (cur t)\<lparr>nodeChildren := kids, mostRecentChild := length kids - 1\<rparr>] @ [child],
          rootNode = rootNode t, currentNode = childPtr, nextSequence = nextSequence t + 1,
          bySequence = emplace (bySequence t) (nextSequence t) childPtr\<rparr>)"

definition undo_amend :: "undo_tree \<Rightarrow> storage \<Rightarrow> undo_tree" where
  "undo_amend t newState =
     t\<lparr>nodes := (nodes t)[currentNode t := (cur t)\<lparr>nodeState := newState\<rparr>]\<rparr>"

definition can_undo :: "undo_tree \<Rightarrow> bool" where
  "can_undo t \<longleftrightarrow> nodeParent (cur t) \<noteq> None"

definition can_redo :: "undo_tree \<Rightarrow> bool" where
  "can_redo t \<longleftrightarrow> nodeChildren (cur t) \<noteq> []"

definition undo_undo :: "undo_tree \<Rightarrow> undo_tree" where
  "undo_undo t = (case nodeParent (cur t) of None \<Rightarrow> t | Some p \<Rightarrow> t\<lparr>currentNode := p\<rparr>)"

definition undo_redo :: "undo_tree \<Rightarrow> undo_tree option" where
  "undo_redo t =
     (if \<not> can_redo t then Some t
      else if mostRecentChild (cur t) < length (nodeChildren (cur t))
      then Some (t\<lparr>currentNode := nodeChildren (cur t) ! mostRecentChild (cur t)\<rparr>)
      else None)"

definition child_count :: "undo_tree \<Rightarrow> nat" where
  "child_count t = length (nodeChildren (cur t))"

definition current_sequence :: "undo_tree \<Rightarrow> nat" where
  "current_sequence t = nodeSequence (cur t)"

definition has_sequence :: "undo_tree \<Rightarrow> nat \<Rightarrow> bool" where
  "has_sequence t seq \<longleftrightarrow> bySequence t seq \<noteq> None"

text \<open>The loop of \<open>JumpTo\<close> over the parent's children, from index \<open>i\<close>.\<close>

fun repoint :: "nat \<Rightarrow> nat \<Rightarrow> nat list \<Rightarrow> nat \<Rightarrow> nat" where
  "repoint target i [] old = old"
| "repoint target i (c # cs) old = (if c = target then i else repoint target (Suc i) cs old)"

definition undo_jump_to :: "undo_tree \<Rightarrow> nat \<Rightarrow> bool \<times> undo_tree" where
  "undo_jump_to t seq =
     (case bySequence t seq of
        None \<Rightarrow> (False, t)
      | Some target \<Rightarrow>
          (True,
           (case nodeParent (nodes t ! target) of
              None \<Rightarrow> t
            | Some p \<Rightarrow>
                let parent = nodes t ! p in
                t\<lparr>nodes := (nodes t)[p := parent\<lparr>mostRecentChild :=
                     repoint target 0 (nodeChildren parent) (mostRecentChild parent)\<rparr>]\<rparr>)
             \<lparr>currentNode := target\<rparr>))"

section \<open>The flat form\<close>

record serialized_node =
  snId :: nat
  snParent :: "nat option"
  snContent :: bytes
  snMostRecentChild :: nat

text \<open>
  The recursive walk of \<open>Serialize\<close>, with the calls still to be made as a list: a node is
  written, then its children are walked in order, each with this node's id.
\<close>

partial_function (option) serialize_walk ::
  "heap \<Rightarrow> undo_node list \<Rightarrow> (nat \<times> nat option) list \<Rightarrow> serialized_node list \<Rightarrow> serialized_node list option" where
  "serialize_walk h ns pending out =
     (case pending of
        [] \<Rightarrow> Some out
      | (a, parentId) # rest \<Rightarrow>
          let myId = length out in
          serialize_walk h ns (map (\<lambda>c. (c, Some myId)) (nodeChildren (ns ! a)) @ rest)
            (out @ [\<lparr>snId = myId, snParent = parentId, snContent = st_to_string h (nodeState (ns ! a)),
                     snMostRecentChild = mostRecentChild (ns ! a)\<rparr>]))"

definition undo_serialize :: "heap \<Rightarrow> undo_tree \<Rightarrow> serialized_node list option" where
  "undo_serialize h t = serialize_walk h (nodes t) [(rootNode t, None)] []"

text \<open>The walk of \<open>CurrentNodeId\<close>, which stops at the current node; 0 when it is not met.\<close>

partial_function (option) find_walk :: "undo_node list \<Rightarrow> nat \<Rightarrow> nat list \<Rightarrow> nat \<Rightarrow> nat option" where
  "find_walk ns target pending nextId =
     (case pending of
        [] \<Rightarrow> Some 0
      | a # rest \<Rightarrow>
          if a = target then Some nextId
          else find_walk ns target (nodeChildren (ns ! a) @ rest) (Suc nextId))"

definition current_node_id :: "undo_tree \<Rightarrow> nat option" where
  "current_node_id t = find_walk (nodes t) (currentNode t) [rootNode t] 0"

datatype undo_error =
    EmptyNodeList | DuplicateNodeId | MoreThanOneRoot | NoRoot | UnknownCurrentId
  | CycleInParentChain | UnreachableFromRoot | DanglingParentId

text \<open>The three passes that check a list before anything is built.\<close>

fun index_by_id :: "serialized_node list \<Rightarrow> (nat \<rightharpoonup> serialized_node) \<Rightarrow> (nat \<rightharpoonup> serialized_node) option" where
  "index_by_id [] m = Some m"
| "index_by_id (n # ns) m = (if m (snId n) \<noteq> None then None else index_by_id ns (m(snId n \<mapsto> n)))"

fun find_root :: "serialized_node list \<Rightarrow> nat option \<Rightarrow> undo_error + nat option" where
  "find_root [] r = Inr r"
| "find_root (n # ns) r =
     (if snParent n = None then
        (if r \<noteq> None then Inl MoreThanOneRoot else find_root ns (Some (snId n)))
      else find_root ns r)"

text \<open>\<open>budget\<close> is \<open>nodes.size() + 1 - steps\<close>.\<close>

fun check_chain :: "(nat \<rightharpoonup> serialized_node) \<Rightarrow> nat \<Rightarrow> nat \<Rightarrow> serialized_node \<Rightarrow> undo_error option" where
  "check_chain byId rootId budget walker =
     (if snId walker = rootId then None
      else case budget of
        0 \<Rightarrow> Some CycleInParentChain
      | Suc b \<Rightarrow>
          (case snParent walker of
             None \<Rightarrow> Some UnreachableFromRoot
           | Some p \<Rightarrow>
               (case byId p of
                  None \<Rightarrow> Some DanglingParentId
                | Some w \<Rightarrow> check_chain byId rootId b w)))"

declare check_chain.simps [simp del]

fun check_chains :: "(nat \<rightharpoonup> serialized_node) \<Rightarrow> nat \<Rightarrow> nat \<Rightarrow> serialized_node list \<Rightarrow> undo_error option" where
  "check_chains byId rootId budget [] = None"
| "check_chains byId rootId budget (n # ns) =
     (case check_chain byId rootId budget n of
        Some e \<Rightarrow> Some e
      | None \<Rightarrow> check_chains byId rootId budget ns)"

text \<open>The building loop: nodes in list order, sequences handed out as they come.\<close>

fun build_nodes :: "nat \<Rightarrow> nat \<Rightarrow> serialized_node list \<Rightarrow> (undo_node list \<times> nat) option" where
  "build_nodes rootId nextSeq [] = Some ([], nextSeq)"
| "build_nodes rootId nextSeq (n # ns) =
     (case rope_of_text (snContent n) of
        None \<Rightarrow> None
      | Some rope \<Rightarrow>
          let (seq, nextSeq') = (if snId n = rootId then (0, nextSeq) else (nextSeq, nextSeq + 1)) in
          (case build_nodes rootId nextSeq' ns of
             None \<Rightarrow> None
           | Some (built, final) \<Rightarrow>
               Some (\<lparr>nodeState = RopeStorage rope, nodeParent = None, nodeChildren = [],
                      mostRecentChild = snMostRecentChild n, nodeSequence = seq\<rparr> # built, final)))"

text \<open>The address of an id: where its node stands in the list.\<close>

fun live_at :: "serialized_node list \<Rightarrow> nat \<Rightarrow> nat" where
  "live_at [] i = 0"
| "live_at (n # ns) i = (if snId n = i then 0 else Suc (live_at ns i))"

text \<open>The linking loop, at list position \<open>self\<close>.\<close>

fun link_nodes :: "serialized_node list \<Rightarrow> nat \<Rightarrow> serialized_node list \<Rightarrow> undo_node list \<Rightarrow> undo_node list" where
  "link_nodes all self [] built = built"
| "link_nodes all self (n # ns) built =
     link_nodes all (Suc self) ns
       (case snParent n of
          None \<Rightarrow> built
        | Some pid \<Rightarrow>
            let p = live_at all pid;
                b1 = built[self := (built ! self)\<lparr>nodeParent := Some p\<rparr>]
            in b1[p := (b1 ! p)\<lparr>nodeChildren := nodeChildren (b1 ! p) @ [self]\<rparr>])"

fun sequence_index :: "nat \<Rightarrow> undo_node list \<Rightarrow> (nat \<rightharpoonup> nat) \<Rightarrow> (nat \<rightharpoonup> nat)" where
  "sequence_index i [] m = m"
| "sequence_index i (n # ns) m = sequence_index (Suc i) ns (emplace m (nodeSequence n) i)"

definition undo_deserialize :: "serialized_node list \<Rightarrow> nat \<Rightarrow> (undo_error + undo_tree) option" where
  "undo_deserialize ns currentId =
     (if ns = [] then Some (Inl EmptyNodeList)
      else case index_by_id ns Map.empty of
        None \<Rightarrow> Some (Inl DuplicateNodeId)
      | Some byId \<Rightarrow>
          (case find_root ns None of
             Inl e \<Rightarrow> Some (Inl e)
           | Inr None \<Rightarrow> Some (Inl NoRoot)
           | Inr (Some rootId) \<Rightarrow>
               if byId currentId = None then Some (Inl UnknownCurrentId)
               else case check_chains byId rootId (length ns + 1) ns of
                 Some e \<Rightarrow> Some (Inl e)
               | None \<Rightarrow>
                   (case build_nodes rootId 1 ns of
                      None \<Rightarrow> None
                    | Some (built, nextSeq) \<Rightarrow>
                        let linked = link_nodes ns 0 ns built in
                        Some (Inr \<lparr>nodes = linked, rootNode = live_at ns rootId,
                                   currentNode = live_at ns currentId, nextSequence = nextSeq,
                                   bySequence = sequence_index 0 linked Map.empty\<rparr>))))"

section \<open>History is never lost\<close>

text \<open>
  The invariant: parents come before their children, children lists and parent pointers
  agree, the branch \<open>Redo\<close> follows exists, and the sequence index is exact.
\<close>

definition links_ok :: "undo_node list \<Rightarrow> nat \<Rightarrow> bool" where
  "links_ok ns r \<longleftrightarrow> r < length ns \<and>
     (\<forall>a < length ns. (nodeParent (ns ! a) = None \<longleftrightarrow> a = r) \<and>
        (\<forall>p. nodeParent (ns ! a) = Some p \<longrightarrow> p < a) \<and>
        distinct (nodeChildren (ns ! a)) \<and>
        (\<forall>c. c \<in> set (nodeChildren (ns ! a)) \<longleftrightarrow> c < length ns \<and> nodeParent (ns ! c) = Some a) \<and>
        (nodeChildren (ns ! a) \<noteq> [] \<longrightarrow> mostRecentChild (ns ! a) < length (nodeChildren (ns ! a))))"

definition sequences_ok :: "undo_tree \<Rightarrow> bool" where
  "sequences_ok t \<longleftrightarrow>
     (\<forall>a < length (nodes t). nodeSequence (nodes t ! a) < nextSequence t \<and>
        bySequence t (nodeSequence (nodes t ! a)) = Some a) \<and>
     (\<forall>s a. bySequence t s = Some a \<longrightarrow> a < length (nodes t) \<and> nodeSequence (nodes t ! a) = s)"

definition undo_inv :: "undo_tree \<Rightarrow> bool" where
  "undo_inv t \<longleftrightarrow> links_ok (nodes t) (rootNode t) \<and> currentNode t < length (nodes t) \<and> sequences_ok t"

lemma links_okD:
  assumes "links_ok ns r" "a < length ns"
  shows "nodeParent (ns ! a) = None \<longleftrightarrow> a = r" "nodeParent (ns ! a) = Some p \<Longrightarrow> p < a"
    "distinct (nodeChildren (ns ! a))"
    "c \<in> set (nodeChildren (ns ! a)) \<longleftrightarrow> c < length ns \<and> nodeParent (ns ! c) = Some a"
    "nodeChildren (ns ! a) \<noteq> [] \<Longrightarrow> mostRecentChild (ns ! a) < length (nodeChildren (ns ! a))"
  using assms by (auto simp: links_ok_def)

lemma sequences_okD:
  assumes "sequences_ok t"
  shows "a < length (nodes t) \<Longrightarrow> nodeSequence (nodes t ! a) < nextSequence t"
    "a < length (nodes t) \<Longrightarrow> bySequence t (nodeSequence (nodes t ! a)) = Some a"
    "bySequence t q = Some a \<Longrightarrow> a < length (nodes t)"
    "bySequence t q = Some a \<Longrightarrow> nodeSequence (nodes t ! a) = q"
  using assms by (simp_all add: sequences_ok_def)

lemma undo_init_inv: "undo_inv (undo_init s)"
  by (auto simp: undo_inv_def links_ok_def sequences_ok_def undo_init_def emplace_def)

lemma links_ok_record:
  assumes ok: "links_ok ns r" and c: "c < length ns" and parent: "nodeParent child = Some c"
    and leaf: "nodeChildren child = []" and m: "m = length (nodeChildren (ns ! c))"
  shows "links_ok (ns[c := (ns ! c)\<lparr>nodeChildren := nodeChildren (ns ! c) @ [length ns],
           mostRecentChild := m\<rparr>] @ [child]) r"
proof -
  define ns' where "ns' = ns[c := (ns ! c)\<lparr>nodeChildren := nodeChildren (ns ! c) @ [length ns],
           mostRecentChild := m\<rparr>] @ [child]"
  have len: "length ns' = Suc (length ns)" by (simp add: ns'_def)
  have new: "ns' ! length ns = child" using c by (simp add: ns'_def nth_append)
  have parents: "nodeParent (ns' ! a) = nodeParent (ns ! a)" if "a < length ns" for a
    using c that by (simp add: ns'_def nth_append nth_list_update)
  have kids: "nodeChildren (ns' ! a) =
      nodeChildren (ns ! a) @ (if a = c then [length ns] else [])" if "a < length ns" for a
    using c that by (simp add: ns'_def nth_append nth_list_update)
  have recent: "mostRecentChild (ns' ! a) = (if a = c then m else mostRecentChild (ns ! a))"
    if "a < length ns" for a
    using c that by (simp add: ns'_def nth_append nth_list_update)
  have fresh: "length ns \<notin> set (nodeChildren (ns ! a))" if "a < length ns" for a
    using links_okD(4) [OF ok that] by blast
  have r: "r < length ns" using ok by (simp add: links_ok_def)
  have "(nodeParent (ns' ! a) = None \<longleftrightarrow> a = r) \<and>
        (\<forall>p. nodeParent (ns' ! a) = Some p \<longrightarrow> p < a) \<and>
        distinct (nodeChildren (ns' ! a)) \<and>
        (\<forall>k. k \<in> set (nodeChildren (ns' ! a)) \<longleftrightarrow> k < length ns' \<and> nodeParent (ns' ! k) = Some a) \<and>
        (nodeChildren (ns' ! a) \<noteq> [] \<longrightarrow> mostRecentChild (ns' ! a) < length (nodeChildren (ns' ! a)))"
    if "a < length ns'" for a
  proof (cases "a < length ns")
    case True
    note d = links_okD [OF ok True]
    have "k \<in> set (nodeChildren (ns' ! a)) \<longleftrightarrow> k < length ns' \<and> nodeParent (ns' ! k) = Some a" for k
    proof (cases "k < length ns")
      case k: True
      then show ?thesis using d(4) [of k] by (simp add: kids [OF True] parents len)
    next
      case False
      then show ?thesis
        using d(4) [of k] parent new by (cases "k = length ns") (auto simp: kids [OF True] len)
    qed
    moreover have "distinct (nodeChildren (ns' ! a))"
      using d(3) fresh [OF True] unfolding kids [OF True] by auto
    ultimately show ?thesis
      using d(1,2,5) m by (simp add: kids [OF True] parents [OF True] recent [OF True])
  next
    case False
    with that len have a: "a = length ns" by simp
    have "nodeParent (ns' ! k) \<noteq> Some (length ns)" if "k < length ns'" for k
      using that links_okD(2) [OF ok, of k "length ns"] parent new c len
      by (cases "k < length ns") (auto simp: parents less_Suc_eq)
    then show ?thesis using a new parent leaf c r by auto
  qed
  then show ?thesis using r len unfolding ns'_def [symmetric] by (simp add: links_ok_def)
qed

lemma links_ok_update:
  assumes "links_ok ns r" "c < length ns" "nodeParent n = nodeParent (ns ! c)"
    "nodeChildren n = nodeChildren (ns ! c)"
    "nodeChildren n \<noteq> [] \<Longrightarrow> mostRecentChild n < length (nodeChildren n)"
  shows "links_ok (ns[c := n]) r"
proof -
  have parents: "nodeParent (ns[c := n] ! a) = nodeParent (ns ! a)" for a
    using assms(2,3) by (cases "a = c") simp_all
  have kids: "nodeChildren (ns[c := n] ! a) = nodeChildren (ns ! a)" for a
    using assms(2,4) by (cases "a = c") simp_all
  have recent: "mostRecentChild (ns[c := n] ! a) < length (nodeChildren (ns ! a))"
    if "a < length ns" "nodeChildren (ns ! a) \<noteq> []" for a
    using that assms(2,4,5) links_okD(5) [OF assms(1) that(1)] by (cases "a = c") simp_all
  show ?thesis
    unfolding links_ok_def parents kids length_list_update
  proof (intro conjI allI impI)
    show "r < length ns" using assms(1) by (simp add: links_ok_def)
    fix a assume a: "a < length ns"
    note d = links_okD [OF assms(1) a]
    show "nodeParent (ns ! a) = None \<longleftrightarrow> a = r" by (rule d(1))
    show "distinct (nodeChildren (ns ! a))" by (rule d(3))
    show "p < a" if "nodeParent (ns ! a) = Some p" for p using that by (rule d(2))
    show "k \<in> set (nodeChildren (ns ! a)) \<longleftrightarrow> k < length ns \<and> nodeParent (ns ! k) = Some a" for k
      by (rule d(4))
    show "mostRecentChild (ns[c := n] ! a) < length (nodeChildren (ns ! a))"
      if "nodeChildren (ns ! a) \<noteq> []" using recent [OF a that] .
  qed
qed

lemma sequences_ok_update:
  assumes "sequences_ok t" "nodeSequence n = nodeSequence (nodes t ! c)" "c < length (nodes t)"
  shows "sequences_ok (t\<lparr>nodes := (nodes t)[c := n]\<rparr>)"
proof -
  have "nodeSequence ((nodes t)[c := n] ! a) = nodeSequence (nodes t ! a)" for a
    using assms(2,3) by (cases "a = c") simp_all
  with assms(1) show ?thesis by (simp add: sequences_ok_def)
qed

lemma undo_record_inv:
  assumes "undo_inv t"
  shows "undo_inv (undo_record t s)"
proof -
  have ok: "links_ok (nodes t) (rootNode t)" "currentNode t < length (nodes t)" "sequences_ok t"
    using assms by (simp_all add: undo_inv_def)
  have fresh: "bySequence t (nextSequence t) = None"
  proof (cases "bySequence t (nextSequence t)")
    case (Some a)
    with ok(3) have "a < length (nodes t)" "nodeSequence (nodes t ! a) = nextSequence t"
      by (simp_all add: sequences_ok_def)
    moreover from this have "nodeSequence (nodes t ! a) < nextSequence t"
      using ok(3) unfolding sequences_ok_def by blast
    ultimately show ?thesis by simp
  qed simp
  have "links_ok (nodes (undo_record t s)) (rootNode t)"
    using ok(1,2) by (simp add: undo_record_def Let_def links_ok_record)
  moreover have "sequences_ok (undo_record t s)"
  proof -
    let ?t = "undo_record t s"
    have len: "length (nodes ?t) = Suc (length (nodes t))" and
      nxt: "nextSequence ?t = Suc (nextSequence t)" and
      by_seq: "bySequence ?t = (bySequence t)(nextSequence t \<mapsto> length (nodes t))"
      using fresh by (simp_all add: undo_record_def Let_def emplace_def)
    have new: "nodeSequence (nodes ?t ! length (nodes t)) = nextSequence t"
      by (simp add: undo_record_def Let_def nth_append)
    have old: "nodeSequence (nodes ?t ! a) = nodeSequence (nodes t ! a)" if "a < length (nodes t)" for a
      using that ok(2) by (cases "a = currentNode t") (simp_all add: undo_record_def Let_def nth_append)
    have below: "nodeSequence (nodes t ! a) < nextSequence t \<and>
        bySequence t (nodeSequence (nodes t ! a)) = Some a" if "a < length (nodes t)" for a
      using ok(3) that by (simp add: sequences_ok_def)
    have "nodeSequence (nodes ?t ! a) < nextSequence ?t \<and>
        bySequence ?t (nodeSequence (nodes ?t ! a)) = Some a" if "a < length (nodes ?t)" for a
      using that below [of a] by (cases "a = length (nodes t)") (auto simp: len nxt by_seq new old)
    moreover have "a < length (nodes ?t) \<and> nodeSequence (nodes ?t ! a) = q" if "bySequence ?t q = Some a" for q a
    proof (cases "q = nextSequence t")
      case True
      with that have "a = length (nodes t)" by (simp add: by_seq)
      with True new len show ?thesis by simp
    next
      case False
      with that have "bySequence t q = Some a" by (simp add: by_seq)
      from sequences_okD(3,4) [OF ok(3) this] show ?thesis by (simp add: len old)
    qed
    ultimately show ?thesis by (simp add: sequences_ok_def)
  qed
  ultimately show ?thesis
    by (simp add: undo_inv_def undo_record_def Let_def)
qed

lemma repoint_finds:
  "target \<in> set cs \<Longrightarrow> \<exists>k < length cs. repoint target i cs old = i + k \<and> cs ! k = target"
proof (induction target i cs old rule: repoint.induct)
  case (2 target i c cs old)
  show ?case
  proof (cases "c = target")
    case True
    then show ?thesis by (intro exI [of _ 0]) simp
  next
    case False
    with 2 obtain k where "k < length cs" "repoint target (Suc i) cs old = Suc i + k" "cs ! k = target"
      by auto
    with False show ?thesis by (intro exI [of _ "Suc k"]) simp
  qed
qed simp

text \<open>What a session does to the history.  \<open>None\<close> would be a redo into nothing.\<close>

datatype undo_event = DoRecord storage | DoAmend storage | DoUndo | DoRedo | DoJump nat

fun undo_step :: "undo_tree \<Rightarrow> undo_event \<Rightarrow> undo_tree option" where
  "undo_step t (DoRecord s) = Some (undo_record t s)"
| "undo_step t (DoAmend s) = Some (undo_amend t s)"
| "undo_step t DoUndo = Some (undo_undo t)"
| "undo_step t DoRedo = undo_redo t"
| "undo_step t (DoJump q) = Some (snd (undo_jump_to t q))"

fun undo_run :: "undo_tree \<Rightarrow> undo_event list \<Rightarrow> undo_tree option" where
  "undo_run t [] = Some t"
| "undo_run t (ev # evs) = Option.bind (undo_step t ev) (\<lambda>t'. undo_run t' evs)"

lemma undo_amend_inv: "undo_inv t \<Longrightarrow> undo_inv (undo_amend t s)"
  by (auto simp: undo_inv_def undo_amend_def links_okD(5)
      intro!: links_ok_update sequences_ok_update)

lemma undo_undo_inv:
  assumes "undo_inv t"
  shows "undo_inv (undo_undo t)"
proof (cases "nodeParent (cur t)")
  case (Some p)
  with assms have "p < currentNode t" using links_okD(2) by (auto simp: undo_inv_def)
  with assms Some show ?thesis by (simp add: undo_inv_def undo_undo_def sequences_ok_def)
qed (use assms in \<open>simp add: undo_undo_def\<close>)

lemma undo_redo_some:
  assumes "undo_inv t" "can_redo t"
  shows "undo_redo t = Some (t\<lparr>currentNode := nodeChildren (cur t) ! mostRecentChild (cur t)\<rparr>)"
    "nodeChildren (cur t) ! mostRecentChild (cur t) < length (nodes t)"
    "nodeParent (nodes t ! (nodeChildren (cur t) ! mostRecentChild (cur t))) = Some (currentNode t)"
proof -
  have ok: "links_ok (nodes t) (rootNode t)" "currentNode t < length (nodes t)"
    using assms(1) by (simp_all add: undo_inv_def)
  have m: "mostRecentChild (cur t) < length (nodeChildren (cur t))"
    using links_okD(5) [OF ok] assms(2) by (simp add: can_redo_def)
  then have "nodeChildren (cur t) ! mostRecentChild (cur t) \<in> set (nodeChildren (cur t))" by simp
  then show "nodeChildren (cur t) ! mostRecentChild (cur t) < length (nodes t)"
    "nodeParent (nodes t ! (nodeChildren (cur t) ! mostRecentChild (cur t))) = Some (currentNode t)"
    using links_okD(4) [OF ok] by auto
  show "undo_redo t = Some (t\<lparr>currentNode := nodeChildren (cur t) ! mostRecentChild (cur t)\<rparr>)"
    using m assms(2) by (simp add: undo_redo_def)
qed

lemma undo_redo_inv:
  assumes "undo_inv t"
  shows "\<exists>t'. undo_redo t = Some t' \<and> undo_inv t'"
proof (cases "can_redo t")
  case True
  with undo_redo_some [OF assms True] assms show ?thesis
    by (simp add: undo_inv_def sequences_ok_def)
qed (use assms in \<open>simp add: undo_redo_def\<close>)

text \<open>The history of a tree: the state and parent of every node it ever had.\<close>

definition same_history :: "undo_tree \<Rightarrow> undo_tree \<Rightarrow> bool" where
  "same_history t t' \<longleftrightarrow> length (nodes t) \<le> length (nodes t') \<and> rootNode t' = rootNode t \<and>
     (\<forall>a < length (nodes t). nodeState (nodes t' ! a) = nodeState (nodes t ! a) \<and>
        nodeParent (nodes t' ! a) = nodeParent (nodes t ! a) \<and>
        nodeSequence (nodes t' ! a) = nodeSequence (nodes t ! a) \<and>
        (\<exists>more. nodeChildren (nodes t' ! a) = nodeChildren (nodes t ! a) @ more))"

lemma same_history_refl: "nodes t' = nodes t \<Longrightarrow> rootNode t' = rootNode t \<Longrightarrow> same_history t t'"
  by (simp add: same_history_def)

lemma same_history_trans: "same_history a b \<Longrightarrow> same_history b c \<Longrightarrow> same_history a c"
  unfolding same_history_def by (metis (no_types, lifting) append.assoc order_trans less_le_trans)

lemma undo_jump_props:
  assumes "undo_inv t"
  shows "undo_inv (snd (undo_jump_to t q)) \<and> same_history t (snd (undo_jump_to t q)) \<and>
    bySequence (snd (undo_jump_to t q)) = bySequence t \<and> nextSequence (snd (undo_jump_to t q)) = nextSequence t"
proof (cases "bySequence t q")
  case None
  with assms show ?thesis by (simp add: undo_jump_to_def same_history_refl)
next
  case (Some target)
  have ok: "links_ok (nodes t) (rootNode t)" "sequences_ok t" "target < length (nodes t)"
    using assms Some by (auto simp: undo_inv_def sequences_ok_def)
  show ?thesis
  proof (cases "nodeParent (nodes t ! target)")
    case None
    with Some assms ok show ?thesis
      by (simp add: undo_jump_to_def undo_inv_def sequences_ok_def same_history_refl)
  next
    case (Some p)
    let ?parent = "nodes t ! p"
    let ?n = "?parent\<lparr>mostRecentChild := repoint target 0 (nodeChildren ?parent) (mostRecentChild ?parent)\<rparr>"
    have p: "p < length (nodes t)" using links_okD(2) [OF ok(1,3) Some] ok(3) by simp
    have "target \<in> set (nodeChildren ?parent)" using links_okD(4) [OF ok(1) p] ok(3) Some by simp
    from repoint_finds [OF this, of 0 "mostRecentChild ?parent"]
    have m: "mostRecentChild ?n < length (nodeChildren ?n)" by auto
    have jump: "snd (undo_jump_to t q) = t\<lparr>nodes := (nodes t)[p := ?n], currentNode := target\<rparr>"
      using \<open>bySequence t q = Some target\<close> Some by (simp add: undo_jump_to_def Let_def)
    have "links_ok ((nodes t)[p := ?n]) (rootNode t)"
      using ok(1) p m by (intro links_ok_update) simp_all
    moreover have "sequences_ok (t\<lparr>nodes := (nodes t)[p := ?n]\<rparr>)"
      using ok(2) p by (intro sequences_ok_update) simp_all
    moreover have "same_history t (t\<lparr>nodes := (nodes t)[p := ?n], currentNode := target\<rparr>)"
    proof -
      have "nodeState ((nodes t)[p := ?n] ! a) = nodeState (nodes t ! a) \<and>
          nodeParent ((nodes t)[p := ?n] ! a) = nodeParent (nodes t ! a) \<and>
          nodeSequence ((nodes t)[p := ?n] ! a) = nodeSequence (nodes t ! a) \<and>
          nodeChildren ((nodes t)[p := ?n] ! a) = nodeChildren (nodes t ! a)" for a
        using p by (cases "a = p") simp_all
      then show ?thesis by (simp add: same_history_def)
    qed
    ultimately show ?thesis
      using ok(3) jump by (simp add: undo_inv_def sequences_ok_def)
  qed
qed

lemma undo_record_history:
  assumes "undo_inv t"
  shows "same_history t (undo_record t s)"
proof -
  have c: "currentNode t < length (nodes t)" using assms by (simp add: undo_inv_def)
  have "nodeState (nodes (undo_record t s) ! a) = nodeState (nodes t ! a) \<and>
      nodeParent (nodes (undo_record t s) ! a) = nodeParent (nodes t ! a) \<and>
      nodeSequence (nodes (undo_record t s) ! a) = nodeSequence (nodes t ! a) \<and>
      (\<exists>more. nodeChildren (nodes (undo_record t s) ! a) = nodeChildren (nodes t ! a) @ more)"
    if "a < length (nodes t)" for a
    using c that by (cases "a = currentNode t") (simp_all add: undo_record_def Let_def nth_append)
  then show ?thesis by (simp add: same_history_def undo_record_def Let_def)
qed

lemma undo_step_props:
  assumes "undo_inv t" "\<forall>s. ev \<noteq> DoAmend s"
  shows "\<exists>t'. undo_step t ev = Some t' \<and> undo_inv t' \<and> same_history t t'"
proof (cases ev)
  case (DoRecord s)
  with assms show ?thesis by (simp add: undo_record_inv undo_record_history)
next
  case DoUndo
  with assms show ?thesis
    by (simp add: undo_undo_inv) (simp add: undo_undo_def same_history_refl split: option.splits)
next
  case DoRedo
  with assms obtain t' where t': "undo_redo t = Some t'" "undo_inv t'" using undo_redo_inv by blast
  then have "nodes t' = nodes t" "rootNode t' = rootNode t"
    by (auto simp: undo_redo_def split: if_splits)
  with t' DoRedo show ?thesis by (simp add: same_history_refl)
next
  case (DoJump q)
  with undo_jump_props [OF assms(1)] show ?thesis by simp
qed (use assms in simp)

lemma undo_run_props:
  assumes "undo_inv t" "\<forall>s. DoAmend s \<notin> set evs"
  shows "\<exists>t'. undo_run t evs = Some t' \<and> undo_inv t' \<and> same_history t t'"
  using assms
proof (induction evs arbitrary: t)
  case Nil
  then show ?case by (simp add: same_history_refl)
next
  case (Cons ev evs)
  have "\<forall>s. ev \<noteq> DoAmend s" using Cons.prems(2) by auto
  from undo_step_props [OF Cons.prems(1) this] obtain t1
    where t1: "undo_step t ev = Some t1" "undo_inv t1" "same_history t t1" by blast
  have "\<forall>s. DoAmend s \<notin> set evs" using Cons.prems(2) by simp
  from Cons.IH [OF t1(2) this] obtain t2
    where t2: "undo_run t1 evs = Some t2" "undo_inv t2" "same_history t1 t2" by blast
  with t1 same_history_trans [OF t1(3) t2(3)] show ?case by simp
qed

lemma same_history_sequence:
  assumes "undo_inv t" "undo_inv t'" "same_history t t'" "bySequence t q = Some a"
  shows "bySequence t' q = Some a" "a < length (nodes t)" "nodeState (nodes t' ! a) = nodeState (nodes t ! a)"
proof -
  have ok: "sequences_ok t" "sequences_ok t'" using assms(1,2) by (simp_all add: undo_inv_def)
  show a: "a < length (nodes t)" by (rule sequences_okD(3) [OF ok(1) assms(4)])
  show "nodeState (nodes t' ! a) = nodeState (nodes t ! a)" using assms(3) a by (simp add: same_history_def)
  have "nodeSequence (nodes t' ! a) = q" "a < length (nodes t')"
    using assms(3) a sequences_okD(4) [OF ok(1) assms(4)] by (simp_all add: same_history_def)
  with sequences_okD(2) [OF ok(2), of a] show "bySequence t' q = Some a" by simp
qed

lemma undo_jump_lands:
  assumes "undo_inv t" "bySequence t q = Some a"
  shows "fst (undo_jump_to t q)" "undo_current (snd (undo_jump_to t q)) = nodeState (nodes t ! a)"
proof -
  show "fst (undo_jump_to t q)" using assms(2) by (simp add: undo_jump_to_def)
  have "same_history t (snd (undo_jump_to t q))" using undo_jump_props [OF assms(1)] by blast
  moreover have "a < length (nodes t)" using assms sequences_okD(3) by (simp add: undo_inv_def)
  moreover have "currentNode (snd (undo_jump_to t q)) = a" using assms(2) by (simp add: undo_jump_to_def)
  ultimately show "undo_current (snd (undo_jump_to t q)) = nodeState (nodes t ! a)"
    by (simp add: undo_current_def same_history_def)
qed

lemma undo_after_record:
  assumes "undo_inv t"
  shows "undo_undo (undo_record t s) = (undo_record t s)\<lparr>currentNode := currentNode t\<rparr>"
    "undo_redo (undo_undo (undo_record t s)) = Some (undo_record t s)"
    "undo_current (undo_record t s) = s" "undo_current (undo_undo (undo_record t s)) = undo_current t"
proof -
  have c: "currentNode t < length (nodes t)" using assms by (simp add: undo_inv_def)
  show u: "undo_undo (undo_record t s) = (undo_record t s)\<lparr>currentNode := currentNode t\<rparr>"
    by (simp add: undo_undo_def undo_record_def Let_def nth_append)
  show "undo_redo (undo_undo (undo_record t s)) = Some (undo_record t s)"
    unfolding u using c by (simp add: undo_redo_def can_redo_def undo_record_def Let_def nth_append)
  show "undo_current (undo_record t s) = s"
    by (simp add: undo_current_def undo_record_def Let_def nth_append)
  show "undo_current (undo_undo (undo_record t s)) = undo_current t"
    unfolding u using c by (simp add: undo_current_def undo_record_def Let_def nth_append)
qed

section \<open>Writing a tree and reading it back\<close>

text \<open>A history as a tree of contents, and its flat form.\<close>

datatype history = History (hContent: bytes) (hRecent: nat) (hBranches: "history list")

fun history_size :: "history \<Rightarrow> nat" where
  "history_size (History s m ks) = Suc (sum_list (map history_size ks))"

function preorder :: "nat option \<Rightarrow> nat \<Rightarrow> history \<Rightarrow> serialized_node list"
  and preorders :: "nat \<Rightarrow> nat \<Rightarrow> history list \<Rightarrow> serialized_node list" where
  "preorder p i (History s m ks) =
     \<lparr>snId = i, snParent = p, snContent = s, snMostRecentChild = m\<rparr> # preorders i (Suc i) ks"
| "preorders p i [] = []"
| "preorders p i (k # ks) = preorder (Some p) i k @ preorders p (i + history_size k) ks"
  by pat_completeness auto
termination
  by (relation "measure (case_sum (\<lambda>(p, i, r). size r) (\<lambda>(p, i, ks). size_list size ks))") auto

fun represents :: "heap \<Rightarrow> undo_node list \<Rightarrow> nat \<Rightarrow> history \<Rightarrow> bool" where
  "represents h ns a (History s m ks) \<longleftrightarrow>
     a < length ns \<and> st_to_string h (nodeState (ns ! a)) = s \<and> mostRecentChild (ns ! a) = m \<and>
     list_all2 (\<lambda>c k. represents h ns c k) (nodeChildren (ns ! a)) ks"

lemma length_preorder:
  "length (preorder p i r) = history_size r" "length (preorders q i ks) = sum_list (map history_size ks)"
  by (induction p i r and q i ks rule: preorder_preorders.induct) simp_all

lemma preorder_ids:
  "map snId (preorder p i r) = [i..<i + history_size r]"
  "map snId (preorders q i ks) = [i..<i + sum_list (map history_size ks)]"
proof (induction p i r and q i ks rule: preorder_preorders.induct)
  case (1 p i s m ks)
  then show ?case by (simp add: upt_conv_Cons del: upt_Suc)
next
  case (3 p i k ks)
  then show ?case
    using upt_add_eq_append [of i "i + history_size k" "sum_list (map history_size ks)"]
    by (simp add: add.assoc)
qed simp

lemma preorder_head:
  assumes "x \<in> set (preorder p i r)" "snId x = i"
  shows "snParent x = p"
proof -
  obtain s m ks where r: "r = History s m ks" by (cases r)
  have "snId x \<noteq> i" if "x \<in> set (preorders i (Suc i) ks)"
  proof -
    from that have "snId x \<in> set (map snId (preorders i (Suc i) ks))" by simp
    then show ?thesis unfolding preorder_ids by auto
  qed
  with assms r have "x = \<lparr>snId = i, snParent = p, snContent = s, snMostRecentChild = m\<rparr>" by auto
  then show ?thesis by (rule ssubst) simp
qed

text \<open>Every flat form says where its nodes hang: below an earlier node of its own.\<close>

lemma preorder_parents:
  "x \<in> set (preorder p i r) \<Longrightarrow> snId x \<noteq> i \<Longrightarrow> \<exists>q. snParent x = Some q \<and> i \<le> q \<and> q < snId x"
  "x \<in> set (preorders p' i ks) \<Longrightarrow> p' < i \<Longrightarrow>
     \<exists>q. snParent x = Some q \<and> (q = p' \<or> i \<le> q) \<and> q < snId x"
proof (induction p i r and p' i ks rule: preorder_preorders.induct)
  case (1 p i s m ks)
  then obtain q where "snParent x = Some q" "q = i \<or> Suc i \<le> q" "q < snId x" by auto
  then show ?case by auto
next
  case (3 p' i k ks)
  show ?case
  proof (cases "x \<in> set (preorder (Some p') i k)")
    case True
    show ?thesis
    proof (cases "snId x = i")
      case True
      with preorder_head [OF \<open>x \<in> set (preorder (Some p') i k)\<close>] 3(4) show ?thesis by simp
    next
      case False
      from "3.IH"(1) [OF True False] show ?thesis by auto
    qed
  next
    case False
    with 3 obtain q where "snParent x = Some q" "q = p' \<or> i + history_size k \<le> q" "q < snId x" by auto
    then show ?thesis by auto
  qed
qed simp

text \<open>Serializing a node that represents a history appends its flat form.\<close>

lemma serialize_walk_represents:
  "represents h ns a r \<Longrightarrow>
     serialize_walk h ns ((a, p) # rest) out = serialize_walk h ns rest (out @ preorder p (length out) r)"
proof (induction r arbitrary: a p rest out)
  case (History s m ks)
  have kids: "list_all2 (represents h ns) cs js \<Longrightarrow> set js \<subseteq> set ks \<Longrightarrow>
      serialize_walk h ns (map (\<lambda>c. (c, Some q)) cs @ rest) out' =
        serialize_walk h ns rest (out' @ preorders q (length out') js)" for cs js q out'
  proof (induction js arbitrary: cs out')
    case (Cons j js)
    then obtain c cs' where cs: "cs = c # cs'" "represents h ns c j" "list_all2 (represents h ns) cs' js"
      by (auto simp: list_all2_Cons2)
    with History.IH [of j c "Some q" "map (\<lambda>c. (c, Some q)) cs' @ rest" out'] Cons.prems(2)
      Cons.IH [OF cs(3), of "out' @ preorder (Some q) (length out') j"]
    show ?case by (simp add: length_preorder)
  qed simp
  let ?n = "\<lparr>snId = length out, snParent = p, snContent = s, snMostRecentChild = m\<rparr>"
  have "serialize_walk h ns ((a, p) # rest) out =
      serialize_walk h ns (map (\<lambda>c. (c, Some (length out))) (nodeChildren (ns ! a)) @ rest) (out @ [?n])"
    using History.prems by (subst serialize_walk.simps) (simp add: Let_def)
  with kids [of "nodeChildren (ns ! a)" ks "length out" "out @ [?n]"] History.prems
  show ?case by simp
qed

lemma undo_serialize_represents:
  "represents h (nodes t) (rootNode t) r \<Longrightarrow> undo_serialize h t = Some (preorder None 0 r)"
  by (simp add: undo_serialize_def serialize_walk_represents) (simp add: serialize_walk.simps)

lemma links_ok_represents:
  assumes "links_ok ns r0" "a < length ns"
  shows "\<exists>r. represents h ns a r"
  using assms(2)
proof (induction "length ns - a" arbitrary: a rule: less_induct)
  case less
  have "\<exists>r. represents h ns c r" if "c \<in> set (nodeChildren (ns ! a))" for c
  proof -
    have c: "c < length ns" "nodeParent (ns ! c) = Some a"
      using that links_okD(4) [OF assms(1) less.prems] by simp_all
    then have "a < c" using links_okD(2) [OF assms(1)] by simp
    with less.hyps [of c] c(1) show ?thesis by (simp add: diff_less_mono2)
  qed
  then obtain f where f: "\<forall>c\<in>set (nodeChildren (ns ! a)). represents h ns c (f c)" by metis
  then have "list_all2 (represents h ns) (nodeChildren (ns ! a)) (map f (nodeChildren (ns ! a)))"
    by (simp add: list_all2_map2 list_all2_same)
  with less.prems show ?case
    by (intro exI [of _ "History (st_to_string h (nodeState (ns ! a))) (mostRecentChild (ns ! a))
          (map f (nodeChildren (ns ! a)))"]) simp
qed

text \<open>
  What \<open>Deserialize\<close> does with a list whose ids are its positions and whose nodes hang
  below earlier ones.
\<close>

definition in_order :: "serialized_node list \<Rightarrow> bool" where
  "in_order l \<longleftrightarrow> l \<noteq> [] \<and> map snId l = [0..<length l] \<and> snParent (l ! 0) = None \<and>
     (\<forall>i < length l. 0 < i \<longrightarrow> (\<exists>q. snParent (l ! i) = Some q \<and> q < i))"

lemma in_order_id: "in_order l \<Longrightarrow> i < length l \<Longrightarrow> snId (l ! i) = i"
  by (metis in_order_def add_0 nth_map nth_upt)

lemma in_order_preorder: "in_order (preorder None 0 r)"
proof -
  let ?l = "preorder None 0 r"
  have ids: "map snId ?l = [0..<length ?l]" using preorder_ids(1) [of None 0 r] by (simp add: length_preorder)
  have id: "snId (?l ! i) = i" if "i < length ?l" for i
    using that ids by (metis add_0 nth_map nth_upt)
  have "\<exists>q. snParent (?l ! i) = Some q \<and> q < i" if "i < length ?l" "0 < i" for i
    using preorder_parents(1) [of "?l ! i" None 0 r] that id [of i] by auto
  moreover have "?l \<noteq> []" "snParent (?l ! 0) = None" by (cases r; simp)+
  ultimately show ?thesis using ids by (simp add: in_order_def)
qed

lemma index_by_id_in_order:
  "map snId l = [k..<k + length l] \<Longrightarrow> \<forall>i \<ge> k. m i = None \<Longrightarrow>
     index_by_id l m = Some (\<lambda>i. if k \<le> i \<and> i < k + length l then Some (l ! (i - k)) else m i)"
proof (induction l arbitrary: k m)
  case (Cons n l)
  have split: "[k..<k + length (n # l)] = k # [Suc k..<Suc k + length l]"
    by (simp add: upt_conv_Cons del: upt_Suc)
  with Cons.prems(1) have id: "snId n = k" and rest: "map snId l = [Suc k..<Suc k + length l]"
    by (simp_all del: upt_Suc)
  have "\<forall>i \<ge> Suc k. (m(k \<mapsto> n)) i = None" using Cons.prems(2) by simp
  note IH = Cons.IH [OF rest this]
  have "index_by_id (n # l) m = index_by_id l (m(k \<mapsto> n))"
    using Cons.prems(2) id by simp
  moreover note IH
  moreover have "(if Suc k \<le> i \<and> i < Suc k + length l then Some (l ! (i - Suc k)) else (m(k \<mapsto> n)) i) =
      (if k \<le> i \<and> i < k + length (n # l) then Some ((n # l) ! (i - k)) else m i)" for i
    by (cases "i = k") (auto simp: nth_Cons' Suc_le_eq)
  ultimately show ?case by simp
qed (auto simp: fun_eq_iff)

lemma find_root_in_order:
  "\<forall>x\<in>set l. snParent x \<noteq> None \<Longrightarrow> find_root l r = Inr r"
  by (induction l) auto

lemma check_chain_in_order:
  assumes "in_order l"
  defines "byId \<equiv> \<lambda>i. if i < length l then Some (l ! i) else None"
  shows "i < length l \<Longrightarrow> i \<le> budget \<Longrightarrow> check_chain byId 0 budget (l ! i) = None"
proof (induction budget arbitrary: i)
  case 0
  then show ?case using in_order_id [OF assms(1)] by (subst check_chain.simps) simp
next
  case (Suc b)
  show ?case
  proof (cases "i = 0")
    case True
    then show ?thesis using Suc.prems in_order_id [OF assms(1)] by (subst check_chain.simps) simp
  next
    case False
    with Suc.prems assms(1) obtain q where q: "snParent (l ! i) = Some q" "q < i"
      by (auto simp: in_order_def)
    with Suc.prems Suc.IH [of q] have "check_chain byId 0 b (l ! q) = None" by simp
    with q Suc.prems False in_order_id [OF assms(1) Suc.prems(1)] show ?thesis
      by (subst check_chain.simps) (simp add: byId_def)
  qed
qed

lemma check_chains_None:
  "(\<And>n. n \<in> set ns \<Longrightarrow> check_chain byId r b n = None) \<Longrightarrow> check_chains byId r b ns = None"
  by (induction ns) auto

lemma build_nodes_props:
  assumes "\<forall>n\<in>set l. chunkable kChunkSize (snContent n)"
  shows "\<exists>built final. build_nodes rootId q l = Some (built, final) \<and> length built = length l \<and>
    (\<forall>i < length l. (\<exists>rope. nodeState (built ! i) = RopeStorage rope \<and> rope_wf rope \<and>
          rope_text rope = snContent (l ! i)) \<and>
        nodeParent (built ! i) = None \<and> nodeChildren (built ! i) = [] \<and>
        mostRecentChild (built ! i) = snMostRecentChild (l ! i))"
  using assms
proof (induction l arbitrary: q)
  case (Cons n l)
  obtain rope where rope: "rope_of_text (snContent n) = Some rope" "rope_wf rope" "rope_text rope = snContent n"
    using rope_of_text_returns [of "snContent n"] Cons.prems by auto
  let ?q = "if snId n = rootId then q else q + 1"
  have "\<forall>n\<in>set l. chunkable kChunkSize (snContent n)" using Cons.prems by simp
  from Cons.IH [OF this, of ?q] obtain built final where b: "build_nodes rootId ?q l = Some (built, final)"
    "length built = length l"
    "\<forall>i < length l. (\<exists>rope. nodeState (built ! i) = RopeStorage rope \<and> rope_wf rope \<and>
          rope_text rope = snContent (l ! i)) \<and>
        nodeParent (built ! i) = None \<and> nodeChildren (built ! i) = [] \<and>
        mostRecentChild (built ! i) = snMostRecentChild (l ! i)" by blast
  with rope show ?case by (auto simp: Let_def nth_Cons split: nat.splits)
qed simp

lemma live_at_in_order: "map snId l = [k..<k + length l] \<Longrightarrow> i < length l \<Longrightarrow> live_at l (k + i) = i"
proof (induction l arbitrary: k i)
  case (Cons n l)
  have "[k..<k + length (n # l)] = k # [Suc k..<Suc k + length l]"
    by (simp add: upt_conv_Cons del: upt_Suc)
  with Cons.prems(1) have id: "snId n = k" and rest: "map snId l = [Suc k..<Suc k + length l]"
    by (simp_all del: upt_Suc)
  show ?case
  proof (cases i)
    case 0
    with id show ?thesis by simp
  next
    case (Suc j)
    with Cons.IH [OF rest, of j] Cons.prems(2) id show ?thesis by simp
  qed
qed simp

lemma link_nodes_in_order:
  assumes "in_order l" "l = pre @ suf" "length built = length l"
  shows "length (link_nodes l (length pre) suf built) = length l \<and>
    (\<forall>a < length l.
       nodeState (link_nodes l (length pre) suf built ! a) = nodeState (built ! a) \<and>
       mostRecentChild (link_nodes l (length pre) suf built ! a) = mostRecentChild (built ! a) \<and>
       nodeParent (link_nodes l (length pre) suf built ! a) =
         (if a < length pre then nodeParent (built ! a)
          else case snParent (l ! a) of None \<Rightarrow> nodeParent (built ! a) | Some q \<Rightarrow> Some q) \<and>
       nodeChildren (link_nodes l (length pre) suf built ! a) =
         nodeChildren (built ! a) @ map snId (filter (\<lambda>x. snParent x = Some a) suf))"
  using assms(2,3)
proof (induction suf arbitrary: pre built)
  case (Cons n suf)
  let ?self = "length pre"
  have self: "?self < length l" "l ! ?self = n" using Cons.prems(1) by simp_all
  have id: "snId n = ?self" using in_order_id [OF assms(1) self(1)] self(2) by simp
  have app: "l = (pre @ [n]) @ suf" using Cons.prems(1) by simp
  show ?case
  proof (cases "snParent n")
    case None
    with Cons.IH [OF app Cons.prems(2)] self show ?thesis
      by (auto simp: less_Suc_eq)
  next
    case (Some q)
    have q: "q < ?self" using assms(1) self Some by (cases "?self = 0") (auto simp: in_order_def)
    have live: "live_at l q = q"
      using live_at_in_order [of l 0 q] assms(1) q self(1) by (simp add: in_order_def)
    let ?b1 = "built[?self := (built ! ?self)\<lparr>nodeParent := Some q\<rparr>]"
    define b2 where "b2 = ?b1[q := (?b1 ! q)\<lparr>nodeChildren := nodeChildren (?b1 ! q) @ [?self]\<rparr>]"
    have link: "link_nodes l ?self (n # suf) built = link_nodes l (length (pre @ [n])) suf b2"
      using Some live by (simp add: Let_def b2_def)
    have props: "nodeState (b2 ! a) = nodeState (built ! a)" "mostRecentChild (b2 ! a) = mostRecentChild (built ! a)"
      "nodeParent (b2 ! a) = (if a = ?self then Some q else nodeParent (built ! a))"
      "nodeChildren (b2 ! a) = nodeChildren (built ! a) @ (if a = q then [?self] else [])"
      if "a < length l" for a
      unfolding b2_def using that q self(1) Cons.prems(2) by (cases "a = q"; cases "a = ?self"; simp)+
    have "length b2 = length l" using Cons.prems(2) by (simp add: b2_def)
    from Cons.IH [OF app this] show ?thesis
      unfolding link using props Some id self by (auto simp: less_Suc_eq split: option.splits)
  qed
qed simp

text \<open>The nodes of a flat form, linked as \<open>Deserialize\<close> links them, represent its history.\<close>

fun starts :: "nat \<Rightarrow> history list \<Rightarrow> nat list" where
  "starts i [] = []"
| "starts i (k # ks) = i # starts (i + history_size k) ks"

function addresses :: "undo_node list \<Rightarrow> nat \<Rightarrow> history \<Rightarrow> nat list"
  and addresses_all :: "undo_node list \<Rightarrow> nat list \<Rightarrow> history list \<Rightarrow> nat list" where
  "addresses ns a (History s m ks) = a # addresses_all ns (nodeChildren (ns ! a)) ks"
| "addresses_all ns (c # cs) (k # ks) = addresses ns c k @ addresses_all ns cs ks"
| "addresses_all ns [] ks = []"
| "addresses_all ns (c # cs) [] = []"
  by pat_completeness auto
termination
  by (relation "measure (case_sum (\<lambda>(ns, a, r). size r) (\<lambda>(ns, cs, ks). size_list size ks))") auto

lemma history_size_pos: "0 < history_size r"
  by (cases r) simp

lemma kids_of_preorders:
  "p < i \<Longrightarrow> map snId (filter (\<lambda>x. snParent x = Some p) (preorders p i ks)) = starts i ks"
proof (induction ks arbitrary: i)
  case (Cons k ks)
  obtain s m js where k: "k = History s m js" by (cases k)
  have "snParent x \<noteq> Some p" if "x \<in> set (preorders i (Suc i) js)" for x
    using preorder_parents(2) [OF that] Cons.prems by auto
  then have "filter (\<lambda>x. snParent x = Some p) (preorder (Some p) i k) =
      [\<lparr>snId = i, snParent = Some p, snContent = s, snMostRecentChild = m\<rparr>]"
    by (simp add: k filter_empty_conv)
  with Cons show ?case by simp
qed simp

definition no_links_into :: "serialized_node list \<Rightarrow> nat \<Rightarrow> nat \<Rightarrow> bool" where
  "no_links_into l i n \<longleftrightarrow> (\<forall>x\<in>set l. \<forall>a. snParent x = Some a \<longrightarrow> \<not> (i \<le> a \<and> a < i + n))"

lemma no_links_into_append:
  "no_links_into (l @ l') i n \<longleftrightarrow> no_links_into l i n \<and> no_links_into l' i n"
  by (auto simp: no_links_into_def)

lemma no_links_into_sub:
  "no_links_into l i n \<Longrightarrow> i \<le> i' \<Longrightarrow> i' + n' \<le> i + n \<Longrightarrow> no_links_into l i' n'"
  by (fastforce simp: no_links_into_def)

lemma preorder_ids_below:
  assumes "x \<in> set (preorder p i r)"
  shows "snId x < i + history_size r"
proof -
  from assms have "snId x \<in> set (map snId (preorder p i r))" by simp
  then show ?thesis unfolding preorder_ids by auto
qed

lemma flat_form_represents:
  assumes len: "length ns = length l"
    and content: "\<forall>a < length l. st_to_string h (nodeState (ns ! a)) = snContent (l ! a) \<and>
      mostRecentChild (ns ! a) = snMostRecentChild (l ! a) \<and>
      nodeChildren (ns ! a) = map snId (filter (\<lambda>x. snParent x = Some a) l)"
    and l: "l = pre @ preorder p (length pre) r @ post"
    and outside: "no_links_into pre (length pre) (history_size r)" "no_links_into post (length pre) (history_size r)"
    and above: "\<forall>q. p = Some q \<longrightarrow> q < length pre"
  shows "represents h ns (length pre) r \<and> addresses ns (length pre) r = [length pre..<length pre + history_size r]"
  using l outside above
proof (induction r arbitrary: pre p post)
  case (History s m ks)
  let ?i = "length pre"
  let ?n = "\<lparr>snId = ?i, snParent = p, snContent = s, snMostRecentChild = m\<rparr>"
  let ?sum = "\<lambda>js. sum_list (map history_size js)"
  have l: "l = pre @ [?n] @ preorders ?i (Suc ?i) ks @ post" using History.prems(1) by simp
  have nth: "?i < length l" "l ! ?i = ?n" unfolding l by (simp_all add: nth_append)
  have none: "filter (\<lambda>x. snParent x = Some ?i) l' = []"
    if "no_links_into l' ?i (history_size (History s m ks))" for l'
    using that by (auto simp: no_links_into_def filter_empty_conv)
  have "p \<noteq> Some ?i" using History.prems(4) by auto
  then have "map snId (filter (\<lambda>x. snParent x = Some ?i) l) = starts (Suc ?i) ks"
    using none [OF History.prems(2)] none [OF History.prems(3)] kids_of_preorders [of ?i "Suc ?i" ks]
    by (simp add: l)
  then have kids: "nodeChildren (ns ! ?i) = starts (Suc ?i) ks"
    using content nth(1) by simp
  have all: "list_all2 (represents h ns) (starts (length pre') js) js \<and>
      addresses_all ns (starts (length pre') js) js = [length pre'..<length pre' + ?sum js]"
    if "l = pre' @ preorders ?i (length pre') js @ post'" "set js \<subseteq> set ks" "?i < length pre'"
      "no_links_into pre' (length pre') (?sum js)" "no_links_into post' (length pre') (?sum js)"
    for pre' js post'
    using that
  proof (induction js arbitrary: pre')
    case (Cons k js)
    let ?j = "length pre'" and ?seg = "preorder (Some ?i) (length pre') k"
    have lk: "l = pre' @ ?seg @ (preorders ?i (?j + history_size k) js @ post')" using Cons.prems(1) by simp
    have later: "no_links_into (preorders ?i (?j + history_size k) js) ?j (history_size k)"
    proof -
      have "\<not> (?j \<le> a \<and> a < ?j + history_size k)"
        if "x \<in> set (preorders ?i (?j + history_size k) js)" "snParent x = Some a" for x a
        using preorder_parents(2) [OF that(1)] that(2) Cons.prems(3) by auto
      then show ?thesis by (simp add: no_links_into_def)
    qed
    have out: "no_links_into pre' ?j (history_size k)"
      "no_links_into (preorders ?i (?j + history_size k) js @ post') ?j (history_size k)"
      using Cons.prems(4,5) later by (auto simp: no_links_into_append elim: no_links_into_sub)
    have "k \<in> set ks" using Cons.prems(2) by simp
    from History.IH [OF this lk out] Cons.prems(3)
    have first: "represents h ns ?j k" "addresses ns ?j k = [?j..<?j + history_size k]" by simp_all
    let ?pre = "pre' @ ?seg"
    have lenp: "length ?pre = ?j + history_size k" by (simp add: length_preorder)
    have own: "no_links_into ?seg (length ?pre) (?sum js)"
    proof -
      have "a < length ?pre" if "x \<in> set ?seg" "snParent x = Some a" for x a
      proof (cases "snId x = ?j")
        case True
        with preorder_head [OF that(1)] that(2) Cons.prems(3) lenp show ?thesis by simp
      next
        case False
        with preorder_parents(1) [OF that(1)] preorder_ids_below [OF that(1)] that(2) lenp show ?thesis by auto
      qed
      then show ?thesis by (auto simp: no_links_into_def not_le)
    qed
    have "l = ?pre @ preorders ?i (length ?pre) js @ post'" using lk lenp by simp
    moreover have "no_links_into ?pre (length ?pre) (?sum js)" "no_links_into post' (length ?pre) (?sum js)"
      using own Cons.prems(4,5) lenp by (auto simp: no_links_into_append elim: no_links_into_sub)
    ultimately have rest: "list_all2 (represents h ns) (starts (length ?pre) js) js \<and>
        addresses_all ns (starts (length ?pre) js) js = [length ?pre..<length ?pre + ?sum js]"
      using Cons.prems(2,3) lenp by (intro Cons.IH) auto
    have "[?j..<?j + history_size k] @ [?j + history_size k..<?j + (history_size k + ?sum js)] =
        [?j..<?j + (history_size k + ?sum js)]"
      using upt_add_eq_append [of ?j "?j + history_size k" "?sum js"] by (simp add: add.assoc)
    with first rest lenp show ?case by (simp add: add.assoc)
  qed simp
  have "no_links_into (pre @ [?n]) (Suc ?i) (?sum ks)" "no_links_into post (Suc ?i) (?sum ks)"
  proof -
    show "no_links_into post (Suc ?i) (?sum ks)"
      using History.prems(3) by (rule no_links_into_sub) simp_all
    have "no_links_into pre (Suc ?i) (?sum ks)"
      using History.prems(2) by (rule no_links_into_sub) simp_all
    then show "no_links_into (pre @ [?n]) (Suc ?i) (?sum ks)"
      using History.prems(4) by (auto simp: no_links_into_def)
  qed
  with all [of "pre @ [?n]" ks post] l have "list_all2 (represents h ns) (starts (Suc ?i) ks) ks"
    "addresses_all ns (starts (Suc ?i) ks) ks = [Suc ?i..<Suc ?i + ?sum ks]" by simp_all
  then show ?case
    using kids content nth len by (simp add: upt_conv_Cons del: upt_Suc)
qed

text \<open>Where the walk of \<open>CurrentNodeId\<close> meets a node.\<close>

fun position_of :: "'a \<Rightarrow> 'a list \<Rightarrow> nat option" where
  "position_of x [] = None"
| "position_of x (y # ys) = (if y = x then Some 0 else map_option Suc (position_of x ys))"

lemma position_of_append:
  "position_of x (as @ bs) = (case position_of x as of Some k \<Rightarrow> Some k
     | None \<Rightarrow> map_option (\<lambda>k. length as + k) (position_of x bs))"
  by (induction as; cases "position_of x bs") (auto split: option.splits)

lemma position_of_in: "x \<in> set xs \<Longrightarrow> \<exists>k < length xs. position_of x xs = Some k \<and> xs ! k = x"
proof (induction xs)
  case (Cons y ys)
  then show ?case
    by (cases "y = x") auto
qed simp

lemma position_of_upt: "i \<le> x \<Longrightarrow> x < i + n \<Longrightarrow> position_of x [i..<i + n] = Some (x - i)"
proof (induction n arbitrary: i)
  case (Suc n)
  have "[i..<i + Suc n] = i # [Suc i..<Suc i + n]" by (simp add: upt_conv_Cons del: upt_Suc)
  with Suc.IH [of "Suc i"] Suc.prems show ?case
    by (cases "x = i") (auto simp: Suc_diff_Suc simp del: upt_Suc)
qed simp

lemma length_addresses:
  "represents h ns a r \<Longrightarrow> length (addresses ns a r) = history_size r"
  "list_all2 (represents h ns) cs ks \<Longrightarrow> length (addresses_all ns cs ks) = sum_list (map history_size ks)"
  by (induction ns a r and ns cs ks rule: addresses_addresses_all.induct) auto

lemma find_walk_represents:
  "represents h ns a r \<Longrightarrow>
     find_walk ns target (a # rest) i =
       (case position_of target (addresses ns a r) of
          Some k \<Rightarrow> Some (i + k) | None \<Rightarrow> find_walk ns target rest (i + history_size r))"
  "list_all2 (represents h ns) cs ks \<Longrightarrow>
     find_walk ns target (cs @ rest) i =
       (case position_of target (addresses_all ns cs ks) of
          Some k \<Rightarrow> Some (i + k) | None \<Rightarrow> find_walk ns target rest (i + sum_list (map history_size ks)))"
proof (induction ns a r and ns cs ks arbitrary: rest i and rest i rule: addresses_addresses_all.induct)
  case (1 ns a s m ks)
  then have "find_walk ns target (nodeChildren (ns ! a) @ rest) (Suc i) =
       (case position_of target (addresses_all ns (nodeChildren (ns ! a)) ks) of
          Some k \<Rightarrow> Some (Suc i + k)
        | None \<Rightarrow> find_walk ns target rest (Suc i + sum_list (map history_size ks)))" by simp
  then show ?case
    by (subst find_walk.simps) (auto split: option.splits)
next
  case (2 ns c cs k ks)
  then show ?case
    by (auto simp: position_of_append length_addresses add.assoc split: option.splits)
qed auto

text \<open>Every node is met, and the flat form holds its content where it is met.\<close>

lemma addresses_contents:
  "represents h ns a r \<Longrightarrow>
     map snContent (preorder p i r) = map (\<lambda>a. st_to_string h (nodeState (ns ! a))) (addresses ns a r)"
  "list_all2 (represents h ns) cs ks \<Longrightarrow>
     map snContent (preorders p' j ks) = map (\<lambda>a. st_to_string h (nodeState (ns ! a))) (addresses_all ns cs ks)"
  by (induction ns a r and ns cs ks arbitrary: p i and p' j rule: addresses_addresses_all.induct) auto

lemma addresses_closed:
  "represents h ns a r \<Longrightarrow> x \<in> set (addresses ns a r) \<Longrightarrow> c \<in> set (nodeChildren (ns ! x)) \<Longrightarrow>
     c \<in> set (addresses ns a r)"
  "list_all2 (represents h ns) cs ks \<Longrightarrow> x \<in> set (addresses_all ns cs ks) \<Longrightarrow>
     c \<in> set (nodeChildren (ns ! x)) \<Longrightarrow> c \<in> set (addresses_all ns cs ks)"
proof (induction ns a r and ns cs ks rule: addresses_addresses_all.induct)
  case (1 ns a s m ks)
  have heads: "set cs \<subseteq> set (addresses_all ns cs js)" if "list_all2 (represents h ns) cs js" for cs js
    using that
  proof (induction cs js rule: list_all2_induct)
    case (Cons c cs k ks)
    obtain s m js where "k = History s m js" by (cases k)
    with Cons show ?case by auto
  qed simp
  with 1 show ?case by (cases "x = a") auto
qed auto

lemma all_nodes_met:
  assumes "links_ok ns r0" "represents h ns r0 r" "a < length ns"
  shows "a \<in> set (addresses ns r0 r)"
  using assms(3)
proof (induction a rule: less_induct)
  case (less a)
  show ?case
  proof (cases "a = r0")
    case True
    then show ?thesis by (cases r) simp
  next
    case False
    then obtain p where p: "nodeParent (ns ! a) = Some p" "p < a"
      using links_okD(1,2) [OF assms(1) less.prems] by fastforce
    with less have "p \<in> set (addresses ns r0 r)" "p < length ns" by simp_all
    moreover have "a \<in> set (nodeChildren (ns ! p))"
      using links_okD(4) [OF assms(1) \<open>p < length ns\<close>] p less.prems by simp
    ultimately show ?thesis using addresses_closed(1) [OF assms(2)] by blast
  qed
qed

lemma represents_bound:
  "represents h ns a r \<Longrightarrow> x \<in> set (addresses ns a r) \<Longrightarrow> x < length ns"
  "list_all2 (represents h ns) cs ks \<Longrightarrow> x \<in> set (addresses_all ns cs ks) \<Longrightarrow> x < length ns"
  by (induction ns a r and ns cs ks rule: addresses_addresses_all.induct) auto

text \<open>Reading back a flat form.\<close>

lemma undo_deserialize_preorder:
  assumes "\<forall>n\<in>set (preorder None 0 r). chunkable kChunkSize (snContent n)" "c < history_size r"
  shows "\<exists>t. undo_deserialize (preorder None 0 r) c = Some (Inr t) \<and>
    represents h (nodes t) (rootNode t) r \<and> addresses (nodes t) (rootNode t) r = [0..<history_size r] \<and>
    currentNode t = c \<and>
    st_to_string h (nodeState (nodes t ! c)) = snContent (preorder None 0 r ! c)"
proof -
  define l where "l = preorder None 0 r"
  have ord: "in_order l" unfolding l_def by (rule in_order_preorder)
  have len: "length l = history_size r" by (simp add: l_def length_preorder)
  then have ne: "l \<noteq> []" "0 < length l" using history_size_pos [of r] by auto
  obtain n0 l0 where l0: "l = n0 # l0" using ne by (cases l) auto
  have rootp: "snParent n0 = None" "snId n0 = 0"
    using ord in_order_id [OF ord ne(2)] by (simp_all add: in_order_def l0)
  have "snParent x \<noteq> None" if "x \<in> set l0" for x
  proof -
    from that obtain i where "i < length l0" "x = l0 ! i" by (metis in_set_conv_nth)
    with ord have "\<exists>q. snParent (l ! Suc i) = Some q" by (auto simp: in_order_def l0)
    with \<open>x = l0 ! i\<close> l0 show ?thesis by auto
  qed
  then have root: "find_root l None = Inr (Some 0)"
    using rootp find_root_in_order [of l0 "Some 0"] by (simp add: l0)
  let ?byId = "\<lambda>i. if i < length l then Some (l ! i) else None"
  have index: "index_by_id l Map.empty = Some ?byId"
    using index_by_id_in_order [of l 0 Map.empty] ord by (simp add: in_order_def cong: if_cong)
  have "check_chain ?byId 0 (length l + 1) n = None" if "n \<in> set l" for n
  proof -
    from that obtain i where "i < length l" "n = l ! i" by (metis in_set_conv_nth)
    with check_chain_in_order [OF ord, of i "length l + 1"] show ?thesis by simp
  qed
  then have chains: "check_chains ?byId 0 (length l + 1) l = None" by (rule check_chains_None)
  have "\<forall>n\<in>set l. chunkable kChunkSize (snContent n)" using assms(1) by (simp add: l_def)
  from build_nodes_props [OF this, of 0 1] obtain built final where b: "build_nodes 0 1 l = Some (built, final)"
    "length built = length l"
    "\<forall>i < length l. (\<exists>rope. nodeState (built ! i) = RopeStorage rope \<and> rope_wf rope \<and>
          rope_text rope = snContent (l ! i)) \<and>
        nodeParent (built ! i) = None \<and> nodeChildren (built ! i) = [] \<and>
        mostRecentChild (built ! i) = snMostRecentChild (l ! i)" by blast
  define ns where "ns = link_nodes l 0 l built"
  have linked: "length ns = length l" "\<forall>a < length l. nodeState (ns ! a) = nodeState (built ! a) \<and>
      mostRecentChild (ns ! a) = mostRecentChild (built ! a) \<and>
      nodeChildren (ns ! a) = nodeChildren (built ! a) @ map snId (filter (\<lambda>x. snParent x = Some a) l)"
    using link_nodes_in_order [OF ord _ b(2), of "[]" l] by (simp_all add: ns_def)
  have content: "\<forall>a < length l. st_to_string h (nodeState (ns ! a)) = snContent (l ! a) \<and>
      mostRecentChild (ns ! a) = snMostRecentChild (l ! a) \<and>
      nodeChildren (ns ! a) = map snId (filter (\<lambda>x. snParent x = Some a) l)"
    using linked(2) b(3) by (auto simp: storage_class_defs rope_to_string)
  have rep: "represents h ns 0 r" "addresses ns 0 r = [0..<history_size r]"
    using flat_form_represents [OF linked(1) content, of "[]" None r "[]"]
    by (simp_all add: l_def no_links_into_def)
  have live: "live_at l i = i" if "i < length l" for i
    using live_at_in_order [of l 0 i] ord that by (simp add: in_order_def)
  let ?t = "\<lparr>nodes = ns, rootNode = 0, currentNode = c, nextSequence = final,
      bySequence = sequence_index 0 ns Map.empty\<rparr>"
  have "undo_deserialize l c = Some (Inr ?t)"
    using ne index root chains b(1) live [of 0] live [of c] assms(2) len
    by (simp add: undo_deserialize_def ns_def Let_def)
  with rep content assms(2) len show ?thesis
    by (intro exI [of _ ?t]) (simp add: l_def)
qed

section \<open>The properties\<close>

text \<open>
  C8: a session never loses history.  Whatever records, undos, redos and jumps it makes,
  every call returns, the tree stays well formed, and every sequence handed out before
  still jumps to the state it named.
\<close>

theorem undo_history_kept:
  assumes "undo_inv t" "\<forall>s. DoAmend s \<notin> set evs"
  shows "\<exists>t'. undo_run t evs = Some t' \<and> undo_inv t' \<and>
    (\<forall>q a. bySequence t q = Some a \<longrightarrow> has_sequence t' q \<and> fst (undo_jump_to t' q) \<and>
       undo_current (snd (undo_jump_to t' q)) = nodeState (nodes t ! a))"
proof -
  obtain t' where t': "undo_run t evs = Some t'" "undo_inv t'" "same_history t t'"
    using undo_run_props [OF assms] by blast
  have "has_sequence t' q \<and> fst (undo_jump_to t' q) \<and>
      undo_current (snd (undo_jump_to t' q)) = nodeState (nodes t ! a)"
    if "bySequence t q = Some a" for q a
    using same_history_sequence [OF assms(1) t'(2,3) that] undo_jump_lands [OF t'(2), of q a]
    by (simp add: has_sequence_def)
  with t' show ?thesis by blast
qed

theorem undo_history_kept_witness:
  "\<exists>t'. undo_run (undo_init (RopeStorage None)) [DoRecord (RopeStorage (rope_make_leaf ''a'')), DoUndo] = Some t' \<and>
    undo_inv t' \<and>
    (\<forall>q a. bySequence (undo_init (RopeStorage None)) q = Some a \<longrightarrow> has_sequence t' q \<and> fst (undo_jump_to t' q) \<and>
       undo_current (snd (undo_jump_to t' q)) = nodeState (nodes (undo_init (RopeStorage None)) ! a))"
  by (rule undo_history_kept) (simp_all add: undo_init_inv)

text \<open>
  Undo and redo are inverse.  Undoing what was just recorded shows the state before,
  and redoing it restores the very tree that recording left.
\<close>

theorem undo_redo_inverse:
  assumes "undo_inv t"
  shows "undo_current (undo_record t s) = s \<and>
    undo_current (undo_undo (undo_record t s)) = undo_current t \<and>
    undo_redo (undo_undo (undo_record t s)) = Some (undo_record t s) \<and>
    (can_redo t \<longrightarrow> (\<exists>t'. undo_redo t = Some t' \<and> can_undo t' \<and> undo_undo t' = t))"
proof -
  have "\<exists>t'. undo_redo t = Some t' \<and> can_undo t' \<and> undo_undo t' = t" if "can_redo t"
    using undo_redo_some [OF assms that] by (simp add: can_undo_def undo_undo_def)
  with undo_after_record [OF assms] show ?thesis by blast
qed

theorem undo_redo_inverse_witness:
  "undo_current (undo_record (undo_init (RopeStorage None)) (RopeStorage None)) = RopeStorage None \<and>
    (\<exists>t'. undo_redo (undo_undo (undo_record (undo_init (RopeStorage None)) (RopeStorage None))) = Some t' \<and>
      can_undo t' \<and> undo_undo t' = undo_undo (undo_record (undo_init (RopeStorage None)) (RopeStorage None)))"
proof -
  have init: "undo_inv (undo_init (RopeStorage None))" by (rule undo_init_inv)
  define t where "t = undo_undo (undo_record (undo_init (RopeStorage None)) (RopeStorage None))"
  have inv: "undo_inv t" unfolding t_def by (intro undo_undo_inv undo_record_inv init)
  have "can_redo t"
    by (simp add: t_def can_redo_def undo_undo_def undo_record_def undo_init_def Let_def)
  then show ?thesis
    using undo_redo_inverse [OF init, of "RopeStorage None"] undo_redo_inverse [OF inv] by (simp add: t_def)
qed

text \<open>
  C19: persisting the history is a round trip.  A well-formed tree over indexable texts
  serializes; reading the list back with the current node's id succeeds; the tree read
  serializes to the same list with the same current id and shows the same current text;
  and every state of the original is in the list.
\<close>

theorem undo_serialize_round_trip:
  assumes "undo_inv t" "\<forall>n\<in>set (nodes t). chunkable kChunkSize (st_to_string h (nodeState n))"
  shows "\<exists>l c t'. undo_serialize h t = Some l \<and> current_node_id t = Some c \<and>
    undo_deserialize l c = Some (Inr t') \<and>
    undo_serialize h t' = Some l \<and> current_node_id t' = Some c \<and>
    st_to_string h (undo_current t') = st_to_string h (undo_current t) \<and>
    (\<forall>n\<in>set (nodes t). st_to_string h (nodeState n) \<in> snContent ` set l)"
proof -
  have ok: "links_ok (nodes t) (rootNode t)" "currentNode t < length (nodes t)"
    using assms(1) by (simp_all add: undo_inv_def)
  have "rootNode t < length (nodes t)" using ok(1) by (simp add: links_ok_def)
  then obtain r where r: "represents h (nodes t) (rootNode t) r"
    using links_ok_represents [OF ok(1)] by blast
  let ?l = "preorder None 0 r" and ?as = "addresses (nodes t) (rootNode t) r"
  let ?text = "\<lambda>a. st_to_string h (nodeState (nodes t ! a))"
  have contents: "map snContent ?l = map ?text ?as" by (rule addresses_contents(1) [OF r])
  obtain c where c: "c < length ?as" "position_of (currentNode t) ?as = Some c" "?as ! c = currentNode t"
    using position_of_in [OF all_nodes_met [OF ok(1) r ok(2)]] by blast
  have size: "length ?as = history_size r" by (rule length_addresses(1) [OF r])
  have ser: "undo_serialize h t = Some ?l" by (rule undo_serialize_represents [OF r])
  have id: "current_node_id t = Some c"
    using find_walk_represents(1) [OF r, of "currentNode t" "[]" 0] c(2) by (simp add: current_node_id_def)
  have chunk: "\<forall>n\<in>set ?l. chunkable kChunkSize (snContent n)"
  proof
    fix n assume "n \<in> set ?l"
    then have "snContent n \<in> set (map ?text ?as)" unfolding contents [symmetric] by simp
    then obtain a where "a \<in> set ?as" "snContent n = ?text a" by auto
    with represents_bound(1) [OF r] assms(2) show "chunkable kChunkSize (snContent n)" by simp
  qed
  obtain t' where t': "undo_deserialize ?l c = Some (Inr t')"
    "represents h (nodes t') (rootNode t') r" "addresses (nodes t') (rootNode t') r = [0..<history_size r]"
    "currentNode t' = c" "st_to_string h (nodeState (nodes t' ! c)) = snContent (?l ! c)"
    using undo_deserialize_preorder [OF chunk, of c h] c(1) size by auto
  have "undo_serialize h t' = Some ?l" by (rule undo_serialize_represents [OF t'(2)])
  moreover have "current_node_id t' = Some c"
    using find_walk_represents(1) [OF t'(2), of c "[]" 0] t'(3,4) position_of_upt [of 0 c "history_size r"] c(1) size
    by (simp add: current_node_id_def)
  moreover have "st_to_string h (undo_current t') = st_to_string h (undo_current t)"
  proof -
    have "snContent (?l ! c) = map snContent ?l ! c" using c(1) size by (simp add: length_preorder)
    also have "\<dots> = ?text (currentNode t)" unfolding contents using c by simp
    finally show ?thesis using t'(4,5) by (simp add: undo_current_def)
  qed
  moreover have "?text a \<in> snContent ` set ?l" if "a < length (nodes t)" for a
  proof -
    have "?text a \<in> set (map ?text ?as)" using all_nodes_met [OF ok(1) r that] by simp
    then show ?thesis unfolding contents [symmetric] by simp
  qed
  ultimately show ?thesis using ser id t'(1) by (auto simp: in_set_conv_nth)
qed

theorem undo_serialize_round_trip_witness:
  "\<exists>l c t'. undo_serialize [] (undo_init (RopeStorage (rope_make_leaf ''a''))) = Some l \<and>
    current_node_id (undo_init (RopeStorage (rope_make_leaf ''a''))) = Some c \<and>
    undo_deserialize l c = Some (Inr t') \<and>
    undo_serialize [] t' = Some l \<and> current_node_id t' = Some c \<and>
    st_to_string [] (undo_current t') =
      st_to_string [] (undo_current (undo_init (RopeStorage (rope_make_leaf ''a'')))) \<and>
    (\<forall>n\<in>set (nodes (undo_init (RopeStorage (rope_make_leaf ''a'')))).
      st_to_string [] (nodeState n) \<in> snContent ` set l)"
  by (rule undo_serialize_round_trip [OF undo_init_inv])
    (simp add: undo_init_def storage_class_defs rope_to_string short_text_chunkable kChunkSize_def)

text \<open>
  \<open>Deserialize\<close> takes the branch index of a node on trust.  A list of two nodes whose
  root points past its one child is accepted, and the redo it offers then reads outside
  the children.
\<close>

theorem undo_deserialize_trusts_branch:
  "\<exists>t. undo_deserialize
      [\<lparr>snId = 0, snParent = None, snContent = ''a'', snMostRecentChild = 5\<rparr>,
       \<lparr>snId = 1, snParent = Some 0, snContent = ''b'', snMostRecentChild = 0\<rparr>] 0 = Some (Inr t) \<and>
    can_redo t \<and> undo_redo t = None"
proof -
  have a: "rope_of_text [c] = Some (rope_make_leaf [c])" for c
    by (rule short_rope_of_text) (simp_all add: kChunkSize_def short_text_chunkable)
  show ?thesis
    by (simp add: undo_deserialize_def check_chain.simps a Let_def can_redo_def undo_redo_def)
qed

end
