(* ===== verification/KillRing.thy ===== *)
theory KillRing
  imports Prelude
begin

text \<open>
  \<open>Source/Text/KillRing.h\<close> and \<open>KillRing.cpp\<close>: the ring of killed texts and its yank pointer.

  The lemmas show that the pointer is always inside the ring, that an entry's joined text
  is its pieces', that the newest kill is the yank target, and that \<open>YankPop\<close> goes round
  the whole ring.
\<close>

section \<open>The ring\<close>

record kill_entry =
  pieces :: "bytes list"
  joined :: bytes

text \<open>The front of the deque is the head of the list.\<close>

record kill_ring =
  ring :: "kill_entry list"
  capacity :: nat
  yankIndex :: nat

text \<open>The loop of \<open>JoinPieces\<close>, from index \<open>i\<close>.\<close>

fun join_from :: "nat \<Rightarrow> bytes list \<Rightarrow> bytes \<Rightarrow> bytes" where
  "join_from i [] acc = acc"
| "join_from i (p # ps) acc = join_from (Suc i) ps ((if i > 0 then acc @ [newline] else acc) @ p)"

definition join_pieces :: "bytes list \<Rightarrow> bytes" where
  "join_pieces ps = join_from 0 ps []"

definition new_kill_ring :: "nat \<Rightarrow> kill_ring" where
  "new_kill_ring n = \<lparr>ring = [], capacity = n, yankIndex = 0\<rparr>"

function pop_back_to :: "nat \<Rightarrow> 'a list \<Rightarrow> 'a list" where
  "pop_back_to n xs = (if length xs > n then pop_back_to n (butlast xs) else xs)"
  by pat_completeness auto
termination by (relation "measure (\<lambda>(n, xs). length xs)") auto

declare pop_back_to.simps [simp del]

definition kill_pieces :: "kill_ring \<Rightarrow> bytes list \<Rightarrow> kill_ring" where
  "kill_pieces r ps =
     (let ps' = (if ps = [] then [[]] else ps);
          entry = \<lparr>pieces = ps', joined = join_pieces ps'\<rparr>
      in r\<lparr>ring := pop_back_to (capacity r) (entry # ring r), yankIndex := 0\<rparr>)"

definition kill :: "kill_ring \<Rightarrow> bytes \<Rightarrow> kill_ring" where
  "kill r s = kill_pieces r [s]"

definition append_to_current :: "kill_ring \<Rightarrow> bytes \<Rightarrow> bool \<Rightarrow> kill_ring" where
  "append_to_current r s prepend =
     (if ring r = [] \<or> length (pieces (hd (ring r))) \<noteq> 1 then kill r s
      else let existing = hd (pieces (hd (ring r)));
               grown = (if prepend then s @ existing else existing @ s)
        in r\<lparr>ring := \<lparr>pieces = [grown], joined = grown\<rparr> # tl (ring r), yankIndex := 0\<rparr>)"

definition ring_empty :: "kill_ring \<Rightarrow> bool" where
  "ring_empty r \<longleftrightarrow> ring r = []"

definition current_kill :: "kill_ring \<Rightarrow> bytes" where
  "current_kill r = (if ring r = [] then [] else joined (ring r ! yankIndex r))"

definition current_pieces :: "kill_ring \<Rightarrow> bytes list" where
  "current_pieces r = (if ring r = [] then [] else pieces (ring r ! yankIndex r))"

definition yank_pop :: "kill_ring \<Rightarrow> kill_ring \<times> bytes" where
  "yank_pop r =
     (if ring r = [] then (r, current_kill r)
      else let r' = r\<lparr>yankIndex := (yankIndex r + 1) mod length (ring r)\<rparr> in (r', current_kill r'))"

section \<open>The invariant\<close>

definition entry_ok :: "kill_entry \<Rightarrow> bool" where
  "entry_ok e \<longleftrightarrow> pieces e \<noteq> [] \<and> joined e = join_pieces (pieces e)"

definition ring_inv :: "kill_ring \<Rightarrow> bool" where
  "ring_inv r \<longleftrightarrow> length (ring r) \<le> capacity r \<and> (ring r = [] \<or> yankIndex r < length (ring r)) \<and>
     list_all entry_ok (ring r)"

lemma pop_back_to_take: "pop_back_to n xs = take n xs"
proof (induction n xs rule: pop_back_to.induct)
  case (1 n xs)
  show ?case
  proof (cases "length xs > n")
    case True
    with 1 have "pop_back_to n xs = take n (butlast xs)" by (subst pop_back_to.simps) simp
    moreover have "take n (butlast xs) = take n xs" using True by (simp add: take_butlast)
    ultimately show ?thesis by simp
  next
    case False
    then show ?thesis by (subst pop_back_to.simps) simp
  qed
qed

lemma join_from_acc: "0 < i \<Longrightarrow> join_from i ps acc = acc @ concat (map (\<lambda>p. newline # p) ps)"
  by (induction ps arbitrary: i acc) auto

lemma join_pieces_simps [simp]:
  "join_pieces [] = []" "join_pieces [p] = p"
  "join_pieces (p # ps) = p @ concat (map (\<lambda>q. newline # q) ps)"
  by (simp_all add: join_pieces_def join_from_acc)

lemma new_kill_ring_inv: "ring_inv (new_kill_ring n)"
  by (simp add: ring_inv_def new_kill_ring_def)

lemma kill_pieces_inv:
  assumes "ring_inv r"
  shows "ring_inv (kill_pieces r ps)"
proof -
  define ps' where "ps' = (if ps = [] then [[]] else ps)"
  define e where "e = \<lparr>pieces = ps', joined = join_pieces ps'\<rparr>"
  have "list_all entry_ok (e # ring r)"
    using assms by (simp add: ring_inv_def e_def entry_ok_def ps'_def)
  then have "list_all entry_ok (take (capacity r) (e # ring r))"
    by (metis (no_types, lifting) in_set_takeD list_all_iff)
  moreover have "kill_pieces r ps = r\<lparr>ring := take (capacity r) (e # ring r), yankIndex := 0\<rparr>"
    unfolding e_def ps'_def by (simp add: kill_pieces_def Let_def pop_back_to_take)
  ultimately show ?thesis by (cases "capacity r") (simp_all add: ring_inv_def)
qed

lemma append_to_current_inv:
  assumes "ring_inv r"
  shows "ring_inv (append_to_current r s pre)"
proof (cases "ring r = [] \<or> length (pieces (hd (ring r))) \<noteq> 1")
  case True
  with assms show ?thesis by (simp add: append_to_current_def kill_def kill_pieces_inv)
next
  case False
  with assms show ?thesis
    by (cases "ring r") (auto simp: append_to_current_def ring_inv_def entry_ok_def Let_def)
qed

lemma yank_pop_inv: "ring_inv r \<Longrightarrow> ring_inv (fst (yank_pop r))"
  by (auto simp: yank_pop_def ring_inv_def Let_def)

lemma yank_pop_iterate:
  "ring_inv r \<Longrightarrow> ring r \<noteq> [] \<Longrightarrow>
     ((\<lambda>r. fst (yank_pop r)) ^^ k) r = r\<lparr>yankIndex := (yankIndex r + k) mod length (ring r)\<rparr>"
proof (induction k)
  case 0
  then show ?case by (simp add: ring_inv_def)
next
  case (Suc k)
  then show ?case by (simp add: yank_pop_def Let_def mod_simps)
qed

text \<open>What a sequence of commands leaves.\<close>

datatype ring_command = KillPieces "bytes list" | Append bytes bool | YankPop

fun ring_step :: "kill_ring \<Rightarrow> ring_command \<Rightarrow> kill_ring" where
  "ring_step r (KillPieces ps) = kill_pieces r ps"
| "ring_step r (Append s pre) = append_to_current r s pre"
| "ring_step r YankPop = fst (yank_pop r)"

lemma ring_step_inv: "ring_inv r \<Longrightarrow> ring_inv (ring_step r cmd)"
  by (cases cmd) (simp_all add: kill_pieces_inv append_to_current_inv yank_pop_inv)

lemma ring_run_inv: "ring_inv r \<Longrightarrow> ring_inv (foldl ring_step r cmds)"
  by (induction cmds arbitrary: r) (simp_all add: ring_step_inv)

section \<open>The properties\<close>

text \<open>
  C20: however a ring was used, repeated \<open>YankPop\<close> visits its entries in order and comes
  back to where it started after as many steps as there are entries; the entry shown is
  always one of the ring's, its joined text that of its pieces, and the ring within its
  capacity.
\<close>

theorem yank_pop_goes_round:
  assumes "r = foldl ring_step (new_kill_ring n) cmds" "ring r \<noteq> []"
  shows "length (ring r) \<le> n \<and>
    current_kill (((\<lambda>r. fst (yank_pop r)) ^^ k) r) = joined (ring r ! ((yankIndex r + k) mod length (ring r))) \<and>
    current_kill (((\<lambda>r. fst (yank_pop r)) ^^ k) r) =
      join_pieces (current_pieces (((\<lambda>r. fst (yank_pop r)) ^^ k) r)) \<and>
    ((\<lambda>r. fst (yank_pop r)) ^^ length (ring r)) r = r"
proof -
  have inv: "ring_inv r" using assms(1) by (simp add: ring_run_inv new_kill_ring_inv)
  have "capacity (ring_step r c) = capacity r" for r c
    by (cases c) (simp_all add: kill_pieces_def append_to_current_def kill_def yank_pop_def Let_def)
  then have "capacity (foldl ring_step r0 cmds) = capacity r0" for r0
    by (induction cmds arbitrary: r0) simp_all
  then have cap: "capacity r = n" using assms(1) by (simp add: new_kill_ring_def)
  have "(yankIndex r + k) mod length (ring r) < length (ring r)" using assms(2) by simp
  then have "entry_ok (ring r ! ((yankIndex r + k) mod length (ring r)))"
    using inv by (simp add: ring_inv_def list_all_length)
  with inv cap assms(2) show ?thesis
    by (simp add: yank_pop_iterate current_kill_def current_pieces_def entry_ok_def ring_inv_def)
qed

theorem yank_pop_goes_round_witness:
  "length (ring (foldl ring_step (new_kill_ring 2) [KillPieces [''a'']])) \<le> 2 \<and>
    current_kill (((\<lambda>r. fst (yank_pop r)) ^^ 1) (foldl ring_step (new_kill_ring 2) [KillPieces [''a'']])) =
      joined (ring (foldl ring_step (new_kill_ring 2) [KillPieces [''a'']]) !
        ((yankIndex (foldl ring_step (new_kill_ring 2) [KillPieces [''a'']]) + 1) mod
          length (ring (foldl ring_step (new_kill_ring 2) [KillPieces [''a'']])))) \<and>
    current_kill (((\<lambda>r. fst (yank_pop r)) ^^ 1) (foldl ring_step (new_kill_ring 2) [KillPieces [''a'']])) =
      join_pieces (current_pieces (((\<lambda>r. fst (yank_pop r)) ^^ 1)
        (foldl ring_step (new_kill_ring 2) [KillPieces [''a'']]))) \<and>
    ((\<lambda>r. fst (yank_pop r)) ^^ length (ring (foldl ring_step (new_kill_ring 2) [KillPieces [''a'']])))
      (foldl ring_step (new_kill_ring 2) [KillPieces [''a'']]) =
      foldl ring_step (new_kill_ring 2) [KillPieces [''a'']]"
  by (rule yank_pop_goes_round [OF refl]) (simp add: kill_pieces_def new_kill_ring_def pop_back_to_take Let_def)

end
