(* ===== verification/LineEnding.thy ===== *)
theory LineEnding
  imports Prelude
begin

text \<open>
  \<open>Source/Text/LineEnding.h\<close> and \<open>LineEnding.cpp\<close>: a buffer holds LF text only; the file's
  line ending is detected on load and put back on save.

  The lemmas show that what is put back is taken off again, that normalizing is
  idempotent, and that a file of one ending loads and saves as the same bytes.
\<close>

section \<open>The functions\<close>

datatype line_ending = LF | CRLF | CR

text \<open>The counting loop of \<open>DetectLineEnding\<close>: CRLF pairs, lone newlines, lone carriage returns.\<close>

fun count_endings :: "bytes \<Rightarrow> nat \<Rightarrow> nat \<Rightarrow> nat \<Rightarrow> nat \<times> nat \<times> nat" where
  "count_endings [] crlf lf cr = (crlf, lf, cr)"
| "count_endings [c] crlf lf cr =
     (if c = carriage_return then (crlf, lf, cr + 1)
      else if c = newline then (crlf, lf + 1, cr) else (crlf, lf, cr))"
| "count_endings (c # d # cs) crlf lf cr =
     (if c = carriage_return then
        (if d = newline then count_endings cs (crlf + 1) lf cr
         else count_endings (d # cs) crlf lf (cr + 1))
      else if c = newline then count_endings (d # cs) crlf (lf + 1) cr
      else count_endings (d # cs) crlf lf cr)"

definition detect_line_ending :: "bytes \<Rightarrow> line_ending" where
  "detect_line_ending content =
     (let (crlfCount, lfCount, crCount) = count_endings content 0 0 0
      in if crlfCount \<ge> lfCount \<and> crlfCount \<ge> crCount \<and> crlfCount > 0 then CRLF
         else if crCount > lfCount then CR
         else LF)"

definition has_carriage_return :: "bytes \<Rightarrow> bool" where
  "has_carriage_return content \<longleftrightarrow> carriage_return \<in> set content"

fun normalize_to_lf :: "bytes \<Rightarrow> bytes" where
  "normalize_to_lf [] = []"
| "normalize_to_lf [c] = (if c = carriage_return then [newline] else [c])"
| "normalize_to_lf (c # d # cs) =
     (if c = carriage_return then
        newline # (if d = newline then normalize_to_lf cs else normalize_to_lf (d # cs))
      else c # normalize_to_lf (d # cs))"

fun append_line_ending :: "bytes \<Rightarrow> bytes \<Rightarrow> bytes" where
  "append_line_ending target [] = []"
| "append_line_ending target (c # cs) =
     (if c = newline then target else [c]) @ append_line_ending target cs"

definition apply_line_ending :: "bytes \<Rightarrow> line_ending \<Rightarrow> bytes" where
  "apply_line_ending lfContent ending =
     (if ending = LF then lfContent
      else append_line_ending (if ending = CRLF then [carriage_return, newline] else [carriage_return]) lfContent)"

definition line_ending_name :: "line_ending \<Rightarrow> string" where
  "line_ending_name ending = (case ending of LF \<Rightarrow> ''LF'' | CRLF \<Rightarrow> ''CRLF'' | CR \<Rightarrow> ''CR'')"

section \<open>Lemmas\<close>

lemma newline_not_cr [simp]: "newline \<noteq> carriage_return" "carriage_return \<noteq> newline"
  by simp_all

lemma normalize_no_cr: "carriage_return \<notin> set (normalize_to_lf s)"
  by (induction s rule: normalize_to_lf.induct) auto

lemma normalize_id: "carriage_return \<notin> set s \<Longrightarrow> normalize_to_lf s = s"
  by (induction s rule: normalize_to_lf.induct) auto

lemma normalize_Cons:
  "c \<noteq> carriage_return \<Longrightarrow> normalize_to_lf (c # s) = c # normalize_to_lf s"
  by (cases s) auto

lemma normalize_cr:
  "s = [] \<or> hd s \<noteq> newline \<Longrightarrow> normalize_to_lf (carriage_return # s) = newline # normalize_to_lf s"
  by (cases s) auto

lemma append_ending_hd:
  "target \<noteq> [] \<Longrightarrow> hd target \<noteq> newline \<Longrightarrow> append_line_ending target s = [] \<or>
     hd (append_line_ending target s) \<noteq> newline"
  by (cases s) auto

lemma normalize_apply:
  assumes "carriage_return \<notin> set s"
  shows "normalize_to_lf (apply_line_ending s e) = s"
proof -
  have "normalize_to_lf (append_line_ending [carriage_return, newline] s) = s"
    using assms by (induction s) (auto simp: normalize_Cons)
  moreover have "normalize_to_lf (append_line_ending [carriage_return] s) = s"
    using assms
  proof (induction s)
    case (Cons c s)
    then show ?case
      using append_ending_hd [of "[carriage_return]" s] by (auto simp: normalize_Cons normalize_cr)
  qed simp
  ultimately show ?thesis using normalize_id [OF assms] by (simp add: apply_line_ending_def)
qed

lemma count_endings_Cons:
  "c \<noteq> carriage_return \<Longrightarrow>
     count_endings (c # s) x y z = count_endings s x (if c = newline then y + 1 else y) z"
  "count_endings (carriage_return # newline # s) x y z = count_endings s (x + 1) y z"
  "s = [] \<or> hd s \<noteq> newline \<Longrightarrow> count_endings (carriage_return # s) x y z = count_endings s x y (z + 1)"
  by (cases s; auto)+

lemma count_endings_applied:
  assumes "carriage_return \<notin> set s"
  shows "count_endings s x y z = (x, y + count_list s newline, z)"
    "count_endings (append_line_ending [carriage_return, newline] s) x y z = (x + count_list s newline, y, z)"
    "count_endings (append_line_ending [carriage_return] s) x y z = (x, y, z + count_list s newline)"
  using assms
proof (induction s arbitrary: x y z)
  case (Cons c s)
  note shape = append_ending_hd [of "[carriage_return]" s]
  { case 1 with Cons.IH(1) show ?case by (auto simp: count_endings_Cons)
  next case 2 with Cons.IH(2) show ?case by (auto simp: count_endings_Cons)
  next case 3 with Cons.IH(3) shape show ?case by (auto simp: count_endings_Cons) }
qed simp_all

lemma detect_applied:
  assumes "carriage_return \<notin> set s"
  shows "detect_line_ending (apply_line_ending s e) = (if newline \<in> set s then e else LF)"
  using count_endings_applied [OF assms] count_list_0_iff [of s newline]
  by (cases e) (auto simp: detect_line_ending_def apply_line_ending_def neq0_conv [symmetric] simp del: neq0_conv)

lemma apply_no_newline: "newline \<notin> set s \<Longrightarrow> apply_line_ending s e = s"
proof -
  assume "newline \<notin> set s"
  then have "append_line_ending target s = s" for target by (induction s) auto
  then show ?thesis by (simp add: apply_line_ending_def)
qed

section \<open>The properties\<close>

text \<open>
  C21: loading and saving is a round trip.  For LF-only text \<open>s\<close> and any ending, the file
  written with that ending normalizes back to \<open>s\<close>, its ending is detected (LF when it has
  no line), and saving what was loaded writes the same file; on any bytes normalizing
  leaves no carriage return and is idempotent.
\<close>

theorem line_ending_round_trip:
  assumes "\<not> has_carriage_return s"
  shows "normalize_to_lf (apply_line_ending s e) = s \<and>
    detect_line_ending (apply_line_ending s e) = (if newline \<in> set s then e else LF) \<and>
    apply_line_ending (normalize_to_lf (apply_line_ending s e)) (detect_line_ending (apply_line_ending s e)) =
      apply_line_ending s e \<and>
    (\<forall>t. \<not> has_carriage_return (normalize_to_lf t) \<and> normalize_to_lf (normalize_to_lf t) = normalize_to_lf t)"
  using assms normalize_apply [of s e] detect_applied [of s e] normalize_no_cr
    apply_no_newline [of s e] apply_no_newline [of s LF]
  by (auto simp: has_carriage_return_def normalize_id)

theorem line_ending_round_trip_witness:
  "normalize_to_lf (apply_line_ending ''a\<newline>b'' CRLF) = ''a\<newline>b'' \<and>
    detect_line_ending (apply_line_ending ''a\<newline>b'' CRLF) = (if newline \<in> set ''a\<newline>b'' then CRLF else LF) \<and>
    apply_line_ending (normalize_to_lf (apply_line_ending ''a\<newline>b'' CRLF))
      (detect_line_ending (apply_line_ending ''a\<newline>b'' CRLF)) = apply_line_ending ''a\<newline>b'' CRLF \<and>
    (\<forall>t. \<not> has_carriage_return (normalize_to_lf t) \<and> normalize_to_lf (normalize_to_lf t) = normalize_to_lf t)"
  by (rule line_ending_round_trip) (simp add: has_carriage_return_def)

lemma count_endings_crlf_append:
  "carriage_return \<notin> set s \<Longrightarrow>
     count_endings (append_line_ending [carriage_return, newline] s @ t) x y z =
       count_endings t (x + count_list s newline) y z"
  by (induction s arbitrary: x) (auto simp: count_endings_Cons)

text \<open>
  A tie is not reported as LF.  A file of lines ending in CRLF followed by as many
  lines ending in LF is detected as CRLF, and so saved with CRLF on every line.
\<close>

theorem detect_tie_is_crlf:
  assumes "\<not> has_carriage_return s" "\<not> has_carriage_return t" "newline \<in> set s"
    and "count_list s newline = count_list t newline"
  shows "detect_line_ending (apply_line_ending s CRLF @ t) = CRLF"
  using assms count_list_0_iff [of s newline]
  by (simp add: detect_line_ending_def apply_line_ending_def count_endings_crlf_append
      count_endings_applied has_carriage_return_def)

theorem detect_tie_is_crlf_witness:
  "detect_line_ending (apply_line_ending ''a\<newline>'' CRLF @ ''b\<newline>'') = CRLF"
  by (rule detect_tie_is_crlf) (simp_all add: has_carriage_return_def)

end
