(* ===== verification/WhitespaceHygiene.thy ===== *)
theory WhitespaceHygiene
  imports Prelude
begin

text \<open>
  \<open>Source/Text/WhitespaceHygiene.h\<close> and \<open>WhitespaceHygiene.cpp\<close>: the whole-document
  whitespace rules a save applies.

  The first lemmas relate the byte loops to a list of lines; the properties say which
  bytes the rules may remove, that kept lines are left alone, and that each rule is done
  after one pass.
\<close>

section \<open>The functions\<close>

text \<open>\<open>std::binary_search\<close> over an ascending range: the lower bound, then one comparison.\<close>

definition binary_search :: "nat list \<Rightarrow> nat \<Rightarrow> bool" where
  "binary_search xs v = (case dropWhile (\<lambda>x. x < v) xs of [] \<Rightarrow> False | x # _ \<Rightarrow> \<not> v < x)"

definition is_blank_char :: "char \<Rightarrow> bool" where
  "is_blank_char c \<longleftrightarrow> c = CHR '' '' \<or> c = CHR 0x09"

text \<open>The inner loop that moves \<open>lineEnd\<close> back over spaces and tabs.\<close>

function strip_line_end :: "bytes \<Rightarrow> bytes" where
  "strip_line_end l = (if l \<noteq> [] \<and> is_blank_char (last l) then strip_line_end (butlast l) else l)"
  by pat_completeness auto
termination by (relation "measure length") auto

declare strip_line_end.simps [simp del]

text \<open>
  One turn of the outer loop at the end of line number \<open>line\<close>, whose bytes are \<open>cur\<close>; the
  state is \<open>trimmed\<close> and \<open>keptEnd\<close>.
\<close>

definition trim_line :: "nat list \<Rightarrow> nat \<Rightarrow> bytes \<Rightarrow> bool \<Rightarrow> bytes \<times> nat \<Rightarrow> bytes \<times> nat" where
  "trim_line keep line cur atEnd st =
     (let kept = binary_search keep line;
          trimmed = fst st @ (if kept then cur else strip_line_end cur);
          trimmed' = (if atEnd then trimmed else trimmed @ [newline])
      in (trimmed', if kept then length trimmed' else snd st))"

fun trim_loop :: "nat list \<Rightarrow> bytes \<Rightarrow> bytes \<Rightarrow> nat \<Rightarrow> bytes \<times> nat \<Rightarrow> bytes \<times> nat" where
  "trim_loop keep [] cur line st = trim_line keep line cur True st"
| "trim_loop keep (c # cs) cur line st =
     (if c = newline then trim_loop keep cs [] (line + 1) (trim_line keep line cur False st)
      else trim_loop keep cs (cur @ [c]) line st)"

function pop_newlines :: "nat \<Rightarrow> bytes \<Rightarrow> bytes" where
  "pop_newlines keptEnd s =
     (if length s > keptEnd \<and> last s = newline then pop_newlines keptEnd (butlast s) else s)"
  by pat_completeness auto
termination by (relation "measure (\<lambda>(k, s). length s)") auto

declare pop_newlines.simps [simp del]

definition trim_trailing_whitespace :: "bytes \<Rightarrow> nat list \<Rightarrow> bytes" where
  "trim_trailing_whitespace content keep =
     (if content = [] then content
      else let (trimmed, keptEnd) = trim_loop keep content [] 0 ([], 0) in pop_newlines keptEnd trimmed)"

definition ensure_trailing_newline :: "bytes \<Rightarrow> bytes" where
  "ensure_trailing_newline content =
     (if content \<noteq> [] \<and> last content \<noteq> newline then content @ [newline] else content)"

definition is_blank :: "bytes \<Rightarrow> bool" where
  "is_blank l \<longleftrightarrow> list_all is_blank_char l"

text \<open>The loop that fills \<open>lines\<close>; \<open>cur\<close> holds the bytes since \<open>lineStart\<close>.\<close>

fun collect_lines :: "bytes \<Rightarrow> bytes \<Rightarrow> bytes list \<Rightarrow> bytes list" where
  "collect_lines [] cur ls = ls @ [cur]"
| "collect_lines (c # cs) cur ls =
     (if c = newline then collect_lines cs [] (ls @ [cur]) else collect_lines cs (cur @ [c]) ls)"

text \<open>The loop over the lines, from \<open>index\<close>; the bound is the unsigned \<open>maxConsecutive\<close>.\<close>

fun collapse_loop :: "nat \<Rightarrow> nat list \<Rightarrow> nat \<Rightarrow> bytes list \<Rightarrow> nat \<Rightarrow> bool \<Rightarrow> bytes \<Rightarrow> bytes" where
  "collapse_loop bound keep index [] consecutiveBlank firstLine result = result"
| "collapse_loop bound keep index (l # ls) consecutiveBlank firstLine result =
     (let result' = (if firstLine then result else result @ [newline]) @ l
      in if binary_search keep index then collapse_loop bound keep (index + 1) ls 0 False result'
         else if is_blank l then
           (if consecutiveBlank + 1 > bound
            then collapse_loop bound keep (index + 1) ls (consecutiveBlank + 1) firstLine result
            else collapse_loop bound keep (index + 1) ls (consecutiveBlank + 1) False result')
         else collapse_loop bound keep (index + 1) ls 0 False result')"

definition collapse_blank_line_runs :: "bytes \<Rightarrow> int \<Rightarrow> nat list \<Rightarrow> bytes" where
  "collapse_blank_line_runs content maxConsecutive keep =
     (if maxConsecutive < 0 then content
      else collapse_loop (nat maxConsecutive) keep 0 (collect_lines content [] []) 0 True [])"

section \<open>Lines\<close>

lemma binary_search_sorted: "sorted xs \<Longrightarrow> binary_search xs v \<longleftrightarrow> v \<in> set xs"
  by (induction xs) (auto simp: binary_search_def)

lemma strip_line_end_eq: "strip_line_end l = rev (dropWhile is_blank_char (rev l))"
proof (induction l rule: rev_induct)
  case Nil
  then show ?case by (simp add: strip_line_end.simps)
next
  case (snoc c l)
  then show ?case by (subst strip_line_end.simps) simp
qed

lemma pop_newlines_append:
  "pop_newlines (length p) (p @ r) = p @ rev (dropWhile (\<lambda>c. c = newline) (rev r))"
proof (induction r rule: rev_induct)
  case Nil
  then show ?case by (subst pop_newlines.simps) simp
next
  case (snoc c r)
  then show ?case
    by (subst pop_newlines.simps) (simp add: butlast_append flip: append_assoc)
qed

text \<open>The lines of a text: one more than it has newlines.\<close>

fun lines_of :: "bytes \<Rightarrow> bytes list" where
  "lines_of [] = [[]]"
| "lines_of (c # cs) =
     (if c = newline then [] # lines_of cs else (c # hd (lines_of cs)) # tl (lines_of cs))"

fun join_lines :: "bytes list \<Rightarrow> bytes" where
  "join_lines [] = []"
| "join_lines [l] = l"
| "join_lines (l # ls) = l @ newline # join_lines ls"

lemma lines_of_nonempty [simp]: "lines_of s \<noteq> []"
  by (induction s) auto

lemma join_lines_Cons: "ls \<noteq> [] \<Longrightarrow> join_lines (l # ls) = l @ newline # join_lines ls"
  by (cases ls) auto

lemma join_lines_of [simp]: "join_lines (lines_of s) = s"
proof (induction s)
  case (Cons c s)
  then show ?case
    by (cases "lines_of s"; cases "tl (lines_of s)") (auto simp: join_lines_Cons)
qed simp

lemma lines_of_no_newline: "list_all (\<lambda>l. newline \<notin> set l) (lines_of s)"
proof (induction s)
  case (Cons c s)
  then show ?case by (cases "lines_of s") auto
qed simp

lemma lines_of_line: "newline \<notin> set l \<Longrightarrow> lines_of l = [l]"
  by (induction l) auto

lemma lines_of_append_line:
  "newline \<notin> set l \<Longrightarrow> lines_of (l @ newline # s) = l # lines_of s"
  by (induction l) auto

lemma lines_of_join:
  "ls \<noteq> [] \<Longrightarrow> list_all (\<lambda>l. newline \<notin> set l) ls \<Longrightarrow> lines_of (join_lines ls) = ls"
  by (induction ls rule: join_lines.induct) (auto simp: lines_of_append_line lines_of_line)

lemma collect_lines_eq: "collect_lines s cur ls = ls @ (cur @ hd (lines_of s)) # tl (lines_of s)"
  by (induction s arbitrary: cur ls) auto

section \<open>Trimming, line by line\<close>

fun trim_lines :: "nat list \<Rightarrow> nat \<Rightarrow> bytes list \<Rightarrow> bytes \<times> nat \<Rightarrow> bytes \<times> nat" where
  "trim_lines keep n [] st = st"
| "trim_lines keep n [l] st = trim_line keep n l True st"
| "trim_lines keep n (l # ls) st = trim_lines keep (n + 1) ls (trim_line keep n l False st)"

lemma trim_lines_Cons:
  "ls \<noteq> [] \<Longrightarrow> trim_lines keep n (l # ls) st = trim_lines keep (n + 1) ls (trim_line keep n l False st)"
  by (cases ls) auto

lemma trim_loop_lines:
  "trim_loop keep s cur n st = trim_lines keep n ((cur @ hd (lines_of s)) # tl (lines_of s)) st"
  by (induction s arbitrary: cur n st) (auto simp: trim_lines_Cons)

definition fix_line :: "nat list \<Rightarrow> nat \<Rightarrow> bytes \<Rightarrow> bytes" where
  "fix_line keep n l = (if binary_search keep n then l else strip_line_end l)"

fun fix_lines :: "nat list \<Rightarrow> nat \<Rightarrow> bytes list \<Rightarrow> bytes list" where
  "fix_lines keep n [] = []"
| "fix_lines keep n (l # ls) = fix_line keep n l # fix_lines keep (n + 1) ls"

text \<open>How many lines stand up to and including the last kept one.\<close>

fun kept_count :: "nat list \<Rightarrow> nat \<Rightarrow> bytes list \<Rightarrow> nat" where
  "kept_count keep n [] = 0"
| "kept_count keep n (l # ls) =
     (let k = kept_count keep (n + 1) ls in if k > 0 then Suc k else if binary_search keep n then 1 else 0)"

lemma fix_lines_length [simp]: "length (fix_lines keep n ls) = length ls"
  by (induction ls arbitrary: n) auto

lemma fix_lines_nth: "i < length ls \<Longrightarrow> fix_lines keep n ls ! i = fix_line keep (n + i) (ls ! i)"
  by (induction ls arbitrary: n i) (auto simp: nth_Cons split: nat.splits)

lemma fix_lines_eq_Nil [simp]: "fix_lines keep n ls = [] \<longleftrightarrow> ls = []"
  by (cases ls) auto

lemma kept_count_le: "kept_count keep n ls \<le> length ls"
  by (induction ls arbitrary: n) (auto simp: Let_def)

lemma kept_below_count: "i < length ls \<Longrightarrow> binary_search keep (n + i) \<Longrightarrow> i < kept_count keep n ls"
proof (induction ls arbitrary: n i)
  case (Cons l ls)
  then show ?case
    by (cases i) (auto simp: Let_def dest: Cons.IH [of _ "Suc n"])
qed simp

lemma kept_count_last:
  "kept_count keep n ls = Suc i \<Longrightarrow> binary_search keep (n + i)"
proof (induction ls arbitrary: n i)
  case (Cons l ls)
  then show ?case
    using Cons.IH [of "Suc n" "i - 1"]
    by (cases "kept_count keep (Suc n) ls") (auto simp: Let_def split: if_splits)
qed simp

text \<open>The text of the first \<open>m\<close> lines, their newlines included.\<close>

definition lines_prefix :: "bytes list \<Rightarrow> nat \<Rightarrow> bytes" where
  "lines_prefix ls m =
     (if m < length ls then concat (map (\<lambda>l. l @ [newline]) (take m ls)) else join_lines ls)"

lemma lines_prefix_Cons:
  "ls \<noteq> [] \<Longrightarrow> lines_prefix (l # ls) (Suc m) = l @ newline # lines_prefix ls m"
  by (simp add: lines_prefix_def join_lines_Cons)

lemma trim_lines_result:
  "ls \<noteq> [] \<Longrightarrow>
    trim_lines keep n ls (t, k) =
      (t @ join_lines (fix_lines keep n ls),
       if kept_count keep n ls = 0 then k
       else length t + length (lines_prefix (fix_lines keep n ls) (kept_count keep n ls)))"
proof (induction ls arbitrary: n t k)
  case (Cons l ls)
  show ?case
  proof (cases "ls = []")
    case True
    then show ?thesis by (simp add: trim_line_def fix_line_def lines_prefix_def Let_def)
  next
    case False
    have step: "trim_line keep n l False (t, k) =
      (t @ fix_line keep n l @ [newline],
       if binary_search keep n then length (t @ fix_line keep n l @ [newline]) else k)"
      by (simp add: trim_line_def fix_line_def Let_def)
    show ?thesis
      using False Cons.IH [OF False]
      by (auto simp: trim_lines_Cons step join_lines_Cons lines_prefix_Cons Let_def)
        (simp_all add: lines_prefix_def)
  qed
qed simp

lemma join_lines_split:
  assumes "m < length ls"
  shows "join_lines ls = lines_prefix ls m @ join_lines (drop m ls)"
  using assms
proof (induction ls arbitrary: m)
  case (Cons l ls)
  then show ?case
    by (cases m; cases "ls = []") (auto simp: lines_prefix_def join_lines_Cons)
qed simp

definition drop_empty_tail :: "bytes list \<Rightarrow> bytes list" where
  "drop_empty_tail ls = (let r = rev (dropWhile (\<lambda>l. l = []) (rev ls)) in if r = [] then [[]] else r)"

lemma join_lines_snoc: "ls \<noteq> [] \<Longrightarrow> join_lines (ls @ [l]) = join_lines ls @ newline # l"
  by (induction ls rule: join_lines.induct) auto

lemma pop_join_lines:
  "list_all (\<lambda>l. newline \<notin> set l) ls \<Longrightarrow> ls \<noteq> [] \<Longrightarrow>
    rev (dropWhile (\<lambda>c. c = newline) (rev (join_lines ls))) = join_lines (drop_empty_tail ls)"
proof (induction ls rule: rev_induct)
  case (snoc l ls)
  show ?case
  proof (cases "l = []")
    case True
    with snoc show ?thesis
      by (cases "ls = []") (auto simp: drop_empty_tail_def join_lines_snoc)
  next
    case False
    then have r: "drop_empty_tail (ls @ [l]) = ls @ [l]" by (simp add: drop_empty_tail_def)
    obtain l' c where l: "l = l' @ [c]" using False by (cases l rule: rev_cases) auto
    have "c \<noteq> newline" using snoc.prems l by auto
    then show ?thesis
      unfolding r by (cases "ls = []") (auto simp: join_lines_snoc l)
  qed
qed simp

lemma lines_prefix_join:
  "m < length ls \<Longrightarrow> gs \<noteq> [] \<Longrightarrow> lines_prefix ls m @ join_lines gs = join_lines (take m ls @ gs)"
proof (induction ls arbitrary: m)
  case (Cons l ls)
  then show ?case
    by (cases m; cases "ls = []") (auto simp: lines_prefix_def join_lines_Cons)
qed simp

lemma drop_empty_tail_nonempty [simp]: "drop_empty_tail ls \<noteq> []"
  by (simp add: drop_empty_tail_def Let_def)

lemma drop_empty_tail_take:
  assumes "ls \<noteq> []"
  shows "\<exists>k>0. k \<le> length ls \<and> drop_empty_tail ls = take k ls \<and>
    (\<forall>i. k \<le> i \<longrightarrow> i < length ls \<longrightarrow> ls ! i = []) \<and> (k = 1 \<or> ls ! (k - 1) \<noteq> [])"
  using assms
  proof (induction ls rule: rev_induct)
    case (snoc l ls)
    show ?case
    proof (cases "l = [] \<and> ls \<noteq> []")
      case True
      then have "drop_empty_tail (ls @ [l]) = drop_empty_tail ls" by (simp add: drop_empty_tail_def)
      with snoc.IH True obtain k where k: "0 < k" "k \<le> length ls" "drop_empty_tail (ls @ [l]) = take k ls"
        "\<forall>i. k \<le> i \<longrightarrow> i < length ls \<longrightarrow> ls ! i = []" "k = 1 \<or> ls ! (k - 1) \<noteq> []"
        by auto
      then show ?thesis
        using True by (intro exI [of _ k]) (auto simp: nth_append less_Suc_eq simp del: One_nat_def)
    next
      case False
      then show ?thesis
        by (intro exI [of _ "length (ls @ [l])"]) (auto simp: drop_empty_tail_def)
    qed
  qed simp

lemma fix_line_no_newline: "newline \<notin> set l \<Longrightarrow> newline \<notin> set (fix_line keep n l)"
  by (auto simp: fix_line_def strip_line_end_eq dest: set_dropWhileD)

lemma fix_lines_no_newline:
  "list_all (\<lambda>l. newline \<notin> set l) ls \<Longrightarrow> list_all (\<lambda>l. newline \<notin> set l) (fix_lines keep n ls)"
  by (induction ls arbitrary: n) (auto simp: fix_line_no_newline)

lemma trim_lines_of:
  assumes "F = fix_lines keep 0 (lines_of s)" "m = kept_count keep 0 (lines_of s)"
  shows "lines_of (trim_trailing_whitespace s keep) =
    (if m < length F then take m F @ drop_empty_tail (drop m F) else F)"
proof -
  have F: "list_all (\<lambda>l. newline \<notin> set l) F" "F \<noteq> []" "length F = length (lines_of s)"
    using fix_lines_no_newline [OF lines_of_no_newline] assms(1) by auto
  have m: "m \<le> length F" using kept_count_le [of keep 0 "lines_of s"] assms by simp
  define R where "R = (if m < length F then join_lines (take m F @ drop_empty_tail (drop m F)) else join_lines F)"
  have R: "lines_of R = (if m < length F then take m F @ drop_empty_tail (drop m F) else F)"
  proof (cases "m < length F")
    case True
    then obtain k where "drop_empty_tail (drop m F) = take k (drop m F)"
      using drop_empty_tail_take [of "drop m F"] by auto
    then have "list_all (\<lambda>l. newline \<notin> set l) (take m F @ drop_empty_tail (drop m F))"
      using F(1) by (auto simp: list_all_iff dest!: in_set_takeD in_set_dropD)
    then show ?thesis using True lines_of_join [of "take m F @ drop_empty_tail (drop m F)"] by (simp add: R_def)
  qed (simp add: R_def lines_of_join F)
  have "trim_trailing_whitespace s keep = R"
  proof (cases "s = []")
    case True
    have "F = [[]]" using True assms(1) by (simp add: fix_line_def strip_line_end_eq)
    then have "R = []" by (auto simp: R_def drop_empty_tail_def)
    with True show ?thesis by (simp add: trim_trailing_whitespace_def)
  next
    case False
    have loop: "trim_loop keep s [] 0 ([], 0) = (join_lines F, length (lines_prefix F m))"
      using F(2) trim_lines_result [of "lines_of s" keep 0 "[]" 0]
      by (simp add: trim_loop_lines assms lines_prefix_def)
    have "pop_newlines (length (lines_prefix F m)) (join_lines F) = R"
    proof (cases "m < length F")
      case True
      then have "list_all (\<lambda>l. newline \<notin> set l) (drop m F)" "drop m F \<noteq> []"
        using F(1) by (auto simp: list_all_iff dest: in_set_dropD)
      from pop_join_lines [OF this] show ?thesis
        using True pop_newlines_append [of "lines_prefix F m" "join_lines (drop m F)"]
        by (simp add: join_lines_split [OF True, symmetric] lines_prefix_join R_def)
    next
      case False
      then have "lines_prefix F m = join_lines F" by (simp add: lines_prefix_def)
      then show ?thesis
        using False pop_newlines_append [of "join_lines F" "[]"] by (simp add: R_def)
    qed
    with False loop show ?thesis by (simp add: trim_trailing_whitespace_def)
  qed
  with R show ?thesis by simp
qed

lemma kept_count_unique:
  assumes "m \<le> length ls" "\<And>i. i < length ls \<Longrightarrow> binary_search keep (n + i) \<Longrightarrow> i < m"
    and "m = 0 \<or> binary_search keep (n + (m - 1))"
  shows "kept_count keep n ls = m"
proof (rule antisym)
  show "kept_count keep n ls \<le> m"
    using assms(2) kept_count_last [of keep n ls] kept_count_le [of keep n ls]
    by (cases "kept_count keep n ls") (auto simp: Suc_le_eq)
  show "m \<le> kept_count keep n ls"
    using assms(1,3) kept_below_count [of "m - 1" ls keep n] by (cases m) auto
qed

lemma trim_takes_lines:
  assumes "F = fix_lines keep 0 (lines_of s)" "m = kept_count keep 0 (lines_of s)"
  shows "\<exists>n>0. n \<le> length F \<and> m \<le> n \<and> lines_of (trim_trailing_whitespace s keep) = take n F \<and>
    (\<forall>i. n \<le> i \<longrightarrow> i < length F \<longrightarrow> F ! i = []) \<and> (n = m \<or> n = Suc m \<or> F ! (n - 1) \<noteq> [])"
proof (cases "m < length F")
  case True
  then obtain k where k: "0 < k" "k \<le> length (drop m F)" "drop_empty_tail (drop m F) = take k (drop m F)"
    "\<forall>i. k \<le> i \<longrightarrow> i < length (drop m F) \<longrightarrow> drop m F ! i = []" "k = 1 \<or> drop m F ! (k - 1) \<noteq> []"
    using drop_empty_tail_take [of "drop m F"] by auto
  have "lines_of (trim_trailing_whitespace s keep) = take (m + k) F"
    using True trim_lines_of [OF assms] k(3) by (simp add: take_add)
  moreover have "F ! i = []" if "m + k \<le> i" "i < length F" for i
    using k(4) [rule_format, of "i - m"] that True by simp
  moreover have "m + k = Suc m \<or> F ! (m + k - 1) \<noteq> []" using k(1,5) True by auto
  ultimately show ?thesis using k(1,2) True by (intro exI [of _ "m + k"]) auto
next
  case False
  moreover have "m \<le> length F" using kept_count_le assms by simp
  moreover have "F \<noteq> []" using assms(1) by simp
  ultimately show ?thesis
    using trim_lines_of [OF assms] by (intro exI [of _ "length F"]) auto
qed

lemma strip_line_end_idem [simp]: "strip_line_end (strip_line_end l) = strip_line_end l"
  by (simp add: strip_line_end_eq dropWhile_idem)

lemma fix_line_idem [simp]: "fix_line keep n (fix_line keep n l) = fix_line keep n l"
  by (simp add: fix_line_def)

lemma drop_empty_tail_idem [simp]: "drop_empty_tail (drop_empty_tail ls) = drop_empty_tail ls"
proof (cases "dropWhile (\<lambda>l. l = []) (rev ls)")
  case (Cons x xs)
  then have "x \<noteq> []" using hd_dropWhile [of "\<lambda>l. l = []" "rev ls"] by auto
  with Cons show ?thesis by (simp add: drop_empty_tail_def)
qed (simp add: drop_empty_tail_def)

lemma trim_idempotent:
  "trim_trailing_whitespace (trim_trailing_whitespace s keep) keep = trim_trailing_whitespace s keep"
proof -
  define t where "t = trim_trailing_whitespace s keep"
  define F where "F = fix_lines keep 0 (lines_of s)"
  define m where "m = kept_count keep 0 (lines_of s)"
  obtain n where n: "n > 0" "n \<le> length F" "m \<le> n" "lines_of t = take n F"
    using trim_takes_lines [OF F_def m_def] by (auto simp: t_def)
  have fixed: "fix_lines keep 0 (lines_of t) = lines_of t"
    using n(2) by (intro nth_equalityI) (auto simp: n(4) fix_lines_nth F_def)
  have count: "kept_count keep 0 (lines_of t) = m"
  proof (rule kept_count_unique)
    show "m \<le> length (lines_of t)" using n by simp
    show "i < m" if "i < length (lines_of t)" "binary_search keep (0 + i)" for i
      using that n kept_below_count [of i "lines_of s" keep 0] by (simp add: F_def m_def)
    show "m = 0 \<or> binary_search keep (0 + (m - 1))"
      using kept_count_last [of keep 0 "lines_of s" "m - 1"] by (cases m) (simp_all add: m_def)
  qed
  have "lines_of (trim_trailing_whitespace t keep) = lines_of t"
  proof (cases "m < length F")
    case True
    then have "lines_of t = take m F @ drop_empty_tail (drop m F)"
      using trim_lines_of [OF F_def m_def] by (simp add: t_def)
    then show ?thesis using trim_lines_of [OF fixed [symmetric] count [symmetric]] True by simp
  next
    case False
    then show ?thesis using trim_lines_of [OF fixed [symmetric] count [symmetric]] n by simp
  qed
  then have "trim_trailing_whitespace t keep = t" by (metis join_lines_of)
  then show ?thesis by (simp add: t_def)
qed

lemma strip_line_end_split:
  "\<exists>ws. l = strip_line_end l @ ws \<and> list_all is_blank_char ws"
proof (intro exI conjI)
  show "l = strip_line_end l @ rev (takeWhile is_blank_char (rev l))"
    by (metis rev_append rev_rev_ident strip_line_end_eq takeWhile_dropWhile_id)
  show "list_all is_blank_char (rev (takeWhile is_blank_char (rev l)))"
    by (auto simp: list_all_iff dest: set_takeWhileD)
qed

lemma strip_line_end_last: "strip_line_end l = [] \<or> \<not> is_blank_char (last (strip_line_end l))"
  using hd_dropWhile [of is_blank_char "rev l"] by (auto simp: strip_line_end_eq last_rev)

section \<open>The properties\<close>

text \<open>
  C22: trimming removes trailing spaces, tabs and empty last lines, and nothing else.  With
  an ascending list of kept lines: every line that remains is the original line when it is
  kept, and otherwise the original without a trailing run of blanks, ending in no blank;
  every line that is gone was blank and not kept; the result ends in an empty line only
  where a kept line holds it; and trimming again changes nothing.
\<close>

theorem trim_removes_only_trailing_blanks:
  assumes "sorted keep" and "ls = lines_of s" and "out = lines_of (trim_trailing_whitespace s keep)"
  shows "length out \<le> length ls \<and>
    (\<forall>i<length out. if i \<in> set keep then out ! i = ls ! i
      else (\<exists>ws. ls ! i = out ! i @ ws \<and> list_all is_blank_char ws) \<and>
        (out ! i = [] \<or> \<not> is_blank_char (last (out ! i)))) \<and>
    (\<forall>i. length out \<le> i \<longrightarrow> i < length ls \<longrightarrow> is_blank (ls ! i) \<and> i \<notin> set keep) \<and>
    (last out = [] \<longrightarrow> length out = 1 \<or> length out - 1 \<in> set keep \<or> length out - 2 \<in> set keep) \<and>
    trim_trailing_whitespace (trim_trailing_whitespace s keep) keep = trim_trailing_whitespace s keep"
proof -
  define F where "F = fix_lines keep 0 (lines_of s)"
  define m where "m = kept_count keep 0 (lines_of s)"
  obtain n where n: "n > 0" "n \<le> length F" "m \<le> n" "out = take n F"
    "\<forall>i. n \<le> i \<longrightarrow> i < length F \<longrightarrow> F ! i = []" "n = m \<or> n = Suc m \<or> F ! (n - 1) \<noteq> []"
    using trim_takes_lines [OF F_def m_def] assms(3) by auto
  note keep = binary_search_sorted [OF assms(1)]
  have len: "length out = n" "length F = length ls" using n by (auto simp: F_def assms(2))
  have F: "F ! i = (if i \<in> set keep then ls ! i else strip_line_end (ls ! i))" if "i < length ls" for i
    using that by (simp add: F_def assms(2) fix_lines_nth fix_line_def keep)
  have gone: "is_blank (ls ! i) \<and> i \<notin> set keep" if "n \<le> i" "i < length ls" for i
  proof -
    have "i \<notin> set keep"
      using kept_below_count [of i ls keep 0] that n(3) by (auto simp: keep m_def assms(2))
    moreover have "F ! i = []" using n(5) that len by simp
    ultimately show ?thesis
      using strip_line_end_split [of "ls ! i"] F [OF that(2)] by (auto simp: is_blank_def)
  qed
  have tail: "last out = [] \<longrightarrow> n = 1 \<or> n - 1 \<in> set keep \<or> n - 2 \<in> set keep"
  proof
    assume "last out = []"
    moreover have "last out = F ! (n - 1)"
      using n(1,2) len by (subst last_conv_nth) (auto simp: n(4))
    ultimately have "n = m \<or> n = Suc m" using n(6) by simp
    then show "n = 1 \<or> n - 1 \<in> set keep \<or> n - 2 \<in> set keep"
      using n(1) kept_count_last [of keep 0 "lines_of s"] by (cases m) (auto simp: m_def keep)
  qed
  show ?thesis
    using gone tail strip_line_end_split strip_line_end_last n(2)
    by (auto simp: len trim_idempotent n(4) F)
qed

theorem trim_removes_only_trailing_blanks_witness:
  "\<exists>t. t = trim_trailing_whitespace ''a \<newline>b \<newline>'' [0] \<and> lines_of t = [''a '', ''b''] \<and>
    lines_of t ! 0 = lines_of ''a \<newline>b \<newline>'' ! 0 \<and> (\<exists>ws. lines_of ''a \<newline>b \<newline>'' ! 1 = lines_of t ! 1 @ ws \<and> list_all is_blank_char ws) \<and>
    is_blank (lines_of ''a \<newline>b \<newline>'' ! 2) \<and> trim_trailing_whitespace t [0] = t"
proof -
  define t where "t = trim_trailing_whitespace ''a \<newline>b \<newline>'' [0]"
  have t: "lines_of t = [''a '', ''b'']"
    by (simp add: t_def trim_trailing_whitespace_def trim_line_def binary_search_def strip_line_end.simps
        pop_newlines.simps is_blank_char_def Let_def)
  note T = trim_removes_only_trailing_blanks [OF _ refl refl, of "[0]" "''a \<newline>b \<newline>''", folded t_def]
  have "lines_of ''a \<newline>b \<newline>'' ! 1 = lines_of t ! 1 @ '' '' \<and> list_all is_blank_char '' ''"
    by (simp add: t is_blank_char_def)
  moreover have "is_blank (lines_of ''a \<newline>b \<newline>'' ! 2)"
    using T [THEN conjunct2, THEN conjunct2, THEN conjunct1, rule_format, of 2] by (simp add: t)
  moreover have "lines_of t ! 0 = lines_of ''a \<newline>b \<newline>'' ! 0"
    using T [THEN conjunct2, THEN conjunct1, rule_format, of 0] by (simp add: t)
  moreover have "trim_trailing_whitespace t [0] = t" using T by simp
  ultimately show ?thesis using t t_def by blast
qed

section \<open>Collapsing, line by line\<close>

text \<open>The lines that stay, given for each line whether it is blank and not kept.\<close>

fun retained :: "nat \<Rightarrow> nat \<Rightarrow> (bool \<times> bytes) list \<Rightarrow> bytes list" where
  "retained b cb [] = []"
| "retained b cb ((m, l) # r) =
     (if m then (if cb + 1 > b then retained b (cb + 1) r else l # retained b (cb + 1) r)
      else l # retained b 0 r)"

definition droppable :: "nat list \<Rightarrow> bytes list \<Rightarrow> nat \<Rightarrow> bool" where
  "droppable keep ls i \<longleftrightarrow> i \<notin> set keep \<and> is_blank (ls ! i)"

definition marked :: "nat list \<Rightarrow> nat \<Rightarrow> bytes list \<Rightarrow> (bool \<times> bytes) list" where
  "marked keep n ls = map (\<lambda>i. (n + i \<notin> set keep \<and> is_blank (ls ! i), ls ! i)) [0..<length ls]"

lemma marked_Nil [simp]: "marked keep n [] = []"
  by (simp add: marked_def)

lemma marked_Cons [simp]:
  "marked keep n (l # ls) = (n \<notin> set keep \<and> is_blank l, l) # marked keep (Suc n) ls"
  unfolding marked_def by (simp add: upt_conv_Cons map_Suc_upt [symmetric] del: upt_Suc)

lemma collapse_loop_retained:
  assumes "sorted keep"
  shows "collapse_loop b keep n ls cb False (join_lines (k # ks)) =
      join_lines ((k # ks) @ retained b cb (marked keep n ls))"
    and "collapse_loop b keep n ls cb True [] = join_lines (retained b cb (marked keep n ls))"
proof -
  note keep = binary_search_sorted [OF assms]
  have *: "collapse_loop b keep n ls cb False (join_lines (k # ks)) =
      join_lines ((k # ks) @ retained b cb (marked keep n ls))" for n cb k ks ls
  proof (induction ls arbitrary: n cb k ks)
    case (Cons l ls)
    have "join_lines (k # ks) @ newline # l = join_lines (k # ks @ [l])"
      using join_lines_snoc [of "k # ks" l] by simp
    then show ?case using Cons.IH [of _ _ k "ks @ [l]"] Cons.IH [of _ _ k ks] by (simp add: keep Let_def)
  qed simp
  then show "collapse_loop b keep n ls cb False (join_lines (k # ks)) =
      join_lines ((k # ks) @ retained b cb (marked keep n ls))" .
  show "collapse_loop b keep n ls cb True [] = join_lines (retained b cb (marked keep n ls))"
  proof (induction ls arbitrary: n cb)
    case (Cons l ls)
    then show ?case using * [where ks = "[]" and k = l] by (simp add: keep)
  qed simp
qed

lemma collapse_retained:
  assumes "sorted keep" "0 \<le> k"
  shows "collapse_blank_line_runs s k keep = join_lines (retained (nat k) 0 (marked keep 0 (lines_of s)))"
  using assms by (simp add: collapse_blank_line_runs_def collect_lines_eq collapse_loop_retained)

text \<open>The run of droppable lines just before line \<open>i\<close>.\<close>

definition run_before :: "nat list \<Rightarrow> bytes list \<Rightarrow> nat \<Rightarrow> nat" where
  "run_before keep ls i = length (takeWhile (droppable keep ls) (rev [0..<i]))"

lemma run_before_Suc:
  "run_before keep ls (Suc i) = (if droppable keep ls i then Suc (run_before keep ls i) else 0)"
  by (simp add: run_before_def)

lemma run_before_le_iff:
  "b \<le> run_before keep ls i \<longleftrightarrow> b \<le> i \<and> (\<forall>j. i - b \<le> j \<longrightarrow> j < i \<longrightarrow> droppable keep ls j)"
proof (induction i arbitrary: b)
  case 0
  then show ?case by (simp add: run_before_def)
next
  case (Suc i)
  then show ?case by (cases b) (auto simp: run_before_Suc less_Suc_eq intro!: exI [of _ i])
qed

lemma retained_window:
  assumes "k \<le> length ls"
  shows "retained b (run_before keep ls k) (marked keep k (drop k ls)) =
    map ((!) ls) (filter (\<lambda>i. \<not> (droppable keep ls i \<and> b \<le> run_before keep ls i)) [k..<length ls])"
  using assms
proof (induction "length ls - k" arbitrary: k)
  case (Suc n)
  then have "k < length ls" by simp
  then show ?case
    using Suc.hyps(1) [of "Suc k"] Suc.hyps(2)
    by (simp add: upt_conv_Cons Cons_nth_drop_Suc [symmetric] run_before_Suc not_le less_Suc_eq_le
        flip: droppable_def) (auto simp: droppable_def)
qed simp

lemma retained_again:
  "retained b (min c b) (marked [] n (retained b c (marked [] m ls))) = retained b c (marked [] m ls)"
proof (induction ls arbitrary: c n m)
  case (Cons l ls)
  have "min (Suc c) b = b" if "b \<le> c" using that by simp
  then show ?case
    using Cons.IH [of "Suc c" n "Suc m"] Cons.IH [of "Suc c" "Suc n" "Suc m"] Cons.IH [of 0 "Suc n" "Suc m"]
    by (cases "b \<le> c") (auto simp: min_def not_le Suc_le_eq)
qed simp

lemma retained_no_newline:
  "list_all (\<lambda>l. newline \<notin> set l) ls \<Longrightarrow> list_all (\<lambda>l. newline \<notin> set l) (retained b c (marked keep n ls))"
  by (induction ls arbitrary: c n) auto


text \<open>
  Collapsing drops exactly the lines that are blank, not kept, and preceded by
  \<open>maxConsecutive\<close> further such lines; the others stay in order.  A negative bound changes
  nothing, and with no kept lines a second pass changes nothing.
\<close>

theorem collapse_drops_long_runs:
  assumes "sorted keep" and "ls = lines_of s"
  shows "collapse_blank_line_runs s k keep =
      (if k < 0 then s
       else join_lines (map ((!) ls) (filter (\<lambda>i. \<not> (nat k \<le> i \<and>
         (\<forall>j. i - nat k \<le> j \<longrightarrow> j \<le> i \<longrightarrow> j \<notin> set keep \<and> is_blank (ls ! j)))) [0..<length ls]))) \<and>
    collapse_blank_line_runs (collapse_blank_line_runs s k []) k [] = collapse_blank_line_runs s k []"
proof (cases "k < 0")
  case True
  then show ?thesis by (simp add: collapse_blank_line_runs_def)
next
  case False
  have "droppable keep ls i \<and> nat k \<le> run_before keep ls i \<longleftrightarrow> nat k \<le> i \<and>
      (\<forall>j. i - nat k \<le> j \<longrightarrow> j \<le> i \<longrightarrow> j \<notin> set keep \<and> is_blank (ls ! j))" for i
    unfolding run_before_le_iff droppable_def [symmetric]
    by (metis diff_le_self le_neq_implies_less less_imp_le_nat order_refl)
  then have window: "retained (nat k) 0 (marked keep 0 ls) = map ((!) ls) (filter (\<lambda>i. \<not> (nat k \<le> i \<and>
      (\<forall>j. i - nat k \<le> j \<longrightarrow> j \<le> i \<longrightarrow> j \<notin> set keep \<and> is_blank (ls ! j)))) [0..<length ls])"
    using retained_window [of 0 ls "nat k" keep] by (simp add: run_before_def)
  define R where "R = retained (nat k) 0 (marked [] 0 (lines_of s))"
  have once: "collapse_blank_line_runs s k [] = join_lines R"
    using False collapse_retained [of "[]" k s] by (simp add: R_def)
  have "collapse_blank_line_runs (join_lines R) k [] = join_lines R"
  proof (cases "R = []")
    case True
    then show ?thesis
      using False collapse_retained [of "[]" k "[]"] by (simp add: is_blank_def)
  next
    case False
    then have "lines_of (join_lines R) = R"
      using lines_of_join retained_no_newline [OF lines_of_no_newline] by (simp add: R_def)
    then show ?thesis
      using \<open>\<not> k < 0\<close> collapse_retained [of "[]" k "join_lines R"] retained_again [of "nat k" 0 0 0 "lines_of s"]
      by (simp add: R_def)
  qed
  then show ?thesis
    using False collapse_retained [OF assms(1), of k s] window by (simp add: once assms(2))
qed

theorem collapse_drops_long_runs_witness:
  "collapse_blank_line_runs ''a\<newline>\<newline>\<newline>b'' 1 [] =
      (if (1::int) < 0 then ''a\<newline>\<newline>\<newline>b''
       else join_lines (map ((!) (lines_of ''a\<newline>\<newline>\<newline>b'')) (filter (\<lambda>i. \<not> (nat 1 \<le> i \<and>
         (\<forall>j. i - nat 1 \<le> j \<longrightarrow> j \<le> i \<longrightarrow> j \<notin> set [] \<and> is_blank (lines_of ''a\<newline>\<newline>\<newline>b'' ! j))))
           [0..<length (lines_of ''a\<newline>\<newline>\<newline>b'')]))) \<and>
    collapse_blank_line_runs (collapse_blank_line_runs ''a\<newline>\<newline>\<newline>b'' 1 []) 1 [] =
      collapse_blank_line_runs ''a\<newline>\<newline>\<newline>b'' 1 []"
  by (rule collapse_drops_long_runs [OF _ refl]) simp

end
