(* ===== verification/FileUri.thy ===== *)
theory FileUri
  imports Prelude
begin

text \<open>
  \<open>Source/Text/FileUri.h\<close> and \<open>FileUri.cpp\<close>: \<open>file:\<close> URIs.  A \<open>std::filesystem::path\<close> is
  the bytes it was built from, as it is on the POSIX systems the program runs on.

  The lemmas evaluate the hexadecimal digits; the property is the round trip, the form of
  the URIs produced, and when a URI is refused.
\<close>

section \<open>The functions\<close>

definition kFileScheme :: bytes where
  "kFileScheme = ''file://''"

abbreviation in_range :: "char \<Rightarrow> char \<Rightarrow> char \<Rightarrow> bool" where
  "in_range lo hi c \<equiv> of_char lo \<le> (of_char c :: int) \<and> (of_char c :: int) \<le> of_char hi"

definition hex_value :: "char \<Rightarrow> int" where
  "hex_value c =
     (if in_range CHR ''0'' CHR ''9'' c then of_char c - of_char CHR ''0''
      else if in_range CHR ''a'' CHR ''f'' c then of_char c - of_char CHR ''a'' + 10
      else if in_range CHR ''A'' CHR ''F'' c then of_char c - of_char CHR ''A'' + 10
      else -1)"

definition keeps_literal :: "char \<Rightarrow> bool" where
  "keeps_literal c \<longleftrightarrow> in_range CHR ''A'' CHR ''Z'' c \<or> in_range CHR ''a'' CHR ''z'' c \<or>
     in_range CHR ''0'' CHR ''9'' c \<or> c = CHR ''-'' \<or> c = CHR ''.'' \<or> c = CHR ''_'' \<or> c = CHR ''~'' \<or> c = CHR ''/''"

definition kHex :: bytes where
  "kHex = ''0123456789ABCDEF''"

definition encode_byte :: "char \<Rightarrow> bytes" where
  "encode_byte c =
     (if keeps_literal c then [c]
      else [CHR ''%'', kHex ! unat (drop_bit 4 (u8 c)), kHex ! unat (u8 c AND 0x0F)])"

fun encode_loop :: "bytes \<Rightarrow> bytes \<Rightarrow> bytes" where
  "encode_loop uri [] = uri"
| "encode_loop uri (c # cs) = encode_loop (uri @ encode_byte c) cs"

definition path_to_file_uri :: "bytes \<Rightarrow> bytes" where
  "path_to_file_uri raw = encode_loop kFileScheme raw"

fun decode_percent :: "bytes \<Rightarrow> bytes" where
  "decode_percent (c # h # l # cs) =
     (if c = CHR ''%'' \<and> hex_value h \<ge> 0 \<and> hex_value l \<ge> 0
      then char_of (hex_value h * 16 + hex_value l) # decode_percent cs
      else c # decode_percent (h # l # cs))"
| "decode_percent (c # cs) = c # decode_percent cs"
| "decode_percent [] = []"

definition file_uri_to_path :: "bytes \<Rightarrow> bytes option" where
  "file_uri_to_path uri =
     (if take (length kFileScheme) uri \<noteq> kFileScheme then None
      else Some (decode_percent (drop (length kFileScheme) uri)))"

section \<open>Lemmas\<close>

text \<open>A byte splits into the values of its two digits.\<close>

definition hex_pair_ok :: "nat \<Rightarrow> bool" where
  "hex_pair_ok n \<longleftrightarrow> hex_value (kHex ! n) = int n"

lemma kHex_value: "n < 16 \<Longrightarrow> hex_value (kHex ! n) = int n"
proof -
  have "\<forall>m\<in>set [0..<16]. hex_pair_ok m"
    by (simp add: upt_rec hex_pair_ok_def kHex_def hex_value_def)
  then show "n < 16 \<Longrightarrow> hex_value (kHex ! n) = int n" by (simp add: hex_pair_ok_def)
qed

lemma high_nibble: "unat (drop_bit 4 (u8 c)) = of_char c div 16"
  by (simp add: drop_bit_eq_div unat_div)

lemma low_nibble: "unat (u8 c AND 0x0F) = of_char c mod 16"
proof -
  have "u8 c AND 0x0F = take_bit 4 (u8 c)" by (simp add: take_bit_eq_mask mask_eq_exp_minus_1)
  then show ?thesis by (simp add: take_bit_eq_mod unat_mod)
qed

lemma digits_value:
  "hex_value (kHex ! (of_char c div 16)) = of_char c div 16"
  "hex_value (kHex ! (of_char c mod 16)) = of_char c mod 16"
proof -
  have "(of_char c :: nat) div 16 < 16" using nat_of_char_less_256 [of c] by linarith
  then show "hex_value (kHex ! (of_char c div 16)) = of_char c div 16"
    by (simp add: kHex_value zdiv_int)
  show "hex_value (kHex ! (of_char c mod 16)) = of_char c mod 16"
    by (simp add: kHex_value zmod_int)
qed

lemma keeps_literal_not_percent: "keeps_literal c \<Longrightarrow> c \<noteq> CHR ''%''"
  by (auto simp: keeps_literal_def)

lemma decode_percent_literal: "c \<noteq> CHR ''%'' \<Longrightarrow> decode_percent (c # cs) = c # decode_percent cs"
  by (cases cs; cases "tl cs") auto

lemma decode_encode_byte: "decode_percent (encode_byte c @ cs) = c # decode_percent cs"
proof (cases "keeps_literal c")
  case True
  then show ?thesis
    by (simp add: encode_byte_def decode_percent_literal keeps_literal_not_percent)
next
  case False
  have "of_char c div 16 * 16 + of_char c mod 16 = (of_char c :: int)" by simp
  moreover have "(0::int) \<le> of_char c" by (metis int_of_char of_nat_0_le_iff)
  ultimately show ?thesis
    using False by (simp add: encode_byte_def high_nibble low_nibble digits_value pos_imp_zdiv_nonneg_iff
        del: div_mult_mod_eq)
qed

lemma encode_loop_eq: "encode_loop uri cs = uri @ concat (map encode_byte cs)"
  by (induction cs arbitrary: uri) auto

lemma decode_encode: "decode_percent (concat (map encode_byte cs)) = cs"
  by (induction cs) (auto simp: decode_encode_byte)

lemma kHex_keeps: "n < 16 \<Longrightarrow> keeps_literal (kHex ! n)"
proof -
  have "list_all keeps_literal kHex" by (simp add: kHex_def keeps_literal_def)
  then show "n < 16 \<Longrightarrow> keeps_literal (kHex ! n)" by (simp add: list_all_length kHex_def)
qed

lemma encode_byte_plain: "list_all (\<lambda>c. keeps_literal c \<or> c = CHR ''%'') (encode_byte c)"
proof -
  have "(of_char c :: nat) div 16 < 16" using nat_of_char_less_256 [of c] by linarith
  then show ?thesis by (simp add: encode_byte_def high_nibble low_nibble kHex_keeps)
qed

lemma decode_percent_plain: "CHR ''%'' \<notin> set s \<Longrightarrow> decode_percent s = s"
  by (induction s rule: decode_percent.induct) auto

section \<open>The properties\<close>

text \<open>
  C23: a path survives the trip through its URI.  The URI is the scheme followed by
  unreserved characters, slashes and percent signs only; decoding it gives the path back;
  a URI is refused exactly when it does not start with the scheme; and a URI without a
  percent sign names the path it spells.
\<close>

theorem file_uri_round_trip:
  "file_uri_to_path (path_to_file_uri p) = Some p \<and>
    (\<exists>body. path_to_file_uri p = kFileScheme @ body \<and>
      list_all (\<lambda>c. keeps_literal c \<or> c = CHR ''%'') body) \<and>
    (file_uri_to_path u = None \<longleftrightarrow> \<not> (\<exists>body. u = ''file://'' @ body)) \<and>
    (CHR ''%'' \<notin> set p \<longrightarrow> file_uri_to_path (''file://'' @ p) = Some p)"
proof (intro conjI)
  show "file_uri_to_path (path_to_file_uri p) = Some p"
    by (simp add: file_uri_to_path_def path_to_file_uri_def encode_loop_eq decode_encode)
  show "\<exists>body. path_to_file_uri p = kFileScheme @ body \<and>
      list_all (\<lambda>c. keeps_literal c \<or> c = CHR ''%'') body"
    using encode_byte_plain by (auto simp: path_to_file_uri_def encode_loop_eq list_all_iff)
  show "file_uri_to_path u = None \<longleftrightarrow> \<not> (\<exists>body. u = ''file://'' @ body)"
    by (auto simp: file_uri_to_path_def kFileScheme_def) (metis append_take_drop_id append_Cons append_Nil)
  show "CHR ''%'' \<notin> set p \<longrightarrow> file_uri_to_path (''file://'' @ p) = Some p"
    by (simp add: file_uri_to_path_def kFileScheme_def decode_percent_plain)
qed

theorem file_uri_round_trip_witness:
  "CHR ''%'' \<notin> set ''/a b'' \<and> file_uri_to_path (path_to_file_uri ''/a b'') = Some ''/a b'' \<and>
    file_uri_to_path (''file://'' @ ''/a b'') = Some ''/a b''"
  using file_uri_round_trip [of "''/a b''" "[]"] by simp

end
