(* ===== verification/Base64.thy ===== *)
theory Base64
  imports Prelude
begin

text \<open>
  \<open>Source/Text/Base64.h\<close> and \<open>Base64.cpp\<close>: base64 with padding.  The encoder's bytes are
  promoted to 32-bit integers and the decoder's accumulator is 32 bits wide, as in the code.

  The lemmas turn four digits back into three bytes; the properties are the round trip and
  exactly which texts are refused.
\<close>

section \<open>The functions\<close>

definition kAlphabet :: bytes where
  "kAlphabet = ''ABCDEFGHIJKLMNOPQRSTUVWXYZabcdefghijklmnopqrstuvwxyz0123456789+/''"

abbreviation u32 :: "char \<Rightarrow> 32 word" where
  "u32 c \<equiv> of_char c"

definition digit :: "32 word \<Rightarrow> char" where
  "digit w = kAlphabet ! unat w"

text \<open>The loop over groups of three bytes, and the one or two bytes left after it.\<close>

fun base64_encode :: "bytes \<Rightarrow> bytes" where
  "base64_encode (c0 # c1 # c2 # cs) =
     digit (drop_bit 2 (u32 c0)) #
     digit (push_bit 4 (u32 c0 AND 0x03) OR drop_bit 4 (u32 c1)) #
     digit (push_bit 2 (u32 c1 AND 0x0F) OR drop_bit 6 (u32 c2)) #
     digit (u32 c2 AND 0x3F) # base64_encode cs"
| "base64_encode [c0] =
     [digit (drop_bit 2 (u32 c0)), digit (push_bit 4 (u32 c0 AND 0x03)), CHR ''='', CHR ''='']"
| "base64_encode [c0, c1] =
     [digit (drop_bit 2 (u32 c0)), digit (push_bit 4 (u32 c0 AND 0x03) OR drop_bit 4 (u32 c1)),
      digit (push_bit 2 (u32 c1 AND 0x0F)), CHR ''='']"
| "base64_encode [] = []"

abbreviation in_range :: "char \<Rightarrow> char \<Rightarrow> char \<Rightarrow> bool" where
  "in_range lo hi c \<equiv> of_char lo \<le> (of_char c :: int) \<and> (of_char c :: int) \<le> of_char hi"

text \<open>The chain of tests: a digit's value, padding, whitespace, or none of them (\<open>value\<close> stays -1).\<close>

datatype char_class = Digit int | Padding | Whitespace | Unknown

definition classify :: "char \<Rightarrow> char_class" where
  "classify c =
     (if in_range CHR ''A'' CHR ''Z'' c then Digit (of_char c - of_char CHR ''A'')
      else if in_range CHR ''a'' CHR ''z'' c then Digit (of_char c - of_char CHR ''a'' + 26)
      else if in_range CHR ''0'' CHR ''9'' c then Digit (of_char c - of_char CHR ''0'' + 52)
      else if c = CHR ''+'' then Digit 62
      else if c = CHR ''/'' then Digit 63
      else if c = CHR ''='' then Padding
      else if c = CHR '' '' \<or> c = newline \<or> c = carriage_return \<or> c = CHR 0x09 then Whitespace
      else Unknown)"

record decode_state =
  result :: bytes
  bits :: "32 word"
  digits :: nat
  padding :: bool

definition low_byte :: "32 word \<Rightarrow> char" where
  "low_byte w = char_of (unat (w AND 0xFF))"

definition accept_digit :: "int \<Rightarrow> decode_state \<Rightarrow> decode_state" where
  "accept_digit v st =
     (let acc = push_bit 6 (bits st) OR word_of_int v
      in if digits st + 1 = 4
         then st\<lparr>result := result st @ [low_byte (drop_bit 16 acc), low_byte (drop_bit 8 acc), low_byte acc],
                 bits := 0, digits := 0\<rparr>
         else st\<lparr>bits := acc, digits := digits st + 1\<rparr>)"

fun decode_loop :: "bytes \<Rightarrow> decode_state \<Rightarrow> decode_state option" where
  "decode_loop [] st = Some st"
| "decode_loop (c # cs) st =
     (case classify c of
        Padding \<Rightarrow> decode_loop cs (st\<lparr>padding := True\<rparr>)
      | Whitespace \<Rightarrow> decode_loop cs st
      | Unknown \<Rightarrow> None
      | Digit v \<Rightarrow> if padding st then None else decode_loop cs (accept_digit v st))"

definition finish_decode :: "decode_state \<Rightarrow> bytes option" where
  "finish_decode st =
     (if digits st = 1 then None
      else if digits st = 2 then Some (result st @ [low_byte (drop_bit 4 (bits st))])
      else if digits st = 3
      then Some (result st @ [low_byte (drop_bit 10 (bits st)), low_byte (drop_bit 2 (bits st))])
      else Some (result st))"

definition base64_decode :: "bytes \<Rightarrow> bytes option" where
  "base64_decode s =
     Option.bind (decode_loop s \<lparr>result = [], bits = 0, digits = 0, padding = False\<rparr>) finish_decode"

section \<open>Lemmas\<close>

definition digit_ok :: "nat \<Rightarrow> bool" where
  "digit_ok n \<longleftrightarrow> classify (kAlphabet ! n) = Digit (int n)"

lemma classify_alphabet: "n < 64 \<Longrightarrow> classify (kAlphabet ! n) = Digit (int n)"
proof -
  have "list_all digit_ok [0..<64]"
    by (simp add: upt_rec digit_ok_def kAlphabet_def classify_def)
  then show "n < 64 \<Longrightarrow> classify (kAlphabet ! n) = Digit (int n)"
    by (simp add: list_all_iff digit_ok_def)
qed

lemma classify_digit: "w < 64 \<Longrightarrow> classify (digit w) = Digit (uint w)"
proof -
  assume "w < 64"
  then have "unat w < 64" by (simp add: word_less_nat_alt)
  then show ?thesis by (simp add: digit_def classify_alphabet)
qed

lemma u32_unat [simp]: "unat (u32 c) = of_char c"
proof -
  have "of_nat (of_char c) = u32 c" by (cases c) (simp add: of_char_def)
  moreover have "unat (of_nat (of_char c) :: 32 word) = of_char c"
    using nat_of_char_less_256 [of c] by (simp add: unat_of_nat take_bit_eq_mod del: nat_of_char_less_256)
  ultimately show ?thesis by simp
qed

lemma u32_bit_high [simp]: "8 \<le> n \<Longrightarrow> \<not> bit (u32 c) n"
proof -
  have "u32 c = take_bit 8 (u32 c)"
    using nat_of_char_less_256 [of c]
    by (simp add: take_bit_eq_mod word_arith_nat_mod [symmetric] word_unat_eq_iff unat_mod)
  then show "8 \<le> n \<Longrightarrow> \<not> bit (u32 c) n" by (metis bit_take_bit_iff not_less)
qed

lemma low_byte_eqI:
  assumes "\<forall>n\<in>set [0, Suc 0, Suc (Suc 0), Suc (Suc (Suc 0)), Suc (Suc (Suc (Suc 0))),
      Suc (Suc (Suc (Suc (Suc 0)))), Suc (Suc (Suc (Suc (Suc (Suc 0))))),
      Suc (Suc (Suc (Suc (Suc (Suc (Suc 0))))))]. bit w n = bit (u32 c) n"
  shows "low_byte w = c"
proof -
  have "w AND 0xFF = u32 c"
  proof (rule bit_word_eqI)
    fix n assume "n < LENGTH(32)"
    then have "bit (0xFF :: 32 word) n \<longleftrightarrow> n < 8"
      using bit_mask_iff [of 8 n, where 'a = "32 word"] by (simp add: mask_eq_exp_minus_1)
    moreover have "n < 8 \<Longrightarrow> bit w n = bit (u32 c) n"
      using assms by (auto simp: less_Suc_eq numeral_eq_Suc)
    ultimately show "bit (w AND 0xFF) n = bit (u32 c) n"
      using \<open>n < LENGTH(32)\<close> by (cases "n < 8") (simp_all add: bit_and_iff)
  qed
  then show ?thesis by (simp add: low_byte_def)
qed

lemma below_64:
  assumes "\<And>n. 6 \<le> n \<Longrightarrow> n < 32 \<Longrightarrow> \<not> bit w n"
  shows "(w :: 32 word) < 64"
proof -
  have "w = take_bit 6 w"
  proof (rule bit_word_eqI)
    fix n assume "n < LENGTH(32)"
    then show "bit w n = bit (take_bit 6 w) n"
      using assms [of n] by (cases "n < 6") (simp_all add: bit_take_bit_iff)
  qed
  then have "unat w = take_bit 6 (unat w)" by (metis unsigned_take_bit_eq)
  then have "unat w < 64" using take_bit_nat_less_exp [of 6 "unat w"] by simp
  then show ?thesis by (simp add: word_less_nat_alt)
qed

text \<open>The four values of a group, as the encoder computes them.\<close>

definition sextets :: "char \<Rightarrow> char \<Rightarrow> char \<Rightarrow> 32 word list" where
  "sextets c0 c1 c2 =
     [drop_bit 2 (u32 c0), push_bit 4 (u32 c0 AND 0x03) OR drop_bit 4 (u32 c1),
      push_bit 2 (u32 c1 AND 0x0F) OR drop_bit 6 (u32 c2), u32 c2 AND 0x3F]"

text \<open>The bits of the masks, where they stand after shifting.\<close>

lemma bit_masks:
  "bit (63 :: int) n \<longleftrightarrow> n < 6" "bit (48 :: int) n \<longleftrightarrow> 4 \<le> n \<and> n < 6" "bit (60 :: int) n \<longleftrightarrow> 2 \<le> n \<and> n < 6"
proof -
  have "(63 :: int) = mask 6" "(48 :: int) = push_bit 4 (mask 2)" "(60 :: int) = push_bit 2 (mask 4)"
    by (simp_all add: mask_eq_exp_minus_1)
  then show "bit (63 :: int) n \<longleftrightarrow> n < 6" "bit (48 :: int) n \<longleftrightarrow> 4 \<le> n \<and> n < 6"
    "bit (60 :: int) n \<longleftrightarrow> 2 \<le> n \<and> n < 6"
    by (simp_all only: bit_push_bit_iff bit_mask_iff) auto
qed

lemma sextets_below_64: "list_all (\<lambda>w. w < 64) (sextets c0 c1 c2)"
proof -
  have "drop_bit 2 (u32 c0) < 64" "push_bit 4 (u32 c0 AND 0x03) OR drop_bit 4 (u32 c1) < 64"
    "push_bit 2 (u32 c1 AND 0x0F) OR drop_bit 6 (u32 c2) < 64" "u32 c2 AND 0x3F < 64"
    by (rule below_64, auto simp: bit_simps bit_masks)+
  then show ?thesis by (simp add: sextets_def)
qed

lemma group_bytes:
  "low_byte (drop_bit 16 (push_bit 6 (push_bit 6 (push_bit 6 (drop_bit 2 (u32 c0)) OR
       (push_bit 4 (u32 c0 AND 0x03) OR drop_bit 4 (u32 c1))) OR
     (push_bit 2 (u32 c1 AND 0x0F) OR drop_bit 6 (u32 c2))) OR (u32 c2 AND 0x3F))) = c0"
  "low_byte (drop_bit 8 (push_bit 6 (push_bit 6 (push_bit 6 (drop_bit 2 (u32 c0)) OR
       (push_bit 4 (u32 c0 AND 0x03) OR drop_bit 4 (u32 c1))) OR
     (push_bit 2 (u32 c1 AND 0x0F) OR drop_bit 6 (u32 c2))) OR (u32 c2 AND 0x3F))) = c1"
  "low_byte (push_bit 6 (push_bit 6 (push_bit 6 (drop_bit 2 (u32 c0)) OR
       (push_bit 4 (u32 c0 AND 0x03) OR drop_bit 4 (u32 c1))) OR
     (push_bit 2 (u32 c1 AND 0x0F) OR drop_bit 6 (u32 c2))) OR (u32 c2 AND 0x3F)) = c2"
  by (rule low_byte_eqI, (simp add: bit_simps; simp add: eval_nat_numeral)?)+

lemma tail_bytes:
  "low_byte (drop_bit 4 (push_bit 6 (drop_bit 2 (u32 c0)) OR push_bit 4 (u32 c0 AND 0x03))) = c0"
  "low_byte (drop_bit 10 (push_bit 6 (push_bit 6 (drop_bit 2 (u32 c0)) OR
      (push_bit 4 (u32 c0 AND 0x03) OR drop_bit 4 (u32 c1))) OR push_bit 2 (u32 c1 AND 0x0F))) = c0"
  "low_byte (drop_bit 2 (push_bit 6 (push_bit 6 (drop_bit 2 (u32 c0)) OR
      (push_bit 4 (u32 c0 AND 0x03) OR drop_bit 4 (u32 c1))) OR push_bit 2 (u32 c1 AND 0x0F))) = c1"
  by (rule low_byte_eqI, (simp add: bit_simps; simp add: eval_nat_numeral)?)+

lemma tail_below_64:
  "push_bit 4 (u32 c0 AND 0x03) < 64" "push_bit 2 (u32 c1 AND 0x0F) < 64"
  by (rule below_64, auto simp: bit_simps bit_masks)+

lemma decode_digit:
  "w < 64 \<Longrightarrow> \<not> padding st \<Longrightarrow> decode_loop (digit w # cs) st = decode_loop cs (accept_digit (uint w) st)"
  by (simp add: classify_digit)

lemma classify_equals [simp]: "classify CHR ''='' = Padding"
  by (simp add: classify_def)

lemma decode_digits:
  assumes "digits st = 0" "bits st = 0" "\<not> padding st" "w0 < 64" "w1 < 64"
  shows "decode_loop [digit w0, digit w1] st = Some (st\<lparr>bits := push_bit 6 w0 OR w1, digits := 2\<rparr>)"
    and "w2 < 64 \<Longrightarrow> decode_loop [digit w0, digit w1, digit w2] st =
      Some (st\<lparr>bits := push_bit 6 (push_bit 6 w0 OR w1) OR w2, digits := 3\<rparr>)"
    and "w2 < 64 \<Longrightarrow> w3 < 64 \<Longrightarrow> decode_loop [digit w0, digit w1, digit w2, digit w3] st =
      Some (let acc = push_bit 6 (push_bit 6 (push_bit 6 w0 OR w1) OR w2) OR w3
        in st\<lparr>result := result st @ [low_byte (drop_bit 16 acc), low_byte (drop_bit 8 acc), low_byte acc]\<rparr>)"
  using assms by (simp_all add: decode_digit accept_digit_def Let_def del: decode_loop.simps(2))

lemma decode_loop_append:
  "decode_loop (s @ t) st = Option.bind (decode_loop s st) (decode_loop t)"
  by (induction s arbitrary: st) (auto split: char_class.splits)

lemma decode_group:
  assumes "digits st = 0" "bits st = 0" "\<not> padding st"
  shows "decode_loop (map digit (sextets c0 c1 c2) @ cs) st = decode_loop cs (st\<lparr>result := result st @ [c0, c1, c2]\<rparr>)"
proof -
  note below = sextets_below_64 [of c0 c1 c2, unfolded sextets_def list_all_iff list.set ball_simps]
  show ?thesis
    unfolding decode_loop_append sextets_def list.map
    using decode_digits(3) [OF assms below [THEN conjunct1]] below
    by (simp only: group_bytes Let_def bind.bind_lunit)
qed

lemma finish_tail:
  "Option.bind (decode_loop ''=='' (st\<lparr>bits := b, digits := 2\<rparr>)) finish_decode =
    Some (result st @ [low_byte (drop_bit 4 b)])"
  "Option.bind (decode_loop ''='' (st\<lparr>bits := b, digits := 3\<rparr>)) finish_decode =
    Some (result st @ [low_byte (drop_bit 10 b), low_byte (drop_bit 2 b)])"
  by (simp_all add: finish_decode_def)

lemma decode_encoded:
  "\<not> padding st \<Longrightarrow> digits st = 0 \<Longrightarrow> bits st = 0 \<Longrightarrow>
    Option.bind (decode_loop (base64_encode d) st) finish_decode = Some (result st @ d)"
proof (induction d arbitrary: st rule: base64_encode.induct)
  case (1 c0 c1 c2 cs)
  have "base64_encode (c0 # c1 # c2 # cs) = map digit (sextets c0 c1 c2) @ base64_encode cs"
    by (simp only: base64_encode.simps sextets_def list.map append.simps)
  then show ?case
    using decode_group [OF 1(3,4,2)] 1(1) [of "st\<lparr>result := result st @ [c0, c1, c2]\<rparr>"] 1(2-4)
    by (simp del: base64_encode.simps(1))
next
  case (2 c0)
  note below = sextets_below_64 [of c0 c0 c0, unfolded sextets_def list_all_iff list.set ball_simps]
  have "base64_encode [c0] =
      [digit (drop_bit 2 (u32 c0)), digit (push_bit 4 (u32 c0 AND 0x03))] @ ''==''"
    by (simp only: base64_encode.simps append.simps)
  then show ?case
    using decode_digits(1) [OF 2(2,3,1) below [THEN conjunct1] tail_below_64(1)]
    by (simp only: decode_loop_append bind.bind_lunit finish_tail tail_bytes)
next
  case (3 c0 c1)
  note below = sextets_below_64 [of c0 c1 c1, unfolded sextets_def list_all_iff list.set ball_simps]
  have "base64_encode [c0, c1] =
      [digit (drop_bit 2 (u32 c0)), digit (push_bit 4 (u32 c0 AND 0x03) OR drop_bit 4 (u32 c1)),
       digit (push_bit 2 (u32 c1 AND 0x0F))] @ ''=''"
    by (simp only: base64_encode.simps append.simps)
  then show ?case
    using decode_digits(2) [OF 3(2,3,1) below [THEN conjunct1] below [THEN conjunct2, THEN conjunct1]
        tail_below_64(2)]
    by (simp only: decode_loop_append bind.bind_lunit finish_tail tail_bytes)
next
  case 4
  then show ?case by (simp add: finish_decode_def)
qed

abbreviation is_space :: "char \<Rightarrow> bool" where
  "is_space c \<equiv> classify c = Whitespace"

lemma decode_skips_space: "decode_loop (filter (\<lambda>c. \<not> is_space c) s) st = decode_loop s st"
  by (induction s arbitrary: st) (auto split: char_class.splits)

lemma decode_loop_padding:
  "decode_loop (replicate n (CHR ''='')) st = Some (if n = 0 then st else st\<lparr>padding := True\<rparr>)"
  by (induction n arbitrary: st) auto

definition is_digit :: "char \<Rightarrow> bool" where
  "is_digit c \<longleftrightarrow> (case classify c of Digit _ \<Rightarrow> True | _ \<Rightarrow> False)"

text \<open>A digit behind padding, or a character that is none of the four kinds.\<close>

fun misplaced :: "bool \<Rightarrow> bytes \<Rightarrow> bool" where
  "misplaced p [] \<longleftrightarrow> False"
| "misplaced p (c # cs) \<longleftrightarrow>
     (case classify c of Unknown \<Rightarrow> True | Digit _ \<Rightarrow> p \<or> misplaced p cs
      | Padding \<Rightarrow> misplaced True cs | Whitespace \<Rightarrow> misplaced p cs)"

lemma misplaced_iff:
  "misplaced p s \<longleftrightarrow> (\<exists>c\<in>set s. classify c = Unknown) \<or> (p \<and> (\<exists>c\<in>set s. is_digit c)) \<or>
     (\<exists>a b. s = a @ CHR ''='' # b \<and> (\<exists>c\<in>set b. is_digit c))"
proof (induction s arbitrary: p)
  case (Cons c s)
  have eq: "classify c = Padding \<longleftrightarrow> c = CHR ''=''"
    by (auto simp: classify_def)
  have "(\<exists>a b. c # s = a @ CHR ''='' # b \<and> (\<exists>x\<in>set b. is_digit x)) \<longleftrightarrow>
      (c = CHR ''='' \<and> (\<exists>x\<in>set s. is_digit x)) \<or> (\<exists>a b. s = a @ CHR ''='' # b \<and> (\<exists>x\<in>set b. is_digit x))"
    (is "?L \<longleftrightarrow> ?R")
  proof
    assume ?L
    then show ?R by (auto simp: Cons_eq_append_conv)
  next
    assume ?R
    then show ?L by (metis append_Cons append_Nil)
  qed
  with Cons eq show ?case
    by (cases "classify c") (auto simp: is_digit_def)
qed simp

lemma decode_loop_None: "decode_loop s st = None \<longleftrightarrow> misplaced (padding st) s"
  by (induction s arbitrary: st) (auto simp: accept_digit_def Let_def split: char_class.splits)

lemma decode_loop_digits:
  "decode_loop s st = Some st' \<Longrightarrow> digits st < 4 \<Longrightarrow> digits st' = (digits st + length (filter is_digit s)) mod 4"
proof (induction s arbitrary: st)
  case (Cons c s)
  show ?case
  proof (cases "classify c")
    case (Digit v)
    then have "decode_loop s (accept_digit v st) = Some st'" "digits (accept_digit v st) = (digits st + 1) mod 4"
      using Cons.prems by (auto simp: accept_digit_def Let_def split: if_splits)
    then show ?thesis using Cons.IH [of "accept_digit v st"] Digit by (simp add: is_digit_def mod_simps)
  qed (use Cons in \<open>auto simp: is_digit_def\<close>)
qed simp

section \<open>The properties\<close>

text \<open>
  Every byte string survives encoding and decoding, wherever whitespace was inserted
  between; the encoding has four characters for every three bytes begun.
\<close>

theorem base64_round_trip:
  assumes "filter (\<lambda>c. \<not> is_space c) s = base64_encode d"
  shows "base64_decode s = Some d \<and> length (base64_encode d) = 4 * ((length d + 2) div 3)"
proof -
  have "length (base64_encode d) = 4 * ((length d + 2) div 3)"
  proof (induction d rule: base64_encode.induct)
    case (1 c0 c1 c2 cs)
    have "(length (c0 # c1 # c2 # cs) + 2) div 3 = (length cs + 2) div 3 + 1" by simp
    with 1 show ?case by (simp only: base64_encode.simps list.size distrib_left)
  qed simp_all
  moreover have "base64_decode s = Some d"
    using decode_skips_space [of s] decode_encoded [where d = d] assms
    by (simp add: base64_decode_def flip: decode_skips_space [of s])
  ultimately show ?thesis by simp
qed

theorem base64_round_trip_witness:
  "base64_decode ''aG k='' = Some ''hi'' \<and> length (base64_encode ''hi'') = 4 * ((length ''hi'' + 2) div 3)"
proof (rule base64_round_trip)
  show "filter (\<lambda>c. \<not> is_space c) ''aG k='' = base64_encode ''hi''"
    by (simp add: classify_def digit_def kAlphabet_def)
qed

text \<open>
  Exactly which texts the decoder refuses: those with a character that is no digit, padding or
  whitespace, or a digit after padding, or one digit more than whole groups.  How much padding
  there is never matters, although the header asks for RFC 4648 with padding.
\<close>

lemma padding_is_not_counted:
  "(base64_decode s = None \<longleftrightarrow>
      (\<exists>c\<in>set s. classify c = Unknown) \<or>
      (\<exists>a b. s = a @ CHR ''='' # b \<and> (\<exists>c\<in>set b. is_digit c)) \<or>
      length (filter is_digit s) mod 4 = 1) \<and>
    base64_decode (s @ replicate n (CHR ''='')) = base64_decode s"
proof
  define st where "st = \<lparr>result = [], bits = 0, digits = 0, padding = False\<rparr>"
  have None: "decode_loop s st = None \<longleftrightarrow> (\<exists>c\<in>set s. classify c = Unknown) \<or>
      (\<exists>a b. s = a @ CHR ''='' # b \<and> (\<exists>c\<in>set b. is_digit c))"
    by (simp add: decode_loop_None misplaced_iff st_def)
  have "finish_decode st' = None \<longleftrightarrow> length (filter is_digit s) mod 4 = 1" if "decode_loop s st = Some st'" for st'
    using decode_loop_digits [OF that] by (simp add: st_def finish_decode_def)
  then show "base64_decode s = None \<longleftrightarrow>
      (\<exists>c\<in>set s. classify c = Unknown) \<or>
      (\<exists>a b. s = a @ CHR ''='' # b \<and> (\<exists>c\<in>set b. is_digit c)) \<or>
      length (filter is_digit s) mod 4 = 1"
    using None decode_loop_digits
    by (cases "decode_loop s st") (auto simp: base64_decode_def st_def [symmetric])
  have "finish_decode (x\<lparr>padding := True\<rparr>) = finish_decode x" for x
    by (simp add: finish_decode_def)
  then show "base64_decode (s @ replicate n (CHR ''='')) = base64_decode s"
    by (cases "decode_loop s st")
      (simp_all add: base64_decode_def st_def [symmetric] decode_loop_append decode_loop_padding)
qed

text \<open>
  C24: what the encoder writes, however whitespace breaks it up, decodes to the bytes it encodes;
  and a text with a character that is no digit, padding or whitespace, with a digit after padding,
  or with one digit more than whole groups, is refused.
\<close>

theorem base64_decode_answers:
  "(filter (\<lambda>c. \<not> is_space c) s = base64_encode d \<longrightarrow> base64_decode s = Some d) \<and>
    ((\<exists>c\<in>set s. classify c = Unknown) \<or>
      (\<exists>a b. s = a @ CHR ''='' # b \<and> (\<exists>c\<in>set b. is_digit c)) \<or>
      length (filter is_digit s) mod 4 = 1 \<longrightarrow> base64_decode s = None)"
proof (intro conjI impI)
  show "filter (\<lambda>c. \<not> is_space c) s = base64_encode d \<Longrightarrow> base64_decode s = Some d"
    by (rule conjunct1 [OF base64_round_trip])
next
  show "(\<exists>c\<in>set s. classify c = Unknown) \<or> (\<exists>a b. s = a @ CHR ''='' # b \<and> (\<exists>c\<in>set b. is_digit c)) \<or>
      length (filter is_digit s) mod 4 = 1 \<Longrightarrow> base64_decode s = None"
    by (rule iffD2 [OF conjunct1 [OF padding_is_not_counted]])
qed

theorem base64_decode_answers_witness:
  "base64_decode ''aG k='' = Some ''hi'' \<and> base64_decode ''aG!k='' = None \<and> base64_decode ''aGk=a'' = None \<and>
    base64_decode ''aGkaa'' = None"
proof -
  have "filter (\<lambda>c. \<not> is_space c) ''aG k='' = base64_encode ''hi''"
    by (simp add: classify_def digit_def kAlphabet_def)
  then have "base64_decode ''aG k='' = Some ''hi''" using base64_decode_answers by blast
  moreover have "\<exists>c \<in> set ''aG!k=''. classify c = Unknown" by (simp add: classify_def)
  then have "base64_decode ''aG!k='' = None" using base64_decode_answers by blast
  moreover have "''aGk=a'' = ''aGk'' @ CHR ''='' # ''a''" "is_digit (CHR ''a'')" by (simp_all add: is_digit_def classify_def)
  then have "base64_decode ''aGk=a'' = None"
    using base64_decode_answers [of "''aGk=a''"] by (metis list.set_intros(1))
  moreover have "length (filter is_digit ''aGkaa'') mod 4 = 1" by (simp add: is_digit_def classify_def)
  then have "base64_decode ''aGkaa'' = None" using base64_decode_answers by blast
  ultimately show ?thesis by blast
qed

end
