(* ===== verification/EditDistance.thy ===== *)
theory EditDistance
  imports Main
begin

text \<open>
  The grid a line diff searches: a point \<open>(x, y)\<close> stands for \<open>x\<close> lines of one text and
  \<open>y\<close> of the other, a step right or down is an edit, a diagonal step a matching pair
  \<open>S x y\<close>.

  \<open>to_go\<close> is the least number of edits from a point to the far corner, \<open>reach\<close> the points
  within a number of edits of the near corner.  The lemmas here are about the grid alone;
  \<open>LineDiff\<close> uses them for the search of \<open>Source/Text/LineDiff.cpp\<close>, once as they stand
  and once for the grid turned around.
\<close>

section \<open>The distance to the far corner\<close>

type_synonym grid = "int \<Rightarrow> int \<Rightarrow> bool"

function to_go :: "int \<Rightarrow> int \<Rightarrow> grid \<Rightarrow> int \<Rightarrow> int \<Rightarrow> int" where
  "to_go n m S x y =
     (if x < n \<and> y < m then
        (let edited = 1 + min (to_go n m S (x + 1) y) (to_go n m S x (y + 1))
         in if S x y then min edited (to_go n m S (x + 1) (y + 1)) else edited)
      else if x < n then n - x
      else if y < m then m - y
      else 0)"
  by pat_completeness auto
termination by (relation "measure (\<lambda>(n, m, S, x, y). nat (n - x) + nat (m - y))") auto

declare to_go.simps [simp del]

lemma to_go_edges [simp]:
  "n \<le> x \<Longrightarrow> y \<le> m \<Longrightarrow> to_go n m S x y = m - y"
  "m \<le> y \<Longrightarrow> x \<le> n \<Longrightarrow> to_go n m S x y = n - x"
  by (subst to_go.simps; simp)+

lemma to_go_nonneg: "0 \<le> to_go n m S x y"
  by (induction n m S x y rule: to_go.induct) (subst to_go.simps; simp add: Let_def)

text \<open>One edit changes the distance by at most one.\<close>

lemma to_go_right_le: "x < n \<Longrightarrow> y \<le> m \<Longrightarrow> to_go n m S x y \<le> 1 + to_go n m S (x + 1) y"
  by (cases "y = m") (simp, subst (1) to_go.simps, simp add: Let_def min_le_iff_disj)

lemma to_go_down_le: "x \<le> n \<Longrightarrow> y < m \<Longrightarrow> to_go n m S x y \<le> 1 + to_go n m S x (y + 1)"
  by (cases "x = n") (simp, subst (1) to_go.simps, simp add: Let_def min_le_iff_disj)

lemma to_go_right_ge: "x < n \<Longrightarrow> y \<le> m \<Longrightarrow> to_go n m S (x + 1) y \<le> 1 + to_go n m S x y"
proof (induction n m S x y rule: to_go.induct)
  case (1 n m S x y)
  show ?case
  proof (cases "y < m")
    case True
    have "to_go n m S (x + 1) y \<le> 1 + to_go n m S (x + 1) (y + 1)"
      using to_go_down_le [of "x + 1" n y m S] True 1(4) by simp
    moreover have "to_go n m S (x + 1) (y + 1) \<le> 1 + to_go n m S x (y + 1)"
      using 1(2) True 1(4) by simp
    ultimately show ?thesis
      using True 1(4) by (subst (2) to_go.simps) (auto simp: Let_def min_def)
  qed (use 1(4,5) in simp)
qed

lemma to_go_down_ge: "x \<le> n \<Longrightarrow> y < m \<Longrightarrow> to_go n m S x (y + 1) \<le> 1 + to_go n m S x y"
proof (induction n m S x y rule: to_go.induct)
  case (1 n m S x y)
  show ?case
  proof (cases "x < n")
    case True
    have "to_go n m S x (y + 1) \<le> 1 + to_go n m S (x + 1) (y + 1)"
      using to_go_right_le [of x n "y + 1" m S] True 1(5) by simp
    moreover have "to_go n m S (x + 1) (y + 1) \<le> 1 + to_go n m S (x + 1) y"
      using 1(1) True 1(5) by simp
    ultimately show ?thesis
      using True 1(5) by (subst (2) to_go.simps) (auto simp: Let_def min_def)
  qed (use 1(4,5) in simp)
qed

text \<open>The distance never grows along a diagonal, so taking a match is never a mistake.\<close>

lemma to_go_diagonal_le: "x < n \<Longrightarrow> y < m \<Longrightarrow> to_go n m S (x + 1) (y + 1) \<le> to_go n m S x y"
  using to_go_right_ge [of x n "y + 1" m S] to_go_down_ge [of "x + 1" n y m S]
  by (subst (2) to_go.simps) (auto simp: Let_def min_def)

lemma to_go_match: "x < n \<Longrightarrow> y < m \<Longrightarrow> S x y \<Longrightarrow> to_go n m S x y = to_go n m S (x + 1) (y + 1)"
  using to_go_diagonal_le [of x n y m S] to_go_right_ge [of x n "y + 1" m S] to_go_down_ge [of "x + 1" n y m S]
  by (subst (1) to_go.simps) (auto simp: Let_def min_def)

lemma to_go_mismatch:
  "x < n \<Longrightarrow> y < m \<Longrightarrow> \<not> S x y \<Longrightarrow>
    to_go n m S x y = 1 + min (to_go n m S (x + 1) y) (to_go n m S x (y + 1))"
  by (subst (1) to_go.simps) (simp add: Let_def)

lemma to_go_along_diagonal:
  assumes "0 \<le> t" "x + t \<le> n" "y + t \<le> m"
  shows "to_go n m S (x + t) (y + t) \<le> to_go n m S x y"
  using assms
proof (induction t rule: int_ge_induct)
  case (step t)
  then show ?case using to_go_diagonal_le [of "x + t" n "y + t" m S] by (simp add: algebra_simps)
qed simp

lemma to_go_ge_shift: "x \<le> n \<Longrightarrow> y \<le> m \<Longrightarrow> \<bar>(n - m) - (x - y)\<bar> \<le> to_go n m S x y"
proof (induction n m S x y rule: to_go.induct)
  case (1 n m S x y)
  show ?case
  proof (cases "x < n \<and> y < m")
    case True
    then show ?thesis
      using 1(1,2) 1(3)
      by (subst to_go.simps) (auto simp: Let_def abs_le_iff min_def)
  qed (use 1(4,5) in auto)
qed

lemma to_go_le_all: "x \<le> n \<Longrightarrow> y \<le> m \<Longrightarrow> to_go n m S x y \<le> (n - x) + (m - y)"
proof (induction n m S x y rule: to_go.induct)
  case (1 n m S x y)
  show ?case
  proof (cases "x < n \<and> y < m")
    case True
    then show ?thesis using 1(1) to_go_right_le [of x n y m S] by auto
  qed (use 1(4,5) in auto)
qed

section \<open>The points within a number of edits\<close>

inductive reach :: "int \<Rightarrow> int \<Rightarrow> grid \<Rightarrow> int \<Rightarrow> int \<Rightarrow> int \<Rightarrow> bool"
  for n m :: int and S :: grid where
  reach_start: "reach n m S 0 0 0"
| reach_later: "reach n m S d x y \<Longrightarrow> reach n m S (d + 1) x y"
| reach_right: "reach n m S d x y \<Longrightarrow> x < n \<Longrightarrow> reach n m S (d + 1) (x + 1) y"
| reach_down: "reach n m S d x y \<Longrightarrow> y < m \<Longrightarrow> reach n m S (d + 1) x (y + 1)"
| reach_match: "reach n m S d x y \<Longrightarrow> x < n \<Longrightarrow> y < m \<Longrightarrow> S x y \<Longrightarrow> reach n m S d (x + 1) (y + 1)"

lemma reach_bounds:
  assumes "reach n m S d x y" "0 \<le> n" "0 \<le> m"
  shows "0 \<le> x" "x \<le> n" "0 \<le> y" "y \<le> m" "\<bar>x - y\<bar> \<le> d" "0 \<le> d"
  using assms by (induction rule: reach.induct) auto

lemma reach_mono: "reach n m S d x y \<Longrightarrow> d \<le> e \<Longrightarrow> reach n m S e x y"
proof -
  assume r: "reach n m S d x y" and "d \<le> e"
  from \<open>d \<le> e\<close> show ?thesis by (induction e rule: int_ge_induct) (auto intro: r reach_later)
qed

lemma reach_to_go:
  assumes "reach n m S d x y" "0 \<le> n" "0 \<le> m"
  shows "to_go n m S 0 0 \<le> d + to_go n m S x y"
  using assms
proof (induction rule: reach.induct)
  case (reach_right d x y)
  then show ?case using to_go_right_le [of x n y m S] reach_bounds(4) [OF reach_right(1)] by simp
next
  case (reach_down d x y)
  then show ?case using to_go_down_le [of x n y m S] reach_bounds(2) [OF reach_down(1)] by simp
qed (auto simp: to_go_match)

text \<open>The same grid, walked from its far corner.\<close>

definition turned :: "int \<Rightarrow> int \<Rightarrow> grid \<Rightarrow> grid" where
  "turned n m S = (\<lambda>x y. S (n - 1 - x) (m - 1 - y))"

lemma turned_turned [simp]: "turned n m (turned n m S) = S"
  by (simp add: turned_def)

lemma reach_turned_to_go:
  assumes "reach n m (turned n m S) d x y" "0 \<le> n" "0 \<le> m"
  shows "to_go n m S (n - x) (m - y) \<le> d"
  using assms
proof (induction rule: reach.induct)
  case (reach_right d x y)
  then show ?case
    using to_go_right_le [of "n - (x + 1)" n "m - y" m S] reach_bounds(3) [OF reach_right(1)]
      reach_bounds(1) [OF reach_right(1)] by (simp add: algebra_simps)
next
  case (reach_down d x y)
  then show ?case
    using to_go_down_le [of "n - x" n "m - (y + 1)" m S] reach_bounds(1) [OF reach_down(1)]
      reach_bounds(3) [OF reach_down(1)] by (simp add: algebra_simps)
next
  case (reach_match d x y)
  then show ?case
    using to_go_match [of "n - (x + 1)" n "m - (y + 1)" m S] reach_bounds(1,3) [OF reach_match(1)]
    by (simp add: turned_def algebra_simps)
qed auto

lemma to_go_reach_turned:
  "0 \<le> x \<Longrightarrow> 0 \<le> y \<Longrightarrow> x \<le> n \<Longrightarrow> y \<le> m \<Longrightarrow>
     reach n m (turned n m S) (to_go n m S x y) (n - x) (m - y)"
proof (induction n m S x y rule: to_go.induct)
  case (1 n m S x y)
  note right = reach_right [of n m "turned n m S" _ "n - (x + 1)" "m - y"]
  note down = reach_down [of n m "turned n m S" _ "n - x" "m - (y + 1)"]
  consider "x < n" "y < m" "S x y" | "x < n" "y < m" "\<not> S x y" | "x < n" "y = m" | "x = n" "y < m" | "x = n" "y = m"
    using 1(4-7) by linarith
  then show ?case
  proof cases
    case a: 1
    then show ?thesis
      using 1(3)[OF _ refl] 1(4,5) to_go_match [of x n y m S]
        reach_match [of n m "turned n m S" "to_go n m S x y" "n - (x + 1)" "m - (y + 1)"]
      by (simp add: turned_def)
  next
    case 2
    have "reach n m (turned n m S) (to_go n m S (x + 1) y + 1) (n - x) (m - y)"
      "reach n m (turned n m S) (to_go n m S x (y + 1) + 1) (n - x) (m - y)"
      using 2 1(1,2,4,5) right [of "to_go n m S (x + 1) y"] down [of "to_go n m S x (y + 1)"] by simp_all
    then show ?thesis using 2 by (simp add: to_go_mismatch min_def add.commute)
  next
    case 3
    have "reach n m (turned n m S) t t 0" if "0 \<le> t" "t \<le> n" for t
      using that
    proof (induction t rule: int_ge_induct)
      case (step t)
      then show ?case using EditDistance.reach_right [of n m "turned n m S" t t 0] by simp
    qed (rule reach_start)
    with 3 1(4) show ?thesis by simp
  next
    case 4
    have "reach n m (turned n m S) t 0 t" if "0 \<le> t" "t \<le> m" for t
      using that
    proof (induction t rule: int_ge_induct)
      case (step t)
      then show ?case using EditDistance.reach_down [of n m "turned n m S" t 0 t] by simp
    qed (rule reach_start)
    with 4 1(5) show ?thesis by simp
  next
    case 5
    then show ?thesis by (simp add: reach_start)
  qed
qed

lemma to_go_turned:
  assumes "0 \<le> n" "0 \<le> m"
  shows "to_go n m (turned n m S) 0 0 = to_go n m S 0 0"
proof -
  have "to_go n m (turned n m S) 0 0 \<le> to_go n m S 0 0" for S
    using reach_to_go [OF to_go_reach_turned [of 0 0 n m S]] assms by simp
  from this [of S] this [of "turned n m S"] show ?thesis by simp
qed

section \<open>Optimal points\<close>

text \<open>Points that a shortest path passes after \<open>d\<close> edits.\<close>

definition optimal :: "int \<Rightarrow> int \<Rightarrow> grid \<Rightarrow> int \<Rightarrow> int \<Rightarrow> int \<Rightarrow> bool" where
  "optimal n m S d x y \<longleftrightarrow> reach n m S d x y \<and> to_go n m S x y = to_go n m S 0 0 - d"

lemma optimal_turned:
  assumes "optimal n m S d x y" "0 \<le> n" "0 \<le> m"
  shows "optimal n m (turned n m S) (to_go n m S 0 0 - d) (n - x) (m - y)"
proof -
  have r: "reach n m S d x y" "to_go n m S x y = to_go n m S 0 0 - d"
    using assms(1) by (simp_all add: optimal_def)
  note b = reach_bounds [OF r(1) assms(2,3)]
  have "reach n m (turned n m S) (to_go n m S 0 0 - d) (n - x) (m - y)"
    using to_go_reach_turned [of x y n m S] b r(2) by simp
  moreover have "to_go n m (turned n m S) (n - x) (m - y) \<le> d"
    using reach_turned_to_go [of n m "turned n m S" d x y] r(1) assms(2,3) by simp
  ultimately show ?thesis
    using reach_to_go [of n m "turned n m S" "to_go n m S 0 0 - d" "n - x" "m - y"] assms(2,3)
    by (simp add: optimal_def to_go_turned)
qed

lemma optimal_next:
  "reach n m S d x y \<Longrightarrow> 0 \<le> n \<Longrightarrow> 0 \<le> m \<Longrightarrow> to_go n m S x y = r \<Longrightarrow> 0 < r \<Longrightarrow>
    \<exists>x' y'. reach n m S (d + 1) x' y' \<and> to_go n m S x' y' = r - 1"
proof (induction n m S x y rule: to_go.induct)
  case (1 n m S x y)
  note b = reach_bounds [OF 1(4-6)]
  consider "x < n" "y < m" "S x y" | "x < n" "y < m" "\<not> S x y" | "x < n" "y = m" | "x = n" "y < m"
    using b 1(7,8) by fastforce
  then show ?case
  proof cases
    case a: 1
    then show ?thesis
      using 1(3) [OF _ refl] 1(4-8) reach_match [of n m S d x y] to_go_match [of x n y m S] by auto
  next
    case 2
    then have "to_go n m S (x + 1) y = r - 1 \<or> to_go n m S x (y + 1) = r - 1"
      using 1(7) to_go_mismatch [of x n y m S] by (auto simp: min_def split: if_splits)
    then show ?thesis using reach_right [OF 1(4)] reach_down [OF 1(4)] 2 by blast
  next
    case 3
    then show ?thesis using reach_right [OF 1(4)] 1(7) by (intro exI [of _ "x + 1"] exI [of _ y]) auto
  next
    case 4
    then show ?thesis using reach_down [OF 1(4)] 1(7) by (intro exI [of _ x] exI [of _ "y + 1"]) auto
  qed
qed

lemma optimal_exists:
  assumes "0 \<le> n" "0 \<le> m" "0 \<le> d" "d \<le> to_go n m S 0 0"
  shows "\<exists>x y. optimal n m S d x y"
  using assms(3,4)
proof (induction d rule: int_ge_induct)
  case base
  then show ?case using reach_start by (intro exI [of _ 0]) (simp add: optimal_def)
next
  case (step d)
  then obtain x y where "optimal n m S d x y" by auto
  then show ?case
    using optimal_next [of n m S d x y "to_go n m S 0 0 - d"] assms(1,2) step.prems
    by (auto simp: optimal_def algebra_simps)
qed

text \<open>How a shortest path came to an optimal point.\<close>

lemma optimal_induct [consumes 3, case_names start right down match]:
  assumes "optimal n m S d x y" "0 \<le> n" "0 \<le> m"
    and "P 0 0 0"
    and "\<And>d x y. optimal n m S d x y \<Longrightarrow> P d x y \<Longrightarrow> x < n \<Longrightarrow> optimal n m S (d + 1) (x + 1) y \<Longrightarrow> P (d + 1) (x + 1) y"
    and "\<And>d x y. optimal n m S d x y \<Longrightarrow> P d x y \<Longrightarrow> y < m \<Longrightarrow> optimal n m S (d + 1) x (y + 1) \<Longrightarrow> P (d + 1) x (y + 1)"
    and "\<And>d x y. optimal n m S d x y \<Longrightarrow> P d x y \<Longrightarrow> x < n \<Longrightarrow> y < m \<Longrightarrow> S x y \<Longrightarrow> P d (x + 1) (y + 1)"
  shows "P d x y"
proof -
  have "reach n m S d x y" "to_go n m S x y = to_go n m S 0 0 - d"
    using assms(1) by (simp_all add: optimal_def)
  then show ?thesis
  proof (induction rule: reach.induct)
    case reach_start
    show ?case by (rule assms(4))
  next
    case (reach_later d x y)
    then show ?case using reach_to_go [OF reach_later(1) assms(2,3)] by simp
  next
    case (reach_right d x y)
    have "to_go n m S x y = to_go n m S 0 0 - d"
      using reach_to_go [OF reach_right(1) assms(2,3)] reach_right(2,4)
        to_go_right_le [of x n y m S] reach_bounds(4) [OF reach_right(1) assms(2,3)] by simp
    then show ?case
      using reach_right EditDistance.reach_right [of n m S d x y] assms(5) [of d x y] by (simp add: optimal_def)
  next
    case (reach_down d x y)
    have "to_go n m S x y = to_go n m S 0 0 - d"
      using reach_to_go [OF reach_down(1) assms(2,3)] reach_down(2,4)
        to_go_down_le [of x n y m S] reach_bounds(2) [OF reach_down(1) assms(2,3)] by simp
    then show ?case
      using reach_down EditDistance.reach_down [of n m S d x y] assms(6) [of d x y] by (simp add: optimal_def)
  next
    case (reach_match d x y)
    then show ?case using assms(7) [of d x y] by (simp add: optimal_def to_go_match)
  qed
qed

section \<open>Points outside the grid\<close>

text \<open>
  The search also walks past the far edges.  What it knows of a point at cost \<open>e\<close>: inside the
  grid the point is within \<open>e\<close> edits, and anywhere the whole distance is bounded by \<open>e\<close> plus
  the signed way left to the corner.
\<close>

definition within :: "int \<Rightarrow> int \<Rightarrow> grid \<Rightarrow> int \<Rightarrow> int \<Rightarrow> int \<Rightarrow> bool" where
  "within n m S e x y \<longleftrightarrow> 0 \<le> x \<and> 0 \<le> y \<and> (x \<le> n \<and> y \<le> m \<longrightarrow> reach n m S e x y) \<and>
     to_go n m S 0 0 \<le> e + (n - x) + (m - y)"

lemma within_start: "0 \<le> n \<Longrightarrow> 0 \<le> m \<Longrightarrow> within n m S 0 0 0"
  using to_go_le_all [of 0 n 0 m S] by (simp add: within_def reach_start)

lemma within_mono: "within n m S d x y \<Longrightarrow> d \<le> e \<Longrightarrow> within n m S e x y"
  by (auto simp: within_def intro: reach_mono)

lemma within_right: "within n m S e x y \<Longrightarrow> within n m S (e + 1) (x + 1) y"
  by (auto simp: within_def intro: reach_right)

lemma within_down: "within n m S e x y \<Longrightarrow> within n m S (e + 1) x (y + 1)"
  by (auto simp: within_def intro: reach_down)

lemma within_match:
  assumes "within n m S e x y" "x < n" "y < m" "S x y" "0 \<le> n" "0 \<le> m"
  shows "within n m S e (x + 1) (y + 1)"
proof -
  have r: "reach n m S e (x + 1) (y + 1)" using assms reach_match by (simp add: within_def)
  moreover have "to_go n m S (x + 1) (y + 1) \<le> (n - (x + 1)) + (m - (y + 1))"
    using to_go_le_all [of "x + 1" n "y + 1" m S] assms by simp
  ultimately show ?thesis
    using reach_to_go [OF r assms(5,6)] assms by (simp add: within_def)
qed

end
