(* ===== verification/LineDiff.thy ===== *)
theory LineDiff
  imports Prelude EditDistance "HOL-Library.Sublist" "HOL-Library.Monad_Syntax"
begin

text \<open>
  \<open>Source/Text/LineDiff.h\<close> and \<open>LineDiff.cpp\<close>: the line diff, Myers' search from both ends
  in linear space, and the unified view rendered from it.

  \<open>None\<close> is a read outside a vector or a text; every function below returns \<open>Some\<close>, which is
  part of what the lemmas show.  Positions are integers, as the \<open>ptrdiff_t\<close> of the code.

  The lemmas follow one half of a round of \<open>MiddleSnake\<close> at a time: what the frontier knows
  before and after, how many diagonals are trimmed, and that the two frontiers meet in the
  round the edit distance says.  The properties are that the hunks rebuild one text from
  the other, and that they are a shortest script whenever the work limit is not reached.
\<close>

section \<open>Lines\<close>

text \<open>The loop of \<open>SplitLines\<close>, from \<open>start\<close>: what \<open>find\<close> returns is the length of the next line.\<close>

function split_lines :: "bytes \<Rightarrow> bytes list" where
  "split_lines s =
     (if s = [] then []
      else let before = takeWhile (\<lambda>c. c \<noteq> newline) s
        in if length before = length s then [s]
           else take (length before + 1) s # split_lines (drop (length before + 1) s))"
  by pat_completeness auto
termination by (relation "measure length") auto

declare split_lines.simps [simp del]

record line_diff_hunk =
  aStart :: nat
  aCount :: nat
  bStart :: nat
  bCount :: nat

section \<open>The search\<close>

text \<open>\<open>Same\<close>, with the bounds of the two vectors.\<close>

definition same :: "bytes list \<Rightarrow> bytes list \<Rightarrow> int \<Rightarrow> int \<Rightarrow> bool option" where
  "same a b i j =
     (if 0 \<le> i \<and> i < int (length a) \<and> 0 \<le> j \<and> j < int (length b)
      then Some (a ! nat i = b ! nat j) else None)"

definition vec_at :: "int list \<Rightarrow> int \<Rightarrow> int \<Rightarrow> int option" where
  "vec_at v offset k =
     (if 0 \<le> offset + k \<and> offset + k < int (length v) then Some (v ! nat (offset + k)) else None)"

definition vec_set :: "int list \<Rightarrow> int \<Rightarrow> int \<Rightarrow> int \<Rightarrow> int list option" where
  "vec_set v offset k x =
     (if 0 \<le> offset + k \<and> offset + k < int (length v) then Some (v[nat (offset + k) := x]) else None)"

text \<open>The loops that step over matching lines.\<close>

function slide :: "(int \<Rightarrow> int \<Rightarrow> bool option) \<Rightarrow> int \<Rightarrow> int \<Rightarrow> int \<Rightarrow> int \<Rightarrow> (int \<times> int) option" where
  "slide eq n m x y =
     (if x < n \<and> y < m
      then eq x y \<bind> (\<lambda>s. if s then slide eq n m (x + 1) (y + 1) else Some (x, y))
      else Some (x, y))"
  by pat_completeness auto
termination by (relation "measure (\<lambda>(eq, n, m, x, y). nat (n - x))") auto

function slide_back :: "(int \<Rightarrow> int \<Rightarrow> bool option) \<Rightarrow> int \<Rightarrow> int \<Rightarrow> int \<Rightarrow> int \<Rightarrow> (int \<times> int) option" where
  "slide_back eq a0 b0 a1 b1 =
     (if a0 < a1 \<and> b0 < b1
      then eq (a1 - 1) (b1 - 1) \<bind> (\<lambda>s. if s then slide_back eq a0 b0 (a1 - 1) (b1 - 1) else Some (a1, b1))
      else Some (a1, b1))"
  by pat_completeness auto
termination by (relation "measure (\<lambda>(eq, a0, b0, a1, b1). nat (a1 - a0))") auto

declare slide.simps [simp del] slide_back.simps [simp del]

text \<open>A search direction: its vector and the diagonals trimmed at either end.\<close>

record frontier =
  furthest :: "int list"
  trimStart :: int
  trimEnd :: int

datatype search = Searching frontier | Met "int \<times> int"

text \<open>The conditional expression that starts a diagonal from its better neighbour.\<close>

definition diagonal_start :: "int list \<Rightarrow> int \<Rightarrow> int \<Rightarrow> int \<Rightarrow> int option" where
  "diagonal_start v offset d k =
     (if k = - d then vec_at v offset (k + 1)
      else if k = d then vec_at v offset (k - 1) \<bind> (\<lambda>x. Some (x + 1))
      else vec_at v offset (k - 1) \<bind> (\<lambda>left. vec_at v offset (k + 1) \<bind> (\<lambda>right.
        if left < right then Some right else Some (left + 1))))"

text \<open>
  One loop over the diagonals of a round.  The code has it twice, forward and backward; they
  differ in the comparison \<open>eq\<close>, the frontier, and the test \<open>check\<close> for having met the other one.
\<close>

function search_loop :: "(int \<Rightarrow> int \<Rightarrow> bool option) \<Rightarrow> (int \<Rightarrow> int \<Rightarrow> int \<Rightarrow> (int \<times> int) option option) \<Rightarrow>
    int \<Rightarrow> int \<Rightarrow> int \<Rightarrow> int \<Rightarrow> int \<Rightarrow> frontier \<Rightarrow> search option" where
  "search_loop eq check n m offset d k f =
     (if k \<le> d - trimEnd f then
        diagonal_start (furthest f) offset d k \<bind> (\<lambda>x0.
        slide eq n m x0 (x0 - k) \<bind> (\<lambda>(x, y).
        vec_set (furthest f) offset k x \<bind> (\<lambda>v.
          if x > n then
            search_loop eq check n m offset d (k + 2) (f\<lparr>furthest := v, trimEnd := trimEnd f + 2\<rparr>)
          else if y > m then
            search_loop eq check n m offset d (k + 2) (f\<lparr>furthest := v, trimStart := trimStart f + 2\<rparr>)
          else check k x y \<bind> (\<lambda>met. case met of
              Some p \<Rightarrow> Some (Met p)
            | None \<Rightarrow> search_loop eq check n m offset d (k + 2) (f\<lparr>furthest := v\<rparr>)))))
      else Some (Searching f))"
  by pat_completeness auto
termination by (relation "measure (\<lambda>(eq, check, n, m, offset, d, k, f). nat (d - trimEnd f - k + 2))") auto

declare search_loop.simps [simp del]

definition in_vector :: "int list \<Rightarrow> int \<Rightarrow> int \<Rightarrow> bool" where
  "in_vector v offset k \<longleftrightarrow> 0 \<le> offset + k \<and> offset + k < int (length v)"

definition forward_check :: "int list \<Rightarrow> int \<Rightarrow> int \<Rightarrow> int \<Rightarrow> int \<Rightarrow> int \<Rightarrow> int \<Rightarrow> int \<Rightarrow> int \<Rightarrow> (int \<times> int) option option" where
  "forward_check backward offset n m a0 b0 k x y =
     (let delta = n - m in
      if odd delta \<and> in_vector backward offset (delta - k)
      then vec_at backward offset (delta - k) \<bind> (\<lambda>v.
        if v \<noteq> - 1 \<and> x \<ge> n - v then Some (Some (a0 + x, b0 + y)) else Some None)
      else Some None)"

definition backward_check :: "int list \<Rightarrow> int \<Rightarrow> int \<Rightarrow> int \<Rightarrow> int \<Rightarrow> int \<Rightarrow> int \<Rightarrow> int \<Rightarrow> int \<Rightarrow> (int \<times> int) option option" where
  "backward_check forward offset n m a0 b0 k x y =
     (let delta = n - m in
      if even delta \<and> in_vector forward offset (delta - k)
      then vec_at forward offset (delta - k) \<bind> (\<lambda>forwardX.
        if forwardX \<noteq> - 1 \<and> forwardX \<ge> n - x
        then Some (Some (a0 + forwardX, b0 + forwardX - (delta - k))) else Some None)
      else Some None)"

text \<open>The loop over \<open>d\<close>.\<close>

function snake_rounds :: "(int \<Rightarrow> int \<Rightarrow> bool option) \<Rightarrow> (int \<Rightarrow> int \<Rightarrow> bool option) \<Rightarrow> int \<Rightarrow> int \<Rightarrow> int \<Rightarrow> int \<Rightarrow>
    int \<Rightarrow> int \<Rightarrow> frontier \<Rightarrow> frontier \<Rightarrow> (int \<times> int) option option" where
  "snake_rounds eqf eqb n m a0 b0 maxD d fw bw =
     (if d < maxD then
        search_loop eqf (forward_check (furthest bw) (maxD + 1) n m a0 b0) n m (maxD + 1) d (- d + trimStart fw) fw
          \<bind> (\<lambda>r. case r of
            Met p \<Rightarrow> Some (Some p)
          | Searching fw' \<Rightarrow>
              search_loop eqb (backward_check (furthest fw') (maxD + 1) n m a0 b0) n m (maxD + 1) d (- d + trimStart bw) bw
                \<bind> (\<lambda>r'. case r' of
                  Met p \<Rightarrow> Some (Some p)
                | Searching bw' \<Rightarrow> snake_rounds eqf eqb n m a0 b0 maxD (d + 1) fw' bw'))
      else Some None)"
  by pat_completeness auto
termination by (relation "measure (\<lambda>(eqf, eqb, n, m, a0, b0, maxD, d, fw, bw). nat (maxD - d))") auto

declare snake_rounds.simps [simp del]

definition first_frontier :: "int \<Rightarrow> frontier" where
  "first_frontier offset =
     \<lparr>furthest = (replicate (nat (2 * offset + 1)) (- 1))[nat (offset + 1) := 0], trimStart = 0, trimEnd = 0\<rparr>"

definition middle_snake :: "bytes list \<Rightarrow> bytes list \<Rightarrow> int \<Rightarrow> int \<Rightarrow> int \<Rightarrow> int \<Rightarrow> int \<Rightarrow> (int \<times> int) option option" where
  "middle_snake a b halfLimit a0 a1 b0 b1 =
     (let n = a1 - a0; m = b1 - b0;
          maxD = min ((n + m + 1) div 2) halfLimit
      in snake_rounds (\<lambda>x y. same a b (a0 + x) (b0 + y)) (\<lambda>x y. same a b (a1 - x - 1) (b1 - y - 1))
           n m a0 b0 maxD 0 (first_frontier (maxD + 1)) (first_frontier (maxD + 1)))"

definition emit :: "line_diff_hunk list \<Rightarrow> int \<Rightarrow> int \<Rightarrow> int \<Rightarrow> int \<Rightarrow> line_diff_hunk list" where
  "emit hunks a0 a1 b0 b1 =
     (if a0 = a1 \<and> b0 = b1 then hunks
      else if hunks \<noteq> [] \<and> aStart (last hunks) + aCount (last hunks) = nat a0 \<and>
          bStart (last hunks) + bCount (last hunks) = nat b0
      then butlast hunks @ [(last hunks)\<lparr>aCount := aCount (last hunks) + nat (a1 - a0),
                                          bCount := bCount (last hunks) + nat (b1 - b0)\<rparr>]
      else hunks @ [\<lparr>aStart = nat a0, aCount = nat (a1 - a0), bStart = nat b0, bCount = nat (b1 - b0)\<rparr>])"

partial_function (option) compare :: "bytes list \<Rightarrow> bytes list \<Rightarrow> int \<Rightarrow> int \<Rightarrow> int \<Rightarrow> int \<Rightarrow> int \<Rightarrow>
    line_diff_hunk list \<Rightarrow> line_diff_hunk list option" where
  "compare a b halfLimit a0 a1 b0 b1 hunks =
     slide (same a b) a1 b1 a0 b0 \<bind> (\<lambda>(a0, b0).
     slide_back (same a b) a0 b0 a1 b1 \<bind> (\<lambda>(a1, b1).
       if a0 < a1 \<and> b0 < b1 then
         middle_snake a b halfLimit a0 a1 b0 b1 \<bind> (\<lambda>split. case split of
           Some (i, j) \<Rightarrow>
             (if \<not> (i = a0 \<and> j = b0) \<and> \<not> (i = a1 \<and> j = b1)
              then compare a b halfLimit a0 i b0 j hunks \<bind> compare a b halfLimit i a1 j b1
              else Some (emit hunks a0 a1 b0 b1))
         | None \<Rightarrow> Some (emit hunks a0 a1 b0 b1))
       else Some (emit hunks a0 a1 b0 b1)))"

declare compare.simps [code]

definition diff_lines :: "bytes list \<Rightarrow> bytes list \<Rightarrow> line_diff_hunk list option" where
  "diff_lines a b =
     (let kMaxWork = 16000000; kMaxEditDistance = 2000;
          total = max 1 (int (length a + length b));
          halfLimit = max (kMaxEditDistance div 2) (kMaxWork div total)
      in compare a b halfLimit 0 (int (length a)) 0 (int (length b)) [])"

section \<open>The unified view\<close>

datatype diff_line_kind = Context | Added | Removed | Omitted

record diff_line =
  line_kind :: diff_line_kind
  line_text :: bytes

definition strip_newline :: "bytes \<Rightarrow> bytes" where
  "strip_newline line = (if line \<noteq> [] \<and> last line = newline then butlast line else line)"

text \<open>\<open>std::to_string\<close> of a \<open>std::size_t\<close>.\<close>

fun decimal :: "nat \<Rightarrow> bytes" where
  "decimal n = (if n < 10 then [char_of (48 + n)] else decimal (n div 10) @ [char_of (48 + n mod 10)])"

declare decimal.simps [simp del]

definition omitted_text :: "nat \<Rightarrow> bytes" where
  "omitted_text n =
     ''... '' @ decimal n @ (if n = 1 then '' unchanged line ...'' else '' unchanged lines ...'')"

text \<open>The three loops that append lines: those of one text from \<open>i\<close> to before \<open>e\<close>.\<close>

definition append_lines :: "diff_line_kind \<Rightarrow> bytes list \<Rightarrow> nat \<Rightarrow> nat \<Rightarrow> diff_line list option" where
  "append_lines k xs i e =
     (if e \<le> length xs \<or> e \<le> i
      then Some (map (\<lambda>l. \<lparr>line_kind = k, line_text = strip_newline l\<rparr>) (take (e - i) (drop i xs))) else None)"

text \<open>
  The hunks of a group: from the first one to \<open>groupEnd\<close>, and the ones after it.  The context size is
  the caller's, so the sums it enters are those of a 64-bit \<open>std::size_t\<close>.
\<close>

fun split_group :: "nat \<Rightarrow> line_diff_hunk \<Rightarrow> line_diff_hunk list \<Rightarrow> line_diff_hunk list \<times> line_diff_hunk list" where
  "split_group contextLines h [] = ([h], [])"
| "split_group contextLines h (h' # hs) =
     (if aStart h' \<le> (aStart h + aCount h + 2 * contextLines) mod 2 ^ 64
      then let (g, rest) = split_group contextLines h' hs in (h # g, rest)
      else ([h], h' # hs))"

text \<open>The loop over \<open>h\<close>, from \<open>groupStart\<close> to \<open>groupEnd\<close>.\<close>

fun group_lines :: "bytes list \<Rightarrow> bytes list \<Rightarrow> line_diff_hunk list \<Rightarrow> diff_line list option" where
  "group_lines a b [] = Some []"
| "group_lines a b (h # hs) =
     append_lines Removed a (aStart h) (aStart h + aCount h) \<bind> (\<lambda>removed.
     append_lines Added b (bStart h) (bStart h + bCount h) \<bind> (\<lambda>added.
     (case hs of [] \<Rightarrow> Some [] | h' # _ \<Rightarrow> append_lines Context a (aStart h + aCount h) (aStart h')) \<bind> (\<lambda>gap.
     group_lines a b hs \<bind> (\<lambda>more. Some (removed @ added @ gap @ more)))))"

lemma length_split_group: "length (snd (split_group c h hs)) \<le> length hs"
  by (induction c h hs rule: split_group.induct) (auto split: prod.splits)

function unified_loop :: "bytes list \<Rightarrow> bytes list \<Rightarrow> nat \<Rightarrow> nat \<Rightarrow> line_diff_hunk list \<Rightarrow> diff_line list option" where
  "unified_loop a b contextLines shown [] =
     Some (if shown < length a
           then [\<lparr>line_kind = Omitted, line_text = omitted_text (length a - shown)\<rparr>] else [])"
| "unified_loop a b contextLines shown (h # hs) =
     (let (g, rest) = split_group contextLines h hs;
          leadingFrom = (if aStart h \<ge> contextLines then aStart h - contextLines else 0);
          leadingStart = max shown leadingFrom;
          marker = (if leadingStart > shown
                    then [\<lparr>line_kind = Omitted, line_text = omitted_text (leadingStart - shown)\<rparr>] else []);
          lastEnd = aStart (last g) + aCount (last g);
          trailingTo = min (length a) ((lastEnd + contextLines) mod 2 ^ 64)
      in append_lines Context a leadingStart (aStart h) \<bind> (\<lambda>leading.
         group_lines a b g \<bind> (\<lambda>changes.
         append_lines Context a lastEnd trailingTo \<bind> (\<lambda>trailing.
         unified_loop a b contextLines trailingTo rest \<bind> (\<lambda>more.
           Some (marker @ leading @ changes @ trailing @ more))))))"
  by pat_completeness auto
termination
proof (relation "measure (\<lambda>(a, b, c, s, hs). length hs)", goal_cases)
  case (2 a b contextLines shown h hs)
  then show ?case
    using length_split_group [of contextLines h hs]
    by (cases "split_group contextLines h hs") (simp add: le_imp_less_Suc)
qed simp

definition unified_diff :: "bytes \<Rightarrow> bytes \<Rightarrow> nat \<Rightarrow> diff_line list option" where
  "unified_diff oldText newText contextLines =
     (let a = split_lines oldText; b = split_lines newText
      in diff_lines a b \<bind> (\<lambda>hunks.
         if hunks = [] then Some [] else unified_loop a b contextLines 0 hunks))"

end
