(* ===== verification/LineDiffSearch.thy ===== *)
theory LineDiffSearch
  imports LineDiff
begin

text \<open>
  The search of \<open>MiddleSnake\<close> in \<open>Source/Text/LineDiff.cpp\<close>: it never reads outside its vectors
  or the texts, and where the two frontiers meet is a point on a shortest path.

  \<open>searched\<close> is what one direction's vector holds after \<open>d\<close> rounds, \<open>searching\<close> what it holds
  in the middle of a round.  Both directions have the same lemmas, the backward one for the
  grid turned around.
\<close>

section \<open>Vectors\<close>

definition entry :: "int list \<Rightarrow> int \<Rightarrow> int \<Rightarrow> int" where
  "entry v offset k = v ! nat (offset + k)"

lemma vec_at_entry:
  "length v = nat (2 * offset + 1) \<Longrightarrow> \<bar>k\<bar> \<le> offset \<Longrightarrow> vec_at v offset k = Some (entry v offset k)"
  by (auto simp: vec_at_def entry_def abs_le_iff)

lemma vec_set_entry:
  assumes "length v = nat (2 * offset + 1)" "\<bar>k\<bar> \<le> offset"
  shows "\<exists>v'. vec_set v offset k x = Some v' \<and> length v' = length v \<and>
    (\<forall>j. \<bar>j\<bar> \<le> offset \<longrightarrow> entry v' offset j = (if j = k then x else entry v offset j))"
  using assms by (auto simp: vec_set_def entry_def nth_list_update nat_eq_iff2 abs_le_iff)

section \<open>What a direction knows\<close>

text \<open>The comparison is total on the grid.\<close>

definition compares :: "int \<Rightarrow> int \<Rightarrow> grid \<Rightarrow> (int \<Rightarrow> int \<Rightarrow> bool option) \<Rightarrow> bool" where
  "compares n m S eq \<longleftrightarrow> (\<forall>x y. 0 \<le> x \<longrightarrow> x < n \<longrightarrow> 0 \<le> y \<longrightarrow> y < m \<longrightarrow> eq x y = Some (S x y))"

lemma slide_within:
  "compares n m S eq \<Longrightarrow> within n m S e x y \<Longrightarrow> 0 \<le> n \<Longrightarrow> 0 \<le> m \<Longrightarrow>
    \<exists>t\<ge>0. slide eq n m x y = Some (x + t, y + t) \<and> within n m S e (x + t) (y + t) \<and>
      \<not> (x + t < n \<and> y + t < m \<and> S (x + t) (y + t))"
proof (induction eq n m x y rule: slide.induct)
  case (1 eq n m x y)
  have pos: "0 \<le> x" "0 \<le> y" using 1(3) by (simp_all add: within_def)
  show ?case
  proof (cases "x < n \<and> y < m")
    case True
    then have eq: "eq x y = Some (S x y)" using 1(2) pos by (simp add: compares_def)
    show ?thesis
    proof (cases "S x y")
      case S: True
      have "within n m S e (x + 1) (y + 1)" using within_match [OF 1(3)] 1(4,5) True S by simp
      from 1(1) [OF True eq S 1(2) this 1(4,5)]
      obtain t where "t \<ge> 0" "slide eq n m (x + 1) (y + 1) = Some (x + 1 + t, y + 1 + t)"
        "within n m S e (x + 1 + t) (y + 1 + t)"
        "\<not> (x + 1 + t < n \<and> y + 1 + t < m \<and> S (x + 1 + t) (y + 1 + t))"
        by blast
      moreover have "slide eq n m x y = slide eq n m (x + 1) (y + 1)"
        using True eq S by (subst slide.simps) simp
      ultimately show ?thesis by (intro exI [of _ "1 + t"]) (simp add: algebra_simps)
    next
      case False
      then show ?thesis
        using True eq 1(3) by (intro exI [of _ 0]) (subst slide.simps, simp)
    qed
  next
    case False
    then have "slide eq n m x y = Some (x, y)" by (subst slide.simps) auto
    with False 1(3) show ?thesis by (intro exI [of _ 0]) auto
  qed
qed

text \<open>
  What is known of an entry \<open>X\<close> on diagonal \<open>k\<close> computed in a round of cost \<open>d\<close>: the point is
  as far as \<open>within\<close> says, and no optimal point of that cost lies beyond it.
\<close>

definition known :: "int \<Rightarrow> int \<Rightarrow> grid \<Rightarrow> int \<Rightarrow> int \<Rightarrow> int \<Rightarrow> bool" where
  "known n m S d k X \<longleftrightarrow> within n m S d X (X - k) \<and>
     (\<forall>x y. optimal n m S d x y \<longrightarrow> x - y = k \<longrightarrow> x \<le> X)"

text \<open>
  After \<open>d\<close> rounds.  The entry of diagonal 1 starts as the code's marker and is overwritten in
  the second round.
\<close>

definition searched :: "int \<Rightarrow> int \<Rightarrow> grid \<Rightarrow> int \<Rightarrow> int \<Rightarrow> frontier \<Rightarrow> bool" where
  "searched n m S offset d f \<longleftrightarrow>
     length (furthest f) = nat (2 * offset + 1) \<and> 0 \<le> trimStart f \<and> 0 \<le> trimEnd f \<and>
     even (trimStart f) \<and> even (trimEnd f) \<and>
     (trimStart f = 0 \<or> to_go n m S 0 0 \<le> 2 * (d - 1) + (n - m) - trimStart f) \<and>
     (trimEnd f = 0 \<or> to_go n m S 0 0 \<le> 2 * (d - 1) - (n - m) - trimEnd f) \<and>
     (\<forall>k. \<bar>k\<bar> \<le> offset \<longrightarrow> entry (furthest f) offset k = - 1 \<or> (d \<le> 1 \<and> k = 1) \<or>
        within n m S (d - 1) (entry (furthest f) offset k) (entry (furthest f) offset k - k)) \<and>
     (d = 0 \<longrightarrow> entry (furthest f) offset 1 = 0 \<and> trimStart f = 0 \<and> trimEnd f = 0) \<and>
     (0 < d \<longrightarrow> (\<forall>k. even (k - (d - 1)) \<longrightarrow> - (d - 1) + trimStart f \<le> k \<longrightarrow> k \<le> (d - 1) - trimEnd f \<longrightarrow>
        known n m S (d - 1) k (entry (furthest f) offset k)) \<and>
       (\<forall>x y. optimal n m S (d - 1) x y \<longrightarrow> x \<le> entry (furthest f) offset (x - y)))"

lemma searched_length: "searched n m S offset d f \<Longrightarrow> length (furthest f) = nat (2 * offset + 1)"
  and searched_trims: "searched n m S offset d f \<Longrightarrow> 0 \<le> trimStart f \<and> 0 \<le> trimEnd f \<and>
    even (trimStart f) \<and> even (trimEnd f)"
  by (simp_all add: searched_def)

lemma searched_entry:
  "searched n m S offset d f \<Longrightarrow> \<bar>k\<bar> \<le> offset \<Longrightarrow> \<not> (d \<le> 1 \<and> k = 1) \<Longrightarrow>
     entry (furthest f) offset k = - 1 \<or>
     within n m S (d - 1) (entry (furthest f) offset k) (entry (furthest f) offset k - k)"
  unfolding searched_def by blast

lemma searched_known:
  "searched n m S offset d f \<Longrightarrow> 1 \<le> d \<Longrightarrow> even (k - (d - 1)) \<Longrightarrow> - (d - 1) + trimStart f \<le> k \<Longrightarrow>
     k \<le> (d - 1) - trimEnd f \<Longrightarrow> known n m S (d - 1) k (entry (furthest f) offset k)"
  by (simp add: searched_def)

lemma searched_dominates:
  "searched n m S offset d f \<Longrightarrow> 1 \<le> d \<Longrightarrow> optimal n m S (d - 1) x y \<Longrightarrow> x \<le> entry (furthest f) offset (x - y)"
  by (simp add: searched_def)

lemma searched_first:
  assumes "1 \<le> offset"
  shows "searched n m S offset 0 (first_frontier offset)"
proof -
  have "entry (furthest (first_frontier offset)) offset k = (if k = 1 then 0 else - 1)" if "\<bar>k\<bar> \<le> offset" for k
    using that assms by (auto simp: entry_def first_frontier_def nth_list_update abs_le_iff nat_eq_iff2)
  then show ?thesis using assms by (simp add: searched_def first_frontier_def)
qed

lemma to_go_corner_ge:
  "0 \<le> n \<Longrightarrow> 0 \<le> m \<Longrightarrow> n - m \<le> to_go n m S 0 0 \<and> m - n \<le> to_go n m S 0 0"
  using to_go_ge_shift [of 0 n 0 m S] by (simp add: abs_le_iff)

text \<open>The trimmed ends stay apart: the diagonals of a round have a neighbour from the round before.\<close>

lemma trims_apart:
  assumes "searched n m S offset d f" "0 \<le> n" "0 \<le> m" "1 \<le> d" "2 * d - 1 \<le> to_go n m S 0 0"
  shows "trimStart f + trimEnd f \<le> 2 * d - 2"
  using assms(1) to_go_corner_ge [OF assms(2,3), of S] assms(4,5)
  by (auto simp: searched_def)

text \<open>The neighbours a diagonal is computed from.\<close>

lemma neighbour_known:
  assumes "searched n m S offset d f" "0 \<le> n" "0 \<le> m" "1 \<le> d" "2 * d - 1 \<le> to_go n m S 0 0"
    and "even (k - d)" "- d + trimStart f \<le> k" "k \<le> d - trimEnd f"
  shows "k = - d \<Longrightarrow> known n m S (d - 1) (k + 1) (entry (furthest f) offset (k + 1))"
    and "k = d \<Longrightarrow> known n m S (d - 1) (k - 1) (entry (furthest f) offset (k - 1))"
    and "known n m S (d - 1) (k + 1) (entry (furthest f) offset (k + 1)) \<or>
      known n m S (d - 1) (k - 1) (entry (furthest f) offset (k - 1))"
proof -
  note apart = trims_apart [OF assms(1-5)]
  have nonneg: "0 \<le> trimStart f" "0 \<le> trimEnd f" using assms(1) by (simp_all add: searched_def)
  have known: "known n m S (d - 1) j (entry (furthest f) offset j)"
    if "even (j - (d - 1))" "- (d - 1) + trimStart f \<le> j" "j \<le> (d - 1) - trimEnd f" for j
    by (rule searched_known [OF assms(1,4) that])
  have parity: "even (k + 1 - (d - 1))" "even (k - 1 - (d - 1))" using assms(6) by presburger+
  show "k = - d \<Longrightarrow> known n m S (d - 1) (k + 1) (entry (furthest f) offset (k + 1))"
    using known [OF parity(1)] assms(7,8) apart nonneg by simp
  show "k = d \<Longrightarrow> known n m S (d - 1) (k - 1) (entry (furthest f) offset (k - 1))"
    using known [OF parity(2)] assms(7,8) apart nonneg by simp
  show "known n m S (d - 1) (k + 1) (entry (furthest f) offset (k + 1)) \<or>
      known n m S (d - 1) (k - 1) (entry (furthest f) offset (k - 1))"
  proof (cases "k < d - trimEnd f")
    case True
    have "even (trimEnd f)" using assms(1) by (simp add: searched_def)
    then have "k + 1 \<le> (d - 1) - trimEnd f" using True assms(6) by presburger
    then show ?thesis using known [OF parity(1)] assms(7) by simp
  next
    case False
    then show ?thesis using known [OF parity(2)] assms(8) apart by simp
  qed
qed

lemma known_point: "known n m S d k X \<Longrightarrow> 0 \<le> X \<and> k \<le> X"
  by (simp add: known_def within_def)

lemma diagonal_start_known:
  assumes sr: "searched n m S offset d f" and grid: "0 \<le> n" "0 \<le> m"
    and far: "1 \<le> d" "2 * d - 1 \<le> to_go n m S 0 0" "d < offset"
    and k: "even (k - d)" "- d + trimStart f \<le> k" "k \<le> d - trimEnd f"
    and v: "length v = nat (2 * offset + 1)"
      "entry v offset (k - 1) = entry (furthest f) offset (k - 1)"
      "entry v offset (k + 1) = entry (furthest f) offset (k + 1)"
  shows "\<exists>x0. diagonal_start v offset d k = Some x0 \<and> within n m S d x0 (x0 - k) \<and>
    (\<forall>x y. optimal n m S (d - 1) x y \<longrightarrow> (x - y = k - 1 \<longrightarrow> x + 1 \<le> x0) \<and> (x - y = k + 1 \<longrightarrow> x \<le> x0))"
proof -
  let ?l = "entry (furthest f) offset (k - 1)" and ?r = "entry (furthest f) offset (k + 1)"
  have nonneg: "0 \<le> trimStart f" "0 \<le> trimEnd f" using sr by (simp_all add: searched_def)
  then have kd: "\<bar>k\<bar> \<le> d" using k by linarith
  have at: "vec_at v offset (k - 1) = Some ?l" "vec_at v offset (k + 1) = Some ?r"
    using vec_at_entry [OF v(1), of "k - 1"] vec_at_entry [OF v(1), of "k + 1"] v kd far(3) by simp_all
  note nb = neighbour_known [OF sr grid far(1,2) k]
  have parity: "d \<le> 1 \<Longrightarrow> k - 1 \<noteq> 1 \<and> k + 1 \<noteq> 1" using far(1) k(1) by presburger
  have sound: "?l = - 1 \<or> within n m S (d - 1) ?l (?l - (k - 1))"
    "?r = - 1 \<or> within n m S (d - 1) ?r (?r - (k + 1))"
    using searched_entry [OF sr, of "k - 1"] searched_entry [OF sr, of "k + 1"] kd far(3) parity by auto
  then have ge: "- 1 \<le> ?l" "- 1 \<le> ?r" by (auto simp: within_def)
  have left: "within n m S d (?l + 1) (?l + 1 - k)" if "?l \<noteq> - 1"
    using within_right [of n m S "d - 1" ?l "?l - (k - 1)"] sound(1) that by (simp add: algebra_simps)
  have right: "within n m S d ?r (?r - k)" if "?r \<noteq> - 1"
    using within_down [of n m S "d - 1" ?r "?r - (k + 1)"] sound(2) that by (simp add: algebra_simps)
  have dom: "x \<le> entry (furthest f) offset (x - y)" "\<bar>x - y\<bar> \<le> d - 1" if "optimal n m S (d - 1) x y" for x y
    using searched_dominates [OF sr far(1) that] that reach_bounds(5) [OF _ grid, of S "d - 1" x y]
    by (auto simp: optimal_def)
  consider "k = - d" | "k = d" "k \<noteq> - d" | "k \<noteq> d" "k \<noteq> - d" "?l < ?r" | "k \<noteq> d" "k \<noteq> - d" "?r \<le> ?l" by linarith
  then show ?thesis
  proof cases
    case 1
    have "0 \<le> ?r" using known_point [OF nb(1) [OF 1]] by simp
    then show ?thesis
      using 1 at(2) right dom by (intro exI [of _ ?r]) (fastforce simp: diagonal_start_def)
  next
    case 2
    have "0 \<le> ?l" using known_point [OF nb(2) [OF 2(1)]] by simp
    then show ?thesis
      using 2 at(1) left dom by (intro exI [of _ "?l + 1"]) (fastforce simp: diagonal_start_def)
  next
    case 3
    then show ?thesis
      using at right dom ge by (intro exI [of _ ?r]) (fastforce simp: diagonal_start_def)
  next
    case 4
    have "?l \<noteq> - 1" using nb(3) 4(3) known_point [of n m S "d - 1" "k + 1" ?r]
      known_point [of n m S "d - 1" "k - 1" ?l] by auto
    then show ?thesis
      using 4 at left dom by (intro exI [of _ "?l + 1"]) (fastforce simp: diagonal_start_def)
  qed
qed

lemma optimal_below:
  assumes "optimal n m S d x y" "0 \<le> n" "0 \<le> m" "x - y = k"
    and stop: "\<not> (X < n \<and> X - k < m \<and> S X (X - k))" and low: "0 \<le> X" "x0 \<le> X"
    and origin: "\<And>x y. optimal n m S (d - 1) x y \<Longrightarrow> (x - y = k - 1 \<longrightarrow> x + 1 \<le> x0) \<and> (x - y = k + 1 \<longrightarrow> x \<le> x0)"
  shows "x \<le> X"
proof -
  have "e = d \<longrightarrow> x - y = k \<longrightarrow> x \<le> X" if "optimal n m S e x y" for e x y
    using that assms(2,3)
  proof (induction e x y rule: optimal_induct)
    case start
    then show ?case using low by simp
  next
    case (right e x y)
    then show ?case using origin [of x y] low by auto
  next
    case (down e x y)
    then show ?case using origin [of x y] low by auto
  next
    case (match e x y)
    show ?case
    proof (intro impI)
      assume e: "e = d" "x + 1 - (y + 1) = k"
      then have "x \<le> X" "y = x - k" using match.IH by auto
      moreover have "x \<noteq> X" using match.hyps stop e by auto
      ultimately show "x + 1 \<le> X" by simp
    qed
  qed
  then show ?thesis using assms(1,4) by simp
qed

text \<open>One turn of the loop: the diagonal's new entry is known at cost \<open>d\<close>.\<close>

lemma visit_known:
  assumes sr: "searched n m S offset d f" and cmp: "compares n m S eq" and grid: "0 \<le> n" "0 \<le> m"
    and far: "0 \<le> d" "2 * d - 1 \<le> to_go n m S 0 0" "d < offset"
    and k: "even (k - d)" "- d + trimStart f \<le> k" "k \<le> d - trimEnd f"
    and v: "length v = nat (2 * offset + 1)"
      "entry v offset (k - 1) = entry (furthest f) offset (k - 1)"
      "entry v offset (k + 1) = entry (furthest f) offset (k + 1)"
  shows "\<exists>x0 X. diagonal_start v offset d k = Some x0 \<and> slide eq n m x0 (x0 - k) = Some (X, X - k) \<and>
    known n m S d k X"
proof -
  have "\<exists>x0. diagonal_start v offset d k = Some x0 \<and> within n m S d x0 (x0 - k) \<and>
    (\<forall>x y. optimal n m S (d - 1) x y \<longrightarrow> (x - y = k - 1 \<longrightarrow> x + 1 \<le> x0) \<and> (x - y = k + 1 \<longrightarrow> x \<le> x0))"
  proof (cases "d = 0")
    case True
    have trims: "trimStart f = 0" "trimEnd f = 0" "entry (furthest f) offset 1 = 0"
      using sr True by (simp_all add: searched_def)
    then have "k = 0" using k True by simp
    then have "diagonal_start v offset d k = Some 0"
      using True trims v far(3) vec_at_entry [OF v(1), of 1] by (simp add: diagonal_start_def)
    moreover have "\<not> optimal n m S (d - 1) x y" for x y
      using True reach_bounds(6) [OF _ grid, of S "- 1" x y] by (auto simp: optimal_def)
    ultimately show ?thesis
      using True \<open>k = 0\<close> within_start [OF grid] by (intro exI [of _ 0]) simp
  next
    case False
    then show ?thesis using diagonal_start_known [OF sr grid _ far(2,3) k v] far(1) by simp
  qed
  then obtain x0 where x0: "diagonal_start v offset d k = Some x0" "within n m S d x0 (x0 - k)"
    "\<And>x y. optimal n m S (d - 1) x y \<Longrightarrow> (x - y = k - 1 \<longrightarrow> x + 1 \<le> x0) \<and> (x - y = k + 1 \<longrightarrow> x \<le> x0)"
    by blast
  obtain t where t: "0 \<le> t" "slide eq n m x0 (x0 - k) = Some (x0 + t, x0 - k + t)"
    "within n m S d (x0 + t) (x0 - k + t)" "\<not> (x0 + t < n \<and> x0 - k + t < m \<and> S (x0 + t) (x0 - k + t))"
    using slide_within [OF cmp x0(2) grid] by blast
  have eq: "x0 - k + t = x0 + t - k" by simp
  have "x \<le> x0 + t" if "optimal n m S d x y" "x - y = k" for x y
    using optimal_below [OF that(1) grid that(2), of "x0 + t" x0] t(1,3,4) x0(3)
    by (simp add: eq within_def)
  then have "known n m S d k (x0 + t)" using t(3) by (simp add: known_def eq)
  then show ?thesis using x0(1) t(2) eq by auto
qed

section \<open>Half a round\<close>

text \<open>
  In the middle of round \<open>d\<close>, which began with \<open>f0\<close> and is at diagonal \<open>k\<close>.  A trimmed
  end is paid for: the further it is trimmed, the shorter the whole distance must be.
\<close>

definition searching :: "int \<Rightarrow> int \<Rightarrow> grid \<Rightarrow> (int \<Rightarrow> int \<Rightarrow> int \<Rightarrow> (int \<times> int) option option) \<Rightarrow>
    int \<Rightarrow> int \<Rightarrow> frontier \<Rightarrow> int \<Rightarrow> frontier \<Rightarrow> bool" where
  "searching n m S check offset d f0 k f \<longleftrightarrow>
     length (furthest f) = nat (2 * offset + 1) \<and> - d + trimStart f0 \<le> k \<and> even (k - d) \<and>
     trimStart f0 \<le> trimStart f \<and> trimEnd f0 \<le> trimEnd f \<and> even (trimStart f) \<and> even (trimEnd f) \<and>
     trimStart f \<le> k + d \<and>
     (trimStart f = 0 \<or> to_go n m S 0 0 \<le> 2 * d + (n - m) - trimStart f) \<and>
     (trimEnd f = 0 \<or> to_go n m S 0 0 \<le> 2 * d - (n - m) - trimEnd f) \<and>
     (trimEnd f = trimEnd f0 \<or> to_go n m S 0 0 \<le> d + k - (n - m) - 4) \<and>
     (\<forall>j. \<bar>j\<bar> \<le> offset \<longrightarrow> odd (j - d) \<or> k \<le> j \<or> j < - d + trimStart f0 \<longrightarrow>
        entry (furthest f) offset j = entry (furthest f0) offset j) \<and>
     (\<forall>j. even (j - d) \<longrightarrow> - d + trimStart f0 \<le> j \<longrightarrow> j < k \<longrightarrow>
        \<bar>j\<bar> \<le> d \<and> known n m S d j (entry (furthest f) offset j) \<and>
        (entry (furthest f) offset j \<le> n \<and> entry (furthest f) offset j - j \<le> m \<longrightarrow>
          check j (entry (furthest f) offset j) (entry (furthest f) offset j - j) = Some None))"

lemma searching_start:
  assumes "searched n m S offset d f"
  shows "searching n m S check offset d f (- d + trimStart f) f"
proof -
  have "trimStart f = 0 \<or> to_go n m S 0 0 \<le> 2 * d + (n - m) - trimStart f"
    "trimEnd f = 0 \<or> to_go n m S 0 0 \<le> 2 * d - (n - m) - trimEnd f"
    using assms by (auto simp: searched_def)
  then show ?thesis
    using searched_length [OF assms] searched_trims [OF assms] by (auto simp: searching_def)
qed

text \<open>One turn keeps the invariant, whichever of its three branches is taken.\<close>

lemma searching_turn:
  assumes inv: "searching n m S check offset d f0 k f" and k: "k \<le> d - trimEnd f" "d < offset" "0 \<le> trimStart f0" "0 \<le> trimEnd f0"
    and new: "known n m S d k X" "length v = nat (2 * offset + 1)"
      "\<forall>j. \<bar>j\<bar> \<le> offset \<longrightarrow> entry v offset j = (if j = k then X else entry (furthest f) offset j)"
  shows "n < X \<Longrightarrow> searching n m S check offset d f0 (k + 2) (f\<lparr>furthest := v, trimEnd := trimEnd f + 2\<rparr>)"
    and "X \<le> n \<Longrightarrow> m < X - k \<Longrightarrow>
      searching n m S check offset d f0 (k + 2) (f\<lparr>furthest := v, trimStart := trimStart f + 2\<rparr>)"
    and "check k X (X - k) = Some None \<Longrightarrow> searching n m S check offset d f0 (k + 2) (f\<lparr>furthest := v\<rparr>)"
proof -
  have bound: "to_go n m S 0 0 \<le> d + (n - X) + (m - (X - k))"
    using new(1) by (simp add: known_def within_def)
  have base: "- d + trimStart f0 \<le> k" "even (k - d)" "trimStart f0 \<le> trimStart f" "trimEnd f0 \<le> trimEnd f"
    "even (trimStart f)" "even (trimEnd f)" "trimStart f \<le> k + d"
    "trimStart f = 0 \<or> to_go n m S 0 0 \<le> 2 * d + (n - m) - trimStart f"
    "trimEnd f = 0 \<or> to_go n m S 0 0 \<le> 2 * d - (n - m) - trimEnd f"
    "trimEnd f = trimEnd f0 \<or> to_go n m S 0 0 \<le> d + k - (n - m) - 4"
    using inv by (simp_all add: searching_def)
  have kd: "\<bar>k\<bar> \<le> d" using base(1,4) k by linarith
  have kept: "entry v offset j = entry (furthest f0) offset j"
    if "\<bar>j\<bar> \<le> offset" "odd (j - d) \<or> k + 2 \<le> j \<or> j < - d + trimStart f0" for j
  proof -
    have "j \<noteq> k" using that(2) base(1,2) by auto
    then show ?thesis using inv that new(3) [rule_format, OF that(1)] unfolding searching_def by auto
  qed
  have old: "\<bar>j\<bar> \<le> d \<and> known n m S d j (entry v offset j) \<and>
      (entry v offset j \<le> n \<and> entry v offset j - j \<le> m \<longrightarrow>
        check j (entry v offset j) (entry v offset j - j) = Some None)"
    if j: "even (j - d)" "- d + trimStart f0 \<le> j" "j < k" for j
  proof -
    have "\<bar>j\<bar> \<le> d \<and> known n m S d j (entry (furthest f) offset j) \<and>
      (entry (furthest f) offset j \<le> n \<and> entry (furthest f) offset j - j \<le> m \<longrightarrow>
        check j (entry (furthest f) offset j) (entry (furthest f) offset j - j) = Some None)"
      using inv j unfolding searching_def by blast
    moreover have "entry v offset j = entry (furthest f) offset j"
      using new(3) [rule_format, of j] calculation j(3) k(2) by auto
    ultimately show ?thesis by simp
  qed
  have at_k: "entry v offset k = X" using new(3) [rule_format, of k] kd k(2) by simp
  have below: "j < k \<or> j = k" if "even (j - d)" "j < k + 2" for j
    using that base(2) by presburger
  have seen: "\<bar>j\<bar> \<le> d \<and> known n m S d j (entry v offset j) \<and>
      (entry v offset j \<le> n \<and> entry v offset j - j \<le> m \<longrightarrow>
        check j (entry v offset j) (entry v offset j - j) = Some None)"
    if ok: "n < X \<or> m < X - k \<or> check k X (X - k) = Some None"
      and j: "even (j - d)" "- d + trimStart f0 \<le> j" "j < k + 2" for j
    using below [OF j(1,3)] old [OF j(1,2)] at_k ok new(1) kd by auto
  show "searching n m S check offset d f0 (k + 2) (f\<lparr>furthest := v, trimEnd := trimEnd f + 2\<rparr>)" if "n < X"
    unfolding searching_def using base bound that k(1) new(2) kept seen by auto
  show "searching n m S check offset d f0 (k + 2) (f\<lparr>furthest := v, trimStart := trimStart f + 2\<rparr>)"
    if "X \<le> n" "m < X - k"
    unfolding searching_def using base bound that k(1) new(2) kept seen by auto
  show "searching n m S check offset d f0 (k + 2) (f\<lparr>furthest := v\<rparr>)" if "check k X (X - k) = Some None"
    unfolding searching_def using base that new(2) kept seen by auto
qed

text \<open>What half a round returns: a meeting that its check reports, or the frontier at the end of the loop.\<close>

definition half_round :: "int \<Rightarrow> int \<Rightarrow> grid \<Rightarrow> (int \<Rightarrow> int \<Rightarrow> int \<Rightarrow> (int \<times> int) option option) \<Rightarrow>
    int \<Rightarrow> int \<Rightarrow> frontier \<Rightarrow> search \<Rightarrow> bool" where
  "half_round n m S check offset d f0 r \<longleftrightarrow> (case r of
     Met p \<Rightarrow> \<exists>k X. \<bar>k\<bar> \<le> d \<and> even (k - d) \<and> known n m S d k X \<and> X \<le> n \<and> X - k \<le> m \<and>
       check k X (X - k) = Some (Some p)
   | Searching f \<Rightarrow> \<exists>k. searching n m S check offset d f0 k f \<and> d - trimEnd f < k)"

lemma search_loop_half_round:
  assumes sr: "searched n m S offset d f0" and cmp: "compares n m S eq" and grid: "0 \<le> n" "0 \<le> m"
    and far: "0 \<le> d" "2 * d - 1 \<le> to_go n m S 0 0" "d < offset"
    and total: "\<And>k x y. \<bar>k\<bar> \<le> d \<Longrightarrow> check k x y \<noteq> None"
    and inv: "searching n m S check offset d f0 k f"
  shows "\<exists>r. search_loop eq check n m offset d k f = Some r \<and> half_round n m S check offset d f0 r"
  using inv
proof (induction "nat (d - trimEnd f - k + 2)" arbitrary: k f rule: less_induct)
  case less
  note inv = less.prems
  show ?case
  proof (cases "k \<le> d - trimEnd f")
    case False
    then show ?thesis
      using inv by (subst search_loop.simps) (auto simp: half_round_def)
  next
    case True
    have trims: "0 \<le> trimStart f0" "0 \<le> trimEnd f0" using searched_trims [OF sr] by simp_all
    have k: "even (k - d)" "- d + trimStart f0 \<le> k" "k \<le> d - trimEnd f0"
      and len: "length (furthest f) = nat (2 * offset + 1)"
      using inv True by (auto simp: searching_def)
    have kd: "\<bar>k\<bar> \<le> d" using k trims by linarith
    have near: "entry (furthest f) offset (k - 1) = entry (furthest f0) offset (k - 1)"
      "entry (furthest f) offset (k + 1) = entry (furthest f0) offset (k + 1)"
    proof -
      have "odd (k - 1 - d)" "odd (k + 1 - d)" using k(1) by presburger+
      moreover have "\<bar>k - 1\<bar> \<le> offset" "\<bar>k + 1\<bar> \<le> offset" using kd far(3) by linarith+
      ultimately show "entry (furthest f) offset (k - 1) = entry (furthest f0) offset (k - 1)"
        "entry (furthest f) offset (k + 1) = entry (furthest f0) offset (k + 1)"
        using inv unfolding searching_def by blast+
    qed
    obtain x0 X where x0: "diagonal_start (furthest f) offset d k = Some x0"
      and X: "slide eq n m x0 (x0 - k) = Some (X, X - k)" and new: "known n m S d k X"
      using visit_known [OF sr cmp grid far k len near] by blast
    obtain v where v: "vec_set (furthest f) offset k X = Some v" "length v = nat (2 * offset + 1)"
      "\<forall>j. \<bar>j\<bar> \<le> offset \<longrightarrow> entry v offset j = (if j = k then X else entry (furthest f) offset j)"
      using vec_set_entry [OF len, of k X] kd far(3) len by auto
    note turn = searching_turn [OF inv True far(3) trims new v(2,3)]
    have loop: "search_loop eq check n m offset d k f =
      (if X > n then search_loop eq check n m offset d (k + 2) (f\<lparr>furthest := v, trimEnd := trimEnd f + 2\<rparr>)
       else if X - k > m then
         search_loop eq check n m offset d (k + 2) (f\<lparr>furthest := v, trimStart := trimStart f + 2\<rparr>)
       else check k X (X - k) \<bind> (\<lambda>met. case met of
           Some p \<Rightarrow> Some (Met p)
         | None \<Rightarrow> search_loop eq check n m offset d (k + 2) (f\<lparr>furthest := v\<rparr>)))"
      using True x0 X v(1) by (subst search_loop.simps) simp
    consider "X > n" | "X \<le> n" "X - k > m" | p where "X \<le> n" "X - k \<le> m" "check k X (X - k) = Some (Some p)"
      | "X \<le> n" "X - k \<le> m" "check k X (X - k) = Some None"
      using total [OF kd, of X "X - k"] by (cases "check k X (X - k)"; cases "the (check k X (X - k))") force+
    then show ?thesis
    proof cases
      case 1
      then show ?thesis using less.hyps [OF _ turn(1) [OF 1]] True by (simp add: loop)
    next
      case 2
      then show ?thesis using less.hyps [OF _ turn(2) [OF 2]] True by (simp add: loop)
    next
      case 3
      then have "half_round n m S check offset d f0 (Met p)"
        using kd k(1) new unfolding half_round_def by auto
      with 3 show ?thesis by (simp add: loop)
    next
      case 4
      then show ?thesis using less.hyps [OF _ turn(3) [OF 4(3)]] True by (simp add: loop)
    qed
  qed
qed

text \<open>The diagonal of an optimal point is never trimmed away.\<close>

lemma optimal_parity:
  assumes "optimal n m S d x y" "0 \<le> n" "0 \<le> m"
  shows "even (d - (x - y))"
  using assms
proof (induction d x y rule: optimal_induct)
  case (right d x y)
  then show ?case by presburger
next
  case (down d x y)
  then show ?case by presburger
qed simp_all

lemma optimal_visited:
  assumes sr: "searched n m S offset d f0" and grid: "0 \<le> n" "0 \<le> m"
    and inv: "searching n m S check offset d f0 k f" "d - trimEnd f < k"
    and opt: "optimal n m S d x y"
  shows "even (x - y - d)" "- d + trimStart f0 \<le> x - y" "x - y < k"
proof -
  have reach: "reach n m S d x y" and D: "to_go n m S 0 0 = d + to_go n m S x y"
    using opt by (simp_all add: optimal_def)
  note b = reach_bounds [OF reach grid]
  have far: "(n - m) - (x - y) \<le> to_go n m S x y" "(x - y) - (n - m) \<le> to_go n m S x y"
    using to_go_ge_shift [OF b(2,4), of S] by (simp_all add: abs_le_iff)
  show "even (x - y - d)" using optimal_parity [OF opt grid] by presburger
  have "trimStart f0 = 0 \<or> to_go n m S 0 0 \<le> 2 * (d - 1) + (n - m) - trimStart f0"
    using sr by (auto simp: searched_def)
  then show "- d + trimStart f0 \<le> x - y" using b(5) far(1) D by arith
  have "trimEnd f = 0 \<or> to_go n m S 0 0 \<le> 2 * d - (n - m) - trimEnd f"
    using inv(1) by (simp add: searching_def)
  then show "x - y < k" using b(5) far(2) D inv(2) by arith
qed

lemma half_round_searched:
  assumes sr: "searched n m S offset d f0" and grid: "0 \<le> n" "0 \<le> m"
    and far: "0 \<le> d" "2 * d - 1 \<le> to_go n m S 0 0" "d < offset"
    and inv: "searching n m S check offset d f0 k f" "d - trimEnd f < k"
  shows "searched n m S offset (d + 1) f"
proof -
  let ?e = "entry (furthest f) offset"
  have seen: "known n m S d j (?e j)" if "even (j - d)" "- d + trimStart f0 \<le> j" "j < k" for j
    using inv(1) that unfolding searching_def by blast
  have kept: "?e j = entry (furthest f0) offset j"
    if "\<bar>j\<bar> \<le> offset" "odd (j - d) \<or> k \<le> j \<or> j < - d + trimStart f0" for j
    using inv(1) that unfolding searching_def by blast
  have trims: "0 \<le> trimStart f0" "0 \<le> trimEnd f0" "trimStart f0 \<le> trimStart f" "trimEnd f0 \<le> trimEnd f"
    using searched_trims [OF sr] inv(1) by (simp_all add: searching_def)
  have marker: "- 1 + trimStart f0 \<le> 1 \<and> 1 < k" if d: "d = 1"
  proof -
    have "trimStart f0 + trimEnd f0 \<le> 0" using trims_apart [OF sr grid] far(2) d by simp
    moreover have "trimEnd f = trimEnd f0 \<or> to_go n m S 0 0 \<le> d + k - (n - m) - 4"
      using inv(1) by (simp add: searching_def)
    ultimately show ?thesis using to_go_corner_ge [OF grid, of S] trims inv(2) d by arith
  qed
  have sound: "?e j = - 1 \<or> (d + 1 \<le> 1 \<and> j = 1) \<or> within n m S d (?e j) (?e j - j)" if j: "\<bar>j\<bar> \<le> offset" for j
  proof (cases "even (j - d) \<and> - d + trimStart f0 \<le> j \<and> j < k")
    case True
    then show ?thesis using seen [of j] by (simp add: known_def)
  next
    case False
    then have eq: "?e j = entry (furthest f0) offset j" using kept [OF j] by (meson not_less)
    show ?thesis
    proof (cases "d \<le> 1 \<and> j = 1")
      case True
      then show ?thesis using marker False far(1) by (cases "d = 1") auto
    next
      case no_marker: False
      then show ?thesis
        using searched_entry [OF sr j no_marker] eq within_mono [of n m S "d - 1" _ _ d] by auto
    qed
  qed
  have dominates: "x \<le> ?e (x - y)" if "optimal n m S d x y" for x y
    using seen [OF optimal_visited [OF sr grid inv that]] that by (simp add: known_def)
  have visited: "known n m S d j (?e j)" if "even (j - d)" "- d + trimStart f \<le> j" "j \<le> d - trimEnd f" for j
    using seen [of j] that trims(3) inv(2) by simp
  have rest: "length (furthest f) = nat (2 * offset + 1)" "even (trimStart f)" "even (trimEnd f)"
    "trimStart f = 0 \<or> to_go n m S 0 0 \<le> 2 * d + (n - m) - trimStart f"
    "trimEnd f = 0 \<or> to_go n m S 0 0 \<le> 2 * d - (n - m) - trimEnd f"
    using inv(1) by (simp_all add: searching_def)
  show ?thesis
    unfolding searched_def using rest trims sound dominates visited far(1) by simp
qed

section \<open>The two directions meet\<close>

lemma to_go_parity: "0 \<le> n \<Longrightarrow> 0 \<le> m \<Longrightarrow> even (to_go n m S 0 0 - (n - m))"
proof -
  assume grid: "0 \<le> n" "0 \<le> m"
  let ?D = "to_go n m S 0 0"
  obtain x y where "optimal n m S ?D x y"
    using optimal_exists [OF grid to_go_nonneg order_refl] by blast
  then have opt: "optimal n m S ?D x y" "to_go n m S x y = 0" by (simp_all add: optimal_def)
  have "reach n m S ?D x y" using opt(1) by (simp add: optimal_def)
  note b = reach_bounds [OF this grid]
  have "x - y = n - m" using to_go_ge_shift [OF b(2,4), of S] opt(2) by simp
  then show ?thesis using optimal_parity [OF opt(1) grid] by simp
qed

lemma within_in_range:
  assumes "within n m S e X (X - j)" "e - 2 + \<bar>(n - m) - j\<bar> < to_go n m S 0 0"
  shows "X \<le> n \<and> X - j \<le> m"
  using assms by (auto simp: within_def abs_if split: if_splits)

text \<open>A point of one direction that has passed one of the other, on the same diagonal.\<close>

lemma passed_is_optimal:
  assumes grid: "0 \<le> n" "0 \<le> m"
    and fwd: "reach n m S d X (X - k)" and bwd: "reach n m (turned n m S) e v (v - ((n - m) - k))"
    and passed: "n - v \<le> X" and D: "d + e \<le> to_go n m S 0 0"
  shows "optimal n m S d X (X - k)" "to_go n m S 0 0 = d + e"
proof -
  note b = reach_bounds [OF fwd grid]
  have "to_go n m S (n - v) (m - (v - ((n - m) - k))) \<le> e"
    by (rule reach_turned_to_go [OF bwd grid])
  moreover have "to_go n m S (n - v + (X - (n - v))) (n - v - k + (X - (n - v))) \<le> to_go n m S (n - v) (n - v - k)"
    by (rule to_go_along_diagonal) (use passed b in auto)
  ultimately have "to_go n m S X (X - k) \<le> e" by (simp add: algebra_simps)
  then show "optimal n m S d X (X - k)" "to_go n m S 0 0 = d + e"
    using fwd reach_to_go [OF fwd grid] D by (simp_all add: optimal_def)
qed

lemma check_total: "forward_check v offset n m a0 b0 k x y \<noteq> None" "backward_check v offset n m a0 b0 k x y \<noteq> None"
  by (auto simp: forward_check_def backward_check_def in_vector_def vec_at_def Let_def)

text \<open>The checks, where the other vector is as long as it should be.\<close>

lemma in_vector_iff: "length v = nat (2 * offset + 1) \<Longrightarrow> 0 \<le> offset \<Longrightarrow> in_vector v offset j \<longleftrightarrow> \<bar>j\<bar> \<le> offset"
  by (auto simp: in_vector_def abs_le_iff)

lemma forward_check_eq:
  assumes "length v = nat (2 * offset + 1)" "0 \<le> offset"
  shows "forward_check v offset n m a0 b0 k x y =
    Some (if odd (n - m) \<and> \<bar>(n - m) - k\<bar> \<le> offset \<and> entry v offset ((n - m) - k) \<noteq> - 1 \<and>
        n - entry v offset ((n - m) - k) \<le> x then Some (a0 + x, b0 + y) else None)"
  by (auto simp: forward_check_def in_vector_iff [OF assms] vec_at_entry [OF assms(1)] Let_def)

lemma backward_check_eq:
  assumes "length v = nat (2 * offset + 1)" "0 \<le> offset"
  shows "backward_check v offset n m a0 b0 k x y =
    Some (if even (n - m) \<and> \<bar>(n - m) - k\<bar> \<le> offset \<and> entry v offset ((n - m) - k) \<noteq> - 1 \<and>
        n - x \<le> entry v offset ((n - m) - k)
      then Some (a0 + entry v offset ((n - m) - k), b0 + entry v offset ((n - m) - k) - ((n - m) - k)) else None)"
  by (auto simp: backward_check_def in_vector_iff [OF assms] vec_at_entry [OF assms(1)] Let_def)

text \<open>What a check that reports has found.\<close>

lemma forward_meeting:
  assumes grid: "0 \<le> n" "0 \<le> m" and bw: "searched n m (turned n m S) offset d bw"
    and far: "0 \<le> d" "2 * d - 1 \<le> to_go n m S 0 0" "1 \<le> offset"
    and met: "half_round n m S (forward_check (furthest bw) offset n m a0 b0) offset d fw (Met (i, j))"
  shows "optimal n m S ((to_go n m S 0 0 + 1) div 2) (i - a0) (j - b0)"
proof -
  let ?D = "to_go n m S 0 0"
  obtain k X where k: "\<bar>k\<bar> \<le> d" "even (k - d)" "known n m S d k X" "X \<le> n" "X - k \<le> m"
    "forward_check (furthest bw) offset n m a0 b0 k X (X - k) = Some (Some (i, j))"
    using met by (auto simp: half_round_def)
  define v where "v = entry (furthest bw) offset ((n - m) - k)"
  have c: "odd (n - m)" "\<bar>(n - m) - k\<bar> \<le> offset" "v \<noteq> - 1" "n - v \<le> X" "i = a0 + X" "j = b0 + (X - k)"
    using k(6) far(3) by (auto simp: forward_check_eq [OF searched_length [OF bw]] v_def split: if_splits)
  have fwd: "reach n m S d X (X - k)" using k(3-5) by (simp add: known_def within_def)
  have no_marker: "\<not> (d \<le> 1 \<and> (n - m) - k = 1)"
  proof
    assume marker: "d \<le> 1 \<and> (n - m) - k = 1"
    then have "d = 0" using c(1) k(2) far(1) by presburger
    then have "v = 0" "k = 0" using bw marker k(1) by (auto simp: searched_def v_def)
    then show False using marker c(4) k(5) by simp
  qed
  then have "within n m (turned n m S) (d - 1) v (v - ((n - m) - k))"
    using searched_entry [OF bw c(2) no_marker] c(3) by (simp add: v_def)
  moreover then have "v \<le> n \<and> v - ((n - m) - k) \<le> m"
    by (rule within_in_range) (use k(1) far(2) in \<open>simp add: to_go_turned grid\<close>)
  ultimately have bwd: "reach n m (turned n m S) (d - 1) v (v - ((n - m) - k))"
    by (simp add: within_def)
  have D: "d + (d - 1) \<le> ?D" using far(2) by simp
  note opt = passed_is_optimal [OF grid fwd bwd c(4) D]
  then have "(?D + 1) div 2 = d" by simp
  then show ?thesis using opt c(5,6) by simp
qed

lemma backward_meeting:
  assumes grid: "0 \<le> n" "0 \<le> m" and fw: "searched n m S offset (d + 1) fw"
    and far: "0 \<le> d" "2 * d - 1 \<le> to_go n m S 0 0" "1 \<le> offset"
    and met: "half_round n m (turned n m S) (backward_check (furthest fw) offset n m a0 b0) offset d bw (Met (i, j))"
  shows "optimal n m S ((to_go n m S 0 0 + 1) div 2) (i - a0) (j - b0)"
proof -
  let ?D = "to_go n m S 0 0"
  obtain k X where k: "\<bar>k\<bar> \<le> d" "even (k - d)" "known n m (turned n m S) d k X" "X \<le> n" "X - k \<le> m"
    "backward_check (furthest fw) offset n m a0 b0 k X (X - k) = Some (Some (i, j))"
    using met by (auto simp: half_round_def)
  define v where "v = entry (furthest fw) offset ((n - m) - k)"
  have c: "even (n - m)" "\<bar>(n - m) - k\<bar> \<le> offset" "v \<noteq> - 1" "n - X \<le> v" "i = a0 + v" "j = b0 + v - ((n - m) - k)"
    using k(6) far(3) by (auto simp: backward_check_eq [OF searched_length [OF fw]] v_def split: if_splits)
  have D: "2 * d \<le> ?D" using to_go_parity [OF grid, of S] c(1) far(2) by presburger
  have bwd: "reach n m (turned n m S) d X (X - k)" using k(3-5) by (simp add: known_def within_def)
  have "d = 0 \<Longrightarrow> k = 0" using k(1) by simp
  then have "\<not> (d + 1 \<le> 1 \<and> (n - m) - k = 1)" using far(1) c(1) by presburger
  then have "within n m S d v (v - ((n - m) - k))"
    using searched_entry [OF fw c(2)] c(3) by (simp add: v_def)
  moreover then have "v \<le> n \<and> v - ((n - m) - k) \<le> m"
    by (rule within_in_range) (use k(1) D in simp)
  ultimately have fwd: "reach n m S d v (v - ((n - m) - k))" by (simp add: within_def)
  have "n - X \<le> v" "d + d \<le> ?D" using c(4) D by simp_all
  have "reach n m (turned n m S) d X (X - ((n - m) - ((n - m) - k)))" using bwd by simp
  note opt = passed_is_optimal [OF grid fwd this \<open>n - X \<le> v\<close> \<open>d + d \<le> ?D\<close>]
  then have "(?D + 1) div 2 = d" by simp
  moreover have "i - a0 = v" "j - b0 = v - ((n - m) - k)" using c(5,6) by simp_all
  ultimately show ?thesis using opt(1) by simp
qed

text \<open>A round that reports nothing rules its distance out.\<close>

lemma forward_no_meeting:
  assumes grid: "0 \<le> n" "0 \<le> m" and fw: "searched n m S offset d fw" and bw: "searched n m (turned n m S) offset d bw"
    and far: "0 \<le> d" "2 * d - 1 \<le> to_go n m S 0 0" "d < offset"
    and inv: "searching n m S (forward_check (furthest bw) offset n m a0 b0) offset d fw k f" "d - trimEnd f < k"
  shows "2 * d \<le> to_go n m S 0 0"
proof (rule ccontr)
  let ?D = "to_go n m S 0 0"
  assume "\<not> 2 * d \<le> ?D"
  then have D: "?D = 2 * d - 1" using far(2) by simp
  then have d: "1 \<le> d" and odd: "odd (n - m)" using to_go_nonneg [of n m S 0 0] to_go_parity [OF grid, of S] by presburger+
  obtain x y where opt: "optimal n m S d x y" using optimal_exists [OF grid far(1), of S] D d by auto
  have bopt: "optimal n m (turned n m S) (d - 1) (n - x) (m - y)"
    using optimal_turned [OF opt grid] D by simp
  define v where "v = entry (furthest bw) offset ((n - m) - (x - y))"
  have v: "n - x \<le> v" using searched_dominates [OF bw d bopt] by (simp add: v_def algebra_simps)
  have "reach n m S d x y" using opt by (simp add: optimal_def)
  note b = reach_bounds [OF this grid]
  have diag: "\<bar>(n - m) - (x - y)\<bar> \<le> d - 1"
    using to_go_ge_shift [OF b(2,4), of S] opt D by (simp add: optimal_def)
  define X where "X = entry (furthest f) offset (x - y)"
  note visited = optimal_visited [OF fw grid inv opt]
  have X: "known n m S d (x - y) X"
    "X \<le> n \<and> X - (x - y) \<le> m \<longrightarrow>
      forward_check (furthest bw) offset n m a0 b0 (x - y) X (X - (x - y)) = Some None"
    using inv(1) visited unfolding searching_def X_def by blast+
  have "x \<le> X" using X(1) opt by (simp add: known_def)
  moreover have "X \<le> n \<and> X - (x - y) \<le> m"
    by (rule within_in_range [of n m S d]) (use X(1) diag D in \<open>simp_all add: known_def\<close>)
  ultimately show False
    using X(2) v b odd diag far(3) d
    by (simp add: forward_check_eq [OF searched_length [OF bw]] flip: v_def)
qed

lemma backward_no_meeting:
  assumes grid: "0 \<le> n" "0 \<le> m" and fw: "searched n m S offset (d + 1) fw"
    and bw: "searched n m (turned n m S) offset d bw"
    and far: "0 \<le> d" "2 * d \<le> to_go n m S 0 0" "d < offset"
    and inv: "searching n m (turned n m S) (backward_check (furthest fw) offset n m a0 b0) offset d bw k f"
      "d - trimEnd f < k"
  shows "2 * (d + 1) - 1 \<le> to_go n m S 0 0"
proof (rule ccontr)
  let ?D = "to_go n m S 0 0"
  assume "\<not> 2 * (d + 1) - 1 \<le> ?D"
  then have D: "?D = 2 * d" using far(2) by simp
  then have even: "even (n - m)" using to_go_parity [OF grid, of S] by presburger
  obtain x y where opt: "optimal n m S d x y" using optimal_exists [OF grid far(1), of S] D far(1) by auto
  have bopt: "optimal n m (turned n m S) d (n - x) (m - y)"
    using optimal_turned [OF opt grid] D by simp
  have "reach n m S d x y" using opt by (simp add: optimal_def)
  note b = reach_bounds [OF this grid]
  define v where "v = entry (furthest fw) offset (x - y)"
  have v: "x \<le> v" using searched_dominates [OF fw, of x y] opt far(1) by (simp add: v_def)
  let ?k = "(n - x) - (m - y)"
  define X where "X = entry (furthest f) offset ?k"
  note visited = optimal_visited [OF bw grid inv bopt]
  have X: "known n m (turned n m S) d ?k X"
    "X \<le> n \<and> X - ?k \<le> m \<longrightarrow>
      backward_check (furthest fw) offset n m a0 b0 ?k X (X - ?k) = Some None"
    using inv(1) visited unfolding searching_def X_def by blast+
  have "n - x \<le> X" using X(1) bopt by (simp add: known_def)
  moreover have "X \<le> n \<and> X - ?k \<le> m"
    by (rule within_in_range [of n m "turned n m S" d]) (use X(1) b D in \<open>simp_all add: known_def to_go_turned grid\<close>)
  moreover have "(n - m) - ?k = x - y" by simp
  ultimately show False
    using X(2) v b even far(1,3)
    by (simp add: backward_check_eq [OF searched_length [OF fw]] flip: v_def)
qed

text \<open>
  The rounds return: either with the halfway point of a shortest path, or, when the work limit
  is reached, knowing that the texts differ by more than the limit.
\<close>

lemma snake_rounds_result:
  assumes grid: "0 \<le> n" "0 \<le> m" and eqf: "compares n m S eqf" and eqb: "compares n m (turned n m S) eqb"
    and "0 \<le> d" "d \<le> maxD" "2 * d - 1 \<le> to_go n m S 0 0"
    and "searched n m S (maxD + 1) d fw" "searched n m (turned n m S) (maxD + 1) d bw"
  shows "\<exists>r. snake_rounds eqf eqb n m a0 b0 maxD d fw bw = Some r \<and>
    (case r of Some (i, j) \<Rightarrow> optimal n m S ((to_go n m S 0 0 + 1) div 2) (i - a0) (j - b0)
     | None \<Rightarrow> 2 * maxD - 1 \<le> to_go n m S 0 0)"
  using assms(5-9)
proof (induction "nat (maxD - d)" arbitrary: d fw bw rule: less_induct)
  case less
  note d = less.prems(1-3) and fw = less.prems(4) and bw = less.prems(5)
  show ?case
  proof (cases "d < maxD")
    case False
    then have "snake_rounds eqf eqb n m a0 b0 maxD d fw bw = Some None"
      by (subst snake_rounds.simps) simp
    then show ?thesis using False d(2,3) by simp
  next
    case True
    then have off: "d < maxD + 1" "1 \<le> maxD + 1" using d(1) by simp_all
    let ?fc = "forward_check (furthest bw) (maxD + 1) n m a0 b0"
    have unfold: "snake_rounds eqf eqb n m a0 b0 maxD d fw bw =
      search_loop eqf ?fc n m (maxD + 1) d (- d + trimStart fw) fw \<bind> (\<lambda>r. case r of
        Met p \<Rightarrow> Some (Some p)
      | Searching fw' \<Rightarrow>
          search_loop eqb (backward_check (furthest fw') (maxD + 1) n m a0 b0) n m (maxD + 1) d (- d + trimStart bw) bw
            \<bind> (\<lambda>r'. case r' of
              Met p \<Rightarrow> Some (Some p)
            | Searching bw' \<Rightarrow> snake_rounds eqf eqb n m a0 b0 maxD (d + 1) fw' bw'))"
      using True by (subst snake_rounds.simps) simp
    obtain r where r: "search_loop eqf ?fc n m (maxD + 1) d (- d + trimStart fw) fw = Some r"
      "half_round n m S ?fc (maxD + 1) d fw r"
      using search_loop_half_round [where check = ?fc, OF fw eqf grid d(1,3) off(1) check_total(1) searching_start [OF fw]] by blast
    show ?thesis
    proof (cases r)
      case (Met p)
      then show ?thesis
        using forward_meeting [OF grid bw d(1,3) off(2)] r unfold by (cases p) auto
    next
      case (Searching fw')
      then obtain k where inv: "searching n m S ?fc (maxD + 1) d fw k fw'" "d - trimEnd fw' < k"
        using r(2) by (auto simp: half_round_def)
      note fw' = half_round_searched [OF fw grid d(1,3) off(1) inv]
      note D = forward_no_meeting [OF grid fw bw d(1,3) off(1) inv]
      let ?bc = "backward_check (furthest fw') (maxD + 1) n m a0 b0"
      have D': "2 * d - 1 \<le> to_go n m (turned n m S) 0 0" using d(3) by (simp add: to_go_turned grid)
      obtain r' where r': "search_loop eqb ?bc n m (maxD + 1) d (- d + trimStart bw) bw = Some r'"
        "half_round n m (turned n m S) ?bc (maxD + 1) d bw r'"
        using search_loop_half_round [where check = ?bc, OF bw eqb grid d(1) D' off(1) check_total(2) searching_start [OF bw]] by blast
      show ?thesis
      proof (cases r')
        case (Met p)
        then show ?thesis
          using backward_meeting [OF grid fw' d(1,3) off(2)] r(1) r' unfold Searching by (cases p) auto
      next
        case bwd: (Searching bw')
        then obtain k where inv': "searching n m (turned n m S) ?bc (maxD + 1) d bw k bw'" "d - trimEnd bw' < k"
          using r'(2) by (auto simp: half_round_def)
        note bw' = half_round_searched [OF bw grid d(1) D' off(1) inv']
        note next_D = backward_no_meeting [OF grid fw' bw d(1) D off(1) inv']
        have "snake_rounds eqf eqb n m a0 b0 maxD d fw bw = snake_rounds eqf eqb n m a0 b0 maxD (d + 1) fw' bw'"
          using r(1) r'(1) unfold Searching bwd by simp
        then show ?thesis
          using less.hyps [OF _ _ _ next_D fw' bw'] True d(1) by simp
      qed
    qed
  qed
qed

text \<open>\<open>MiddleSnake\<close> on a range of two texts.\<close>

definition range_grid :: "bytes list \<Rightarrow> bytes list \<Rightarrow> int \<Rightarrow> int \<Rightarrow> grid" where
  "range_grid a b a0 b0 = (\<lambda>x y. a ! nat (a0 + x) = b ! nat (b0 + y))"

lemma middle_snake_result:
  fixes a b :: "bytes list"
  assumes "0 \<le> a0" "a0 \<le> a1" "a1 \<le> int (length a)" "0 \<le> b0" "b0 \<le> b1" "b1 \<le> int (length b)"
    and "0 \<le> halfLimit"
  defines "n \<equiv> a1 - a0" and "m \<equiv> b1 - b0" and "S \<equiv> range_grid a b a0 b0"
  shows "\<exists>r. middle_snake a b halfLimit a0 a1 b0 b1 = Some r \<and>
    (case r of Some (i, j) \<Rightarrow> optimal n m S ((to_go n m S 0 0 + 1) div 2) (i - a0) (j - b0)
     | None \<Rightarrow> 2 * min ((n + m + 1) div 2) halfLimit - 1 \<le> to_go n m S 0 0)"
proof -
  let ?maxD = "min ((n + m + 1) div 2) halfLimit"
  have grid: "0 \<le> n" "0 \<le> m" using assms by simp_all
  have maxD: "0 \<le> ?maxD" using grid assms(7) by simp
  have f: "compares n m S (\<lambda>x y. same a b (a0 + x) (b0 + y))"
    using assms by (simp add: compares_def same_def range_grid_def)
  have b: "compares n m (turned n m S) (\<lambda>x y. same a b (a1 - x - 1) (b1 - y - 1))"
    using assms by (simp add: compares_def same_def range_grid_def turned_def algebra_simps)
  have first: "searched n m S (?maxD + 1) 0 (first_frontier (?maxD + 1))" for S
    using searched_first [of "?maxD + 1" n m S] maxD by simp
  have "2 * 0 - 1 \<le> to_go n m S 0 0" using to_go_nonneg [of n m S 0 0] by linarith
  from snake_rounds_result [OF grid f b order_refl maxD this first first, of a0 b0]
  show ?thesis by (simp add: middle_snake_def n_def m_def Let_def)
qed

end
