(* ===== verification/LineDiffScript.thy ===== *)
theory LineDiffScript
  imports LineDiffSearch
begin

text \<open>
  The hunks \<open>DiffLines\<close> of \<open>Source/Text/LineDiff.cpp\<close> returns, and the view \<open>UnifiedDiff\<close>
  renders from them.

  \<open>script\<close> says that a hunk list accounts for the two texts up to two positions; \<open>Compare\<close>
  extends it over its range, at a cost of the range's edit distance when the work limit is not
  reached.
\<close>

section \<open>Ranges of the grid\<close>

lemma to_go_shift: "to_go (n - x) (m - y) (\<lambda>u v. S (x + u) (y + v)) u v = to_go n m S (x + u) (y + v)"
proof (induction "n - x" "m - y" "\<lambda>u v. S (x + u) (y + v)" u v rule: to_go.induct)
  case (1 u v)
  have lt: "u < n - x \<longleftrightarrow> x + u < n" "v < m - y \<longleftrightarrow> y + v < m" by auto
  show ?case
  proof (cases "x + u < n \<and> y + v < m")
    case True
    then show ?thesis
      using 1 lt by (subst (1 2) to_go.simps) (simp add: Let_def add.assoc [symmetric])
  next
    case False
    then show ?thesis using lt by (subst (1 2) to_go.simps) (auto simp: Let_def)
  qed
qed

lemma reach_shrink: "reach n m S d x y \<Longrightarrow> x \<le> n' \<Longrightarrow> y \<le> m' \<Longrightarrow> reach n' m' S d x y"
proof (induction rule: reach.induct)
  case reach_start
  show ?case by (rule reach.reach_start)
next
  case (reach_later d x y)
  then show ?case by (simp add: reach.reach_later)
next
  case (reach_right d x y)
  then show ?case by (simp add: reach.reach_right)
next
  case (reach_down d x y)
  then show ?case by (simp add: reach.reach_down)
next
  case (reach_match d x y)
  then show ?case by (simp add: reach.reach_match)
qed

text \<open>The edit distance of two ranges, and how trimming and splitting act on it.\<close>

definition range_distance :: "bytes list \<Rightarrow> bytes list \<Rightarrow> int \<Rightarrow> int \<Rightarrow> int \<Rightarrow> int \<Rightarrow> int" where
  "range_distance a b a0 a1 b0 b1 = to_go (a1 - a0) (b1 - b0) (range_grid a b a0 b0) 0 0"

lemma range_distance_from:
  "range_distance a b (a0 + x) a1 (b0 + y) b1 = to_go (a1 - a0) (b1 - b0) (range_grid a b a0 b0) x y"
  using to_go_shift [of "a1 - a0" x "b1 - b0" y "range_grid a b a0 b0" 0 0]
  by (simp add: range_distance_def range_grid_def algebra_simps)

lemma range_distance_trim_front:
  assumes "a0 < a1" "b0 < b1" "a ! nat a0 = b ! nat b0"
  shows "range_distance a b (a0 + 1) a1 (b0 + 1) b1 = range_distance a b a0 a1 b0 b1"
  using assms to_go_match [of 0 "a1 - a0" 0 "b1 - b0" "range_grid a b a0 b0"]
  by (simp add: range_distance_from) (simp add: range_distance_def range_grid_def)

lemma range_distance_trim_back:
  assumes "a0 < a1" "b0 < b1" "a ! nat (a1 - 1) = b ! nat (b1 - 1)"
  shows "range_distance a b a0 (a1 - 1) b0 (b1 - 1) = range_distance a b a0 a1 b0 b1"
proof -
  let ?n = "a1 - a0" and ?m = "b1 - b0" and ?S = "range_grid a b a0 b0"
  have "to_go ?n ?m ?S 0 0 = to_go ?n ?m (turned ?n ?m ?S) 0 0"
    using assms by (simp add: to_go_turned)
  also have "\<dots> = to_go ?n ?m (turned ?n ?m ?S) 1 1"
    using assms to_go_match [of 0 ?n 0 ?m "turned ?n ?m ?S"] by (simp add: turned_def range_grid_def)
  also have "\<dots> = to_go (?n - 1) (?m - 1) (\<lambda>u v. turned ?n ?m ?S (1 + u) (1 + v)) 0 0"
    using to_go_shift [of ?n 1 ?m 1 "turned ?n ?m ?S" 0 0] by simp
  also have "(\<lambda>u v. turned ?n ?m ?S (1 + u) (1 + v)) = turned (?n - 1) (?m - 1) ?S"
    by (simp add: turned_def fun_eq_iff algebra_simps)
  also have "to_go (?n - 1) (?m - 1) (turned (?n - 1) (?m - 1) ?S) 0 0 = to_go (?n - 1) (?m - 1) ?S 0 0"
    using assms by (intro to_go_turned) auto
  finally show ?thesis by (simp add: range_distance_def algebra_simps)
qed

lemma range_distance_split:
  assumes "optimal (a1 - a0) (b1 - b0) (range_grid a b a0 b0) e (i - a0) (j - b0)" "a0 \<le> a1" "b0 \<le> b1"
  shows "range_distance a b a0 i b0 j + range_distance a b i a1 j b1 \<le> range_distance a b a0 a1 b0 b1"
proof -
  let ?n = "a1 - a0" and ?m = "b1 - b0" and ?S = "range_grid a b a0 b0"
  have r: "reach ?n ?m ?S e (i - a0) (j - b0)" "to_go ?n ?m ?S (i - a0) (j - b0) = to_go ?n ?m ?S 0 0 - e"
    using assms(1) by (simp_all add: optimal_def)
  note b = reach_bounds [OF r(1)]
  have "to_go (i - a0) (j - b0) ?S 0 0 \<le> e"
    using reach_to_go [OF reach_shrink [OF r(1) order_refl order_refl]] b assms(2,3) by simp
  moreover have "range_distance a b i a1 j b1 = to_go ?n ?m ?S (i - a0) (j - b0)"
    using range_distance_from [of a b a0 "i - a0" a1 b0 "j - b0" b1] by simp
  ultimately show ?thesis using r(2) by (simp add: range_distance_def)
qed

text \<open>Two ranges that agree in neither their first nor their last line differ by two edits at least.\<close>

lemma to_go_0_diagonal:
  "to_go n m S x y = 0 \<Longrightarrow> x \<le> n \<Longrightarrow> y \<le> m \<Longrightarrow> n - x = m - y \<and> (x < n \<longrightarrow> S (n - 1) (m - 1))"
proof (induction n m S x y rule: to_go.induct)
  case (1 n m S x y)
  have eq: "n - x = m - y" using to_go_ge_shift [of x n y m S] 1(4-6) by simp
  have "S (n - 1) (m - 1)" if "x < n"
  proof -
    have lt: "x < n \<and> y < m" using that eq by linarith
    have S: "S x y"
    proof (rule ccontr)
      assume "\<not> S x y"
      then show False
        using 1(4) lt to_go_mismatch [of x n y m S] to_go_nonneg [of n m S "x + 1" y]
          to_go_nonneg [of n m S x "y + 1"] by simp
    qed
    show ?thesis
    proof (cases "x + 1 < n")
      case True
      then show ?thesis using 1(3) [OF lt refl S] 1(4) to_go_match [of x n y m S] lt S eq by simp
    next
      case False
      then have "x = n - 1" "y = m - 1" using lt eq by linarith+
      with S show ?thesis by simp
    qed
  qed
  with eq show ?case by simp
qed

lemma to_go_ge_2:
  assumes "0 < n" "0 < m" "\<not> S 0 0" "\<not> S (n - 1) (m - 1)"
  shows "2 \<le> to_go n m S 0 0"
proof -
  have "to_go n m S 1 0 \<noteq> 0" using to_go_0_diagonal [of n m S 1 0] assms by auto
  moreover have "to_go n m S 0 1 \<noteq> 0" using to_go_0_diagonal [of n m S 0 1] assms by auto
  ultimately show ?thesis
    using to_go_mismatch [of 0 n 0 m S] assms to_go_nonneg [of n m S 1 0] to_go_nonneg [of n m S 0 1]
    by simp
qed

section \<open>Edit scripts\<close>

inductive script :: "bytes list \<Rightarrow> bytes list \<Rightarrow> line_diff_hunk list \<Rightarrow> nat \<Rightarrow> nat \<Rightarrow> bool" for a b where
  script_start: "script a b [] 0 0"
| script_same: "script a b hs i j \<Longrightarrow> i < length a \<Longrightarrow> j < length b \<Longrightarrow> a ! i = b ! j \<Longrightarrow> script a b hs (Suc i) (Suc j)"
| script_edit: "script a b hs i j \<Longrightarrow> i + p \<le> length a \<Longrightarrow> j + q \<le> length b \<Longrightarrow>
    script a b (emit hs (int i) (int (i + p)) (int j) (int (j + q))) (i + p) (j + q)"

definition script_cost :: "line_diff_hunk list \<Rightarrow> nat" where
  "script_cost hs = sum_list (map (\<lambda>h. aCount h + bCount h) hs)"

lemma emit_eq:
  "emit hs (int i) (int (i + p)) (int j) (int (j + q)) =
    (if p = 0 \<and> q = 0 then hs
     else if hs \<noteq> [] \<and> aStart (last hs) + aCount (last hs) = i \<and> bStart (last hs) + bCount (last hs) = j
     then butlast hs @ [(last hs)\<lparr>aCount := aCount (last hs) + p, bCount := bCount (last hs) + q\<rparr>]
     else hs @ [\<lparr>aStart = i, aCount = p, bStart = j, bCount = q\<rparr>])"
  by (simp add: emit_def)

lemma script_cost_emit:
  "script_cost (emit hs (int i) (int (i + p)) (int j) (int (j + q))) = script_cost hs + p + q"
  unfolding emit_eq by (cases hs rule: rev_cases) (auto simp: script_cost_def)

lemma script_same_run:
  "script a b hs i j \<Longrightarrow> i + t \<le> length a \<Longrightarrow> j + t \<le> length b \<Longrightarrow> (\<And>s. s < t \<Longrightarrow> a ! (i + s) = b ! (j + s)) \<Longrightarrow>
    script a b hs (i + t) (j + t)"
proof (induction t)
  case (Suc t)
  then have "script a b hs (i + t) (j + t)" by simp
  with Suc.prems show ?case using script_same [of a b hs "i + t" "j + t"] by simp
qed simp

text \<open>The two trimming loops.\<close>

lemma slide_range:
  assumes "0 \<le> x" "0 \<le> y" "x \<le> n" "y \<le> m" "n \<le> int (length a)" "m \<le> int (length b)"
  shows "\<exists>t\<ge>0. slide (same a b) n m x y = Some (x + t, y + t) \<and> x + t \<le> n \<and> y + t \<le> m \<and>
    (\<forall>s. 0 \<le> s \<longrightarrow> s < t \<longrightarrow> a ! nat (x + s) = b ! nat (y + s)) \<and>
    (x + t < n \<longrightarrow> y + t < m \<longrightarrow> a ! nat (x + t) \<noteq> b ! nat (y + t)) \<and>
    range_distance a b (x + t) n (y + t) m = range_distance a b x n y m"
  using assms
proof (induction "same a b" n m x y rule: slide.induct)
  case (1 n m x y)
  show ?case
  proof (cases "x < n \<and> y < m \<and> a ! nat x = b ! nat y")
    case True
    then have eq: "same a b x y = Some True" using 1(2-7) by (simp add: same_def)
    have step: "slide (same a b) n m x y = slide (same a b) n m (x + 1) (y + 1)"
      using True eq by (subst slide.simps) simp
    obtain t where t: "t \<ge> 0" "slide (same a b) n m (x + 1) (y + 1) = Some (x + 1 + t, y + 1 + t)"
      "x + 1 + t \<le> n" "y + 1 + t \<le> m"
      "\<forall>s. 0 \<le> s \<longrightarrow> s < t \<longrightarrow> a ! nat (x + 1 + s) = b ! nat (y + 1 + s)"
      "x + 1 + t < n \<longrightarrow> y + 1 + t < m \<longrightarrow> a ! nat (x + 1 + t) \<noteq> b ! nat (y + 1 + t)"
      "range_distance a b (x + 1 + t) n (y + 1 + t) m = range_distance a b (x + 1) n (y + 1) m"
      using 1(1) [OF _ eq] True 1(2-7) by auto
    have "a ! nat (x + s) = b ! nat (y + s)" if "0 \<le> s" "s < 1 + t" for s
      using t(5) [rule_format, of "s - 1"] that True by (cases "s = 0") simp_all
    then show ?thesis
      using t step range_distance_trim_front [of x n y m a b] True
      by (intro exI [of _ "1 + t"]) (simp add: add.assoc [symmetric])
  next
    case False
    have "slide (same a b) n m x y = Some (x, y)"
      using False 1(2-7) by (subst slide.simps) (auto simp: same_def)
    with False 1(4,5) show ?thesis by (intro exI [of _ 0]) auto
  qed
qed

lemma slide_back_range:
  assumes "0 \<le> a0" "0 \<le> b0" "a0 \<le> x" "b0 \<le> y" "x \<le> int (length a)" "y \<le> int (length b)"
  shows "\<exists>t\<ge>0. slide_back (same a b) a0 b0 x y = Some (x - t, y - t) \<and> a0 \<le> x - t \<and> b0 \<le> y - t \<and>
    (\<forall>s. 0 \<le> s \<longrightarrow> s < t \<longrightarrow> a ! nat (x - t + s) = b ! nat (y - t + s)) \<and>
    (a0 < x - t \<longrightarrow> b0 < y - t \<longrightarrow> a ! nat (x - t - 1) \<noteq> b ! nat (y - t - 1)) \<and>
    range_distance a b a0 (x - t) b0 (y - t) = range_distance a b a0 x b0 y"
  using assms
proof (induction "same a b" a0 b0 x y rule: slide_back.induct)
  case (1 a0 b0 x y)
  show ?case
  proof (cases "a0 < x \<and> b0 < y \<and> a ! nat (x - 1) = b ! nat (y - 1)")
    case True
    then have eq: "same a b (x - 1) (y - 1) = Some True" using 1(2-7) by (simp add: same_def)
    have step: "slide_back (same a b) a0 b0 x y = slide_back (same a b) a0 b0 (x - 1) (y - 1)"
      using True eq by (subst slide_back.simps) simp
    obtain t where t: "t \<ge> 0" "slide_back (same a b) a0 b0 (x - 1) (y - 1) = Some (x - 1 - t, y - 1 - t)"
      "a0 \<le> x - 1 - t" "b0 \<le> y - 1 - t"
      "\<forall>s. 0 \<le> s \<longrightarrow> s < t \<longrightarrow> a ! nat (x - 1 - t + s) = b ! nat (y - 1 - t + s)"
      "a0 < x - 1 - t \<longrightarrow> b0 < y - 1 - t \<longrightarrow> a ! nat (x - 1 - t - 1) \<noteq> b ! nat (y - 1 - t - 1)"
      "range_distance a b a0 (x - 1 - t) b0 (y - 1 - t) = range_distance a b a0 (x - 1) b0 (y - 1)"
      using 1(1) [OF _ eq] True 1(2-7) by auto
    have shift: "x - 1 - t = x - (1 + t)" "y - 1 - t = y - (1 + t)" by simp_all
    have "a ! nat (x - (1 + t) + s) = b ! nat (y - (1 + t) + s)" if "0 \<le> s" "s < 1 + t" for s
    proof (cases "s = t")
      case True
      then show ?thesis using \<open>a0 < x \<and> b0 < y \<and> a ! nat (x - 1) = b ! nat (y - 1)\<close> by simp
    next
      case False
      then show ?thesis using t(5) [rule_format, of s] that unfolding shift by simp
    qed
    then show ?thesis
      using t step range_distance_trim_back [of a0 x b0 y a b] True
      unfolding shift by (intro exI [of _ "1 + t"]) simp
  next
    case False
    have "slide_back (same a b) a0 b0 x y = Some (x, y)"
      using False 1(2-7) by (subst slide_back.simps) (auto simp: same_def)
    with False 1(4,5) show ?thesis by (intro exI [of _ 0]) auto
  qed
qed

section \<open>Compare\<close>

text \<open>
  The work limit is not reached when it allows half the edits of the two texts, or when the
  edit distance \<open>D\<close> is less than twice the limit.
\<close>

definition affordable :: "bytes list \<Rightarrow> bytes list \<Rightarrow> int \<Rightarrow> int \<Rightarrow> bool" where
  "affordable a b halfLimit D \<longleftrightarrow>
     (int (length a) + int (length b) + 1) div 2 \<le> halfLimit \<or> D < 2 * halfLimit - 1"

lemma affordable_mono: "affordable a b halfLimit D \<Longrightarrow> D' \<le> D \<Longrightarrow> affordable a b halfLimit D'"
  by (auto simp: affordable_def)

lemma range_distance_nonneg: "0 \<le> range_distance a b a0 a1 b0 b1"
  by (simp add: range_distance_def to_go_nonneg)

text \<open>
  A split after trimming lies inside its range and on neither corner, so both halves are
  smaller; and when there is none, the range has nothing in common.
\<close>

lemma split_inside:
  assumes bounds: "0 \<le> a0" "a0 < a1" "a1 \<le> int (length a)" "0 \<le> b0" "b0 < b1" "b1 \<le> int (length b)"
    and "0 \<le> halfLimit"
    and differ: "a ! nat a0 \<noteq> b ! nat b0" "a ! nat (a1 - 1) \<noteq> b ! nat (b1 - 1)"
  shows "\<exists>r. middle_snake a b halfLimit a0 a1 b0 b1 = Some r \<and> (case r of
      Some (i, j) \<Rightarrow> a0 \<le> i \<and> i \<le> a1 \<and> b0 \<le> j \<and> j \<le> b1 \<and> (i, j) \<noteq> (a0, b0) \<and> (i, j) \<noteq> (a1, b1) \<and>
        range_distance a b a0 i b0 j + range_distance a b i a1 j b1 \<le> range_distance a b a0 a1 b0 b1
    | None \<Rightarrow> affordable a b halfLimit (range_distance a b a0 a1 b0 b1) \<longrightarrow>
        (a1 - a0) + (b1 - b0) \<le> range_distance a b a0 a1 b0 b1)"
proof -
  let ?n = "a1 - a0" and ?m = "b1 - b0" and ?S = "range_grid a b a0 b0"
  let ?D = "to_go ?n ?m ?S 0 0"
  have le: "a0 \<le> a1" "b0 \<le> b1" and grid: "0 \<le> ?n" "0 \<le> ?m" using bounds by simp_all
  obtain r where r: "middle_snake a b halfLimit a0 a1 b0 b1 = Some r"
    "case r of Some (i, j) \<Rightarrow> optimal ?n ?m ?S ((?D + 1) div 2) (i - a0) (j - b0)
      | None \<Rightarrow> 2 * min ((?n + ?m + 1) div 2) halfLimit - 1 \<le> ?D"
    using middle_snake_result [OF bounds(1) le(1) bounds(3,4) le(2) bounds(6) assms(7)] by blast
  show ?thesis
  proof (cases r)
    case None
    have "(a1 - a0) + (b1 - b0) \<le> ?D" if u: "affordable a b halfLimit ?D"
    proof -
      have "(?n + ?m + 1) div 2 \<le> halfLimit"
        using u bounds r(2) None unfolding affordable_def by (auto simp: min_def split: if_splits)
      then have "2 * ((?n + ?m + 1) div 2) - 1 \<le> ?D" using r(2) None by (simp add: min_def)
      moreover have "even (?D - (?n - ?m))" by (rule to_go_parity [OF grid])
      ultimately show ?thesis by presburger
    qed
    then show ?thesis using r(1) None by (simp add: range_distance_def)
  next
    case (Some p)
    obtain i j where p: "p = (i, j)" by (cases p)
    have opt: "optimal ?n ?m ?S ((?D + 1) div 2) (i - a0) (j - b0)" using r(2) Some p by simp
    then have reach: "reach ?n ?m ?S ((?D + 1) div 2) (i - a0) (j - b0)"
      and to_go: "to_go ?n ?m ?S (i - a0) (j - b0) = ?D - (?D + 1) div 2" by (simp_all add: optimal_def)
    note b = reach_bounds [OF reach grid]
    have D2: "2 \<le> ?D"
      by (rule to_go_ge_2) (use bounds differ in \<open>simp_all add: range_grid_def\<close>)
    have "(i, j) \<noteq> (a0, b0)" using to_go D2 by auto
    moreover have "(i, j) \<noteq> (a1, b1)"
      using to_go D2 by (auto simp: to_go_edges)
    ultimately show ?thesis
      using r(1) Some p b range_distance_split [OF opt le] by simp
  qed
qed

lemma compare_script:
  assumes "0 \<le> halfLimit"
  shows "script a b hs (nat a0) (nat b0) \<Longrightarrow> 0 \<le> a0 \<Longrightarrow> a0 \<le> a1 \<Longrightarrow> a1 \<le> int (length a) \<Longrightarrow>
    0 \<le> b0 \<Longrightarrow> b0 \<le> b1 \<Longrightarrow> b1 \<le> int (length b) \<Longrightarrow>
    \<exists>hs'. compare a b halfLimit a0 a1 b0 b1 hs = Some hs' \<and> script a b hs' (nat a1) (nat b1) \<and>
      (affordable a b halfLimit (range_distance a b a0 a1 b0 b1) \<longrightarrow> int (script_cost hs') \<le> int (script_cost hs) + range_distance a b a0 a1 b0 b1)"
proof (induction "nat (a1 - a0) + nat (b1 - b0)" arbitrary: a0 a1 b0 b1 hs rule: less_induct)
  case less
  note sc = less.prems(1) and bounds = less.prems(2-7)
  obtain t where t: "0 \<le> t" "slide (same a b) a1 b1 a0 b0 = Some (a0 + t, b0 + t)" "a0 + t \<le> a1" "b0 + t \<le> b1"
    "\<forall>s. 0 \<le> s \<longrightarrow> s < t \<longrightarrow> a ! nat (a0 + s) = b ! nat (b0 + s)"
    "a0 + t < a1 \<longrightarrow> b0 + t < b1 \<longrightarrow> a ! nat (a0 + t) \<noteq> b ! nat (b0 + t)"
    "range_distance a b (a0 + t) a1 (b0 + t) b1 = range_distance a b a0 a1 b0 b1"
    using slide_range [of a0 b0 a1 b1 a b] bounds by blast
  define x y where "x = a0 + t" and "y = b0 + t"
  obtain u where u: "0 \<le> u" "slide_back (same a b) x y a1 b1 = Some (a1 - u, b1 - u)" "x \<le> a1 - u" "y \<le> b1 - u"
    "\<forall>s. 0 \<le> s \<longrightarrow> s < u \<longrightarrow> a ! nat (a1 - u + s) = b ! nat (b1 - u + s)"
    "x < a1 - u \<longrightarrow> y < b1 - u \<longrightarrow> a ! nat (a1 - u - 1) \<noteq> b ! nat (b1 - u - 1)"
    "range_distance a b x (a1 - u) y (b1 - u) = range_distance a b x a1 y b1"
    using slide_back_range [of x y a1 b1 a b] bounds t(1,3,4) unfolding x_def y_def by auto
  define x' y' where "x' = a1 - u" and "y' = b1 - u"
  have in_range: "0 \<le> x" "x \<le> x'" "x' \<le> a1" "a1 \<le> int (length a)" "0 \<le> y" "y \<le> y'" "y' \<le> b1" "b1 \<le> int (length b)"
    using bounds t u by (simp_all add: x_def y_def x'_def y'_def)
  have dist: "range_distance a b x x' y y' = range_distance a b a0 a1 b0 b1"
    using t(7) u(7) by (simp add: x_def y_def x'_def y'_def)
  have front: "script a b hs (nat x) (nat y)"
  proof -
    have "script a b hs (nat a0 + nat t) (nat b0 + nat t)"
    proof (rule script_same_run [OF sc])
      show "a ! (nat a0 + s) = b ! (nat b0 + s)" if "s < nat t" for s
        using t(5) [rule_format, of "int s"] that bounds by (simp add: nat_add_distrib)
    qed (use bounds t(1,3,4) in linarith)+
    then show ?thesis using bounds t(1) by (simp add: x_def y_def nat_add_distrib)
  qed
  have rear: "script a b hs' (nat a1) (nat b1)" if "script a b hs' (nat x') (nat y')" for hs'
  proof -
    have "script a b hs' (nat x' + nat u) (nat y' + nat u)"
    proof (rule script_same_run [OF that])
      show "a ! (nat x' + s) = b ! (nat y' + s)" if "s < nat u" for s
        using u(5) [rule_format, of "int s"] that in_range by (simp add: nat_add_distrib x'_def y'_def)
    qed (use in_range u(1) in \<open>simp_all add: x'_def y'_def\<close>)
    moreover have "nat x' + nat u = nat a1" "nat y' + nat u = nat b1"
      using in_range u(1) by (simp_all add: x'_def y'_def flip: nat_add_distrib)
    ultimately show ?thesis by simp
  qed
  have emitted: "script a b (emit hs x x' y y') (nat x') (nat y') \<and>
      int (script_cost (emit hs x x' y y')) = int (script_cost hs) + (x' - x) + (y' - y)"
  proof -
    have eq: "x' = int (nat x + nat (x' - x))" "y' = int (nat y + nat (y' - y))" "x = int (nat x)" "y = int (nat y)"
      using in_range by simp_all
    have "script a b (emit hs (int (nat x)) (int (nat x + nat (x' - x))) (int (nat y)) (int (nat y + nat (y' - y))))
        (nat x + nat (x' - x)) (nat y + nat (y' - y))"
      by (rule script_edit [OF front]) (use in_range in linarith)+
    moreover have "nat x + nat (x' - x) = nat x'" "nat y + nat (y' - y) = nat y'"
      using in_range by (simp_all flip: nat_add_distrib)
    ultimately show ?thesis
      using script_cost_emit [of hs "nat x" "nat (x' - x)" "nat y" "nat (y' - y)"] in_range by simp
  qed
  have trims: "slide (same a b) a1 b1 a0 b0 = Some (x, y)" "slide_back (same a b) x y a1 b1 = Some (x', y')"
    using t(2) u(2) by (simp_all add: x_def y_def x'_def y'_def)
  have unfold: "compare a b halfLimit a0 a1 b0 b1 hs =
    (if x < x' \<and> y < y' then
       middle_snake a b halfLimit x x' y y' \<bind> (\<lambda>split. case split of
         Some (i, j) \<Rightarrow>
           (if \<not> (i = x \<and> j = y) \<and> \<not> (i = x' \<and> j = y')
            then compare a b halfLimit x i y j hs \<bind> compare a b halfLimit i x' j y'
            else Some (emit hs x x' y y'))
       | None \<Rightarrow> Some (emit hs x x' y y'))
     else Some (emit hs x x' y y'))"
    by (subst compare.simps) (simp add: trims)
  show ?case
  proof (cases "x < x' \<and> y < y'")
    case False
    then have "range_distance a b x x' y y' = (x' - x) + (y' - y)"
      using in_range by (auto simp: range_distance_def)
    then show ?thesis using False unfold emitted rear dist by auto
  next
    case True
    have differ: "a ! nat x \<noteq> b ! nat y" "a ! nat (x' - 1) \<noteq> b ! nat (y' - 1)"
      using True t(6) u(6) in_range by (auto simp: x_def y_def x'_def y'_def)
    have sizes: "x' \<le> int (length a)" "y' \<le> int (length b)" using in_range by simp_all
    from True obtain r where r: "middle_snake a b halfLimit x x' y y' = Some r" "case r of
        Some (i, j) \<Rightarrow> x \<le> i \<and> i \<le> x' \<and> y \<le> j \<and> j \<le> y' \<and> (i, j) \<noteq> (x, y) \<and> (i, j) \<noteq> (x', y') \<and>
          range_distance a b x i y j + range_distance a b i x' j y' \<le> range_distance a b x x' y y'
      | None \<Rightarrow> affordable a b halfLimit (range_distance a b x x' y y') \<longrightarrow> (x' - x) + (y' - y) \<le> range_distance a b x x' y y'"
      using split_inside [OF in_range(1) _ sizes(1) in_range(5) _ sizes(2) assms differ] by blast
    show ?thesis
    proof (cases r)
      case None
      then show ?thesis using True unfold r emitted rear dist by auto
    next
      case (Some p)
      obtain i j where "p = (i, j)" by (cases p)
      then have ij: "x \<le> i" "i \<le> x'" "y \<le> j" "j \<le> y'" "(i, j) \<noteq> (x, y)" "(i, j) \<noteq> (x', y')"
        "range_distance a b x i y j + range_distance a b i x' j y' \<le> range_distance a b x x' y y'"
        using r(2) Some by simp_all
      have smaller: "nat (i - x) + nat (j - y) < nat (a1 - a0) + nat (b1 - b0)"
        "nat (x' - i) + nat (y' - j) < nat (a1 - a0) + nat (b1 - b0)"
        using ij in_range t(1) unfolding x_def y_def by auto
      obtain hs1 where hs1: "compare a b halfLimit x i y j hs = Some hs1" "script a b hs1 (nat i) (nat j)"
        "affordable a b halfLimit (range_distance a b x i y j) \<longrightarrow> int (script_cost hs1) \<le> int (script_cost hs) + range_distance a b x i y j"
        using less.hyps [OF smaller(1) front] ij in_range by auto
      obtain hs2 where hs2: "compare a b halfLimit i x' j y' hs1 = Some hs2" "script a b hs2 (nat x') (nat y')"
        "affordable a b halfLimit (range_distance a b i x' j y') \<longrightarrow> int (script_cost hs2) \<le> int (script_cost hs1) + range_distance a b i x' j y'"
        using less.hyps [OF smaller(2) hs1(2)] ij in_range by auto
      have "compare a b halfLimit a0 a1 b0 b1 hs = Some hs2"
        using True unfold r(1) Some \<open>p = (i, j)\<close> ij(5,6) hs1(1) hs2(1) by auto
      moreover have "int (script_cost hs2) \<le> int (script_cost hs) + range_distance a b a0 a1 b0 b1"
        if "affordable a b halfLimit (range_distance a b a0 a1 b0 b1)"
      proof -
        note part = affordable_mono [OF that]
        have "affordable a b halfLimit (range_distance a b x i y j)"
          by (rule part) (use ij(7) dist range_distance_nonneg [of a b i x' j y'] in linarith)
        moreover have "affordable a b halfLimit (range_distance a b i x' j y')"
          by (rule part) (use ij(7) dist range_distance_nonneg [of a b x i y j] in linarith)
        ultimately show ?thesis using hs1(3) hs2(3) ij(7) dist by linarith
      qed
      ultimately show ?thesis using rear [OF hs2(2)] by blast
    qed
  qed
qed

section \<open>Rebuilding a text\<close>

definition cut :: "'a list \<Rightarrow> nat \<Rightarrow> nat \<Rightarrow> 'a list" where
  "cut xs i j = take (j - i) (drop i xs)"

text \<open>The lines of \<open>a\<close> from \<open>i\<close> to \<open>e\<close>, with every hunk's range replaced by its range of \<open>b\<close>.\<close>

fun patch :: "'a list \<Rightarrow> 'a list \<Rightarrow> line_diff_hunk list \<Rightarrow> nat \<Rightarrow> nat \<Rightarrow> 'a list" where
  "patch a b [] i e = cut a i e"
| "patch a b (h # hs) i e =
     cut a i (aStart h) @ cut b (bStart h) (bStart h + bCount h) @ patch a b hs (aStart h + aCount h) e"

text \<open>Hunks in order, each changing something, and at least one matching line between two of them.\<close>

definition separated :: "line_diff_hunk \<Rightarrow> line_diff_hunk \<Rightarrow> bool" where
  "separated h h' \<longleftrightarrow> aStart h + aCount h < aStart h' \<and> bStart h + bCount h < bStart h' \<and>
     aStart h' - (aStart h + aCount h) = bStart h' - (bStart h + bCount h)"

definition hunks_ok :: "line_diff_hunk list \<Rightarrow> nat \<Rightarrow> nat \<Rightarrow> bool" where
  "hunks_ok hs i j \<longleftrightarrow> successively separated hs \<and> list_all (\<lambda>h. 0 < aCount h + bCount h) hs \<and>
     (if hs = [] then i = j
      else aStart (hd hs) = bStart (hd hs) \<and>
        aStart (last hs) + aCount (last hs) \<le> i \<and> bStart (last hs) + bCount (last hs) \<le> j \<and>
        i - (aStart (last hs) + aCount (last hs)) = j - (bStart (last hs) + bCount (last hs)))"

lemma cut_append: "i \<le> j \<Longrightarrow> j \<le> e \<Longrightarrow> cut xs i j @ cut xs j e = cut xs i e"
proof -
  assume "i \<le> j" "j \<le> e"
  then have "take (e - i) (drop i xs) = take (j - i) (drop i xs) @ take (e - j) (drop (j - i) (drop i xs))"
    using take_add [of "j - i" "e - j" "drop i xs"] by simp
  with \<open>i \<le> j\<close> show ?thesis by (simp add: cut_def)
qed

lemma cut_0 [simp]: "cut xs 0 j = take j xs" and cut_self [simp]: "cut xs i i = []"
  by (simp_all add: cut_def)

lemma patch_snoc:
  "patch a b (hs @ [h]) i e =
     patch a b hs i (aStart h) @ cut b (bStart h) (bStart h + bCount h) @ cut a (aStart h + aCount h) e"
  by (induction hs arbitrary: i) auto

lemma patch_extend:
  assumes "hs = [] \<or> aStart (last hs) + aCount (last hs) \<le> e" "e \<le> e'"
  shows "patch a b hs 0 e' = patch a b hs 0 e @ cut a e e'"
proof (cases hs rule: rev_cases)
  case Nil
  then show ?thesis using cut_append [of 0 e e' a] assms(2) by simp
next
  case (snoc hs' l)
  then show ?thesis using cut_append [of "aStart l + aCount l" e e' a] assms by (simp add: patch_snoc)
qed

lemma script_patch: "script a b hs i j \<Longrightarrow> patch a b hs 0 i = take j b \<and> hunks_ok hs i j \<and> i \<le> length a \<and> j \<le> length b"
proof (induction rule: script.induct)
  case script_start
  show ?case by (simp add: hunks_ok_def)
next
  case (script_same hs i j)
  have "cut a i (Suc i) = [a ! i]"
    using script_same.hyps(2) by (simp add: cut_def take_Suc_conv_app_nth)
  moreover have "hs = [] \<or> aStart (last hs) + aCount (last hs) \<le> i"
    using script_same.IH by (auto simp: hunks_ok_def split: if_splits)
  ultimately have "patch a b hs 0 (Suc i) = take (Suc j) b"
    using patch_extend [of hs i "Suc i" a b] script_same by (simp add: take_Suc_conv_app_nth)
  moreover have "hunks_ok hs (Suc i) (Suc j)"
    using script_same.IH by (auto simp: hunks_ok_def Suc_diff_le split: if_splits)
  ultimately show ?case using script_same by simp
next
  case (script_edit hs i j p q)
  have IH: "patch a b hs 0 i = take j b" "hunks_ok hs i j" using script_edit.IH by simp_all
  have b_cut: "take j b @ cut b j (j + q) = take (j + q) b" using cut_append [of 0 j "j + q" b] by simp
  consider "p = 0 \<and> q = 0"
    | hs' l where "\<not> (p = 0 \<and> q = 0)" "hs = hs' @ [l]" "aStart l + aCount l = i" "bStart l + bCount l = j"
    | "\<not> (p = 0 \<and> q = 0)"
      "\<not> (hs \<noteq> [] \<and> aStart (last hs) + aCount (last hs) = i \<and> bStart (last hs) + bCount (last hs) = j)"
    by (metis append_butlast_last_id)
  then show ?case
  proof cases
    case 1
    then show ?thesis using script_edit by (simp add: emit_def)
  next
    case 2
    let ?l = "l\<lparr>aCount := aCount l + p, bCount := bCount l + q\<rparr>"
    have emit: "emit hs (int i) (int (i + p)) (int j) (int (j + q)) = hs' @ [?l]"
      unfolding emit_eq using 2 by simp
    have "patch a b (hs' @ [?l]) 0 (i + p) = take (j + q) b"
    proof -
      have "patch a b hs' 0 (aStart l) @ cut b (bStart l) j = take j b"
        using IH(1) 2 by (simp add: patch_snoc)
      moreover have "cut b (bStart l) (j + q) = cut b (bStart l) j @ cut b j (j + q)"
        using 2 by (intro cut_append [symmetric]) auto
      ultimately show ?thesis
        using b_cut unfolding 2(3,4) [symmetric] by (simp add: patch_snoc add.assoc) (simp flip: append_assoc)
    qed
    moreover have "hunks_ok (hs' @ [?l]) (i + p) (j + q)"
    proof -
      have "successively separated (hs' @ [?l])"
        using IH(2) 2 by (simp add: hunks_ok_def successively_append_iff separated_def)
      then show ?thesis using IH(2) 2 by (auto simp: hunks_ok_def hd_append split: if_splits)
    qed
    ultimately show ?thesis using script_edit emit by simp
  next
    case 3
    let ?h = "\<lparr>aStart = i, aCount = p, bStart = j, bCount = q\<rparr>"
    have emit: "emit hs (int i) (int (i + p)) (int j) (int (j + q)) = hs @ [?h]"
      unfolding emit_eq using 3 by auto
    have "hunks_ok (hs @ [?h]) (i + p) (j + q)"
      using IH(2) 3 by (auto simp: hunks_ok_def successively_append_iff separated_def split: if_splits)
    moreover have "patch a b (hs @ [?h]) 0 (i + p) = take (j + q) b"
      using IH(1) b_cut by (simp add: patch_snoc)
    ultimately show ?thesis using script_edit emit by simp
  qed
qed


section \<open>Common subsequences\<close>

text \<open>What a script keeps is a common subsequence; and no common subsequence beats the distance.\<close>

lemma hunks_ok_all:
  "hunks_ok hs i j \<Longrightarrow> \<forall>h \<in> set hs. aStart h + aCount h \<le> i \<and> bStart h + bCount h \<le> j \<and> 0 < aCount h + bCount h"
proof (induction hs arbitrary: i j rule: rev_induct)
  case (snoc h hs)
  have "hunks_ok hs (aStart h) (bStart h)"
    using snoc.prems
    by (cases "hs = []") (auto simp: hunks_ok_def successively_append_iff separated_def hd_append)
  from snoc.IH [OF this] snoc.prems show ?case by (fastforce simp: hunks_ok_def)
qed simp

text \<open>The lines the hunks touch, and the lines they leave alone.\<close>

definition touched_old :: "line_diff_hunk list \<Rightarrow> nat set" where
  "touched_old hs = (\<Union>h \<in> set hs. {aStart h..<aStart h + aCount h})"

definition touched_new :: "line_diff_hunk list \<Rightarrow> nat set" where
  "touched_new hs = (\<Union>h \<in> set hs. {bStart h..<bStart h + bCount h})"

lemma touched_emit:
  "touched_old (emit hs (int i) (int (i + p)) (int j) (int (j + q))) = touched_old hs \<union> {i..<i + p}"
  "touched_new (emit hs (int i) (int (i + p)) (int j) (int (j + q))) = touched_new hs \<union> {j..<j + q}"
  unfolding emit_eq by (cases hs rule: rev_cases; auto simp: touched_old_def touched_new_def)+

lemma nths_same: "(\<And>i. i < length xs \<Longrightarrow> i \<in> A \<longleftrightarrow> i \<in> B) \<Longrightarrow> nths xs A = nths xs B"
  by (auto simp: nths_def intro!: arg_cong [of _ _ "map fst"] filter_cong dest: set_zip_rightD)

lemma nths_beyond: "S \<subseteq> {..<length xs} \<Longrightarrow> nths (xs @ ys) (- S) = nths xs (- S) @ ys"
  by (auto simp: nths_append intro!: nths_all)

lemma nths_dropped: "S \<subseteq> {..<length xs} \<Longrightarrow> nths (xs @ ys) (- (S \<union> {length xs..<length xs + length ys})) = nths xs (- S)"
proof -
  assume S: "S \<subseteq> {..<length xs}"
  have "nths xs (- (S \<union> {length xs..<length xs + length ys})) = nths xs (- S)"
    by (rule nths_same) auto
  moreover have "nths ys {j. j + length xs \<in> - (S \<union> {length xs..<length xs + length ys})} = []"
    using nths_same [of ys _ "{}"] by fastforce
  ultimately show ?thesis by (simp add: nths_append)
qed

lemma script_kept:
  "script a b hs i j \<Longrightarrow>
    nths (take i a) (- touched_old hs) = nths (take j b) (- touched_new hs) \<and>
    script_cost hs + 2 * length (nths (take i a) (- touched_old hs)) = i + j"
proof (induction rule: script.induct)
  case script_start
  show ?case by (simp add: script_cost_def)
next
  case (script_same hs i j)
  have inside: "touched_old hs \<subseteq> {..<length (take i a)}" "touched_new hs \<subseteq> {..<length (take j b)}"
    using script_patch [OF script_same.hyps(1)] hunks_ok_all [of hs i j]
    by (fastforce simp: touched_old_def touched_new_def)+
  then show ?case
    using conjunct1 [OF script_same.IH] conjunct2 [OF script_same.IH] script_same.hyps nths_beyond [OF inside(1), of "[a ! i]"] nths_beyond [OF inside(2), of "[b ! j]"]
    by (simp add: take_Suc_conv_app_nth)
next
  case (script_edit hs i j p q)
  have inside: "touched_old hs \<subseteq> {..<length (take i a)}" "touched_new hs \<subseteq> {..<length (take j b)}"
    using script_patch [OF script_edit.hyps(1)] hunks_ok_all [of hs i j]
    by (fastforce simp: touched_old_def touched_new_def)+
  have "take (i + p) a = take i a @ cut a i (i + p)" "take (j + q) b = take j b @ cut b j (j + q)"
    by (simp_all add: take_add cut_def)
  moreover have "length (cut a i (i + p)) = p" "length (cut b j (j + q)) = q" "length (take i a) = i" "length (take j b) = j"
    using script_edit.hyps by (simp_all add: cut_def)
  ultimately have "nths (take (i + p) a) (- (touched_old hs \<union> {i..<i + p})) = nths (take i a) (- touched_old hs)"
    "nths (take (j + q) b) (- (touched_new hs \<union> {j..<j + q})) = nths (take j b) (- touched_new hs)"
    using nths_dropped [OF inside(1), of "cut a i (i + p)"] nths_dropped [OF inside(2), of "cut b j (j + q)"] by simp_all
  then show ?case
    using conjunct1 [OF script_edit.IH] conjunct2 [OF script_edit.IH] unfolding touched_emit script_cost_emit by simp
qed

lemma subseq_tl: "subseq c (v # xs) \<Longrightarrow> subseq (tl c) xs"
  by (cases c) (auto simp: subseq_Cons2_iff split: if_splits dest: subseq_Cons')

lemma to_go_common:
  assumes "subseq c (drop (nat x) a)" "subseq c (drop (nat y) b)" "0 \<le> x" "0 \<le> y"
    "x \<le> int (length a)" "y \<le> int (length b)"
  shows "to_go (int (length a)) (int (length b)) (range_grid a b 0 0) x y + 2 * int (length c)
    \<le> (int (length a) - x) + (int (length b) - y)"
  using assms
proof (induction "int (length a)" "int (length b)" "range_grid a b 0 0" x y arbitrary: c rule: to_go.induct)
  case (1 x y)
  note sub = 1(4,5) and bounds = 1(6-9)
  show ?case
  proof (cases "x < int (length a) \<and> y < int (length b)")
    case False
    then consider "x = int (length a)" | "y = int (length b)" using bounds by linarith
    then show ?thesis using sub bounds by cases (auto dest: list_emb_length)
  next
    case True
    then have heads: "drop (nat x) a = a ! nat x # drop (nat (x + 1)) a" "drop (nat y) b = b ! nat y # drop (nat (y + 1)) b"
      using bounds by (auto simp: Cons_nth_drop_Suc nat_add_distrib)
    show ?thesis
    proof (cases "a ! nat x = b ! nat y")
      case same: True
      have "to_go (int (length a)) (int (length b)) (range_grid a b 0 0) (x + 1) (y + 1) + 2 * int (length (tl c))
          \<le> (int (length a) - (x + 1)) + (int (length b) - (y + 1))"
        using sub heads same True bounds
        by (intro 1(3)) (auto simp: range_grid_def dest: subseq_tl)
      then show ?thesis
        using to_go_match [of x "int (length a)" y "int (length b)" "range_grid a b 0 0"] same True
        by (cases c) (auto simp: range_grid_def)
    next
      case False
      then have "subseq c (drop (nat (x + 1)) a) \<or> subseq c (drop (nat (y + 1)) b)"
        using sub heads by (cases c) (auto split: if_splits)
      then show ?thesis
      proof
        assume "subseq c (drop (nat (x + 1)) a)"
        then have "to_go (int (length a)) (int (length b)) (range_grid a b 0 0) (x + 1) y + 2 * int (length c)
            \<le> (int (length a) - (x + 1)) + (int (length b) - y)"
          using sub True bounds False by (intro 1(1)) (auto simp: range_grid_def)
        then show ?thesis
          using to_go_mismatch [of x "int (length a)" y "int (length b)" "range_grid a b 0 0"] False True
          by (auto simp: range_grid_def)
      next
        assume "subseq c (drop (nat (y + 1)) b)"
        then have "to_go (int (length a)) (int (length b)) (range_grid a b 0 0) x (y + 1) + 2 * int (length c)
            \<le> (int (length a) - x) + (int (length b) - (y + 1))"
          using sub True bounds False by (intro 1(2)) (auto simp: range_grid_def)
        then show ?thesis
          using to_go_mismatch [of x "int (length a)" y "int (length b)" "range_grid a b 0 0"] False True
          by (auto simp: range_grid_def)
      qed
    qed
  qed
qed

section \<open>The properties of DiffLines\<close>

lemma diff_lines_script:
  "\<exists>hs. diff_lines a b = Some hs \<and> script a b hs (length a) (length b) \<and>
     (int (length a) + int (length b) \<le> 5656 \<or>
        to_go (int (length a)) (int (length b)) (range_grid a b 0 0) 0 0 \<le> 1998 \<longrightarrow>
      int (script_cost hs) \<le> to_go (int (length a)) (int (length b)) (range_grid a b 0 0) 0 0)"
proof -
  let ?total = "max 1 (int (length a + length b))"
  let ?half = "max 1000 (16000000 div ?total)"
  have pos: "0 \<le> ?half" by simp
  have "affordable a b ?half D" if "int (length a) + int (length b) \<le> 5656 \<or> D \<le> 1998" for D
  proof (cases "D \<le> 1998")
    case True
    then show ?thesis by (auto simp: affordable_def)
  next
    case False
    then have le: "?total \<le> 5656" "1 \<le> ?total" using that by auto
    have "16000000 div 5656 \<le> 16000000 div ?total"
      using le by (intro zdiv_mono2) auto
    then have "2828 \<le> ?half" by simp
    then show ?thesis using that False unfolding affordable_def by linarith
  qed
  moreover have start: "script a b [] (nat 0) (nat 0)" by (simp add: script_start)
  ultimately show ?thesis
    using compare_script [OF pos start, of "int (length a)" "int (length b)"]
    by (auto simp: diff_lines_def range_distance_def Let_def script_cost_def [of "[]"])
qed

text \<open>\<open>DiffLines\<close> always returns, and its hunks rebuild the second text from the first: copying
the lines of \<open>a\<close> outside the hunks and taking the lines of \<open>b\<close> each hunk names gives \<open>b\<close>.\<close>

theorem diff_lines_rebuilds:
  "\<exists>hs. diff_lines a b = Some hs \<and> patch a b hs 0 (length a) = b \<and> hunks_ok hs (length a) (length b)"
  using diff_lines_script [of a b] script_patch by fastforce

lemma diff_lines_longest:
  assumes "length a + length b \<le> 5656 \<or>
    (\<exists>c. subseq c a \<and> subseq c b \<and> length a + length b \<le> 2 * length c + 1998)"
  shows "\<exists>hs. diff_lines a b = Some hs \<and> hunks_ok hs (length a) (length b) \<and>
    nths a (- touched_old hs) = nths b (- touched_new hs) \<and>
    (\<forall>c. subseq c a \<and> subseq c b \<longrightarrow> length c \<le> length (nths a (- touched_old hs)))"
proof -
  let ?D = "to_go (int (length a)) (int (length b)) (range_grid a b 0 0) 0 0"
  have common: "?D + 2 * int (length c) \<le> int (length a) + int (length b)" if "subseq c a" "subseq c b" for c
    using to_go_common [of c 0 a 0 b] that by simp
  have "int (length a) + int (length b) \<le> 5656 \<or> ?D \<le> 1998" using assms common by fastforce
  then obtain hs where hs: "diff_lines a b = Some hs" "script a b hs (length a) (length b)" "int (script_cost hs) \<le> ?D"
    using diff_lines_script [of a b] by auto
  note kept = script_kept [OF hs(2), simplified]
  have "length c \<le> length (nths a (- touched_old hs))" if "subseq c a" "subseq c b" for c
    using common [OF that] hs(3) kept by linarith
  then show ?thesis using hs kept script_patch [OF hs(2)] by blast
qed

text \<open>C9: for texts of at most 5656 lines together, and for texts of any size that some common
subsequence of lines brings within 1998 edits, \<open>DiffLines\<close> returns hunks in order and apart; the lines
outside their old ranges are exactly the lines outside their new ranges, in order, and no common
subsequence of the two texts is longer than that list.\<close>

theorem diff_lines_minimal:
  assumes "length a + length b \<le> 5656 \<or>
    (\<exists>c. subseq c a \<and> subseq c b \<and> length a + length b \<le> 2 * length c + 1998)"
  shows "\<exists>hs. diff_lines a b = Some hs \<and> hunks_ok hs (length a) (length b) \<and>
    nths a (- touched_old hs) = nths b (- touched_new hs) \<and>
    (\<forall>c. subseq c a \<and> subseq c b \<longrightarrow> length c \<le> length (nths a (- touched_old hs)))"
  by (rule diff_lines_longest [OF assms])

theorem diff_lines_minimal_witness:
  "\<exists>hs. diff_lines [''a'', ''b'', ''c''] [''b'', ''d'', ''c''] = Some hs \<and> hunks_ok hs 3 3 \<and>
    nths [''a'', ''b'', ''c''] (- touched_old hs) = nths [''b'', ''d'', ''c''] (- touched_new hs) \<and>
    2 \<le> length (nths [''a'', ''b'', ''c''] (- touched_old hs))"
proof -
  let ?a = "[''a'', ''b'', ''c'']" and ?b = "[''b'', ''d'', ''c'']"
  have "length ?a + length ?b \<le> 5656 \<or> (\<exists>c. subseq c ?a \<and> subseq c ?b \<and> length ?a + length ?b \<le> 2 * length c + 1998)"
    by simp
  from diff_lines_minimal [OF this] obtain hs where hs: "diff_lines ?a ?b = Some hs" "hunks_ok hs (length ?a) (length ?b)"
    "nths ?a (- touched_old hs) = nths ?b (- touched_new hs)"
    "\<And>c. subseq c ?a \<and> subseq c ?b \<Longrightarrow> length c \<le> length (nths ?a (- touched_old hs))"
    by (elim exE conjE) (rule that, assumption+, blast)
  have "hunks_ok hs 3 3" using hs(2) by (simp add: numeral_3_eq_3)
  moreover have "length [''b'', ''c''] \<le> length (nths ?a (- touched_old hs))" by (rule hs(4)) simp
  ultimately show ?thesis using hs(1,3) by (intro exI [of _ hs]) (simp add: numeral_2_eq_2)
qed

end
