(* ===== verification/UnifiedView.thy ===== *)
theory UnifiedView
  imports LineDiffScript
begin

text \<open>
  \<open>SplitLines\<close> and \<open>UnifiedDiff\<close> of \<open>Source/Text/LineDiff.cpp\<close>: cutting a text into lines
  loses nothing, and the unified view accounts for every line of both texts.
\<close>

section \<open>SplitLines\<close>

lemma concat_split_lines [simp]: "concat (split_lines s) = s"
proof (induction s rule: split_lines.induct)
  case (1 s)
  then show ?case by (subst split_lines.simps) (auto simp: Let_def)
qed

lemma split_lines_eq_iff [simp]: "split_lines s = split_lines t \<longleftrightarrow> s = t"
  by (metis concat_split_lines)

section \<open>The hunks of a diff\<close>

lemma diff_lines_none_iff: "diff_lines a b = Some [] \<longleftrightarrow> a = b"
proof
  assume "diff_lines a b = Some []"
  then have "script a b [] (length a) (length b)" using diff_lines_script [of a b] by auto
  then show "a = b" using script_patch [of a b "[]" "length a" "length b"] by simp
next
  assume "a = b"
  then have "to_go (int (length a)) (int (length b)) (range_grid a b 0 0) 0 0 \<le> 0"
    using to_go_common [of a 0 a 0 b] by simp
  then obtain hs where hs: "diff_lines a b = Some hs" "script a b hs (length a) (length b)" "script_cost hs = 0"
    using diff_lines_script [of a b] by fastforce
  moreover have "hs = []"
    using hunks_ok_all [of hs "length a" "length b"] script_patch [OF hs(2)] hs(3)
    by (cases hs) (auto simp: script_cost_def)
  ultimately show "diff_lines a b = Some []" by simp
qed

section \<open>What a view says\<close>

text \<open>
  The view \<open>out\<close> leads from the lines \<open>xs\<close> to the lines \<open>ys\<close>: every line of either is shown once,
  in order, or is one of a run common to both that a marker counts.
\<close>

inductive renders :: "bytes list \<Rightarrow> bytes list \<Rightarrow> diff_line list \<Rightarrow> bool" where
  renders_end: "renders [] [] []"
| renders_context: "renders xs ys out \<Longrightarrow>
    renders (l # xs) (l # ys) (\<lparr>line_kind = Context, line_text = l\<rparr> # out)"
| renders_removed: "renders xs ys out \<Longrightarrow>
    renders (l # xs) ys (\<lparr>line_kind = Removed, line_text = l\<rparr> # out)"
| renders_added: "renders xs ys out \<Longrightarrow>
    renders xs (l # ys) (\<lparr>line_kind = Added, line_text = l\<rparr> # out)"
| renders_omitted: "renders xs ys out \<Longrightarrow> gap \<noteq> [] \<Longrightarrow>
    renders (gap @ xs) (gap @ ys) (\<lparr>line_kind = Omitted, line_text = omitted_text (length gap)\<rparr> # out)"

lemma renders_append: "renders xs ys out \<Longrightarrow> renders xs' ys' out' \<Longrightarrow> renders (xs @ xs') (ys @ ys') (out @ out')"
  by (induction rule: renders.induct) (auto intro: renders.intros)

definition shown_as :: "diff_line_kind \<Rightarrow> bytes list \<Rightarrow> diff_line list" where
  "shown_as k xs = map (\<lambda>l. \<lparr>line_kind = k, line_text = l\<rparr>) xs"

lemma renders_shown:
  "renders xs xs (shown_as Context xs)" "renders xs [] (shown_as Removed xs)" "renders [] xs (shown_as Added xs)"
  by (induction xs) (auto simp: shown_as_def intro: renders.intros)

abbreviation stripped :: "bytes list \<Rightarrow> bytes list" where
  "stripped xs \<equiv> map strip_newline xs"

lemma append_lines_eq:
  "e \<le> length xs \<or> e \<le> i \<Longrightarrow> append_lines k xs i e = Some (shown_as k (stripped (cut xs i e)))"
  by (simp add: append_lines_def shown_as_def cut_def)

section \<open>The loops of UnifiedDiff\<close>

lemma split_group_result:
  "split_group c h hs = (g, rest) \<Longrightarrow> \<forall>k \<in> set (h # hs). aStart k + aCount k + 2 * c < 2 ^ 64 \<Longrightarrow>
    h # hs = g @ rest \<and> g \<noteq> [] \<and> hd g = h \<and>
    (rest \<noteq> [] \<longrightarrow> aStart (last g) + aCount (last g) + 2 * c < aStart (hd rest))"
proof (induction c h hs arbitrary: g rest rule: split_group.induct)
  case (2 c h h' hs)
  then show ?case by (cases "split_group c h' hs") (auto split: if_splits)
qed auto

text \<open>Hunks that lie in order between \<open>s\<close> and the end of the texts.\<close>

definition laid_out :: "bytes list \<Rightarrow> bytes list \<Rightarrow> nat \<Rightarrow> line_diff_hunk list \<Rightarrow> bool" where
  "laid_out a b s hs \<longleftrightarrow> s \<le> length a \<and> (hs \<noteq> [] \<longrightarrow> s \<le> aStart (hd hs)) \<and>
     successively (\<lambda>h h'. aStart h + aCount h \<le> aStart h') hs \<and>
     (\<forall>h \<in> set hs. aStart h + aCount h \<le> length a \<and> bStart h + bCount h \<le> length b)"

lemma laid_out_Cons:
  "laid_out a b s (h # hs) \<longleftrightarrow> s \<le> aStart h \<and> aStart h + aCount h \<le> length a \<and> bStart h + bCount h \<le> length b \<and>
     laid_out a b (aStart h + aCount h) hs"
  by (cases hs) (auto simp: laid_out_def)

lemma laid_out_last: "g \<noteq> [] \<Longrightarrow> laid_out a b s g \<Longrightarrow> s \<le> aStart (last g) \<and> aStart (last g) + aCount (last g) \<le> length a"
proof (induction g arbitrary: s)
  case (Cons h g)
  then show ?case by (cases "g = []") (fastforce simp: laid_out_Cons)+
qed simp

lemma group_lines_renders:
  "g \<noteq> [] \<Longrightarrow> laid_out a b (aStart (hd g)) g \<Longrightarrow>
    \<exists>out. group_lines a b g = Some out \<and>
      renders (stripped (cut a (aStart (hd g)) (aStart (last g) + aCount (last g))))
        (stripped (patch a b g (aStart (hd g)) (aStart (last g) + aCount (last g)))) out"
proof (induction g)
  case (Cons h g)
  let ?e = "aStart h + aCount h" and ?last = "aStart (last (h # g)) + aCount (last (h # g))"
  have h: "?e \<le> length a" "bStart h + bCount h \<le> length b" and g: "laid_out a b ?e g"
    using Cons.prems by (simp_all add: laid_out_Cons)
  have change: "renders (stripped (cut a (aStart h) ?e)) (stripped (cut b (bStart h) (bStart h + bCount h)))
      (shown_as Removed (stripped (cut a (aStart h) ?e)) @ shown_as Added (stripped (cut b (bStart h) (bStart h + bCount h))))"
    using renders_append [OF renders_shown(2,3)] by simp
  show ?case
  proof (cases g)
    case Nil
    then show ?thesis using change h by (simp add: append_lines_eq)
  next
    case (Cons h' g')
    have h': "?e \<le> aStart h'" "aStart h' \<le> length a" "laid_out a b (aStart h') g"
      using g Cons by (auto simp: laid_out_Cons)
    obtain out where out: "group_lines a b g = Some out"
      "renders (stripped (cut a (aStart h') ?last)) (stripped (patch a b g (aStart h') ?last)) out"
      using Cons.IH h'(3) Cons by auto
    have le: "aStart h' \<le> ?last"
      using h'(3) Cons laid_out_last [of g a b "aStart h'"] by simp
    have patch: "patch a b g ?e ?last = cut a ?e (aStart h') @ patch a b g (aStart h') ?last"
      using Cons by simp
    show ?thesis
      using renders_append [OF renders_append [OF change renders_shown(1) [of "stripped (cut a ?e (aStart h'))"]] out(2)]
        h h' out(1) Cons le patch
      by (simp add: append_lines_eq cut_append flip: map_append)
  qed
qed simp


lemma patch_append:
  "(if g = [] then s \<le> m else aStart (last g) + aCount (last g) \<le> m) \<Longrightarrow>
    (if rest = [] then m \<le> e else m \<le> aStart (hd rest)) \<Longrightarrow>
    patch a b (g @ rest) s e = patch a b g s m @ patch a b rest m e"
proof (induction g arbitrary: s)
  case Nil
  then show ?case
  proof (cases rest)
    case (Cons h hs)
    have "cut a s (aStart h) = cut a s m @ cut a m (aStart h)"
      by (rule cut_append [symmetric]) (use Nil.prems Cons in simp_all)
    then show ?thesis by (simp only: Cons patch.simps append_Nil append_assoc)
  qed (simp add: cut_append)
next
  case (Cons h g)
  have "patch a b (g @ rest) (aStart h + aCount h) e =
      patch a b g (aStart h + aCount h) m @ patch a b rest m e"
    by (rule Cons.IH) (use Cons.prems in \<open>simp_all split: if_splits\<close>)
  then show ?case by simp
qed

lemma laid_out_append:
  "laid_out a b s (g @ rest) \<Longrightarrow> g \<noteq> [] \<Longrightarrow> m \<le> length a \<Longrightarrow> (rest \<noteq> [] \<longrightarrow> m \<le> aStart (hd rest)) \<Longrightarrow>
    laid_out a b (aStart (hd g)) g \<and> laid_out a b m rest"
proof -
  assume *: "laid_out a b s (g @ rest)" "g \<noteq> []" "m \<le> length a" "rest \<noteq> [] \<longrightarrow> m \<le> aStart (hd rest)"
  then have "hd g \<in> set (g @ rest)" by simp
  then have "aStart (hd g) + aCount (hd g) \<le> length a" using *(1) unfolding laid_out_def by blast
  then have "aStart (hd g) \<le> length a" by simp
  with * show ?thesis by (auto simp: laid_out_def successively_append_iff)
qed

lemma unified_loop_step:
  assumes laid: "laid_out a b shown (h # hs)" and fits: "length a + 2 * c < 2 ^ 64"
    and IH: "\<And>shown rest. length rest < length (h # hs) \<Longrightarrow> laid_out a b shown rest \<Longrightarrow>
      \<exists>out. unified_loop a b c shown rest = Some out \<and>
        renders (stripped (drop shown a)) (stripped (patch a b rest shown (length a))) out"
  shows "\<exists>out. unified_loop a b c shown (h # hs) = Some out \<and>
    renders (stripped (drop shown a)) (stripped (patch a b (h # hs) shown (length a))) out"
proof -
  obtain g rest where g: "split_group c h hs = (g, rest)" by (cases "split_group c h hs")
  define first where "first = max shown (aStart h - c)"
  define lastEnd where "lastEnd = aStart (last g) + aCount (last g)"
  define trailing where "trailing = min (length a) (lastEnd + c)"
  have hs: "h # hs = g @ rest" "g \<noteq> []" "hd g = h" "rest \<noteq> [] \<longrightarrow> lastEnd + 2 * c < aStart (hd rest)"
  proof -
    have "\<forall>k \<in> set (h # hs). aStart k + aCount k + 2 * c < 2 ^ 64"
      using laid fits unfolding laid_out_def by (meson add_le_cancel_right le_less_trans)
    from split_group_result [OF g this] show "h # hs = g @ rest" "g \<noteq> []" "hd g = h"
      "rest \<noteq> [] \<longrightarrow> lastEnd + 2 * c < aStart (hd rest)"
      by (simp_all add: lastEnd_def)
  qed
  have laid': "laid_out a b shown (g @ rest)" using laid hs(1) by simp
  have start: "shown \<le> aStart h" "shown \<le> first" "first \<le> aStart h"
    using laid by (simp_all add: laid_out_Cons first_def)
  have before: "rest \<noteq> [] \<longrightarrow> trailing \<le> aStart (hd rest)"
    by (rule impI) (use hs(4) in \<open>simp add: trailing_def min_le_iff_disj\<close>)
  have parts: "laid_out a b (aStart (hd g)) g" "laid_out a b trailing rest"
    using laid_out_append [OF laid' hs(2), of trailing] before by (simp_all add: trailing_def)
  have last: "aStart h \<le> lastEnd" "lastEnd \<le> trailing" "trailing \<le> length a"
    using laid_out_last [OF hs(2) parts(1)] hs(3) by (simp_all add: lastEnd_def trailing_def)
  define marker where "marker = (if first > shown
    then [\<lparr>line_kind = Omitted, line_text = omitted_text (first - shown)\<rparr>] else [])"
  have marked: "renders (stripped (cut a shown first)) (stripped (cut a shown first)) marker"
  proof (cases "first > shown")
    case True
    then have "length (cut a shown first) = first - shown" "cut a shown first \<noteq> []"
      using start last by (auto simp: cut_def)
    with True show ?thesis
      using renders_omitted [OF renders_end, of "stripped (cut a shown first)"] by (simp add: marker_def)
  next
    case False
    then show ?thesis using start renders_end by (simp add: marker_def)
  qed
  obtain changes where changes: "group_lines a b g = Some changes"
    "renders (stripped (cut a (aStart h) lastEnd)) (stripped (patch a b g (aStart h) lastEnd)) changes"
    using group_lines_renders [OF hs(2) parts(1)] hs(3) by (auto simp: lastEnd_def)
  obtain more where more: "unified_loop a b c trailing rest = Some more"
    "renders (stripped (drop trailing a)) (stripped (patch a b rest trailing (length a))) more"
    using IH [OF _ parts(2)] length_split_group [of c h hs] g by auto
  have old: "drop shown a = cut a shown first @ cut a first (aStart h) @ cut a (aStart h) lastEnd @
      cut a lastEnd trailing @ drop trailing a"
  proof -
    have "drop shown a = cut a shown (length a)" "drop trailing a = cut a trailing (length a)" by (simp_all add: cut_def)
    then show ?thesis
      using start last by (simp add: cut_append)
  qed
  have new: "patch a b (h # hs) shown (length a) = cut a shown first @ cut a first (aStart h) @
      patch a b g (aStart h) lastEnd @ cut a lastEnd trailing @ patch a b rest trailing (length a)"
  proof -
    have "patch a b (g @ rest) shown (length a) =
        patch a b [] shown (aStart h) @ patch a b (g @ rest) (aStart h) (length a)"
      using patch_append [of "[]" shown "aStart h" "g @ rest"] start hs by simp
    also have "patch a b (g @ rest) (aStart h) (length a) =
        patch a b g (aStart h) trailing @ patch a b rest trailing (length a)"
      using hs last by (intro patch_append) (auto simp: lastEnd_def trailing_def)
    also have "patch a b g (aStart h) trailing = patch a b g (aStart h) lastEnd @ patch a b [] lastEnd trailing"
      using patch_append [of g "aStart h" lastEnd "[]" trailing a b] hs(2) last by (simp add: lastEnd_def)
    finally show ?thesis using start hs(1) by (simp add: cut_append)
  qed
  have reads: "append_lines Context a first (aStart h) = Some (shown_as Context (stripped (cut a first (aStart h))))"
    "append_lines Context a lastEnd trailing = Some (shown_as Context (stripped (cut a lastEnd trailing)))"
    using start last by (auto intro!: append_lines_eq)
  have "unified_loop a b c shown (h # hs) =
      Some (marker @ shown_as Context (stripped (cut a first (aStart h))) @ changes @
        shown_as Context (stripped (cut a lastEnd trailing)) @ more)"
  proof -
    have "(if c \<le> aStart h then aStart h - c else 0) = aStart h - c" by simp
    moreover have "lastEnd + c < 2 ^ 64" using last fits by linarith
    then have "(lastEnd + c) mod 2 ^ 64 = lastEnd + c" by simp
    ultimately show ?thesis
      unfolding unified_loop.simps g Let_def prod.case lastEnd_def [symmetric]
      by (simp only: first_def [symmetric] trailing_def [symmetric]
          marker_def [symmetric] reads changes(1) more(1) Option.bind.simps)
  qed
  moreover have "renders (stripped (drop shown a)) (stripped (patch a b (h # hs) shown (length a)))
      (marker @ shown_as Context (stripped (cut a first (aStart h))) @ changes @
        shown_as Context (stripped (cut a lastEnd trailing)) @ more)"
    unfolding old new map_append
    by (intro renders_append marked renders_shown changes(2) more(2))
  ultimately show ?thesis by blast
qed

lemma unified_loop_renders:
  "laid_out a b shown hs \<Longrightarrow> length a + 2 * c < 2 ^ 64 \<Longrightarrow>
    \<exists>out. unified_loop a b c shown hs = Some out \<and>
      renders (stripped (drop shown a)) (stripped (patch a b hs shown (length a))) out"
proof (induction "length hs" arbitrary: shown hs rule: less_induct)
  case less
  show ?case
  proof (cases hs)
    case Nil
    have drop: "cut a shown (length a) = drop shown a" by (simp add: cut_def)
    show ?thesis
      using renders_omitted [OF renders_end, of "stripped (drop shown a)"] renders_end
      by (auto simp: Nil drop)
  next
    case (Cons h hs')
    then show ?thesis using unified_loop_step [of a b shown h hs' c] less by fastforce
  qed
qed

section \<open>The property\<close>

lemma diff_lines_laid_out:
  assumes "diff_lines a b = Some hs"
  shows "laid_out a b 0 hs \<and> patch a b hs 0 (length a) = b"
proof -
  have script: "script a b hs (length a) (length b)" using diff_lines_script [of a b] assms by auto
  then have ok: "hunks_ok hs (length a) (length b)" and "patch a b hs 0 (length a) = b"
    using script_patch [OF script] by simp_all
  moreover have "successively (\<lambda>h h'. aStart h + aCount h \<le> aStart h') hs"
    using ok by (auto simp: hunks_ok_def separated_def elim!: successively_mono)
  ultimately show ?thesis using hunks_ok_all [OF ok] by (auto simp: laid_out_def)
qed

lemma renders_nothing: "renders xs ys [] \<Longrightarrow> xs = [] \<and> ys = []"
  by (auto elim: renders.cases)

text \<open>C25: whenever the number of old lines and twice the context size add up below \<open>2 ^ 64\<close>,
\<open>UnifiedDiff\<close> returns a view.  It is empty exactly for equal texts, and otherwise leads from the
lines of the old text to those of the new one: every line is shown once as context, removed or
added, or is counted by a marker over lines the texts share.\<close>

theorem unified_diff_accounts:
  assumes "length (split_lines old_text) + 2 * context_lines < 2 ^ 64"
  shows "\<exists>out. unified_diff old_text new_text context_lines = Some out \<and>
     (if old_text = new_text then out = []
      else out \<noteq> [] \<and> renders (stripped (split_lines old_text)) (stripped (split_lines new_text)) out)"
proof -
  let ?a = "split_lines old_text" and ?b = "split_lines new_text"
  obtain hs where hs: "diff_lines ?a ?b = Some hs" using diff_lines_script [of ?a ?b] by auto
  note laid = diff_lines_laid_out [OF hs]
  have none: "hs = [] \<longleftrightarrow> old_text = new_text" using hs diff_lines_none_iff [of ?a ?b] by auto
  obtain out where out: "unified_loop ?a ?b context_lines 0 hs = Some out"
    "renders (stripped ?a) (stripped ?b) out"
    using unified_loop_renders [of ?a ?b 0 hs context_lines] laid assms by auto
  have "out \<noteq> []" if "old_text \<noteq> new_text"
    by (metis renders_nothing map_is_Nil_conv split_lines_eq_iff out(2) that)
  then show ?thesis using hs out none by (auto simp: unified_diff_def Let_def)
qed

theorem unified_diff_accounts_witness:
  "\<exists>out. unified_diff [CHR ''a'', newline, CHR ''b''] [CHR ''a'', newline, CHR ''c''] 3 = Some out \<and> out \<noteq> [] \<and>
     renders [''a'', ''b''] [''a'', ''c''] out"
proof -
  have lines: "split_lines [CHR ''a'', newline, x] = [[CHR ''a'', newline], [x]]" if "x \<noteq> newline" for x
    using that by (simp add: split_lines.simps)
  have "length (split_lines [CHR ''a'', newline, CHR ''b'']) + 2 * 3 < 2 ^ 64" by (simp add: lines)
  from unified_diff_accounts [OF this, of "[CHR ''a'', newline, CHR ''c'']"] show ?thesis
    by (simp add: lines strip_newline_def)
qed

text \<open>With a context size of \<open>2 ^ 63\<close> the sum of the grouping test wraps around to the end of the hunk: the
hunks part although everything is context, and what the second one removes has been shown as context
after the first.\<close>

lemma context_size_wraps:
  "split_group (2 ^ 63) \<lparr>aStart = 0, aCount = 1, bStart = 0, bCount = 1\<rparr>
      [\<lparr>aStart = 2, aCount = 1, bStart = 2, bCount = 1\<rparr>] =
    ([\<lparr>aStart = 0, aCount = 1, bStart = 0, bCount = 1\<rparr>], [\<lparr>aStart = 2, aCount = 1, bStart = 2, bCount = 1\<rparr>])"
  by simp

end
