(* ===== verification/Keys.thy ===== *)
theory Keys
  imports Utf8 "HOL-Library.Product_Lexorder"
begin

text \<open>
  \<open>Source/Editor/Key.h\<close> and \<open>Key.cpp\<close>: key chords, the Emacs notation they are written in, and
  the order \<open>std::map\<close> keeps them in.  A thrown \<open>std::invalid_argument\<close> is an \<open>Inl\<close>.
\<close>

section \<open>Chords\<close>

datatype special_key =
  NoKey | Enter | Tab | Backspace | Delete | Escape | Up | Down | Left | Right | Home | End
| PageUp | PageDown | F1 | F2 | F3 | F4 | F5 | F6 | F7 | F8 | F9 | F10 | F11 | F12 | Super

record key_chord =
  chordControl :: bool
  chordMeta :: bool
  chordShift :: bool
  chordSuper :: bool
  chordSpecial :: special_key
  chordCodepoint :: char32

definition no_chord :: key_chord where
  "no_chord = \<lparr>chordControl = False, chordMeta = False, chordShift = False, chordSuper = False,
     chordSpecial = NoKey, chordCodepoint = 0\<rparr>"

text \<open>The defaulted three-way comparison: member by member, in the order of declaration.\<close>

definition special_keys :: "special_key list" where
  "special_keys = [NoKey, Enter, Tab, Backspace, Delete, Escape, Up, Down, Left, Right, Home, End,
     PageUp, PageDown, F1, F2, F3, F4, F5, F6, F7, F8, F9, F10, F11, F12, Super]"

definition special_index :: "special_key \<Rightarrow> nat" where
  "special_index k = length (takeWhile (\<lambda>x. x \<noteq> k) special_keys)"

definition chord_rank :: "key_chord \<Rightarrow> bool \<times> bool \<times> bool \<times> bool \<times> nat \<times> nat" where
  "chord_rank c = (chordControl c, chordMeta c, chordShift c, chordSuper c,
     special_index (chordSpecial c), unat (chordCodepoint c))"

definition chord_less :: "key_chord \<Rightarrow> key_chord \<Rightarrow> bool" where
  "chord_less a b \<longleftrightarrow> chord_rank a < chord_rank b"

section \<open>The notation\<close>

datatype key_error = EmptyToken | UnrecognizedToken bytes

definition decode_single_codepoint :: "bytes \<Rightarrow> char32 option" where
  "decode_single_codepoint t =
     (case t of
        [] \<Rightarrow> None
      | b # bs \<Rightarrow>
          (case (if u8 b < 0x80 then Some (1, ucast (u8 b)) else decode_lead (u8 b)) of
             None \<Rightarrow> None
           | Some (len, cp) \<Rightarrow> if length t \<noteq> len then None else decode_tail bs cp))"

definition named_keys :: "(bytes \<times> special_key) list" where
  "named_keys = [(''RET'', Enter), (''TAB'', Tab), (''DEL'', Backspace), (''DELETE'', Delete),
     (''ESC'', Escape), (''UP'', Up), (''DOWN'', Down), (''LEFT'', Left), (''RIGHT'', Right),
     (''HOME'', Home), (''END'', End), (''PRIOR'', PageUp), (''PAGEUP'', PageUp), (''NEXT'', PageDown),
     (''PAGEDOWN'', PageDown), (''F1'', F1), (''F2'', F2), (''F3'', F3), (''F4'', F4), (''F5'', F5),
     (''F6'', F6), (''F7'', F7), (''F8'', F8), (''F9'', F9), (''F10'', F10), (''F11'', F11),
     (''F12'', F12), (''SUPER'', Super)]"

fun strip_modifiers :: "bytes \<Rightarrow> key_chord \<Rightarrow> bytes \<times> key_chord" where
  "strip_modifiers (m # d # rest) chord =
     (if d = CHR ''-'' then
        if m = CHR ''C'' then strip_modifiers rest (chord\<lparr>chordControl := True\<rparr>)
        else if m = CHR ''M'' then strip_modifiers rest (chord\<lparr>chordMeta := True\<rparr>)
        else if m = CHR ''S'' then strip_modifiers rest (chord\<lparr>chordShift := True\<rparr>)
        else if m = CHR ''s'' then strip_modifiers rest (chord\<lparr>chordSuper := True\<rparr>)
        else (m # d # rest, chord)
      else (m # d # rest, chord))"
| "strip_modifiers token chord = (token, chord)"

definition parse_key_chord :: "bytes \<Rightarrow> key_error + key_chord" where
  "parse_key_chord token0 =
     (let (token, chord) = strip_modifiers token0 no_chord in
      if token = [] then Inl EmptyToken
      else if token = ''SPC'' then Inr (chord\<lparr>chordCodepoint := 0x20\<rparr>)
      else case map_of named_keys token of
          Some k \<Rightarrow> Inr (chord\<lparr>chordSpecial := k\<rparr>)
        | None \<Rightarrow>
            (case decode_single_codepoint token of
               Some cp \<Rightarrow> Inr (chord\<lparr>chordCodepoint := cp\<rparr>)
             | None \<Rightarrow> Inl (UnrecognizedToken token)))"

lemma token_nonempty:
  assumes "dropWhile (\<lambda>c. c = CHR '' '') s \<noteq> []"
  shows "takeWhile (\<lambda>c. c \<noteq> CHR '' '') (dropWhile (\<lambda>c. c = CHR '' '') s) \<noteq> []"
proof -
  obtain c r where e: "dropWhile (\<lambda>c. c = CHR '' '') s = c # r"
    using assms by (cases "dropWhile (\<lambda>c. c = CHR '' '') s") blast+
  then have "c \<noteq> CHR '' ''" using hd_dropWhile [OF assms] by simp
  then show ?thesis unfolding e by simp
qed

function parse_key_sequence :: "bytes \<Rightarrow> key_error + key_chord list" where
  "parse_key_sequence s =
     (let rest = dropWhile (\<lambda>c. c = CHR '' '') s in
      if rest = [] then Inr []
      else let token = takeWhile (\<lambda>c. c \<noteq> CHR '' '') rest in
        case parse_key_chord token of
          Inl e \<Rightarrow> Inl e
        | Inr chord \<Rightarrow>
            (case parse_key_sequence (drop (length token) rest) of
               Inl e \<Rightarrow> Inl e
             | Inr chords \<Rightarrow> Inr (chord # chords)))"
  by pat_completeness auto
termination
proof (relation "measure length", goal_cases)
  case (2 s rest token chord)
  then have "token \<noteq> []" using token_nonempty [of s] by simp
  then have "length (drop (length token) rest) < length rest" using 2 by (cases rest) auto
  also have "length rest \<le> length s" using 2 by (simp add: length_dropWhile_le)
  finally show ?case by simp
qed simp

declare parse_key_sequence.simps [simp del]

definition format_special :: "special_key \<Rightarrow> bytes" where
  "format_special k =
     (case k of
        NoKey \<Rightarrow> [] | Enter \<Rightarrow> ''RET'' | Tab \<Rightarrow> ''TAB'' | Backspace \<Rightarrow> ''DEL'' | Delete \<Rightarrow> ''DELETE''
      | Escape \<Rightarrow> ''ESC'' | Up \<Rightarrow> ''UP'' | Down \<Rightarrow> ''DOWN'' | Left \<Rightarrow> ''LEFT'' | Right \<Rightarrow> ''RIGHT''
      | Home \<Rightarrow> ''HOME'' | End \<Rightarrow> ''END'' | PageUp \<Rightarrow> ''PAGEUP'' | PageDown \<Rightarrow> ''PAGEDOWN''
      | Super \<Rightarrow> ''SUPER'' | F1 \<Rightarrow> ''F1'' | F2 \<Rightarrow> ''F2'' | F3 \<Rightarrow> ''F3'' | F4 \<Rightarrow> ''F4'' | F5 \<Rightarrow> ''F5''
      | F6 \<Rightarrow> ''F6'' | F7 \<Rightarrow> ''F7'' | F8 \<Rightarrow> ''F8'' | F9 \<Rightarrow> ''F9'' | F10 \<Rightarrow> ''F10'' | F11 \<Rightarrow> ''F11'' | F12 \<Rightarrow> ''F12'')"

definition format_modifiers :: "key_chord \<Rightarrow> bytes" where
  "format_modifiers c =
     (if chordControl c then ''C-'' else []) @ (if chordMeta c then ''M-'' else []) @
     (if chordShift c then ''S-'' else []) @ (if chordSuper c then ''s-'' else [])"

definition format_key_chord :: "key_chord \<Rightarrow> bytes" where
  "format_key_chord c =
     (if chordSpecial c \<noteq> NoKey then format_modifiers c @ format_special (chordSpecial c)
      else if chordCodepoint c = 0x20 then format_modifiers c @ ''SPC''
      else format_modifiers c @ encode_codepoint_utf8 (chordCodepoint c))"

fun format_key_sequence :: "key_chord list \<Rightarrow> bytes" where
  "format_key_sequence [] = []"
| "format_key_sequence [c] = format_key_chord c"
| "format_key_sequence (c # cs) = format_key_chord c @ '' '' @ format_key_sequence cs"

section \<open>The order\<close>

lemma special_index_inverse: "special_keys ! special_index k = k"
  by (cases k) (simp_all add: special_keys_def special_index_def)

lemma chord_rank_inj: "chord_rank a = chord_rank b \<Longrightarrow> a = b"
  using special_index_inverse [of "chordSpecial a"] special_index_inverse [of "chordSpecial b"]
  by (cases a; cases b) (auto simp: chord_rank_def word_unat_eq_iff)

lemma chord_less_linear: "chord_less a b \<or> a = b \<or> chord_less b a"
  using chord_rank_inj by (auto simp: chord_less_def not_less_iff_gr_or_eq linorder_neq_iff)

lemma chord_less_irrefl [simp]: "\<not> chord_less a a"
  by (simp add: chord_less_def)

lemma chord_less_trans: "chord_less a b \<Longrightarrow> chord_less b c \<Longrightarrow> chord_less a c"
  by (auto simp: chord_less_def)

lemma chord_less_asym: "chord_less a b \<Longrightarrow> \<not> chord_less b a"
  by (auto simp: chord_less_def)

section \<open>Reading back what is written\<close>

text \<open>A chord the notation can express: a special key, or a Unicode scalar value.\<close>

definition notated :: "key_chord \<Rightarrow> bool" where
  "notated c \<longleftrightarrow> (if chordSpecial c = NoKey then unicode_scalar (chordCodepoint c) else chordCodepoint c = 0)"

text \<open>What stands after the modifiers: a text the modifier loop leaves alone, without a space.\<close>

definition key_body :: "key_chord \<Rightarrow> bytes" where
  "key_body c = (if chordSpecial c \<noteq> NoKey then format_special (chordSpecial c)
     else if chordCodepoint c = 0x20 then ''SPC'' else encode_codepoint_utf8 (chordCodepoint c))"

lemma format_key_chord_body: "format_key_chord c = format_modifiers c @ key_body c"
  by (simp add: format_key_chord_def key_body_def)

lemma strip_modifiers_body: "tl b = [] \<or> hd (tl b) \<noteq> CHR ''-'' \<Longrightarrow> strip_modifiers b c = (b, c)"
  by (cases "(b, c)" rule: strip_modifiers.cases) auto

lemma special_body: "k \<noteq> NoKey \<Longrightarrow> map_of named_keys (format_special k) = Some k \<and> format_special k \<noteq> ''SPC'' \<and>
    format_special k \<noteq> [] \<and> CHR '' '' \<notin> set (format_special k) \<and> hd (tl (format_special k)) \<noteq> CHR ''-''"
  by (cases k) (simp_all add: format_special_def named_keys_def)

lemma named_keys_ascii: "map_of named_keys (b # d # t) = Some k \<Longrightarrow> \<not> is_continuation_byte d"
  by (auto simp: named_keys_def is_continuation_byte_def split: if_splits)

lemma decode_single_encoded:
  assumes "unicode_scalar cp"
  shows "decode_single_codepoint (encode_codepoint_utf8 cp) = Some cp"
proof -
  have lt: "cp < 0x200000"
    using assms order.strict_trans1 [of cp "0x10FFFF" "0x200000"] by (simp add: unicode_scalar_def)
  have mono: "\<not> cp < 0x80" if "\<not> cp < 0x800"
    using that order.strict_trans [of cp "0x80" "0x800"] by auto
  have mono': "\<not> cp < 0x800" if "\<not> cp < 0x10000"
    using that order.strict_trans [of cp "0x800" "0x10000"] by auto
  consider "cp < 0x80" | "\<not> cp < 0x80" "cp < 0x800"
    | "\<not> cp < 0x80" "\<not> cp < 0x800" "cp < 0x10000"
    | "\<not> cp < 0x80" "\<not> cp < 0x800" "\<not> cp < 0x10000"
    using mono mono' by blast
  then show ?thesis
  proof cases
    case 1
    then show ?thesis
      by (simp add: decode_single_codepoint_def encode_codepoint_utf8_def lead1)
  qed (use lt in \<open>simp_all add: decode_single_codepoint_def decode_encoded_simps\<close>)
qed

lemma space_not_high: "0x80 \<le> u8 c \<Longrightarrow> c \<noteq> CHR '' ''"
  by auto

lemma encoded_space: "CHR '' '' \<in> set (encode_codepoint_utf8 cp) \<Longrightarrow> unicode_scalar cp \<Longrightarrow> cp = 0x20"
proof -
  assume sp: "CHR '' '' \<in> set (encode_codepoint_utf8 cp)" and sc: "unicode_scalar cp"
  obtain c cs where e: "encode_codepoint_utf8 cp = c # cs" "\<forall>x\<in>set cs. is_continuation_byte x"
    by (rule encode_shape)
  have "\<not> is_continuation_byte (CHR '' '')" by code_simp
  then have c: "c = CHR '' ''" using sp e by auto
  have "decode_single_codepoint (c # cs) = Some cp" using decode_single_encoded [OF sc] e(1) by simp
  then show ?thesis by (simp add: c decode_single_codepoint_def split: if_splits)
qed

lemma encoded_body:
  assumes "unicode_scalar cp"
  shows "map_of named_keys (encode_codepoint_utf8 cp) = None" "encode_codepoint_utf8 cp \<noteq> ''SPC''"
    "encode_codepoint_utf8 cp \<noteq> []"
    "tl (encode_codepoint_utf8 cp) = [] \<or> hd (tl (encode_codepoint_utf8 cp)) \<noteq> CHR ''-''"
proof -
  obtain c cs where e: "encode_codepoint_utf8 cp = c # cs" "\<forall>x\<in>set cs. is_continuation_byte x"
    by (rule encode_shape)
  have nc: "\<not> is_continuation_byte (CHR ''P'')" "\<not> is_continuation_byte (CHR ''-'')" by code_simp+
  show "map_of named_keys (encode_codepoint_utf8 cp) = None"
  proof (cases cs)
    case Nil
    then show ?thesis by (simp add: e named_keys_def)
  next
    case (Cons d t)
    then have "is_continuation_byte d" using e(2) by simp
    then show ?thesis using named_keys_ascii [of c d t] Cons e(1) by (cases "map_of named_keys (c # d # t)") auto
  qed
  show "encode_codepoint_utf8 cp \<noteq> ''SPC''" using e nc by auto
  show "encode_codepoint_utf8 cp \<noteq> []" using e by simp
  show "tl (encode_codepoint_utf8 cp) = [] \<or> hd (tl (encode_codepoint_utf8 cp)) \<noteq> CHR ''-''"
    using e nc by (cases cs) auto
qed

lemma key_body_facts:
  assumes "notated c"
  shows "key_body c \<noteq> []" "CHR '' '' \<notin> set (key_body c)" "strip_modifiers (key_body c) d = (key_body c, d)"
proof -
  show "key_body c \<noteq> []"
    using assms encoded_body(3) special_body by (auto simp: key_body_def notated_def split: if_splits)
  show "CHR '' '' \<notin> set (key_body c)"
    using assms encoded_space special_body by (fastforce simp: key_body_def notated_def split: if_splits)
  have "tl (key_body c) = [] \<or> hd (tl (key_body c)) \<noteq> CHR ''-''"
    using assms encoded_body(4) special_body by (auto simp: key_body_def notated_def split: if_splits)
  then show "strip_modifiers (key_body c) d = (key_body c, d)" by (rule strip_modifiers_body)
qed

lemma strip_formatted:
  assumes "notated c"
  shows "strip_modifiers (format_key_chord c) no_chord =
    (key_body c, no_chord\<lparr>chordControl := chordControl c, chordMeta := chordMeta c, chordShift := chordShift c,
       chordSuper := chordSuper c\<rparr>)"
  using key_body_facts(3) [OF assms]
  by (simp add: format_key_chord_body format_modifiers_def no_chord_def)

lemma parse_formatted_chord:
  assumes "notated c"
  shows "parse_key_chord (format_key_chord c) = Inr c"
proof -
  consider "chordSpecial c \<noteq> NoKey" | "chordSpecial c = NoKey" "chordCodepoint c = 0x20"
    | "chordSpecial c = NoKey" "chordCodepoint c \<noteq> 0x20" by blast
  then show ?thesis
  proof cases
    case 1
    then show ?thesis
      using assms special_body [of "chordSpecial c"] key_body_facts(1) [OF assms]
      unfolding parse_key_chord_def strip_formatted [OF assms]
      by (simp add: key_body_def notated_def no_chord_def)
  next
    case 2
    then show ?thesis
      unfolding parse_key_chord_def strip_formatted [OF assms] by (simp add: key_body_def no_chord_def)
  next
    case 3
    then have "unicode_scalar (chordCodepoint c)" using assms by (simp add: notated_def)
    with 3 show ?thesis
      using encoded_body decode_single_encoded
      unfolding parse_key_chord_def strip_formatted [OF assms] by (simp add: key_body_def no_chord_def)
  qed
qed

lemma formatted_token:
  assumes "notated c"
  shows "format_key_chord c \<noteq> []" "CHR '' '' \<notin> set (format_key_chord c)"
  using key_body_facts(1,2) [OF assms] by (auto simp: format_key_chord_body format_modifiers_def)

lemma parse_token:
  assumes "notated c" "rest = [] \<or> hd rest = CHR '' ''"
  shows "parse_key_sequence (format_key_chord c @ rest) =
    (case parse_key_sequence rest of Inl e \<Rightarrow> Inl e | Inr cs \<Rightarrow> Inr (c # cs))"
proof -
  let ?f = "format_key_chord c"
  note f = formatted_token [OF assms(1)]
  have drop: "dropWhile (\<lambda>c. c = CHR '' '') (?f @ rest) = ?f @ rest"
    using f by (cases ?f) auto
  have take: "takeWhile (\<lambda>c. c \<noteq> CHR '' '') (?f @ rest) = ?f"
    using f(2) assms(2) by (cases rest) (auto simp: takeWhile_append takeWhile_eq_all_conv)
  show ?thesis
    using f(1) by (subst parse_key_sequence.simps) (simp add: drop take parse_formatted_chord [OF assms(1)] Let_def)
qed

lemma parse_key_sequence_space: "parse_key_sequence (CHR '' '' # s) = parse_key_sequence s"
  by (subst (1 2) parse_key_sequence.simps) simp

lemma format_key_sequence_head: "cs \<noteq> [] \<Longrightarrow> format_key_sequence (c # cs) = format_key_chord c @ '' '' @ format_key_sequence cs"
  by (cases cs) simp_all

section \<open>The property\<close>

text \<open>
  C35: the notation is read back.  Any sequence of chords that are each a special key or a Unicode
  scalar value, with any modifiers, formats to a text that parses to the same sequence.
\<close>

theorem key_notation_round_trip:
  assumes "\<forall>c \<in> set cs. notated c"
  shows "parse_key_sequence (format_key_sequence cs) = Inr cs"
  using assms
proof (induction cs)
  case Nil
  then show ?case by (subst parse_key_sequence.simps) simp
next
  case (Cons c cs)
  show ?case
  proof (cases "cs = []")
    case True
    have "parse_key_sequence [] = Inr []" by (subst parse_key_sequence.simps) simp
    then show ?thesis using True parse_token [of c "[]"] Cons.prems by simp
  next
    case False
    then show ?thesis
      using Cons parse_token [of c "'' '' @ format_key_sequence cs"]
      by (simp add: format_key_sequence_head parse_key_sequence_space)
  qed
qed

theorem key_notation_round_trip_witness:
  "parse_key_sequence (format_key_sequence
     [no_chord\<lparr>chordControl := True, chordCodepoint := 0x78\<rparr>, no_chord\<lparr>chordMeta := True, chordSpecial := F5\<rparr>]) =
   Inr [no_chord\<lparr>chordControl := True, chordCodepoint := 0x78\<rparr>, no_chord\<lparr>chordMeta := True, chordSpecial := F5\<rparr>]"
  by (rule key_notation_round_trip) (simp add: notated_def no_chord_def unicode_scalar_def)

end
