(* ===== verification/Keymap.thy ===== *)
theory Keymap
  imports Keys LineDiff
begin

text \<open>
  \<open>Source/Editor/Keymap.h\<close> and \<open>Keymap.cpp\<close>: the trie of key sequences, and the stack of
  keymaps a key press is looked up in.  A \<open>std::map\<close> over chords is the list of its entries in
  the order of chords.  The abstract view of a keymap is the partial function from sequences to
  commands, \<open>bound\<close>.
\<close>

section \<open>The trie\<close>

datatype keymap = KeymapNode (nodeCommand: "bytes option") (nodeChildren: "(key_chord \<times> keymap) list")

definition empty_keymap :: keymap where
  "empty_keymap = KeymapNode None []"

text \<open>Storing at a key of a \<open>std::map\<close>.\<close>

fun map_put :: "key_chord \<Rightarrow> 'a \<Rightarrow> (key_chord \<times> 'a) list \<Rightarrow> (key_chord \<times> 'a) list" where
  "map_put k v [] = [(k, v)]"
| "map_put k v ((k', v') # m) =
     (if k = k' then (k, v) # m
      else if chord_less k k' then (k, v) # (k', v') # m
      else (k', v') # map_put k v m)"

fun keymap_bind :: "key_chord list \<Rightarrow> bytes \<Rightarrow> keymap \<Rightarrow> keymap" where
  "keymap_bind [] command (KeymapNode _ children) = KeymapNode (Some command) children"
| "keymap_bind (chord # chords) command (KeymapNode c children) =
     KeymapNode c (map_put chord
       (keymap_bind chords command
         (case map_of children chord of None \<Rightarrow> empty_keymap | Some child \<Rightarrow> child)) children)"

fun keymap_unbind :: "key_chord list \<Rightarrow> keymap \<Rightarrow> keymap" where
  "keymap_unbind [] (KeymapNode _ children) = KeymapNode None children"
| "keymap_unbind (chord # chords) (KeymapNode c children) =
     (case map_of children chord of
        None \<Rightarrow> KeymapNode c children
      | Some child \<Rightarrow> KeymapNode c (map_put chord (keymap_unbind chords child) children))"

text \<open>The walk \<open>Resolve\<close> and \<open>ChildrenAt\<close> begin with.\<close>

fun node_at :: "key_chord list \<Rightarrow> keymap \<Rightarrow> keymap option" where
  "node_at [] node = Some node"
| "node_at (chord # chords) node =
     (case map_of (nodeChildren node) chord of None \<Rightarrow> None | Some child \<Rightarrow> node_at chords child)"

datatype key_lookup = NoMatch | Prefix | Match bytes

definition resolve :: "key_chord list \<Rightarrow> keymap \<Rightarrow> key_lookup" where
  "resolve sequence k =
     (case node_at sequence k of
        None \<Rightarrow> NoMatch
      | Some node \<Rightarrow>
          (case nodeCommand node of
             Some command \<Rightarrow> Match command
           | None \<Rightarrow> if nodeChildren node \<noteq> [] then Prefix else NoMatch))"

fun collect_ambiguous :: "keymap \<Rightarrow> key_chord list \<Rightarrow> bytes list" where
  "collect_ambiguous (KeymapNode c children) sequence =
     (if c \<noteq> None \<and> children \<noteq> [] then [format_key_sequence sequence] else []) @
     concat (map (\<lambda>(chord, child). collect_ambiguous child (sequence @ [chord])) children)"

definition ambiguous_bindings :: "keymap \<Rightarrow> bytes list" where
  "ambiguous_bindings k = collect_ambiguous k []"

type_synonym child_binding = "key_chord \<times> bytes option"

definition children_at :: "key_chord list \<Rightarrow> keymap \<Rightarrow> child_binding list" where
  "children_at chords k =
     (case node_at chords k of
        None \<Rightarrow> []
      | Some node \<Rightarrow> map (\<lambda>(chord, child). (chord, nodeCommand child)) (nodeChildren node))"

record key_binding =
  bindingSequence :: "key_chord list"
  bindingCommand :: bytes
  bindingLayer :: nat

fun collect_bindings :: "keymap \<Rightarrow> key_chord list \<Rightarrow> key_binding list" where
  "collect_bindings (KeymapNode c children) sequence =
     (case c of None \<Rightarrow> []
      | Some command \<Rightarrow> [\<lparr>bindingSequence = sequence, bindingCommand = command, bindingLayer = 0\<rparr>]) @
     concat (map (\<lambda>(chord, child). collect_bindings child (sequence @ [chord])) children)"

definition all_bindings :: "keymap \<Rightarrow> key_binding list" where
  "all_bindings k = collect_bindings k []"

section \<open>The stack\<close>

record keymap_stack =
  stackLayers :: "keymap list"
  stackNames :: "bytes list"

definition layer_name :: "keymap_stack \<Rightarrow> nat \<Rightarrow> bytes" where
  "layer_name s layer =
     (if layer < length (stackNames s) \<and> stackNames s ! layer \<noteq> [] then stackNames s ! layer
      else ''Layer '' @ decimal layer)"

fun resolve_layers :: "keymap list \<Rightarrow> key_chord list \<Rightarrow> bool \<Rightarrow> key_lookup" where
  "resolve_layers [] sequence anyPrefix = (if anyPrefix then Prefix else NoMatch)"
| "resolve_layers (layer # layers) sequence anyPrefix =
     (case resolve sequence layer of
        Match command \<Rightarrow> Match command
      | Prefix \<Rightarrow> resolve_layers layers sequence True
      | NoMatch \<Rightarrow> resolve_layers layers sequence anyPrefix)"

definition stack_resolve :: "keymap_stack \<Rightarrow> key_chord list \<Rightarrow> key_lookup" where
  "stack_resolve s sequence = resolve_layers (stackLayers s) sequence False"

definition merge_child :: "child_binding list \<Rightarrow> child_binding \<Rightarrow> child_binding list" where
  "merge_child merged b = (if \<exists>e \<in> set merged. fst e = fst b then merged else merged @ [b])"

definition stack_children_at :: "keymap_stack \<Rightarrow> key_chord list \<Rightarrow> child_binding list" where
  "stack_children_at s chords =
     foldl (\<lambda>merged layer. foldl merge_child merged (children_at chords layer)) [] (stackLayers s)"

text \<open>\<open>Lookup::commandName\<close>, empty unless the result is a match.\<close>

fun command_name :: "key_lookup \<Rightarrow> bytes" where
  "command_name (Match command) = command"
| "command_name _ = []"

fun shadowing_prefix :: "keymap_stack \<Rightarrow> key_chord list \<Rightarrow> nat list \<Rightarrow> bytes" where
  "shadowing_prefix s sequence [] = []"
| "shadowing_prefix s sequence (n # ns) =
     (case stack_resolve s (take n sequence) of
        Match command \<Rightarrow> command
      | _ \<Rightarrow> shadowing_prefix s sequence ns)"

definition shadowing_command :: "keymap_stack \<Rightarrow> key_binding \<Rightarrow> bytes" where
  "shadowing_command s b =
     (let name = command_name (stack_resolve s (bindingSequence b)) in
      if name \<noteq> bindingCommand b then name
      else shadowing_prefix s (bindingSequence b) [1..<length (bindingSequence b)])"

definition layer_bindings :: "keymap_stack \<Rightarrow> key_binding list" where
  "layer_bindings s = concat (map (\<lambda>i. map (\<lambda>b. b\<lparr>bindingLayer := i\<rparr>) (all_bindings (stackLayers s ! i)))
     [0..<length (stackLayers s)])"

definition stack_all_bindings :: "keymap_stack \<Rightarrow> key_binding list" where
  "stack_all_bindings s = filter (\<lambda>b. shadowing_command s b = []) (layer_bindings s)"

definition shadowed_bindings :: "keymap_stack \<Rightarrow> (key_binding \<times> bytes) list" where
  "shadowed_bindings s =
     map (\<lambda>b. (b, shadowing_command s b)) (filter (\<lambda>b. shadowing_command s b \<noteq> []) (layer_bindings s))"

text \<open>\<open>operator<\<close> of \<open>std::string\<close>: the bytes as unsigned numbers.\<close>

fun string_less :: "bytes \<Rightarrow> bytes \<Rightarrow> bool" where
  "string_less _ [] = False"
| "string_less [] (_ # _) = True"
| "string_less (a # as) (b # bs) = (u8 a < u8 b \<or> (a = b \<and> string_less as bs))"

definition shorter_sequence :: "key_chord list \<Rightarrow> key_chord list \<Rightarrow> bool" where
  "shorter_sequence a b \<longleftrightarrow> length a < length b \<or>
     (length a = length b \<and> string_less (format_key_sequence a) (format_key_sequence b))"

definition keep_shortest :: "(bytes \<rightharpoonup> key_chord list) \<Rightarrow> key_binding \<Rightarrow> (bytes \<rightharpoonup> key_chord list)" where
  "keep_shortest m b =
     (case m (bindingCommand b) of
        None \<Rightarrow> m(bindingCommand b \<mapsto> bindingSequence b)
      | Some old \<Rightarrow> if shorter_sequence (bindingSequence b) old then m(bindingCommand b \<mapsto> bindingSequence b) else m)"

definition shortest_binding_per_command :: "keymap_stack \<Rightarrow> (bytes \<rightharpoonup> bytes)" where
  "shortest_binding_per_command s =
     (\<lambda>command. map_option format_key_sequence (foldl keep_shortest Map.empty (stack_all_bindings s) command))"

section \<open>Sorted entries\<close>

definition entries_sorted :: "(key_chord \<times> 'a) list \<Rightarrow> bool" where
  "entries_sorted m \<longleftrightarrow> sorted_wrt chord_less (map fst m)"

lemma map_put_keys: "set (map fst (map_put k v m)) = insert k (set (map fst m))"
  by (induction k v m rule: map_put.induct) auto

lemma map_put_sorted: "entries_sorted m \<Longrightarrow> entries_sorted (map_put k v m)"
proof (induction k v m rule: map_put.induct)
  case (2 k v k' v' m)
  show ?case
  proof (cases "k = k' \<or> chord_less k k'")
    case True
    then show ?thesis using "2.prems" chord_less_trans by (fastforce simp: entries_sorted_def)
  next
    case False
    then have "chord_less k' k" using chord_less_linear by blast
    with False 2 map_put_keys [of k v m] show ?thesis by (auto simp: entries_sorted_def)
  qed
qed (simp add: entries_sorted_def)

lemma map_of_put: "entries_sorted m \<Longrightarrow> map_of (map_put k v m) = (map_of m)(k \<mapsto> v)"
proof (induction k v m rule: map_put.induct)
  case (2 k v k' v' m)
  have "map_of m k = None" if "chord_less k k'"
  proof -
    have "k \<notin> set (map fst m)"
      using "2.prems" that chord_less_asym by (auto simp: entries_sorted_def)
    then show ?thesis by (simp add: map_of_eq_None_iff)
  qed
  with 2 show ?case by (auto simp: entries_sorted_def fun_eq_iff)
qed (simp add: fun_eq_iff)

lemma map_put_set: "entries_sorted m \<Longrightarrow> set (map_put k v m) \<subseteq> insert (k, v) (set m)"
  by (induction k v m rule: map_put.induct) (auto simp: entries_sorted_def)

fun wf_keymap :: "keymap \<Rightarrow> bool" where
  "wf_keymap (KeymapNode c children) \<longleftrightarrow> entries_sorted children \<and> (\<forall>(k, n) \<in> set children. wf_keymap n)"

lemma wf_empty [simp]: "wf_keymap empty_keymap"
  by (simp add: empty_keymap_def entries_sorted_def)

lemma wf_child: "wf_keymap (KeymapNode c children) \<Longrightarrow> map_of children k = Some n \<Longrightarrow> wf_keymap n"
  using map_of_SomeD by fastforce

lemma wf_put: "wf_keymap (KeymapNode c children) \<Longrightarrow> wf_keymap n \<Longrightarrow> wf_keymap (KeymapNode c (map_put k n children))"
  using map_put_set map_put_sorted by fastforce

lemma wf_bind: "wf_keymap k \<Longrightarrow> wf_keymap (keymap_bind sequence command k)"
proof (induction sequence command k rule: keymap_bind.induct)
  case (2 chord chords command c children)
  have "wf_keymap (case map_of children chord of None \<Rightarrow> empty_keymap | Some child \<Rightarrow> child)"
    using wf_child [OF "2.prems"] by (auto split: option.splits)
  from wf_put [OF "2.prems" "2.IH" [OF this]] show ?case by simp
qed simp

lemma wf_unbind: "wf_keymap k \<Longrightarrow> wf_keymap (keymap_unbind sequence k)"
proof (induction sequence k rule: keymap_unbind.induct)
  case (2 chord chords c children)
  then show ?case
    using wf_put [OF "2.prems"] wf_child [OF "2.prems"] by (auto split: option.splits simp del: wf_keymap.simps)
qed simp

section \<open>A keymap as a partial function\<close>

definition bound :: "keymap \<Rightarrow> key_chord list \<Rightarrow> bytes option" where
  "bound k sequence = Option.bind (node_at sequence k) nodeCommand"

lemma bound_Nil [simp]: "bound (KeymapNode c children) [] = c"
  by (simp add: bound_def)

lemma bound_Cons: "bound (KeymapNode c children) (chord # chords) =
    (case map_of children chord of None \<Rightarrow> None | Some child \<Rightarrow> bound child chords)"
  by (simp add: bound_def split: option.splits)

lemma bound_empty [simp]: "bound empty_keymap s = None"
  by (cases s) (simp_all add: empty_keymap_def bound_Cons)

lemma bound_bind: "wf_keymap k \<Longrightarrow> bound (keymap_bind sequence command k) = (bound k)(sequence \<mapsto> command)"
proof (induction sequence command k rule: keymap_bind.induct)
  case (1 command c children)
  have "bound (KeymapNode (Some command) children) s = ((bound (KeymapNode c children))([] \<mapsto> command)) s" for s
    by (cases s) (simp_all add: bound_Cons)
  then show ?case by (simp add: fun_eq_iff)
next
  case (2 chord chords command c children)
  let ?child = "case map_of children chord of None \<Rightarrow> empty_keymap | Some child \<Rightarrow> child"
  have sorted: "entries_sorted children" using "2.prems" by simp
  have "wf_keymap ?child" using wf_child [OF "2.prems"] by (auto split: option.splits)
  note ih = "2.IH" [OF this]
  have "bound (keymap_bind (chord # chords) command (KeymapNode c children)) s =
    ((bound (KeymapNode c children))(chord # chords \<mapsto> command)) s" for s
  proof (cases s)
    case (Cons x xs)
    show ?thesis
    proof (cases "x = chord")
      case True
      then show ?thesis
        using Cons by (auto simp: bound_Cons map_of_put [OF sorted] ih split: option.splits)
    next
      case False
      then show ?thesis using Cons by (simp add: bound_Cons map_of_put [OF sorted])
    qed
  qed simp
  then show ?case by (simp add: fun_eq_iff)
qed

lemma bound_unbind: "wf_keymap k \<Longrightarrow> bound (keymap_unbind sequence k) = (bound k)(sequence := None)"
proof (induction sequence k rule: keymap_unbind.induct)
  case (1 c children)
  have "bound (KeymapNode None children) s = ((bound (KeymapNode c children))([] := None)) s" for s
    by (cases s) (simp_all add: bound_Cons)
  then show ?case by (simp add: fun_eq_iff)
next
  case (2 chord chords c children)
  have sorted: "entries_sorted children" using "2.prems" by simp
  have "bound (keymap_unbind (chord # chords) (KeymapNode c children)) s =
    ((bound (KeymapNode c children))(chord # chords := None)) s" for s
  proof (cases "map_of children chord")
    case None
    then show ?thesis by (cases s) (auto simp: bound_Cons)
  next
    case (Some child)
    note ih = "2.IH" [OF Some wf_child [OF "2.prems" Some]]
    show ?thesis
      using Some by (cases s) (auto simp: bound_Cons map_of_put [OF sorted] ih)
  qed
  then show ?case by (simp add: fun_eq_iff)
qed

lemma resolve_bound: "resolve s k = Match c \<longleftrightarrow> bound k s = Some c"
  by (auto simp: resolve_def bound_def split: option.splits)

text \<open>The bindings listed are exactly those bound, each once.\<close>

lemma collect_bindings_set:
  "wf_keymap k \<Longrightarrow> b \<in> set (collect_bindings k pre) \<longleftrightarrow>
    (\<exists>s c. b = \<lparr>bindingSequence = pre @ s, bindingCommand = c, bindingLayer = 0\<rparr> \<and> bound k s = Some c)"
proof (induction k arbitrary: pre b)
  case (KeymapNode c children)
  have distinct: "distinct (map fst children)"
    using KeymapNode.prems by (auto simp: entries_sorted_def sorted_wrt_iff_nth_less distinct_conv_nth dest: chord_less_asym)
      (metis chord_less_irrefl linorder_neqE_nat)
  have child: "b \<in> set (collect_bindings n (pre @ [k])) \<longleftrightarrow>
      (\<exists>s d. b = \<lparr>bindingSequence = pre @ k # s, bindingCommand = d, bindingLayer = 0\<rparr> \<and> bound n s = Some d)"
    if "(k, n) \<in> set children" for k n
    using KeymapNode.IH [OF that, of n b "pre @ [k]"] KeymapNode.prems that by auto
  show ?case (is "?l \<longleftrightarrow> ?r")
  proof
    assume ?l
    then consider d where "c = Some d" "b = \<lparr>bindingSequence = pre, bindingCommand = d, bindingLayer = 0\<rparr>"
      | k n where "(k, n) \<in> set children" "b \<in> set (collect_bindings n (pre @ [k]))"
      by (auto split: option.splits)
    then show ?r
    proof cases
      case 1
      then show ?thesis by (intro exI [of _ "[]"] exI [of _ d]) simp
    next
      case 2
      then obtain s d where "b = \<lparr>bindingSequence = pre @ k # s, bindingCommand = d, bindingLayer = 0\<rparr>" "bound n s = Some d"
        using child by blast
      moreover have "map_of children k = Some n" using 2(1) distinct by simp
      ultimately show ?thesis by (intro exI [of _ "k # s"] exI [of _ d]) (simp add: bound_Cons)
    qed
  next
    assume ?r
    then obtain s d where b: "b = \<lparr>bindingSequence = pre @ s, bindingCommand = d, bindingLayer = 0\<rparr>"
      "bound (KeymapNode c children) s = Some d" by blast
    show ?l
    proof (cases s)
      case Nil
      then show ?thesis using b by simp
    next
      case (Cons k s')
      then obtain n where n: "map_of children k = Some n" "bound n s' = Some d"
        using b(2) by (auto simp: bound_Cons split: option.splits)
      then have "(k, n) \<in> set children" by (simp add: map_of_SomeD)
      moreover from child [OF this] n(2) b(1) Cons have "b \<in> set (collect_bindings n (pre @ [k]))" by blast
      ultimately show ?thesis by fastforce
    qed
  qed
qed


lemma collect_bindings_distinct: "wf_keymap k \<Longrightarrow> distinct (collect_bindings k pre)"
proof (induction k arbitrary: pre)
  case (KeymapNode c children)
  have starts: "take (Suc (length pre)) (bindingSequence b) = pre @ [k]"
    if "(k, n) \<in> set children" "b \<in> set (collect_bindings n (pre @ [k]))" for k n b
    using collect_bindings_set [of n b "pre @ [k]"] KeymapNode.prems that by fastforce
  have keys: "sorted_wrt (\<lambda>a b. chord_less (fst a) (fst b)) children"
    using KeymapNode.prems by (simp add: entries_sorted_def sorted_wrt_map)
  have "distinct (concat (map (\<lambda>(k, n). collect_bindings n (pre @ [k])) ms))"
    if "set ms \<subseteq> set children" "sorted_wrt (\<lambda>a b. chord_less (fst a) (fst b)) ms" for ms
    using that
  proof (induction ms)
    case (Cons m ms)
    obtain k n where m: "m = (k, n)" by (cases m)
    then have mem: "(k, n) \<in> set children" using Cons.prems(1) by simp
    have "set (collect_bindings n (pre @ [k])) \<inter> set (concat (map (\<lambda>(k, n). collect_bindings n (pre @ [k])) ms)) = {}"
    proof (rule ccontr)
      assume "\<not> ?thesis"
      then obtain b k' n' where b: "b \<in> set (collect_bindings n (pre @ [k]))" "(k', n') \<in> set ms"
        "b \<in> set (collect_bindings n' (pre @ [k']))" by auto
      then have "pre @ [k] = pre @ [k']" using starts [OF mem b(1)] starts [OF _ b(3)] Cons.prems(1) by fastforce
      then show False using Cons.prems(2) b(2) m by fastforce
    qed
    moreover have "distinct (collect_bindings n (pre @ [k]))"
      using KeymapNode.IH [OF mem] KeymapNode.prems mem by fastforce
    ultimately show ?case using Cons m by simp
  qed simp
  from this [OF subset_refl keys]
  have children: "distinct (concat (map (\<lambda>(k, n). collect_bindings n (pre @ [k])) children))" .
  have "\<lparr>bindingSequence = pre, bindingCommand = d, bindingLayer = 0\<rparr> \<notin>
      set (concat (map (\<lambda>(k, n). collect_bindings n (pre @ [k])) children))" for d
    using starts by fastforce
  with children show ?case by (auto split: option.splits)
qed

text \<open>Where a longer sequence is bound, a sequence that is not is a prefix.\<close>

lemma node_at_append: "node_at (s @ t) k = Option.bind (node_at s k) (node_at t)"
  by (induction s k rule: node_at.induct) (auto split: option.splits)

lemma resolve_prefix:
  assumes "bound k (s @ t) = Some c" "bound k s = None"
  shows "resolve s k = Prefix"
proof -
  obtain n m where n: "node_at s k = Some n" "node_at t n = Some m" "nodeCommand m = Some c"
    using assms(1) by (auto simp: bound_def node_at_append bind_eq_Some_conv)
  moreover have "nodeCommand n = None" using assms(2) n(1) by (simp add: bound_def)
  moreover have "nodeChildren n \<noteq> []"
    using n(2,3) calculation(4) by (cases t) (auto split: option.splits)
  ultimately show ?thesis by (simp add: resolve_def)
qed

section \<open>The property\<close>

datatype keymap_edit = BindKeys "key_chord list" bytes | UnbindKeys "key_chord list"

fun apply_edit :: "keymap \<Rightarrow> keymap_edit \<Rightarrow> keymap" where
  "apply_edit k (BindKeys s c) = keymap_bind s c k"
| "apply_edit k (UnbindKeys s) = keymap_unbind s k"

fun edit_spec :: "(key_chord list \<rightharpoonup> bytes) \<Rightarrow> keymap_edit \<Rightarrow> (key_chord list \<rightharpoonup> bytes)" where
  "edit_spec m (BindKeys s c) = m(s \<mapsto> c)"
| "edit_spec m (UnbindKeys s) = m(s := None)"

definition keymap_of :: "keymap_edit list \<Rightarrow> keymap" where
  "keymap_of es = foldl apply_edit empty_keymap es"

definition binding_map :: "keymap_edit list \<Rightarrow> (key_chord list \<rightharpoonup> bytes)" where
  "binding_map es = foldl edit_spec Map.empty es"

lemma edited_keymap: "wf_keymap (keymap_of es) \<and> bound (keymap_of es) = binding_map es"
  unfolding keymap_of_def binding_map_def
proof (induction es rule: rev_induct)
  case (snoc e es)
  then show ?case by (cases e) (simp_all add: wf_bind wf_unbind bound_bind bound_unbind)
qed (simp add: fun_eq_iff)

text \<open>
  C36: a keymap is the finite map its edits describe.  After any bindings and unbindings,
  looking a sequence up matches exactly the command the last edit of that sequence gave it, a
  sequence with a longer one bound and none itself is a prefix, and the bindings listed are
  those of the map, each once.
\<close>

theorem keymap_refines_map:
  "(resolve s (keymap_of es) = Match c \<longleftrightarrow> binding_map es s = Some c) \<and>
    (binding_map es s = None \<and> binding_map es (s @ t) \<noteq> None \<longrightarrow> resolve s (keymap_of es) = Prefix) \<and>
    distinct (all_bindings (keymap_of es)) \<and>
    (\<lambda>b. (bindingSequence b, bindingCommand b)) ` set (all_bindings (keymap_of es)) =
      {(s, c). binding_map es s = Some c}"
proof (intro conjI impI)
  note k = conjunct1 [OF edited_keymap [of es]] and eq = conjunct2 [OF edited_keymap [of es]]
  show "resolve s (keymap_of es) = Match c \<longleftrightarrow> binding_map es s = Some c"
    unfolding resolve_bound eq ..
  show "resolve s (keymap_of es) = Prefix" if "binding_map es s = None \<and> binding_map es (s @ t) \<noteq> None"
    using that resolve_prefix [of "keymap_of es" s t] unfolding eq by blast
  show "distinct (all_bindings (keymap_of es))"
    unfolding all_bindings_def by (rule collect_bindings_distinct [OF k])
  show "(\<lambda>b. (bindingSequence b, bindingCommand b)) ` set (all_bindings (keymap_of es)) =
      {(s, c). binding_map es s = Some c}"
    (is "?f ` _ = ?m")
  proof (rule set_eqI)
    fix p :: "key_chord list \<times> bytes"
    obtain u d where p: "p = (u, d)" by (cases p)
    let ?b = "\<lparr>bindingSequence = u, bindingCommand = d, bindingLayer = 0\<rparr>"
    have mem: "b \<in> set (all_bindings (keymap_of es)) \<longleftrightarrow>
        (\<exists>s c. b = \<lparr>bindingSequence = s, bindingCommand = c, bindingLayer = 0\<rparr> \<and> binding_map es s = Some c)" for b
      using collect_bindings_set [OF k, of b "[]"] unfolding eq all_bindings_def by simp
    have "p \<in> ?f ` set (all_bindings (keymap_of es)) \<longleftrightarrow> ?b \<in> set (all_bindings (keymap_of es))"
    proof
      assume "p \<in> ?f ` set (all_bindings (keymap_of es))"
      then obtain b where b: "b \<in> set (all_bindings (keymap_of es))" "bindingSequence b = u" "bindingCommand b = d"
        using p by auto
      moreover from b(1) [unfolded mem] b(2,3) have "b = ?b" by auto
      ultimately show "?b \<in> set (all_bindings (keymap_of es))" by simp
    next
      assume "?b \<in> set (all_bindings (keymap_of es))"
      then have "?f ?b \<in> ?f ` set (all_bindings (keymap_of es))" by (rule imageI)
      then show "p \<in> ?f ` set (all_bindings (keymap_of es))" using p by simp
    qed
    then show "p \<in> ?f ` set (all_bindings (keymap_of es)) \<longleftrightarrow> p \<in> ?m" by (simp add: mem p)
  qed
qed

theorem keymap_refines_map_witness:
  "resolve [no_chord] (keymap_bind [no_chord, no_chord] ''save-buffer'' empty_keymap) = Prefix \<and>
   resolve [no_chord, no_chord] (keymap_bind [no_chord, no_chord] ''save-buffer'' empty_keymap) = Match ''save-buffer''"
  using keymap_refines_map [where es = "[BindKeys [no_chord, no_chord] ''save-buffer'']" and s = "[no_chord]"
      and t = "[no_chord]"]
    keymap_refines_map [where es = "[BindKeys [no_chord, no_chord] ''save-buffer'']" and s = "[no_chord, no_chord]"
      and c = "''save-buffer''"]
  by (simp add: keymap_of_def binding_map_def del: keymap_bind.simps)

text \<open>
  Unbinding leaves the nodes of the trie: a sequence that began a binding since removed still
  resolves as a prefix, though nothing longer is bound.
\<close>

lemma unbound_prefix_stays:
  "let x = no_chord\<lparr>chordControl := True, chordCodepoint := 0x78\<rparr>;
       k = keymap_unbind [x, x] (keymap_bind [x, x] ''save-buffer'' empty_keymap)
   in all_bindings k = [] \<and> resolve [x] k = Prefix"
  by (simp add: no_chord_def empty_keymap_def all_bindings_def resolve_def Let_def)

end
