(* ===== verification/Dispatcher.thy ===== *)
theory Dispatcher
  imports Keymap "HOL-Library.AList" "HOL-Library.Char_ord" "HOL-Library.List_Lexorder"
begin

text \<open>
  \<open>Source/Editor/Command.h\<close>, \<open>Command.cpp\<close>, \<open>Dispatcher.h\<close> and \<open>Dispatcher.cpp\<close>: the
  registry of commands, and the dispatcher that collects key chords until they name one.

  A command is a function on its context; the flag it returns with the new context says that
  it threw.  Of a \<open>CommandContext\<close> the dispatcher knows three fields; the rest, the buffer among
  it, is \<open>contextWorld\<close>, and \<open>undo_groups\<close> are the two methods of that buffer it calls.
\<close>

section \<open>Commands\<close>

record 'w command_context =
  triggeringKey :: key_chord
  prefixArg :: "int option"
  lastCommand :: bytes
  contextWorld :: 'w

type_synonym 'w command_function = "'w command_context \<Rightarrow> 'w command_context \<times> bool"

record 'w command =
  commandName :: bytes
  commandDocstring :: bytes
  commandFunction :: "'w command_function"

text \<open>\<open>CommandRegistry\<close>: the entries of its \<open>std::unordered_map\<close>, in some order.\<close>

type_synonym 'w registry = "(bytes \<times> 'w command) list"

definition registry_register :: "bytes \<Rightarrow> bytes \<Rightarrow> 'w command_function \<Rightarrow> 'w registry \<Rightarrow> 'w registry" where
  "registry_register name doc f r =
     AList.update name \<lparr>commandName = name, commandDocstring = doc, commandFunction = f\<rparr> r"

definition registry_find :: "'w registry \<Rightarrow> bytes \<Rightarrow> 'w command option" where
  "registry_find r name = map_of r name"

definition registry_invoke :: "'w registry \<Rightarrow> bytes \<Rightarrow> 'w command_function" where
  "registry_invoke r name context =
     (case registry_find r name of
        None \<Rightarrow> (context, True)
      | Some command \<Rightarrow> commandFunction command context)"

definition registry_names :: "'w registry \<Rightarrow> bytes list" where
  "registry_names r = sort (map fst r)"

definition complete_command_names :: "'w registry \<Rightarrow> bytes \<Rightarrow> bytes list" where
  "complete_command_names r pre =
     filter (\<lambda>name. length name \<ge> length pre \<and> take (length pre) name = pre) (registry_names r)"

section \<open>The dispatcher\<close>

record 'w undo_groups =
  beginUndoGroup :: "'w \<Rightarrow> 'w"
  endUndoGroup :: "'w \<Rightarrow> 'w"

definition direction_pairs :: "(bytes \<times> bytes) list" where
  "direction_pairs =
     [(''forward-char'', ''backward-char''), (''backward-char'', ''forward-char''),
      (''next-line'', ''previous-line''), (''previous-line'', ''next-line''),
      (''forward-word'', ''backward-word''), (''backward-word'', ''forward-word''),
      (''scroll-page-down'', ''scroll-page-up''), (''scroll-page-up'', ''scroll-page-down'')]"

definition self_insertable_fallback :: "key_chord \<Rightarrow> bool" where
  "self_insertable_fallback c \<longleftrightarrow>
     (if chordControl c \<or> chordMeta c \<or> chordSpecial c \<noteq> NoKey \<or> chordCodepoint c = 0 then False
      else if chordCodepoint c < 0x20 \<or> chordCodepoint c = 0x7F then False
      else chordCodepoint c < 0x80 \<or> chordCodepoint c > 0x9F)"

definition resolve_prefix_arg :: "bytes \<Rightarrow> int \<Rightarrow> bytes \<times> int" where
  "resolve_prefix_arg name v =
     (if v \<ge> 0 then (name, v)
      else (case map_of direction_pairs name of None \<Rightarrow> name | Some opposite \<Rightarrow> opposite, - v))"

definition is_bare_ctrl_g :: "key_chord \<Rightarrow> bool" where
  "is_bare_ctrl_g c \<longleftrightarrow>
     chordControl c \<and> \<not> chordMeta c \<and> chordSpecial c = NoKey \<and> chordCodepoint c = 0x67"

record dispatcher =
  dispatchKeymaps :: keymap_stack
  pendingKeys :: "key_chord list"
  lastInvokedCommand :: bytes
  recording :: bool
  currentMacro :: "key_chord list"
  lastMacro :: "key_chord list"
  lastRecordedChordCount :: nat

definition new_dispatcher :: "keymap_stack \<Rightarrow> dispatcher" where
  "new_dispatcher s = \<lparr>dispatchKeymaps = s, pendingKeys = [], lastInvokedCommand = [], recording = False,
     currentMacro = [], lastMacro = [], lastRecordedChordCount = 0\<rparr>"

datatype feed_outcome = Invoked | Pending | Unbound

text \<open>What \<open>Feed\<close> does: it returns an outcome, or the command's exception passes through it.\<close>

datatype feed_result = Returned feed_outcome | Thrown

fun invoke_times :: "'w registry \<Rightarrow> bytes \<Rightarrow> nat \<Rightarrow> 'w command_function" where
  "invoke_times r name 0 context = (context, False)"
| "invoke_times r name (Suc n) context =
     (case registry_invoke r name context of
        (context', True) \<Rightarrow> (context', True)
      | (context', False) \<Rightarrow> invoke_times r name n context')"

text \<open>The matched command, as the prefix argument asks for it.\<close>

definition run_matched :: "'w undo_groups \<Rightarrow> 'w registry \<Rightarrow> bytes \<Rightarrow> 'w command_function" where
  "run_matched g r name context =
     (case prefixArg context of
        None \<Rightarrow> registry_invoke r name context
      | Some v \<Rightarrow>
          (let (target, times) = resolve_prefix_arg name v;
               (context', threw) =
                 (if times = 1 then registry_invoke r target context
                  else if times > 0 then
                    (let (c, threw) = invoke_times r target (nat times)
                           (context\<lparr>contextWorld := beginUndoGroup g (contextWorld context)\<rparr>)
                     in (c\<lparr>contextWorld := endUndoGroup g (contextWorld c)\<rparr>, threw))
                  else (context, False))
           in if threw then (context', True) else (context'\<lparr>prefixArg := None\<rparr>, False)))"

definition feed :: "'w undo_groups \<Rightarrow> 'w registry \<Rightarrow> key_chord \<Rightarrow> dispatcher \<Rightarrow> 'w command_context \<Rightarrow>
    dispatcher \<times> 'w command_context \<times> feed_result" where
  "feed g r chord d context =
     (if is_bare_ctrl_g chord \<and> (pendingKeys d \<noteq> [] \<or> prefixArg context \<noteq> None) then
        let d1 = d\<lparr>pendingKeys := []\<rparr>; c1 = context\<lparr>prefixArg := None\<rparr> in
        case registry_find r ''keyboard-quit'' of
          Some quit \<Rightarrow>
            (let (c2, threw) = commandFunction quit (c1\<lparr>lastCommand := lastInvokedCommand d1\<rparr>) in
             if threw then (d1, c2, Thrown)
             else (d1\<lparr>lastInvokedCommand := ''keyboard-quit''\<rparr>, c2, Returned Invoked))
        | None \<Rightarrow> (d1, c1, Returned Unbound)
      else
        let keys = pendingKeys d @ [chord];
            d0 = d\<lparr>pendingKeys := keys\<rparr>;
            c0 = context\<lparr>triggeringKey := chord\<rparr>
        in case stack_resolve (dispatchKeymaps d0) keys of
            Match name \<Rightarrow>
              (let d1 = (if recording d0
                         then d0\<lparr>currentMacro := currentMacro d0 @ keys, lastRecordedChordCount := length keys\<rparr>
                         else d0)\<lparr>pendingKeys := []\<rparr>;
                   (c1, threw) = run_matched g r name (c0\<lparr>lastCommand := lastInvokedCommand d1\<rparr>)
               in if threw then (d1, c1, Thrown)
                  else (d1\<lparr>lastInvokedCommand := name\<rparr>, c1, Returned Invoked))
          | Prefix \<Rightarrow> (d0, c0, Returned Pending)
          | NoMatch \<Rightarrow>
              (let bareChord = (length keys = 1);
                   d1 = d0\<lparr>pendingKeys := []\<rparr>;
                   c1 = c0\<lparr>prefixArg := None\<rparr>
               in if bareChord \<and> self_insertable_fallback chord then
                    (case registry_find r ''self-insert-command'' of
                       Some selfInsert \<Rightarrow>
                         (let d2 = (if recording d1
                                    then d1\<lparr>currentMacro := currentMacro d1 @ [chord], lastRecordedChordCount := 1\<rparr>
                                    else d1);
                              (c2, threw) = commandFunction selfInsert (c1\<lparr>lastCommand := lastInvokedCommand d2\<rparr>)
                          in if threw then (d2, c2, Thrown)
                             else (d2\<lparr>lastInvokedCommand := ''self-insert-command''\<rparr>, c2, Returned Invoked))
                     | None \<Rightarrow> (d1, c1, Returned Unbound))
                  else (d1, c1, Returned Unbound)))"

definition dispatcher_reset :: "dispatcher \<Rightarrow> dispatcher" where
  "dispatcher_reset d = d\<lparr>pendingKeys := []\<rparr>"

definition start_recording :: "dispatcher \<Rightarrow> dispatcher" where
  "start_recording d = d\<lparr>recording := True, currentMacro := []\<rparr>"

definition stop_recording :: "dispatcher \<Rightarrow> dispatcher" where
  "stop_recording d =
     (if \<not> recording d then d
      else d\<lparr>recording := False, lastMacro := currentMacro d, currentMacro := []\<rparr>)"

definition record_chord :: "key_chord \<Rightarrow> dispatcher \<Rightarrow> dispatcher" where
  "record_chord chord d =
     (if \<not> recording d then d
      else d\<lparr>currentMacro := currentMacro d @ [chord], lastRecordedChordCount := 1\<rparr>)"

definition discard_most_recently_recorded_chords :: "dispatcher \<Rightarrow> dispatcher" where
  "discard_most_recently_recorded_chords d =
     (if lastRecordedChordCount d \<le> length (currentMacro d)
      then d\<lparr>currentMacro := take (length (currentMacro d) - lastRecordedChordCount d) (currentMacro d)\<rparr>
      else d)\<lparr>lastRecordedChordCount := 0\<rparr>"

text \<open>A run: the chords are fed one after the other; what each did, and the command it names.\<close>

fun feed_all :: "'w undo_groups \<Rightarrow> 'w registry \<Rightarrow> key_chord list \<Rightarrow> dispatcher \<Rightarrow> 'w command_context \<Rightarrow>
    dispatcher \<times> 'w command_context \<times> (feed_result \<times> bytes) list" where
  "feed_all g r [] d context = (d, context, [])"
| "feed_all g r (chord # chords) d context =
     (let (d1, c1, result) = feed g r chord d context;
          (d2, c2, results) = feed_all g r chords d1 c1
      in (d2, c2, (result, lastInvokedCommand d1) # results))"

definition invoked_commands :: "(feed_result \<times> bytes) list \<Rightarrow> bytes list" where
  "invoked_commands results = map snd (filter (\<lambda>(result, _). result = Returned Invoked) results)"


section \<open>Looking a sequence up in the stack\<close>

lemma resolve_layers_NoMatch:
  "resolve_layers ls s p = NoMatch \<longleftrightarrow> \<not> p \<and> (\<forall>l \<in> set ls. resolve s l = NoMatch)"
  by (induction ls s p rule: resolve_layers.induct) (auto split: key_lookup.splits)

lemma resolve_layers_Match: "resolve_layers ls s p = Match c \<Longrightarrow> \<exists>l \<in> set ls. resolve s l = Match c"
  by (induction ls s p rule: resolve_layers.induct) (auto split: key_lookup.splits if_splits)

lemma resolve_layers_found: "l \<in> set ls \<Longrightarrow> resolve s l = Match c \<Longrightarrow> \<exists>c'. resolve_layers ls s p = Match c'"
  by (induction ls s p rule: resolve_layers.induct) (auto split: key_lookup.splits)

lemma resolve_layers_Prefix: "resolve_layers ls s p = Prefix \<Longrightarrow> p \<or> (\<exists>l \<in> set ls. resolve s l = Prefix)"
  by (induction ls s p rule: resolve_layers.induct) (auto split: key_lookup.splits if_splits)

lemma stack_resolve_begun:
  assumes "l \<in> set (stackLayers s)" "bound l (a @ b) = Some c"
  shows "stack_resolve s a \<noteq> NoMatch"
proof
  assume "stack_resolve s a = NoMatch"
  then have none: "resolve a l = NoMatch" using assms(1) by (simp add: stack_resolve_def resolve_layers_NoMatch)
  show False
  proof (cases "bound l a")
    case None
    then show False using resolve_prefix [OF assms(2)] none by simp
  next
    case (Some d)
    then show False using resolve_bound [of a l d] none by simp
  qed
qed

lemma stack_resolve_bound:
  assumes "l \<in> set (stackLayers s)" "bound l a = Some c"
  shows "\<exists>c'. stack_resolve s a = Match c'"
  using resolve_layers_found [OF assms(1)] assms(2) by (simp add: stack_resolve_def resolve_bound)

lemma stack_resolve_command:
  "stack_resolve s a = Match c \<Longrightarrow> \<exists>l \<in> set (stackLayers s). bound l a = Some c"
  using resolve_layers_Match by (fastforce simp: stack_resolve_def resolve_bound)

section \<open>What feeding does to the dispatcher\<close>

text \<open>Nothing is intercepted: no abort key, or nothing to abort.\<close>

abbreviation passed :: "key_chord \<Rightarrow> dispatcher \<Rightarrow> 'w command_context \<Rightarrow> bool" where
  "passed chord d ctx \<equiv> \<not> (is_bare_ctrl_g chord \<and> (pendingKeys d \<noteq> [] \<or> prefixArg ctx \<noteq> None))"

lemma feed_Prefix:
  assumes "passed chord d ctx" "stack_resolve (dispatchKeymaps d) (pendingKeys d @ [chord]) = Prefix"
  shows "feed g r chord d ctx =
    (d\<lparr>pendingKeys := pendingKeys d @ [chord]\<rparr>, ctx\<lparr>triggeringKey := chord\<rparr>, Returned Pending)"
  unfolding feed_def if_not_P [OF assms(1)] using assms(2) by (simp add: Let_def)

lemma feed_pending_inv:
  assumes "feed g r chord d ctx = (d', ctx', result)"
  shows "dispatchKeymaps d' = dispatchKeymaps d"
    "result = Returned Pending \<Longrightarrow> pendingKeys d' = pendingKeys d @ [chord] \<and>
       stack_resolve (dispatchKeymaps d) (pendingKeys d @ [chord]) = Prefix"
    "result \<noteq> Returned Pending \<Longrightarrow> pendingKeys d' = []"
  using assms
  by (auto simp: feed_def Let_def split: if_splits option.splits prod.splits key_lookup.splits)

section \<open>No key sequence waits for ever\<close>

fun keymap_depth :: "keymap \<Rightarrow> nat" where
  "keymap_depth (KeymapNode c children) = Max (insert 0 ((\<lambda>(k, n). Suc (keymap_depth n)) ` set children))"

lemma keymap_depth_child: "(k, n) \<in> set children \<Longrightarrow> Suc (keymap_depth n) \<le> keymap_depth (KeymapNode c children)"
proof -
  assume "(k, n) \<in> set children"
  then have "Suc (keymap_depth n) \<in> insert 0 ((\<lambda>(k, n). Suc (keymap_depth n)) ` set children)" by force
  then have "Suc (keymap_depth n) \<le> Max (insert 0 ((\<lambda>(k, n). Suc (keymap_depth n)) ` set children))"
    by (intro Max_ge) auto
  then show ?thesis by (simp only: keymap_depth.simps)
qed

lemma node_at_depth: "node_at s k = Some n \<Longrightarrow> length s + keymap_depth n \<le> keymap_depth k"
proof (induction s k rule: node_at.induct)
  case (2 chord chords node)
  then obtain child where child: "map_of (nodeChildren node) chord = Some child" "node_at chords child = Some n"
    by (auto split: option.splits)
  then have "Suc (keymap_depth child) \<le> keymap_depth node"
    using keymap_depth_child [OF map_of_SomeD [OF child(1)]] by (cases node) simp
  with "2.IH" [OF child] show ?case by simp
qed simp

lemma resolve_Prefix_depth: "resolve s k = Prefix \<Longrightarrow> length s < keymap_depth k"
proof -
  assume "resolve s k = Prefix"
  then obtain n where n: "node_at s k = Some n" "nodeChildren n \<noteq> []"
    by (auto simp: resolve_def split: option.splits if_splits)
  obtain c children where "n = KeymapNode c children" by (cases n)
  moreover from this n(2) obtain key child where "(key, child) \<in> set children" by (cases children) auto
  ultimately have "0 < keymap_depth n" using keymap_depth_child by fastforce
  with node_at_depth [OF n(1)] show ?thesis by simp
qed

definition stack_depth :: "keymap_stack \<Rightarrow> nat" where
  "stack_depth s = Max (insert 0 (keymap_depth ` set (stackLayers s)))"

lemma stack_resolve_depth: "stack_resolve s a = Prefix \<Longrightarrow> length a < stack_depth s"
proof -
  assume "stack_resolve s a = Prefix"
  then obtain l where l: "l \<in> set (stackLayers s)" "resolve a l = Prefix"
    unfolding stack_resolve_def by (blast dest: resolve_layers_Prefix)
  then have "keymap_depth l \<le> stack_depth s" by (simp add: stack_depth_def)
  with resolve_Prefix_depth [OF l(2)] show ?thesis by simp
qed

lemma all_pending:
  "feed_all g r cs d ctx = (d', ctx', results) \<Longrightarrow> \<forall>x \<in> set results. fst x = Returned Pending \<Longrightarrow>
    pendingKeys d' = pendingKeys d @ cs \<and> dispatchKeymaps d' = dispatchKeymaps d \<and>
    (cs \<noteq> [] \<longrightarrow> stack_resolve (dispatchKeymaps d) (pendingKeys d @ cs) = Prefix)"
proof (induction cs arbitrary: d ctx results)
  case (Cons c cs)
  obtain d1 c1 res where f: "feed g r c d ctx = (d1, c1, res)" by (cases "feed g r c d ctx") auto
  obtain results' where rest: "feed_all g r cs d1 c1 = (d', ctx', results')"
    "results = (res, lastInvokedCommand d1) # results'"
    using Cons.prems(1) f by (auto split: prod.splits)
  then have "res = Returned Pending" using Cons.prems(2) by simp
  then show ?case
    using feed_pending_inv [OF f] Cons.IH [OF rest(1)] Cons.prems(2) rest(2) by (cases cs) auto
qed simp

section \<open>Typing a listed binding\<close>

lemma feed_all_append:
  "feed_all g r (cs @ ds) d ctx =
    (let (d1, c1, xs) = feed_all g r cs d ctx; (d2, c2, ys) = feed_all g r ds d1 c1 in (d2, c2, xs @ ys))"
  by (induction cs arbitrary: d ctx) (auto simp: Let_def split: prod.splits)

lemma feed_prefixes:
  assumes "pendingKeys d = []" "prefixArg ctx = None" "\<forall>m. 0 < m \<and> m \<le> length cs \<longrightarrow>
      stack_resolve (dispatchKeymaps d) (take m cs) = Prefix"
    "\<forall>c \<in> set (tl cs). \<not> is_bare_ctrl_g c"
  shows "\<exists>ctx'. prefixArg ctx' = None \<and> feed_all g r cs d ctx =
    (d\<lparr>pendingKeys := cs\<rparr>, ctx', replicate (length cs) (Returned Pending, lastInvokedCommand d))"
  using assms
proof (induction cs rule: rev_induct)
  case (snoc c cs)
  have tail: "\<forall>c \<in> set (tl cs). \<not> is_bare_ctrl_g c" using snoc.prems(4) by (cases cs) auto
  have pre: "\<forall>m. 0 < m \<and> m \<le> length cs \<longrightarrow> stack_resolve (dispatchKeymaps d) (take m cs) = Prefix"
  proof (intro allI impI)
    fix m assume m: "0 < m \<and> m \<le> length cs"
    then have "take m (cs @ [c]) = take m cs" "m \<le> length (cs @ [c])" by simp_all
    then show "stack_resolve (dispatchKeymaps d) (take m cs) = Prefix" using snoc.prems(3) m by metis
  qed
  from snoc.IH [OF snoc.prems(1,2) pre tail] obtain c1 where c1: "prefixArg c1 = None"
    "feed_all g r cs d ctx = (d\<lparr>pendingKeys := cs\<rparr>, c1, replicate (length cs) (Returned Pending, lastInvokedCommand d))"
    by blast
  have "cs = [] \<or> \<not> is_bare_ctrl_g c" using snoc.prems(4) by (cases cs) auto
  then have "passed c (d\<lparr>pendingKeys := cs\<rparr>) c1" using c1(1) by auto
  moreover have "stack_resolve (dispatchKeymaps d) (take (Suc (length cs)) (cs @ [c])) = Prefix"
    using snoc.prems(3) by auto
  ultimately have "feed g r c (d\<lparr>pendingKeys := cs\<rparr>) c1 =
      (d\<lparr>pendingKeys := cs @ [c]\<rparr>, c1\<lparr>triggeringKey := c\<rparr>, Returned Pending)"
    using feed_Prefix [of c "d\<lparr>pendingKeys := cs\<rparr>" c1 g r] by simp
  then show ?case
    using c1 by (intro exI [of _ "c1\<lparr>triggeringKey := c\<rparr>"])
      (simp add: feed_all_append flip: replicate_append_same)
qed simp

lemma feed_Match:
  assumes "passed chord d ctx" "prefixArg ctx = None"
    "stack_resolve (dispatchKeymaps d) (pendingKeys d @ [chord]) = Match name"
    "\<And>c. \<not> snd (registry_invoke r name c)"
  shows "\<exists>d' ctx'. feed g r chord d ctx = (d', ctx', Returned Invoked) \<and> lastInvokedCommand d' = name"
proof -
  let ?c = "ctx\<lparr>triggeringKey := chord, lastCommand := lastInvokedCommand d\<rparr>"
  obtain c' where c': "registry_invoke r name ?c = (c', False)"
    using assms(4) [of ?c] by (cases "registry_invoke r name ?c") auto
  have "run_matched g r name ?c = (c', False)" using assms(2) c' by (simp add: run_matched_def)
  then show ?thesis
    unfolding feed_def if_not_P [OF assms(1)] using assms(3) by (simp add: Let_def)
qed

text \<open>A sequence some layer binds: its first prefix that is a command of the stack.\<close>

lemma first_command:
  assumes "l \<in> set (stackLayers s)" "bound l a = Some c" "a \<noteq> []"
  obtains n name where "0 < n" "n \<le> length a" "stack_resolve s (take n a) = Match name"
    "\<forall>m. 0 < m \<and> m < n \<longrightarrow> stack_resolve s (take m a) = Prefix"
proof -
  define P where "P n \<longleftrightarrow> 0 < n \<and> (\<exists>name. stack_resolve s (take n a) = Match name)" for n
  have "P (length a)" using stack_resolve_bound [OF assms(1,2)] assms(3) by (simp add: P_def)
  then have least: "P (LEAST n. P n)" "(LEAST n. P n) \<le> length a" by (rule LeastI, rule Least_le)
  then obtain name where "0 < (LEAST n. P n)" "stack_resolve s (take (LEAST n. P n) a) = Match name" by (auto simp: P_def)
  moreover have "stack_resolve s (take m a) = Prefix" if "0 < m" "m < (LEAST n. P n)" for m
  proof -
    have "\<not> P m" using that(2) by (rule not_less_Least)
    moreover have "stack_resolve s (take m a) \<noteq> NoMatch"
      by (rule stack_resolve_begun [OF assms(1), of _ "drop m a"]) (simp add: assms(2))
    ultimately show ?thesis using that(1) by (cases "stack_resolve s (take m a)") (auto simp: P_def)
  qed
  ultimately show ?thesis using that least(2) by blast
qed

lemma shadowing_prefix_empty:
  assumes "\<forall>n c. stack_resolve s (take n a) = Match c \<longrightarrow> c \<noteq> []"
  shows "shadowing_prefix s a ns = [] \<longleftrightarrow> (\<forall>n \<in> set ns. \<forall>c. stack_resolve s (take n a) \<noteq> Match c)"
  using assms by (induction ns) (auto split: key_lookup.splits)

lemma layer_bindings_bound:
  assumes "\<forall>l \<in> set (stackLayers s). wf_keymap l" "b \<in> set (layer_bindings s)"
  shows "\<exists>l \<in> set (stackLayers s). bound l (bindingSequence b) = Some (bindingCommand b)"
proof -
  obtain i b' where b: "i < length (stackLayers s)" "b' \<in> set (all_bindings (stackLayers s ! i))"
    "b = b'\<lparr>bindingLayer := i\<rparr>"
    using assms(2) by (auto simp: layer_bindings_def)
  then have "wf_keymap (stackLayers s ! i)" using assms(1) by simp
  from collect_bindings_set [OF this, of b' "[]"] b
  have "bound (stackLayers s ! i) (bindingSequence b) = Some (bindingCommand b)" by (auto simp: all_bindings_def)
  then show ?thesis using b(1) nth_mem by blast
qed


section \<open>Recording and replaying\<close>

text \<open>
  The sequences a run of chords resolves to, with the commands they run, given the keys pending
  before it; \<open>fallback\<close> says whether there is a command for a plain unbound character.
\<close>

fun typed :: "(key_chord list \<Rightarrow> key_lookup) \<Rightarrow> bool \<Rightarrow> key_chord list \<Rightarrow> key_chord list \<Rightarrow>
    (key_chord list \<times> bytes) list" where
  "typed look fallback keys [] = []"
| "typed look fallback keys (c # cs) =
     (case look (keys @ [c]) of
        Match name \<Rightarrow> (keys @ [c], name) # typed look fallback [] cs
      | Prefix \<Rightarrow> typed look fallback (keys @ [c]) cs
      | NoMatch \<Rightarrow>
          (if keys = [] \<and> self_insertable_fallback c \<and> fallback then [([c], ''self-insert-command'')] else []) @
          typed look fallback [] cs)"

lemma typed_pending:
  "\<forall>m. 0 < m \<and> m \<le> length q \<longrightarrow> look (p @ take m q) = Prefix \<Longrightarrow> typed look fb p (q @ cs) = typed look fb (p @ q) cs"
proof (induction q arbitrary: p)
  case (Cons c q)
  have first: "look (p @ [c]) = Prefix" using spec [OF Cons.prems, of 1] by simp
  have "\<forall>m. 0 < m \<and> m \<le> length q \<longrightarrow> look ((p @ [c]) @ take m q) = Prefix"
  proof (intro allI impI)
    fix m assume "0 < m \<and> m \<le> length q"
    then show "look ((p @ [c]) @ take m q) = Prefix" using spec [OF Cons.prems, of "Suc m"] by simp
  qed
  from Cons.IH [OF this] first show ?case by simp
qed simp

lemma typed_replayed:
  "\<forall>m. 0 < m \<and> m \<le> length keys \<longrightarrow> look (take m keys) = Prefix \<Longrightarrow>
    typed look fb [] (concat (map fst (typed look fb keys cs))) = typed look fb keys cs"
proof (induction look fb keys cs rule: typed.induct)
  case (2 look fb keys c cs)
  show ?case
  proof (cases "look (keys @ [c])")
    case NoMatch
    then show ?thesis
      using "2.IH"(1) [OF NoMatch] by (cases keys) (auto split: key_lookup.splits)
  next
    case Prefix
    have "\<forall>m. 0 < m \<and> m \<le> length (keys @ [c]) \<longrightarrow> look (take m (keys @ [c])) = Prefix"
      using "2.prems" Prefix by (auto simp: le_Suc_eq)
    then show ?thesis using "2.IH"(2) [OF Prefix] Prefix by simp
  next
    case (Match name)
    let ?rest = "typed look fb [] cs"
    have "typed look fb [] (keys @ [c] @ concat (map fst ?rest)) = typed look fb keys ([c] @ concat (map fst ?rest))"
      using typed_pending [of keys look "[]" fb] "2.prems" by simp
    also have "\<dots> = (keys @ [c], name) # typed look fb [] (concat (map fst ?rest))" using Match by simp
    finally show ?thesis using "2.IH"(3) [OF Match] Match by simp
  qed
qed simp

text \<open>Commands that neither throw nor leave a prefix argument behind, each one bound registered.\<close>

definition tame :: "'w registry \<Rightarrow> keymap_stack \<Rightarrow> bool" where
  "tame r s \<longleftrightarrow>
     (\<forall>name command ctx. registry_find r name = Some command \<longrightarrow> prefixArg ctx = None \<longrightarrow>
        prefixArg (fst (commandFunction command ctx)) = None \<and> \<not> snd (commandFunction command ctx)) \<and>
     (\<forall>a name. stack_resolve s a = Match name \<longrightarrow> registry_find r name \<noteq> None)"

lemma tame_find:
  assumes "tame r s" "registry_find r name = Some command" "prefixArg ctx = None"
  obtains ctx' where "commandFunction command ctx = (ctx', False)" "prefixArg ctx' = None"
  using assms unfolding tame_def by (metis prod.collapse)

lemma feed_typed:
  assumes "tame r (dispatchKeymaps d)" "prefixArg ctx = None" "\<not> is_bare_ctrl_g c"
  shows "\<exists>d' ctx' res. feed g r c d ctx = (d', ctx', res) \<and> prefixArg ctx' = None \<and>
    dispatchKeymaps d' = dispatchKeymaps d \<and> recording d' = recording d \<and>
    (let fb = registry_find r ''self-insert-command'' \<noteq> None; look = stack_resolve (dispatchKeymaps d);
         now = typed look fb (pendingKeys d) [c]
     in (\<forall>cs. typed look fb (pendingKeys d) (c # cs) = now @ typed look fb (pendingKeys d') cs) \<and>
        (if res = Returned Invoked then [lastInvokedCommand d'] else []) = map snd now \<and>
        (recording d \<longrightarrow> currentMacro d' = currentMacro d @ concat (map fst now)))"
proof -
  have pass: "passed c d ctx" using assms(3) by simp
  let ?keys = "pendingKeys d @ [c]"
  show ?thesis
  proof (cases "stack_resolve (dispatchKeymaps d) ?keys")
    case Prefix
    then show ?thesis using feed_Prefix [OF pass Prefix, of g r] assms(2) by (simp add: Let_def)
  next
    case (Match name)
    let ?c = "ctx\<lparr>triggeringKey := c, lastCommand := lastInvokedCommand d\<rparr>"
    obtain command where command: "registry_find r name = Some command"
      using assms(1) Match unfolding tame_def by (metis not_None_eq)
    have "prefixArg ?c = None" using assms(2) by simp
    then obtain ctx' where ctx': "commandFunction command ?c = (ctx', False)" "prefixArg ctx' = None"
      by (rule tame_find [OF assms(1) command])
    then have "run_matched g r name ?c = (ctx', False)"
      using assms(2) command by (simp add: run_matched_def registry_invoke_def)
    then show ?thesis
      unfolding feed_def if_not_P [OF pass] using Match ctx'(2) by (auto simp: Let_def)
  next
    case NoMatch
    show ?thesis
    proof (cases "pendingKeys d = [] \<and> self_insertable_fallback c \<and> registry_find r ''self-insert-command'' \<noteq> None")
      case True
      then obtain command where command: "registry_find r ''self-insert-command'' = Some command" by blast
      let ?c = "ctx\<lparr>triggeringKey := c, prefixArg := None, lastCommand := lastInvokedCommand d\<rparr>"
      have "prefixArg ?c = None" by simp
      then obtain ctx' where "commandFunction command ?c = (ctx', False)" "prefixArg ctx' = None"
        by (rule tame_find [OF assms(1) command])
      then show ?thesis
        unfolding feed_def if_not_P [OF pass] using NoMatch True command by (auto simp: Let_def)
    next
      case False
      then show ?thesis
        unfolding feed_def if_not_P [OF pass] using NoMatch
        by (auto simp: Let_def split: option.splits)
    qed
  qed
qed

lemma feed_all_typed:
  assumes "tame r (dispatchKeymaps d)" "prefixArg ctx = None" "\<forall>c \<in> set cs. \<not> is_bare_ctrl_g c"
  shows "\<exists>d' ctx' results. feed_all g r cs d ctx = (d', ctx', results) \<and> recording d' = recording d \<and>
    dispatchKeymaps d' = dispatchKeymaps d \<and>
    (let ts = typed (stack_resolve (dispatchKeymaps d)) (registry_find r ''self-insert-command'' \<noteq> None) (pendingKeys d) cs
     in invoked_commands results = map snd ts \<and>
        (recording d \<longrightarrow> currentMacro d' = currentMacro d @ concat (map fst ts)))"
  using assms
proof (induction cs arbitrary: d ctx)
  case Nil
  then show ?case by (simp add: invoked_commands_def)
next
  case (Cons c cs)
  have g: "\<not> is_bare_ctrl_g c" using Cons.prems(3) by simp
  obtain d1 c1 res where f: "feed g r c d ctx = (d1, c1, res)" "prefixArg c1 = None"
    "dispatchKeymaps d1 = dispatchKeymaps d" "recording d1 = recording d"
    and now: "let fb = registry_find r ''self-insert-command'' \<noteq> None; look = stack_resolve (dispatchKeymaps d);
         now = typed look fb (pendingKeys d) [c]
     in (\<forall>cs. typed look fb (pendingKeys d) (c # cs) = now @ typed look fb (pendingKeys d1) cs) \<and>
        (if res = Returned Invoked then [lastInvokedCommand d1] else []) = map snd now \<and>
        (recording d \<longrightarrow> currentMacro d1 = currentMacro d @ concat (map fst now))"
    using feed_typed [OF Cons.prems(1,2) g, of g] by blast
  let ?look = "stack_resolve (dispatchKeymaps d)" and ?fb = "registry_find r ''self-insert-command'' \<noteq> None"
  let ?now = "typed ?look ?fb (pendingKeys d) [c]"
  have now': "typed ?look ?fb (pendingKeys d) (c # cs) = ?now @ typed ?look ?fb (pendingKeys d1) cs"
    "(if res = Returned Invoked then [lastInvokedCommand d1] else []) = map snd ?now"
    "recording d \<Longrightarrow> currentMacro d1 = currentMacro d @ concat (map fst ?now)"
    using now unfolding Let_def by blast+
  have "tame r (dispatchKeymaps d1)" "\<forall>c \<in> set cs. \<not> is_bare_ctrl_g c" using Cons.prems(1,3) f(3) by simp_all
  from Cons.IH [OF this(1) f(2) this(2)] obtain d' ctx' results where rest:
    "feed_all g r cs d1 c1 = (d', ctx', results)" "recording d' = recording d" "dispatchKeymaps d' = dispatchKeymaps d"
    "invoked_commands results = map snd (typed ?look ?fb (pendingKeys d1) cs)"
    "recording d \<Longrightarrow> currentMacro d' = currentMacro d1 @ concat (map fst (typed ?look ?fb (pendingKeys d1) cs))"
    by (auto simp: f(3,4) Let_def)
  have "invoked_commands ((res, lastInvokedCommand d1) # results) = map snd (typed ?look ?fb (pendingKeys d) (c # cs))"
    unfolding now'(1) map_append now'(2) [symmetric] using rest(4) by (simp add: invoked_commands_def)
  moreover have "recording d \<Longrightarrow> currentMacro d' = currentMacro d @ concat (map fst (typed ?look ?fb (pendingKeys d) (c # cs)))"
    unfolding now'(1) using rest(5) now'(3) by simp
  ultimately show ?case using f(1) rest(1-3) by (simp add: Let_def)
qed


section \<open>The properties\<close>

text \<open>
  C37: no key sequence waits for ever.  Whatever has been typed before and whatever is typed now,
  as many chords as the deepest keymap of the stack is deep do not all leave the dispatcher
  waiting: one of them runs a command, is reported as unbound, or throws; and whichever it is,
  the keys pending then are none.
\<close>

theorem key_sequences_resolve:
  assumes "stack_depth (dispatchKeymaps d) \<le> length cs" "cs \<noteq> []"
  shows "(\<exists>x \<in> set (snd (snd (feed_all g r cs d ctx))). fst x \<noteq> Returned Pending) \<and>
    (snd (snd (feed g r chord d ctx)) \<noteq> Returned Pending \<longrightarrow> pendingKeys (fst (feed g r chord d ctx)) = [])"
proof (intro conjI impI)
  obtain d' ctx' results where run: "feed_all g r cs d ctx = (d', ctx', results)" by (cases "feed_all g r cs d ctx") auto
  show "\<exists>x \<in> set (snd (snd (feed_all g r cs d ctx))). fst x \<noteq> Returned Pending"
  proof (rule ccontr)
    assume "\<not> ?thesis"
    with all_pending [OF run] assms(2) run
    have "stack_resolve (dispatchKeymaps d) (pendingKeys d @ cs) = Prefix" by simp
    from stack_resolve_depth [OF this] assms(1) show False by simp
  qed
  show "pendingKeys (fst (feed g r chord d ctx)) = []" if "snd (snd (feed g r chord d ctx)) \<noteq> Returned Pending"
    using feed_pending_inv(3) [of g r chord d ctx] that by (metis prod.collapse)
qed

theorem key_sequences_resolve_witness:
  "\<exists>x \<in> set (snd (snd (feed_all \<lparr>beginUndoGroup = (\<lambda>w. w), endUndoGroup = (\<lambda>w. w)\<rparr> []
      [no_chord, no_chord\<lparr>chordCodepoint := 0x78\<rparr>]
      (new_dispatcher \<lparr>stackLayers = [keymap_bind [no_chord, no_chord] ''save-buffer'' empty_keymap], stackNames = []\<rparr>)
      \<lparr>triggeringKey = no_chord, prefixArg = None, lastCommand = [], contextWorld = ()\<rparr>))). fst x \<noteq> Returned Pending"
  by (rule conjunct1 [OF key_sequences_resolve])
    (simp_all add: new_dispatcher_def stack_depth_def empty_keymap_def)

text \<open>
  C38: of the bindings of a layer with no bare \<open>C-g\<close> after their first chord, \<open>AllBindings\<close> of a
  stack lists exactly those that typing reaches.  When the commands the stack names have names
  that are not empty and do not throw, and no prefix argument is pending, typing the sequence of
  such a binding into an idle dispatcher first waits, and then runs a command, at the latest with
  its last chord; the binding is listed if and only if that command is its own and it ran at the
  last chord.  (A bare \<open>C-g\<close> after the first chord aborts instead, and \<open>AllBindings\<close> does not know it.)
\<close>

theorem listed_bindings_are_reachable:
  assumes "\<forall>l \<in> set (stackLayers s). wf_keymap l" "b \<in> set (layer_bindings s)" "bindingSequence b \<noteq> []"
    "\<forall>c \<in> set (tl (bindingSequence b)). \<not> is_bare_ctrl_g c"
    "\<forall>a name. stack_resolve s a = Match name \<longrightarrow> name \<noteq> [] \<and> (\<forall>c. \<not> snd (registry_invoke r name c))"
    "prefixArg ctx = None"
  shows "\<exists>n name d' ctx' results. 0 < n \<and> n \<le> length (bindingSequence b) \<and>
    feed_all g r (take n (bindingSequence b)) (new_dispatcher s) ctx = (d', ctx', results) \<and>
    map fst results = replicate (n - 1) (Returned Pending) @ [Returned Invoked] \<and> lastInvokedCommand d' = name \<and>
    (b \<in> set (stack_all_bindings s) \<longleftrightarrow> n = length (bindingSequence b) \<and> name = bindingCommand b)"
proof -
  let ?a = "bindingSequence b" and ?d = "new_dispatcher s"
  obtain l where l: "l \<in> set (stackLayers s)" "bound l ?a = Some (bindingCommand b)"
    using layer_bindings_bound [OF assms(1,2)] by blast
  obtain n name where n: "0 < n" "n \<le> length ?a" "stack_resolve s (take n ?a) = Match name"
    "\<forall>m. 0 < m \<and> m < n \<longrightarrow> stack_resolve s (take m ?a) = Prefix"
    by (rule first_command [OF l assms(3)])
  let ?c = "?a ! (n - 1)" and ?p = "take (n - 1) ?a"
  have split: "take n ?a = ?p @ [?c]" using n(1,2) take_Suc_conv_app_nth [of "n - 1" ?a] by simp
  have pre: "\<forall>m. 0 < m \<and> m \<le> length ?p \<longrightarrow> stack_resolve (dispatchKeymaps ?d) (take m ?p) = Prefix"
    using n(4) by (auto simp: new_dispatcher_def min_def)
  have tail: "\<forall>c \<in> set (tl ?p). \<not> is_bare_ctrl_g c"
    using assms(4) set_take_subset [of "n - 1 - 1" "tl ?a"] by (auto simp: tl_take)
  obtain c1 where c1: "prefixArg c1 = None"
    "feed_all g r ?p ?d ctx = (?d\<lparr>pendingKeys := ?p\<rparr>, c1, replicate (length ?p) (Returned Pending, []))"
    using feed_prefixes [OF _ assms(6) pre tail] by (auto simp: new_dispatcher_def)
  have last: "?p = [] \<or> \<not> is_bare_ctrl_g ?c"
  proof (cases "n = 1")
    case False
    then have "n - 2 < length (tl ?a)" "Suc (n - 2) = n - 1" using n(1,2) by auto
    then have "?c = tl ?a ! (n - 2)" "n - 2 < length (tl ?a)" by (simp_all add: nth_tl)
    then show ?thesis using assms(4) nth_mem by metis
  qed simp
  let ?d1 = "?d\<lparr>pendingKeys := ?p\<rparr>"
  have "passed ?c ?d1 c1" using last c1(1) by auto
  moreover have "stack_resolve (dispatchKeymaps ?d1) (pendingKeys ?d1 @ [?c]) = Match name"
    using n(3) split by (simp add: new_dispatcher_def)
  moreover have "\<not> snd (registry_invoke r name c)" for c using assms(5) n(3) by blast
  ultimately obtain d' ctx' where step: "feed g r ?c ?d1 c1 = (d', ctx', Returned Invoked)" "lastInvokedCommand d' = name"
    using feed_Match [OF _ c1(1)] by blast
  have run: "feed_all g r (take n ?a) ?d ctx =
      (d', ctx', replicate (n - 1) (Returned Pending, []) @ [(Returned Invoked, name)])"
    unfolding split using c1(2) step n(2) by (simp add: feed_all_append)
  have nonempty: "\<forall>n c. stack_resolve s (take n ?a) = Match c \<longrightarrow> c \<noteq> []" using assms(5) by blast
  obtain full where full: "stack_resolve s ?a = Match full" using stack_resolve_bound [OF l] by blast
  then have "full \<noteq> []" using assms(5) by blast
  have listed: "b \<in> set (stack_all_bindings s) \<longleftrightarrow>
      full = bindingCommand b \<and> (\<forall>m \<in> set [1..<length ?a]. \<forall>c. stack_resolve s (take m ?a) \<noteq> Match c)"
    using assms(2) \<open>full \<noteq> []\<close> full
    by (simp add: stack_all_bindings_def shadowing_command_def Let_def shadowing_prefix_empty [OF nonempty])
  have "b \<in> set (stack_all_bindings s) \<longleftrightarrow> n = length ?a \<and> name = bindingCommand b"
  proof
    assume b: "b \<in> set (stack_all_bindings s)"
    then have "\<not> n < length ?a" using listed n(1,3) by fastforce
    then have "n = length ?a" using n(2) by simp
    then show "n = length ?a \<and> name = bindingCommand b" using b listed n(3) full by simp
  next
    assume eq: "n = length ?a \<and> name = bindingCommand b"
    have "stack_resolve s (take m ?a) \<noteq> Match c" if "m \<in> set [1..<length ?a]" for m c
    proof -
      have "0 < m \<and> m < n" using that eq by simp
      then show ?thesis using n(4) by simp
    qed
    moreover have "full = bindingCommand b" using eq n(3) full by simp
    ultimately show "b \<in> set (stack_all_bindings s)" using listed by blast
  qed
  then show ?thesis
    using n(1,2) run step(2) by (intro exI [of _ n] exI [of _ name] exI conjI) auto
qed

text \<open>A stack of one keymap, for the witnesses: one sequence of two chords.\<close>

lemma one_binding_stack:
  "stack_resolve \<lparr>stackLayers = [keymap_of [BindKeys a c]], stackNames = []\<rparr> b = Match name \<Longrightarrow> name = c"
  using stack_resolve_command [of _ b name] edited_keymap [of "[BindKeys a c]"]
  by (fastforce simp: binding_map_def split: if_splits)

theorem listed_bindings_are_reachable_witness:
  "\<exists>n name d' ctx' results. 0 < n \<and> n \<le> length [no_chord, no_chord] \<and>
    feed_all \<lparr>beginUndoGroup = (\<lambda>w. w), endUndoGroup = (\<lambda>w. w)\<rparr>
      [(''save'', \<lparr>commandName = ''save'', commandDocstring = [], commandFunction = (\<lambda>c. (c, False))\<rparr>)]
      (take n [no_chord, no_chord])
      (new_dispatcher \<lparr>stackLayers = [keymap_of [BindKeys [no_chord, no_chord] ''save'']], stackNames = []\<rparr>)
      \<lparr>triggeringKey = no_chord, prefixArg = None, lastCommand = [], contextWorld = ()\<rparr> = (d', ctx', results) \<and>
    map fst results = replicate (n - 1) (Returned Pending) @ [Returned Invoked] \<and> lastInvokedCommand d' = name \<and>
    (\<lparr>bindingSequence = [no_chord, no_chord], bindingCommand = ''save'', bindingLayer = 0\<rparr> \<in>
      set (stack_all_bindings \<lparr>stackLayers = [keymap_of [BindKeys [no_chord, no_chord] ''save'']], stackNames = []\<rparr>)
      \<longleftrightarrow> n = length [no_chord, no_chord] \<and> name = ''save'')"
proof -
  let ?s = "\<lparr>stackLayers = [keymap_of [BindKeys [no_chord, no_chord] ''save'']], stackNames = []\<rparr>"
  let ?b = "\<lparr>bindingSequence = [no_chord, no_chord], bindingCommand = ''save'', bindingLayer = 0\<rparr>"
  have "\<forall>l \<in> set (stackLayers ?s). wf_keymap l" using edited_keymap by simp
  moreover have "?b \<in> set (layer_bindings ?s)"
    by (simp add: layer_bindings_def all_bindings_def keymap_of_def empty_keymap_def)
  moreover have "\<forall>c \<in> set (tl (bindingSequence ?b)). \<not> is_bare_ctrl_g c" "bindingSequence ?b \<noteq> []"
    by (simp_all add: is_bare_ctrl_g_def no_chord_def)
  moreover have "\<forall>a name. stack_resolve ?s a = Match name \<longrightarrow> name \<noteq> [] \<and> (\<forall>c. \<not> snd (registry_invoke
      [(''save'', \<lparr>commandName = ''save'', commandDocstring = [], commandFunction = (\<lambda>c. (c :: unit command_context, False))\<rparr>)] name c))"
    using one_binding_stack by (fastforce simp: registry_invoke_def registry_find_def)
  ultimately show ?thesis
    using listed_bindings_are_reachable [of ?s ?b
        "[(''save'', \<lparr>commandName = ''save'', commandDocstring = [], commandFunction = (\<lambda>c. (c, False))\<rparr>)]"
        "\<lparr>triggeringKey = no_chord, prefixArg = None, lastCommand = [], contextWorld = ()\<rparr>"
        "\<lparr>beginUndoGroup = (\<lambda>w. w), endUndoGroup = (\<lambda>w. w)\<rparr>"]
    by (simp only: key_binding.simps command_context.simps simp_thms)
qed

text \<open>
  C39: a recorded macro does what was typed.  When chords without a bare \<open>C-g\<close> are recorded from an
  idle dispatcher with no prefix argument pending, and every command the keymaps name is
  registered, throws nothing and leaves no prefix argument, replaying the finished macro on any
  idle dispatcher with the same keymaps runs the very same commands in the same order, however the
  sequences resolve.
\<close>

theorem macro_replays_commands:
  assumes "tame r (dispatchKeymaps d)" "pendingKeys d = []" "prefixArg ctx = None"
    "\<forall>c \<in> set cs. \<not> is_bare_ctrl_g c"
    "dispatchKeymaps e = dispatchKeymaps d" "pendingKeys e = []" "prefixArg ctx2 = None"
  shows "invoked_commands (snd (snd (feed_all g r
      (lastMacro (stop_recording (fst (feed_all g r cs (start_recording d) ctx)))) e ctx2))) =
    invoked_commands (snd (snd (feed_all g r cs (start_recording d) ctx)))"
proof -
  let ?typed = "typed (stack_resolve (dispatchKeymaps d)) (registry_find r ''self-insert-command'' \<noteq> None) []"
  obtain d1 c1 results where run: "feed_all g r cs (start_recording d) ctx = (d1, c1, results)"
    by (cases "feed_all g r cs (start_recording d) ctx") auto
  have start: "dispatchKeymaps (start_recording d) = dispatchKeymaps d" "pendingKeys (start_recording d) = []"
    "recording (start_recording d)" "currentMacro (start_recording d) = []"
    using assms(2) by (simp_all add: start_recording_def)
  have typed_run: "invoked_commands results = map snd (?typed cs)" "currentMacro d1 = concat (map fst (?typed cs))"
    "recording d1"
    using feed_all_typed [of r "start_recording d" ctx cs g] assms(1,3,4) run start by (auto simp: Let_def)
  have subset: "\<forall>c \<in> set (concat (map fst (typed look fb keys ds))). \<not> is_bare_ctrl_g c"
    if "\<forall>c \<in> set (keys @ ds). \<not> is_bare_ctrl_g c" for look fb keys ds
    using that by (induction look fb keys ds rule: typed.induct) (auto split: key_lookup.splits)
  let ?macro = "lastMacro (stop_recording d1)"
  have macro: "?macro = concat (map fst (?typed cs))"
    using typed_run(2,3) by (simp add: stop_recording_def)
  then have "\<forall>c \<in> set ?macro. \<not> is_bare_ctrl_g c" using subset [of "[]" cs] assms(4) by simp
  then have "invoked_commands (snd (snd (feed_all g r ?macro e ctx2))) = map snd (?typed ?macro)"
    using feed_all_typed [of r e ctx2 ?macro g] assms(1,5-7) by (auto simp: Let_def)
  also have "\<dots> = map snd (?typed cs)" unfolding macro by (subst typed_replayed) simp_all
  finally show ?thesis using typed_run(1) run by simp
qed

theorem macro_replays_commands_witness:
  "let s = \<lparr>stackLayers = [keymap_of [BindKeys [no_chord, no_chord] ''save'']], stackNames = []\<rparr>;
       d = new_dispatcher s;
       g = \<lparr>beginUndoGroup = (\<lambda>w. w), endUndoGroup = (\<lambda>w. w)\<rparr>;
       r = [(''save'', \<lparr>commandName = ''save'', commandDocstring = [], commandFunction = (\<lambda>c. (c, False))\<rparr>)];
       ctx = \<lparr>triggeringKey = no_chord, prefixArg = None, lastCommand = [], contextWorld = ()\<rparr>;
       (d1, _, results) = feed_all g r [no_chord, no_chord] (start_recording d) ctx
   in invoked_commands (snd (snd (feed_all g r (lastMacro (stop_recording d1)) d ctx))) = invoked_commands results"
proof -
  let ?s = "\<lparr>stackLayers = [keymap_of [BindKeys [no_chord, no_chord] ''save'']], stackNames = []\<rparr>"
  have "tame [(''save'', \<lparr>commandName = ''save'', commandDocstring = [],
      commandFunction = (\<lambda>c. (c :: unit command_context, False))\<rparr>)] (dispatchKeymaps (new_dispatcher ?s))"
    using one_binding_stack
    by (fastforce simp: tame_def registry_find_def new_dispatcher_def split: if_splits)
  from macro_replays_commands [OF this, of _ "[no_chord, no_chord]" "new_dispatcher ?s"] show ?thesis
    by (simp add: Let_def split_beta new_dispatcher_def is_bare_ctrl_g_def no_chord_def del: feed_all.simps)
qed

end
