(* ===== verification/PrefixArgument.thy ===== *)
theory PrefixArgument
  imports Dispatcher "HOL-Library.Monad_Syntax"
begin

text \<open>
  \<open>Source/Editor/PrefixArgument.h\<close> and \<open>PrefixArgument.cpp\<close>: reading the universal argument.
  An \<open>int\<close> has 32 bits and a \<open>long\<close> 64; \<open>None\<close> is a signed overflow, which has no defined
  result.
\<close>

section \<open>The reader\<close>

record prefix_reader =
  rawCuCount :: int
  hasDigits :: bool
  numericValue :: int
  negative :: bool

definition new_reader :: prefix_reader where
  "new_reader = \<lparr>rawCuCount = 1, hasDigits = False, numericValue = 0, negative = False\<rparr>"

datatype reader_outcome = Continue | Terminate

definition is_plain_character :: "key_chord \<Rightarrow> bool" where
  "is_plain_character c \<longleftrightarrow>
     \<not> chordControl c \<and> \<not> chordMeta c \<and> chordSpecial c = NoKey \<and> chordCodepoint c \<noteq> 0"

definition is_ctrl_u :: "key_chord \<Rightarrow> bool" where
  "is_ctrl_u c \<longleftrightarrow> chordControl c \<and> \<not> chordMeta c \<and> chordSpecial c = NoKey \<and> chordCodepoint c = 0x75"

definition in_int :: "int \<Rightarrow> int option" where
  "in_int v = (if - (2 ^ 31) \<le> v \<and> v < 2 ^ 31 then Some v else None)"

definition in_long :: "int \<Rightarrow> int option" where
  "in_long v = (if - (2 ^ 63) \<le> v \<and> v < 2 ^ 63 then Some v else None)"

definition reader_handle_key :: "key_chord \<Rightarrow> prefix_reader \<Rightarrow> (reader_outcome \<times> prefix_reader) option" where
  "reader_handle_key c p =
     (if \<not> hasDigits p \<and> \<not> negative p \<and> is_ctrl_u c then
        in_int (rawCuCount p + 1) \<bind> (\<lambda>n. Some (Continue, p\<lparr>rawCuCount := n\<rparr>))
      else if is_plain_character c \<and> chordCodepoint c \<ge> 0x30 \<and> chordCodepoint c \<le> 0x39 then
        in_long (numericValue p * 10) \<bind> (\<lambda>tens.
        in_long (tens + uint (chordCodepoint c - 0x30)) \<bind> (\<lambda>v.
          Some (Continue, p\<lparr>numericValue := v, hasDigits := True\<rparr>)))
      else if \<not> hasDigits p \<and> \<not> negative p \<and> is_plain_character c \<and> chordCodepoint c = 0x2D then
        Some (Continue, p\<lparr>negative := True\<rparr>)
      else Some (Terminate, p))"

fun fourfold :: "nat \<Rightarrow> int \<Rightarrow> int option" where
  "fourfold 0 multiplier = Some multiplier"
| "fourfold (Suc n) multiplier = in_long (multiplier * 4) \<bind> fourfold n"

definition reader_value :: "prefix_reader \<Rightarrow> int option" where
  "reader_value p =
     (if hasDigits p then if negative p then in_long (- numericValue p) else Some (numericValue p)
      else if negative p then Some (- 1)
      else fourfold (nat (rawCuCount p)) 1)"

text \<open>\<open>std::to_string\<close> of a \<open>long\<close>.\<close>

definition signed_decimal :: "int \<Rightarrow> bytes" where
  "signed_decimal v = (if v < 0 then ''-'' @ decimal (nat (- v)) else decimal (nat v))"

definition reader_status :: "prefix_reader \<Rightarrow> bytes option" where
  "reader_status p =
     (if negative p \<and> \<not> hasDigits p then Some ''C-u --''
      else map_option (\<lambda>v. ''C-u '' @ signed_decimal v @ ''-'') (reader_value p))"

text \<open>A run of keys: the reader after those it took, or \<open>None\<close> for a fault or a key it refuses.\<close>

fun reader_run :: "key_chord list \<Rightarrow> prefix_reader \<Rightarrow> prefix_reader option" where
  "reader_run [] p = Some p"
| "reader_run (c # cs) p =
     (case reader_handle_key c p of
        Some (Continue, p') \<Rightarrow> reader_run cs p'
      | _ \<Rightarrow> None)"

section \<open>What is read\<close>

definition plain_key :: "char \<Rightarrow> key_chord" where
  "plain_key c = no_chord\<lparr>chordCodepoint := ucast (u8 c)\<rparr>"

definition ctrl_u :: key_chord where
  "ctrl_u = no_chord\<lparr>chordControl := True, chordCodepoint := 0x75\<rparr>"

lemma digit_chords:
  "\<forall>d \<in> set [0..<10]. let c = plain_key (char_of (48 + d)) in
     \<not> is_ctrl_u c \<and> is_plain_character c \<and> chordCodepoint c \<ge> 0x30 \<and> chordCodepoint c \<le> 0x39 \<and>
     uint (chordCodepoint c - 0x30) = int d"
  by code_simp

lemma digit_key:
  assumes "d < 10" "0 \<le> numericValue p" "numericValue p * 10 + int d < 2 ^ 63"
  shows "reader_handle_key (plain_key (char_of (48 + d))) p =
    Some (Continue, p\<lparr>numericValue := numericValue p * 10 + int d, hasDigits := True\<rparr>)"
proof -
  have "d \<in> set [0..<10]" using assms(1) by simp
  from bspec [OF digit_chords this] show ?thesis
    using assms(2,3) by (simp add: reader_handle_key_def in_long_def Let_def)
qed

lemma reader_run_append: "reader_run (cs @ ds) p = reader_run cs p \<bind> reader_run ds"
  by (induction cs arbitrary: p) (auto split: option.splits reader_outcome.splits)

lemma decimal_read:
  assumes "int n < 2 ^ 63" "numericValue p = 0"
  shows "reader_run (map plain_key (decimal n)) p = Some (p\<lparr>numericValue := int n, hasDigits := True\<rparr>)"
  using assms
proof (induction n rule: decimal.induct)
  case (1 n)
  show ?case
  proof (cases "n < 10")
    case True
    then show ?thesis using digit_key [of n p] "1.prems" by (subst decimal.simps) simp
  next
    case False
    let ?p = "p\<lparr>numericValue := int (n div 10), hasDigits := True\<rparr>"
    have "int (n div 10) < 2 ^ 63" using "1.prems"(1) by linarith
    with "1.IH" [OF False] "1.prems"(2) have run: "reader_run (map plain_key (decimal (n div 10))) p = Some ?p" by simp
    have sum: "int (n div 10) * 10 + int (n mod 10) = int n"
      by (simp add: of_nat_div of_nat_mod div_mult_mod_eq)
    then have "reader_handle_key (plain_key (char_of (48 + n mod 10))) ?p =
        Some (Continue, p\<lparr>numericValue := int n, hasDigits := True\<rparr>)"
      using digit_key [of "n mod 10" ?p] "1.prems"(1) by simp
    then show ?thesis using False run by (subst decimal.simps) (simp add: reader_run_append)
  qed
qed

lemma minus_key: "reader_handle_key (plain_key (CHR ''-'')) new_reader = Some (Continue, new_reader\<lparr>negative := True\<rparr>)"
  by code_simp

lemma ctrl_u_key:
  "\<not> hasDigits p \<Longrightarrow> \<not> negative p \<Longrightarrow> 0 \<le> rawCuCount p \<Longrightarrow> rawCuCount p < 2 ^ 31 - 1 \<Longrightarrow>
    reader_handle_key ctrl_u p = Some (Continue, p\<lparr>rawCuCount := rawCuCount p + 1\<rparr>)"
  by (simp add: reader_handle_key_def is_ctrl_u_def ctrl_u_def no_chord_def in_int_def)

lemma ctrl_u_run: "k < 31 \<Longrightarrow> reader_run (replicate k ctrl_u) new_reader = Some (new_reader\<lparr>rawCuCount := int k + 1\<rparr>)"
proof (induction k)
  case (Suc k)
  have "replicate (Suc k) ctrl_u = replicate k ctrl_u @ [ctrl_u]" by (simp add: replicate_append_same)
  then show ?case
    using Suc ctrl_u_key [of "new_reader\<lparr>rawCuCount := int k + 1\<rparr>"]
    by (simp only: reader_run_append) (simp add: new_reader_def)
qed (simp add: new_reader_def)

lemma fourfold_power: "0 < m \<Longrightarrow> m * 4 ^ n < 2 ^ 63 \<Longrightarrow> fourfold n m = Some (m * 4 ^ n)"
proof (induction n arbitrary: m)
  case (Suc n)
  have "m * 4 * 4 ^ n < 2 ^ 63" using Suc.prems(2) by (simp add: mult.assoc)
  moreover have "m * 4 \<le> m * 4 * 4 ^ n" using Suc.prems(1) by simp
  ultimately have "m * 4 < 2 ^ 63" by (rule order.strict_trans1 [rotated])
  then have "in_long (m * 4) = Some (m * 4)" using Suc.prems(1) by (simp only: in_long_def) simp
  then show ?case
    using Suc.IH [of "m * 4"] Suc.prems(1) \<open>m * 4 * 4 ^ n < 2 ^ 63\<close> by (simp add: mult.assoc)
qed simp

lemma reader_reads:
  assumes "int n < 2 ^ 63" "k < 31"
  shows "reader_run (map plain_key (decimal n)) new_reader \<bind> reader_value = Some (int n) \<and>
    reader_run (map plain_key (''-'' @ decimal n)) new_reader \<bind> reader_value = Some (- int n) \<and>
    reader_run (replicate k ctrl_u) new_reader \<bind> reader_value = Some (4 ^ (k + 1))"
proof (intro conjI)
  show "reader_run (map plain_key (decimal n)) new_reader \<bind> reader_value = Some (int n)"
    using decimal_read [OF assms(1), of new_reader] by (simp add: new_reader_def reader_value_def)
  show "reader_run (map plain_key (''-'' @ decimal n)) new_reader \<bind> reader_value = Some (- int n)"
    using decimal_read [OF assms(1), of "new_reader\<lparr>negative := True\<rparr>"] assms(1) minus_key
    by (simp add: new_reader_def reader_value_def in_long_def)
  have "(4 :: int) ^ (k + 1) \<le> 4 ^ 31" using assms(2) by (intro power_increasing) auto
  then have "fourfold (k + 1) 1 = Some (4 ^ (k + 1))" by (intro fourfold_power [of 1, simplified]) simp_all
  then show "reader_run (replicate k ctrl_u) new_reader \<bind> reader_value = Some (4 ^ (k + 1))"
    using ctrl_u_run [OF assms(2)] by (simp add: reader_value_def new_reader_def nat_add_distrib)
qed

text \<open>Twenty digits, or thirty-two universal arguments, overflow the \<open>long\<close>.\<close>

lemma reader_overflows:
  "reader_run (replicate 19 (plain_key (CHR ''9''))) new_reader = None"
  "reader_run (replicate 31 ctrl_u) new_reader \<bind> reader_value = None"
  by code_simp+

section \<open>Running a counted command\<close>

text \<open>A command that only changes the world, and the world after it ran.\<close>

definition changes_world :: "'w registry \<Rightarrow> bytes \<Rightarrow> ('w \<Rightarrow> 'w) \<Rightarrow> bool" where
  "changes_world r name h \<longleftrightarrow> (\<exists>command. registry_find r name = Some command \<and>
     (\<forall>ctx. commandFunction command ctx = (ctx\<lparr>contextWorld := h (contextWorld ctx)\<rparr>, False)))"

lemma invoke_times_world:
  "changes_world r name h \<Longrightarrow>
    invoke_times r name n ctx = (ctx\<lparr>contextWorld := (h ^^ n) (contextWorld ctx)\<rparr>, False)"
proof (induction n arbitrary: ctx)
  case (Suc n)
  then show ?case
    by (auto simp: changes_world_def registry_invoke_def funpow_swap1)
qed simp

lemma counted_run:
  assumes "changes_world r name h" "0 \<le> v" "prefixArg ctx = Some v"
  shows "run_matched g r name ctx = (ctx\<lparr>prefixArg := None, contextWorld :=
    (if v = 1 then h (contextWorld ctx) else if v = 0 then contextWorld ctx
     else endUndoGroup g ((h ^^ nat v) (beginUndoGroup g (contextWorld ctx))))\<rparr>, False)"
  using assms invoke_times_world [OF assms(1)]
  by (auto simp: run_matched_def resolve_prefix_arg_def changes_world_def registry_invoke_def Let_def)

lemma feed_matched:
  assumes "passed chord d ctx" "stack_resolve (dispatchKeymaps d) (pendingKeys d @ [chord]) = Match name"
    "run_matched g r name (ctx\<lparr>triggeringKey := chord, lastCommand := lastInvokedCommand d\<rparr>) = (c1, False)"
  shows "\<exists>d1. feed g r chord d ctx = (d1, c1, Returned Invoked) \<and> pendingKeys d1 = []"
  unfolding feed_def if_not_P [OF assms(1)] using assms(2,3)
  by (cases "recording d") (simp_all add: Let_def)

section \<open>The property\<close>

text \<open>
  \<open>C-u\<close>, the decimal digits of a number and a key: the key's command runs that many times,
  in one undo group unless it runs once or not at all, and the argument is used up.
\<close>

theorem counted_command_repeats:
  assumes "int n < 2 ^ 63" "reader_run (map plain_key (decimal n)) new_reader = Some p"
    "prefixArg ctx = reader_value p" "pendingKeys d = []" "\<not> is_bare_ctrl_g chord"
    "stack_resolve (dispatchKeymaps d) [chord] = Match name" "changes_world r name h"
    "feed g r chord d ctx = (d', ctx', result)"
  shows "result = Returned Invoked \<and> prefixArg ctx' = None \<and> pendingKeys d' = [] \<and>
    contextWorld ctx' = (if n = 1 then h (contextWorld ctx) else if n = 0 then contextWorld ctx
      else endUndoGroup g ((h ^^ n) (beginUndoGroup g (contextWorld ctx))))"
proof -
  have v: "prefixArg ctx = Some (int n)"
    using reader_reads [OF assms(1), of 0] assms(2,3) by simp
  have pass: "passed chord d ctx" using assms(5) by simp
  let ?c = "ctx\<lparr>triggeringKey := chord, lastCommand := lastInvokedCommand d\<rparr>"
  have "prefixArg ?c = Some (int n)" using v by simp
  note run = counted_run [OF assms(7) _ this, of g]
  have match: "stack_resolve (dispatchKeymaps d) (pendingKeys d @ [chord]) = Match name" using assms(4,6) by simp
  obtain d1 where "feed g r chord d ctx = (d1, fst (run_matched g r name ?c), Returned Invoked)" "pendingKeys d1 = []"
    using feed_matched [OF pass match, of g r "fst (run_matched g r name ?c)"] run by auto
  then show ?thesis using assms(8) run by simp
qed

theorem counted_command_repeats_witness:
  "let g = \<lparr>beginUndoGroup = (\<lambda>w. w @ ''(''), endUndoGroup = (\<lambda>w. w @ '')'')\<rparr>;
       f = (\<lambda>c. (c\<lparr>contextWorld := contextWorld c @ ''x''\<rparr>, False));
       r = [(''x'', \<lparr>commandName = ''x'', commandDocstring = [], commandFunction = f\<rparr>)];
       d = new_dispatcher \<lparr>stackLayers = [keymap_of [BindKeys [no_chord] ''x'']], stackNames = []\<rparr>;
       ctx = \<lparr>triggeringKey = no_chord, prefixArg = Some 3, lastCommand = [], contextWorld = []\<rparr>
   in contextWorld (fst (snd (feed g r no_chord d ctx))) = ''(xxx)''"
proof -
  let ?g = "\<lparr>beginUndoGroup = (\<lambda>w. w @ ''(''), endUndoGroup = (\<lambda>w. w @ '')'')\<rparr>"
  let ?f = "\<lambda>c. (c\<lparr>contextWorld := contextWorld c @ ''x''\<rparr>, False)"
  let ?r = "[(''x'', \<lparr>commandName = ''x'', commandDocstring = [], commandFunction = ?f\<rparr>)]"
  let ?d = "new_dispatcher \<lparr>stackLayers = [keymap_of [BindKeys [no_chord] ''x'']], stackNames = []\<rparr>"
  let ?ctx = "\<lparr>triggeringKey = no_chord, prefixArg = Some 3, lastCommand = [], contextWorld = []\<rparr>"
  obtain d' ctx' result where f: "feed ?g ?r no_chord ?d ?ctx = (d', ctx', result)"
    by (cases "feed ?g ?r no_chord ?d ?ctx") blast
  have read: "reader_run (map plain_key (decimal 3)) new_reader = Some (new_reader\<lparr>numericValue := 3, hasDigits := True\<rparr>)"
    using decimal_read [of 3 new_reader] by (simp add: new_reader_def)
  have match: "stack_resolve (dispatchKeymaps ?d) [no_chord] = Match ''x''"
    by (simp add: new_dispatcher_def stack_resolve_def resolve_def keymap_of_def empty_keymap_def)
  have "changes_world ?r ''x'' (\<lambda>w. w @ ''x'')" by (simp add: changes_world_def registry_find_def)
  note h = this
  have "result = Returned Invoked \<and> prefixArg ctx' = None \<and> pendingKeys d' = [] \<and>
    contextWorld ctx' = (if (3 :: nat) = 1 then contextWorld ?ctx @ ''x'' else if (3 :: nat) = 0 then contextWorld ?ctx
      else endUndoGroup ?g (((\<lambda>w. w @ ''x'') ^^ 3) (beginUndoGroup ?g (contextWorld ?ctx))))"
  proof (rule counted_command_repeats [OF _ read _ _ _ match h f])
    show "int 3 < 2 ^ 63" by simp
    show "prefixArg ?ctx = reader_value (new_reader\<lparr>numericValue := 3, hasDigits := True\<rparr>)"
      by (simp add: reader_value_def new_reader_def)
    show "pendingKeys ?d = []" by (simp add: new_dispatcher_def)
    show "\<not> is_bare_ctrl_g no_chord" by (simp add: is_bare_ctrl_g_def no_chord_def)
  qed
  then have "contextWorld ctx' = ''(xxx)''" by (simp add: eval_nat_numeral)
  then show ?thesis using f by (simp add: Let_def)
qed

end
