(* ===== verification/BufferState.thy ===== *)
theory BufferState
  imports TextStorage "HOL-Library.Monad_Syntax"
begin

text \<open>
  The positions \<open>Source/Text/Buffer.h\<close> tracks in a buffer's text, and how one edit moves
  them: \<open>RelocateTrackedState\<close> of \<open>Buffer.cpp\<close> and everything it calls.

  \<open>tracked\<close> holds the members that function touches; the buffer itself extends the record
  (theory \<open>Buffer\<close>).  A \<open>std::map\<close> keyed by offset is its list of entries in key order.
  The length of the new content, which the code reads off \<open>Storage_\<close>, is the argument \<open>len\<close>.
\<close>

section \<open>What is tracked\<close>

type_synonym byte_range = "offset \<times> offset"

record cursor =
  cursorPoint :: offset
  cursorMark :: "offset option"
  cursorGoal :: "nat option"

datatype fold_marker = Collapsed | ChildrenVisible

record snippet_range =
  snippetId :: nat
  tabstopIndex :: int
  snippetStart :: offset
  snippetEnd :: offset
  snippetActive :: bool
  snippetParent :: nat

record excerpt_range =
  excerptStart :: offset
  excerptEnd :: offset
  sourcePath :: bytes
  sourceStartByte :: offset
  sourceEndByte :: offset
  editable :: bool
  originalText :: bytes

datatype severity = SeverityError | SeverityWarning | SeverityInformation | SeverityHint
datatype origin = OriginCode | OriginProse

record diagnostic =
  startByte :: offset
  endByte :: offset
  diagnosticSeverity :: severity
  diagnosticOrigin :: origin
  diagnosticMessage :: bytes

record tracked =
  point :: offset
  mark :: "offset option"
  narrowedRange :: "byte_range option"
  secondaryCursors :: "cursor list"
  addedCursorOrder :: "offset list"
  cursorIterationActive :: bool
  foldMarkers :: "(offset \<times> fold_marker) list"
  foldGeneration :: nat
  snippetRanges :: "snippet_range list"
  excerptRanges :: "excerpt_range list"
  diagnostics :: "diagnostic list"
  unsavedChangeRanges :: "byte_range list"
  unsavedChangeGeneration :: nat
  saving :: bool
  saveInFlightRanges :: "byte_range list"
  unseenTracking :: bool
  seenBaseline :: bool
  seenByteOffset :: offset
  pendingSeenByte :: offset
  seenGeneration :: nat

section \<open>The two relocation rules\<close>

definition relocate_for_insert :: "offset \<Rightarrow> nat \<Rightarrow> offset \<Rightarrow> offset" where
  "relocate_for_insert io n off = (if off \<ge> io then off + n else off)"

definition relocate_for_delete :: "offset \<Rightarrow> offset \<Rightarrow> offset \<Rightarrow> offset" where
  "relocate_for_delete rs re off =
     (if off \<ge> re then off - (re - rs) else if off > rs then rs else off)"

section \<open>Sorted, merged ranges\<close>

text \<open>\<open>MergeUnsavedRange\<close>: its second loop, and the first with the insertion.\<close>

fun absorb_ranges :: "byte_range list \<Rightarrow> offset \<Rightarrow> offset \<Rightarrow> byte_range list" where
  "absorb_ranges [] s e = [(s, e)]"
| "absorb_ranges (r # rs) s e =
     (if fst r \<le> e then absorb_ranges rs (min s (fst r)) (max e (snd r)) else (s, e) # r # rs)"

fun merge_unsaved_range :: "byte_range list \<Rightarrow> offset \<Rightarrow> offset \<Rightarrow> byte_range list" where
  "merge_unsaved_range [] s e = [(s, e)]"
| "merge_unsaved_range (r # rs) s e =
     (if snd r < s then r # merge_unsaved_range rs s e else absorb_ranges (r # rs) s e)"

definition mark_range_inserted :: "byte_range list \<Rightarrow> offset \<Rightarrow> nat \<Rightarrow> byte_range list" where
  "mark_range_inserted ranges io n =
     merge_unsaved_range (map (map_prod (relocate_for_insert io n) (relocate_for_insert io n)) ranges) io (io + n)"

definition mark_range_deleted :: "byte_range list \<Rightarrow> offset \<Rightarrow> offset \<Rightarrow> offset \<Rightarrow> offset \<Rightarrow> byte_range list" where
  "mark_range_deleted ranges rs re markStart markEnd =
     (let moved = filter (\<lambda>r. fst r < snd r)
            (map (map_prod (relocate_for_delete rs re) (relocate_for_delete rs re)) ranges)
      in if markEnd > markStart then merge_unsaved_range moved markStart markEnd else moved)"

definition mark_unsaved_range_inserted :: "offset \<Rightarrow> nat \<Rightarrow> 'a tracked_scheme \<Rightarrow> 'a tracked_scheme" where
  "mark_unsaved_range_inserted io n t =
     t\<lparr>unsavedChangeRanges := mark_range_inserted (unsavedChangeRanges t) io n,
       saveInFlightRanges :=
         (if saving t then mark_range_inserted (saveInFlightRanges t) io n else saveInFlightRanges t),
       unsavedChangeGeneration := unsavedChangeGeneration t + 1\<rparr>"

definition deletion_mark :: "nat \<Rightarrow> offset \<Rightarrow> byte_range" where
  "deletion_mark len rs =
     (let markEnd = min (rs + 1) len
      in if markEnd \<le> rs \<and> rs > 0 then (rs - 1, rs) else (rs, markEnd))"

definition mark_unsaved_range_deleted :: "nat \<Rightarrow> offset \<Rightarrow> offset \<Rightarrow> 'a tracked_scheme \<Rightarrow> 'a tracked_scheme" where
  "mark_unsaved_range_deleted len rs re t =
     (let (markStart, markEnd) = deletion_mark len rs
      in t\<lparr>unsavedChangeRanges := mark_range_deleted (unsavedChangeRanges t) rs re markStart markEnd,
           saveInFlightRanges :=
             (if saving t then mark_range_deleted (saveInFlightRanges t) rs re markStart markEnd
              else saveInFlightRanges t),
           unsavedChangeGeneration := unsavedChangeGeneration t + 1\<rparr>)"

section \<open>Fold markers\<close>

text \<open>\<open>std::map::emplace\<close>, \<open>operator[]\<close> and \<open>erase\<close> on the entries in key order.\<close>

fun fold_emplace :: "offset \<Rightarrow> fold_marker \<Rightarrow> (offset \<times> fold_marker) list \<Rightarrow> (offset \<times> fold_marker) list" where
  "fold_emplace k v [] = [(k, v)]"
| "fold_emplace k v (e # es) =
     (if k < fst e then (k, v) # e # es else if k = fst e then e # es else e # fold_emplace k v es)"

fun fold_assign :: "offset \<Rightarrow> fold_marker \<Rightarrow> (offset \<times> fold_marker) list \<Rightarrow> (offset \<times> fold_marker) list" where
  "fold_assign k v [] = [(k, v)]"
| "fold_assign k v (e # es) =
     (if k < fst e then (k, v) # e # es else if k = fst e then (k, v) # es else e # fold_assign k v es)"

definition relocate_fold_markers :: "(offset \<Rightarrow> offset) \<Rightarrow> 'a tracked_scheme \<Rightarrow> 'a tracked_scheme" where
  "relocate_fold_markers f t =
     (if foldMarkers t = [] then t
      else t\<lparr>foldMarkers := fold (\<lambda>(off, m) relocated. fold_emplace (f off) m relocated) (foldMarkers t) [],
             foldGeneration := foldGeneration t + 1\<rparr>)"

definition set_fold_marker :: "offset \<Rightarrow> fold_marker option \<Rightarrow> 'a tracked_scheme \<Rightarrow> 'a tracked_scheme" where
  "set_fold_marker off marker t =
     t\<lparr>foldMarkers := (case marker of
         Some m \<Rightarrow> fold_assign off m (foldMarkers t)
       | None \<Rightarrow> filter (\<lambda>e. fst e \<noteq> off) (foldMarkers t)),
       foldGeneration := foldGeneration t + 1\<rparr>"

definition fold_marker_at :: "'a tracked_scheme \<Rightarrow> offset \<Rightarrow> fold_marker option" where
  "fold_marker_at t off = map_of (foldMarkers t) off"

section \<open>Secondary cursors\<close>

text \<open>
  \<open>NormalizeSecondaryCursors\<close>.  \<open>std::sort\<close> leaves the order of cursors at one point open,
  and \<open>std::unique\<close> keeps the first of them; the model sorts stably.
\<close>

fun unique_points :: "cursor list \<Rightarrow> cursor list" where
  "unique_points (c # d # cs) =
     (if cursorPoint c = cursorPoint d then unique_points (c # cs) else c # unique_points (d # cs))"
| "unique_points cs = cs"

definition normalize_secondary_cursors :: "'a tracked_scheme \<Rightarrow> 'a tracked_scheme" where
  "normalize_secondary_cursors t =
     t\<lparr>secondaryCursors := filter (\<lambda>c. cursorPoint c \<noteq> point t)
         (unique_points (sort_key cursorPoint (secondaryCursors t)))\<rparr>"

definition relocate_cursor :: "(offset \<Rightarrow> offset) \<Rightarrow> cursor \<Rightarrow> cursor" where
  "relocate_cursor f c = c\<lparr>cursorPoint := f (cursorPoint c), cursorMark := map_option f (cursorMark c)\<rparr>"

definition relocate_cursors_for_insert :: "offset \<Rightarrow> nat \<Rightarrow> 'a tracked_scheme \<Rightarrow> 'a tracked_scheme" where
  "relocate_cursors_for_insert io n t =
     t\<lparr>secondaryCursors := map (relocate_cursor (relocate_for_insert io n)) (secondaryCursors t),
       addedCursorOrder := map (relocate_for_insert io n) (addedCursorOrder t)\<rparr>"

definition relocate_cursors_for_delete :: "offset \<Rightarrow> offset \<Rightarrow> 'a tracked_scheme \<Rightarrow> 'a tracked_scheme" where
  "relocate_cursors_for_delete rs re t =
     (let t' = t\<lparr>secondaryCursors := map (relocate_cursor (relocate_for_delete rs re)) (secondaryCursors t),
                 addedCursorOrder := map (relocate_for_delete rs re) (addedCursorOrder t)\<rparr>
      in if cursorIterationActive t then t' else normalize_secondary_cursors t')"

section \<open>Snippet fields\<close>

text \<open>The ids of the active field and its ancestors; the walk is bounded by the range count.\<close>

fun ancestor_ids :: "snippet_range list \<Rightarrow> nat \<Rightarrow> nat \<Rightarrow> nat list" where
  "ancestor_ids ranges 0 i = []"
| "ancestor_ids ranges (Suc steps) i =
     (if i = 0 then []
      else i # ancestor_ids ranges steps
             (case find (\<lambda>r. snippetId r = i) ranges of Some r \<Rightarrow> snippetParent r | None \<Rightarrow> 0))"

definition inclusive_ids :: "snippet_range list \<Rightarrow> nat list" where
  "inclusive_ids ranges =
     (case find snippetActive ranges of
        Some r \<Rightarrow> ancestor_ids ranges (length ranges) (snippetId r) | None \<Rightarrow> [])"

definition relocate_snippet_for_insert :: "nat list \<Rightarrow> offset \<Rightarrow> nat \<Rightarrow> snippet_range \<Rightarrow> snippet_range" where
  "relocate_snippet_for_insert inclusive io n r =
     (let (s, e) =
        (if snippetId r \<in> set inclusive
         then (if io < snippetStart r then snippetStart r + n else snippetStart r,
               if io \<le> snippetEnd r then snippetEnd r + n else snippetEnd r)
         else (if io \<le> snippetStart r then snippetStart r + n else snippetStart r,
               if io < snippetEnd r then snippetEnd r + n else snippetEnd r))
      in r\<lparr>snippetStart := s, snippetEnd := max s e\<rparr>)"

definition relocate_snippets_for_insert :: "offset \<Rightarrow> nat \<Rightarrow> 'a tracked_scheme \<Rightarrow> 'a tracked_scheme" where
  "relocate_snippets_for_insert io n t =
     t\<lparr>snippetRanges :=
         map (relocate_snippet_for_insert (inclusive_ids (snippetRanges t)) io n) (snippetRanges t)\<rparr>"

definition relocate_snippets_for_delete :: "offset \<Rightarrow> offset \<Rightarrow> 'a tracked_scheme \<Rightarrow> 'a tracked_scheme" where
  "relocate_snippets_for_delete rs re t =
     t\<lparr>snippetRanges :=
         map (\<lambda>r. r\<lparr>snippetStart := relocate_for_delete rs re (snippetStart r),
                    snippetEnd := relocate_for_delete rs re (snippetEnd r)\<rparr>) (snippetRanges t)\<rparr>"

section \<open>Excerpts\<close>

definition relocate_excerpt_for_insert :: "offset \<Rightarrow> nat \<Rightarrow> excerpt_range \<Rightarrow> excerpt_range" where
  "relocate_excerpt_for_insert io n r =
     (let s = (if io < excerptStart r then excerptStart r + n else excerptStart r);
          e = (if io \<le> excerptEnd r then excerptEnd r + n else excerptEnd r)
      in r\<lparr>excerptStart := s, excerptEnd := max s e\<rparr>)"

definition relocate_excerpts_for_insert :: "offset \<Rightarrow> nat \<Rightarrow> 'a tracked_scheme \<Rightarrow> 'a tracked_scheme" where
  "relocate_excerpts_for_insert io n t =
     t\<lparr>excerptRanges := map (relocate_excerpt_for_insert io n) (excerptRanges t)\<rparr>"

definition relocate_excerpts_for_delete :: "offset \<Rightarrow> offset \<Rightarrow> 'a tracked_scheme \<Rightarrow> 'a tracked_scheme" where
  "relocate_excerpts_for_delete rs re t =
     t\<lparr>excerptRanges :=
         map (\<lambda>r. r\<lparr>excerptStart := relocate_for_delete rs re (excerptStart r),
                    excerptEnd := relocate_for_delete rs re (excerptEnd r)\<rparr>) (excerptRanges t)\<rparr>"

definition can_insert_at_excerpt :: "'a tracked_scheme \<Rightarrow> offset \<Rightarrow> bool" where
  "can_insert_at_excerpt t off \<longleftrightarrow>
     excerptRanges t = [] \<or> list_ex (\<lambda>r. editable r \<and> off \<ge> excerptStart r \<and> off \<le> excerptEnd r) (excerptRanges t)"

definition can_delete_excerpt_range :: "'a tracked_scheme \<Rightarrow> offset \<Rightarrow> offset \<Rightarrow> bool" where
  "can_delete_excerpt_range t rs re \<longleftrightarrow>
     excerptRanges t = [] \<or> list_ex (\<lambda>r. editable r \<and> rs \<ge> excerptStart r \<and> re \<le> excerptEnd r) (excerptRanges t)"

section \<open>Diagnostics\<close>

definition relocate_diagnostic_for_insert :: "offset \<Rightarrow> nat \<Rightarrow> diagnostic \<Rightarrow> diagnostic" where
  "relocate_diagnostic_for_insert io n d =
     (let s = (if io \<le> startByte d then startByte d + n else startByte d);
          e = (if io \<le> endByte d then endByte d + n else endByte d)
      in d\<lparr>startByte := s, endByte := max s e\<rparr>)"

definition relocate_diagnostics_for_insert :: "offset \<Rightarrow> nat \<Rightarrow> 'a tracked_scheme \<Rightarrow> 'a tracked_scheme" where
  "relocate_diagnostics_for_insert io n t =
     t\<lparr>diagnostics := map (relocate_diagnostic_for_insert io n) (diagnostics t)\<rparr>"

definition relocate_diagnostics_for_delete :: "offset \<Rightarrow> offset \<Rightarrow> 'a tracked_scheme \<Rightarrow> 'a tracked_scheme" where
  "relocate_diagnostics_for_delete rs re t =
     t\<lparr>diagnostics :=
         map (\<lambda>d. d\<lparr>startByte := relocate_for_delete rs re (startByte d),
                    endByte := relocate_for_delete rs re (endByte d)\<rparr>) (diagnostics t)\<rparr>"

section \<open>The seen frontier\<close>

definition unseen_content_tracked :: "'a tracked_scheme \<Rightarrow> bool" where
  "unseen_content_tracked t \<longleftrightarrow> unseenTracking t \<and> seenBaseline t"

definition note_seen_through :: "nat \<Rightarrow> offset \<Rightarrow> 'a tracked_scheme \<Rightarrow> 'a tracked_scheme" where
  "note_seen_through len off t = t\<lparr>pendingSeenByte := max (pendingSeenByte t) (min off len)\<rparr>"

definition commit_seen_content :: "'a tracked_scheme \<Rightarrow> 'a tracked_scheme" where
  "commit_seen_content t =
     (if \<not> unseenTracking t then t
      else let committed = max (seenByteOffset t) (pendingSeenByte t)
        in if committed = seenByteOffset t \<and> seenBaseline t then t
           else t\<lparr>seenByteOffset := committed, seenBaseline := True, seenGeneration := seenGeneration t + 1\<rparr>)"

definition disarm_unseen_tracking :: "'a tracked_scheme \<Rightarrow> 'a tracked_scheme" where
  "disarm_unseen_tracking t =
     (if \<not> unseenTracking t \<and> \<not> seenBaseline t \<and> seenByteOffset t = 0 then t
      else t\<lparr>unseenTracking := False, seenBaseline := False, seenByteOffset := 0, pendingSeenByte := 0,
             seenGeneration := seenGeneration t + 1\<rparr>)"

section \<open>One edit, every tracked position\<close>

text \<open>The frontier check, the delete half and the insert half of \<open>RelocateTrackedState\<close>.\<close>

definition relocate_unseen :: "nat \<Rightarrow> offset \<Rightarrow> nat \<Rightarrow> nat \<Rightarrow> 'a tracked_scheme \<Rightarrow> 'a tracked_scheme" where
  "relocate_unseen len off oldLen newLen t =
     (if unseenTracking t \<and> \<not> (oldLen = 0 \<and> off \<ge> seenByteOffset t \<and> off + newLen = len)
      then disarm_unseen_tracking t else t)"

definition relocate_narrowing_for_delete :: "offset \<Rightarrow> offset \<Rightarrow> byte_range \<Rightarrow> byte_range option" where
  "relocate_narrowing_for_delete rs re r =
     (let s = relocate_for_delete rs re (fst r); e = relocate_for_delete rs re (snd r)
      in if s \<ge> e then None else Some (s, e))"

definition relocate_delete_half :: "nat \<Rightarrow> offset \<Rightarrow> offset \<Rightarrow> 'a tracked_scheme \<Rightarrow> 'a tracked_scheme" where
  "relocate_delete_half len rs re t =
     mark_unsaved_range_deleted len rs re (relocate_diagnostics_for_delete rs re
       (relocate_excerpts_for_delete rs re (relocate_snippets_for_delete rs re
       (relocate_cursors_for_delete rs re (relocate_fold_markers (relocate_for_delete rs re)
       (t\<lparr>point := relocate_for_delete rs re (point t),
          mark := map_option (relocate_for_delete rs re) (mark t),
          narrowedRange := narrowedRange t \<bind> relocate_narrowing_for_delete rs re\<rparr>))))))"

definition relocate_insert_half :: "offset \<Rightarrow> nat \<Rightarrow> 'a tracked_scheme \<Rightarrow> 'a tracked_scheme" where
  "relocate_insert_half io n t =
     mark_unsaved_range_inserted io n (relocate_diagnostics_for_insert io n
       (relocate_excerpts_for_insert io n (relocate_snippets_for_insert io n
       (relocate_cursors_for_insert io n (relocate_fold_markers (relocate_for_insert io n)
       (t\<lparr>point := relocate_for_insert io n (point t),
          mark := map_option (relocate_for_insert io n) (mark t),
          narrowedRange := map_option (map_prod (relocate_for_insert io n) (relocate_for_insert io n))
            (narrowedRange t)\<rparr>))))))"

definition relocate_tracked_state :: "nat \<Rightarrow> offset \<Rightarrow> nat \<Rightarrow> nat \<Rightarrow> 'a tracked_scheme \<Rightarrow> 'a tracked_scheme" where
  "relocate_tracked_state len off oldLen newLen t =
     (let t1 = relocate_unseen len off oldLen newLen t;
          t2 = (if oldLen > 0 then relocate_delete_half len off (off + oldLen) t1 else t1)
      in if newLen > 0 then relocate_insert_half off newLen t2 else t2)"

end
