(* ===== verification/Grapheme.thy ===== *)
theory Grapheme
  imports TextStorage "HOL-Library.Monad_Syntax"
begin

text \<open>
  \<open>Source/Text/Grapheme.h\<close> and \<open>Grapheme.cpp\<close>: grapheme-cluster boundaries, computed on
  demand over any storage.

  The segmentation rule itself is \<open>utf8proc_grapheme_break_stateful\<close> of the utf8proc
  library: the parameter \<open>brk\<close>, from the two codepoints and the state to the answer and the
  new state.  Nothing is assumed about it.  The locale \<open>codepoint_storage\<close> adds to the
  storage contract what its codepoint queries promise, and the lemmas show the bounds and
  the progress every cursor motion relies on, whatever the rule answers.
\<close>

type_synonym break_rule = "char32 \<Rightarrow> char32 \<Rightarrow> int \<Rightarrow> bool \<times> int"

section \<open>The three boundary queries\<close>

text \<open>\<open>BackNCodepoints\<close>.\<close>

fun back_n_codepoints :: "('h, 't) text_storage_class \<Rightarrow> 'h \<Rightarrow> 't \<Rightarrow> offset \<Rightarrow> nat \<Rightarrow> offset option" where
  "back_n_codepoints cls h t off 0 = Some off"
| "back_n_codepoints cls h t off (Suc n) =
     (if off > 0 then m_previous_boundary cls h t off \<bind> (\<lambda>off'. back_n_codepoints cls h t off' n)
      else Some off)"

text \<open>The loop of \<open>NextGraphemeBoundary\<close>.\<close>

partial_function (option) next_grapheme_loop ::
  "('h, 't) text_storage_class \<Rightarrow> break_rule \<Rightarrow> 'h \<Rightarrow> 't \<Rightarrow> nat \<Rightarrow> offset \<Rightarrow> char32 \<Rightarrow> int \<Rightarrow> offset option" where
  "next_grapheme_loop cls brk h t tot off cp1 state =
     (if off < tot then
        m_codepoint_at cls h t off \<bind> (\<lambda>nxt.
        let (b, state') = brk cp1 (fst nxt) state
        in if b then Some off
           else next_grapheme_loop cls brk h t tot (off + snd nxt) (fst nxt) state')
      else Some tot)"

declare next_grapheme_loop.simps [code]

definition next_grapheme_boundary ::
  "('h, 't) text_storage_class \<Rightarrow> break_rule \<Rightarrow> 'h \<Rightarrow> 't \<Rightarrow> offset \<Rightarrow> offset option" where
  "next_grapheme_boundary cls brk h t byteOffset =
     (let tot = m_byte_length cls t in
      if byteOffset \<ge> tot then Some tot
      else m_codepoint_at cls h t byteOffset \<bind> (\<lambda>first.
        next_grapheme_loop cls brk h t tot (byteOffset + snd first) (fst first) 0))"

text \<open>The scan of a window: the last boundary before \<open>stop\<close>, or none.\<close>

partial_function (option) scan_before ::
  "('h, 't) text_storage_class \<Rightarrow> break_rule \<Rightarrow> 'h \<Rightarrow> 't \<Rightarrow> offset \<Rightarrow> offset \<Rightarrow> char32 \<Rightarrow> int \<Rightarrow>
    offset option \<Rightarrow> offset option option" where
  "scan_before cls brk h t stop off cp1 state found =
     (if off < stop then
        m_codepoint_at cls h t off \<bind> (\<lambda>nxt.
        let (b, state') = brk cp1 (fst nxt) state
        in scan_before cls brk h t stop (off + snd nxt) (fst nxt) state' (if b then Some off else found))
      else Some found)"

declare scan_before.simps [code]

fun previous_grapheme_attempts ::
  "('h, 't) text_storage_class \<Rightarrow> break_rule \<Rightarrow> 'h \<Rightarrow> 't \<Rightarrow> offset \<Rightarrow> nat \<Rightarrow> nat \<Rightarrow> offset option" where
  "previous_grapheme_attempts cls brk h t byteOffset lookback 0 = back_n_codepoints cls h t byteOffset lookback"
| "previous_grapheme_attempts cls brk h t byteOffset lookback (Suc attempts) =
     back_n_codepoints cls h t byteOffset lookback \<bind> (\<lambda>scanStart.
     (if scanStart < byteOffset then
        m_codepoint_at cls h t scanStart \<bind> (\<lambda>first.
        scan_before cls brk h t byteOffset (scanStart + snd first) (fst first) 0 None)
      else Some None) \<bind> (\<lambda>found.
     case found of
       Some boundary \<Rightarrow> Some boundary
     | None \<Rightarrow> if scanStart = 0 then Some scanStart
               else previous_grapheme_attempts cls brk h t byteOffset (lookback * 4) attempts))"

definition previous_grapheme_boundary ::
  "('h, 't) text_storage_class \<Rightarrow> break_rule \<Rightarrow> 'h \<Rightarrow> 't \<Rightarrow> offset \<Rightarrow> offset option" where
  "previous_grapheme_boundary cls brk h t byteOffset =
     (if byteOffset = 0 then Some 0 else previous_grapheme_attempts cls brk h t byteOffset 32 10)"

text \<open>
  \<open>SnapToGraphemeBoundary\<close>.  Its scan goes one codepoint further: a boundary at \<open>byteOffset\<close>
  itself is returned at once, which is also what the last one found would say.
\<close>

fun snap_grapheme_attempts ::
  "('h, 't) text_storage_class \<Rightarrow> break_rule \<Rightarrow> 'h \<Rightarrow> 't \<Rightarrow> offset \<Rightarrow> nat \<Rightarrow> nat \<Rightarrow> offset option" where
  "snap_grapheme_attempts cls brk h t byteOffset lookback 0 = back_n_codepoints cls h t byteOffset lookback"
| "snap_grapheme_attempts cls brk h t byteOffset lookback (Suc attempts) =
     back_n_codepoints cls h t byteOffset lookback \<bind> (\<lambda>scanStart.
     m_codepoint_at cls h t scanStart \<bind> (\<lambda>first.
     scan_before cls brk h t (byteOffset + 1) (scanStart + snd first) (fst first) 0 None \<bind> (\<lambda>found.
     case found of
       Some boundary \<Rightarrow> Some boundary
     | None \<Rightarrow> if scanStart = 0 then Some scanStart
               else snap_grapheme_attempts cls brk h t byteOffset (lookback * 4) attempts)))"

text \<open>The index just before a codepoint index, with the wrap of \<open>std::size_t\<close> at zero.\<close>

definition size_pred :: "nat \<Rightarrow> nat" where
  "size_pred n = (if n = 0 then 2 ^ 64 - 1 else n - 1)"

definition snap_to_codepoint :: "('h, 't) text_storage_class \<Rightarrow> 'h \<Rightarrow> 't \<Rightarrow> offset \<Rightarrow> offset" where
  "snap_to_codepoint cls h t byteOffset =
     (let codepointOffset = m_byte_to_codepoint_offset cls h t byteOffset;
          snapped = m_codepoint_to_byte_offset cls h t codepointOffset
      in if snapped \<noteq> byteOffset then m_codepoint_to_byte_offset cls h t (size_pred codepointOffset) else snapped)"

definition snap_to_grapheme_boundary ::
  "('h, 't) text_storage_class \<Rightarrow> break_rule \<Rightarrow> 'h \<Rightarrow> 't \<Rightarrow> offset \<Rightarrow> offset option" where
  "snap_to_grapheme_boundary cls brk h t byteOffset =
     (let tot = m_byte_length cls t;
          off = snap_to_codepoint cls h t (if byteOffset > tot then tot else byteOffset)
      in if off = 0 \<or> off = tot then Some off
         else snap_grapheme_attempts cls brk h t off 32 10)"

section \<open>What the codepoint queries promise\<close>

locale codepoint_storage = text_storage +
  assumes codepoint_at: "ok h t \<Longrightarrow> m_codepoint_at cls h t off = Some (decoded_at (content h t) off)"
    and previous_boundary: "ok h t \<Longrightarrow> 0 < off \<Longrightarrow> off \<le> length (content h t) \<Longrightarrow>
      \<exists>p. m_previous_boundary cls h t off = Some p \<and> p < off"
    and next_boundary: "ok h t \<Longrightarrow> off < length (content h t) \<Longrightarrow>
      m_next_boundary cls h t off = Some (off + snd (decoded_at (content h t) off))"
    and codepoint_index: "ok h t \<Longrightarrow> m_codepoint_to_byte_offset cls h t n \<le> length (content h t)"
begin

lemma size: "ok h t \<Longrightarrow> m_byte_length cls t = length (content h t)"
  using measures by blast

lemma back_n:
  "ok h t \<Longrightarrow> off \<le> length (content h t) \<Longrightarrow>
    \<exists>p. back_n_codepoints cls h t off n = Some p \<and> p \<le> off \<and> (0 < n \<longrightarrow> 0 < off \<longrightarrow> p < off)"
proof (induction n arbitrary: off)
  case (Suc n)
  show ?case
  proof (cases "off = 0")
    case False
    then obtain p where p: "m_previous_boundary cls h t off = Some p" "p < off"
      using previous_boundary [of h t off] Suc.prems by auto
    then obtain q where "back_n_codepoints cls h t p n = Some q" "q \<le> p"
      using Suc.IH [of p] Suc.prems by auto
    with p False show ?thesis by auto
  qed simp
qed simp

lemma next_loop:
  "ok h t \<Longrightarrow> off \<le> length (content h t) \<Longrightarrow>
    \<exists>n. next_grapheme_loop cls brk h t (length (content h t)) off cp1 state = Some n \<and>
      off \<le> n \<and> n \<le> length (content h t)"
proof (induction "length (content h t) - off" arbitrary: off cp1 state rule: less_induct)
  case less
  show ?case
  proof (cases "off < length (content h t)")
    case True
    let ?d = "decoded_at (content h t) off"
    obtain b state' where br: "brk cp1 (fst ?d) state = (b, state')" by (cases "brk cp1 (fst ?d) state")
    have step: "1 \<le> snd ?d" "off + snd ?d \<le> length (content h t)"
      using True snd_decoded_at_pos [of off "content h t"] snd_decoded_at_le [of off "content h t"] by simp_all
    have next_loop: "next_grapheme_loop cls brk h t (length (content h t)) off cp1 state =
        (if b then Some off
         else next_grapheme_loop cls brk h t (length (content h t)) (off + snd ?d) (fst ?d) state')"
      using True br by (subst next_grapheme_loop.simps) (simp add: codepoint_at less.prems)
    have "\<exists>n. next_grapheme_loop cls brk h t (length (content h t)) (off + snd ?d) (fst ?d) state' = Some n \<and>
        off + snd ?d \<le> n \<and> n \<le> length (content h t)"
      using less.hyps [of "off + snd ?d"] step True less.prems by auto
    then show ?thesis using next_loop True by auto
  next
    case False
    then show ?thesis using less.prems by (subst next_grapheme_loop.simps) simp
  qed
qed

lemma next_grapheme:
  assumes "ok h t"
  shows "\<exists>n. next_grapheme_boundary cls brk h t off = Some n \<and> n \<le> length (content h t) \<and>
    (off < length (content h t) \<longrightarrow> off < n)"
proof (cases "off < length (content h t)")
  case True
  let ?d = "decoded_at (content h t) off"
  have "1 \<le> snd ?d" "off + snd ?d \<le> length (content h t)"
    using True snd_decoded_at_pos [of off "content h t"] snd_decoded_at_le [of off "content h t"] by simp_all
  then show ?thesis
    using next_loop [OF assms, of "off + snd ?d" brk "fst ?d" 0] True
    by (auto simp: next_grapheme_boundary_def size [OF assms] codepoint_at [OF assms] Let_def)
qed (simp add: next_grapheme_boundary_def size [OF assms] Let_def)

lemma scan:
  "ok h t \<Longrightarrow> stop \<le> length (content h t) \<Longrightarrow> (\<And>f. found = Some f \<Longrightarrow> lo < f \<and> f < stop) \<Longrightarrow> lo < off \<Longrightarrow>
    \<exists>r. scan_before cls brk h t stop off cp1 state found = Some r \<and> (\<forall>f. r = Some f \<longrightarrow> lo < f \<and> f < stop)"
proof (induction "stop - off" arbitrary: off cp1 state found rule: less_induct)
  case less
  show ?case
  proof (cases "off < stop")
    case True
    let ?d = "decoded_at (content h t) off"
    obtain b state' where br: "brk cp1 (fst ?d) state = (b, state')" by (cases "brk cp1 (fst ?d) state")
    have step: "1 \<le> snd ?d" using True less.prems snd_decoded_at_pos [of off "content h t"] by simp
    have "scan_before cls brk h t stop off cp1 state found =
        scan_before cls brk h t stop (off + snd ?d) (fst ?d) state' (if b then Some off else found)"
      using True br by (subst scan_before.simps) (simp add: codepoint_at less.prems)
    then show ?thesis
      using less.hyps [of "off + snd ?d" "if b then Some off else found" "fst ?d" state'] step True less.prems
      by (auto split: if_splits)
  next
    case False
    then show ?thesis using less.prems by (subst scan_before.simps) auto
  qed
qed

lemma previous_attempts:
  "ok h t \<Longrightarrow> 0 < off \<Longrightarrow> off \<le> length (content h t) \<Longrightarrow> 0 < lookback \<Longrightarrow>
    \<exists>p. previous_grapheme_attempts cls brk h t off lookback n = Some p \<and> p < off"
proof (induction n arbitrary: lookback)
  case 0
  then show ?case using back_n [of h t off lookback] by auto
next
  case (Suc n)
  obtain s where s: "back_n_codepoints cls h t off lookback = Some s" "s < off"
    using back_n [of h t off lookback] Suc.prems by auto
  let ?d = "decoded_at (content h t) s"
  have "1 \<le> snd ?d" using s Suc.prems snd_decoded_at_pos [of s "content h t"] by simp
  then obtain r where r: "scan_before cls brk h t off (s + snd ?d) (fst ?d) 0 None = Some r"
    "\<forall>f. r = Some f \<longrightarrow> s < f \<and> f < off"
    using scan [of h t off None s "s + snd ?d" brk "fst ?d" 0] Suc.prems by auto
  show ?case
    using s r Suc.IH [of "lookback * 4"] Suc.prems
    by (cases r) (auto simp: codepoint_at)
qed

lemma previous_grapheme:
  assumes "ok h t" "off \<le> length (content h t)"
  shows "\<exists>p. previous_grapheme_boundary cls brk h t off = Some p \<and> p \<le> off \<and> (0 < off \<longrightarrow> p < off)"
  using previous_attempts [OF assms(1) _ assms(2), of 32 brk 10]
  by (auto simp: previous_grapheme_boundary_def)

lemma snap_attempts:
  "ok h t \<Longrightarrow> off < length (content h t) \<Longrightarrow> \<exists>p. snap_grapheme_attempts cls brk h t off lookback n = Some p \<and> p \<le> off"
proof (induction n arbitrary: lookback)
  case 0
  then show ?case using back_n [of h t off lookback] by auto
next
  case (Suc n)
  obtain s where s: "back_n_codepoints cls h t off lookback = Some s" "s \<le> off"
    using back_n [of h t off lookback] Suc.prems by auto
  let ?d = "decoded_at (content h t) s"
  have "1 \<le> snd ?d" using s Suc.prems snd_decoded_at_pos [of s "content h t"] by simp
  then obtain r where r: "scan_before cls brk h t (off + 1) (s + snd ?d) (fst ?d) 0 None = Some r"
    "\<forall>f. r = Some f \<longrightarrow> s < f \<and> f < off + 1"
    using scan [of h t "off + 1" None s "s + snd ?d" brk "fst ?d" 0] Suc.prems by auto
  show ?case
    using s r Suc.IH [of "lookback * 4"] Suc.prems
    by (cases r) (auto simp: codepoint_at)
qed

lemma snap_grapheme:
  assumes "ok h t"
  shows "\<exists>p. snap_to_grapheme_boundary cls brk h t off = Some p \<and> p \<le> length (content h t)"
proof -
  let ?off = "snap_to_codepoint cls h t (if off > length (content h t) then length (content h t) else off)"
  have le: "?off \<le> length (content h t)"
    using codepoint_index [OF assms] by (simp add: snap_to_codepoint_def Let_def)
  show ?thesis
  proof (cases "?off = 0 \<or> ?off = length (content h t)")
    case True
    then show ?thesis by (auto simp: snap_to_grapheme_boundary_def size [OF assms] Let_def)
  next
    case False
    then show ?thesis
      using snap_attempts [OF assms, of ?off brk 32 10] le
      by (auto simp: snap_to_grapheme_boundary_def size [OF assms] Let_def)
  qed
qed

end


section \<open>Both classes and the virtual calls keep the promise\<close>

lemma rope_queries:
  assumes "rope_wf t"
  shows "rope_codepoint_at t off = Some (decoded_at (rope_text t) off)"
    and "0 < off \<Longrightarrow> off \<le> length (rope_text t) \<Longrightarrow> \<exists>p. rope_previous_boundary t off = Some p \<and> p < off"
    and "off < length (rope_text t) \<Longrightarrow> rope_next_boundary t off = Some (off + snd (decoded_at (rope_text t) off))"
    and "rope_codepoint_to_byte_offset t k \<le> length (rope_text t)"
proof -
  note rd = reads_rope [OF assms]
  show "rope_codepoint_at t off = Some (decoded_at (rope_text t) off)"
    by (simp add: rope_codepoint_at_def rope_measures [OF assms] codepoint_via [OF rd])
  show "\<exists>p. rope_previous_boundary t off = Some p \<and> p < off" if "0 < off" "off \<le> length (rope_text t)"
    using previous_boundary_progress [OF rd that]
    by (auto simp: rope_previous_boundary_def rope_measures [OF assms])
  show "rope_next_boundary t off = Some (off + snd (decoded_at (rope_text t) off))" if "off < length (rope_text t)"
    using that by (simp add: rope_next_boundary_def rope_measures [OF assms] next_boundary_via [OF rd])
  show "rope_codepoint_to_byte_offset t k \<le> length (rope_text t)"
    using rope_codepoint_queries [OF assms] by blast
qed

interpretation rope_codepoints: codepoint_storage rope_storage_class "\<lambda>_. rope_text" "\<lambda>_. rope_wf" "\<lambda>_ _. True"
  by unfold_locales (use rope_queries in \<open>simp_all add: rope_storage_class_def\<close>)

interpretation table_codepoints: codepoint_storage piece_table_storage_class pt_text pt_wf heap_le
proof (unfold_locales, goal_cases)
  case (1 h t off)
  then show ?case
    using rope_queries(1) [of "pt_abs h t"]
    by (simp add: piece_table_storage_class_def pt_wf_def pt_line_codepoint_abs pt_boundary_abs)
next
  case (2 h t off)
  then show ?case
    using rope_queries(2) [of "pt_abs h t"]
    by (simp add: piece_table_storage_class_def pt_wf_def pt_line_codepoint_abs pt_boundary_abs)
next
  case (3 h t off)
  then show ?case
    using rope_queries(3) [of "pt_abs h t"]
    by (simp add: piece_table_storage_class_def pt_wf_def pt_line_codepoint_abs pt_boundary_abs)
next
  case (4 h t n)
  then show ?case
    using rope_queries(4) [of "pt_abs h t"]
    by (simp add: piece_table_storage_class_def pt_wf_def pt_line_codepoint_abs pt_boundary_abs)
qed

interpretation any_codepoints: codepoint_storage storage_class st_content st_ok heap_le
proof (unfold_locales, goal_cases)
  case (1 h t off)
  then show ?case
    using rope_codepoints.codepoint_at table_codepoints.codepoint_at
    by (cases t) (simp_all add: storage_class_def dispatch_def)
next
  case (2 h t off)
  then show ?case
    using rope_codepoints.previous_boundary table_codepoints.previous_boundary
    by (cases t) (simp_all add: storage_class_def dispatch_def)
next
  case (3 h t off)
  then show ?case
    using rope_codepoints.next_boundary table_codepoints.next_boundary
    by (cases t) (simp_all add: storage_class_def dispatch_def)
next
  case (4 h t n)
  then show ?case
    using rope_codepoints.codepoint_index table_codepoints.codepoint_index
    by (cases t) (simp_all add: storage_class_def dispatch_def)
qed

end
