(* ===== verification/RemoteFile.thy ===== *)
theory RemoteFile
  imports Prelude "HOL-Library.Sublist"
begin

text \<open>
  \<open>Source/Text/RemoteFile.h\<close> and \<open>RemoteFile.cpp\<close>: a file on a remote host, and the text a
  user names one by.

  A \<open>std::filesystem::path\<close> is its POSIX text.  \<open>lexically_normal\<close>, \<open>has_filename\<close>,
  \<open>parent_path\<close> and \<open>filename\<close> are written out for the absolute paths the code calls them
  on.  \<open>find\<close> and \<open>rfind\<close> answer \<open>None\<close> for \<open>npos\<close>.

  The property: the text of a parsed file parses back to the file.
\<close>

section \<open>Strings\<close>

abbreviation slash :: char where "slash \<equiv> CHR ''/''"
abbreviation colon :: char where "colon \<equiv> CHR '':''"

fun find_text :: "bytes \<Rightarrow> bytes \<Rightarrow> nat option" where
  "find_text pat [] = (if pat = [] then Some 0 else None)"
| "find_text pat (c # cs) =
     (if prefix pat (c # cs) then Some 0 else map_option Suc (find_text pat cs))"

fun rfind_char :: "char \<Rightarrow> bytes \<Rightarrow> nat option" where
  "rfind_char x [] = None"
| "rfind_char x (c # cs) =
     (case rfind_char x cs of Some i \<Rightarrow> Some (Suc i) | None \<Rightarrow> if c = x then Some 0 else None)"

text \<open>\<open>find(c, pos)\<close>.\<close>

definition find_char_from :: "char \<Rightarrow> nat \<Rightarrow> bytes \<Rightarrow> nat option" where
  "find_char_from x pos s = map_option ((+) pos) (find_text [x] (drop pos s))"

section \<open>Paths\<close>

fun path_components :: "bytes \<Rightarrow> bytes \<Rightarrow> bytes list" where
  "path_components [] cur = [cur]"
| "path_components (c # cs) cur =
     (if c = slash then cur # path_components cs [] else path_components cs (cur @ [c]))"

text \<open>Dots and empty names go, and a name before a double dot goes with it.\<close>

fun normal_components :: "bytes list \<Rightarrow> bytes list \<Rightarrow> bytes list" where
  "normal_components [] acc = rev acc"
| "normal_components (n # ns) acc =
     (if n = [] \<or> n = ''.'' then normal_components ns acc
      else if n = ''..'' then normal_components ns (case acc of [] \<Rightarrow> [] | a # acc' \<Rightarrow> acc')
      else normal_components ns (n # acc))"

text \<open>\<open>NormalPath\<close> of an absolute path: normal, without a trailing separator.\<close>

definition normal_path :: "bytes \<Rightarrow> bytes" where
  "normal_path s =
     (let names = normal_components (path_components s []) []
      in if names = [] then [slash] else concat (map (\<lambda>n. slash # n) names))"

definition path_filename :: "bytes \<Rightarrow> bytes" where
  "path_filename s = last (path_components s [])"

section \<open>Destinations\<close>

definition kSshScheme :: bytes where "kSshScheme = ''ssh://''"

record authority_parts =
  authorityUser :: bytes
  authorityHost :: bytes
  authorityPort :: bytes

definition split_authority :: "bytes \<Rightarrow> authority_parts" where
  "split_authority authority0 =
     (let (user, authority) =
            (case rfind_char (CHR ''@'') authority0 of
               Some at \<Rightarrow> (take (at + 1) authority0, drop (at + 1) authority0)
             | None \<Rightarrow> ([], authority0));
          hostEnd = (if prefix ''['' authority then find_text '']'' authority else Some 0);
          colonAt = (case hostEnd of None \<Rightarrow> None | Some e \<Rightarrow> find_char_from colon e authority)
      in \<lparr>authorityUser = user,
          authorityHost = (case colonAt of None \<Rightarrow> authority | Some i \<Rightarrow> take i authority),
          authorityPort = (case colonAt of None \<Rightarrow> [] | Some i \<Rightarrow> drop (i + 1) authority)\<rparr>)"

function strip_slashes :: "bytes \<Rightarrow> bytes" where
  "strip_slashes s = (if s \<noteq> [] \<and> last s = slash then strip_slashes (butlast s) else s)"
  by pat_completeness auto
termination by (relation "measure length") auto

declare strip_slashes.simps [simp del]

definition normalize_destination :: "bytes \<Rightarrow> bytes" where
  "normalize_destination dest =
     (if \<not> prefix kSshScheme dest then dest
      else let authority = strip_slashes (drop (length kSshScheme) dest);
               split = split_authority authority
        in if authorityPort split = [] \<or> authorityPort split = ''22''
           then authorityUser split @ authorityHost split
           else kSshScheme @ authority)"

definition short_destination :: "bytes \<Rightarrow> bytes" where
  "short_destination dest0 =
     (let (dest, port) =
            (if prefix kSshScheme dest0
             then let split = split_authority (drop (length kSshScheme) dest0)
               in (authorityHost split, authorityPort split)
             else case rfind_char (CHR ''@'') dest0 of
                 Some at \<Rightarrow> (drop (at + 1) dest0, [])
               | None \<Rightarrow> (dest0, []));
          address = (prefix ''['' dest \<or> list_all (\<lambda>c. (u8 c \<ge> u8 (CHR ''0'') \<and> u8 c \<le> u8 (CHR ''9'')) \<or> c = CHR ''.'') dest);
          short = (if \<not> address then (case find_text ''.'' dest of Some i \<Rightarrow> take i dest | None \<Rightarrow> dest) else dest)
      in if port = [] then short else short @ [colon] @ port)"

section \<open>Remote files\<close>

record remote_file =
  destination :: bytes
  remotePath :: bytes

definition remote_to_string :: "remote_file \<Rightarrow> bytes" where
  "remote_to_string f =
     (if prefix kSshScheme (destination f) then destination f @ remotePath f
      else destination f @ [colon] @ remotePath f)"

definition parse_remote_file :: "bytes \<Rightarrow> remote_file option" where
  "parse_remote_file s =
     (if prefix kSshScheme s then
        (let rest = drop (length kSshScheme) s
         in case find_text [slash] rest of
              None \<Rightarrow> None
            | Some i \<Rightarrow>
                (let authority0 = take i rest;
                     authority = (if authority0 \<noteq> [] \<and> last authority0 = colon then butlast authority0 else authority0)
                 in if authorityHost (split_authority authority) = [] then None
                    else Some \<lparr>destination = normalize_destination (kSshScheme @ authority),
                               remotePath = normal_path (drop i rest)\<rparr>))
      else case find_text '':/'' s of
          None \<Rightarrow> None
        | Some i \<Rightarrow>
            (if i = 0 then None
             else Some \<lparr>destination = take i s, remotePath = normal_path (drop (i + 1) s)\<rparr>))"

definition remote_buffer_name :: "remote_file \<Rightarrow> bytes" where
  "remote_buffer_name f = short_destination (destination f) @ [colon] @ path_filename (remotePath f)"

end
