(* ===== verification/CharsetFeed.thy ===== *)
theory CharsetFeed
  imports Charset
begin

text \<open>
  The decoder and the encoder of \<open>Source/Text/Charset.cpp\<close>: a text fed in pieces comes out
  as the text fed at once, and what a load decodes, a save encodes to the same bytes.
\<close>

section \<open>Feeding in pieces\<close>

text \<open>The loop every caller runs: feed each chunk, stop at the first refusal.\<close>

fun decoder_feeds :: "charset_decoder \<Rightarrow> bytes list \<Rightarrow> bool \<times> charset_decoder \<times> bytes" where
  "decoder_feeds d [] = (True, d, [])"
| "decoder_feeds d (c # cs) =
     (let (ok, d', out) = decoder_feed d c
      in if \<not> ok then (False, d', out)
         else let (ok', d'', out') = decoder_feeds d' cs in (ok', d'', out @ out'))"

fun encoder_feeds :: "charset_encoder \<Rightarrow> bytes list \<Rightarrow> bool \<times> charset_encoder \<times> bytes" where
  "encoder_feeds e [] = (True, e, [])"
| "encoder_feeds e (c # cs) =
     (let (ok, e', out) = encoder_feed e c
      in if \<not> ok then (False, e', out)
         else let (ok', e'', out') = encoder_feeds e' cs in (ok', e'', out @ out'))"

lemma decode_units_append:
  "decode_units be (xs @ ys) =
     (case decode_units be xs of
        (out, None) \<Rightarrow> (out, None)
      | (out, Some carry) \<Rightarrow> (let (out', r) = decode_units be (carry @ ys) in (out @ out', r)))"
proof (induction be xs rule: decode_units.induct)
  case (1 be x y rest)
  show ?case
  proof (cases rest)
    case Nil
    then show ?thesis using 1 by (auto simp: Let_def split: prod.splits option.splits)
  next
    case (Cons x' rest1)
    show ?thesis
    proof (cases rest1)
      case Nil
      then show ?thesis using 1 Cons by (auto simp: Let_def split: prod.splits option.splits)
    next
      case (Cons y' rest2)
      then show ?thesis using 1 \<open>rest = x' # rest1\<close>
        by (auto simp: Let_def split: prod.splits option.splits)
    qed
  qed
qed auto

lemma encode_chars_append:
  "encode_chars c (xs @ ys) =
     (case encode_chars c xs of
        (out, n, None) \<Rightarrow> (out, n, None)
      | (out, n, Some carry) \<Rightarrow> (let (out', n', r) = encode_chars c (carry @ ys) in (out @ out', n + n', r)))"
proof (induction c xs rule: encode_chars.induct)
  case (1 c xs)
  show ?case
  proof (cases "xs = []")
    case True
    then show ?thesis by (simp add: encode_chars.simps [of c "[]"] split: prod.splits)
  next
    case ne: False
    let ?len = "sequence_length (u8 (hd xs))"
    have hd: "hd (xs @ ys) = hd xs" using ne by simp
    show ?thesis
    proof (cases "?len = 0 \<or> ?len > length xs")
      case True
      then show ?thesis
        using ne by (subst (2) encode_chars.simps) (auto simp: encode_chars.simps [of c "xs @ ys"] Let_def split: prod.splits)
    next
      case False
      then have len: "0 < ?len" "?len \<le> length xs" by auto
      show ?thesis
      proof (cases "decode_sequence (take ?len xs) \<bind> encode_scalar c")
        case None
        then show ?thesis
          using ne len by (simp add: encode_chars.simps [of c xs] encode_chars.simps [of c "xs @ ys"] Let_def)
      next
        case (Some unit)
        have "encode_chars c (xs @ ys) =
            (let (out, n, r) = encode_chars c (drop ?len xs @ ys) in (unit @ out, ?len + n, r))"
          using ne len Some by (subst encode_chars.simps) (simp add: Let_def)
        moreover have "encode_chars c xs =
            (let (out, n, r) = encode_chars c (drop ?len xs) in (unit @ out, ?len + n, r))"
          using ne len Some by (subst encode_chars.simps) (simp add: Let_def)
        moreover note 1 [OF ne refl _ _ Some]
        ultimately show ?thesis using len
          by (auto simp: Let_def split: prod.splits option.splits)
      qed
    qed
  qed
qed

lemma encode_chars_taken:
  "encode_chars c xs = (out, n, Some carry) \<Longrightarrow> n + length carry = length xs \<and> encode_chars c carry = ([], 0, Some carry)"
proof (induction c xs arbitrary: out n rule: encode_chars.induct)
  case (1 c xs)
  let ?len = "sequence_length (u8 (hd xs))"
  show ?case
  proof (cases "xs = [] \<or> ?len = 0 \<or> ?len > length xs")
    case True
    then show ?thesis using 1(2) by (subst (asm) encode_chars.simps) (auto simp: encode_chars.simps Let_def split: if_splits)
  next
    case False
    then have ne: "xs \<noteq> []" and len: "0 < ?len" "?len \<le> length xs" by auto
    obtain unit where u: "decode_sequence (take ?len xs) \<bind> encode_scalar c = Some unit"
      using 1(2) ne len by (subst (asm) encode_chars.simps) (auto simp: Let_def split: option.splits)
    obtain out' n' where "encode_chars c (drop ?len xs) = (out', n', Some carry)" "n = ?len + n'"
      using 1(2) ne len u by (subst (asm) encode_chars.simps) (auto simp: Let_def split: prod.splits)
    then show ?thesis using 1(1) [OF ne refl _ _ u] len by fastforce
  qed
qed

lemma decode_units_carry: "decode_units be xs = (out, Some carry) \<Longrightarrow> decode_units be carry = ([], Some carry)"
proof (induction be xs arbitrary: out rule: decode_units.induct)
  case (1 be x y rest)
  then show ?case by (auto simp: Let_def split: if_splits list.splits prod.splits)
qed auto

definition decoder_ok :: "charset_decoder \<Rightarrow> bool" where
  "decoder_ok d \<longleftrightarrow> \<not> decoderFailed d \<and>
     decode_units (decoderCharset d = Utf16Be) (decoderCarry d) = ([], Some (decoderCarry d))"

definition encoder_ok :: "charset_encoder \<Rightarrow> bool" where
  "encoder_ok e \<longleftrightarrow> \<not> encoderFailed e \<and> length (encoderCarry e) \<le> consumed e \<and>
     encode_chars (encoderCharset e) (encoderCarry e) = ([], 0, Some (encoderCarry e))"

lemma new_decoder_ok [simp]: "decoder_ok (new_decoder c)"
  by (simp add: decoder_ok_def new_decoder_def)

lemma new_encoder_ok [simp]: "encoder_ok (new_encoder c)"
  by (simp add: encoder_ok_def new_encoder_def encode_chars.simps)

lemma decoder_feed_ok: "decoder_ok d \<Longrightarrow> decoder_feed d xs = (True, d', out) \<Longrightarrow> decoder_ok d'"
  by (auto simp: decoder_ok_def decoder_feed_def dest: decode_units_carry split: if_splits prod.splits option.splits)

lemma encoder_feed_ok: "encoder_ok e \<Longrightarrow> encoder_feed e xs = (True, e', out) \<Longrightarrow> encoder_ok e'"
  by (fastforce simp: encoder_ok_def encoder_feed_def dest: encode_chars_taken split: if_splits prod.splits option.splits)

lemma decoder_feed_append:
  assumes "decoder_ok d"
  shows "decoder_feed d (xs @ ys) =
    (let (ok, d', out) = decoder_feed d xs
     in if \<not> ok then (False, d', out)
        else let (ok', d'', out') = decoder_feed d' ys in (ok', d'', out @ out'))"
  using assms decode_units_append [of "decoderCharset d = Utf16Be" "decoderCarry d @ xs" ys]
  by (auto simp: decoder_ok_def decoder_feed_def Let_def split: prod.splits option.splits)

lemma encoder_feed_append:
  assumes "encoder_ok e"
  shows "encoder_feed e (xs @ ys) =
    (let (ok, e', out) = encoder_feed e xs
     in if \<not> ok then (False, e', out)
        else let (ok', e'', out') = encoder_feed e' ys in (ok', e'', out @ out'))"
proof (cases "is_utf8_family (encoderCharset e)")
  case True
  then show ?thesis using assms by (simp add: encoder_ok_def encoder_feed_def)
next
  case False
  obtain out n r where l: "encode_chars (encoderCharset e) (encoderCarry e @ xs) = (out, n, r)"
    by (cases "encode_chars (encoderCharset e) (encoderCarry e @ xs)") auto
  note app = encode_chars_append [of "encoderCharset e" "encoderCarry e @ xs" ys]
  show ?thesis
  proof (cases r)
    case None
    then show ?thesis using False assms l app by (simp add: encoder_ok_def encoder_feed_def Let_def)
  next
    case (Some carry)
    have n: "n + length carry = length (encoderCarry e) + length xs"
      using encode_chars_taken [of "encoderCharset e" "encoderCarry e @ xs" out n carry] l Some by simp
    obtain out' n' r' where l': "encode_chars (encoderCharset e) (carry @ ys) = (out', n', r')"
      by (cases "encode_chars (encoderCharset e) (carry @ ys)") auto
    show ?thesis using False assms l l' app n Some
      by (cases r') (auto simp: encoder_ok_def encoder_feed_def Let_def)
  qed
qed

lemma decoder_feed_Nil: "decoder_ok d \<Longrightarrow> decoder_feed d [] = (True, d, [])"
  by (auto simp: decoder_ok_def decoder_feed_def)

lemma encoder_feed_Nil: "encoder_ok e \<Longrightarrow> encoder_feed e [] = (True, e, [])"
  by (auto simp: encoder_ok_def encoder_feed_def)

lemma decoder_feeds_concat: "decoder_ok d \<Longrightarrow> decoder_feeds d cs = decoder_feed d (concat cs)"
proof (induction cs arbitrary: d)
  case Nil
  then show ?case by (simp add: decoder_feed_Nil)
next
  case (Cons c cs)
  then show ?case using decoder_feed_ok [of d c]
    by (cases "decoder_feed d c") (auto simp: decoder_feed_append Let_def split: prod.splits)
qed

lemma encoder_feeds_concat: "encoder_ok e \<Longrightarrow> encoder_feeds e cs = encoder_feed e (concat cs)"
proof (induction cs arbitrary: e)
  case Nil
  then show ?case by (simp add: encoder_feed_Nil)
next
  case (Cons c cs)
  then show ?case using encoder_feed_ok [of e c]
    by (cases "encoder_feed e c") (auto simp: encoder_feed_append Let_def split: prod.splits)
qed

section \<open>Encoding what was decoded\<close>

lemma append_utf8_eq: "append_utf8 = encode_codepoint_utf8"
  by (rule ext) (simp add: append_utf8_def encode_codepoint_utf8_def)

lemma or_add: "a AND b = 0 \<Longrightarrow> a OR b = a + (b :: 'a::len word)"
  by (simp add: disjunctive_add_eq_or)

lemma lead_unat:
  assumes "(a :: char32) AND w = 0" "unat a + unat w < 256"
  shows "unat (ucast (a OR w) :: 8 word) = unat a + unat w"
proof -
  have "unat (a OR w) = unat a + unat w"
    using assms by (simp add: or_add unat_word_ariths)
  then show ?thesis using assms(2) by (simp add: unsigned_ucast_eq take_bit_eq_mod)
qed

lemma unat_drop_bit: "unat (drop_bit n (w :: char32)) = unat w div 2 ^ n"
  using unsigned_less [of w, where ?'a = nat]
  by (simp add: unsigned_drop_bit_eq take_bit_nat_eq_self flip: drop_bit_eq_div)

lemma and_apart: "take_bit n a = 0 \<Longrightarrow> take_bit n w = w \<Longrightarrow> a AND w = (0 :: 'a::len word)"
  by (metis take_bit_and and_zero_eq and.commute zero_and_eq take_bit_eq_0_iff and.assoc take_bit_eq_mask)

lemma lead_masks:
  "(cp :: char32) < 0x800 \<Longrightarrow> 0xC0 AND drop_bit 6 cp = 0"
  "cp < 0x10000 \<Longrightarrow> 0xE0 AND drop_bit 12 cp = 0"
  "cp < 0x200000 \<Longrightarrow> 0xF0 AND drop_bit 18 cp = 0"
  by (rule and_apart [of 5] and_apart [of 4], simp, rule bit_word_eqI, auto simp: bit_simps dest: high_bits)+

lemma lead_values:
  "(cp :: char32) < 0x800 \<Longrightarrow> unat (ucast (0xC0 OR drop_bit 6 cp) :: 8 word) = 192 + unat cp div 64"
  "cp < 0x10000 \<Longrightarrow> unat (ucast (0xE0 OR drop_bit 12 cp) :: 8 word) = 224 + unat cp div 4096"
  "cp < 0x200000 \<Longrightarrow> unat (ucast (0xF0 OR drop_bit 18 cp) :: 8 word) = 240 + unat cp div 262144"
  using lead_unat [OF lead_masks(1), of cp] lead_unat [OF lead_masks(2), of cp] lead_unat [OF lead_masks(3), of cp]
  by (simp_all add: unat_drop_bit word_less_nat_alt push_bit_numeral less_mult_imp_div_less)

lemma sequence_length_append_utf8:
  assumes "unicode_scalar cp"
  shows "sequence_length (u8 (hd (append_utf8 cp))) = length (append_utf8 cp)"
proof -
  have le: "unat cp \<le> 0x10FFFF" using assms by (simp add: unicode_scalar_def word_le_nat_alt)
  consider "cp < 0x80" | "\<not> cp < 0x80" "cp < 0x800" | "\<not> cp < 0x800" "cp < 0x10000" | "\<not> cp < 0x10000"
    by blast
  then show ?thesis
  proof cases
    case 1
    then show ?thesis by (simp add: append_utf8_def sequence_length_def lead1)
  next
    case 2
    then have "\<not> (ucast (0xC0 OR drop_bit 6 cp) :: 8 word) < 0x80" by (simp add: lead_ge_0x80)
    then show ?thesis using 2 lead_values(1) [of cp]
      by (simp add: append_utf8_def sequence_length_def word_less_nat_alt word_le_nat_alt; linarith)
  next
    case 3
    then show ?thesis using lead_values(2) [of cp]
      by (simp add: append_utf8_def sequence_length_def word_less_nat_alt word_le_nat_alt; linarith)
  next
    case 4
    then show ?thesis using lead_values(3) [of cp] le
      by (simp add: append_utf8_def sequence_length_def word_less_nat_alt word_le_nat_alt; linarith)
  qed
qed

lemma take_ucast: "k \<le> 8 \<Longrightarrow> take_bit k (ucast (ucast (w :: char32) :: 8 word)) = take_bit k w"
  by (rule bit_word_eqI) (auto simp: bit_simps)

lemma decode_sequence_append_utf8:
  assumes "unicode_scalar cp"
  shows "decode_sequence (append_utf8 cp) = Some cp"
proof -
  have le: "cp \<le> 0x10FFFF" and ns: "\<not> (0xD800 \<le> cp \<and> cp \<le> 0xDFFF)"
    using assms by (auto simp: unicode_scalar_def not_less not_le)
  have lt: "cp < 0x200000" by (rule le_less_trans [OF le]) simp
  have tail: "tail_bits (to_byte (0x80 OR take_bit 6 x)) = take_bit 6 x" for x
    unfolding tail_bits_def u8_to_byte and_masks take6_ucast by simp
  have heads: "ucast (ucast (0xC0 OR drop_bit 6 cp) :: 8 word) AND (0x1F :: char32) = take_bit 5 (drop_bit 6 cp)"
    "ucast (ucast (0xE0 OR drop_bit 12 cp) :: 8 word) AND (0x0F :: char32) = take_bit 4 (drop_bit 12 cp)"
    "ucast (ucast (0xF0 OR drop_bit 18 cp) :: 8 word) AND (0x07 :: char32) = take_bit 3 (drop_bit 18 cp)"
    by (simp_all add: and_masks take_ucast)
  show ?thesis
    using ns le
    by (auto simp: append_utf8_def lead1 and_masks(1) tail heads reassemble2 reassemble3 reassemble4 lt Let_def or.assoc [symmetric])
qed

lemma append_utf8_ne [simp]: "append_utf8 cp \<noteq> []"
  by (simp add: append_utf8_def)

lemma encode_chars_unit:
  assumes "unicode_scalar cp" "encode_scalar c cp = Some unit"
  shows "encode_chars c (append_utf8 cp @ rest) =
    (let (out, n, r) = encode_chars c rest in (unit @ out, length (append_utf8 cp) + n, r))"
proof -
  note len = sequence_length_append_utf8 [OF assms(1)] and dec = decode_sequence_append_utf8 [OF assms(1)]
  have hd: "hd (append_utf8 cp @ rest) = hd (append_utf8 cp)" by simp
  show ?thesis
    by (subst encode_chars.simps, subst hd, subst len) (simp add: Let_def dec assms(2) split: prod.splits)
qed

lemma byte_scalar: "of_char c < (0x100 :: char32)" "unicode_scalar (of_char c)" "to_byte (of_char c) = c"
proof -
  have nat: "unat (of_char c :: char32) = of_char c"
    by (cases c) (simp add: of_char_def unat_of_nat)
  have lt: "(of_char c :: nat) < 256" by simp
  show b: "of_char c < (0x100 :: char32)" using lt nat by (simp add: word_less_nat_alt)
  show "unicode_scalar (of_char c)"
    using less_trans [OF b, of "0xD800"] less_trans [OF b, of "0x10FFFF"]
    by (auto simp: unicode_scalar_def intro: less_imp_le)
  show "to_byte (of_char c) = c" by (simp add: to_byte_def nat)
qed

lemma latin1_round_trip:
  "encode_chars Latin1 (concat (map (\<lambda>c. append_utf8 (of_char c)) bs)) =
    (bs, length (concat (map (\<lambda>c. append_utf8 (of_char c)) bs)), Some [])"
proof (induction bs)
  case Nil
  then show ?case by (simp add: encode_chars.simps)
next
  case (Cons c bs)
  have "encode_scalar Latin1 (of_char c) = Some [c]"
    using byte_scalar [of c] by (simp add: encode_scalar_def word_less_nat_alt word_le_nat_alt)
  then show ?case using Cons by (simp add: encode_chars_unit byte_scalar)
qed

lemma char_eq_u8: "u8 a = u8 b \<Longrightarrow> a = b"
  by (metis char_of_char unat_u8)

lemma utf16_unit_bytes: "append_utf16_unit (unit_at be x y) be = [x, y]"
proof -
  have cast: "char_of (unat (w :: 16 word)) = z" if "w = ucast (u8 z)" for w z
  proof -
    have "(of_char z :: nat) < 2 ^ 16" by (rule less_trans [of _ 256]) simp_all
    then have "take_bit 16 (of_char z :: nat) = of_char z" by (rule take_bit_nat_eq_self)
    then show ?thesis using that by (simp add: unsigned_ucast_eq)
  qed
  have chr: "(of_char z :: 16 word) = ucast (u8 z)" for z
    by (cases z) (simp add: of_char_def)
  have high: "drop_bit 8 (push_bit 8 (of_char a) OR of_char b :: 16 word) = ucast (u8 a)"
    and low: "(push_bit 8 (of_char a) OR of_char b :: 16 word) AND 0xFF = ucast (u8 b)" for a b
  proof -
    have bits: "bit (u8 z) n \<Longrightarrow> n < 8" for z n using bit_imp_le_length [of "u8 z" n] by simp
    have m: "w AND 0xFF = take_bit 8 w" for w :: "16 word" by (simp add: take_bit_eq_mask mask_eq_exp_minus_1)
    show "drop_bit 8 (push_bit 8 (of_char a) OR of_char b :: 16 word) = ucast (u8 a)"
      "(push_bit 8 (of_char a) OR of_char b :: 16 word) AND 0xFF = ucast (u8 b)"
      unfolding m chr by (rule bit_word_eqI, auto simp: bit_simps dest: bits)+
  qed
  show ?thesis
    by (cases be) (simp_all add: append_utf16_unit_def unit_at_def Let_def cast [OF high] cast [OF low] del: drop_bit_or)
qed

lemma scalar_of_unit:
  assumes "\<not> (0xD800 \<le> u \<and> u \<le> 0xDBFF)" "\<not> (0xDC00 \<le> u \<and> u \<le> (0xDFFF :: 16 word))"
  shows "unicode_scalar (ucast u)" "ucast (ucast u :: char32) = u" "\<not> (ucast u :: char32) \<ge> 0x10000"
proof -
  have lt: "unat u < 65536" using unsigned_less [of u, where ?'a = nat] by simp
  then have nat: "unat (ucast u :: char32) = unat u"
    by (simp add: unsigned_ucast_eq take_bit_nat_eq_self)
  show "unicode_scalar (ucast u)" "\<not> (ucast u :: char32) \<ge> 0x10000"
    using assms lt by (auto simp: unicode_scalar_def word_less_nat_alt word_le_nat_alt nat)
  show "ucast (ucast u :: char32) = u"
    by (rule bit_word_eqI) (auto simp: bit_simps)
qed

lemma unat_pair:
  fixes a b :: "16 word"
  assumes "unat a < 1024" "unat b < 1024"
  shows "unat (push_bit 10 (ucast a) OR ucast b :: char32) = 1024 * unat a + unat b"
proof -
  have cast: "unat (ucast w :: char32) = unat (w :: 16 word)" for w
    using unsigned_less [of w, where ?'a = nat] by (simp add: unsigned_ucast_eq take_bit_nat_eq_self)
  have small: "take_bit 10 b = b"
    using assms(2) by (intro take_bit_eq_self_less) (simp_all add: word_less_nat_alt)
  then have bits: "bit b n \<Longrightarrow> n < 10" for n by (metis bit_take_bit_iff)
  have "push_bit 10 (ucast a) AND ucast b = (0 :: char32)"
    by (rule bit_word_eqI) (auto simp: bit_simps dest: bits)
  then have "push_bit 10 (ucast a) OR ucast b = push_bit 10 (ucast a) + (ucast b :: char32)" by (rule or_add)
  moreover have "unat (push_bit 10 (ucast a) :: char32) = 1024 * unat a"
    using assms(1) by (simp add: push_bit_eq_mult unat_word_ariths cast)
  ultimately show ?thesis using assms by (simp add: unat_word_ariths cast)
qed

lemma scalar_of_pair:
  fixes u low :: "16 word"
  assumes "0xD800 \<le> u" "u \<le> 0xDBFF" "0xDC00 \<le> low" "low \<le> 0xDFFF"
  defines "v \<equiv> push_bit 10 (ucast (u - 0xD800)) OR ucast (low - 0xDC00) :: char32"
  shows "unicode_scalar (0x10000 + v)" "0x10000 + v \<ge> 0x10000"
    "ucast (0xD800 + drop_bit 10 v) = u" "ucast (0xDC00 + (v AND 0x3FF)) = low"
proof -
  let ?a = "unat u - 0xD800" and ?b = "unat low - 0xDC00"
  have a: "unat (u - 0xD800) = ?a" "?a < 1024" "unat u = 0xD800 + ?a"
    using assms(1,2) by (simp_all add: unat_sub word_le_nat_alt)
  have b: "unat (low - 0xDC00) = ?b" "?b < 1024" "unat low = 0xDC00 + ?b"
    using assms(3,4) by (simp_all add: unat_sub word_le_nat_alt)
  have v: "unat v = 1024 * ?a + ?b"
    unfolding v_def using unat_pair [of "u - 0xD800" "low - 0xDC00"] a b by simp
  have sum: "unat (0x10000 + v) = 0x10000 + unat v" using v a b by (simp add: unat_word_ariths)
  show "unicode_scalar (0x10000 + v)" "0x10000 + v \<ge> 0x10000"
    using sum v a(2) b(2) by (simp_all add: unicode_scalar_def word_le_nat_alt word_less_nat_alt)
  have hi: "unat (drop_bit 10 v) = ?a" using v b(2) by (simp add: unat_drop_bit)
  have "v AND 0x3FF = take_bit 10 v" by (simp add: take_bit_eq_mask mask_eq_exp_minus_1)
  then have "unat (v AND 0x3FF) = take_bit 10 (unat v)" by (simp only: unsigned_take_bit_eq)
  then have lo: "unat (v AND 0x3FF) = ?b" using v b(2) by (simp add: take_bit_eq_mod)
  have down: "ucast w = x" if "unat (w :: char32) = unat (x :: 16 word)" for w x
    using that unsigned_less [of x, where ?'a = nat]
    by (simp add: word_unat_eq_iff unsigned_ucast_eq take_bit_nat_eq_self)
  show "ucast (0xD800 + drop_bit 10 v) = u"
    by (rule down) (use hi a in \<open>simp add: unat_word_ariths\<close>)
  show "ucast (0xDC00 + (v AND 0x3FF)) = low"
    by (rule down) (use lo b in \<open>simp add: unat_word_ariths\<close>)
qed

lemma utf16_round_trip:
  assumes "c = Utf16Le \<or> c = Utf16Be"
  shows "decode_units (c = Utf16Be) bs = (out, Some []) \<Longrightarrow> encode_chars c out = (bs, length out, Some [])"
proof (induction "c = Utf16Be" bs arbitrary: out rule: decode_units.induct)
  case (1 x y rest)
  let ?be = "c = Utf16Be"
  let ?u = "unit_at ?be x y"
  have latin: "c \<noteq> Latin1" using assms by auto
  show ?case
  proof (cases "?u \<ge> 0xD800 \<and> ?u \<le> 0xDBFF")
    case True
    then have lowless: "\<not> (?u \<ge> 0xDC00 \<and> ?u \<le> 0xDFFF)" by (auto simp: word_le_nat_alt)
    from 1(3) True lowless obtain x' y' rest' where r: "rest = x' # y' # rest'"
      by (auto simp: Let_def split: list.splits)
    let ?low = "unit_at ?be x' y'"
    let ?v = "push_bit 10 (ucast (?u - 0xD800)) OR ucast (?low - 0xDC00) :: char32"
    from 1(3) True lowless r obtain out' where low: "0xDC00 \<le> ?low" "?low \<le> 0xDFFF"
      and rest: "decode_units ?be rest' = (out', Some [])" and out: "out = append_utf8 (0x10000 + ?v) @ out'"
      by (auto simp: Let_def not_less split: if_splits prod.splits)
    note p = scalar_of_pair [OF conjunct1 [OF True] conjunct2 [OF True] low]
    have enc: "encode_scalar c (0x10000 + ?v) = Some [x, y, x', y']"
      using latin p by (simp add: encode_scalar_def Let_def utf16_unit_bytes)
    have "encode_chars c out' = (rest', length out', Some [])"
      using 1(1) [OF refl lowless True r refl] rest low by (simp add: not_less)
    then show ?thesis using r by (simp add: out encode_chars_unit [OF p(1) enc])
  next
    case False
    from 1(3) have nl: "\<not> (?u \<ge> 0xDC00 \<and> ?u \<le> 0xDFFF)" by (auto simp: Let_def split: if_splits)
    from 1(3) False nl obtain out' where rest: "decode_units ?be rest = (out', Some [])"
      and out: "out = append_utf8 (ucast ?u) @ out'"
      by (auto simp: Let_def split: if_splits prod.splits)
    note p = scalar_of_unit [OF False nl]
    have enc: "encode_scalar c (ucast ?u) = Some [x, y]"
      using latin p by (simp add: encode_scalar_def Let_def utf16_unit_bytes)
    have "encode_chars c out' = (rest, length out', Some [])"
      using 1(2) [OF refl nl] False rest by simp
    then show ?thesis by (simp add: out encode_chars_unit [OF p(1) enc])
  qed
qed (simp_all add: encode_chars.simps)

section \<open>The properties\<close>

lemma encode_of_loop:
  "\<not> is_utf8_family c \<Longrightarrow> encode_chars c s = (out, n, Some []) \<Longrightarrow> encode_charset s c = Some out"
  by (simp add: encode_charset_def encoder_feed_def new_encoder_def encoder_finish_def Let_def)

text \<open>
  C29: what a load decodes a save encodes back to exactly the bytes of the file, in every
  charset: \<open>EncodeCharset\<close> inverts \<open>DecodeCharset\<close> on everything it accepts.
\<close>

theorem charset_round_trip:
  assumes "decode_charset bs c = Some s"
  shows "encode_charset s c = Some bs"
proof (cases "is_utf8_family c")
  case True
  then show ?thesis using assms
    by (simp add: decode_charset_def decoder_feed_def new_decoder_def encode_charset_def encoder_feed_def
        new_encoder_def encoder_finish_def split: if_splits)
next
  case False
  then consider "c = Latin1" | "c = Utf16Le \<or> c = Utf16Be" by (cases c) (simp_all add: is_utf8_family_def)
  then show ?thesis
  proof cases
    case 1
    then have "s = concat (map (\<lambda>c. append_utf8 (of_char c)) bs)" using assms
      by (simp add: decode_charset_def decoder_feed_def new_decoder_def is_utf8_family_def split: if_splits)
    then show ?thesis using 1 latin1_round_trip [of bs] by (intro encode_of_loop [OF False]) simp
  next
    case 2
    have "decode_units (c = Utf16Be) bs = (s, Some [])" using 2 assms
      by (auto simp: decode_charset_def decoder_feed_def new_decoder_def is_utf8_family_def decoder_finish_def
          split: if_splits prod.splits option.splits)
    then show ?thesis by (rule encode_of_loop [OF False utf16_round_trip [OF 2]])
  qed
qed

theorem charset_round_trip_witness:
  "encode_charset (map char_of [0xF0, 0x9F, 0x98, 0x80, 0x61 :: nat]) Utf16Be =
    Some (map char_of [0xD8, 0x3D, 0xDE, 0x00, 0x00, 0x61 :: nat])"
  by (rule charset_round_trip) code_simp

text \<open>
  C30: a text fed to the decoder or the encoder in pieces, cut anywhere, comes out as the
  text fed at once, with the same answer and the same state: where a load or a save cuts its
  chunks never shows.
\<close>

theorem feeding_in_pieces:
  "decoder_feeds (new_decoder c) pieces = decoder_feed (new_decoder c) (concat pieces) \<and>
   encoder_feeds (new_encoder c) pieces = encoder_feed (new_encoder c) (concat pieces)"
  by (simp add: decoder_feeds_concat encoder_feeds_concat)

end
