(* ===== verification/SavePlan.thy ===== *)
theory SavePlan
  imports TextStorage CharsetFeed WhitespaceHygiene LineEnding
begin

text \<open>
  \<open>Source/Text/SavePlan.h\<close> and \<open>SavePlan.cpp\<close>: what a save writes.  A plan owns the content
  it writes; an ordinary buffer is written from one string, a huge one is streamed through
  \<open>StreamingSaveWriter\<close> without ever being held whole.

  The stream written to is its bytes and its fail flag; nothing is written once the flag is
  set.  The total that \<open>onProgress\<close> is called with at each flush is kept in a list.  Where
  the bytes go, \<open>ReplaceFileContent\<close>, is the file system's and not modelled.
\<close>

section \<open>The plan\<close>

record 't save_plan =
  planTarget :: bytes
  planSnapshot :: 't
  planLineEnding :: line_ending
  planTrim :: bool
  planKeep :: "nat list"
  planFinalNewline :: bool
  planCharset :: charset

section \<open>The encoding sink\<close>

record ostream =
  streamBytes :: bytes
  failbit :: bool

definition stream_write :: "bytes \<Rightarrow> ostream \<Rightarrow> ostream" where
  "stream_write bs f = (if failbit f then f else f\<lparr>streamBytes := streamBytes f @ bs\<rparr>)"

record encoding_sink =
  sinkFile :: ostream
  sinkEncoder :: charset_encoder
  passThrough :: bool

definition new_sink :: "ostream \<Rightarrow> charset \<Rightarrow> encoding_sink" where
  "new_sink f c = \<lparr>sinkFile = f, sinkEncoder = new_encoder c, passThrough = is_utf8_family c\<rparr>"

definition sink_write :: "bytes \<Rightarrow> encoding_sink \<Rightarrow> encoding_sink" where
  "sink_write bs s =
     (if passThrough s then s\<lparr>sinkFile := stream_write bs (sinkFile s)\<rparr>
      else let (fed, e, encoded) = encoder_feed (sinkEncoder s) bs;
               f = (if \<not> fed then (sinkFile s)\<lparr>failbit := True\<rparr> else sinkFile s)
        in s\<lparr>sinkEncoder := e, sinkFile := stream_write encoded f\<rparr>)"

definition sink_finish :: "encoding_sink \<Rightarrow> encoding_sink" where
  "sink_finish s =
     (if \<not> encoder_finish (sinkEncoder s) then s\<lparr>sinkFile := (sinkFile s)\<lparr>failbit := True\<rparr>\<rparr> else s)"

section \<open>The streaming writer\<close>

record save_writer =
  writerSink :: encoding_sink
  writerEnding :: line_ending
  writerTrim :: bool
  writerFinalNewline :: bool
  progress :: "nat list"
  bytesWritten :: nat
  outBuffer :: bytes
  pendingWhitespace :: bytes
  pendingNewlineCount :: nat
  wroteAnything :: bool
  endsWithNewline :: bool

definition new_writer :: "encoding_sink \<Rightarrow> line_ending \<Rightarrow> bool \<Rightarrow> bool \<Rightarrow> save_writer" where
  "new_writer s ending trim final =
     \<lparr>writerSink = s, writerEnding = ending, writerTrim = trim, writerFinalNewline = final, progress = [],
      bytesWritten = 0, outBuffer = [], pendingWhitespace = [], pendingNewlineCount = 0,
      wroteAnything = False, endsWithNewline = False\<rparr>"

definition kFlushThreshold :: nat where "kFlushThreshold = 256 * 1024"

definition flush_buffer :: "save_writer \<Rightarrow> save_writer" where
  "flush_buffer w =
     (if outBuffer w = [] then w
      else let written = bytesWritten w + length (outBuffer w)
        in w\<lparr>writerSink := sink_write (outBuffer w) (writerSink w), bytesWritten := written,
             outBuffer := [], progress := progress w @ [written]\<rparr>)"

definition maybe_flush :: "save_writer \<Rightarrow> save_writer" where
  "maybe_flush w = (if length (outBuffer w) \<ge> kFlushThreshold then flush_buffer w else w)"

definition write_byte :: "char \<Rightarrow> save_writer \<Rightarrow> save_writer" where
  "write_byte c w =
     maybe_flush (w\<lparr>outBuffer := outBuffer w @ [c], wroteAnything := True, endsWithNewline := False\<rparr>)"

definition write_newline :: "save_writer \<Rightarrow> save_writer" where
  "write_newline w =
     maybe_flush (w\<lparr>outBuffer := outBuffer w @
         (if writerEnding w = CRLF then [carriage_return, newline]
          else if writerEnding w = CR then [carriage_return] else [newline]),
       wroteAnything := True, endsWithNewline := True\<rparr>)"

definition feed_char :: "char \<Rightarrow> save_writer \<Rightarrow> save_writer" where
  "feed_char c w =
     (if \<not> writerTrim w then (if c = newline then write_newline w else write_byte c w)
      else if c = CHR '' '' \<or> c = CHR 0x09 then w\<lparr>pendingWhitespace := pendingWhitespace w @ [c]\<rparr>
      else if c = newline then
        w\<lparr>pendingWhitespace := [], pendingNewlineCount := pendingNewlineCount w + 1\<rparr>
      else
        (let w1 = (write_newline ^^ pendingNewlineCount w) w;
             w2 = fold write_byte (pendingWhitespace w) (w1\<lparr>pendingNewlineCount := 0\<rparr>)
         in write_byte c (w2\<lparr>pendingWhitespace := []\<rparr>)))"

definition feed_chunk :: "bytes \<Rightarrow> save_writer \<Rightarrow> save_writer" where
  "feed_chunk = fold feed_char"

definition finish_writer :: "save_writer \<Rightarrow> save_writer" where
  "finish_writer w =
     flush_buffer (if writerFinalNewline w \<and> wroteAnything w \<and> \<not> endsWithNewline w then write_newline w else w)"

section \<open>Writing the content\<close>

definition kWriteChunkBytes :: nat where "kWriteChunkBytes = 256 * 1024"

text \<open>The loop over the content's pieces, \<open>written\<close> bytes of it handed on so far.\<close>

function write_chunks :: "bytes \<Rightarrow> nat \<Rightarrow> encoding_sink \<times> nat list \<Rightarrow> encoding_sink \<times> nat list" where
  "write_chunks content off (s, reports) =
     (if off < length content then
        let n = min kWriteChunkBytes (length content - off)
        in write_chunks content (off + kWriteChunkBytes)
             (sink_write (substr content off n) s, reports @ [off + n])
      else (s, reports))"
  by pat_completeness auto
termination by (relation "measure (\<lambda>(content, off, _). length content - off)") (auto simp: kWriteChunkBytes_def)

declare write_chunks.simps [simp del]

text \<open>The three transformations of an ordinary save, in their order.\<close>

definition save_text :: "bool \<Rightarrow> nat list \<Rightarrow> bool \<Rightarrow> line_ending \<Rightarrow> bytes \<Rightarrow> bytes" where
  "save_text trim keep final ending s =
     (let trimmed = (if trim then trim_trailing_whitespace s keep else s);
          ended = (if final then ensure_trailing_newline trimmed else trimmed)
      in if ending \<noteq> LF then apply_line_ending ended ending else ended)"

definition write_buffer_content ::
  "('h, 't) text_storage_class \<Rightarrow> 'h \<Rightarrow> 't save_plan \<Rightarrow> encoding_sink \<Rightarrow> encoding_sink \<times> nat list" where
  "write_buffer_content cls h plan s =
     (if m_is_huge cls (planSnapshot plan) then
        let w = finish_writer (fold feed_chunk (m_for_each_chunk cls h (planSnapshot plan))
                  (new_writer s (planLineEnding plan) (planTrim plan) (planFinalNewline plan)))
        in (writerSink w, progress w)
      else write_chunks (save_text (planTrim plan) (planKeep plan) (planFinalNewline plan) (planLineEnding plan)
             (m_to_string cls h (planSnapshot plan))) 0 (s, []))"

definition write_plan_content ::
  "('h, 't) text_storage_class \<Rightarrow> 'h \<Rightarrow> 't save_plan \<Rightarrow> ostream \<Rightarrow> ostream" where
  "write_plan_content cls h plan f =
     (let sink = new_sink (stream_write (charset_preamble (planCharset plan)) f) (planCharset plan)
      in sinkFile (sink_finish (fst (write_buffer_content cls h plan sink))))"

datatype save_error = CannotHold charset nat nat | CannotEncode

text \<open>\<open>ValidateSavePlanCharset\<close>; the line and the column count from one.\<close>

definition validate_save_plan_charset ::
  "('h, 't) text_storage_class \<Rightarrow> 'h \<Rightarrow> 't save_plan \<Rightarrow> save_error option" where
  "validate_save_plan_charset cls h plan =
     (if is_utf8_family (planCharset plan) then None
      else let st = planSnapshot plan;
               (encodable, e, discard) = encoder_feeds (new_encoder (planCharset plan)) (m_for_each_chunk cls h st)
        in if encodable \<and> encoder_finish e then None
           else let off = failed_at e;
                    line = m_byte_offset_to_line cls h st off;
                    before = m_substring cls h st (m_line_to_byte_offset cls h st line)
                      (off - m_line_to_byte_offset cls h st line);
                    column = count_if (\<lambda>c. \<not> is_continuation_byte c) before
             in Some (CannotHold (planCharset plan) (line + 1) (column + 1)))"

definition encode_save_plan :: "('h, 't) text_storage_class \<Rightarrow> 'h \<Rightarrow> 't save_plan \<Rightarrow> save_error + bytes" where
  "encode_save_plan cls h plan =
     (case validate_save_plan_charset cls h plan of
        Some e \<Rightarrow> Inl e
      | None \<Rightarrow> (let out = write_plan_content cls h plan \<lparr>streamBytes = [], failbit = False\<rparr>
                in if failbit out then Inl CannotEncode else Inr (streamBytes out)))"

section \<open>Characters one by one\<close>

text \<open>A text is encodable when no character of it is refused and none is cut off at the end.\<close>

definition encodable :: "charset \<Rightarrow> bytes \<Rightarrow> bool" where
  "encodable c s \<longleftrightarrow> is_utf8_family c \<or> (\<exists>out n. encode_chars c s = (out, n, Some []))"

definition encoded :: "charset \<Rightarrow> bytes \<Rightarrow> bytes" where
  "encoded c s = (if is_utf8_family c then s else fst (encode_chars c s))"

lemma encode_charset_iff: "encode_charset s c = (if encodable c s then Some (encoded c s) else None)"
  by (auto simp: encode_charset_def encodable_def encoded_def encoder_feed_def new_encoder_def encoder_finish_def
      Let_def split: prod.splits option.splits)

lemma encodable_Nil [simp]: "encodable c []"
  by (simp add: encodable_def encode_chars.simps)

definition ascii :: "char \<Rightarrow> bool" where
  "ascii x \<longleftrightarrow> u8 x < 0x80"

lemma ascii_simps [simp]: "ascii newline" "ascii carriage_return" "ascii (CHR '' '')" "ascii (CHR 0x09)"
  by (simp_all add: ascii_def)

lemma ascii_blank: "is_blank_char x \<Longrightarrow> ascii x"
  by (auto simp: is_blank_char_def)

lemma ascii_not_continuation: "ascii x \<Longrightarrow> \<not> is_continuation_byte x"
  unfolding ascii_def is_continuation_byte_def by (metis word_and_le2 not_le)

lemma ascii_sequence: "ascii x \<Longrightarrow> sequence_length (u8 x) = 1"
  by (simp add: ascii_def sequence_length_def)

lemma ascii_unit:
  assumes "ascii x"
  shows "\<exists>unit. decode_sequence [x] \<bind> encode_scalar c = Some unit"
proof -
  have "unat (ucast (u8 x) :: char32) = unat (u8 x)"
    by (simp add: unsigned_ucast_eq take_bit_nat_eq_self less_trans [of _ 256])
  then have "\<not> 0xFF < (ucast (u8 x) :: char32)"
    using assms by (simp add: ascii_def word_less_nat_alt)
  then show ?thesis by (simp add: encode_scalar_def)
qed

lemma decode_sequence_tail: "decode_sequence bs = Some cp \<Longrightarrow> 0 < i \<Longrightarrow> i < length bs \<Longrightarrow> is_continuation_byte (bs ! i)"
  by (cases bs rule: decode_sequence.cases)
    (auto simp: nth_Cons Let_def split: if_splits nat.splits)

lemma encodable_step:
  assumes "\<not> is_utf8_family c" "s \<noteq> []"
  defines "len \<equiv> sequence_length (u8 (hd s))"
  shows "encodable c s \<longleftrightarrow> 0 < len \<and> len \<le> length s \<and>
    (\<exists>unit. decode_sequence (take len s) \<bind> encode_scalar c = Some unit) \<and> encodable c (drop len s)"
  unfolding encodable_def len_def using assms(1,2)
  by (subst encode_chars.simps) (auto simp: Let_def split: option.splits prod.splits)

lemma encodable_ascii:
  assumes x: "ascii x"
  shows "encodable c (a @ x # b) \<longleftrightarrow> encodable c a \<and> encodable c b"
proof (cases "is_utf8_family c")
  case True
  then show ?thesis by (simp add: encodable_def)
next
  case False
  note step = encodable_step [OF False]
  show ?thesis
  proof (induction a rule: length_induct)
    case (1 a)
    show ?case
    proof (cases a)
      case Nil
      then show ?thesis using step [of "x # b"] ascii_sequence [OF x] ascii_unit [OF x] by simp
    next
      case (Cons y a')
      let ?len = "sequence_length (u8 y)"
      consider "?len = 0" | "0 < ?len" "?len \<le> length a" | "length a < ?len" by linarith
      then show ?thesis
      proof cases
        case 1
        then show ?thesis using step [of "a @ x # b"] step [of a] Cons by simp
      next
        case 2
        then have cut: "take ?len (a @ x # b) = take ?len a" "drop ?len (a @ x # b) = drop ?len a @ x # b" by simp_all
        have "encodable c (drop ?len a @ x # b) \<longleftrightarrow> encodable c (drop ?len a) \<and> encodable c b"
          using "1.IH" 2 Cons by simp
        moreover have "hd (a @ x # b) = y" "hd a = y" "a \<noteq> []" using Cons by simp_all
        ultimately show ?thesis using step [of "a @ x # b"] step [of a] 2 cut by auto
      next
        case 3
        have "\<not> encodable c (a @ x # b)"
        proof
          assume "encodable c (a @ x # b)"
          then have len: "?len \<le> length (a @ x # b)"
            and "decode_sequence (take ?len (a @ x # b)) \<noteq> None"
            using step [of "a @ x # b"] Cons by (auto simp: bind_eq_Some_conv)
          then obtain cp where "decode_sequence (take ?len (a @ x # b)) = Some cp" by auto
          then have "is_continuation_byte (take ?len (a @ x # b) ! length a)"
            by (rule decode_sequence_tail) (use 3 len Cons in auto)
          then show False using 3 ascii_not_continuation [OF x] by (simp add: nth_append)
        qed
        moreover have "\<not> encodable c a" using step [of a] Cons 3 by simp
        ultimately show ?thesis by simp
      qed
    qed
  qed
qed

text \<open>None of the three transformations takes a character apart.\<close>

lemma encodable_snoc: "ascii x \<Longrightarrow> encodable c (a @ [x]) \<longleftrightarrow> encodable c a"
  using encodable_ascii [of x c a "[]"] by simp

lemma encodable_ascii_list: "list_all ascii ws \<Longrightarrow> encodable c (a @ ws) \<longleftrightarrow> encodable c a"
  by (induction ws rule: rev_induct) (simp_all add: encodable_snoc flip: append_assoc)

lemma encodable_join: "ls \<noteq> [] \<Longrightarrow> encodable c (join_lines ls) \<longleftrightarrow> list_all (encodable c) ls"
proof (induction ls rule: join_lines.induct)
  case (3 l m ls)
  then show ?case by (simp add: encodable_ascii)
qed simp_all

lemma encodable_strip: "encodable c (strip_line_end l) \<longleftrightarrow> encodable c l"
proof -
  have "l = strip_line_end l @ rev (takeWhile is_blank_char (rev l))"
    by (metis strip_line_end_eq rev_append rev_rev_ident takeWhile_dropWhile_id)
  moreover have "list_all ascii (rev (takeWhile is_blank_char (rev l)))"
    by (auto simp: list_all_iff ascii_blank dest: set_takeWhileD)
  ultimately show ?thesis by (metis encodable_ascii_list)
qed

lemma encodable_fix_lines: "list_all (encodable c) (fix_lines keep n ls) \<longleftrightarrow> list_all (encodable c) ls"
  by (induction keep n ls rule: fix_lines.induct) (simp_all add: fix_line_def encodable_strip)

lemma encodable_trim:
  assumes "encodable c s"
  shows "encodable c (trim_trailing_whitespace s keep)"
proof -
  let ?F = "fix_lines keep 0 (lines_of s)"
  have "list_all (encodable c) ?F"
    using assms encodable_join [of "lines_of s" c] by (simp add: encodable_fix_lines)
  moreover obtain n where n: "0 < n" "n \<le> length ?F" "lines_of (trim_trailing_whitespace s keep) = take n ?F"
    using trim_takes_lines [OF refl refl, of keep s] by auto
  ultimately have "list_all (encodable c) (take n ?F)" by (auto simp: list_all_iff dest: in_set_takeD)
  then show ?thesis
    using n encodable_join [of "take n ?F" c] by (metis join_lines_of lines_of_nonempty)
qed

lemma encodable_ensure: "encodable c (ensure_trailing_newline s) \<longleftrightarrow> encodable c s"
  by (simp add: ensure_trailing_newline_def encodable_snoc)

lemma append_ending_append: "append_line_ending t (a @ b) = append_line_ending t a @ append_line_ending t b"
  by (induction a) simp_all

lemma append_ending_no_newline: "newline \<notin> set a \<Longrightarrow> append_line_ending t a = a"
  by (induction a) auto

lemma encodable_ascii_mid:
  "list_all ascii t \<Longrightarrow> t \<noteq> [] \<Longrightarrow> encodable c (a @ t @ b) \<longleftrightarrow> encodable c a \<and> encodable c b"
proof (induction t arbitrary: a)
  case (Cons x t)
  then show ?case using encodable_ascii [of x c a "t @ b"] Cons.IH [of "[]"] by (cases "t = []") auto
qed simp

lemma encodable_ending:
  assumes "encodable c s" "list_all ascii t" "t \<noteq> []"
  shows "encodable c (append_line_ending t s)"
proof -
  have "encodable c (append_line_ending t (join_lines ls))"
    if "list_all (encodable c) ls" "list_all (\<lambda>l. newline \<notin> set l) ls" for ls
    using that
    by (induction ls rule: join_lines.induct)
      (simp_all add: append_ending_no_newline append_ending_append encodable_ascii_mid assms(2,3))
  from this [of "lines_of s"] show ?thesis
    using assms(1) encodable_join [of "lines_of s" c] lines_of_no_newline [of s] by simp
qed

lemma encodable_save_text: "encodable c s \<Longrightarrow> encodable c (save_text trim keep final ending s)"
  by (cases ending) (auto simp: save_text_def apply_line_ending_def Let_def encodable_trim encodable_ensure
      intro!: encodable_ending)

section \<open>The sink, written to in pieces\<close>

definition accepts :: "encoding_sink \<Rightarrow> bytes \<Rightarrow> bool" where
  "accepts s bs \<longleftrightarrow> \<not> failbit (sinkFile s) \<and>
     (passThrough s \<or> encoder_ok (sinkEncoder s) \<and> fst (encoder_feed (sinkEncoder s) bs))"

lemma accepts_append:
  assumes "accepts s (a @ b)"
  shows "accepts s a" "accepts (sink_write a s) b" "sink_write b (sink_write a s) = sink_write (a @ b) s"
proof -
  have "accepts s a \<and> accepts (sink_write a s) b \<and> sink_write b (sink_write a s) = sink_write (a @ b) s"
  proof (cases "passThrough s")
    case True
    then show ?thesis using assms by (simp add: accepts_def sink_write_def stream_write_def)
  next
    case False
    then have ok: "encoder_ok (sinkEncoder s)" "fst (encoder_feed (sinkEncoder s) (a @ b))" "\<not> failbit (sinkFile s)"
      using assms by (simp_all add: accepts_def)
    obtain fed e out where a: "encoder_feed (sinkEncoder s) a = (fed, e, out)" by (cases "encoder_feed (sinkEncoder s) a") auto
    obtain fed' e' out' where b: "encoder_feed e b = (fed', e', out')" by (cases "encoder_feed e b") auto
    have "fed" "fed'" using ok(2) encoder_feed_append [OF ok(1), of a b] a b
      by (auto simp: Let_def split: if_splits)
    moreover from this have "encoder_ok e" using a encoder_feed_ok [OF ok(1)] by simp
    ultimately show ?thesis
      using False ok encoder_feed_append [OF ok(1), of a b] a b
      by (simp add: accepts_def sink_write_def stream_write_def Let_def)
  qed
  then show "accepts s a" "accepts (sink_write a s) b" "sink_write b (sink_write a s) = sink_write (a @ b) s"
    by auto
qed

lemma sink_write_Nil: "accepts s [] \<Longrightarrow> sink_write [] s = s"
  by (auto simp: accepts_def sink_write_def stream_write_def encoder_feed_Nil)

lemma write_chunks_all:
  "accepts s (drop off content) \<Longrightarrow> fst (write_chunks content off (s, reports)) = sink_write (drop off content) s"
proof (induction content off "(s, reports)" arbitrary: s reports rule: write_chunks.induct)
  case (1 content off s reports)
  show ?case
  proof (cases "off < length content")
    case True
    let ?n = "min kWriteChunkBytes (length content - off)"
    have split: "drop off content = substr content off ?n @ drop (off + kWriteChunkBytes) content"
      by (simp add: substr_def min_def not_le add.commute flip: drop_drop)
    have acc: "accepts s (substr content off ?n @ drop (off + kWriteChunkBytes) content)"
      using 1(2) split by simp
    have "accepts (sink_write (substr content off ?n) s) (drop (off + kWriteChunkBytes) content)"
      by (rule accepts_append(2) [OF acc])
    then show ?thesis
      using True 1(1) [OF True refl] accepts_append(3) [OF acc] split
      by (subst write_chunks.simps) (simp add: Let_def)
  next
    case False
    then show ?thesis using 1(2) by (subst write_chunks.simps) (simp add: sink_write_Nil)
  qed
qed

section \<open>The streaming writer writes the transformed text\<close>

text \<open>The raw bytes that went to the sink or wait in the buffer.\<close>

definition emitted :: "encoding_sink \<Rightarrow> save_writer \<Rightarrow> bytes \<Rightarrow> bool" where
  "emitted s0 w R \<longleftrightarrow> (\<exists>F. R = F @ outBuffer w \<and> (accepts s0 F \<longrightarrow> writerSink w = sink_write F s0))"

definition ending_bytes :: "line_ending \<Rightarrow> bytes" where
  "ending_bytes ending = (if ending = CRLF then [carriage_return, newline]
     else if ending = CR then [carriage_return] else [newline])"

text \<open>\<open>w\<close> has written the LF text \<open>e\<close>.\<close>

definition wrote :: "encoding_sink \<Rightarrow> line_ending \<Rightarrow> bool \<Rightarrow> bool \<Rightarrow> bytes \<Rightarrow> save_writer \<Rightarrow> bool" where
  "wrote s0 ending trim final e w \<longleftrightarrow>
     writerEnding w = ending \<and> writerTrim w = trim \<and> writerFinalNewline w = final \<and>
     wroteAnything w = (e \<noteq> []) \<and> endsWithNewline w = (e \<noteq> [] \<and> last e = newline) \<and>
     emitted s0 w (append_line_ending (ending_bytes ending) e)"

lemma emitted_flush: "emitted s0 w R \<Longrightarrow> emitted s0 (flush_buffer w) R"
  by (auto simp: emitted_def flush_buffer_def Let_def accepts_append)

lemma flush_fields [simp]:
  "writerEnding (flush_buffer w) = writerEnding w" "writerTrim (flush_buffer w) = writerTrim w"
  "writerFinalNewline (flush_buffer w) = writerFinalNewline w" "wroteAnything (flush_buffer w) = wroteAnything w"
  "endsWithNewline (flush_buffer w) = endsWithNewline w"
  by (simp_all add: flush_buffer_def Let_def)

lemma wrote_flush: "wrote s0 en t f e w \<Longrightarrow> wrote s0 en t f e (flush_buffer w)"
  by (simp add: wrote_def emitted_flush)

lemma wrote_maybe_flush: "wrote s0 en t f e w \<Longrightarrow> wrote s0 en t f e (maybe_flush w)"
  by (simp add: maybe_flush_def wrote_flush)

lemma flush_keeps [simp]:
  "pendingWhitespace (maybe_flush w) = pendingWhitespace w" "pendingNewlineCount (maybe_flush w) = pendingNewlineCount w"
  by (simp_all add: maybe_flush_def flush_buffer_def Let_def)

lemma write_keeps [simp]:
  "pendingWhitespace (write_byte c w) = pendingWhitespace w" "pendingNewlineCount (write_byte c w) = pendingNewlineCount w"
  "pendingWhitespace (write_newline w) = pendingWhitespace w" "pendingNewlineCount (write_newline w) = pendingNewlineCount w"
  by (simp_all add: write_byte_def write_newline_def)

lemma emitted_more:
  "emitted s0 w R \<Longrightarrow> emitted s0 (w\<lparr>outBuffer := outBuffer w @ x, wroteAnything := p, endsWithNewline := q\<rparr>) (R @ x)"
  by (auto simp: emitted_def)

lemma wrote_byte:
  assumes "wrote s0 en t f e w" "c \<noteq> newline"
  shows "wrote s0 en t f (e @ [c]) (write_byte c w)"
  unfolding write_byte_def
  using assms emitted_more [of s0 w "append_line_ending (ending_bytes en) e" False True "[c]"]
  by (intro wrote_maybe_flush) (simp add: wrote_def append_ending_append)

lemma wrote_newline:
  assumes "wrote s0 en t f e w"
  shows "wrote s0 en t f (e @ [newline]) (write_newline w)"
  unfolding write_newline_def
  using assms emitted_more [of s0 w "append_line_ending (ending_bytes en) e" True True "ending_bytes en"]
  by (intro wrote_maybe_flush, cases en) (simp_all add: wrote_def append_ending_append ending_bytes_def)

lemma wrote_pending [simp]:
  "wrote s0 en t f e (w\<lparr>pendingWhitespace := p\<rparr>) = wrote s0 en t f e w"
  "wrote s0 en t f e (w\<lparr>pendingNewlineCount := k\<rparr>) = wrote s0 en t f e w"
  by (simp_all add: wrote_def emitted_def)

lemma wrote_newlines:
  "wrote s0 en t f e w \<Longrightarrow> wrote s0 en t f (e @ replicate k newline) ((write_newline ^^ k) w) \<and>
     pendingWhitespace ((write_newline ^^ k) w) = pendingWhitespace w"
proof (induction k)
  case (Suc k)
  then show ?case using wrote_newline [of s0 en t f "e @ replicate k newline"]
    by (simp add: replicate_append_same)
qed simp

lemma wrote_bytes:
  "wrote s0 en t f e w \<Longrightarrow> newline \<notin> set p \<Longrightarrow> wrote s0 en t f (e @ p) (fold write_byte p w) \<and>
     pendingNewlineCount (fold write_byte p w) = pendingNewlineCount w"
proof (induction p arbitrary: e w)
  case (Cons c p)
  then have "wrote s0 en t f (e @ [c]) (write_byte c w)" by (intro wrote_byte) auto
  then show ?case using Cons.prems(2) Cons.IH [of "e @ [c]" "write_byte c w"] by simp
qed simp

lemma feeds_untrimmed:
  "wrote s0 en False f e w \<Longrightarrow> wrote s0 en False f (e @ s) (feed_chunk s w)"
  unfolding feed_chunk_def
proof (induction s arbitrary: e w)
  case (Cons c s)
  have "wrote s0 en False f (e @ [c]) (feed_char c w)"
    using Cons.prems wrote_byte [OF Cons.prems, of c] wrote_newline [OF Cons.prems]
    by (simp add: feed_char_def wrote_def)
  then show ?case using Cons.IH [of "e @ [c]"] by simp
qed simp

text \<open>Trimming while streaming: what is written and what is held back, after the text \<open>s\<close>.\<close>

definition strip_text :: "bytes \<Rightarrow> bytes" where
  "strip_text s = join_lines (map strip_line_end (lines_of s))"

definition held_blanks :: "bytes \<Rightarrow> bytes" where
  "held_blanks s = rev (takeWhile is_blank_char (rev (last (lines_of s))))"

lemma lines_of_snoc:
  "lines_of (s @ [c]) =
    (if c = newline then lines_of s @ [[]] else butlast (lines_of s) @ [last (lines_of s) @ [c]])"
proof (induction s)
  case (Cons d s)
  then show ?case by (cases "lines_of s") (auto simp: butlast_append last_append)
qed simp

lemma strip_held: "strip_line_end (last (lines_of s)) @ held_blanks s = last (lines_of s)"
  by (metis held_blanks_def strip_line_end_eq rev_append rev_rev_ident takeWhile_dropWhile_id)

lemma strip_snoc: "strip_line_end (l @ [c]) = (if is_blank_char c then strip_line_end l else l @ [c])"
  by (simp add: strip_line_end_eq)

lemma strip_text_split:
  "\<exists>pre. strip_text s = pre @ strip_line_end (last (lines_of s)) \<and>
    (\<forall>l. join_lines (map strip_line_end (butlast (lines_of s)) @ [l]) = pre @ l)"
proof -
  let ?ls = "map strip_line_end (butlast (lines_of s))"
  let ?pre = "if ?ls = [] then [] else join_lines ?ls @ [newline]"
  have all: "join_lines (?ls @ [l]) = ?pre @ l" for l by (simp add: join_lines_snoc)
  have "map strip_line_end (lines_of s) = ?ls @ [strip_line_end (last (lines_of s))]"
    by (metis append_butlast_last_id lines_of_nonempty list.simps(8,9) map_append)
  with all show ?thesis by (metis strip_text_def)
qed

lemma strip_text_snoc:
  "strip_text (s @ [c]) =
    (if c = newline then strip_text s @ [newline] else if is_blank_char c then strip_text s
     else strip_text s @ held_blanks s @ [c])"
proof -
  obtain pre where pre: "strip_text s = pre @ strip_line_end (last (lines_of s))"
    "\<And>l. join_lines (map strip_line_end (butlast (lines_of s)) @ [l]) = pre @ l"
    using strip_text_split by blast
  show ?thesis
  proof (cases "c = newline")
    case True
    then show ?thesis by (simp add: strip_text_def lines_of_snoc join_lines_snoc strip_line_end_eq)
  next
    case False
    then have "strip_text (s @ [c]) = pre @ strip_line_end (last (lines_of s) @ [c])"
      by (simp add: strip_text_def lines_of_snoc pre(2) [symmetric])
    moreover have "last (lines_of s) = strip_line_end (last (lines_of s)) @ held_blanks s"
      by (simp add: strip_held)
    ultimately show ?thesis using False pre(1) by (simp add: strip_snoc)
  qed
qed

lemma held_blanks_snoc:
  "held_blanks (s @ [c]) = (if is_blank_char c then held_blanks s @ [c] else [])"
  by (auto simp: held_blanks_def lines_of_snoc is_blank_char_def)

definition trimmed_so_far :: "encoding_sink \<Rightarrow> line_ending \<Rightarrow> bool \<Rightarrow> bytes \<Rightarrow> save_writer \<Rightarrow> bool" where
  "trimmed_so_far s0 en f s w \<longleftrightarrow> (\<exists>e. wrote s0 en True f e w \<and>
     pendingWhitespace w = held_blanks s \<and> (e = [] \<or> last e \<noteq> newline) \<and>
     strip_text s = e @ replicate (pendingNewlineCount w) newline)"

lemma feed_trimmed:
  assumes "trimmed_so_far s0 en f s w"
  shows "trimmed_so_far s0 en f (s @ [c]) (feed_char c w)"
proof -
  obtain e where e: "wrote s0 en True f e w" "pendingWhitespace w = held_blanks s" "e = [] \<or> last e \<noteq> newline"
    "strip_text s = e @ replicate (pendingNewlineCount w) newline"
    using assms by (auto simp: trimmed_so_far_def)
  have trim: "writerTrim w" using e(1) by (simp add: wrote_def)
  consider "is_blank_char c" "c \<noteq> newline" | "c = newline" "\<not> is_blank_char c" | "c \<noteq> newline" "\<not> is_blank_char c"
    by (auto simp: is_blank_char_def)
  then show ?thesis
  proof cases
    case 1
    then show ?thesis using e trim
      by (auto simp: trimmed_so_far_def feed_char_def strip_text_snoc held_blanks_snoc is_blank_char_def intro!: exI [of _ e])
  next
    case 2
    then show ?thesis using e trim
      by (auto simp: trimmed_so_far_def feed_char_def strip_text_snoc held_blanks_snoc is_blank_char_def
          replicate_append_same intro!: exI [of _ e])
  next
    case 3
    let ?w1 = "(write_newline ^^ pendingNewlineCount w) w"
    let ?w2 = "fold write_byte (pendingWhitespace w) (?w1\<lparr>pendingNewlineCount := 0\<rparr>)"
    have "newline \<notin> set (held_blanks s)"
      by (auto simp: held_blanks_def is_blank_char_def dest: set_takeWhileD)
    moreover have "wrote s0 en True f (strip_text s) ?w1" using wrote_newlines [OF e(1)] e(4) by simp
    ultimately have w2: "wrote s0 en True f (strip_text s @ held_blanks s) ?w2 \<and> pendingNewlineCount ?w2 = 0"
      using wrote_bytes [of s0 en True f "strip_text s" "?w1\<lparr>pendingNewlineCount := 0\<rparr>" "held_blanks s"] e(2) by simp
    have "wrote s0 en True f ((strip_text s @ held_blanks s) @ [c]) (write_byte c (?w2\<lparr>pendingWhitespace := []\<rparr>))"
      using w2 3 by (intro wrote_byte) simp_all
    moreover have "feed_char c w = write_byte c (?w2\<lparr>pendingWhitespace := []\<rparr>)"
      using 3 trim by (auto simp: feed_char_def is_blank_char_def Let_def)
    ultimately show ?thesis using 3 w2
      by (auto simp: trimmed_so_far_def strip_text_snoc held_blanks_snoc
          intro!: exI [of _ "strip_text s @ held_blanks s @ [c]"])
  qed
qed

lemma feeds_trimmed:
  "trimmed_so_far s0 en f s w \<Longrightarrow> trimmed_so_far s0 en f (s @ s') (feed_chunk s' w)"
  unfolding feed_chunk_def
proof (induction s' arbitrary: s w)
  case (Cons c s')
  then show ?case using feed_trimmed [OF Cons.prems, of c] Cons.IH [of "s @ [c]" "feed_char c w"] by simp
qed simp

lemma trim_strip_text:
  assumes "strip_text s = e @ replicate k newline" "e = [] \<or> last e \<noteq> newline"
  shows "trim_trailing_whitespace s [] = e"
proof -
  have nokeep: "\<not> binary_search [] n" for n by (simp add: binary_search_def)
  have fixed: "fix_lines [] n ls = map strip_line_end ls" for n ls
    by (induction "[] :: nat list" n ls rule: fix_lines.induct) (simp_all add: fix_line_def nokeep)
  have kept: "kept_count [] 0 (lines_of s) = 0"
    using kept_count_last [of "[]" 0 "lines_of s"] nokeep by (cases "kept_count [] 0 (lines_of s)") auto
  have "dropWhile (\<lambda>c. c = newline) (rev e) = rev e" using assms(2) by (cases e rule: rev_cases) auto
  moreover have "dropWhile (\<lambda>c. c = newline) (replicate k newline @ x) = dropWhile (\<lambda>c. c = newline) x" for x
    by (induction k) auto
  ultimately have e: "rev (dropWhile (\<lambda>c. c = newline) (rev (e @ replicate k newline))) = e" by simp
  show ?thesis
  proof (cases "s = []")
    case True
    then show ?thesis using assms by (simp add: trim_trailing_whitespace_def strip_text_def strip_line_end_eq)
  next
    case False
    have "trim_loop [] s [] 0 ([], 0) = (strip_text s, 0)"
      using trim_lines_result [of "lines_of s" "[]" 0 "[]" 0]
      by (simp add: trim_loop_lines kept fixed strip_text_def lines_prefix_def)
    then show ?thesis
      using False pop_newlines_append [of "[]" "strip_text s"] assms(1) e
      by (simp add: trim_trailing_whitespace_def)
  qed
qed

lemma save_text_ending:
  "save_text t keep f en s =
    append_line_ending (ending_bytes en)
      (let trimmed = (if t then trim_trailing_whitespace s keep else s)
       in if f then ensure_trailing_newline trimmed else trimmed)"
proof -
  have "append_line_ending [newline] x = x" for x by (induction x) auto
  then show ?thesis by (cases en) (simp_all add: save_text_def apply_line_ending_def ending_bytes_def Let_def)
qed

lemma finish_written:
  assumes "wrote s0 en t f e w"
    and "accepts s0 (append_line_ending (ending_bytes en) (if f then ensure_trailing_newline e else e))"
  shows "writerSink (finish_writer w) =
    sink_write (append_line_ending (ending_bytes en) (if f then ensure_trailing_newline e else e)) s0"
proof -
  let ?w = "if writerFinalNewline w \<and> wroteAnything w \<and> \<not> endsWithNewline w then write_newline w else w"
  let ?e = "if f then ensure_trailing_newline e else e"
  have "wrote s0 en t f ?e ?w"
  proof (cases "f \<and> e \<noteq> [] \<and> last e \<noteq> newline")
    case True
    then have "?w = write_newline w" "?e = e @ [newline]"
      using assms(1) by (simp_all add: wrote_def ensure_trailing_newline_def)
    then show ?thesis using wrote_newline [OF assms(1)] by simp
  next
    case False
    then have "?w = w" "?e = e" using assms(1) by (auto simp: wrote_def ensure_trailing_newline_def)
    then show ?thesis using assms(1) by simp
  qed
  then have "emitted s0 (flush_buffer ?w) (append_line_ending (ending_bytes en) ?e)"
    using wrote_flush [of s0 en t f ?e ?w] unfolding wrote_def by simp
  moreover have "outBuffer (flush_buffer ?w) = []" by (simp add: flush_buffer_def Let_def)
  ultimately show ?thesis using assms(2) by (simp add: emitted_def finish_writer_def)
qed

lemma feed_chunks: "fold feed_chunk cs w = feed_chunk (concat cs) w"
  by (induction cs arbitrary: w) (simp_all add: feed_chunk_def)

lemma wrote_new: "wrote s0 en t f [] (new_writer s0 en t f)"
  by (simp add: wrote_def emitted_def new_writer_def sink_write_Nil)

lemma streamed:
  assumes "accepts s0 (save_text t [] f en s)"
  shows "writerSink (finish_writer (feed_chunk s (new_writer s0 en t f))) = sink_write (save_text t [] f en s) s0"
proof -
  let ?w = "feed_chunk s (new_writer s0 en t f)"
  have "wrote s0 en t f (if t then trim_trailing_whitespace s [] else s) ?w"
  proof (cases t)
    case True
    have "strip_text [] = []" "held_blanks [] = []" "pendingWhitespace (new_writer s0 en t f) = []"
      "pendingNewlineCount (new_writer s0 en t f) = 0"
      by (simp_all add: strip_text_def held_blanks_def strip_line_end_eq new_writer_def)
    then have "trimmed_so_far s0 en f [] (new_writer s0 en t f)"
      using True wrote_new [of s0 en t f] unfolding trimmed_so_far_def by (intro exI [of _ "[]"]) simp
    from feeds_trimmed [OF this, of s] obtain e where "wrote s0 en True f e ?w" "e = [] \<or> last e \<noteq> newline"
      "strip_text s = e @ replicate (pendingNewlineCount ?w) newline"
      unfolding trimmed_so_far_def by auto
    then show ?thesis using True trim_strip_text [of s e] by simp
  next
    case False
    then show ?thesis using feeds_untrimmed [of s0 en f "[]" _ s] wrote_new [of s0 en t f] by simp
  qed
  from finish_written [OF this] show ?thesis using assms by (simp add: save_text_ending Let_def)
qed

section \<open>What a plan writes\<close>

context text_storage
begin

lemma content_written:
  assumes "ok h (planSnapshot plan)"
  defines "t \<equiv> save_text (planTrim plan) (if m_is_huge cls (planSnapshot plan) then [] else planKeep plan)
      (planFinalNewline plan) (planLineEnding plan) (content h (planSnapshot plan))"
  assumes "accepts s t"
  shows "fst (write_buffer_content cls h plan s) = sink_write t s"
  using assms reads_back [OF assms(1)] write_chunks_all [of s 0 t "[]"] streamed [of s]
  by (auto simp: write_buffer_content_def feed_chunks Let_def)

end

lemma encode_chars_prefix:
  "encode_chars c s = (out, n, r) \<Longrightarrow> n \<le> length s \<and> encode_chars c (take n s) = (out, n, Some [])"
proof (induction c s arbitrary: out n rule: encode_chars.induct)
  case (1 c s)
  let ?len = "sequence_length (u8 (hd s))"
  show ?case
  proof (cases "s \<noteq> [] \<and> 0 < ?len \<and> ?len \<le> length s \<and> decode_sequence (take ?len s) \<bind> encode_scalar c \<noteq> None")
    case True
    then obtain unit where ne: "s \<noteq> []" and len: "0 < ?len" "?len \<le> length s"
      and u: "decode_sequence (take ?len s) \<bind> encode_scalar c = Some unit" by auto
    have eq: "encode_chars c s = (let (out, n, r) = encode_chars c (drop ?len s) in (unit @ out, ?len + n, r))"
      using ne len u by (subst encode_chars.simps) (simp add: Let_def)
    then obtain out' n' where l: "encode_chars c (drop ?len s) = (out', n', r)" and n: "n = ?len + n'" "out = unit @ out'"
      using 1(2) by (auto simp: Let_def split: prod.splits)
    have IH: "n' \<le> length (drop ?len s)" "encode_chars c (take n' (drop ?len s)) = (out', n', Some [])"
      using 1(1) [OF ne refl _ _ u l] len by auto
    have "take n s \<noteq> []" "hd (take n s) = hd s" "?len \<le> length (take n s)" "take ?len (take n s) = take ?len s"
      "drop ?len (take n s) = take n' (drop ?len s)"
      using ne len n by (simp_all add: drop_take hd_take)
    then have "encode_chars c (take n s) = (out, n, Some [])"
      using len u IH n by (subst encode_chars.simps) (simp add: Let_def)
    then show ?thesis using IH n len by simp
  next
    case False
    then have "fst (encode_chars c s) = []" "fst (snd (encode_chars c s)) = 0"
      by (subst encode_chars.simps, auto simp: Let_def)+
    then have "n = 0" "out = []" using 1(2) by simp_all
    then show ?thesis by (simp add: encode_chars.simps)
  qed
qed

text \<open>
  Where the encoder stopped: everything before is encodable, no longer prefix is.
\<close>

definition stops_at :: "charset \<Rightarrow> bytes \<Rightarrow> offset \<Rightarrow> bool" where
  "stops_at c s off \<longleftrightarrow> off \<le> length s \<and> encode_charset (take off s) c \<noteq> None \<and>
     (\<forall>p. off < p \<longrightarrow> p \<le> length s \<longrightarrow> encode_charset (take p s) c = None)"

lemma encoder_stops:
  assumes "\<not> is_utf8_family c" "encoder_feed (new_encoder c) s = (ok, e, out)"
  shows "stops_at c s (failed_at e) \<and>
    (ok \<and> encoder_finish e \<longleftrightarrow> encodable c s) \<and> (ok \<longrightarrow> consumed e = length s)"
proof -
  obtain out' n r where l: "encode_chars c s = (out', n, r)" by (cases "encode_chars c s") auto
  have n: "failed_at e = n" "ok = (r \<noteq> None)" "r = Some [] \<longleftrightarrow> ok \<and> encoder_finish e" "ok \<longrightarrow> consumed e = length s"
    using assms l encode_chars_taken [of c s out' n]
    by (auto simp: encoder_feed_def new_encoder_def failed_at_def encoder_finish_def split: option.splits)
  have "\<not> encodable c (take p s)" if "n < p" "p \<le> length s" for p
  proof
    assume "encodable c (take p s)"
    then obtain o' n' where t: "encode_chars c (take p s) = (o', n', Some [])"
      using assms(1) by (auto simp: encodable_def)
    then have "n' = p" using encode_chars_taken [OF t] that(2) by simp
    then have "p \<le> n" using encode_chars_append [of c "take p s" "drop p s"] t l by (auto simp: Let_def split: prod.splits)
    with that(1) show False by simp
  qed
  moreover have "n \<le> length s" "encodable c (take n s)"
    using encode_chars_prefix [OF l] by (auto simp: encodable_def)
  ultimately show ?thesis using n l assms(1)
    by (auto simp: stops_at_def encode_charset_iff encodable_def split: if_splits)
qed

context text_storage
begin

lemma count_if_codepoints: "count_if (\<lambda>c. \<not> is_continuation_byte c) s = count_codepoints s"
  by (induction s) simp_all

lemma plan_refused:
  assumes "ok h (planSnapshot plan)" "\<not> encodable (planCharset plan) (content h (planSnapshot plan))"
  defines "s \<equiv> content h (planSnapshot plan)"
  shows "\<exists>off. stops_at (planCharset plan) s off \<and> encode_save_plan cls h plan =
    Inl (CannotHold (planCharset plan) (count_newlines (take off s) + 1)
      (count_codepoints (drop (line_start s (count_newlines (take off s))) (take off s)) + 1))"
proof -
  let ?c = "planCharset plan"
  have c: "\<not> is_utf8_family ?c" using assms(2) by (auto simp: encodable_def)
  obtain fed e out where f: "encoder_feed (new_encoder ?c) s = (fed, e, out)" by (cases "encoder_feed (new_encoder ?c) s") auto
  have feeds: "encoder_feeds (new_encoder ?c) (m_for_each_chunk cls h (planSnapshot plan)) = (fed, e, out)"
    using f reads_back [OF assms(1)] by (simp add: encoder_feeds_concat s_def)
  have "stops_at ?c s (failed_at e)" "\<not> (fed \<and> encoder_finish e)"
    using encoder_stops [OF c f] assms(2) by (auto simp: s_def)
  then show ?thesis
    using c feeds reads_back [OF assms(1)] lines [OF assms(1)]
    by (intro exI [of _ "failed_at e"])
      (auto simp: encode_save_plan_def validate_save_plan_charset_def Let_def s_def substr_def count_if_codepoints drop_take)
qed

lemma plan_written:
  assumes "ok h (planSnapshot plan)" "encodable (planCharset plan) (content h (planSnapshot plan))"
  defines "t \<equiv> save_text (planTrim plan) (if m_is_huge cls (planSnapshot plan) then [] else planKeep plan)
      (planFinalNewline plan) (planLineEnding plan) (content h (planSnapshot plan))"
  shows "encode_save_plan cls h plan = Inr (charset_preamble (planCharset plan) @ encoded (planCharset plan) t)"
    and "encodable (planCharset plan) t"
proof -
  let ?c = "planCharset plan" and ?s = "content h (planSnapshot plan)"
  let ?f = "\<lparr>streamBytes = charset_preamble (planCharset plan), failbit = False\<rparr>"
  show t: "encodable ?c t" unfolding t_def by (rule encodable_save_text [OF assms(2)])
  obtain fed e out where f: "encoder_feed (new_encoder ?c) t = (fed, e, out)" by (cases "encoder_feed (new_encoder ?c) t") auto
  have fed: "fed" "encoder_finish e" "out = encoded ?c t"
    using f t encoder_stops [OF _ f]
    by (auto simp: encoder_feed_def new_encoder_def encoded_def encodable_def encoder_finish_def
        split: if_splits option.splits)
  have acc: "accepts (new_sink ?f ?c) t" using f fed by (simp add: accepts_def new_sink_def)
  have "validate_save_plan_charset cls h plan = None"
  proof (cases "is_utf8_family ?c")
    case False
    obtain fed e out where g: "encoder_feed (new_encoder ?c) ?s = (fed, e, out)"
      by (cases "encoder_feed (new_encoder ?c) ?s") auto
    then have "encoder_feeds (new_encoder ?c) (m_for_each_chunk cls h (planSnapshot plan)) = (fed, e, out)"
      using reads_back [OF assms(1)] by (simp add: encoder_feeds_concat)
    then show ?thesis
      using encoder_stops [OF False g] assms(2) by (simp add: validate_save_plan_charset_def Let_def)
  qed (simp add: validate_save_plan_charset_def)
  moreover have "sinkFile (sink_finish (sink_write t (new_sink ?f ?c))) =
      \<lparr>streamBytes = charset_preamble ?c @ encoded ?c t, failbit = False\<rparr>"
  proof (cases "is_utf8_family ?c")
    case True
    then show ?thesis
      by (simp add: sink_finish_def sink_write_def new_sink_def stream_write_def encoded_def encoder_finish_def
          new_encoder_def)
  next
    case False
    then show ?thesis using f fed
      by (simp add: sink_finish_def sink_write_def new_sink_def stream_write_def)
  qed
  ultimately show "encode_save_plan cls h plan = Inr (charset_preamble ?c @ encoded ?c t)"
    using content_written [OF assms(1) acc [unfolded t_def]]
    by (simp add: encode_save_plan_def write_plan_content_def Let_def stream_write_def t_def)
qed

end

section \<open>The property\<close>

text \<open>
  C7: a save writes the charset's preamble and the encoding of the transformed text: trailing
  blanks and blank lines off, the final newline on, the line ending put in, in that order.  A
  huge buffer, which is streamed through the writer and never held whole, writes the very
  bytes an ordinary one does, wherever its storage cuts its chunks (only the kept lines are
  ignored there).  A save is refused exactly when the buffer's text has a character the
  charset cannot hold, before anything is written, and the message names the line and the
  column of the first such character; once accepted, the write itself cannot fail.
\<close>

theorem save_plan_writes:
  assumes "st_ok h (planSnapshot plan)"
  shows "let c = planCharset plan;
             s = st_to_string h (planSnapshot plan);
             keep = (if m_is_huge storage_class (planSnapshot plan) then [] else planKeep plan);
             t = save_text (planTrim plan) keep (planFinalNewline plan) (planLineEnding plan) s
         in if encode_charset s c = None
            then \<exists>off. stops_at c s off \<and> encode_save_plan storage_class h plan =
                Inl (CannotHold c (count_newlines (take off s) + 1)
                  (count_codepoints (drop (line_start s (count_newlines (take off s))) (take off s)) + 1))
            else \<exists>bs. encode_charset t c = Some bs \<and>
                encode_save_plan storage_class h plan = Inr (charset_preamble c @ bs)"
  using any_class.plan_refused [OF assms] any_class.plan_written [OF assms] any_class.reads_back [OF assms]
  by (auto simp: Let_def encode_charset_iff)

theorem save_plan_writes_witness:
  "encode_save_plan storage_class []
     \<lparr>planTarget = [], planSnapshot = RopeStorage (rope_make_leaf ''a ''), planLineEnding = CRLF, planTrim = True,
      planKeep = [], planFinalNewline = True, planCharset = Latin1\<rparr> = Inr [CHR ''a'', carriage_return, newline]"
proof -
  let ?p = "\<lparr>planTarget = [], planSnapshot = RopeStorage (rope_make_leaf ''a ''), planLineEnding = CRLF, planTrim = True,
      planKeep = [], planFinalNewline = True, planCharset = Latin1\<rparr>"
  have s: "st_to_string [] (RopeStorage (rope_make_leaf ''a '')) = ''a ''" by code_simp
  have t: "save_text True [] True CRLF ''a '' = [CHR ''a'', carriage_return, newline]"
    and e: "encode_charset ''a '' Latin1 = Some ''a ''"
    and u: "encode_charset [CHR ''a'', carriage_return, newline] Latin1 = Some [CHR ''a'', carriage_return, newline]"
    by code_simp+
  have "st_ok [] (planSnapshot ?p)" by (simp add: rope_make_leaf_def)
  moreover have "\<not> m_is_huge storage_class (planSnapshot ?p)" by (simp add: storage_class_defs)
  ultimately show ?thesis using save_plan_writes [of "[]" ?p] by (simp add: s t e u Let_def)
qed

end
