(* ===== verification/Buffer.thy ===== *)
theory Buffer
  imports BufferState Grapheme OffsetRemap AnchorSet UndoTree LineEnding Charset RemoteFile SavePlan
begin

text \<open>
  \<open>Source/Text/Buffer.h\<close> and \<open>Buffer.cpp\<close>: the buffer, its edits, cursors, undo groups and
  undo navigation.

  A buffer extends \<open>tracked\<close> with the content, the undo tree, the edit journal, the anchors
  and the flags.  Its text lives in a \<open>storage\<close>, whose piece tables share buffers on the
  heap; a \<open>world\<close> is a buffer with that heap.  An operation returns the world it leaves and
  either a value or what it threw; \<open>None\<close> is a fault below it (a failed assertion, a read out
  of bounds, a chunk loop that does not end).  \<open>brk\<close> is the utf8proc break rule.
\<close>

section \<open>The state\<close>

record buffer = tracked +
  bufName :: bytes
  bufPath :: "bytes option"
  bufRemote :: "remote_file option"
  remoteTimestamp :: "int option"
  remoteChanged :: bool
  diskTimestamp :: "int option"
  bufLineEnding :: line_ending
  bufCharset :: charset
  charsetChosen :: bool
  diskCharset :: "charset option"
  bufStorage :: storage
  undoTree :: undo_tree
  undoGroupDepth :: nat
  undoGroupDirty :: bool
  canAmend :: bool
  canAmendLoadAppend :: bool
  readOnly :: bool
  readOnlyReason :: "bytes option"
  loading :: bool
  loadFailure :: "bytes option"
  savingSnapshotBytes :: nat
  likelyBinary :: bool
  binarySafetyOverride :: bool
  goalColumn :: "nat option"
  contentGeneration :: nat
  saveGeneration :: nat
  fileGeneration :: nat
  editJournal :: edit_journal
  anchorSet :: anchor_set
  excerptSnapshots :: "nat \<rightharpoonup> byte_range list"
  diagnosticsGeneration :: nat
  savedSnapshot :: storage

type_synonym world = "heap \<times> buffer"

datatype buffer_error =
    BufferReadOnly "bytes option"
  | AppendOnWritable
  | StillLoading
  | SaveInProgress
  | LooksBinary
  | DoesNotDecode
  | NoFilePath
  | NoRemoteFile
  | NotEnoughSpace bytes
  | FileError bytes
  | CannotSave save_error
  | HugeNotUtf8 charset
  | UndoListRefused undo_error
  | UndoContentDiffers

datatype 'a outcome = Done 'a | Threw buffer_error

abbreviation st_clone :: "storage \<Rightarrow> storage" where
  "st_clone \<equiv> m_clone storage_class"

abbreviation buf_length :: "buffer \<Rightarrow> nat" where
  "buf_length b \<equiv> st_byte_length (bufStorage b)"

definition new_buffer :: "bytes \<Rightarrow> rope \<Rightarrow> buffer" where
  "new_buffer nm initialContent =
     \<lparr>point = 0, mark = None, narrowedRange = None, secondaryCursors = [], addedCursorOrder = [],
      cursorIterationActive = False, foldMarkers = [], foldGeneration = 0, snippetRanges = [],
      excerptRanges = [], diagnostics = [], unsavedChangeRanges = [], unsavedChangeGeneration = 0,
      saving = False, saveInFlightRanges = [], unseenTracking = False, seenBaseline = False,
      seenByteOffset = 0, pendingSeenByte = 0, seenGeneration = 0,
      bufName = nm, bufPath = None, bufRemote = None, remoteTimestamp = None, remoteChanged = False,
      diskTimestamp = None, bufLineEnding = LF, bufCharset = Utf8,
      charsetChosen = False, diskCharset = None, bufStorage = RopeStorage initialContent,
      undoTree = undo_init (st_clone (RopeStorage initialContent)),
      undoGroupDepth = 0, undoGroupDirty = False, canAmend = False, canAmendLoadAppend = False,
      readOnly = False, readOnlyReason = None, loading = False, loadFailure = None,
      savingSnapshotBytes = 0, likelyBinary = False, binarySafetyOverride = False, goalColumn = None,
      contentGeneration = 0, saveGeneration = 0, fileGeneration = 0, editJournal = empty_journal,
      anchorSet = empty_anchor_set, excerptSnapshots = Map.empty, diagnosticsGeneration = 0,
      savedSnapshot = st_clone (RopeStorage initialContent)\<rparr>"

definition buf_text :: "heap \<Rightarrow> buffer \<Rightarrow> bytes" where
  "buf_text h b = st_to_string h (bufStorage b)"

definition modified :: "buffer \<Rightarrow> bool" where
  "modified b \<longleftrightarrow> unsavedChangeRanges b \<noteq> [] \<or>
     (buf_length b = 0 \<and> st_byte_length (savedSnapshot b) \<noteq> 0)"

definition modified_after_pending_save :: "buffer \<Rightarrow> bool" where
  "modified_after_pending_save b \<longleftrightarrow>
     (if \<not> saving b then modified b
      else saveInFlightRanges b \<noteq> [] \<or> (buf_length b = 0 \<and> savingSnapshotBytes b \<noteq> 0))"

definition set_read_only :: "bool \<Rightarrow> bytes option \<Rightarrow> buffer \<Rightarrow> buffer" where
  "set_read_only ro reason b = b\<lparr>readOnly := ro, readOnlyReason := reason\<rparr>"

definition binary_safeguards_active :: "buffer \<Rightarrow> bool" where
  "binary_safeguards_active b \<longleftrightarrow> likelyBinary b \<and> \<not> binarySafetyOverride b"

definition set_diagnostics :: "diagnostic list \<Rightarrow> buffer \<Rightarrow> buffer" where
  "set_diagnostics ds b = b\<lparr>diagnostics := ds, diagnosticsGeneration := diagnosticsGeneration b + 1\<rparr>"

section \<open>Publishing an edit\<close>

text \<open>The four ways a content mutation ends: one generation, one journal operation, the anchors moved.\<close>

definition commit_op :: "(nat \<Rightarrow> edit_op) \<Rightarrow> (anchor_set \<Rightarrow> anchor_set) \<Rightarrow> buffer \<Rightarrow> buffer option" where
  "commit_op op move b =
     (let gen = contentGeneration b + 1
      in journal_record (editJournal b) (op gen) \<bind> (\<lambda>j.
         Some (b\<lparr>contentGeneration := gen, editJournal := j, anchorSet := move (anchorSet b)\<rparr>)))"

definition commit_insert :: "offset \<Rightarrow> nat \<Rightarrow> buffer \<Rightarrow> buffer option" where
  "commit_insert off n = commit_op (\<lambda>gen. op_inserted gen off n) (\<lambda>a. anchor_apply_edit a off 0 n)"

definition commit_delete :: "offset \<Rightarrow> offset \<Rightarrow> buffer \<Rightarrow> buffer option" where
  "commit_delete rs re = commit_op (\<lambda>gen. op_deleted gen rs re) (\<lambda>a. anchor_apply_edit a rs (re - rs) 0)"

definition commit_replace :: "offset \<Rightarrow> nat \<Rightarrow> nat \<Rightarrow> buffer \<Rightarrow> buffer option" where
  "commit_replace off oldLen newLen =
     commit_op (\<lambda>gen. op_replaced gen off oldLen newLen) (\<lambda>a. anchor_apply_edit a off oldLen newLen)"

definition commit_barrier :: "buffer \<Rightarrow> buffer option" where
  "commit_barrier b =
     commit_op op_barrier anchor_apply_barrier b \<bind> (\<lambda>b'.
       Some ((disarm_unseen_tracking b')\<lparr>diagnostics := [], diagnosticsGeneration := diagnosticsGeneration b' + 1\<rparr>))"

definition apply_insert :: "offset \<Rightarrow> nat \<Rightarrow> buffer \<Rightarrow> buffer option" where
  "apply_insert off n b = commit_insert off n (relocate_tracked_state (buf_length b) off 0 n b)"

definition apply_delete :: "offset \<Rightarrow> offset \<Rightarrow> buffer \<Rightarrow> buffer option" where
  "apply_delete rs re b = commit_delete rs re (relocate_tracked_state (buf_length b) rs (re - rs) 0 b)"

section \<open>Recording undo steps\<close>

definition snapshot_excerpt_range_offsets :: "buffer \<Rightarrow> buffer" where
  "snapshot_excerpt_range_offsets b =
     (if excerptRanges b = [] then b
      else b\<lparr>excerptSnapshots := (excerptSnapshots b)
               (current_sequence (undoTree b) \<mapsto> map (\<lambda>r. (excerptStart r, excerptEnd r)) (excerptRanges b))\<rparr>)"

definition record_undo :: "buffer \<Rightarrow> buffer" where
  "record_undo b = snapshot_excerpt_range_offsets
     (b\<lparr>undoTree := undo_record (undoTree b) (st_clone (bufStorage b))\<rparr>)"

definition amend_undo :: "buffer \<Rightarrow> buffer" where
  "amend_undo b = snapshot_excerpt_range_offsets
     (b\<lparr>undoTree := undo_amend (undoTree b) (st_clone (bufStorage b))\<rparr>)"

definition record_or_amend_undo :: "bool \<Rightarrow> buffer \<Rightarrow> buffer" where
  "record_or_amend_undo can b0 =
     (let b = b0\<lparr>canAmendLoadAppend := False\<rparr>
      in if undoGroupDepth b > 0 then b\<lparr>undoGroupDirty := True\<rparr>
         else if can \<and> canAmend b then amend_undo b
         else (record_undo b)\<lparr>canAmend := can\<rparr>)"

definition record_or_amend_load_append :: "buffer \<Rightarrow> buffer" where
  "record_or_amend_load_append b0 =
     (let b = b0\<lparr>canAmend := False\<rparr>
      in if undoGroupDepth b > 0 then b\<lparr>undoGroupDirty := True\<rparr>
         else if canAmendLoadAppend b then amend_undo b
         else (record_undo b)\<lparr>canAmendLoadAppend := True\<rparr>)"

definition begin_undo_group :: "buffer \<Rightarrow> buffer" where
  "begin_undo_group b = b\<lparr>undoGroupDepth := undoGroupDepth b + 1\<rparr>"

definition end_undo_group :: "buffer \<Rightarrow> buffer" where
  "end_undo_group b0 =
     (if undoGroupDepth b0 = 0 then b0
      else let b = b0\<lparr>undoGroupDepth := undoGroupDepth b0 - 1\<rparr>
        in if undoGroupDepth b = 0 \<and> undoGroupDirty b
           then (record_undo b)\<lparr>canAmend := False, undoGroupDirty := False\<rparr> else b)"

section \<open>Edits\<close>

text \<open>What every insertion and every deletion does once its guards have passed.\<close>

definition insert_text :: "bool \<Rightarrow> offset \<Rightarrow> bytes \<Rightarrow> world \<Rightarrow> (unit outcome \<times> world) option" where
  "insert_text can off s w =
     (let (h, b) = w
      in st_inserted h (bufStorage b) off s \<bind> (\<lambda>(h', st).
         apply_insert off (length s) (b\<lparr>bufStorage := st\<rparr>) \<bind> (\<lambda>b'.
           Some (Done (), h', (record_or_amend_undo can b')\<lparr>goalColumn := None\<rparr>))))"

definition erase_text :: "offset \<Rightarrow> offset \<Rightarrow> world \<Rightarrow> world option" where
  "erase_text rs re w =
     (let (h, b) = w
      in apply_delete rs re (b\<lparr>bufStorage := st_erased h (bufStorage b) rs (re - rs)\<rparr>) \<bind> (\<lambda>b'.
           Some (h, (record_or_amend_undo False b')\<lparr>goalColumn := None\<rparr>)))"

definition insert_at_point :: "bytes \<Rightarrow> world \<Rightarrow> (unit outcome \<times> world) option" where
  "insert_at_point s w =
     (let b = snd w
      in if readOnly b then Some (Threw (BufferReadOnly (readOnlyReason b)), w)
         else if s = [] then Some (Done (), w)
         else if \<not> can_insert_at_excerpt b (point b) then Some (Done (), w)
         else insert_text True (point b) s w)"

definition insert_at_impl :: "offset \<Rightarrow> bytes \<Rightarrow> world \<Rightarrow> (unit outcome \<times> world) option" where
  "insert_at_impl byteOffset s w =
     (let b = snd w; off = min byteOffset (buf_length b)
      in if s = [] then Some (Done (), w)
         else if \<not> can_insert_at_excerpt b off then Some (Done (), w)
         else insert_text False off s w)"

definition insert_at :: "offset \<Rightarrow> bytes \<Rightarrow> world \<Rightarrow> (unit outcome \<times> world) option" where
  "insert_at off s w =
     (if readOnly (snd w) then Some (Threw (BufferReadOnly (readOnlyReason (snd w))), w)
      else insert_at_impl off s w)"

definition append_while_read_only :: "bytes \<Rightarrow> world \<Rightarrow> (unit outcome \<times> world) option" where
  "append_while_read_only s w =
     (if \<not> readOnly (snd w) then Some (Threw AppendOnWritable, w)
      else insert_at_impl (buf_length (snd w)) s w \<bind> (\<lambda>(r, h, b).
        Some (r, h, if unseenTracking b then b
                    else b\<lparr>unseenTracking := True, seenGeneration := seenGeneration b + 1\<rparr>)))"

definition delete_backward_at_point :: "break_rule \<Rightarrow> world \<Rightarrow> (unit outcome \<times> world) option" where
  "delete_backward_at_point brk w =
     (let (h, b) = w
      in if readOnly b then Some (Threw (BufferReadOnly (readOnlyReason b)), w)
         else if point b = 0 then Some (Done (), w)
         else previous_grapheme_boundary storage_class brk h (bufStorage b) (point b) \<bind> (\<lambda>s.
           if \<not> can_delete_excerpt_range b s (point b) then Some (Done (), w)
           else erase_text s (point b) w \<bind> (\<lambda>w'. Some (Done (), w'))))"

definition delete_forward_at_point :: "break_rule \<Rightarrow> world \<Rightarrow> (unit outcome \<times> world) option" where
  "delete_forward_at_point brk w =
     (let (h, b) = w
      in if readOnly b then Some (Threw (BufferReadOnly (readOnlyReason b)), w)
         else if point b \<ge> buf_length b then Some (Done (), w)
         else next_grapheme_boundary storage_class brk h (bufStorage b) (point b) \<bind> (\<lambda>e.
           if \<not> can_delete_excerpt_range b (point b) e then Some (Done (), w)
           else erase_text (point b) e w \<bind> (\<lambda>w'. Some (Done (), w'))))"

definition delete_range :: "offset \<Rightarrow> nat \<Rightarrow> world \<Rightarrow> (bytes outcome \<times> world) option" where
  "delete_range byteOffset len w =
     (let (h, b) = w
      in if readOnly b then Some (Threw (BufferReadOnly (readOnlyReason b)), w)
         else let off = min byteOffset (buf_length b);
                  n = min len (buf_length b - off)
           in if n = 0 then Some (Done [], w)
              else if \<not> can_delete_excerpt_range b off (off + n) then Some (Done [], w)
              else let deleted = st_substring h (bufStorage b) off n
                in erase_text off (off + n) w \<bind> (\<lambda>w'. Some (Done deleted, w')))"


section \<open>Point, mark and cursors\<close>

definition set_point :: "break_rule \<Rightarrow> offset \<Rightarrow> world \<Rightarrow> world option" where
  "set_point brk off w =
     (let (h, b) = w
      in snap_to_grapheme_boundary storage_class brk h (bufStorage b) off \<bind> (\<lambda>p.
           Some (h, b\<lparr>point := p, canAmend := False, goalColumn := None\<rparr>)))"

definition set_mark :: "break_rule \<Rightarrow> offset \<Rightarrow> world \<Rightarrow> world option" where
  "set_mark brk off w =
     (let (h, b) = w
      in snap_to_grapheme_boundary storage_class brk h (bufStorage b) off \<bind> (\<lambda>p.
           Some (h, b\<lparr>mark := Some p\<rparr>)))"

definition clear_mark :: "buffer \<Rightarrow> buffer" where
  "clear_mark b = b\<lparr>mark := None\<rparr>"

text \<open>\<open>Region\<close> dereferences the mark; \<open>None\<close> is the empty one.\<close>

definition region :: "buffer \<Rightarrow> byte_range option" where
  "region b = map_option (\<lambda>m. if point b \<le> m then (point b, m) else (m, point b)) (mark b)"

definition add_cursor_at :: "break_rule \<Rightarrow> offset \<Rightarrow> offset option \<Rightarrow> world \<Rightarrow> world option" where
  "add_cursor_at brk pt mk w =
     (let (h, b) = w;
          snap = (\<lambda>off. snap_to_grapheme_boundary storage_class brk h (bufStorage b) (min off (buf_length b)))
      in snap pt \<bind> (\<lambda>p.
         (case mk of None \<Rightarrow> Some None | Some m \<Rightarrow> snap m \<bind> (\<lambda>m'. Some (Some m'))) \<bind> (\<lambda>m.
         if p = point b \<or> list_ex (\<lambda>c. cursorPoint c = p) (secondaryCursors b) then Some w
         else Some (h, normalize_secondary_cursors
           (b\<lparr>secondaryCursors := secondaryCursors b @ [\<lparr>cursorPoint = p, cursorMark = m, cursorGoal = None\<rparr>],
              addedCursorOrder := addedCursorOrder b @ [p]\<rparr>)))))"

definition clear_secondary_cursors :: "buffer \<Rightarrow> buffer" where
  "clear_secondary_cursors b = b\<lparr>secondaryCursors := [], addedCursorOrder := []\<rparr>"

text \<open>\<open>RemoveLastAddedCursor\<close>; the back of the stack is the end of the list.\<close>

function remove_last_added_cursor :: "buffer \<Rightarrow> bool \<times> buffer" where
  "remove_last_added_cursor b =
     (if addedCursorOrder b = [] then (False, b)
      else let target = last (addedCursorOrder b);
               kept = filter (\<lambda>c. cursorPoint c \<noteq> target) (secondaryCursors b);
               b' = b\<lparr>addedCursorOrder := butlast (addedCursorOrder b), secondaryCursors := kept\<rparr>
        in if length kept \<noteq> length (secondaryCursors b) then (True, b') else remove_last_added_cursor b')"
  by pat_completeness auto
termination by (relation "measure (\<lambda>b. length (addedCursorOrder b))") auto

declare remove_last_added_cursor.simps [simp del]

text \<open>\<open>ForEachCursor\<close>: the three swaps, the loop over the cursors, and the scope that unwinds.\<close>

definition swap_cursor :: "nat \<Rightarrow> buffer \<Rightarrow> buffer option" where
  "swap_cursor i b =
     (if i < length (secondaryCursors b)
      then let c = secondaryCursors b ! i
        in Some (b\<lparr>point := cursorPoint c, mark := cursorMark c, goalColumn := cursorGoal c,
                   secondaryCursors := (secondaryCursors b)
                     [i := \<lparr>cursorPoint = point b, cursorMark = mark b, cursorGoal = goalColumn b\<rparr>]\<rparr>)
      else None)"

partial_function (option) cursor_loop ::
  "(world \<Rightarrow> (unit outcome \<times> world) option) \<Rightarrow> nat \<Rightarrow> world \<Rightarrow> (unit outcome \<times> world) option" where
  "cursor_loop operation i w =
     (if i < length (secondaryCursors (snd w)) then
        swap_cursor i (snd w) \<bind> (\<lambda>b1.
        operation (fst w, b1) \<bind> (\<lambda>(r, w2).
        swap_cursor i (snd w2) \<bind> (\<lambda>b3.
          case r of Threw e \<Rightarrow> Some (Threw e, fst w2, b3)
          | Done _ \<Rightarrow> cursor_loop operation (i + 1) (fst w2, b3))))
      else Some (Done (), w))"

declare cursor_loop.simps [code]

definition end_iteration :: "buffer \<Rightarrow> buffer" where
  "end_iteration b = end_undo_group (normalize_secondary_cursors (b\<lparr>cursorIterationActive := False\<rparr>))"

definition for_each_cursor ::
  "(world \<Rightarrow> (unit outcome \<times> world) option) \<Rightarrow> world \<Rightarrow> (unit outcome \<times> world) option" where
  "for_each_cursor operation w =
     (let (h, b) = w
      in operation (h, (begin_undo_group b)\<lparr>cursorIterationActive := True\<rparr>) \<bind> (\<lambda>(r, w1).
         (case r of Threw e \<Rightarrow> Some (Threw e, w1) | Done _ \<Rightarrow> cursor_loop operation 0 w1) \<bind> (\<lambda>(r', w2).
           Some (r', fst w2, end_iteration (snd w2)))))"

section \<open>Narrowing\<close>

definition narrow_to_region :: "offset \<Rightarrow> offset \<Rightarrow> world \<Rightarrow> world" where
  "narrow_to_region x y w =
     (let (h, b) = w; st = bufStorage b;
          s = min (min x y) (buf_length b); e = min (max x y) (buf_length b);
          totalLines = m_line_count storage_class st;
          snappedStart = m_line_to_byte_offset storage_class h st (m_byte_offset_to_line storage_class h st s);
          endLine = m_byte_offset_to_line storage_class h st e;
          snappedEnd = (if endLine + 1 < totalLines then m_line_to_byte_offset storage_class h st (endLine + 1)
                        else buf_length b);
          maxPoint = (if snappedEnd > snappedStart then snappedEnd - 1 else snappedStart)
      in (h, b\<lparr>narrowedRange := Some (snappedStart, snappedEnd),
               point := (if point b < snappedStart then snappedStart
                         else if maxPoint < point b then maxPoint else point b)\<rparr>))"

definition widen :: "buffer \<Rightarrow> buffer" where
  "widen b = b\<lparr>narrowedRange := None\<rparr>"

section \<open>Snippets and excerpts\<close>

definition set_snippet_ranges :: "snippet_range list \<Rightarrow> buffer \<Rightarrow> buffer" where
  "set_snippet_ranges rs b = b\<lparr>snippetRanges := rs\<rparr>"

definition set_active_snippet_range :: "nat \<Rightarrow> buffer \<Rightarrow> buffer" where
  "set_active_snippet_range i b =
     b\<lparr>snippetRanges := map (\<lambda>r. r\<lparr>snippetActive := (snippetId r = i)\<rparr>) (snippetRanges b)\<rparr>"

fun update_first_snippet :: "nat \<Rightarrow> offset \<Rightarrow> offset \<Rightarrow> snippet_range list \<Rightarrow> snippet_range list" where
  "update_first_snippet i s e [] = []"
| "update_first_snippet i s e (r # rs) =
     (if snippetId r = i then r\<lparr>snippetStart := s, snippetEnd := e\<rparr> # rs else r # update_first_snippet i s e rs)"

definition update_snippet_range :: "nat \<Rightarrow> offset \<Rightarrow> offset \<Rightarrow> buffer \<Rightarrow> buffer" where
  "update_snippet_range i s e b = b\<lparr>snippetRanges := update_first_snippet i s e (snippetRanges b)\<rparr>"

definition set_excerpt_ranges :: "excerpt_range list \<Rightarrow> buffer \<Rightarrow> buffer" where
  "set_excerpt_ranges rs b =
     snapshot_excerpt_range_offsets (b\<lparr>excerptRanges := rs, excerptSnapshots := Map.empty\<rparr>)"

definition clear_excerpt_ranges :: "buffer \<Rightarrow> buffer" where
  "clear_excerpt_ranges b = b\<lparr>excerptRanges := [], excerptSnapshots := Map.empty\<rparr>"

fun commit_first_excerpt :: "offset \<Rightarrow> offset \<Rightarrow> bytes \<Rightarrow> offset \<Rightarrow> offset \<Rightarrow> excerpt_range list \<Rightarrow> excerpt_range list" where
  "commit_first_excerpt s e newText ns ne [] = []"
| "commit_first_excerpt s e newText ns ne (r # rs) =
     (if excerptStart r = s \<and> excerptEnd r = e
      then r\<lparr>originalText := newText, sourceStartByte := ns, sourceEndByte := ne\<rparr> # rs
      else r # commit_first_excerpt s e newText ns ne rs)"

definition mark_excerpt_range_committed ::
  "offset \<Rightarrow> offset \<Rightarrow> bytes \<Rightarrow> offset \<Rightarrow> offset \<Rightarrow> buffer \<Rightarrow> buffer" where
  "mark_excerpt_range_committed s e newText ns ne b =
     b\<lparr>excerptRanges := commit_first_excerpt s e newText ns ne (excerptRanges b)\<rparr>"

section \<open>Undo and redo\<close>

definition clamp_cursors_to_content :: "break_rule \<Rightarrow> heap \<Rightarrow> buffer \<Rightarrow> buffer option" where
  "clamp_cursors_to_content brk h b =
     (let len = buf_length b;
          snap = (\<lambda>off. snap_to_grapheme_boundary storage_class brk h (bufStorage b) (min off len))
      in snap (point b) \<bind> (\<lambda>p.
         (case mark b of None \<Rightarrow> Some None | Some m \<Rightarrow> snap m \<bind> (\<lambda>m'. Some (Some m'))) \<bind> (\<lambda>mk.
         Some (b\<lparr>point := p, mark := mk,
                 narrowedRange := narrowedRange b \<bind> (\<lambda>(s, e).
                   if min s len \<ge> min e len then None else Some (min s len, min e len)),
                 foldMarkers := filter (\<lambda>e. fst e \<le> len) (foldMarkers b),
                 snippetRanges := (if list_ex (\<lambda>r. snippetEnd r > len) (snippetRanges b) then []
                                   else snippetRanges b)\<rparr>))))"

text \<open>The delete half and the insert half of a restored change, each only when it is not empty.\<close>

definition by_halves :: "('b \<Rightarrow> 'b) \<Rightarrow> ('b \<Rightarrow> 'b) \<Rightarrow> changed_span \<Rightarrow> 'b \<Rightarrow> 'b" where
  "by_halves del ins span b =
     (let b1 = (if oldEnd span > oldStart span then del b else b)
      in if newEnd span > newStart span then ins b1 else b1)"

definition update_unsaved_ranges_for_restore :: "heap \<Rightarrow> storage \<Rightarrow> buffer \<Rightarrow> buffer" where
  "update_unsaved_ranges_for_restore h oldStorage b =
     (if storage_content_equals h (bufStorage b) (savedSnapshot b) then
        (if unsavedChangeRanges b = [] then b
         else b\<lparr>unsavedChangeRanges := [], unsavedChangeGeneration := unsavedChangeGeneration b + 1\<rparr>)
      else case changed_byte_range h oldStorage (bufStorage b) of
          None \<Rightarrow> b
        | Some span \<Rightarrow>
            by_halves (mark_unsaved_range_deleted (buf_length b) (oldStart span) (oldEnd span))
              (mark_unsaved_range_inserted (newStart span) (newEnd span - newStart span)) span b)"

definition update_excerpt_ranges_for_restore :: "heap \<Rightarrow> storage \<Rightarrow> buffer \<Rightarrow> buffer" where
  "update_excerpt_ranges_for_restore h oldStorage b =
     (if excerptRanges b = [] then b
      else case changed_byte_range h oldStorage (bufStorage b) of
          None \<Rightarrow> b
        | Some span \<Rightarrow>
            by_halves (relocate_excerpts_for_delete (oldStart span) (oldEnd span))
              (relocate_excerpts_for_insert (newStart span) (newEnd span - newStart span)) span b)"

definition update_diagnostics_for_restore :: "heap \<Rightarrow> storage \<Rightarrow> buffer \<Rightarrow> buffer" where
  "update_diagnostics_for_restore h oldStorage b =
     (if diagnostics b = [] then b
      else case changed_byte_range h oldStorage (bufStorage b) of
          None \<Rightarrow> b
        | Some span \<Rightarrow>
            by_halves (relocate_diagnostics_for_delete (oldStart span) (oldEnd span))
              (relocate_diagnostics_for_insert (newStart span) (newEnd span - newStart span)) span b)"

definition restore_excerpt_range_offsets :: "buffer \<Rightarrow> bool \<times> buffer" where
  "restore_excerpt_range_offsets b =
     (if excerptRanges b = [] then (True, b)
      else case excerptSnapshots b (current_sequence (undoTree b)) of
          None \<Rightarrow> (False, b)
        | Some offs \<Rightarrow>
            (if length offs \<noteq> length (excerptRanges b) then (False, b)
             else (True, b\<lparr>excerptRanges :=
               map (\<lambda>(r, off). r\<lparr>excerptStart := fst off, excerptEnd := snd off\<rparr>) (zip (excerptRanges b) offs)\<rparr>)))"

text \<open>\<open>b\<close> already has the undo tree moved to the node navigated to.\<close>

definition apply_undo_tree_navigation :: "break_rule \<Rightarrow> storage \<Rightarrow> world \<Rightarrow> world option" where
  "apply_undo_tree_navigation brk oldStorage w =
     (let (h, b0) = w;
          b1 = (clear_secondary_cursors (b0\<lparr>bufStorage := st_clone (undo_current (undoTree b0))\<rparr>))\<lparr>snippetRanges := []\<rparr>
      in clamp_cursors_to_content brk h b1 \<bind> (\<lambda>b2.
         let b3 = b2\<lparr>canAmend := False, canAmendLoadAppend := False, goalColumn := None\<rparr>
         in (case changed_byte_range h oldStorage (bufStorage b3) of
               Some restored \<Rightarrow> commit_replace (oldStart restored) (oldEnd restored - oldStart restored)
                                 (newEnd restored - newStart restored) b3
             | None \<Rightarrow> commit_replace 0 0 0 b3) \<bind> (\<lambda>b4.
            let (restoredOffsets, b5) =
                  restore_excerpt_range_offsets (update_unsaved_ranges_for_restore h oldStorage b4);
                b6 = (if restoredOffsets then b5 else update_excerpt_ranges_for_restore h oldStorage b5)
            in Some (h, update_diagnostics_for_restore h oldStorage b6))))"

definition buffer_undo :: "break_rule \<Rightarrow> world \<Rightarrow> world option" where
  "buffer_undo brk w =
     (let (h, b) = w
      in if \<not> can_undo (undoTree b) then Some w
         else apply_undo_tree_navigation brk (st_clone (bufStorage b)) (h, b\<lparr>undoTree := undo_undo (undoTree b)\<rparr>))"

definition buffer_redo :: "break_rule \<Rightarrow> world \<Rightarrow> world option" where
  "buffer_redo brk w =
     (let (h, b) = w
      in if \<not> can_redo (undoTree b) then Some w
         else undo_redo (undoTree b) \<bind> (\<lambda>t.
           apply_undo_tree_navigation brk (st_clone (bufStorage b)) (h, b\<lparr>undoTree := t\<rparr>)))"

definition try_jump_to_undo_sequence :: "break_rule \<Rightarrow> nat \<Rightarrow> world \<Rightarrow> (bool \<times> world) option" where
  "try_jump_to_undo_sequence brk sequence w =
     (let (h, b) = w
      in if \<not> has_sequence (undoTree b) sequence then Some (False, w)
         else case undo_jump_to (undoTree b) sequence of
             (False, _) \<Rightarrow> Some (False, w)
           | (True, t) \<Rightarrow> apply_undo_tree_navigation brk (st_clone (bufStorage b)) (h, b\<lparr>undoTree := t\<rparr>)
               \<bind> (\<lambda>w'. Some (True, w')))"

definition restore_undo_tree :: "serialized_node list \<Rightarrow> nat \<Rightarrow> world \<Rightarrow> (unit outcome \<times> world) option" where
  "restore_undo_tree ns currentId w =
     (let (h, b) = w
      in undo_deserialize ns currentId \<bind> (\<lambda>r. case r of
           Inl e \<Rightarrow> Some (Threw (UndoListRefused e), w)
         | Inr t \<Rightarrow>
             (if \<not> storage_content_equals h (undo_current t) (bufStorage b) then Some (Threw UndoContentDiffers, w)
              else Some (Done (), h, b\<lparr>undoTree := t, canAmend := False\<rparr>))))"

end
