(* ===== verification/BufferRanges.thy ===== *)
theory BufferRanges
  imports BufferState
begin

text \<open>
  One edit keeps every tracked position of a buffer inside its text and the ranges of unsaved
  bytes sorted, separated and non-empty (\<open>Source/Text/Buffer.cpp\<close>, \<open>RelocateTrackedState\<close>).
\<close>

section \<open>Sorted, separated ranges\<close>

definition ranges_ok :: "byte_range list \<Rightarrow> bool" where
  "ranges_ok rs \<longleftrightarrow> sorted_wrt (\<lambda>x y. snd x < fst y) rs \<and> (\<forall>r \<in> set rs. fst r < snd r)"

text \<open>The same up to touching at one point, which is how a deletion leaves them.\<close>

definition ranges_near :: "offset \<Rightarrow> byte_range list \<Rightarrow> bool" where
  "ranges_near p rs \<longleftrightarrow>
     sorted_wrt (\<lambda>x y. snd x < fst y \<or> (snd x = p \<and> fst y = p)) rs \<and> (\<forall>r \<in> set rs. fst r < snd r)"

lemma ranges_ok_Nil [simp]: "ranges_ok []" and ranges_near_Nil [simp]: "ranges_near p []"
  by (simp_all add: ranges_ok_def ranges_near_def)

lemma ranges_ok_Cons:
  "ranges_ok (r # rs) \<longleftrightarrow> fst r < snd r \<and> (\<forall>q \<in> set rs. snd r < fst q) \<and> ranges_ok rs"
  by (auto simp: ranges_ok_def)

lemma ranges_near_Cons:
  "ranges_near p (r # rs) \<longleftrightarrow> fst r < snd r \<and>
     (\<forall>q \<in> set rs. snd r < fst q \<or> (snd r = p \<and> fst q = p)) \<and> ranges_near p rs"
  by (auto simp: ranges_near_def)

lemma ranges_ok_near: "ranges_ok rs \<Longrightarrow> ranges_near p rs"
  by (induction rs) (auto simp: ranges_ok_Cons ranges_near_Cons)

lemma ranges_near_past: "ranges_near p rs \<Longrightarrow> \<forall>r \<in> set rs. p < fst r \<Longrightarrow> ranges_ok rs"
  by (induction rs) (auto simp: ranges_ok_Cons ranges_near_Cons)

lemma ranges_near_starts: "ranges_near p (r # rs) \<Longrightarrow> q \<in> set rs \<Longrightarrow> fst r < fst q"
  by (auto simp: ranges_near_Cons)

lemma absorb_ranges_starts:
  "q \<in> set (absorb_ranges rs s e) \<Longrightarrow> \<forall>r \<in> set rs. lo \<le> fst r \<Longrightarrow> lo \<le> s \<Longrightarrow> lo \<le> fst q"
  by (induction rs s e rule: absorb_ranges.induct) (auto split: if_splits)

lemma absorb_ranges_ne [simp]: "absorb_ranges rs s e \<noteq> []"
  by (induction rs s e rule: absorb_ranges.induct) auto

lemma absorb_ranges_ok: "ranges_near p rs \<Longrightarrow> s < e \<Longrightarrow> p \<le> e \<Longrightarrow> ranges_ok (absorb_ranges rs s e)"
proof (induction rs s e rule: absorb_ranges.induct)
  case (2 r rs s e)
  then have near: "ranges_near p rs" and r: "fst r < snd r" by (simp_all add: ranges_near_Cons)
  show ?case
  proof (cases "fst r \<le> e")
    case True
    then show ?thesis using 2(1) [OF True near] 2(3,4) r by simp
  next
    case False
    then have "\<forall>q \<in> set (r # rs). p < fst q" using 2(4) ranges_near_starts [OF 2(2)] by fastforce
    then have "ranges_ok (r # rs)" by (rule ranges_near_past [OF 2(2)])
    moreover have "\<forall>q \<in> set rs. e < fst q" using False ranges_near_starts [OF 2(2)] by fastforce
    ultimately show ?thesis using False 2(3) by (simp add: ranges_ok_Cons)
  qed
qed (simp add: ranges_ok_Cons)

lemma merge_unsaved_range_ne [simp]: "merge_unsaved_range rs s e \<noteq> []"
  by (cases rs) auto

lemma merge_unsaved_range_starts:
  "q \<in> set (merge_unsaved_range rs s e) \<Longrightarrow> \<forall>r \<in> set rs. lo \<le> fst r \<Longrightarrow> lo \<le> s \<Longrightarrow> lo \<le> fst q"
proof (induction rs s e rule: merge_unsaved_range.induct)
  case (2 r rs s e)
  then show ?case using absorb_ranges_starts [of q "r # rs" s e lo]
    by (cases "snd r < s") (auto simp del: absorb_ranges.simps)
qed simp

lemma merge_unsaved_range_ok:
  "ranges_near p rs \<Longrightarrow> s < e \<Longrightarrow> s \<le> p \<Longrightarrow> p \<le> e \<Longrightarrow> ranges_ok (merge_unsaved_range rs s e)"
proof (induction rs s e rule: merge_unsaved_range.induct)
  case (2 r rs s e)
  then have near: "ranges_near p rs" and r: "fst r < snd r" by (simp_all add: ranges_near_Cons)
  show ?case
  proof (cases "snd r < s")
    case True
    then have "\<forall>q \<in> set rs. Suc (snd r) \<le> fst q" using 2(2,4) by (auto simp: ranges_near_Cons)
    then have "\<forall>q \<in> set (merge_unsaved_range rs s e). Suc (snd r) \<le> fst q"
      using merge_unsaved_range_starts [of _ rs s e "Suc (snd r)"] True by auto
    then show ?thesis using 2(1) [OF True near 2(3-5)] True r by (simp add: ranges_ok_Cons Suc_le_eq)
  next
    case False
    then show ?thesis using absorb_ranges_ok [OF 2(2,3,5)] by simp
  qed
qed (simp add: ranges_ok_Cons)

section \<open>The two relocation rules\<close>

lemma relocate_for_insert_less: "x < y \<Longrightarrow> relocate_for_insert io n x < relocate_for_insert io n y"
  by (simp add: relocate_for_insert_def)

lemma relocate_for_insert_mono: "x \<le> y \<Longrightarrow> relocate_for_insert io n x \<le> relocate_for_insert io n y"
  by (simp add: relocate_for_insert_def)

lemma relocate_for_insert_le: "x \<le> len \<Longrightarrow> relocate_for_insert io n x \<le> len + n"
  by (simp add: relocate_for_insert_def)

lemma relocate_for_delete_mono:
  "rs \<le> re \<Longrightarrow> x \<le> y \<Longrightarrow> relocate_for_delete rs re x \<le> relocate_for_delete rs re y"
  unfolding relocate_for_delete_def by (simp split: if_split; linarith)

lemma relocate_for_delete_le:
  "x \<le> len \<Longrightarrow> rs \<le> re \<Longrightarrow> re \<le> len \<Longrightarrow> relocate_for_delete rs re x \<le> len - (re - rs)"
  unfolding relocate_for_delete_def by (simp split: if_split; linarith)

lemma relocate_for_delete_touch:
  "rs \<le> re \<Longrightarrow> x < y \<Longrightarrow> relocate_for_delete rs re x < relocate_for_delete rs re y \<or>
     (relocate_for_delete rs re x = rs \<and> relocate_for_delete rs re y = rs)"
  unfolding relocate_for_delete_def by (simp split: if_split; linarith)

section \<open>Marking an edit\<close>

lemma ranges_ok_relocate_insert:
  "ranges_ok rs \<Longrightarrow> ranges_ok (map (map_prod (relocate_for_insert io n) (relocate_for_insert io n)) rs)"
  by (induction rs) (auto simp: ranges_ok_Cons relocate_for_insert_less)

lemma mark_range_inserted_ok: "ranges_ok rs \<Longrightarrow> 0 < n \<Longrightarrow> ranges_ok (mark_range_inserted rs io n)"
  unfolding mark_range_inserted_def
  by (rule merge_unsaved_range_ok [where p = io]) (simp_all add: ranges_ok_near ranges_ok_relocate_insert)

lemma mark_range_inserted_ne [simp]: "mark_range_inserted rs io n \<noteq> []"
  by (simp add: mark_range_inserted_def)

lemma deletion_mark_touches: "deletion_mark len rs = (ms, me) \<Longrightarrow> ms < me \<Longrightarrow> ms \<le> rs \<and> rs \<le> me"
  by (auto simp: deletion_mark_def Let_def min_def split: if_splits)

lemma deletion_mark_empty: "deletion_mark len rs = (ms, me) \<Longrightarrow> \<not> ms < me \<Longrightarrow> rs = 0 \<and> len = 0"
  by (auto simp: deletion_mark_def Let_def min_def split: if_splits)

lemma ranges_near_relocate_delete:
  assumes "ranges_ok ranges" "rs \<le> re"
  shows "ranges_near rs (filter (\<lambda>r. fst r < snd r)
    (map (map_prod (relocate_for_delete rs re) (relocate_for_delete rs re)) ranges))"
  using assms(1)
proof (induction ranges)
  case (Cons r ranges)
  then have "\<forall>q \<in> set ranges. relocate_for_delete rs re (snd r) < relocate_for_delete rs re (fst q) \<or>
      (relocate_for_delete rs re (snd r) = rs \<and> relocate_for_delete rs re (fst q) = rs)"
    using relocate_for_delete_touch [OF assms(2)] by (simp add: ranges_ok_Cons)
  with Cons show ?case by (auto simp: ranges_near_Cons ranges_ok_Cons)
qed simp

lemma mark_range_deleted_ok:
  assumes "ranges_ok ranges" "rs \<le> re" "deletion_mark len rs = (ms, me)"
  shows "ranges_ok (mark_range_deleted ranges rs re ms me)"
proof -
  let ?moved = "filter (\<lambda>r. fst r < snd r)
    (map (map_prod (relocate_for_delete rs re) (relocate_for_delete rs re)) ranges)"
  note near = ranges_near_relocate_delete [OF assms(1,2)]
  show ?thesis
  proof (cases "ms < me")
    case True
    then show ?thesis
      using merge_unsaved_range_ok [OF near True] deletion_mark_touches [OF assms(3) True]
      by (simp add: mark_range_deleted_def Let_def)
  next
    case False
    then have "rs = 0" using deletion_mark_empty assms(3) by blast
    then have "ranges_ok ?moved"
      using near by (induction ?moved) (auto simp: ranges_near_def ranges_ok_def elim: sorted_wrt_mono_rel [rotated])
    then show ?thesis using False by (simp add: mark_range_deleted_def Let_def)
  qed
qed

lemma mark_range_deleted_ne:
  "deletion_mark len rs = (ms, me) \<Longrightarrow> 0 < len \<Longrightarrow> mark_range_deleted ranges rs re ms me \<noteq> []"
  using deletion_mark_empty [of len rs ms me] by (auto simp: mark_range_deleted_def Let_def)

end
