(* ===== verification/BufferTracked.thy ===== *)
theory BufferTracked
  imports BufferRanges
begin

text \<open>
  The invariant of what a buffer tracks: point, mark, cursors, narrowing and folds are inside
  the text, folds are in key order, and the unsaved ranges are sorted, separated and
  non-empty.  The two halves of \<open>RelocateTrackedState\<close> carry it from one text to the next.
\<close>

section \<open>The invariant\<close>

definition cursor_in :: "nat \<Rightarrow> cursor \<Rightarrow> bool" where
  "cursor_in len c \<longleftrightarrow> cursorPoint c \<le> len \<and> pred_option (\<lambda>m. m \<le> len) (cursorMark c)"

definition folds_ok :: "nat \<Rightarrow> (offset \<times> fold_marker) list \<Rightarrow> bool" where
  "folds_ok len fs \<longleftrightarrow> sorted_wrt (<) (map fst fs) \<and> (\<forall>f \<in> set fs. fst f \<le> len)"

definition tracked_ok :: "nat \<Rightarrow> 'a tracked_scheme \<Rightarrow> bool" where
  "tracked_ok len t \<longleftrightarrow>
     point t \<le> len \<and> pred_option (\<lambda>m. m \<le> len) (mark t) \<and>
     pred_option (\<lambda>r. fst r \<le> snd r \<and> snd r \<le> len) (narrowedRange t) \<and>
     list_all (cursor_in len) (secondaryCursors t) \<and> list_all (\<lambda>p. p \<le> len) (addedCursorOrder t) \<and>
     folds_ok len (foldMarkers t) \<and>
     ranges_ok (unsavedChangeRanges t) \<and> ranges_ok (saveInFlightRanges t)"

section \<open>Folds\<close>

lemma fold_emplace_keys: "set (map fst (fold_emplace k v fs)) = insert k (set (map fst fs))"
  by (induction fs) auto

lemma fold_assign_keys: "set (map fst (fold_assign k v fs)) = insert k (set (map fst fs))"
  by (induction fs) auto

lemma fold_emplace_ok: "folds_ok len fs \<Longrightarrow> k \<le> len \<Longrightarrow> folds_ok len (fold_emplace k v fs)"
proof (induction fs)
  case (Cons f fs)
  then show ?case using fold_emplace_keys [of k v fs] by (fastforce simp: folds_ok_def)
qed (simp add: folds_ok_def)

lemma fold_assign_ok: "folds_ok len fs \<Longrightarrow> k \<le> len \<Longrightarrow> folds_ok len (fold_assign k v fs)"
proof (induction fs)
  case (Cons f fs)
  then show ?case using fold_assign_keys [of k v fs] by (fastforce simp: folds_ok_def)
qed (simp add: folds_ok_def)

lemma fold_emplaces_ok:
  "folds_ok len acc \<Longrightarrow> \<forall>f \<in> set fs. g (fst f) \<le> len \<Longrightarrow>
    folds_ok len (fold (\<lambda>(off, m) relocated. fold_emplace (g off) m relocated) fs acc)"
  by (induction fs arbitrary: acc) (auto simp: fold_emplace_ok)

lemma foldMarkers_relocate:
  "foldMarkers (relocate_fold_markers g t) =
    fold (\<lambda>(off, m) relocated. fold_emplace (g off) m relocated) (foldMarkers t) []"
  by (simp add: relocate_fold_markers_def)

section \<open>Cursors\<close>

lemma unique_points_subset: "set (unique_points cs) \<subseteq> set cs"
  by (induction cs rule: unique_points.induct) auto

lemma normalized_cursors: "list_all P (secondaryCursors t) \<Longrightarrow> list_all P (secondaryCursors (normalize_secondary_cursors t))"
  using unique_points_subset [of "sort_key cursorPoint (secondaryCursors t)"]
  by (auto simp: normalize_secondary_cursors_def list_all_iff)

lemma cursor_in_relocate: "\<forall>p \<le> len. g p \<le> len' \<Longrightarrow> cursor_in len c \<Longrightarrow> cursor_in len' (relocate_cursor g c)"
  by (auto simp: cursor_in_def relocate_cursor_def split: option.splits) (cases "cursorMark c"; simp)

section \<open>The fields after each half\<close>

text \<open>Each step as one record update, so that a field is read off by simplification.\<close>

lemma fold_markers_eq:
  "relocate_fold_markers f t =
    t\<lparr>foldMarkers := fold (\<lambda>(off, m) relocated. fold_emplace (f off) m relocated) (foldMarkers t) [],
      foldGeneration := (if foldMarkers t = [] then foldGeneration t else foldGeneration t + 1)\<rparr>"
  by (simp add: relocate_fold_markers_def)

lemma cursors_for_delete_eq:
  "relocate_cursors_for_delete rs re t =
    (let cs = map (relocate_cursor (relocate_for_delete rs re)) (secondaryCursors t)
     in t\<lparr>secondaryCursors := (if cursorIterationActive t then cs
            else filter (\<lambda>c. cursorPoint c \<noteq> point t) (unique_points (sort_key cursorPoint cs))),
          addedCursorOrder := map (relocate_for_delete rs re) (addedCursorOrder t)\<rparr>)"
  by (simp add: relocate_cursors_for_delete_def normalize_secondary_cursors_def Let_def)

lemma mark_deleted_eq:
  "mark_unsaved_range_deleted len rs re t =
    t\<lparr>unsavedChangeRanges := mark_range_deleted (unsavedChangeRanges t) rs re (fst (deletion_mark len rs)) (snd (deletion_mark len rs)),
      saveInFlightRanges := (if saving t
        then mark_range_deleted (saveInFlightRanges t) rs re (fst (deletion_mark len rs)) (snd (deletion_mark len rs))
        else saveInFlightRanges t),
      unsavedChangeGeneration := unsavedChangeGeneration t + 1\<rparr>"
  by (simp add: mark_unsaved_range_deleted_def split: prod.split)

lemmas delete_half_defs = relocate_delete_half_def mark_deleted_eq relocate_diagnostics_for_delete_def
  relocate_excerpts_for_delete_def relocate_snippets_for_delete_def cursors_for_delete_eq fold_markers_eq

lemmas insert_half_defs = relocate_insert_half_def mark_unsaved_range_inserted_def relocate_diagnostics_for_insert_def
  relocate_excerpts_for_insert_def relocate_snippets_for_insert_def relocate_cursors_for_insert_def fold_markers_eq

lemma insert_half_fields:
  fixes t :: "'a tracked_scheme" and io n :: nat
  defines "t' \<equiv> relocate_insert_half io n t" and "g \<equiv> relocate_for_insert io n"
  shows "point t' = g (point t)" "mark t' = map_option g (mark t)"
    "narrowedRange t' = map_option (map_prod g g) (narrowedRange t)"
    "secondaryCursors t' = map (relocate_cursor g) (secondaryCursors t)"
    "addedCursorOrder t' = map g (addedCursorOrder t)"
    "foldMarkers t' = fold (\<lambda>(off, m) relocated. fold_emplace (g off) m relocated) (foldMarkers t) []"
    "unsavedChangeRanges t' = mark_range_inserted (unsavedChangeRanges t) io n"
    "saveInFlightRanges t' =
      (if saving t then mark_range_inserted (saveInFlightRanges t) io n else saveInFlightRanges t)"
    "saving t' = saving t" "cursorIterationActive t' = cursorIterationActive t"
    "excerptRanges t' = map (relocate_excerpt_for_insert io n) (excerptRanges t)"
    "unseenTracking t' = unseenTracking t" "seenByteOffset t' = seenByteOffset t"
  by (simp_all add: t'_def g_def insert_half_defs)

lemma delete_half_fields:
  fixes t :: "'a tracked_scheme" and len rs re :: nat
  defines "t' \<equiv> relocate_delete_half len rs re t" and "g \<equiv> relocate_for_delete rs re"
  shows "point t' = g (point t)" "mark t' = map_option g (mark t)"
    "narrowedRange t' = narrowedRange t \<bind> relocate_narrowing_for_delete rs re"
    "set (secondaryCursors t') \<subseteq> relocate_cursor g ` set (secondaryCursors t)"
    "cursorIterationActive t \<Longrightarrow> secondaryCursors t' = map (relocate_cursor g) (secondaryCursors t)"
    "addedCursorOrder t' = map g (addedCursorOrder t)"
    "foldMarkers t' = fold (\<lambda>(off, m) relocated. fold_emplace (g off) m relocated) (foldMarkers t) []"
    "unsavedChangeRanges t' = mark_range_deleted (unsavedChangeRanges t) rs re (fst (deletion_mark len rs)) (snd (deletion_mark len rs))"
    "saveInFlightRanges t' = (if saving t
      then mark_range_deleted (saveInFlightRanges t) rs re (fst (deletion_mark len rs)) (snd (deletion_mark len rs))
      else saveInFlightRanges t)"
    "saving t' = saving t" "cursorIterationActive t' = cursorIterationActive t"
    "excerptRanges t' =
      map (\<lambda>r. r\<lparr>excerptStart := g (excerptStart r), excerptEnd := g (excerptEnd r)\<rparr>) (excerptRanges t)"
    "unseenTracking t' = unseenTracking t" "seenByteOffset t' = seenByteOffset t"
proof -
  show "set (secondaryCursors t') \<subseteq> relocate_cursor g ` set (secondaryCursors t)"
    using unique_points_subset [of "sort_key cursorPoint (map (relocate_cursor g) (secondaryCursors t))"]
    by (auto simp: t'_def g_def delete_half_defs Let_def)
qed (simp_all add: t'_def g_def delete_half_defs Let_def)

section \<open>Each half keeps the invariant\<close>

lemma insert_half_ok:
  assumes "tracked_ok len t" "0 < n"
  shows "tracked_ok (len + n) (relocate_insert_half io n t)"
proof -
  let ?g = "relocate_for_insert io n"
  have g: "\<forall>p \<le> len. ?g p \<le> len + n" by (simp add: relocate_for_insert_le)
  have "folds_ok (len + n) (foldMarkers (relocate_insert_half io n t))"
    unfolding insert_half_fields using assms(1) g
    by (intro fold_emplaces_ok) (auto simp: tracked_ok_def folds_ok_def)
  moreover have "list_all (cursor_in (len + n)) (secondaryCursors (relocate_insert_half io n t))"
    unfolding insert_half_fields using assms(1) cursor_in_relocate [OF g]
    by (auto simp: tracked_ok_def list_all_iff)
  moreover have "pred_option (\<lambda>m. m \<le> len + n) (mark (relocate_insert_half io n t))"
    unfolding insert_half_fields using assms(1) g by (cases "mark t") (simp_all add: tracked_ok_def)
  moreover have "pred_option (\<lambda>r. fst r \<le> snd r \<and> snd r \<le> len + n) (narrowedRange (relocate_insert_half io n t))"
    unfolding insert_half_fields using assms(1) g
    by (cases "narrowedRange t") (simp_all add: tracked_ok_def relocate_for_insert_mono)
  moreover have "list_all (\<lambda>p. p \<le> len + n) (addedCursorOrder (relocate_insert_half io n t))"
    unfolding insert_half_fields using assms(1) g by (simp add: tracked_ok_def list_all_iff)
  ultimately show ?thesis
    using assms g unfolding tracked_ok_def by (simp add: insert_half_fields mark_range_inserted_ok)
qed

lemma narrowing_delete_ok:
  assumes "pred_option (\<lambda>r. fst r \<le> snd r \<and> snd r \<le> len) r" "rs \<le> re" "re \<le> len"
  shows "pred_option (\<lambda>r. fst r \<le> snd r \<and> snd r \<le> len - (re - rs)) (r \<bind> relocate_narrowing_for_delete rs re)"
  using assms relocate_for_delete_le [of _ len rs re]
  by (cases r) (auto simp: relocate_narrowing_for_delete_def Let_def)

lemma delete_half_ok:
  assumes "tracked_ok len t" "rs \<le> re" "re \<le> len"
  shows "tracked_ok (len - (re - rs)) (relocate_delete_half (len - (re - rs)) rs re t)"
proof -
  let ?g = "relocate_for_delete rs re" and ?len = "len - (re - rs)"
  let ?t = "relocate_delete_half ?len rs re t"
  obtain ms me where mk: "deletion_mark ?len rs = (ms, me)" by (cases "deletion_mark ?len rs") auto
  have g: "\<forall>p \<le> len. ?g p \<le> ?len" using relocate_for_delete_le [OF _ assms(2,3)] by blast
  have "folds_ok ?len (foldMarkers ?t)"
    unfolding delete_half_fields(7) using assms(1) g
    by (intro fold_emplaces_ok) (auto simp: tracked_ok_def folds_ok_def)
  moreover have "list_all (cursor_in ?len) (secondaryCursors ?t)"
    using delete_half_fields(4) [of ?len rs re t] assms(1) cursor_in_relocate [OF g]
    by (fastforce simp: tracked_ok_def list_all_iff)
  moreover have "ranges_ok (unsavedChangeRanges ?t)" "ranges_ok (saveInFlightRanges ?t)"
    using assms(1) mark_range_deleted_ok [OF _ assms(2) mk] unfolding delete_half_fields(8,9)
    by (simp_all add: mk tracked_ok_def)
  moreover have "pred_option (\<lambda>m. m \<le> ?len) (mark ?t)"
    unfolding delete_half_fields using assms(1) g by (cases "mark t") (simp_all add: tracked_ok_def)
  moreover have "list_all (\<lambda>p. p \<le> ?len) (addedCursorOrder ?t)"
    unfolding delete_half_fields using assms(1) g by (simp add: tracked_ok_def list_all_iff)
  ultimately show ?thesis
    using assms g narrowing_delete_ok [OF _ assms(2,3), of "narrowedRange t"] unfolding tracked_ok_def
    by (simp add: delete_half_fields(1,3))
qed

lemma relocate_unseen_fields:
  fixes t :: "'a tracked_scheme"
  shows "point (relocate_unseen len off old n t) = point t" "mark (relocate_unseen len off old n t) = mark t"
    "narrowedRange (relocate_unseen len off old n t) = narrowedRange t"
    "secondaryCursors (relocate_unseen len off old n t) = secondaryCursors t"
    "addedCursorOrder (relocate_unseen len off old n t) = addedCursorOrder t"
    "foldMarkers (relocate_unseen len off old n t) = foldMarkers t"
    "unsavedChangeRanges (relocate_unseen len off old n t) = unsavedChangeRanges t"
    "saveInFlightRanges (relocate_unseen len off old n t) = saveInFlightRanges t"
    "saving (relocate_unseen len off old n t) = saving t"
    "cursorIterationActive (relocate_unseen len off old n t) = cursorIterationActive t"
    "excerptRanges (relocate_unseen len off old n t) = excerptRanges t"
  by (simp_all add: relocate_unseen_def disarm_unseen_tracking_def)

lemma relocate_unseen_ok: "tracked_ok len (relocate_unseen l off old n t) \<longleftrightarrow> tracked_ok len t"
  by (simp add: tracked_ok_def relocate_unseen_fields)

lemma inserted_ok:
  "tracked_ok len t \<Longrightarrow> 0 < n \<Longrightarrow> tracked_ok (len + n) (relocate_tracked_state l off 0 n t)"
  by (simp add: relocate_tracked_state_def insert_half_ok relocate_unseen_ok)

lemma deleted_ok:
  "tracked_ok len t \<Longrightarrow> 0 < n \<Longrightarrow> off + n \<le> len \<Longrightarrow>
    tracked_ok (len - n) (relocate_tracked_state (len - n) off n 0 t)"
  using delete_half_ok [of len "relocate_unseen (len - n) off n 0 t" off "off + n"]
  by (simp add: relocate_tracked_state_def relocate_unseen_ok)

end
