(* ===== verification/BufferInvariant.thy ===== *)
theory BufferInvariant
  imports Buffer BufferTracked
begin

text \<open>
  The invariant of a buffer and the two ways its content changes: a splice, which every
  insertion and deletion is, and a swap of the whole storage, which undo navigation,
  reverting, merging and restoring are.  Each is shown once to return, to keep the invariant
  and to do to the text, the journal, the saved text and the unsaved ranges what the commands
  need of it.
\<close>

section \<open>The invariant\<close>

definition history_ok :: "heap \<Rightarrow> undo_tree \<Rightarrow> bool" where
  "history_ok h t \<longleftrightarrow> undo_inv t \<and> (\<forall>n \<in> set (nodes t). st_ok h (nodeState n))"

definition journal_below :: "nat \<Rightarrow> edit_journal \<Rightarrow> bool" where
  "journal_below gen j \<longleftrightarrow> list_all (\<lambda>op. generation op \<le> gen) (journalOps j)"

text \<open>The last two clauses: the current undo node holds the text, unless a group of edits is open.\<close>

definition buffer_ok :: "heap \<Rightarrow> buffer \<Rightarrow> bool" where
  "buffer_ok h b \<longleftrightarrow>
     st_ok h (bufStorage b) \<and> st_ok h (savedSnapshot b) \<and> history_ok h (undoTree b) \<and>
     journal_below (contentGeneration b) (editJournal b) \<and> tracked_ok (buf_length b) b \<and>
     (undoGroupDirty b \<or> st_content h (undo_current (undoTree b)) = st_content h (bufStorage b)) \<and>
     (undoGroupDepth b = 0 \<longrightarrow> \<not> undoGroupDirty b)"

text \<open>The text, the saved text, and what the current undo node holds.\<close>

abbreviation content :: "heap \<Rightarrow> buffer \<Rightarrow> bytes" where
  "content h b \<equiv> st_content h (bufStorage b)"

abbreviation saved_content :: "heap \<Rightarrow> buffer \<Rightarrow> bytes" where
  "saved_content h b \<equiv> st_content h (savedSnapshot b)"

abbreviation recorded :: "heap \<Rightarrow> buffer \<Rightarrow> bytes" where
  "recorded h b \<equiv> st_content h (undo_current (undoTree b))"

section \<open>The parts of it\<close>

lemma st_clone_same [simp]: "st_clone st = st"
  by (cases st) (simp_all add: storage_class_defs)

lemma st_length: "st_ok h st \<Longrightarrow> st_byte_length st = length (st_content h st)"
  using any_class.measures by blast

lemma st_reads: "st_ok h st \<Longrightarrow> st_to_string h st = st_content h st"
  using any_class.reads_back by blast

lemma st_kept: "st_ok h st \<Longrightarrow> heap_le h h' \<Longrightarrow> st_ok h' st" "st_ok h st \<Longrightarrow> heap_le h h' \<Longrightarrow> st_content h' st = st_content h st"
  using any_class.kept by blast+

lemma history_ok_later: "history_ok h t \<Longrightarrow> heap_le h h' \<Longrightarrow> history_ok h' t"
  by (auto simp: history_ok_def st_kept)

lemma history_ok_current: "history_ok h t \<Longrightarrow> st_ok h (undo_current t)"
  by (simp add: history_ok_def undo_inv_def undo_current_def)

lemma history_ok_record:
  assumes "history_ok h t" "st_ok h s"
  shows "history_ok h (undo_record t s)" "undo_current (undo_record t s) = s"
proof -
  have "nodeState n \<in> insert s (nodeState ` set (nodes t))" if "n \<in> set (nodes (undo_record t s))" for n
    using that assms(1)
    by (auto simp: undo_record_def Let_def history_ok_def undo_inv_def dest!: set_update_subset_insert [THEN subsetD])
  with assms show "history_ok h (undo_record t s)"
    by (fastforce simp: history_ok_def undo_record_inv)
  show "undo_current (undo_record t s) = s"
    using assms(1) undo_after_record(3) by (simp add: history_ok_def)
qed

lemma history_ok_amend:
  assumes "history_ok h t" "st_ok h s"
  shows "history_ok h (undo_amend t s)" "undo_current (undo_amend t s) = s"
proof -
  have "nodeState n \<in> insert s (nodeState ` set (nodes t))" if "n \<in> set (nodes (undo_amend t s))" for n
    using that by (auto simp: undo_amend_def dest!: set_update_subset_insert [THEN subsetD])
  with assms show "history_ok h (undo_amend t s)"
    by (fastforce simp: history_ok_def undo_amend_inv)
  show "undo_current (undo_amend t s) = s"
    using assms(1) by (simp add: undo_amend_def undo_current_def history_ok_def undo_inv_def)
qed

lemma trim_ops_sub: "trim_ops ops oldest = (ops', oldest') \<Longrightarrow> set ops' \<subseteq> set ops"
  by (induction ops oldest rule: trim_ops.induct) (auto split: if_splits)

lemma journal_record_next:
  assumes "journal_below gen j" "generation op = gen + 1"
  shows "\<exists>j'. journal_record j op = Some j' \<and> journal_below (gen + 1) j'"
proof -
  obtain ops oldest where t: "trim_ops (journalOps j @ [op]) (oldestReachable j) = (ops, oldest)" by fastforce
  have "journalOps j = [] \<or> generation op > generation (last (journalOps j))"
    using assms by (cases "journalOps j = []") (simp_all add: journal_below_def list_all_iff less_Suc_eq_le)
  moreover have "list_all (\<lambda>op'. generation op' \<le> gen + 1) ops"
    using trim_ops_sub [OF t] assms by (fastforce simp: journal_below_def list_all_iff)
  ultimately show ?thesis using t by (simp add: journal_record_def journal_below_def)
qed

lemma commit_op_result:
  assumes "journal_below (contentGeneration b) (editJournal b)" "generation (op (contentGeneration b + 1)) = contentGeneration b + 1"
  shows "\<exists>j. journal_record (editJournal b) (op (contentGeneration b + 1)) = Some j \<and>
    journal_below (contentGeneration b + 1) j \<and>
    commit_op op move b =
      Some (b\<lparr>contentGeneration := contentGeneration b + 1, editJournal := j, anchorSet := move (anchorSet b)\<rparr>)"
  using journal_record_next [OF assms] by (auto simp: commit_op_def Let_def)

section \<open>What recording an undo step touches\<close>

text \<open>Everything but the history: the fields the invariant and the properties read.\<close>

definition same_document :: "buffer \<Rightarrow> buffer \<Rightarrow> bool" where
  "same_document b b' \<longleftrightarrow>
     bufStorage b' = bufStorage b \<and> savedSnapshot b' = savedSnapshot b \<and>
     contentGeneration b' = contentGeneration b \<and> editJournal b' = editJournal b \<and>
     tracked.truncate b' = tracked.truncate b \<and> undoGroupDepth b' = undoGroupDepth b \<and>
     savingSnapshotBytes b' = savingSnapshotBytes b \<and> readOnly b' = readOnly b"

lemma tracked_ok_truncate: "tracked_ok len t \<longleftrightarrow> tracked_ok len (tracked.truncate t)"
  by (simp add: tracked_ok_def tracked.truncate_def)

lemma same_document_tracked:
  "same_document b b' \<Longrightarrow> tracked_ok len b' \<longleftrightarrow> tracked_ok len b"
  "same_document b b' \<Longrightarrow> unsavedChangeRanges b' = unsavedChangeRanges b"
  "same_document b b' \<Longrightarrow> saveInFlightRanges b' = saveInFlightRanges b"
  "same_document b b' \<Longrightarrow> saving b' = saving b"
  "same_document b b' \<Longrightarrow> excerptRanges b' = excerptRanges b"
  "same_document b b' \<Longrightarrow> point b' = point b"
  "same_document b b' \<Longrightarrow> cursorIterationActive b' = cursorIterationActive b"
  "same_document b b' \<Longrightarrow> secondaryCursors b' = secondaryCursors b"
  using tracked_ok_truncate [of len b] tracked_ok_truncate [of len b']
  by (simp_all add: same_document_def tracked.truncate_def)

lemma record_undo_same: "same_document b (record_undo b)"
  by (simp add: same_document_def record_undo_def snapshot_excerpt_range_offsets_def tracked.truncate_def)

lemma amend_undo_same: "same_document b (amend_undo b)"
  by (simp add: same_document_def amend_undo_def snapshot_excerpt_range_offsets_def tracked.truncate_def)

lemma record_undo_fields:
  "undoTree (record_undo b) = undo_record (undoTree b) (bufStorage b)"
  "undoGroupDirty (record_undo b) = undoGroupDirty b"
  by (simp_all add: record_undo_def snapshot_excerpt_range_offsets_def)

lemma amend_undo_fields:
  "undoTree (amend_undo b) = undo_amend (undoTree b) (bufStorage b)"
  "undoGroupDirty (amend_undo b) = undoGroupDirty b"
  by (simp_all add: amend_undo_def snapshot_excerpt_range_offsets_def)

text \<open>Recording: the history follows the text, or the open group is marked.\<close>

lemma record_or_amend_result:
  fixes b :: buffer and can :: bool
  assumes "history_ok h (undoTree b)" "st_ok h (bufStorage b)"
  defines "b' \<equiv> record_or_amend_undo can b"
  shows "same_document b b'" "history_ok h (undoTree b')"
    "0 < undoGroupDepth b \<Longrightarrow> undoTree b' = undoTree b \<and> undoGroupDirty b'"
    "undoGroupDepth b = 0 \<Longrightarrow> undoGroupDirty b' = undoGroupDirty b \<and> recorded h b' = content h b"
proof -
  let ?b = "b\<lparr>canAmendLoadAppend := False\<rparr>"
  have same: "same_document c (f x c)" if "f = (\<lambda>x b. b\<lparr>canAmend := x\<rparr>) \<or> f = (\<lambda>x b. b\<lparr>canAmendLoadAppend := x\<rparr>) \<or>
      f = (\<lambda>x b. b\<lparr>undoGroupDirty := x\<rparr>)" for f x c
    using that by (auto simp: same_document_def tracked.truncate_def)
  show "same_document b b'"
    using same record_undo_same [of ?b] amend_undo_same [of ?b] unfolding b'_def
    by (auto simp: record_or_amend_undo_def Let_def same_document_def tracked.truncate_def)
  show "history_ok h (undoTree b')"
    using assms(1,2) history_ok_record(1) history_ok_amend(1) unfolding b'_def
    by (simp add: record_or_amend_undo_def Let_def record_undo_fields amend_undo_fields)
  show "0 < undoGroupDepth b \<Longrightarrow> undoTree b' = undoTree b \<and> undoGroupDirty b'"
    unfolding b'_def by (simp add: record_or_amend_undo_def)
  show "undoGroupDepth b = 0 \<Longrightarrow> undoGroupDirty b' = undoGroupDirty b \<and> recorded h b' = content h b"
    using assms(1,2) history_ok_record(2) history_ok_amend(2) unfolding b'_def
    by (simp add: record_or_amend_undo_def Let_def record_undo_fields amend_undo_fields)
qed

section \<open>Splicing\<close>

text \<open>
  What an edit at \<open>off\<close> that replaces \<open>old\<close> bytes by \<open>ins\<close> has to leave: the text, one journal
  operation that says so, the history, and unsaved ranges that are not empty unless the text is.
\<close>

definition relocate_excerpt :: "offset \<Rightarrow> nat \<Rightarrow> nat \<Rightarrow> excerpt_range \<Rightarrow> excerpt_range" where
  "relocate_excerpt off old n r =
     (if 0 < n then relocate_excerpt_for_insert off n r
      else r\<lparr>excerptStart := relocate_for_delete off (off + old) (excerptStart r),
             excerptEnd := relocate_for_delete off (off + old) (excerptEnd r)\<rparr>)"

definition spliced :: "world \<Rightarrow> world \<Rightarrow> offset \<Rightarrow> nat \<Rightarrow> bytes \<Rightarrow> bool" where
  "spliced w w' off old ins \<longleftrightarrow> (let (h, b) = w; (h', b') = w' in
     heap_le h h' \<and> buffer_ok h' b' \<and>
     off + old \<le> length (content h b) \<and>
     content h' b' = take off (content h b) @ ins @ drop (off + old) (content h b) \<and>
     contentGeneration b' = contentGeneration b + 1 \<and>
     journal_record (editJournal b) (op_replaced (contentGeneration b + 1) off old (length ins)) =
       Some (editJournal b') \<and>
     savedSnapshot b' = savedSnapshot b \<and> saving b' = saving b \<and> undoGroupDepth b' = undoGroupDepth b \<and>
     savingSnapshotBytes b' = savingSnapshotBytes b \<and>
     (unsavedChangeRanges b' = [] \<longrightarrow> content h' b' = []) \<and>
     (saving b \<longrightarrow> saveInFlightRanges b' = [] \<longrightarrow> content h' b' = []) \<and>
     (0 < undoGroupDepth b \<longrightarrow> undoTree b' = undoTree b \<and> undoGroupDirty b') \<and>
     (undoGroupDepth b = 0 \<longrightarrow> undoGroupDirty b' = undoGroupDirty b \<and> recorded h' b' = content h' b') \<and>
     cursorIterationActive b' = cursorIterationActive b \<and>
     (cursorIterationActive b \<longrightarrow> length (secondaryCursors b') = length (secondaryCursors b)) \<and>
     excerptRanges b' = map (relocate_excerpt off old (length ins)) (excerptRanges b))"

lemma relocate_keeps_document:
  fixes b :: buffer
  defines "keeps \<equiv> \<lambda>c :: buffer. bufStorage c = bufStorage b \<and> savedSnapshot c = savedSnapshot b \<and>
    contentGeneration c = contentGeneration b \<and> editJournal c = editJournal b \<and> undoTree c = undoTree b \<and>
    undoGroupDepth c = undoGroupDepth b \<and> undoGroupDirty c = undoGroupDirty b \<and>
    savingSnapshotBytes c = savingSnapshotBytes b"
  shows "keeps (relocate_tracked_state l off 0 n b)" "keeps (relocate_tracked_state l off n 0 b)"
  by (simp_all add: keeps_def relocate_tracked_state_def relocate_unseen_def disarm_unseen_tracking_def
      insert_half_defs delete_half_defs Let_def)

lemma buffer_okD:
  assumes "buffer_ok h b"
  shows "st_ok h (bufStorage b)" "st_ok h (savedSnapshot b)" "history_ok h (undoTree b)"
    "journal_below (contentGeneration b) (editJournal b)" "tracked_ok (length (content h b)) b"
    "buf_length b = length (content h b)" "undoGroupDirty b \<or> recorded h b = content h b"
    "undoGroupDepth b = 0 \<Longrightarrow> \<not> undoGroupDirty b"
  using assms by (auto simp: buffer_ok_def simp flip: st_length)

text \<open>The end every splice comes to, \<open>b1\<close> being the buffer with its positions relocated.\<close>

lemma splice_committed:
  assumes ok: "buffer_ok h b" and heap: "heap_le h h'" "st_ok h' st'"
    and splice: "off + old \<le> length (content h b)"
      "st_content h' st' = take off (content h b) @ ins @ drop (off + old) (content h b)"
    and keeps: "bufStorage b1 = st'" "savedSnapshot b1 = savedSnapshot b" "contentGeneration b1 = contentGeneration b"
      "editJournal b1 = editJournal b" "undoTree b1 = undoTree b" "undoGroupDepth b1 = undoGroupDepth b"
      "undoGroupDirty b1 = undoGroupDirty b" "saving b1 = saving b" "savingSnapshotBytes b1 = savingSnapshotBytes b"
      "cursorIterationActive b1 = cursorIterationActive b"
      "cursorIterationActive b \<Longrightarrow> length (secondaryCursors b1) = length (secondaryCursors b)"
      "excerptRanges b1 = map (relocate_excerpt off old (length ins)) (excerptRanges b)"
    and tracked: "tracked_ok (length (st_content h' st')) b1"
    and marks: "unsavedChangeRanges b1 = [] \<longrightarrow> st_content h' st' = []"
      "saving b \<longrightarrow> saveInFlightRanges b1 = [] \<longrightarrow> st_content h' st' = []"
    and op: "op (contentGeneration b + 1) = op_replaced (contentGeneration b + 1) off old (length ins)"
  shows "\<exists>b2. commit_op op move b1 = Some b2 \<and>
    spliced (h, b) (h', (record_or_amend_undo can b2)\<lparr>goalColumn := None\<rparr>) off old ins"
proof -
  note st = buffer_okD [OF ok]
  obtain j where j: "journal_record (editJournal b) (op (contentGeneration b + 1)) = Some j"
    "journal_below (contentGeneration b + 1) j"
    "commit_op op move b1 =
      Some (b1\<lparr>contentGeneration := contentGeneration b + 1, editJournal := j, anchorSet := move (anchorSet b1)\<rparr>)"
    using commit_op_result [of b1 op move] keeps st(4) op by (auto simp: op_replaced_def)
  define b2 where "b2 = b1\<lparr>contentGeneration := contentGeneration b + 1, editJournal := j,
    anchorSet := move (anchorSet b1)\<rparr>"
  have committed: "commit_op op move b1 = Some b2" using j(3) by (simp add: b2_def)
  define b3 where "b3 = record_or_amend_undo can b2"
  have b2: "bufStorage b2 = st'" "undoTree b2 = undoTree b" "undoGroupDepth b2 = undoGroupDepth b"
    "undoGroupDirty b2 = undoGroupDirty b"
    using keeps by (simp_all add: b2_def)
  note r = record_or_amend_result [of h' b2 can, folded b3_def, unfolded b2, OF history_ok_later [OF st(3) heap(1)] heap(2)]
  have fields: "bufStorage b3 = st'" "savedSnapshot b3 = savedSnapshot b" "contentGeneration b3 = contentGeneration b + 1"
    "editJournal b3 = j" "undoGroupDepth b3 = undoGroupDepth b" "savingSnapshotBytes b3 = savingSnapshotBytes b"
    using r(1) b2 keeps by (simp_all add: same_document_def) (simp_all add: b2_def)
  have tracked2: "tracked_ok (length (st_content h' st')) b3"
    using tracked same_document_tracked(1) [OF r(1)] by (simp add: b2_def) (simp add: tracked_ok_def)
  have "buffer_ok h' (b3\<lparr>goalColumn := None\<rparr>)"
    using heap(2) st_kept(1) [OF st(2) heap(1)] r(2-4) j(2) tracked2 st_length [OF heap(2)] st(8)
    by (cases "undoGroupDepth b = 0") (simp_all add: buffer_ok_def fields, simp_all add: tracked_ok_def)
  moreover have "unsavedChangeRanges b3 = unsavedChangeRanges b1" "saveInFlightRanges b3 = saveInFlightRanges b1"
    "saving b3 = saving b" "cursorIterationActive b3 = cursorIterationActive b"
    "cursorIterationActive b \<Longrightarrow> length (secondaryCursors b3) = length (secondaryCursors b)"
    "excerptRanges b3 = map (relocate_excerpt off old (length ins)) (excerptRanges b)"
    using same_document_tracked [OF r(1)] keeps(8,10-12) by (simp_all add: b2_def)
  ultimately show ?thesis
    using heap splice marks j(1) op r(3,4) b2 committed
    by (intro exI [of _ b2]) (simp add: spliced_def fields b3_def [symmetric])
qed

lemma insert_spliced:
  assumes ok: "buffer_ok h b" and s: "chunkable kChunkSize s" "s \<noteq> []" and off: "off \<le> length (content h b)"
  shows "\<exists>h' b'. insert_text can off s (h, b) = Some (Done (), h', b') \<and> spliced (h, b) (h', b') off 0 s"
proof -
  obtain h' st' where i: "st_inserted h (bufStorage b) off s = Some (h', st')" "heap_le h h'" "st_ok h' st'"
    "st_content h' st' = splice_in (content h b) off s"
    using any_class.inserted [OF buffer_okD(1) [OF ok] s(1)] by blast
  define b1 where "b1 = relocate_tracked_state (buf_length (b\<lparr>bufStorage := st'\<rparr>)) off 0 (length s) (b\<lparr>bufStorage := st'\<rparr>)"
  note keeps = relocate_keeps_document(1) [of "buf_length (b\<lparr>bufStorage := st'\<rparr>)" off "length s" "b\<lparr>bufStorage := st'\<rparr>",
      folded b1_def, simplified]
  have b1: "tracked_ok (length (content h b) + length s) b1" "unsavedChangeRanges b1 \<noteq> []" "saving b1 = saving b"
    "saving b \<Longrightarrow> saveInFlightRanges b1 \<noteq> []" "cursorIterationActive b1 = cursorIterationActive b"
    "length (secondaryCursors b1) = length (secondaryCursors b)"
    "excerptRanges b1 = map (relocate_excerpt off 0 (length s)) (excerptRanges b)"
    using inserted_ok [of "length (content h b)" "b\<lparr>bufStorage := st'\<rparr>" "length s"] buffer_okD(5) [OF ok] s(2)
    by (simp_all add: b1_def tracked_ok_def)
      (simp_all add: relocate_tracked_state_def insert_half_fields relocate_unseen_fields relocate_excerpt_def)
  have "\<exists>b2. commit_insert off (length s) b1 = Some b2 \<and>
    spliced (h, b) (h', (record_or_amend_undo can b2)\<lparr>goalColumn := None\<rparr>) off 0 s"
    unfolding commit_insert_def
    by (rule splice_committed [OF ok i(2,3)])
      (use off keeps b1 i(4) in \<open>simp_all add: splice_in_def op_inserted_def op_replaced_def add.commute\<close>)
  then show ?thesis using i(1) by (auto simp: insert_text_def apply_insert_def b1_def)
qed

lemma erase_spliced:
  assumes ok: "buffer_ok h b" and range: "rs < re" "re \<le> length (content h b)"
  shows "\<exists>b'. erase_text rs re (h, b) = Some (h, b') \<and> spliced (h, b) (h, b') rs (re - rs) []"
proof -
  define st' where "st' = st_erased h (bufStorage b) rs (re - rs)"
  define len where "len = length (content h b) - (re - rs)"
  have e: "st_ok h st'" "st_content h st' = cut_out (content h b) rs (re - rs)" "length (st_content h st') = len"
    using any_class.erased [OF buffer_okD(1) [OF ok]] range by (simp_all add: st'_def len_def)
  have len: "st_byte_length st' = len" using st_length [OF e(1)] e(3) by simp
  define b1 where "b1 = relocate_tracked_state len rs (re - rs) 0 (b\<lparr>bufStorage := st'\<rparr>)"
  note keeps = relocate_keeps_document(2) [of len rs "re - rs" "b\<lparr>bufStorage := st'\<rparr>", folded b1_def, simplified]
  have ne: "mark_range_deleted ranges rs re (fst (deletion_mark len rs)) (snd (deletion_mark len rs)) = [] \<Longrightarrow>
      st_content h st' = []" for ranges
    using mark_range_deleted_ne [OF prod.collapse [symmetric], where len = len and rs = rs and ranges = ranges and re = re] e(3) by fastforce
  have "tracked_ok len b1"
    using deleted_ok [of "length (content h b)" "b\<lparr>bufStorage := st'\<rparr>" "re - rs" rs] buffer_okD(5) [OF ok] range
    by (simp add: b1_def len_def tracked_ok_def)
  moreover have "saving b1 = saving b" "unsavedChangeRanges b1 = [] \<Longrightarrow> st_content h st' = []"
    "saving b \<Longrightarrow> saveInFlightRanges b1 = [] \<Longrightarrow> st_content h st' = []"
    "cursorIterationActive b1 = cursorIterationActive b"
    "cursorIterationActive b \<Longrightarrow> length (secondaryCursors b1) = length (secondaryCursors b)"
    "excerptRanges b1 = map (relocate_excerpt rs (re - rs) 0) (excerptRanges b)"
    using range ne by (simp_all add: b1_def relocate_tracked_state_def delete_half_fields(5,8-12) relocate_unseen_fields
        relocate_excerpt_def)
  ultimately have "\<exists>b2. commit_delete rs re b1 = Some b2 \<and>
    spliced (h, b) (h, (record_or_amend_undo False b2)\<lparr>goalColumn := None\<rparr>) rs (re - rs) []"
    unfolding commit_delete_def using range keeps e
    by (intro splice_committed [OF ok _ e(1)]) (simp_all add: cut_out_def op_deleted_def op_replaced_def)
  then show ?thesis by (auto simp: erase_text_def apply_delete_def st'_def [symmetric] len b1_def)
qed

section \<open>Swapping the storage\<close>

lemma snap_ok:
  assumes "st_ok h st"
  shows "\<exists>p. snap_to_grapheme_boundary storage_class brk h st off = Some p \<and> p \<le> length (st_content h st)"
  using any_codepoints.snap_grapheme [OF assms] .

lemma clamp_result:
  assumes "st_ok h (bufStorage b)" "sorted_wrt (<) (map fst (foldMarkers b))"
  shows "\<exists>p mk nr fm sr. clamp_cursors_to_content brk h b =
      Some (b\<lparr>point := p, mark := mk, narrowedRange := nr, foldMarkers := fm, snippetRanges := sr\<rparr>) \<and>
    p \<le> length (content h b) \<and> pred_option (\<lambda>m. m \<le> length (content h b)) mk \<and>
    pred_option (\<lambda>r. fst r \<le> snd r \<and> snd r \<le> length (content h b)) nr \<and> folds_ok (length (content h b)) fm"
proof -
  let ?len = "length (content h b)"
  note len = st_length [OF assms(1)]
  obtain p where p: "snap_to_grapheme_boundary storage_class brk h (bufStorage b) (min (point b) ?len) = Some p" "p \<le> ?len"
    using snap_ok [OF assms(1)] by blast
  obtain mk where mk: "(case mark b of None \<Rightarrow> Some None | Some m \<Rightarrow>
      snap_to_grapheme_boundary storage_class brk h (bufStorage b) (min m ?len) \<bind> (\<lambda>m'. Some (Some m'))) = Some mk"
    "pred_option (\<lambda>m. m \<le> ?len) mk"
  proof (cases "mark b")
    case (Some m)
    then show ?thesis using that snap_ok [OF assms(1), of brk "min m ?len"] by force
  qed (use that in simp)
  have "folds_ok ?len (filter (\<lambda>e. fst e \<le> ?len) (foldMarkers b))"
    using assms(2) by (simp add: folds_ok_def sorted_wrt_map sorted_wrt_filter)
  moreover have "pred_option (\<lambda>r. fst r \<le> snd r \<and> snd r \<le> ?len)
      (narrowedRange b \<bind> (\<lambda>(s, e). if min s ?len \<ge> min e ?len then None else Some (min s ?len, min e ?len)))"
    by (cases "narrowedRange b") auto
  moreover have "clamp_cursors_to_content brk h b =
      Some (b\<lparr>point := p, mark := mk,
        narrowedRange := narrowedRange b \<bind> (\<lambda>(s, e). if min s ?len \<ge> min e ?len then None else Some (min s ?len, min e ?len)),
        foldMarkers := filter (\<lambda>e. fst e \<le> ?len) (foldMarkers b),
        snippetRanges := (if list_ex (\<lambda>r. snippetEnd r > ?len) (snippetRanges b) then [] else snippetRanges b)\<rparr>)"
    using p mk by (simp add: clamp_cursors_to_content_def len Let_def)
  ultimately show ?thesis using p(2) mk(2) by blast
qed

lemma unchanged_field [simp]:
  fixes b :: buffer
  shows "\<exists>xs. b = b\<lparr>excerptRanges := xs\<rparr>" "\<exists>ds. b = b\<lparr>diagnostics := ds\<rparr>" "\<exists>g. b = b\<lparr>unsavedChangeGeneration := g\<rparr>"
  by (rule exI [of _ "excerptRanges b"] exI [of _ "diagnostics b"] exI [of _ "unsavedChangeGeneration b"], simp)+

lemma restored_ranges:
  assumes "st_ok h old" "st_ok h (bufStorage b)" "st_ok h (savedSnapshot b)"
    "ranges_ok (unsavedChangeRanges b)" "ranges_ok (saveInFlightRanges b)"
  shows "\<exists>us fs g. update_unsaved_ranges_for_restore h old b =
      b\<lparr>unsavedChangeRanges := us, saveInFlightRanges := fs, unsavedChangeGeneration := g\<rparr> \<and>
    ranges_ok us \<and> ranges_ok fs \<and>
    (us = [] \<longrightarrow> content h b = [] \<or> content h b = saved_content h b \<or>
      content h b = st_content h old \<and> unsavedChangeRanges b = [])"
proof (cases "content h b = saved_content h b")
  case True
  then have "storage_content_equals h (bufStorage b) (savedSnapshot b)"
    using storage_content_equals_exact [OF assms(2,3)] by simp
  with True assms(4,5) show ?thesis
    by (intro exI [of _ "[]"] exI [of _ "saveInFlightRanges b"]
        exI [of _ "if unsavedChangeRanges b = [] then unsavedChangeGeneration b else unsavedChangeGeneration b + 1"])
      (simp add: update_unsaved_ranges_for_restore_def)
next
  case False
  then have ne: "\<not> storage_content_equals h (bufStorage b) (savedSnapshot b)"
    using storage_content_equals_exact [OF assms(2,3)] by simp
  show ?thesis
  proof (cases "changed_byte_range h old (bufStorage b)")
    case None
    then have "content h b = st_content h old"
      using changed_byte_range_cases [OF assms(1,2)] by (simp split: if_splits)
    with ne None assms(4,5) show ?thesis
      by (intro exI [of _ "unsavedChangeRanges b"] exI [of _ "saveInFlightRanges b"] exI [of _ "unsavedChangeGeneration b"])
        (simp add: update_unsaved_ranges_for_restore_def)
  next
    case (Some sp)
    let ?del = "\<lambda>rs. mark_range_deleted rs (oldStart sp) (oldEnd sp)
      (fst (deletion_mark (buf_length b) (oldStart sp))) (snd (deletion_mark (buf_length b) (oldStart sp)))"
    let ?d = "\<lambda>on rs. if on \<and> oldEnd sp > oldStart sp then ?del rs else rs"
    let ?i = "\<lambda>on rs. if on \<and> newEnd sp > newStart sp then mark_range_inserted rs (newStart sp) (newEnd sp - newStart sp) else rs"
    have region: "region_of (st_content h old) (content h b) sp"
      using changed_byte_range_region [OF assms(1,2) Some] by simp
    then have order: "oldStart sp \<le> oldEnd sp" "newStart sp \<le> newEnd sp" by (simp_all add: region_of_def)
    have "st_content h old \<noteq> content h b"
      using changed_byte_range_cases [OF assms(1,2)] Some by (simp split: if_splits)
    then have half: "oldStart sp < oldEnd sp \<or> newStart sp < newEnd sp"
      using region order by (metis append_take_drop_id le_neq_implies_less region_of_def)
    have del_ok: "ranges_ok rs \<Longrightarrow> ranges_ok (?d on rs)" for on rs
      using mark_range_deleted_ok [OF _ order(1) prod.collapse [symmetric]] by simp
    have ins_ok: "ranges_ok rs \<Longrightarrow> ranges_ok (?i on rs)" for on rs
      by (simp add: mark_range_inserted_ok)
    have "?i True (?d True rs) = [] \<Longrightarrow> content h b = []" for rs
      using half mark_range_deleted_ne [OF prod.collapse [symmetric], where len = "buf_length b" and rs = "oldStart sp" and
          ranges = rs and re = "oldEnd sp"]
        st_length [OF assms(2)] by (auto split: if_splits)
    moreover have "\<exists>g. update_unsaved_ranges_for_restore h old b = b\<lparr>unsavedChangeRanges := ?i True (?d True (unsavedChangeRanges b)),
        saveInFlightRanges := ?i (saving b) (?d (saving b) (saveInFlightRanges b)), unsavedChangeGeneration := g\<rparr>"
      using ne Some by (auto simp: update_unsaved_ranges_for_restore_def by_halves_def mark_deleted_eq
          mark_unsaved_range_inserted_def Let_def)
    ultimately show ?thesis
      using ins_ok [OF del_ok [OF assms(4)]] ins_ok [OF del_ok [OF assms(5)]] by blast
  qed
qed

lemma restored_excerpts:
  "\<exists>xs. snd (restore_excerpt_range_offsets b) = b\<lparr>excerptRanges := xs\<rparr>"
  "\<exists>xs. update_excerpt_ranges_for_restore h old b = b\<lparr>excerptRanges := xs\<rparr>"
  by (cases "excerptSnapshots b (current_sequence (undoTree b))"; cases "changed_byte_range h old (bufStorage b)";
      auto simp: restore_excerpt_range_offsets_def update_excerpt_ranges_for_restore_def by_halves_def
        relocate_excerpts_for_delete_def relocate_excerpts_for_insert_def Let_def)+

lemma restored_diagnostics: "\<exists>ds. update_diagnostics_for_restore h old b = b\<lparr>diagnostics := ds\<rparr>"
  by (cases "changed_byte_range h old (bufStorage b)")
    (auto simp: update_diagnostics_for_restore_def by_halves_def relocate_diagnostics_for_delete_def
      relocate_diagnostics_for_insert_def Let_def)

text \<open>What a swap has to leave; \<open>t\<close> is the history it leaves.\<close>

definition swapped :: "world \<Rightarrow> world \<Rightarrow> undo_tree \<Rightarrow> bytes \<Rightarrow> bool" where
  "swapped w w' t new \<longleftrightarrow> (let (h, b) = w; (h', b') = w' in
     h' = h \<and> buffer_ok h b' \<and> content h b' = new \<and> undoTree b' = t \<and>
     (\<exists>off old ins. off + old \<le> length (content h b) \<and>
        new = take off (content h b) @ ins @ drop (off + old) (content h b) \<and>
        contentGeneration b' = contentGeneration b + 1 \<and>
        journal_record (editJournal b) (op_replaced (contentGeneration b + 1) off old (length ins)) =
          Some (editJournal b')) \<and>
     savedSnapshot b' = savedSnapshot b \<and> saving b' = saving b \<and>
     undoGroupDepth b' = undoGroupDepth b \<and> undoGroupDirty b' = undoGroupDirty b \<and>
     (unsavedChangeRanges b' = [] \<longrightarrow>
        new = [] \<or> new = saved_content h b \<or> new = content h b \<and> unsavedChangeRanges b = []))"

lemma changed_range_journaled:
  assumes "st_ok h a" "st_ok h c"
  shows "\<exists>off old ins. off + old \<le> length (st_content h a) \<and>
    st_content h c = take off (st_content h a) @ ins @ drop (off + old) (st_content h a) \<and>
    (case changed_byte_range h a c of
       Some sp \<Rightarrow> commit_replace (oldStart sp) (oldEnd sp - oldStart sp) (newEnd sp - newStart sp)
     | None \<Rightarrow> commit_replace 0 0 0) = commit_replace off old (length ins)"
proof (cases "changed_byte_range h a c")
  case None
  then have "st_content h a = st_content h c"
    using changed_byte_range_cases [OF assms] by (simp split: if_splits)
  then show ?thesis using None by (intro exI [of _ 0] exI [of _ "[]"]) simp
next
  case (Some sp)
  let ?A = "st_content h a" and ?C = "st_content h c"
  have r: "newStart sp = oldStart sp" "oldStart sp \<le> oldEnd sp" "oldEnd sp \<le> length ?A" "newStart sp \<le> newEnd sp"
    "newEnd sp \<le> length ?C" "take (oldStart sp) ?A = take (newStart sp) ?C" "drop (oldEnd sp) ?A = drop (newEnd sp) ?C"
    using changed_byte_range_region [OF assms Some] by (simp_all add: region_of_def)
  have "?C = take (newStart sp) ?C @ substr ?C (newStart sp) (newEnd sp - newStart sp) @ drop (newEnd sp) ?C"
    using substr_append_take_drop [of "newStart sp" ?C "newEnd sp - newStart sp"] r by simp
  then show ?thesis
    using Some r by (intro exI [of _ "oldStart sp"] exI [of _ "oldEnd sp - oldStart sp"]
        exI [of _ "substr ?C (newStart sp) (newEnd sp - newStart sp)"]) simp
qed

lemma navigation_swapped:
  assumes ok: "buffer_ok h b" and t: "history_ok h t"
  shows "\<exists>b'. apply_undo_tree_navigation brk (bufStorage b) (h, b\<lparr>undoTree := t\<rparr>) = Some (h, b') \<and>
    swapped (h, b) (h, b') t (st_content h (undo_current t))"
proof -
  note st = buffer_okD [OF ok]
  have new: "st_ok h (undo_current t)" by (rule history_ok_current [OF t])
  let ?b1 = "(clear_secondary_cursors (b\<lparr>undoTree := t, bufStorage := undo_current t\<rparr>))\<lparr>snippetRanges := []\<rparr>"
  obtain p mk nr fm sr where c: "clamp_cursors_to_content brk h ?b1 =
      Some (?b1\<lparr>point := p, mark := mk, narrowedRange := nr, foldMarkers := fm, snippetRanges := sr\<rparr>)"
    "p \<le> length (st_content h (undo_current t))" "pred_option (\<lambda>m. m \<le> length (st_content h (undo_current t))) mk"
    "pred_option (\<lambda>r. fst r \<le> snd r \<and> snd r \<le> length (st_content h (undo_current t))) nr"
    "folds_ok (length (st_content h (undo_current t))) fm"
    using clamp_result [of h ?b1 brk] new st(5) by (auto simp: clear_secondary_cursors_def tracked_ok_def folds_ok_def)
  define b2 where "b2 = ?b1\<lparr>point := p, mark := mk, narrowedRange := nr, foldMarkers := fm, snippetRanges := sr\<rparr>"
  have clamped: "clamp_cursors_to_content brk h ?b1 = Some b2" using c(1) by (simp add: b2_def)
  define b3 where "b3 = b2\<lparr>canAmend := False, canAmendLoadAppend := False, goalColumn := None\<rparr>"
  have b3: "bufStorage b3 = undo_current t" "editJournal b3 = editJournal b" "contentGeneration b3 = contentGeneration b"
    by (simp_all add: b3_def b2_def clear_secondary_cursors_def)
  obtain off old ins where spl: "off + old \<le> length (content h b)"
    "st_content h (undo_current t) = take off (content h b) @ ins @ drop (off + old) (content h b)"
    "(case changed_byte_range h (bufStorage b) (undo_current t) of
       Some sp \<Rightarrow> commit_replace (oldStart sp) (oldEnd sp - oldStart sp) (newEnd sp - newStart sp)
     | None \<Rightarrow> commit_replace 0 0 0) = commit_replace off old (length ins)"
    using changed_range_journaled [OF st(1) new] by blast
  obtain j where j: "journal_record (editJournal b) (op_replaced (contentGeneration b + 1) off old (length ins)) = Some j"
    "journal_below (contentGeneration b + 1) j"
    "commit_replace off old (length ins) b3 =
      Some (b3\<lparr>contentGeneration := contentGeneration b + 1, editJournal := j,
               anchorSet := anchor_apply_edit (anchorSet b3) off old (length ins)\<rparr>)"
    using commit_op_result [of b3 "\<lambda>gen. op_replaced gen off old (length ins)"] st(4) b3
    by (auto simp: commit_replace_def op_replaced_def)
  define b4 where "b4 = b3\<lparr>contentGeneration := contentGeneration b + 1, editJournal := j,
               anchorSet := anchor_apply_edit (anchorSet b3) off old (length ins)\<rparr>"
  have "ranges_ok (unsavedChangeRanges b4)" "ranges_ok (saveInFlightRanges b4)" "st_ok h (bufStorage b4)" "st_ok h (savedSnapshot b4)"
    using st new by (simp_all add: b4_def b3_def b2_def clear_secondary_cursors_def tracked_ok_def)
  from restored_ranges [OF st(1) this(3,4,1,2)] obtain us fl g where
    u: "update_unsaved_ranges_for_restore h (bufStorage b) b4 =
      b4\<lparr>unsavedChangeRanges := us, saveInFlightRanges := fl, unsavedChangeGeneration := g\<rparr>"
    "ranges_ok us" "ranges_ok fl" "us = [] \<longrightarrow> content h b4 = [] \<or> content h b4 = saved_content h b4 \<or>
      content h b4 = content h b \<and> unsavedChangeRanges b4 = []" by blast
  define b5 where "b5 = b4\<lparr>unsavedChangeRanges := us, saveInFlightRanges := fl, unsavedChangeGeneration := g\<rparr>"
  obtain kept xs where xs: "restore_excerpt_range_offsets b5 = (kept, b5\<lparr>excerptRanges := xs\<rparr>)"
    using restored_excerpts(1) [of b5] by (metis prod.collapse)
  obtain ys where ys: "(if kept then b5\<lparr>excerptRanges := xs\<rparr>
      else update_excerpt_ranges_for_restore h (bufStorage b) (b5\<lparr>excerptRanges := xs\<rparr>)) = b5\<lparr>excerptRanges := ys\<rparr>"
    using restored_excerpts(2) [of h "bufStorage b" "b5\<lparr>excerptRanges := xs\<rparr>"] by (cases "kept") auto
  obtain ds where ds: "update_diagnostics_for_restore h (bufStorage b) (b5\<lparr>excerptRanges := ys\<rparr>) =
      b5\<lparr>excerptRanges := ys, diagnostics := ds\<rparr>"
    using restored_diagnostics [of h "bufStorage b" "b5\<lparr>excerptRanges := ys\<rparr>"] by auto
  define b6 where "b6 = b5\<lparr>excerptRanges := ys, diagnostics := ds\<rparr>"
  have "apply_undo_tree_navigation brk (bufStorage b) (h, b\<lparr>undoTree := t\<rparr>) = Some (h, b6)"
  proof -
    have nav: "(case changed_byte_range h (bufStorage b) (bufStorage b3) of
       Some sp \<Rightarrow> commit_replace (oldStart sp) (oldEnd sp - oldStart sp) (newEnd sp - newStart sp) b3
     | None \<Rightarrow> commit_replace 0 0 0 b3) = Some b4"
      using spl(3) j(3) unfolding b3(1) by (simp add: b4_def split: option.splits)
    show ?thesis
      using xs ys ds nav [unfolded b3_def, simplified] u(1) clamped
      by (simp add: apply_undo_tree_navigation_def b5_def [symmetric] b6_def Let_def)
  qed
  moreover have "swapped (h, b) (h, b6) t (st_content h (undo_current t))"
  proof -
    have fields: "bufStorage b6 = undo_current t" "savedSnapshot b6 = savedSnapshot b" "undoTree b6 = t" "saving b6 = saving b"
      "contentGeneration b6 = contentGeneration b + 1" "editJournal b6 = j" "undoGroupDepth b6 = undoGroupDepth b"
      "undoGroupDirty b6 = undoGroupDirty b" "unsavedChangeRanges b6 = us"
      by (simp_all add: b6_def b5_def b4_def b3_def b2_def clear_secondary_cursors_def)
    have b4: "content h b4 = st_content h (undo_current t)" "saved_content h b4 = saved_content h b"
      "unsavedChangeRanges b4 = unsavedChangeRanges b"
      by (simp_all add: b4_def b3_def b2_def clear_secondary_cursors_def)
    have "tracked_ok (length (st_content h (undo_current t))) b6"
      using c u(2,3) by (simp add: tracked_ok_def b6_def b5_def b4_def b3_def b2_def clear_secondary_cursors_def)
    then have "buffer_ok h b6"
      using st(2,8) new t j(2) st_length [OF new] by (simp add: buffer_ok_def fields)
    then show ?thesis using spl(1,2) j(1) u(4) b4 by (auto simp: swapped_def fields)
  qed
  ultimately show ?thesis by blast
qed

end
