(* ===== verification/BinaryDetect.thy ===== *)
theory BinaryDetect
  imports Charset
begin

text \<open>
  \<open>Source/Text/BinaryDetect.h\<close> and \<open>BinaryDetect.cpp\<close>: whether a load refuses a file as
  binary, from its first bytes.  Reading the head of a file is the file system's; here the
  bytes are given.
\<close>

definition kHeadBytes :: nat where "kHeadBytes = 8192"

abbreviation nul :: char where "nul \<equiv> CHR 0x00"

definition head_looks_binary :: "bytes \<Rightarrow> charset \<Rightarrow> bool" where
  "head_looks_binary head c =
     (if nul \<notin> set head then False
      else if c \<noteq> Utf16Le \<and> c \<noteq> Utf16Be then True
      else let (fed, d, decoded) = decoder_feed (new_decoder c) (drop (preamble_length head c) head)
        in if \<not> fed then True else nul \<in> set decoded)"

definition bytes_look_binary_to_load :: "('p \<Rightarrow> charset option) option \<Rightarrow> 'p \<Rightarrow> bytes \<Rightarrow> charset option \<Rightarrow> bool" where
  "bytes_look_binary_to_load resolver path bs chosen =
     (let head = take kHeadBytes bs
      in if nul \<notin> set head then False
         else head_looks_binary head (resolve_load_charset resolver path head chosen))"

text \<open>\<open>LooksBinary\<close> and \<open>LooksBinaryToLoad\<close>; \<open>None\<close> is a head that could not be read.\<close>

definition looks_binary :: "bytes option \<Rightarrow> bool" where
  "looks_binary head = (case head of None \<Rightarrow> True | Some h \<Rightarrow> head_looks_binary h (sniff_charset h))"

definition looks_binary_to_load :: "('p \<Rightarrow> charset option) option \<Rightarrow> 'p \<Rightarrow> bytes option \<Rightarrow> charset option \<Rightarrow> bool" where
  "looks_binary_to_load resolver path head chosen =
     (case head of None \<Rightarrow> True | Some h \<Rightarrow> bytes_look_binary_to_load resolver path h chosen)"

definition bytes_look_binary_unstated :: "bytes \<Rightarrow> charset option \<Rightarrow> bool" where
  "bytes_look_binary_unstated bs chosen =
     (let head = take kHeadBytes bs
      in nul \<in> set head \<and> head_looks_binary head (resolve_unstated_charset head chosen))"

end
