(* ===== verification/ThreeWayMerge.thy ===== *)
theory ThreeWayMerge
  imports LineDiff "HOL-Library.Multiset"
begin

text \<open>
  \<open>Source/Text/ThreeWayMerge.h\<close> and \<open>ThreeWayMerge.cpp\<close>: the line-based three-way merge that
  brings an external change of a file into a buffer's own edits.

  \<open>sorter\<close> is \<open>std::sort\<close> on the hunks of both sides by their place in the base text, which
  leaves the order of hunks at one place open; what is used of it is \<open>sorts\<close>.  \<open>None\<close> is a
  read outside a text.
\<close>

section \<open>Hunks of both sides\<close>

datatype side = Ours | Theirs

record tagged_hunk =
  hunk :: line_diff_hunk
  hunkSide :: side

definition sorts :: "(tagged_hunk list \<Rightarrow> tagged_hunk list) \<Rightarrow> bool" where
  "sorts sorter \<longleftrightarrow> (\<forall>hs. mset (sorter hs) = mset hs \<and> sorted (map (aStart \<circ> hunk) (sorter hs)))"

text \<open>The lines of a text from \<open>i\<close> to before \<open>e\<close>, read one by one.\<close>

definition line_range :: "bytes list \<Rightarrow> nat \<Rightarrow> nat \<Rightarrow> bytes list option" where
  "line_range xs i e = (if e \<le> length xs \<or> e \<le> i then Some (take (e - i) (drop i xs)) else None)"

text \<open>\<open>EffectiveContent\<close>, from \<open>pos\<close>.\<close>

fun effective_content :: "bytes list \<Rightarrow> bytes list \<Rightarrow> nat \<Rightarrow> nat \<Rightarrow> line_diff_hunk list \<Rightarrow> bytes list option" where
  "effective_content base side pos e [] = line_range base pos e"
| "effective_content base side pos e (h # hs) =
     line_range base pos (aStart h) \<bind> (\<lambda>before.
     line_range side (bStart h) (bStart h + bCount h) \<bind> (\<lambda>new.
     effective_content base side (aStart h + aCount h) e hs \<bind> (\<lambda>rest.
       Some (before @ new @ rest))))"

section \<open>Groups\<close>

record merge_group =
  groupStart :: nat
  groupEnd :: nat
  groupOurs :: "line_diff_hunk list"
  groupTheirs :: "line_diff_hunk list"

definition add_hunk :: "tagged_hunk \<Rightarrow> merge_group \<Rightarrow> merge_group" where
  "add_hunk t g =
     (case hunkSide t of
        Ours \<Rightarrow> g\<lparr>groupOurs := groupOurs g @ [hunk t]\<rparr>
      | Theirs \<Rightarrow> g\<lparr>groupTheirs := groupTheirs g @ [hunk t]\<rparr>)"

text \<open>One turn of the grouping loop; the back of the vector is the end of the list.\<close>

definition group_hunk :: "merge_group list \<Rightarrow> tagged_hunk \<Rightarrow> merge_group list" where
  "group_hunk groups t =
     (let hStart = aStart (hunk t);
          hEnd = aStart (hunk t) + aCount (hunk t);
          collidingInsertion = (groups \<noteq> [] \<and> hStart = hEnd \<and>
            groupStart (last groups) = groupEnd (last groups) \<and> hStart = groupEnd (last groups))
      in if groups \<noteq> [] \<and> (hStart < groupEnd (last groups) \<or> collidingInsertion)
         then butlast groups @ [add_hunk t ((last groups)\<lparr>groupEnd := max (groupEnd (last groups)) hEnd\<rparr>)]
         else groups @ [add_hunk t \<lparr>groupStart = hStart, groupEnd = hEnd, groupOurs = [], groupTheirs = []\<rparr>])"

definition group_hunks :: "tagged_hunk list \<Rightarrow> merge_group list" where
  "group_hunks hs = foldl group_hunk [] hs"

section \<open>The merge\<close>

record merge_result =
  mergedText :: bytes
  conflictCount :: nat
  firstConflictOffset :: "offset option"

text \<open>What one group contributes, after the text merged so far.\<close>

definition merge_group_text ::
  "bytes list \<Rightarrow> bytes list \<Rightarrow> bytes list \<Rightarrow> merge_group \<Rightarrow> merge_result \<Rightarrow> merge_result option" where
  "merge_group_text base ours theirs g r =
     (if groupTheirs g = [] then
        effective_content base ours (groupStart g) (groupEnd g) (groupOurs g) \<bind> (\<lambda>ls.
          Some (r\<lparr>mergedText := mergedText r @ concat ls\<rparr>))
      else if groupOurs g = [] then
        effective_content base theirs (groupStart g) (groupEnd g) (groupTheirs g) \<bind> (\<lambda>ls.
          Some (r\<lparr>mergedText := mergedText r @ concat ls\<rparr>))
      else
        effective_content base ours (groupStart g) (groupEnd g) (groupOurs g) \<bind> (\<lambda>os.
        effective_content base theirs (groupStart g) (groupEnd g) (groupTheirs g) \<bind> (\<lambda>ts.
          Some (if os = ts then r\<lparr>mergedText := mergedText r @ concat os\<rparr>
                else r\<lparr>conflictCount := conflictCount r + 1,
                       firstConflictOffset := (if firstConflictOffset r = None then Some (length (mergedText r))
                                               else firstConflictOffset r),
                       mergedText := mergedText r @ ''<<<<<<< buffer'' @ [newline] @ concat os @
                         ''======='' @ [newline] @ concat ts @ ''>>>>>>> disk'' @ [newline]\<rparr>))))"

fun merge_groups ::
  "bytes list \<Rightarrow> bytes list \<Rightarrow> bytes list \<Rightarrow> nat \<Rightarrow> merge_group list \<Rightarrow> merge_result \<Rightarrow> merge_result option" where
  "merge_groups base ours theirs cursor [] r =
     line_range base cursor (length base) \<bind> (\<lambda>ls. Some (r\<lparr>mergedText := mergedText r @ concat ls\<rparr>))"
| "merge_groups base ours theirs cursor (g # gs) r =
     line_range base cursor (groupStart g) \<bind> (\<lambda>ls.
     merge_group_text base ours theirs g (r\<lparr>mergedText := mergedText r @ concat ls\<rparr>) \<bind> (\<lambda>r'.
     merge_groups base ours theirs (groupEnd g) gs r'))"

definition three_way_merge ::
  "(tagged_hunk list \<Rightarrow> tagged_hunk list) \<Rightarrow> bytes \<Rightarrow> bytes \<Rightarrow> bytes \<Rightarrow> merge_result option" where
  "three_way_merge sorter base ours theirs =
     (let baseLines = split_lines base; oursLines = split_lines ours; theirsLines = split_lines theirs
      in diff_lines baseLines oursLines \<bind> (\<lambda>hunksOurs.
         diff_lines baseLines theirsLines \<bind> (\<lambda>hunksTheirs.
           let all_hunks = sorter (map (\<lambda>h. \<lparr>hunk = h, hunkSide = Ours\<rparr>) hunksOurs @
                                   map (\<lambda>h. \<lparr>hunk = h, hunkSide = Theirs\<rparr>) hunksTheirs)
           in merge_groups baseLines oursLines theirsLines 0 (group_hunks all_hunks)
                \<lparr>mergedText = [], conflictCount = 0, firstConflictOffset = None\<rparr>)))"

text \<open>The loop of \<open>HasConflictMarkers\<close>; \<open>bol\<close> says whether the byte before was a newline, or none.\<close>

fun conflict_marker_from :: "bool \<Rightarrow> bytes \<Rightarrow> bool" where
  "conflict_marker_from bol [] = False"
| "conflict_marker_from bol (c # cs) =
     (bol \<and> take 8 (c # cs) = ''<<<<<<< '' \<or> conflict_marker_from (c = newline) cs)"

definition has_conflict_markers :: "bytes \<Rightarrow> bool" where
  "has_conflict_markers s = conflict_marker_from True s"

end
