(* ===== verification/BufferFile.thy ===== *)
theory BufferFile
  imports Buffer BinaryDetect ThreeWayMerge
begin

text \<open>
  \<open>Source/Text/Buffer.cpp\<close>, the parts that tie a buffer to its file, here or on a host:
  decoding a load, the background loads, the save state machine, reverting, merging an
  external change and restoring a snapshot.

  What the file system does and answers is a \<open>file_system\<close>, an argument: nothing is assumed
  of it.  A path is its text.
\<close>

section \<open>Decoding\<close>

record file_contents =
  fileBytes :: bytes
  fileTimestamp :: "int option"

text \<open>
  \<open>fsHead\<close> reads a file's first bytes, \<open>fsRead\<close> all of it or says why not, \<open>fsWriteTime\<close> and
  \<open>fsSize\<close> ask for its timestamp and size, \<open>fsTarget\<close> resolves links, \<open>fsSpace\<close> is the
  disk-space check's refusal for a path and a size, \<open>fsStore\<close> replaces a file's content or says
  why not, \<open>fsHuge\<close> opens one through the memory map, and \<open>fsCharset\<close> is the installed
  stated-charset resolver.
\<close>

record file_system =
  fsHead :: "bytes \<Rightarrow> bytes option"
  fsRead :: "bytes \<Rightarrow> bytes + file_contents"
  fsWriteTime :: "bytes \<Rightarrow> int option"
  fsSize :: "bytes \<Rightarrow> nat option"
  fsTarget :: "bytes \<Rightarrow> bytes"
  fsSpace :: "bytes \<Rightarrow> nat \<Rightarrow> bytes option"
  fsStore :: "bytes \<Rightarrow> bytes \<Rightarrow> bytes option"
  fsHuge :: "bytes \<Rightarrow> bytes + buffer"
  fsCharset :: "(bytes \<Rightarrow> charset option) option"
  hugeThreshold :: nat

text \<open>\<open>Decode\<close>; \<open>None\<close> is a rope that cannot be built of the text.\<close>

definition decode_buffer :: "bytes \<Rightarrow> bool \<Rightarrow> bool \<Rightarrow> charset \<Rightarrow> (buffer_error + buffer) option" where
  "decode_buffer bs allowBinary looksBinary cs =
     (if \<not> allowBinary \<and> looksBinary then Some (Inl LooksBinary)
      else
        let decoded =
          (if is_utf8_family cs then Some (drop (preamble_length bs cs) bs, cs)
           else case decode_charset (drop (preamble_length bs cs) bs) cs of
               Some s \<Rightarrow> Some (s, cs)
             | None \<Rightarrow> if \<not> allowBinary then None else Some (bs, Utf8))
        in case decoded of
            None \<Rightarrow> Some (Inl DoesNotDecode)
          | Some (s, cs') \<Rightarrow>
              (let lf = (if has_carriage_return s then normalize_to_lf s else s)
               in rope_of_text lf \<bind> (\<lambda>r.
                    Some (Inr ((new_buffer [] r)\<lparr>bufLineEnding := detect_line_ending s, bufCharset := cs',
                                                 likelyBinary := looksBinary\<rparr>)))))"

definition from_contents :: "file_system \<Rightarrow> bytes \<Rightarrow> file_contents \<Rightarrow> bool \<Rightarrow> charset option \<Rightarrow> (buffer_error + buffer) option" where
  "from_contents fs path contents allowBinary chosen =
     decode_buffer (fileBytes contents) allowBinary
       (bytes_look_binary_to_load (fsCharset fs) path (fileBytes contents) chosen)
       (resolve_load_charset (fsCharset fs) path (fileBytes contents) chosen) \<bind> (\<lambda>r.
     Some (case r of Inl e \<Rightarrow> Inl e
       | Inr b \<Rightarrow> Inr (b\<lparr>bufName := path_filename path, bufPath := Some path,
                           diskTimestamp := fileTimestamp contents\<rparr>)))"

definition from_remote_contents :: "remote_file \<Rightarrow> file_contents \<Rightarrow> bool \<Rightarrow> charset option \<Rightarrow> (buffer_error + buffer) option" where
  "from_remote_contents file contents allowBinary chosen =
     decode_buffer (fileBytes contents) allowBinary
       (bytes_look_binary_unstated (fileBytes contents) chosen)
       (resolve_unstated_charset (fileBytes contents) chosen) \<bind> (\<lambda>r.
     Some (case r of Inl e \<Rightarrow> Inl e
       | Inr b \<Rightarrow> Inr (b\<lparr>bufName := remote_buffer_name file, bufRemote := Some file,
                           remoteTimestamp := fileTimestamp contents\<rparr>)))"

definition from_file :: "file_system \<Rightarrow> bytes \<Rightarrow> bool \<Rightarrow> charset option \<Rightarrow> (buffer_error + buffer) option" where
  "from_file fs path allowBinary chosen =
     (if \<not> allowBinary \<and> looks_binary_to_load (fsCharset fs) path (fsHead fs path) chosen then Some (Inl LooksBinary)
      else case fsRead fs path of
          Inl why \<Rightarrow> Some (Inl (FileError why))
        | Inr contents \<Rightarrow> from_contents fs path contents allowBinary chosen)"

definition new_file :: "bytes \<Rightarrow> buffer" where
  "new_file path = (new_buffer (path_filename path) None)\<lparr>bufPath := Some path\<rparr>"

definition new_remote_file :: "remote_file \<Rightarrow> buffer" where
  "new_remote_file file = (new_buffer (remote_buffer_name file) None)\<lparr>bufRemote := Some file\<rparr>"

section \<open>Background loads\<close>

definition mark_loading :: "bool \<Rightarrow> buffer \<Rightarrow> buffer" where
  "mark_loading forceReadOnly b =
     b\<lparr>loading := True, loadFailure := None, readOnly := (if forceReadOnly then True else readOnly b)\<rparr>"

definition mark_load_failed :: "bytes \<Rightarrow> buffer \<Rightarrow> buffer" where
  "mark_load_failed why b = b\<lparr>loadFailure := Some why\<rparr>"

definition capture_disk_timestamp :: "file_system \<Rightarrow> buffer \<Rightarrow> buffer" where
  "capture_disk_timestamp fs b =
     b\<lparr>diskTimestamp := (case bufPath b of None \<Rightarrow> None | Some p \<Rightarrow> fsWriteTime fs p)\<rparr>"

definition externally_modified :: "file_system \<Rightarrow> buffer \<Rightarrow> bool" where
  "externally_modified fs b =
     (if bufRemote b \<noteq> None then remoteChanged b
      else case bufPath b of None \<Rightarrow> False
      | Some p \<Rightarrow> (case fsWriteTime fs p of None \<Rightarrow> False
          | Some t \<Rightarrow> (case diskTimestamp b of None \<Rightarrow> True | Some t' \<Rightarrow> t \<noteq> t')))"

definition replace_content_for_load :: "rope \<Rightarrow> buffer \<Rightarrow> buffer option" where
  "replace_content_for_load content b = commit_barrier (b\<lparr>bufStorage := RopeStorage content\<rparr>)"

definition finish_load ::
  "file_system \<Rightarrow> rope \<Rightarrow> line_ending option \<Rightarrow> charset \<Rightarrow> buffer \<Rightarrow> buffer option" where
  "finish_load fs content detectedEnding cs b =
     commit_barrier (b\<lparr>readOnly := False, bufStorage := RopeStorage content,
       undoTree := undo_init (st_clone (RopeStorage content)), savedSnapshot := st_clone (RopeStorage content),
       bufLineEnding := (case detectedEnding of Some e \<Rightarrow> e | None \<Rightarrow> bufLineEnding b), bufCharset := cs,
       loading := False, loadFailure := None\<rparr>)
     \<bind> (\<lambda>b'. Some (capture_disk_timestamp fs b'))"

definition replace_content_for_huge_load :: "piece_table \<Rightarrow> buffer \<Rightarrow> buffer option" where
  "replace_content_for_huge_load content b =
     commit_barrier (b\<lparr>bufStorage := PieceTableStorage content, savedSnapshot := PieceTableStorage content\<rparr>)"

text \<open>\<open>AppendHugeLoadChunk\<close>; \<open>None\<close> is the assertion that both storages are piece tables.\<close>

definition append_huge_load_chunk :: "piece_table \<Rightarrow> buffer \<Rightarrow> buffer option" where
  "append_huge_load_chunk fragment b =
     (case (bufStorage b, savedSnapshot b) of
        (PieceTableStorage current, PieceTableStorage saved) \<Rightarrow>
          (let appendOffset = pt_byte_length current;
               b' = record_or_amend_load_append
                 (b\<lparr>bufStorage := PieceTableStorage (pt_concatenated current fragment),
                    savedSnapshot := PieceTableStorage (pt_concatenated saved fragment)\<rparr>)
           in commit_insert appendOffset (buf_length b' - appendOffset) b')
      | _ \<Rightarrow> None)"

definition finish_huge_load :: "file_system \<Rightarrow> buffer \<Rightarrow> buffer option" where
  "finish_huge_load fs b =
     commit_replace 0 0 0 (b\<lparr>readOnly := False, bufLineEnding := LF, loading := False\<rparr>) \<bind> (\<lambda>b1.
       let b2 = capture_disk_timestamp fs b1
       in Some (case bufPath b2 of None \<Rightarrow> b2
         | Some p \<Rightarrow> (case fsSpace fs p (buf_length b2) of
             None \<Rightarrow> b2 | Some why \<Rightarrow> set_read_only True (Some why) b2)))"

section \<open>Saving\<close>

definition require_savable :: "buffer \<Rightarrow> buffer_error option" where
  "require_savable b =
     (if loading b then Some StillLoading else if saving b then Some SaveInProgress else None)"

definition start_save_plan ::
  "bytes \<Rightarrow> line_ending \<Rightarrow> bool \<Rightarrow> bool \<Rightarrow> world \<Rightarrow> storage save_plan \<times> world" where
  "start_save_plan target ending trim finalNewline w =
     (let (h, b) = w;
          (h', snapshot) = m_snapshot storage_class h (bufStorage b)
      in (\<lparr>planTarget = target, planSnapshot = snapshot, planLineEnding = ending, planTrim = trim, planKeep = [],
           planFinalNewline = finalNewline, planCharset = bufCharset b\<rparr>,
          h', b\<lparr>saving := True, savingSnapshotBytes := st_byte_length snapshot, saveInFlightRanges := []\<rparr>))"

text \<open>The attributes a plan carries to put back on the file are left out.\<close>

definition begin_save ::
  "file_system \<Rightarrow> bytes \<Rightarrow> bool \<Rightarrow> bool \<Rightarrow> line_ending option \<Rightarrow> world \<Rightarrow> storage save_plan outcome \<times> world" where
  "begin_save fs path finalNewline trim lineEndingOverride w =
     (case require_savable (snd w) of
        Some e \<Rightarrow> (Threw e, w)
      | None \<Rightarrow>
          (let b = snd w;
               target = fsTarget fs path;
               refusal = (if m_is_huge storage_class (bufStorage b) then fsSpace fs target (buf_length b) else None)
           in case refusal of
                Some why \<Rightarrow> (Threw (NotEnoughSpace why), w)
              | None \<Rightarrow>
                  (let (plan, w') = start_save_plan target
                         (case lineEndingOverride of Some e \<Rightarrow> e | None \<Rightarrow> bufLineEnding b) trim finalNewline w
                   in (Done plan, w'))))"

definition begin_remote_save :: "bool \<Rightarrow> bool \<Rightarrow> line_ending option \<Rightarrow> world \<Rightarrow> storage save_plan outcome \<times> world" where
  "begin_remote_save finalNewline trim lineEndingOverride w =
     (case bufRemote (snd w) of
        None \<Rightarrow> (Threw NoRemoteFile, w)
      | Some file \<Rightarrow> (case require_savable (snd w) of
          Some e \<Rightarrow> (Threw e, w)
        | None \<Rightarrow>
            (let (plan, w') = start_save_plan (remote_to_string file)
                   (case lineEndingOverride of Some e \<Rightarrow> e | None \<Rightarrow> bufLineEnding (snd w)) trim finalNewline w
             in (Done plan, w'))))"

definition commit_save :: "storage save_plan \<Rightarrow> buffer \<Rightarrow> buffer" where
  "commit_save plan b =
     b\<lparr>bufLineEnding := planLineEnding plan, bufCharset := planCharset plan,
       diskCharset := (if charsetChosen b then Some (planCharset plan) else diskCharset b),
       savedSnapshot := planSnapshot plan, unsavedChangeRanges := saveInFlightRanges b,
       saveInFlightRanges := [], saving := False,
       unsavedChangeGeneration := unsavedChangeGeneration b + 1, saveGeneration := saveGeneration b + 1\<rparr>"

definition finish_save :: "file_system \<Rightarrow> bytes \<Rightarrow> storage save_plan \<Rightarrow> buffer \<Rightarrow> buffer" where
  "finish_save fs path plan b = capture_disk_timestamp fs (commit_save plan (b\<lparr>bufPath := Some path\<rparr>))"

definition set_remote_timestamp :: "int option \<Rightarrow> buffer \<Rightarrow> buffer" where
  "set_remote_timestamp t b = b\<lparr>remoteTimestamp := t, remoteChanged := False\<rparr>"

definition note_remote_changed :: "buffer \<Rightarrow> buffer" where
  "note_remote_changed b = b\<lparr>remoteChanged := True\<rparr>"

definition finish_remote_save :: "storage save_plan \<Rightarrow> int option \<Rightarrow> buffer \<Rightarrow> buffer" where
  "finish_remote_save plan timestamp b = set_remote_timestamp timestamp (commit_save plan b)"

definition abandon_save :: "buffer \<Rightarrow> buffer" where
  "abandon_save b = b\<lparr>saveInFlightRanges := [], saving := False\<rparr>"

text \<open>\<open>ExecuteSavePlan\<close>: what it throws, if anything.\<close>

definition execute_save_plan :: "file_system \<Rightarrow> heap \<Rightarrow> storage save_plan \<Rightarrow> buffer_error option" where
  "execute_save_plan fs h plan =
     (case encode_save_plan storage_class h plan of
        Inl e \<Rightarrow> Some (CannotSave e)
      | Inr bs \<Rightarrow> map_option FileError (fsStore fs (planTarget plan) bs))"

definition save_to_file ::
  "file_system \<Rightarrow> bytes \<Rightarrow> bool \<Rightarrow> bool \<Rightarrow> line_ending option \<Rightarrow> world \<Rightarrow> unit outcome \<times> world" where
  "save_to_file fs path finalNewline trim lineEndingOverride w =
     (case begin_save fs path finalNewline trim lineEndingOverride w of
        (Threw e, w') \<Rightarrow> (Threw e, w')
      | (Done plan, h, b) \<Rightarrow> (case execute_save_plan fs h plan of
          Some e \<Rightarrow> (Threw e, h, abandon_save b)
        | None \<Rightarrow> (Done (), h, finish_save fs path plan b)))"

definition buffer_save :: "file_system \<Rightarrow> bool \<Rightarrow> bool \<Rightarrow> line_ending option \<Rightarrow> world \<Rightarrow> unit outcome \<times> world" where
  "buffer_save fs finalNewline trim lineEndingOverride w =
     (case bufPath (snd w) of
        None \<Rightarrow> (Threw NoFilePath, w)
      | Some path \<Rightarrow> save_to_file fs path finalNewline trim lineEndingOverride w)"

definition set_file_charset :: "charset \<Rightarrow> buffer \<Rightarrow> buffer" where
  "set_file_charset cs b = b\<lparr>bufCharset := cs, charsetChosen := True\<rparr>"

definition set_path :: "bytes \<Rightarrow> buffer \<Rightarrow> buffer" where
  "set_path p b =
     b\<lparr>fileGeneration := (if bufPath b \<noteq> Some p then fileGeneration b + 1 else fileGeneration b), bufPath := Some p\<rparr>"

definition set_remote :: "remote_file \<Rightarrow> buffer \<Rightarrow> buffer" where
  "set_remote r b =
     b\<lparr>fileGeneration := (if bufRemote b \<noteq> Some r then fileGeneration b + 1 else fileGeneration b), bufRemote := Some r\<rparr>"

section \<open>Replacing the content\<close>

text \<open>
  What reverting, merging and restoring share: the new content, point snapped into it, every
  other position dropped, one undo step, a barrier.
\<close>

definition replace_content :: "break_rule \<Rightarrow> storage \<Rightarrow> offset \<Rightarrow> world \<Rightarrow> world option" where
  "replace_content brk st pt w =
     (let (h, b) = w
      in snap_to_grapheme_boundary storage_class brk h st (min pt (st_byte_length st)) \<bind> (\<lambda>p.
         commit_barrier ((record_or_amend_undo False
           (b\<lparr>bufStorage := st, point := p, mark := None, secondaryCursors := [], addedCursorOrder := [],
              narrowedRange := None, foldMarkers := [], foldGeneration := foldGeneration b + 1\<rparr>))
           \<lparr>goalColumn := None\<rparr>) \<bind> (\<lambda>b'. Some (h, b'))))"

definition mark_all_unsaved :: "buffer \<Rightarrow> buffer" where
  "mark_all_unsaved b =
     b\<lparr>unsavedChangeRanges := (if buf_length b > 0 then merge_unsaved_range [] 0 (buf_length b) else []),
       unsavedChangeGeneration := unsavedChangeGeneration b + 1\<rparr>"

definition adopt_reverted :: "break_rule \<Rightarrow> buffer \<Rightarrow> world \<Rightarrow> world option" where
  "adopt_reverted brk fresh w =
     (let (h, b) = w
      in replace_content brk (bufStorage fresh) (point b) (h, b\<lparr>bufCharset := bufCharset fresh\<rparr>) \<bind> (\<lambda>(h', b').
         Some (h', b'\<lparr>savedSnapshot := st_clone (bufStorage b'), unsavedChangeRanges := [],
                      unsavedChangeGeneration := unsavedChangeGeneration b' + 1,
                      diskTimestamp := diskTimestamp fresh, saveGeneration := saveGeneration b' + 1,
                      fileGeneration := fileGeneration b' + 1\<rparr>)))"

text \<open>\<open>RevertDecoding\<close>; a file that cannot be read again leaves the buffer untouched.\<close>

definition revert_decoding :: "break_rule \<Rightarrow> file_system \<Rightarrow> charset option \<Rightarrow> world \<Rightarrow> (unit outcome \<times> world) option" where
  "revert_decoding brk fs cs w =
     (case bufPath (snd w) of
        None \<Rightarrow> Some (Threw NoFilePath, w)
      | Some path \<Rightarrow>
          (let reloadAsHuge = (case fsSize fs path of None \<Rightarrow> False | Some n \<Rightarrow> n > hugeThreshold fs)
           in if reloadAsHuge \<and> (case cs of None \<Rightarrow> False | Some c \<Rightarrow> \<not> is_utf8_family c)
              then Some (Threw (HugeNotUtf8 (the cs)), w)
              else (if reloadAsHuge
                    then Some (case fsHuge fs path of Inl why \<Rightarrow> Inl (FileError why) | Inr b \<Rightarrow> Inr b)
                    else from_file fs path False cs) \<bind> (\<lambda>r. case r of
                  Inl e \<Rightarrow> Some (Threw e, w)
                | Inr fresh \<Rightarrow> adopt_reverted brk fresh w \<bind> (\<lambda>w'. Some (Done (), w')))))"

definition revert :: "break_rule \<Rightarrow> file_system \<Rightarrow> world \<Rightarrow> (unit outcome \<times> world) option" where
  "revert brk fs w = revert_decoding brk fs (diskCharset (snd w)) w"

definition revert_with_charset :: "break_rule \<Rightarrow> file_system \<Rightarrow> charset \<Rightarrow> world \<Rightarrow> (unit outcome \<times> world) option" where
  "revert_with_charset brk fs c w =
     revert_decoding brk fs (Some c) w \<bind> (\<lambda>(r, h, b). Some (case r of
         Threw e \<Rightarrow> (Threw e, h, b)
       | Done _ \<Rightarrow> (Done (), h, b\<lparr>diskCharset := Some c, charsetChosen := True\<rparr>)))"

definition revert_from_remote ::
  "break_rule \<Rightarrow> file_contents \<Rightarrow> charset option \<Rightarrow> world \<Rightarrow> (unit outcome \<times> world) option" where
  "revert_from_remote brk contents cs w =
     (case bufRemote (snd w) of
        None \<Rightarrow> Some (Threw NoRemoteFile, w)
      | Some file \<Rightarrow>
          from_remote_contents file contents False (if cs \<noteq> None then cs else diskCharset (snd w)) \<bind> (\<lambda>r. case r of
              Inl e \<Rightarrow> Some (Threw e, w)
            | Inr fresh \<Rightarrow> adopt_reverted brk fresh w \<bind> (\<lambda>(h, b).
                let b1 = b\<lparr>remoteTimestamp := remoteTimestamp fresh, remoteChanged := False\<rparr>
                in Some (Done (), h, if cs \<noteq> None then b1\<lparr>diskCharset := cs, charsetChosen := True\<rparr> else b1))))"

definition merge_fresh ::
  "break_rule \<Rightarrow> (tagged_hunk list \<Rightarrow> tagged_hunk list) \<Rightarrow> buffer \<Rightarrow> world \<Rightarrow> (nat \<times> world) option" where
  "merge_fresh brk sorter fresh w =
     (let (h, b) = w
      in three_way_merge sorter (st_to_string h (savedSnapshot b)) (st_to_string h (bufStorage b))
           (st_to_string h (bufStorage fresh)) \<bind> (\<lambda>result.
         rope_of_text (mergedText result) \<bind> (\<lambda>r.
         replace_content brk (RopeStorage r)
           (case firstConflictOffset result of Some off \<Rightarrow> off | None \<Rightarrow> point b) (h, b) \<bind> (\<lambda>(h', b').
         Some (conflictCount result, h',
           (mark_all_unsaved b')\<lparr>savedSnapshot := bufStorage fresh, diskTimestamp := diskTimestamp fresh,
              fileGeneration := fileGeneration b' + 1\<rparr>)))))"

definition merge_external_changes ::
  "break_rule \<Rightarrow> (tagged_hunk list \<Rightarrow> tagged_hunk list) \<Rightarrow> file_system \<Rightarrow> world \<Rightarrow> (nat outcome \<times> world) option" where
  "merge_external_changes brk sorter fs w =
     (case bufPath (snd w) of
        None \<Rightarrow> Some (Threw NoFilePath, w)
      | Some path \<Rightarrow> from_file fs path False (diskCharset (snd w)) \<bind> (\<lambda>r. case r of
            Inl e \<Rightarrow> Some (Threw e, w)
          | Inr fresh \<Rightarrow> merge_fresh brk sorter fresh w \<bind> (\<lambda>(n, w'). Some (Done n, w'))))"

definition merge_remote_changes ::
  "break_rule \<Rightarrow> (tagged_hunk list \<Rightarrow> tagged_hunk list) \<Rightarrow> file_contents \<Rightarrow> world \<Rightarrow> (nat outcome \<times> world) option" where
  "merge_remote_changes brk sorter contents w =
     (case bufRemote (snd w) of
        None \<Rightarrow> Some (Threw NoRemoteFile, w)
      | Some file \<Rightarrow> from_remote_contents file contents False (diskCharset (snd w)) \<bind> (\<lambda>r. case r of
            Inl e \<Rightarrow> Some (Threw e, w)
          | Inr fresh \<Rightarrow> merge_fresh brk sorter fresh w \<bind> (\<lambda>(n, h, b).
              Some (Done n, h, b\<lparr>remoteTimestamp := remoteTimestamp fresh, remoteChanged := False\<rparr>))))"

definition restore_content :: "break_rule \<Rightarrow> bytes \<Rightarrow> world \<Rightarrow> world option" where
  "restore_content brk content w =
     (let (h, b) = w
      in rope_of_text content \<bind> (\<lambda>r.
         replace_content brk (RopeStorage r) (point b) w \<bind> (\<lambda>(h', b'). Some (h', mark_all_unsaved b'))))"

section \<open>Conflict markers, window by window\<close>

definition kWindow :: nat where "kWindow = 4 * 1024 * 1024"

fun marker_in_window :: "bytes \<Rightarrow> nat \<Rightarrow> nat \<Rightarrow> nat \<Rightarrow> bool" where
  "marker_in_window window start pos 0 = False"
| "marker_in_window window start pos (Suc n) =
     (((start + pos = 0 \<or> window ! (pos - 1) = newline) \<and> take 8 (drop pos window) = ''<<<<<<< '')
      \<or> marker_in_window window start (pos + 1) n)"

function marker_scan :: "heap \<Rightarrow> storage \<Rightarrow> offset \<Rightarrow> bool" where
  "marker_scan h st off =
     (let tot = st_byte_length st in
      if off < tot then
        (let lookback = (if off = 0 then 0 else 1);
             start = off - lookback;
             coreLen = min kWindow (tot - off);
             windowLen = min (lookback + coreLen + 7) (tot - start);
             window = st_substring h st start windowLen
         in marker_in_window window start lookback coreLen \<or> marker_scan h st (off + kWindow))
      else False)"
  by pat_completeness auto
termination by (relation "measure (\<lambda>(h, st, off). st_byte_length st - off)") (auto simp: kWindow_def)

declare marker_scan.simps [simp del]

definition buffer_has_conflict_markers :: "heap \<Rightarrow> buffer \<Rightarrow> bool" where
  "buffer_has_conflict_markers h b = (if buf_length b = 0 then False else marker_scan h (bufStorage b) 0)"

end
