(* ===== verification/DecodeBytes.thy ===== *)
theory DecodeBytes
  imports Utf8
begin

text \<open>
  What a decoded codepoint says about the bytes it came from: a codepoint decoded from a
  well-formed sequence encodes to exactly the bytes of that sequence, so re-encoding the
  codepoints of a text (as the display layer does) reproduces the text.
\<close>

lemma char_u8_eqI: "u8 a = u8 c \<Longrightarrow> a = c"
  by (rule of_char_eqI [where 'a = nat]) (simp flip: unat_u8)

lemma to_byte_eqI: "ucast (w :: char32) = u8 c \<Longrightarrow> to_byte w = c"
  by (rule char_u8_eqI) simp

text \<open>The bits of a lead byte and of a continuation byte.\<close>

lemma lead_bits:
  "b AND 0xE0 = 0xC0 \<Longrightarrow> bit (b :: 8 word) 7 \<and> bit b 6 \<and> \<not> bit b 5"
  "b AND 0xF0 = 0xE0 \<Longrightarrow> bit b 7 \<and> bit b 6 \<and> bit b 5 \<and> \<not> bit b 4"
  "b AND 0xF8 = 0xF0 \<Longrightarrow> bit b 7 \<and> bit b 6 \<and> bit b 5 \<and> bit b 4 \<and> \<not> bit b 3"
proof -
  have *: "bit (a AND m) n = bit c n" if "a AND m = c" for a m c :: "8 word" and n
    using that by simp
  show "bit b 7 \<and> bit b 6 \<and> \<not> bit b 5" if "b AND 0xE0 = 0xC0"
    using * [OF that, of 7] * [OF that, of 6] * [OF that, of 5] by (simp add: bit_simps)
  show "bit b 7 \<and> bit b 6 \<and> bit b 5 \<and> \<not> bit b 4" if "b AND 0xF0 = 0xE0"
    using * [OF that, of 7] * [OF that, of 6] * [OF that, of 5] * [OF that, of 4] by (simp add: bit_simps)
  show "bit b 7 \<and> bit b 6 \<and> bit b 5 \<and> bit b 4 \<and> \<not> bit b 3" if "b AND 0xF8 = 0xF0"
    using * [OF that, of 7] * [OF that, of 6] * [OF that, of 5] * [OF that, of 4] * [OF that, of 3]
    by (simp add: bit_simps)
qed

abbreviation payload :: "char \<Rightarrow> char32" where
  "payload c \<equiv> take_bit 6 (ucast (u8 c))"

lemma tail_byte: "is_continuation_byte c \<Longrightarrow> to_byte (0x80 OR payload c) = c"
  unfolding not_continuation_iff_bits
  by (rule to_byte_eqI, rule word8_eqI) (simp_all add: bit_simps)

lemma lead_byte:
  "u8 c AND 0xE0 = 0xC0 \<Longrightarrow> to_byte (0xC0 OR ucast (take_bit 5 (u8 c))) = c"
  "u8 c AND 0xF0 = 0xE0 \<Longrightarrow> to_byte (0xE0 OR ucast (take_bit 4 (u8 c))) = c"
  "u8 c AND 0xF8 = 0xF0 \<Longrightarrow> to_byte (0xF0 OR ucast (take_bit 3 (u8 c))) = c"
  by (rule to_byte_eqI, rule word8_eqI, auto simp: bit_simps dest: lead_bits)+


text \<open>Reassembled codepoints, taken apart again.\<close>

lemma unat_take_bit_less: "take_bit n w = (w :: 'a::len word) \<Longrightarrow> unat w < 2 ^ n"
  by (metis unsigned_take_bit_eq take_bit_nat_less_exp)

lemma joined2:
  "drop_bit 6 (push_bit 6 (ucast (take_bit 5 (b :: 8 word))) OR take_bit 6 x :: char32) = ucast (take_bit 5 b)"
  "take_bit 6 (push_bit 6 (y :: char32) OR take_bit 6 x) = take_bit 6 x"
  "(push_bit 6 (ucast (take_bit 5 b)) OR take_bit 6 x :: char32) < 0x800"
proof -
  show "drop_bit 6 (push_bit 6 (ucast (take_bit 5 b)) OR take_bit 6 x :: char32) = ucast (take_bit 5 b)"
    "take_bit 6 (push_bit 6 y OR take_bit 6 x) = take_bit 6 x"
    by (rule bit_word_eqI, auto simp: bit_simps)+
  have "take_bit 11 (push_bit 6 (ucast (take_bit 5 b)) OR take_bit 6 x :: char32) =
    push_bit 6 (ucast (take_bit 5 b)) OR take_bit 6 x"
    by (rule bit_word_eqI) (auto simp: bit_simps)
  from unat_take_bit_less [OF this]
  show "(push_bit 6 (ucast (take_bit 5 b)) OR take_bit 6 x :: char32) < 0x800"
    by (simp add: word_less_nat_alt)
qed

lemma joined3:
  fixes b :: "8 word" and x y :: char32
  defines "cp \<equiv> push_bit 6 (push_bit 6 (ucast (take_bit 4 b)) OR take_bit 6 y) OR take_bit 6 x"
  shows "drop_bit 12 cp = ucast (take_bit 4 b)" "take_bit 6 (drop_bit 6 cp) = take_bit 6 y"
    "take_bit 6 cp = take_bit 6 x" "cp < 0x10000"
proof -
  show "drop_bit 12 cp = ucast (take_bit 4 b)" "take_bit 6 (drop_bit 6 cp) = take_bit 6 y"
    "take_bit 6 cp = take_bit 6 x"
    unfolding cp_def by (rule bit_word_eqI, auto simp: bit_simps)+
  have "take_bit 16 cp = cp"
    unfolding cp_def by (rule bit_word_eqI) (auto simp: bit_simps)
  then show "cp < 0x10000"
    by (auto simp: word_less_nat_alt dest: unat_take_bit_less)
qed

lemma joined4:
  fixes b :: "8 word" and x y z :: char32
  defines "cp \<equiv> push_bit 6 (push_bit 6 (push_bit 6 (ucast (take_bit 3 b)) OR take_bit 6 z) OR take_bit 6 y)
    OR take_bit 6 x"
  shows "drop_bit 18 cp = ucast (take_bit 3 b)" "take_bit 6 (drop_bit 12 cp) = take_bit 6 z"
    "take_bit 6 (drop_bit 6 cp) = take_bit 6 y" "take_bit 6 cp = take_bit 6 x"
  unfolding cp_def by (rule bit_word_eqI, auto simp: bit_simps)+

lemma substr_hd: "off < length xs \<Longrightarrow> 0 < n \<Longrightarrow> substr xs off n = xs ! off # substr xs (off + 1) (n - 1)"
  by (cases n) (simp_all add: substr_def Cons_nth_drop_Suc [symmetric])

lemma encode_decoded:
  assumes "off < length text" "decoded_at text off = (cp, n)" "\<not> (cp = replacement_char \<and> n = 1)"
  shows "encode_codepoint_utf8 cp = substr text off n"
proof (cases "u8 (text ! off) < 0x80")
  case True
  with assms have "cp = ucast (u8 (text ! off))" "n = 1"
    by (auto simp: decoded_at_def)
  moreover have "ucast (u8 (text ! off)) < (0x80 :: char32)"
    using True by (auto simp: word_less_nat_alt unsigned_ucast_eq intro: le_less_trans [OF take_bit_nat_less_eq_self])
  moreover have "to_byte (ucast (u8 (text ! off))) = text ! off"
    by (rule to_byte_eqI) (rule bit_word_eqI, simp add: bit_simps)
  ultimately show ?thesis
    using assms(1) by (simp add: encode_codepoint_utf8_def substr_def take_Suc hd_drop_conv_nth)
next
  case False
  with assms obtain cp0 where lead: "decode_lead (u8 (text ! off)) = Some (n, cp0)"
    and room: "off + n \<le> length text"
    and tail: "decode_tail (substr text (off + 1) (n - 1)) cp0 = Some cp"
    and scalar: "is_scalar_value_encoding cp n"
    by (auto simp: decoded_at_def Let_def split: option.splits if_splits prod.splits)
  have n: "n \<in> {2, 3, 4}"
    using lead by (rule decode_lead_length)
  define bs where "bs = substr text (off + 1) (n - 1)"
  have tail: "decode_tail bs cp0 = Some cp"
    using tail by (simp only: bs_def)
  have len: "length bs = n - 1"
    using room by (simp add: bs_def)
  have whole: "substr text off n = text ! off # bs"
    using assms(1) n substr_hd [of off _ n] by (auto simp: bs_def)
  from n consider "n = 2" | "n = 3" | "n = 4" by auto
  then show ?thesis
  proof cases
    case 1
    with len obtain b1 where bs: "bs = [b1]" by (auto simp: length_Suc_conv numeral_2_eq_2)
    have l: "u8 (text ! off) AND 0xE0 = 0xC0" "cp0 = ucast (take_bit 5 (u8 (text ! off)))"
      using lead 1 by (auto simp: decode_lead_def and_masks split: if_splits)
    have t: "is_continuation_byte b1" "cp = push_bit 6 cp0 OR take_bit 6 (ucast (u8 b1))"
      using tail bs by (auto simp: and_masks split: if_splits)
    have "\<not> cp < 0x80" using scalar 1 by (simp add: is_scalar_value_encoding_def)
    moreover have "drop_bit 6 cp = ucast (take_bit 5 (u8 (text ! off)))" "take_bit 6 cp = payload b1"
      "cp < 0x800"
      unfolding t l by (rule joined2)+
    ultimately show ?thesis
      using t(1) l(1) bs whole by (simp add: encode_codepoint_utf8_def and_masks lead_byte tail_byte)
  next
    case 2
    with len obtain b1 b2 where bs: "bs = [b1, b2]" by (auto simp: length_Suc_conv numeral_eq_Suc)
    have l: "u8 (text ! off) AND 0xF0 = 0xE0" "cp0 = ucast (take_bit 4 (u8 (text ! off)))"
      using lead 2 by (auto simp: decode_lead_def and_masks split: if_splits)
    have t: "is_continuation_byte b1" "is_continuation_byte b2"
      "cp = push_bit 6 (push_bit 6 cp0 OR take_bit 6 (ucast (u8 b1))) OR take_bit 6 (ucast (u8 b2))"
      using tail bs by (auto simp: and_masks split: if_splits)
    have "\<not> cp < 0x800" using scalar 2 by (simp add: is_scalar_value_encoding_def)
    moreover from this have "\<not> cp < 0x80" by (simp add: word_less_nat_alt)
    moreover have "drop_bit 12 cp = ucast (take_bit 4 (u8 (text ! off)))"
      "take_bit 6 (drop_bit 6 cp) = payload b1" "take_bit 6 cp = payload b2" "cp < 0x10000"
      unfolding t l by (rule joined3)+
    ultimately show ?thesis
      using t(1,2) l(1) bs whole by (simp add: encode_codepoint_utf8_def and_masks lead_byte tail_byte)
  next
    case 3
    with len obtain b1 b2 b3 where bs: "bs = [b1, b2, b3]" by (auto simp: length_Suc_conv numeral_eq_Suc)
    have l: "u8 (text ! off) AND 0xF8 = 0xF0" "cp0 = ucast (take_bit 3 (u8 (text ! off)))"
      using lead 3 by (auto simp: decode_lead_def and_masks split: if_splits)
    have t: "is_continuation_byte b1" "is_continuation_byte b2" "is_continuation_byte b3"
      "cp = push_bit 6 (push_bit 6 (push_bit 6 cp0 OR take_bit 6 (ucast (u8 b1))) OR
        take_bit 6 (ucast (u8 b2))) OR take_bit 6 (ucast (u8 b3))"
      using tail bs by (auto simp: and_masks split: if_splits)
    have "\<not> cp < 0x10000" using scalar 3 by (simp add: is_scalar_value_encoding_def)
    moreover from this have "\<not> cp < 0x80" "\<not> cp < 0x800" by (simp_all add: word_less_nat_alt)
    moreover have "drop_bit 18 cp = ucast (take_bit 3 (u8 (text ! off)))"
      "take_bit 6 (drop_bit 12 cp) = payload b1" "take_bit 6 (drop_bit 6 cp) = payload b2"
      "take_bit 6 cp = payload b3"
      unfolding t l by (rule joined4)+
    ultimately show ?thesis
      using t(1,2,3) l(1) bs whole by (simp add: encode_codepoint_utf8_def and_masks lead_byte tail_byte)
  qed
qed

section \<open>The property\<close>

text \<open>
  C13: the codec loses nothing, in either direction.  Decoding at the place where a Unicode
  scalar value was encoded, whatever bytes surround it, yields that value; and whatever
  codepoint other than U+FFFD is decoded anywhere in any bytes, encoding it gives back the very
  bytes it was read from.
\<close>

theorem utf8_round_trip:
  assumes "unicode_scalar cp"
  shows "decode_codepoint_utf8 (pre @ encode_codepoint_utf8 cp @ post) (length pre) = cp \<and>
    (decode_codepoint_utf8 s off \<noteq> replacement_char \<longrightarrow>
      encode_codepoint_utf8 (decode_codepoint_utf8 s off) =
        substr s off (length (encode_codepoint_utf8 (decode_codepoint_utf8 s off))))"
proof (intro conjI impI)
  show "decode_codepoint_utf8 (pre @ encode_codepoint_utf8 cp @ post) (length pre) = cp"
    by (rule decode_encode_at [OF assms])
next
  assume decoded: "decode_codepoint_utf8 s off \<noteq> replacement_char"
  then have off: "off < length s"
    by (auto simp: decode_codepoint_utf8_def split: if_splits)
  obtain n where "decoded_at s off = (decode_codepoint_utf8 s off, n)"
    by (metis fst_decoded_at prod.collapse)
  from encode_decoded [OF off this] decoded
  have "encode_codepoint_utf8 (decode_codepoint_utf8 s off) = substr s off n" by simp
  then show "encode_codepoint_utf8 (decode_codepoint_utf8 s off) =
      substr s off (length (encode_codepoint_utf8 (decode_codepoint_utf8 s off)))"
    by (simp add: substr_def min_def)
qed

theorem utf8_round_trip_witness:
  "decode_codepoint_utf8 (''a'' @ encode_codepoint_utf8 0x20AC @ ''b'') (length ''a'') = 0x20AC \<and>
    decode_codepoint_utf8 ''ab'' 1 = 98 \<and>
    encode_codepoint_utf8 98 = substr ''ab'' 1 (length (encode_codepoint_utf8 98))"
proof -
  have "unicode_scalar 0x20AC" by (simp add: unicode_scalar_def)
  note both = utf8_round_trip [OF this, of "''a''" "''b''" "''ab''" 1]
  moreover have b: "decode_codepoint_utf8 ''ab'' 1 = 98" by code_simp
  moreover have "(98 :: char32) \<noteq> replacement_char" by code_simp
  ultimately show ?thesis by (simp only: b refl simp_thms)
qed

end
