(* ===== verification/DisplayWidth.thy ===== *)
theory DisplayWidth
  imports Grapheme DecodeBytes "HOL-Library.Signed_Division"
begin

text \<open>
  \<open>Source/Text/DisplayWidth.h\<close> and \<open>DisplayWidth.cpp\<close>: how many terminal columns text takes.
  A glyph is one grapheme cluster; what a terminal cannot show is drawn as a hex placeholder,
  and a byte that is no UTF-8 is a glyph of its own.

  The Unicode tables and the C library are parameters: \<open>text_services\<close> holds utf8proc's
  stateful break rule, \<open>mbrtowc\<close>, \<open>wcwidth\<close>, \<open>iswspace\<close> and \<open>iswcntrl\<close>, libunistring's
  pairwise break and its variation-selector property, and whether the locale is multi-byte.
  \<open>consumes\<close> is what the C standard says of \<open>mbrtowc\<close>: it reads at least one byte unless it
  is at the terminating NUL.
\<close>

record text_services =
  graphemeBreak :: break_rule
  mbToWide :: "bytes \<Rightarrow> (char32 \<times> nat) option"
  clusterBreak :: "char32 \<Rightarrow> char32 \<Rightarrow> bool"
  variationSelector :: "char32 \<Rightarrow> bool"
  wcWidth :: "char32 \<Rightarrow> int"
  wcSpace :: "char32 \<Rightarrow> bool"
  wcControl :: "char32 \<Rightarrow> bool"
  multibyteLocale :: bool

definition consumes :: "text_services \<Rightarrow> bool" where
  "consumes svc \<longleftrightarrow> (\<forall>s wc n. mbToWide svc s = Some (wc, n) \<longrightarrow> 1 \<le> n)"

section \<open>What the renderer measures\<close>

text \<open>\<open>mbrtowc\<close> at a position of a C string: at its end it reads the NUL and answers zero.\<close>

definition read_wide :: "text_services \<Rightarrow> bytes \<Rightarrow> (char32 \<times> nat) option" where
  "read_wide svc s = (if s = [] then Some (0, 0) else mbToWide svc s)"

text \<open>
  \<open>NotcursesClusterLength\<close>, from the position \<open>s\<close> with the loop's variables: the length so
  far, the columns so far, the cluster's first wide character (0 before it is read) and
  whether a ZWJ was seen.  \<open>None\<close> is the answer \<open>-1\<close>.
\<close>

function notcurses_cluster ::
  "text_services \<Rightarrow> bytes \<Rightarrow> nat \<Rightarrow> int \<Rightarrow> char32 \<Rightarrow> bool \<Rightarrow> (nat \<times> int) option" where
  "notcurses_cluster svc s len columns first joined =
     (case read_wide svc s of
        None \<Rightarrow> None
      | Some (wc, n) \<Rightarrow>
          if first \<noteq> 0 \<and> \<not> joined \<and> clusterBreak svc first wc then Some (len, columns)
          else if variationSelector svc wc then Some (len + n, columns)
          else let joined' = (wc = 0x200D \<or> joined); width = wcWidth svc wc in
            if \<not> joined' \<and> width < 0 \<and> wcSpace svc wc then Some (len + 1, 1)
            else if \<not> joined' \<and> width < 0 \<and> wcControl svc wc then None
            else let cols = (if joined' then 0 else if width < 0 then 1 else width);
                     columns' = (if columns = 0 then columns + cols else columns);
                     first' = (if first = 0 then wc else first)
                 in if n \<noteq> 0 \<and> s \<noteq> [] then notcurses_cluster svc (drop n s) (len + n) columns' first' joined'
                    else Some (len + n, columns'))"
  by pat_completeness auto
termination by (relation "measure (\<lambda>(_, s, _). length s)") auto

declare notcurses_cluster.simps [simp del]

text \<open>\<open>TerminalColumns\<close>; a C string ends at its first NUL.  \<open>None\<close>: the loop does not advance.\<close>

function terminal_loop :: "text_services \<Rightarrow> bytes \<Rightarrow> int \<Rightarrow> int option" where
  "terminal_loop svc s tot =
     (case notcurses_cluster svc s 0 0 0 False of
        None \<Rightarrow> Some (- 1)
      | Some (len, columns) \<Rightarrow>
          if drop len s = [] then Some (tot + columns)
          else if len = 0 then None
          else terminal_loop svc (drop len s) (tot + columns))"
  by pat_completeness auto
termination by (relation "measure (\<lambda>(_, s, _). length s)") auto

declare terminal_loop.simps [simp del]

definition terminal_columns :: "text_services \<Rightarrow> bytes \<Rightarrow> int option" where
  "terminal_columns svc s = terminal_loop svc (takeWhile (\<lambda>c. c \<noteq> CHR 0x00) s) 0"

section \<open>Glyphs\<close>

record glyph =
  glyphBytes :: nat
  glyphCodepoint :: char32
  glyphCells :: int
  glyphPlaceholder :: bool
  glyphRawByte :: bool

abbreviation tab_char :: char32 where
  "tab_char \<equiv> 0x09"

definition is_control :: "char32 \<Rightarrow> bool" where
  "is_control cp \<longleftrightarrow> (cp < 0x20 \<and> cp \<noteq> tab_char) \<or> (cp \<ge> 0x7F \<and> cp \<le> 0x9F)"

definition is_ascii_printable :: "char32 \<Rightarrow> bool" where
  "is_ascii_printable cp \<longleftrightarrow> cp \<ge> 0x20 \<and> cp < 0x7F"

definition placeholder_digits :: "char32 \<Rightarrow> nat" where
  "placeholder_digits cp = (if cp \<le> 0xFF then 2 else if cp \<le> 0xFFFF then 4 else 6)"

definition placeholder_columns :: "char32 \<Rightarrow> int" where
  "placeholder_columns cp = int (placeholder_digits cp) + 2"

definition kRawByteColumns :: int where
  "kRawByteColumns = 6"

definition placeholder_glyph :: "char32 \<Rightarrow> nat \<Rightarrow> glyph" where
  "placeholder_glyph cp bytelen =
     \<lparr>glyphBytes = bytelen, glyphCodepoint = cp, glyphCells = placeholder_columns cp,
      glyphPlaceholder = True, glyphRawByte = False\<rparr>"

definition raw_byte_glyph :: "char32 \<Rightarrow> glyph" where
  "raw_byte_glyph byte =
     \<lparr>glyphBytes = 1, glyphCodepoint = byte, glyphCells = kRawByteColumns,
      glyphPlaceholder = True, glyphRawByte = True\<rparr>"

definition plain_glyph :: "nat \<Rightarrow> char32 \<Rightarrow> int \<Rightarrow> glyph" where
  "plain_glyph bytelen cp columns =
     \<lparr>glyphBytes = bytelen, glyphCodepoint = cp, glyphCells = columns,
      glyphPlaceholder = False, glyphRawByte = False\<rparr>"

definition measure_cluster :: "text_services \<Rightarrow> bytes \<Rightarrow> char32 \<Rightarrow> nat \<Rightarrow> glyph option" where
  "measure_cluster svc cluster first bytelen =
     terminal_columns svc cluster \<bind> (\<lambda>columns.
     Some (if columns > 0 then plain_glyph bytelen first (min columns 2)
           else if \<not> multibyteLocale svc then plain_glyph bytelen first 1
           else placeholder_glyph first bytelen))"

text \<open>One decoded step: a codepoint, or a byte that is not part of well-formed UTF-8.\<close>

record decoded =
  stepCodepoint :: char32
  stepLength :: nat
  stepRaw :: bool

type_synonym decoder = "offset \<Rightarrow> decoded option"

text \<open>
  \<open>ClusterAt\<close> and its loop, over any decoder.  The loop returns the cluster's bytes and the
  offset after it.
\<close>

partial_function (option) cluster_loop ::
  "text_services \<Rightarrow> decoder \<Rightarrow> offset \<Rightarrow> offset \<Rightarrow> char32 \<Rightarrow> int \<Rightarrow> bytes \<Rightarrow> (bytes \<times> offset) option" where
  "cluster_loop svc dec stop nxt prev state cluster =
     (if nxt < stop then
        dec nxt \<bind> (\<lambda>step.
        if stepRaw step \<or> is_control (stepCodepoint step) \<or> stepCodepoint step = tab_char
        then Some (cluster, nxt)
        else let (b, state') = graphemeBreak svc prev (stepCodepoint step) state
             in if b then Some (cluster, nxt)
                else cluster_loop svc dec stop (nxt + stepLength step) (stepCodepoint step) state'
                       (cluster @ encode_codepoint_utf8 (stepCodepoint step)))
      else Some (cluster, nxt))"

declare cluster_loop.simps [code]

definition cluster_at :: "text_services \<Rightarrow> decoder \<Rightarrow> offset \<Rightarrow> offset \<Rightarrow> glyph option" where
  "cluster_at svc dec off stop =
     dec off \<bind> (\<lambda>first.
     let cp = stepCodepoint first; nxt = off + stepLength first in
     if stepRaw first then Some (raw_byte_glyph cp)
     else if cp = tab_char then Some (plain_glyph (stepLength first) cp 1)
     else if is_control cp then Some (placeholder_glyph cp (stepLength first))
     else (if is_ascii_printable cp
           then (if nxt \<ge> stop then Some True else dec nxt \<bind> (\<lambda>d. Some (stepCodepoint d < 0x80)))
           else Some False) \<bind> (\<lambda>alone.
       if alone then Some (plain_glyph (stepLength first) cp 1)
       else cluster_loop svc dec stop nxt cp 0 (encode_codepoint_utf8 cp) \<bind> (\<lambda>(cluster, nxt').
            measure_cluster svc cluster cp (nxt' - off))))"

section \<open>Placeholders and the drawn text\<close>

definition hex_digit :: "nat \<Rightarrow> char" where
  "hex_digit n = ''0123456789ABCDEF'' ! n"

abbreviation placeholder_open :: char32 where
  "placeholder_open \<equiv> 0x25C1"
abbreviation placeholder_close :: char32 where
  "placeholder_close \<equiv> 0x25B7"

definition nibble :: "char32 \<Rightarrow> nat \<Rightarrow> nat" where
  "nibble cp digit = unat (drop_bit (digit * 4) cp AND 0xF)"

definition placeholder_text :: "char32 \<Rightarrow> bytes" where
  "placeholder_text cp =
     encode_codepoint_utf8 placeholder_open @
     map (\<lambda>digit. hex_digit (nibble cp digit)) (rev [0..<placeholder_digits cp]) @
     encode_codepoint_utf8 placeholder_close"

definition placeholder_glyph_text :: "glyph \<Rightarrow> bytes" where
  "placeholder_glyph_text g =
     (if \<not> glyphRawByte g then placeholder_text (glyphCodepoint g)
      else encode_codepoint_utf8 placeholder_open @ CHR 0x5C # CHR ''x'' #
           hex_digit (nibble (glyphCodepoint g) 1) # hex_digit (nibble (glyphCodepoint g) 0) #
           encode_codepoint_utf8 placeholder_close)"

partial_function (option) cluster_text_loop :: "decoder \<Rightarrow> offset \<Rightarrow> offset \<Rightarrow> bytes \<Rightarrow> bytes option" where
  "cluster_text_loop dec pos stop acc =
     (if pos < stop then
        dec pos \<bind> (\<lambda>step.
        cluster_text_loop dec (pos + stepLength step) stop (acc @ encode_codepoint_utf8 (stepCodepoint step)))
      else Some acc)"

declare cluster_text_loop.simps [code]

definition cluster_text :: "decoder \<Rightarrow> offset \<Rightarrow> glyph \<Rightarrow> bytes option" where
  "cluster_text dec off g =
     (if glyphPlaceholder g then Some (placeholder_glyph_text g)
      else cluster_text_loop dec off (off + glyphBytes g) [])"

section \<open>The two decoders\<close>

definition utf8_sequence_length :: "char \<Rightarrow> nat" where
  "utf8_sequence_length lead =
     (if u8 lead < 0x80 then 1
      else if u8 lead AND 0xE0 = 0xC0 then 2
      else if u8 lead AND 0xF0 = 0xE0 then 3 else 4)"

definition storage_decoder :: "('h, 't) text_storage_class \<Rightarrow> 'h \<Rightarrow> 't \<Rightarrow> decoder" where
  "storage_decoder cls h t pos =
     m_codepoint_at cls h t pos \<bind> (\<lambda>(cp, n).
     if cp = replacement_char \<and> n = 1
     then (case m_substring cls h t pos 1 of
             [] \<Rightarrow> Some \<lparr>stepCodepoint = 0, stepLength = 1, stepRaw = True\<rparr>
           | c # _ \<Rightarrow> Some \<lparr>stepCodepoint = ucast (u8 c), stepLength = 1, stepRaw = True\<rparr>)
     else Some \<lparr>stepCodepoint = cp, stepLength = n, stepRaw = False\<rparr>)"

text \<open>\<open>StringDecoder\<close>: at or past the end it would read outside the view, a fault.\<close>

definition string_decoder :: "bytes \<Rightarrow> decoder" where
  "string_decoder s pos =
     (if pos \<ge> length s then None
      else let cp = decode_codepoint_utf8 s pos in
        Some (if cp = replacement_char \<and> substr s pos 3 \<noteq> [CHR 0xEF, CHR 0xBF, CHR 0xBD]
              then \<lparr>stepCodepoint = ucast (u8 (s ! pos)), stepLength = 1, stepRaw = True\<rparr>
              else \<lparr>stepCodepoint = cp, stepLength = utf8_sequence_length (s ! pos), stepRaw = False\<rparr>))"

definition glyph_at :: "text_services \<Rightarrow> ('h, 't) text_storage_class \<Rightarrow> 'h \<Rightarrow> 't \<Rightarrow> offset \<Rightarrow> offset \<Rightarrow> glyph option" where
  "glyph_at svc cls h t off stop =
     cluster_at svc (storage_decoder cls h t) off (min stop (m_byte_length cls t))"

definition glyph_at_string :: "text_services \<Rightarrow> bytes \<Rightarrow> offset \<Rightarrow> glyph option" where
  "glyph_at_string svc s off = cluster_at svc (string_decoder s) off (length s)"

definition glyph_text :: "('h, 't) text_storage_class \<Rightarrow> 'h \<Rightarrow> 't \<Rightarrow> offset \<Rightarrow> glyph \<Rightarrow> bytes option" where
  "glyph_text cls h t off g = cluster_text (storage_decoder cls h t) off g"

definition glyph_text_string :: "bytes \<Rightarrow> offset \<Rightarrow> glyph \<Rightarrow> bytes option" where
  "glyph_text_string s off g = cluster_text (string_decoder s) off g"

section \<open>Columns\<close>

definition glyph_columns :: "glyph \<Rightarrow> int \<Rightarrow> int \<Rightarrow> int" where
  "glyph_columns g column tabWidth =
     (if glyphCodepoint g = tab_char \<and> tabWidth > 0 then tabWidth - (column smod tabWidth)
      else glyphCells g)"

partial_function (option) string_columns_loop :: "text_services \<Rightarrow> bytes \<Rightarrow> int \<Rightarrow> offset \<Rightarrow> int \<Rightarrow> int option" where
  "string_columns_loop svc s tabWidth off column =
     (if off < length s then
        glyph_at_string svc s off \<bind> (\<lambda>g.
        string_columns_loop svc s tabWidth (off + glyphBytes g) (column + glyph_columns g column tabWidth))
      else Some column)"

declare string_columns_loop.simps [code]

definition string_columns :: "text_services \<Rightarrow> bytes \<Rightarrow> int \<Rightarrow> int \<Rightarrow> int option" where
  "string_columns svc s startColumn tabWidth =
     string_columns_loop svc s tabWidth 0 startColumn \<bind> (\<lambda>column. Some (column - startColumn))"

partial_function (option) prefix_bytes_loop :: "text_services \<Rightarrow> bytes \<Rightarrow> int \<Rightarrow> int \<Rightarrow> offset \<Rightarrow> offset option" where
  "prefix_bytes_loop svc s columns used off =
     (if off < length s then
        glyph_at_string svc s off \<bind> (\<lambda>g.
        if used + glyphCells g > columns then Some off
        else prefix_bytes_loop svc s columns (used + glyphCells g) (off + glyphBytes g))
      else Some off)"

declare prefix_bytes_loop.simps [code]

definition prefix_bytes_for_columns :: "text_services \<Rightarrow> bytes \<Rightarrow> int \<Rightarrow> offset option" where
  "prefix_bytes_for_columns svc s columns = prefix_bytes_loop svc s columns 0 0"


text \<open>A locale in which every byte is one narrow character, for concrete examples.\<close>

definition plain_services :: text_services where
  "plain_services =
     \<lparr>graphemeBreak = (\<lambda>_ _ state. (True, state)),
      mbToWide = (\<lambda>s. case s of [] \<Rightarrow> None | c # _ \<Rightarrow> Some (ucast (u8 c), 1)),
      clusterBreak = (\<lambda>_ _. True), variationSelector = (\<lambda>_. False), wcWidth = (\<lambda>_. 1),
      wcSpace = (\<lambda>cp. cp = 0x20), wcControl = is_control, multibyteLocale = True\<rparr>"

lemma plain_services_consume: "consumes plain_services"
  by (auto simp: consumes_def plain_services_def split: list.splits)

section \<open>Measuring ends\<close>

lemma notcurses_cluster_advances:
  assumes "consumes svc"
  shows "notcurses_cluster svc s len columns first joined = Some (n, cols) \<Longrightarrow>
    len \<le> n \<and> (s \<noteq> [] \<and> first = 0 \<longrightarrow> len < n)"
proof (induction "length s" arbitrary: s len columns first joined rule: less_induct)
  case less
  obtain wc k where r: "read_wide svc s = Some (wc, k)"
    using less.prems by (subst (asm) notcurses_cluster.simps) (auto split: option.splits)
  have k: "s \<noteq> [] \<Longrightarrow> 1 \<le> k"
    using r assms by (auto simp: read_wide_def consumes_def)
  have rec: "len + k \<le> n" if "notcurses_cluster svc (drop k s) (len + k) c f j = Some (n, cols)" "s \<noteq> []" for c f j
    using less.hyps [OF _ that(1)] that(2) k by (cases s) auto
  have "(n = len \<and> first \<noteq> 0) \<or> n = len + k \<or> n = len + 1 \<or>
    (s \<noteq> [] \<and> (\<exists>c f j. notcurses_cluster svc (drop k s) (len + k) c f j = Some (n, cols)))"
    using less.prems unfolding notcurses_cluster.simps [of svc s] r option.case prod.case Let_def
    by (simp split: if_split_asm) blast+
  then show ?case
    using rec k by fastforce
qed

lemma terminal_loop_total:
  assumes "consumes svc"
  shows "\<exists>c. terminal_loop svc s tot = Some c"
proof (induction "length s" arbitrary: s tot rule: less_induct)
  case less
  show ?case
  proof (cases "notcurses_cluster svc s 0 0 0 False")
    case (Some x)
    obtain n cols where x: "x = (n, cols)" by (cases x)
    have "s \<noteq> [] \<longrightarrow> 0 < n"
      using notcurses_cluster_advances [OF assms] Some x by blast
    then have "drop n s \<noteq> [] \<Longrightarrow> \<exists>c. terminal_loop svc (drop n s) (tot + cols) = Some c" "n = 0 \<Longrightarrow> s = []"
      by (auto intro!: less.hyps)
    then show ?thesis
      by (subst terminal_loop.simps) (auto simp: Some x)
  qed (subst terminal_loop.simps, simp)
qed

lemma terminal_columns_total: "consumes svc \<Longrightarrow> \<exists>c. terminal_columns svc s = Some c"
  by (simp add: terminal_columns_def terminal_loop_total)

lemma placeholder_columns_bounds: "4 \<le> placeholder_columns cp" "placeholder_columns cp \<le> 8"
  by (simp_all add: placeholder_columns_def placeholder_digits_def)

lemma measure_cluster_glyph:
  assumes "consumes svc"
  shows "\<exists>g. measure_cluster svc cluster first n = Some g \<and> glyphBytes g = n \<and> glyphCodepoint g = first \<and>
    \<not> glyphRawByte g \<and> 1 \<le> glyphCells g \<and> glyphCells g \<le> (if glyphPlaceholder g then 8 else 2)"
proof -
  obtain c where "terminal_columns svc cluster = Some c"
    using terminal_columns_total [OF assms] by blast
  then show ?thesis
    using placeholder_columns_bounds [of first]
    by (auto simp: measure_cluster_def plain_glyph_def placeholder_glyph_def)
qed

section \<open>What every decoder of a text agrees on\<close>

text \<open>The step at an offset of a byte string, in terms of the reference \<open>decoded_at\<close>.\<close>

definition text_step :: "bytes \<Rightarrow> offset \<Rightarrow> decoded" where
  "text_step s pos =
     (let (cp, n) = decoded_at s pos in
      if cp = replacement_char \<and> n = 1
      then \<lparr>stepCodepoint = ucast (u8 (s ! pos)), stepLength = 1, stepRaw = True\<rparr>
      else \<lparr>stepCodepoint = cp, stepLength = n, stepRaw = False\<rparr>)"

lemma text_step_bounds:
  assumes "pos < length s"
  shows "1 \<le> stepLength (text_step s pos)" "pos + stepLength (text_step s pos) \<le> length s"
proof -
  show "1 \<le> stepLength (text_step s pos)"
    using snd_decoded_at_pos [OF assms] by (auto simp: text_step_def split: prod.splits)
  show "pos + stepLength (text_step s pos) \<le> length s"
    using snd_decoded_at_le [of pos s] assms by (auto simp: text_step_def split: prod.splits)
qed

lemma text_step_bytes:
  assumes "pos < length s" "\<not> stepRaw (text_step s pos)"
  shows "encode_codepoint_utf8 (stepCodepoint (text_step s pos)) = substr s pos (stepLength (text_step s pos))"
  using assms encode_decoded [OF assms(1)]
  by (cases "decoded_at s pos") (auto simp: text_step_def split: if_splits)

text \<open>A run of well-formed codepoints from one offset to another.\<close>

inductive clean_run :: "bytes \<Rightarrow> offset \<Rightarrow> offset \<Rightarrow> bool" for s where
  clean_refl: "clean_run s a a"
| clean_step: "a < length s \<Longrightarrow> \<not> stepRaw (text_step s a) \<Longrightarrow> clean_run s (a + stepLength (text_step s a)) b \<Longrightarrow>
    clean_run s a b"

lemma clean_run_le: "clean_run s a b \<Longrightarrow> a \<le> b"
  by (induction rule: clean_run.induct) auto

lemma clean_run_length: "clean_run s a b \<Longrightarrow> a \<le> length s \<Longrightarrow> b \<le> length s"
  by (induction rule: clean_run.induct) (auto dest: text_step_bounds)

lemma substr_two: "a \<le> m \<Longrightarrow> m \<le> b \<Longrightarrow> substr s a (m - a) @ substr s m (b - m) = substr s a (b - a)"
proof -
  assume "a \<le> m" "m \<le> b"
  then have "take (b - a) (drop a s) = take ((m - a) + (b - m)) (drop a s)" by simp
  also have "\<dots> = take (m - a) (drop a s) @ take (b - m) (drop (m - a) (drop a s))"
    by (rule take_add)
  finally show ?thesis using \<open>a \<le> m\<close> by (simp add: substr_def)
qed

lemma clean_step_bytes:
  assumes "a < length s" "\<not> stepRaw (text_step s a)" "clean_run s (a + stepLength (text_step s a)) b"
  shows "encode_codepoint_utf8 (stepCodepoint (text_step s a)) @
      substr s (a + stepLength (text_step s a)) (b - (a + stepLength (text_step s a))) = substr s a (b - a)"
  using text_step_bytes [OF assms(1,2)] substr_two [of a "a + stepLength (text_step s a)" b s]
    clean_run_le [OF assms(3)] by simp

text \<open>A glyph of a text: at least one byte and one cell, and drawn as itself only when well-formed.\<close>

definition glyph_fits :: "bytes \<Rightarrow> offset \<Rightarrow> glyph \<Rightarrow> bool" where
  "glyph_fits s off g \<longleftrightarrow> 1 \<le> glyphBytes g \<and> off + glyphBytes g \<le> length s \<and>
    1 \<le> glyphCells g \<and> glyphCells g \<le> (if glyphPlaceholder g then 8 else 2) \<and>
    (\<not> glyphPlaceholder g \<longrightarrow> clean_run s off (off + glyphBytes g))"

locale text_source =
  fixes dec :: "'src \<Rightarrow> decoder"
    and content :: "'src \<Rightarrow> bytes"
    and ok :: "'src \<Rightarrow> bool"
  assumes decodes: "ok src \<Longrightarrow> pos < length (content src) \<Longrightarrow> dec src pos = Some (text_step (content src) pos)"
begin

lemma cluster_loop_run:
  assumes "ok src" "stop \<le> length (content src)"
  shows "nxt \<le> length (content src) \<Longrightarrow>
    \<exists>nxt'. cluster_loop svc (dec src) stop nxt prev state cluster =
        Some (cluster @ substr (content src) nxt (nxt' - nxt), nxt') \<and> clean_run (content src) nxt nxt'"
proof (induction "stop - nxt" arbitrary: nxt prev state cluster rule: less_induct)
  case less
  let ?step = "text_step (content src) nxt"
  let ?fin = "\<not> nxt < stop \<or> stepRaw ?step \<or> is_control (stepCodepoint ?step) \<or> stepCodepoint ?step = tab_char \<or>
    fst (graphemeBreak svc prev (stepCodepoint ?step) state)"
  show ?case
  proof (cases ?fin)
    case True
    then have "cluster_loop svc (dec src) stop nxt prev state cluster = Some (cluster, nxt)"
      using assms decodes [of src nxt]
      by (subst cluster_loop.simps) (auto split: prod.splits)
    then show ?thesis by (auto intro: clean_refl simp: substr_def)
  next
    case False
    then have nxt: "nxt < stop" "nxt < length (content src)" "\<not> stepRaw ?step"
      using assms by auto
    obtain state' where "graphemeBreak svc prev (stepCodepoint ?step) state = (False, state')"
      using False by (cases "graphemeBreak svc prev (stepCodepoint ?step) state") auto
    with False have loop: "cluster_loop svc (dec src) stop nxt prev state cluster =
      cluster_loop svc (dec src) stop (nxt + stepLength ?step) (stepCodepoint ?step) state'
        (cluster @ encode_codepoint_utf8 (stepCodepoint ?step))"
      using assms nxt decodes [of src nxt] by (subst cluster_loop.simps) simp
    have "\<exists>nxt'. cluster_loop svc (dec src) stop (nxt + stepLength ?step) (stepCodepoint ?step) state'
        (cluster @ encode_codepoint_utf8 (stepCodepoint ?step)) =
        Some ((cluster @ encode_codepoint_utf8 (stepCodepoint ?step)) @
          substr (content src) (nxt + stepLength ?step) (nxt' - (nxt + stepLength ?step)), nxt') \<and>
      clean_run (content src) (nxt + stepLength ?step) nxt'"
      by (rule less.hyps) (use text_step_bounds [OF nxt(2)] nxt in auto)
    then obtain nxt' where nxt': "cluster_loop svc (dec src) stop (nxt + stepLength ?step) (stepCodepoint ?step) state'
        (cluster @ encode_codepoint_utf8 (stepCodepoint ?step)) =
        Some ((cluster @ encode_codepoint_utf8 (stepCodepoint ?step)) @
          substr (content src) (nxt + stepLength ?step) (nxt' - (nxt + stepLength ?step)), nxt')"
      "clean_run (content src) (nxt + stepLength ?step) nxt'"
      by blast
    have "clean_run (content src) nxt nxt'"
      using nxt nxt'(2) by (blast intro: clean_step)
    with loop nxt' clean_step_bytes [OF nxt(2,3) nxt'(2)] show ?thesis by auto
  qed
qed

lemma cluster_text_run:
  assumes "ok src" "clean_run (content src) a b"
  shows "cluster_text_loop (dec src) a b acc = Some (acc @ substr (content src) a (b - a))"
  using assms(2)
proof (induction arbitrary: acc rule: clean_run.induct)
  case (clean_refl a)
  then show ?case by (subst cluster_text_loop.simps) (simp add: substr_def)
next
  case (clean_step a b)
  have "a < b"
    using clean_run_le [OF clean_step.hyps(3)] text_step_bounds(1) [OF clean_step.hyps(1)] by simp
  then have "cluster_text_loop (dec src) a b acc =
    cluster_text_loop (dec src) (a + stepLength (text_step (content src) a)) b
      (acc @ encode_codepoint_utf8 (stepCodepoint (text_step (content src) a)))"
    using decodes [OF assms(1) clean_step.hyps(1)] by (subst cluster_text_loop.simps) simp
  then show ?case
    using clean_step.IH clean_step_bytes [OF clean_step.hyps] by simp
qed

text \<open>A glyph takes at least one byte and at least one cell, and it is drawn as its own bytes.\<close>

lemma cluster_glyph:
  assumes "ok src" "consumes svc" "off < length (content src)" "stop \<le> length (content src)"
  shows "\<exists>g. cluster_at svc (dec src) off stop = Some g \<and> glyph_fits (content src) off g"
proof -
  let ?step = "text_step (content src) off"
  let ?cp = "stepCodepoint ?step" and ?nxt = "off + stepLength ?step"
  note dec = decodes [OF assms(1,3)] and bounds = text_step_bounds [OF assms(3)]
  have one: "clean_run (content src) off ?nxt" if "\<not> stepRaw ?step"
    using assms(3) that by (auto intro: clean_step clean_refl)
  have plain: "glyph_fits (content src) off (plain_glyph (stepLength ?step) ?cp 1)" if "\<not> stepRaw ?step"
    using bounds one [OF that] by (simp add: glyph_fits_def plain_glyph_def)
  have raw: "stepRaw ?step \<Longrightarrow> stepLength ?step = 1"
    by (auto simp: text_step_def split: prod.splits if_splits)
  let ?alone = "if is_ascii_printable ?cp
           then (if ?nxt \<ge> stop then Some True else dec src ?nxt \<bind> (\<lambda>d. Some (stepCodepoint d < 0x80)))
           else Some False"
  obtain alone where alone: "?alone = Some alone"
    using decodes [OF assms(1), of ?nxt] assms(4)
    by (cases "stop \<le> ?nxt"; cases "is_ascii_printable ?cp") simp_all
  obtain nxt' where loop: "cluster_loop svc (dec src) stop ?nxt ?cp 0 (encode_codepoint_utf8 ?cp) =
      Some (encode_codepoint_utf8 ?cp @ substr (content src) ?nxt (nxt' - ?nxt), nxt')"
    and run: "clean_run (content src) ?nxt nxt'"
    using cluster_loop_run [OF assms(1,4) bounds(2)] by blast
  have nxt': "?nxt \<le> nxt'" "nxt' \<le> length (content src)"
    using clean_run_le [OF run] clean_run_length [OF run] bounds by auto
  obtain g where g: "measure_cluster svc (encode_codepoint_utf8 ?cp @ substr (content src) ?nxt (nxt' - ?nxt)) ?cp
      (nxt' - off) = Some g" "glyphBytes g = nxt' - off" "1 \<le> glyphCells g"
      "glyphCells g \<le> (if glyphPlaceholder g then 8 else 2)"
    using measure_cluster_glyph [OF assms(2)] by blast
  consider "stepRaw ?step" | "\<not> stepRaw ?step" "?cp = tab_char" | "\<not> stepRaw ?step" "?cp \<noteq> tab_char" "is_control ?cp"
    | "\<not> stepRaw ?step" "?cp \<noteq> tab_char" "\<not> is_control ?cp" "alone"
    | "\<not> stepRaw ?step" "?cp \<noteq> tab_char" "\<not> is_control ?cp" "\<not> alone" by blast
  then show ?thesis
  proof cases
    case 1
    then have "cluster_at svc (dec src) off stop = Some (raw_byte_glyph ?cp)"
      by (simp add: cluster_at_def dec Let_def)
    moreover have "glyph_fits (content src) off (raw_byte_glyph ?cp)"
      using bounds raw [OF 1] by (simp add: glyph_fits_def raw_byte_glyph_def kRawByteColumns_def)
    ultimately show ?thesis by blast
  next
    case 2
    then have "cluster_at svc (dec src) off stop = Some (plain_glyph (stepLength ?step) ?cp 1)"
      by (simp add: cluster_at_def dec Let_def)
    then show ?thesis using plain 2(1) by blast
  next
    case 3
    then have "cluster_at svc (dec src) off stop = Some (placeholder_glyph ?cp (stepLength ?step))"
      by (simp add: cluster_at_def dec Let_def)
    moreover have "glyph_fits (content src) off (placeholder_glyph ?cp (stepLength ?step))"
      using bounds placeholder_columns_bounds [of ?cp] by (simp add: glyph_fits_def placeholder_glyph_def)
    ultimately show ?thesis by blast
  next
    case 4
    then have "cluster_at svc (dec src) off stop = Some (plain_glyph (stepLength ?step) ?cp 1)"
      using alone by (simp add: cluster_at_def dec Let_def)
    then show ?thesis using plain 4(1) by blast
  next
    case 5
    then have "cluster_at svc (dec src) off stop = Some g"
      using alone loop g(1) by (simp add: cluster_at_def dec Let_def)
    moreover have "clean_run (content src) off nxt'"
      using 5 assms(3) run by (blast intro: clean_step)
    then have "glyph_fits (content src) off g"
      using g(2-4) nxt' bounds by (simp add: glyph_fits_def)
    ultimately show ?thesis by blast
  qed
qed

lemma cluster_text_bytes:
  assumes "ok src" "consumes svc" "off < length (content src)" "stop \<le> length (content src)"
    "cluster_at svc (dec src) off stop = Some g"
  shows "cluster_text (dec src) off g =
    Some (if glyphPlaceholder g then placeholder_glyph_text g else substr (content src) off (glyphBytes g))"
  using cluster_glyph [OF assms(1-4)] assms(5) cluster_text_run [OF assms(1), of off "off + glyphBytes g" "[]"]
  by (auto simp: cluster_text_def glyph_fits_def)

end


section \<open>Both decoders are decoders of their text\<close>

lemma string_decoder_step:
  assumes "pos < length s"
  shows "string_decoder s pos = Some (text_step s pos)"
proof -
  obtain cp n where d: "decoded_at s pos = (cp, n)" by (cases "decoded_at s pos")
  then have cp: "decode_codepoint_utf8 s pos = cp" by (simp flip: fst_decoded_at)
  have u8: "encode_codepoint_utf8 replacement_char = [CHR 0xEF, CHR 0xBF, CHR 0xBD]" by code_simp
  have n: "utf8_sequence_length (s ! pos) = n" if "\<not> (cp = replacement_char \<and> n = 1)"
    using assms d that
    by (auto simp: decoded_at_def Let_def utf8_sequence_length_def decode_lead_def split: option.splits if_splits prod.splits)
  have raw: "substr s pos 3 = [CHR 0xEF, CHR 0xBF, CHR 0xBD] \<longleftrightarrow> n \<noteq> 1" if "cp = replacement_char"
  proof
    assume "n \<noteq> 1"
    then have bytes: "substr s pos n = [CHR 0xEF, CHR 0xBF, CHR 0xBD]"
      using encode_decoded [OF assms d] that u8 by simp
    then have "length (substr s pos n) = 3" by simp
    then have "n \<ge> 3" by simp
    then have "take 3 (substr s pos n) = substr s pos 3" by (simp add: substr_def)
    with bytes show "substr s pos 3 = [CHR 0xEF, CHR 0xBF, CHR 0xBD]" by simp
  next
    assume three: "substr s pos 3 = [CHR 0xEF, CHR 0xBF, CHR 0xBD]"
    then have "length (substr s pos 3) = 3" by simp
    then have room: "pos + 3 \<le> length s" by simp
    from three have "s ! pos = CHR 0xEF" "substr s (pos + 1) 2 = [CHR 0xBF, CHR 0xBD]"
      using substr_hd [OF assms, of 3] by simp_all
    moreover have "decode_lead (u8 CHR 0xEF) = Some (3, 0xF)" "\<not> u8 CHR 0xEF < 0x80"
      "decode_tail [CHR 0xBF, CHR 0xBD] 0xF = Some replacement_char"
      "is_scalar_value_encoding replacement_char 3"
      by code_simp+
    ultimately have "decoded_at s pos = (replacement_char, 3)"
      using assms room by (simp add: decoded_at_def)
    with d show "n \<noteq> 1" by simp
  qed
  show ?thesis
    using assms d n raw by (auto simp: string_decoder_def text_step_def cp Let_def)
qed

interpretation strings: text_source string_decoder "\<lambda>s. s" "\<lambda>_. True"
  by unfold_locales (rule string_decoder_step)

lemma storage_decoder_step:
  assumes "st_ok h st" "pos < length (st_content h st)"
  shows "storage_decoder storage_class h st pos = Some (text_step (st_content h st) pos)"
proof -
  obtain cp n where d: "decoded_at (st_content h st) pos = (cp, n)" by (cases "decoded_at (st_content h st) pos")
  have "m_substring storage_class h st pos 1 = substr (st_content h st) pos 1"
    using any_class.reads_back [OF assms(1)] by blast
  then have "m_substring storage_class h st pos 1 = [st_content h st ! pos]"
    using assms(2) by (simp add: substr_def take_Suc hd_drop_conv_nth)
  then show ?thesis
    using d any_codepoints.codepoint_at [OF assms(1)] by (simp add: storage_decoder_def text_step_def)
qed

interpretation storages: text_source
  "\<lambda>(h, st). storage_decoder storage_class h st" "\<lambda>(h, st). st_content h st" "\<lambda>(h, st). st_ok h st"
  by unfold_locales (auto intro: storage_decoder_step)

text \<open>Two decoders of one text segment it the same way.\<close>

lemma cluster_loop_cong:
  assumes "\<And>pos. pos < n \<Longrightarrow> dec pos = dec' pos" "stop \<le> n"
    "\<And>pos. pos < n \<Longrightarrow> \<exists>d. dec pos = Some d \<and> 1 \<le> stepLength d"
  shows "cluster_loop svc dec stop nxt prev state cluster = cluster_loop svc dec' stop nxt prev state cluster"
proof (induction "stop - nxt" arbitrary: nxt prev state cluster rule: less_induct)
  case less
  show ?case
  proof (cases "nxt < stop")
    case True
    then obtain d where d: "dec nxt = Some d" "1 \<le> stepLength d" "dec' nxt = Some d"
      using assms(1) [of nxt] assms(3) [of nxt] assms(2) by auto
    have "cluster_loop svc dec stop (nxt + stepLength d) c st' cl = cluster_loop svc dec' stop (nxt + stepLength d) c st' cl"
      for c st' cl
      by (rule less.hyps) (use d True in simp)
    then show ?thesis
      using True d
      by (subst (1 2) cluster_loop.simps) (simp split: prod.splits)
  qed (simp add: cluster_loop.simps)
qed

lemma cluster_at_cong:
  assumes "\<And>pos. pos < n \<Longrightarrow> dec pos = dec' pos" "stop \<le> n" "off < n"
    "\<And>pos. pos < n \<Longrightarrow> \<exists>d. dec pos = Some d \<and> 1 \<le> stepLength d"
  shows "cluster_at svc dec off stop = cluster_at svc dec' off stop"
proof -
  have loop: "cluster_loop svc dec stop = cluster_loop svc dec' stop"
    using cluster_loop_cong [of n dec dec' stop svc] assms by blast
  obtain d where d: "dec off = Some d" "dec' off = Some d"
    using assms(1) [OF assms(3)] assms(4) [OF assms(3)] by auto
  have peek: "(if off + stepLength d \<ge> stop then Some True else dec (off + stepLength d) \<bind> f) =
      (if off + stepLength d \<ge> stop then Some True else dec' (off + stepLength d) \<bind> f)" for f :: "decoded \<Rightarrow> bool option"
    using assms(1) [of "off + stepLength d"] assms(2) by simp
  show ?thesis
    unfolding cluster_at_def d bind.bind_lunit Let_def loop peek ..
qed

section \<open>Fitting text into columns\<close>

text \<open>The glyphs of a string from one offset to another, in order.\<close>

fun glyph_chain :: "text_services \<Rightarrow> bytes \<Rightarrow> offset \<Rightarrow> glyph list \<Rightarrow> offset \<Rightarrow> bool" where
  "glyph_chain svc s off [] stop \<longleftrightarrow> off = stop"
| "glyph_chain svc s off (g # gs) stop \<longleftrightarrow>
     off < length s \<and> glyph_at_string svc s off = Some g \<and> glyph_chain svc s (off + glyphBytes g) gs stop"

lemma string_glyph:
  assumes "consumes svc" "off < length s"
  shows "\<exists>g. glyph_at_string svc s off = Some g \<and> glyph_fits s off g"
  using strings.cluster_glyph [where src = s and svc = svc and off = off and stop = "length s"] assms by (simp add: glyph_at_string_def)

text \<open>A cut at \<open>n\<close>: the glyphs from \<open>off\<close> to \<open>n\<close> fit, and the next one does not.\<close>

definition longest_fit :: "text_services \<Rightarrow> bytes \<Rightarrow> int \<Rightarrow> int \<Rightarrow> offset \<Rightarrow> offset \<Rightarrow> bool" where
  "longest_fit svc s columns used off n \<longleftrightarrow> n \<le> length s \<and>
    (\<exists>gs. glyph_chain svc s off gs n \<and> used + sum_list (map glyphCells gs) \<le> columns \<and>
      (n = length s \<or> (\<exists>g. glyph_at_string svc s n = Some g \<and>
        columns < used + sum_list (map glyphCells gs) + glyphCells g)))"

lemma longest_fit_step:
  assumes "off < length s" "glyph_at_string svc s off = Some g"
    "longest_fit svc s columns (used + glyphCells g) (off + glyphBytes g) n"
  shows "longest_fit svc s columns used off n"
proof -
  from assms(3) obtain gs where "n \<le> length s" "glyph_chain svc s (off + glyphBytes g) gs n"
    "used + glyphCells g + sum_list (map glyphCells gs) \<le> columns"
    "n = length s \<or> (\<exists>g'. glyph_at_string svc s n = Some g' \<and>
      columns < used + glyphCells g + sum_list (map glyphCells gs) + glyphCells g')"
    by (auto simp: longest_fit_def)
  with assms(1,2) show ?thesis
    unfolding longest_fit_def by (intro conjI exI [of _ "g # gs"]) (auto simp: algebra_simps)
qed

lemma prefix_bytes_loop_fits:
  assumes "consumes svc"
  shows "off \<le> length s \<Longrightarrow> used \<le> columns \<Longrightarrow>
    \<exists>n. prefix_bytes_loop svc s columns used off = Some n \<and> longest_fit svc s columns used off n"
proof (induction "length s - off" arbitrary: off used rule: less_induct)
  case less
  show ?case
  proof (cases "off < length s")
    case False
    with less.prems show ?thesis
      by (subst prefix_bytes_loop.simps) (auto simp: longest_fit_def intro!: exI [of _ "[]"])
  next
    case True
    then obtain g where g: "glyph_at_string svc s off = Some g" "glyph_fits s off g"
      using string_glyph [OF assms] by blast
    show ?thesis
    proof (cases "used + glyphCells g > columns")
      case over: True
      then have "prefix_bytes_loop svc s columns used off = Some off"
        using True g by (subst prefix_bytes_loop.simps) simp
      then show ?thesis
        using less.prems over g by (auto simp: longest_fit_def intro!: exI [of _ "[]"])
    next
      case False
      then have "prefix_bytes_loop svc s columns used off =
          prefix_bytes_loop svc s columns (used + glyphCells g) (off + glyphBytes g)"
        using True g by (subst prefix_bytes_loop.simps) simp
      moreover have "\<exists>n. prefix_bytes_loop svc s columns (used + glyphCells g) (off + glyphBytes g) = Some n \<and>
          longest_fit svc s columns (used + glyphCells g) (off + glyphBytes g) n"
        by (rule less.hyps) (use g(2) False True in \<open>auto simp: glyph_fits_def\<close>)
      ultimately show ?thesis
        using longest_fit_step [OF True g(1)] by auto
    qed
  qed
qed

lemma string_columns_loop_returns:
  assumes "consumes svc"
  shows "off \<le> length s \<Longrightarrow> \<exists>c. string_columns_loop svc s tabWidth off column = Some c"
proof (induction "length s - off" arbitrary: off column rule: less_induct)
  case less
  show ?case
  proof (cases "off < length s")
    case True
    then obtain g where g: "glyph_at_string svc s off = Some g" "glyph_fits s off g"
      using string_glyph [OF assms] by blast
    then have "\<exists>c. string_columns_loop svc s tabWidth (off + glyphBytes g) (column + glyph_columns g column tabWidth) = Some c"
      using True by (intro less.hyps) (auto simp: glyph_fits_def)
    with True g show ?thesis by (subst string_columns_loop.simps) simp
  qed (subst string_columns_loop.simps, simp)
qed

text \<open>The placeholder drawn for a codepoint has as many characters as it is measured at.\<close>

lemma count_hex_digits:
  "(\<And>d. d \<in> set ds \<Longrightarrow> f d < 16) \<Longrightarrow> count_codepoints (map (\<lambda>d. hex_digit (f d)) ds) = length ds"
proof (induction ds)
  case (Cons d ds)
  have "list_all (\<lambda>n. \<not> is_continuation_byte (hex_digit n)) [0..<16]" by code_simp
  then have "\<not> is_continuation_byte (hex_digit (f d))"
    using Cons.prems [of d] by (simp add: list_all_iff)
  with Cons show ?case by simp
qed simp

lemma nibble_less: "nibble cp digit < 16"
proof -
  have "(drop_bit (digit * 4) cp AND 0xF) = take_bit 4 (drop_bit (digit * 4) cp)"
    by (simp add: take_bit_eq_mask mask_eq_exp_minus_1)
  then have "take_bit 4 (drop_bit (digit * 4) cp AND 0xF) = (drop_bit (digit * 4) cp AND 0xF)" by simp
  from unat_take_bit_less [OF this] show ?thesis by (simp add: nibble_def)
qed

lemma placeholder_text_width: "int (count_codepoints (placeholder_text cp)) = placeholder_columns cp"
proof -
  have "count_codepoints (encode_codepoint_utf8 placeholder_open) = 1"
    "count_codepoints (encode_codepoint_utf8 placeholder_close) = 1" by code_simp+
  then show ?thesis
    by (simp add: placeholder_text_def placeholder_columns_def count_hex_digits nibble_less)
qed

section \<open>The properties\<close>

text \<open>
  Measuring a glyph of a buffer's storage always succeeds; the glyph takes at least one
  byte and ends inside the text, and it takes at least one cell, at most two when it is drawn
  as itself and at most eight as a placeholder.
\<close>

lemma glyph_bounds:
  assumes "st_ok h st" "consumes svc" "off < length (st_content h st)"
  shows "\<exists>g. glyph_at svc storage_class h st off stop = Some g \<and>
    1 \<le> glyphBytes g \<and> off + glyphBytes g \<le> length (st_content h st) \<and>
    1 \<le> glyphCells g \<and> glyphCells g \<le> (if glyphPlaceholder g then 8 else 2)"
  using storages.cluster_glyph [of "(h, st)" svc off "min stop (length (st_content h st))"] assms
    any_codepoints.size [OF assms(1)]
  by (auto simp: glyph_at_def glyph_fits_def)

text \<open>
  The two forms of \<open>GlyphAt\<close> agree: over a buffer's storage and over the plain string of
  its text.
\<close>

lemma glyph_of_storage_is_glyph_of_text:
  assumes "st_ok h st" "off < length (st_content h st)"
  shows "glyph_at svc storage_class h st off (length (st_content h st)) = glyph_at_string svc (st_content h st) off"
  unfolding glyph_at_def glyph_at_string_def any_codepoints.size [OF assms(1)] min.idem
  by (rule cluster_at_cong [where n = "length (st_content h st)"])
    (use assms text_step_bounds in \<open>auto simp: storage_decoder_step string_decoder_step\<close>)

text \<open>
  C31: what a cell draws is what the file holds: the text of a glyph that is not a placeholder
  is exactly the bytes of the buffer it stands for.
\<close>

theorem drawn_glyph_is_file_text:
  assumes "st_ok h st" "consumes svc" "off < length (st_content h st)"
    "glyph_at svc storage_class h st off stop = Some g" "\<not> glyphPlaceholder g"
  shows "glyph_text storage_class h st off g = Some (substr (st_content h st) off (glyphBytes g))"
  using storages.cluster_text_bytes [of "(h, st)" svc off "min stop (length (st_content h st))" g] assms
    any_codepoints.size [OF assms(1)]
  by (simp add: glyph_at_def glyph_text_def)

theorem drawn_glyph_is_file_text_witness:
  "glyph_text storage_class [] (RopeStorage (rope_make_leaf ''ab'')) 1 (plain_glyph 1 0x62 1) =
    Some (substr (st_content [] (RopeStorage (rope_make_leaf ''ab''))) 1 (glyphBytes (plain_glyph 1 0x62 1)))"
proof (rule drawn_glyph_is_file_text [OF _ plain_services_consume, where stop = 2])
  show "st_ok [] (RopeStorage (rope_make_leaf ''ab''))"
    by simp
qed (code_simp | simp add: plain_glyph_def)+

text \<open>
  C32: the prefix cut to a number of columns is a whole number of glyphs, fits, and is the
  longest such prefix: the next glyph would not fit.
\<close>

theorem prefix_fits_columns:
  assumes "consumes svc" "0 \<le> columns"
  shows "\<exists>gs n. prefix_bytes_for_columns svc s columns = Some n \<and> glyph_chain svc s 0 gs n \<and> n \<le> length s \<and>
    sum_list (map glyphCells gs) \<le> columns \<and>
    (n = length s \<or> (\<exists>g. glyph_at_string svc s n = Some g \<and> columns < sum_list (map glyphCells gs) + glyphCells g))"
  using prefix_bytes_loop_fits [OF assms(1), of 0 s 0 columns] assms(2)
  unfolding prefix_bytes_for_columns_def longest_fit_def by auto

theorem prefix_fits_columns_witness:
  "\<exists>gs n. prefix_bytes_for_columns plain_services ''abc'' 2 = Some n \<and> glyph_chain plain_services ''abc'' 0 gs n \<and>
    n \<le> length ''abc'' \<and> sum_list (map glyphCells gs) \<le> 2 \<and>
    (n = length ''abc'' \<or> (\<exists>g. glyph_at_string plain_services ''abc'' n = Some g \<and>
      2 < sum_list (map glyphCells gs) + glyphCells g))"
  using prefix_fits_columns [OF plain_services_consume, of 2 "''abc''"] by simp

end
