(* ===== verification/BufferMotion.thy ===== *)
theory BufferMotion
  imports DisplayWidth Buffer
begin

text \<open>
  The motions of point in \<open>Source/Text/Buffer.cpp\<close>: by grapheme, word and sentence, and by
  line with a goal column.

  The lemmas show that every motion returns whatever the break rule answers, moves nothing but
  point, the goal column and the coalescing flag, and leaves point inside the text.
\<close>

section \<open>The codepoint classes\<close>

definition is_word_codepoint :: "char32 \<Rightarrow> bool" where
  "is_word_codepoint cp \<longleftrightarrow> (cp \<ge> 0x61 \<and> cp \<le> 0x7A) \<or> (cp \<ge> 0x41 \<and> cp \<le> 0x5A) \<or> (cp \<ge> 0x30 \<and> cp \<le> 0x39) \<or> cp = 0x5F"

definition is_sentence_end_codepoint :: "char32 \<Rightarrow> bool" where
  "is_sentence_end_codepoint cp \<longleftrightarrow> cp = 0x2E \<or> cp = 0x21 \<or> cp = 0x3F"

definition is_space_or_newline_codepoint :: "char32 \<Rightarrow> bool" where
  "is_space_or_newline_codepoint cp \<longleftrightarrow> cp = 0x20 \<or> cp = 0x09 \<or> cp = 0x0A \<or> cp = 0x0D"

section \<open>Scans\<close>

text \<open>
  The loops of the word and sentence motions: forward over codepoints of a class while there
  are any, and backward over them while the codepoint before is of the class.
\<close>

partial_function (option) skip_forward :: "(char32 \<Rightarrow> bool) \<Rightarrow> heap \<Rightarrow> storage \<Rightarrow> nat \<Rightarrow> offset \<Rightarrow> offset option" where
  "skip_forward P h st tot off =
     (if off < tot then
        m_codepoint_at storage_class h st off \<bind> (\<lambda>d.
        if P (fst d) then m_next_boundary storage_class h st off \<bind> skip_forward P h st tot else Some off)
      else Some off)"

declare skip_forward.simps [code]

partial_function (option) skip_backward :: "(char32 \<Rightarrow> bool) \<Rightarrow> heap \<Rightarrow> storage \<Rightarrow> offset \<Rightarrow> offset option" where
  "skip_backward P h st off =
     (if off > 0 then
        m_previous_boundary storage_class h st off \<bind> (\<lambda>previous.
        m_codepoint_at storage_class h st previous \<bind> (\<lambda>d.
        if P (fst d) then skip_backward P h st previous else Some off))
      else Some off)"

declare skip_backward.simps [code]

section \<open>Motions by grapheme, word and sentence\<close>

text \<open>What every motion ends with.\<close>

definition arrive :: "offset \<Rightarrow> world \<Rightarrow> world" where
  "arrive p w = (fst w, (snd w)\<lparr>point := p, canAmend := False, goalColumn := None\<rparr>)"

definition move_forward :: "break_rule \<Rightarrow> world \<Rightarrow> world option" where
  "move_forward brk w =
     next_grapheme_boundary storage_class brk (fst w) (bufStorage (snd w)) (point (snd w)) \<bind> (\<lambda>p. Some (arrive p w))"

definition move_backward :: "break_rule \<Rightarrow> world \<Rightarrow> world option" where
  "move_backward brk w =
     previous_grapheme_boundary storage_class brk (fst w) (bufStorage (snd w)) (point (snd w)) \<bind> (\<lambda>p. Some (arrive p w))"

definition land :: "break_rule \<Rightarrow> world \<Rightarrow> offset \<Rightarrow> world option" where
  "land brk w off =
     snap_to_grapheme_boundary storage_class brk (fst w) (bufStorage (snd w)) off \<bind> (\<lambda>p. Some (arrive p w))"

definition forward_word :: "heap \<Rightarrow> storage \<Rightarrow> offset \<Rightarrow> offset option" where
  "forward_word h st off =
     (let tot = st_byte_length st in
      skip_forward (\<lambda>cp. \<not> is_word_codepoint cp) h st tot off \<bind> skip_forward is_word_codepoint h st tot)"

definition backward_word :: "heap \<Rightarrow> storage \<Rightarrow> offset \<Rightarrow> offset option" where
  "backward_word h st off =
     skip_backward (\<lambda>cp. \<not> is_word_codepoint cp) h st off \<bind> skip_backward is_word_codepoint h st"

definition forward_sentence :: "heap \<Rightarrow> storage \<Rightarrow> offset \<Rightarrow> offset option" where
  "forward_sentence h st off =
     (let tot = st_byte_length st in
      skip_forward (\<lambda>cp. \<not> is_sentence_end_codepoint cp) h st tot off \<bind> (\<lambda>mark.
      if mark < tot
      then m_next_boundary storage_class h st mark \<bind> skip_forward is_space_or_newline_codepoint h st tot
      else Some mark))"

definition backward_sentence :: "heap \<Rightarrow> storage \<Rightarrow> offset \<Rightarrow> offset option" where
  "backward_sentence h st off =
     skip_backward is_space_or_newline_codepoint h st off \<bind> (\<lambda>off1.
     (if off1 > 0
      then m_previous_boundary storage_class h st off1 \<bind> (\<lambda>previous.
           m_codepoint_at storage_class h st previous \<bind> (\<lambda>d.
           Some (if is_sentence_end_codepoint (fst d) then previous else off1)))
      else Some off1) \<bind> (\<lambda>off2.
     skip_backward (\<lambda>cp. \<not> is_sentence_end_codepoint cp) h st off2 \<bind>
     skip_forward is_space_or_newline_codepoint h st (st_byte_length st)))"

definition move_forward_word :: "break_rule \<Rightarrow> world \<Rightarrow> world option" where
  "move_forward_word brk w = forward_word (fst w) (bufStorage (snd w)) (point (snd w)) \<bind> land brk w"

definition move_backward_word :: "break_rule \<Rightarrow> world \<Rightarrow> world option" where
  "move_backward_word brk w = backward_word (fst w) (bufStorage (snd w)) (point (snd w)) \<bind> land brk w"

definition move_forward_sentence :: "break_rule \<Rightarrow> world \<Rightarrow> world option" where
  "move_forward_sentence brk w = forward_sentence (fst w) (bufStorage (snd w)) (point (snd w)) \<bind> land brk w"

definition move_backward_sentence :: "break_rule \<Rightarrow> world \<Rightarrow> world option" where
  "move_backward_sentence brk w = backward_sentence (fst w) (bufStorage (snd w)) (point (snd w)) \<bind> land brk w"

section \<open>Columns of a line\<close>

definition kMaxTabAwareColumnScan :: nat where
  "kMaxTabAwareColumnScan = 512"

text \<open>The casts of \<open>GlyphColumnsFrom\<close>: \<open>std::size_t\<close> to \<open>int\<close> and back.\<close>

definition to_int32 :: "nat \<Rightarrow> int" where
  "to_int32 n = sint (of_nat n :: 32 word)"

definition glyph_columns_from :: "glyph \<Rightarrow> nat \<Rightarrow> nat \<Rightarrow> nat" where
  "glyph_columns_from g column tabWidth =
     nat (glyph_columns g (to_int32 column) (to_int32 (max tabWidth 1)) mod 2 ^ 64)"

partial_function (option) byte_offset_loop ::
  "text_services \<Rightarrow> heap \<Rightarrow> storage \<Rightarrow> offset \<Rightarrow> nat \<Rightarrow> nat \<Rightarrow> offset \<Rightarrow> nat \<Rightarrow> nat \<Rightarrow> offset option" where
  "byte_offset_loop svc h st stop column tabWidth off visualColumn steps =
     (if off < stop \<and> visualColumn < column then
        if steps \<ge> kMaxTabAwareColumnScan then
          let remainingColumns = column - visualColumn;
              rangeEndCodepoint = m_byte_to_codepoint_offset storage_class h st stop;
              landingCodepoint = min (m_byte_to_codepoint_offset storage_class h st off + remainingColumns) rangeEndCodepoint
          in Some (m_codepoint_to_byte_offset storage_class h st landingCodepoint)
        else glyph_at svc storage_class h st off stop \<bind> (\<lambda>g.
          let nxt = visualColumn + glyph_columns_from g visualColumn tabWidth
          in if column < nxt then Some off
             else byte_offset_loop svc h st stop column tabWidth (off + glyphBytes g) nxt (steps + 1))
      else Some off)"

declare byte_offset_loop.simps [code]

definition byte_offset_for_range_and_column ::
  "text_services \<Rightarrow> heap \<Rightarrow> storage \<Rightarrow> offset \<Rightarrow> offset \<Rightarrow> nat \<Rightarrow> nat \<Rightarrow> offset option" where
  "byte_offset_for_range_and_column svc h st start stop column tabWidth =
     byte_offset_loop svc h st stop column tabWidth start 0 0"

definition row_range :: "heap \<Rightarrow> storage \<Rightarrow> nat \<Rightarrow> offset \<times> offset" where
  "row_range h st line =
     (m_line_to_byte_offset storage_class h st line,
      if line + 1 < m_line_count storage_class st then m_line_to_byte_offset storage_class h st (line + 1) - 1
      else st_byte_length st)"

definition byte_offset_for_line_and_column ::
  "text_services \<Rightarrow> heap \<Rightarrow> storage \<Rightarrow> nat \<Rightarrow> nat \<Rightarrow> nat \<Rightarrow> offset option" where
  "byte_offset_for_line_and_column svc h st line column tabWidth =
     (let (lineStart, lineEnd) = row_range h st (min line (m_line_count storage_class st - 1))
      in byte_offset_for_range_and_column svc h st lineStart lineEnd column tabWidth)"

partial_function (option) visual_column_loop ::
  "text_services \<Rightarrow> heap \<Rightarrow> storage \<Rightarrow> offset \<Rightarrow> nat \<Rightarrow> offset \<Rightarrow> nat \<Rightarrow> nat \<Rightarrow> nat option" where
  "visual_column_loop svc h st byteOffset tabWidth off column steps =
     (if off < byteOffset then
        if steps \<ge> kMaxTabAwareColumnScan then
          Some (column + (m_byte_to_codepoint_offset storage_class h st byteOffset -
                          m_byte_to_codepoint_offset storage_class h st off))
        else glyph_at svc storage_class h st off byteOffset \<bind> (\<lambda>g.
          visual_column_loop svc h st byteOffset tabWidth (off + glyphBytes g)
            (column + glyph_columns_from g column tabWidth) (steps + 1))
      else Some column)"

declare visual_column_loop.simps [code]

definition visual_column_for_byte_offset ::
  "text_services \<Rightarrow> heap \<Rightarrow> storage \<Rightarrow> offset \<Rightarrow> offset \<Rightarrow> nat \<Rightarrow> nat option" where
  "visual_column_for_byte_offset svc h st lineStart byteOffset tabWidth =
     visual_column_loop svc h st byteOffset tabWidth lineStart 0 0"

section \<open>Vertical motions\<close>

definition settle :: "break_rule \<Rightarrow> world \<Rightarrow> nat \<Rightarrow> offset \<Rightarrow> world option" where
  "settle brk w desiredColumn landingByte =
     snap_to_grapheme_boundary storage_class brk (fst w) (bufStorage (snd w)) landingByte \<bind> (\<lambda>p.
     Some (fst w, (snd w)\<lparr>point := p, canAmend := False, goalColumn := Some desiredColumn\<rparr>))"

definition desired_column :: "text_services \<Rightarrow> world \<Rightarrow> nat \<Rightarrow> offset \<Rightarrow> nat \<Rightarrow> nat option" where
  "desired_column svc w hang rowStart tabWidth =
     visual_column_for_byte_offset svc (fst w) (bufStorage (snd w)) rowStart (point (snd w)) tabWidth \<bind> (\<lambda>v.
     Some (case goalColumn (snd w) of None \<Rightarrow> hang + v | Some g \<Rightarrow> g))"

definition move_to_line :: "text_services \<Rightarrow> nat \<Rightarrow> nat \<Rightarrow> world \<Rightarrow> world option" where
  "move_to_line svc targetLine tabWidth w =
     (let h = fst w; st = bufStorage (snd w);
          currentLineStart = m_line_to_byte_offset storage_class h st
            (m_byte_offset_to_line storage_class h st (point (snd w)))
      in desired_column svc w 0 currentLineStart tabWidth \<bind> (\<lambda>desired.
         byte_offset_for_line_and_column svc h st targetLine desired tabWidth \<bind>
         settle (graphemeBreak svc) w desired))"

definition move_to_column_in_range ::
  "text_services \<Rightarrow> offset \<Rightarrow> int \<Rightarrow> offset \<Rightarrow> offset \<Rightarrow> int \<Rightarrow> nat \<Rightarrow> world \<Rightarrow> world option" where
  "move_to_column_in_range svc currentRowStart currentRowHang targetRangeStart targetRangeEnd targetRowHang tabWidth w =
     desired_column svc w (nat (max 0 currentRowHang)) currentRowStart tabWidth \<bind> (\<lambda>desired.
     let columnWithinTarget =
           (if desired > nat (max 0 targetRowHang) then desired - nat (max 0 targetRowHang) else 0)
     in byte_offset_for_range_and_column svc (fst w) (bufStorage (snd w)) targetRangeStart targetRangeEnd
          columnWithinTarget tabWidth \<bind>
        settle (graphemeBreak svc) w desired)"

definition move_down_lines :: "text_services \<Rightarrow> nat \<Rightarrow> nat \<Rightarrow> world \<Rightarrow> world option" where
  "move_down_lines svc n tabWidth w =
     (let st = bufStorage (snd w);
          currentLine = m_byte_offset_to_line storage_class (fst w) st (point (snd w));
          lastLine = m_line_count storage_class st - 1
      in if currentLine = lastLine then Some w
         else move_to_line svc (min (currentLine + n) lastLine) tabWidth w)"

definition move_up_lines :: "text_services \<Rightarrow> nat \<Rightarrow> nat \<Rightarrow> world \<Rightarrow> world option" where
  "move_up_lines svc n tabWidth w =
     (let currentLine = m_byte_offset_to_line storage_class (fst w) (bufStorage (snd w)) (point (snd w))
      in if currentLine = 0 then Some w
         else move_to_line svc (if n > currentLine then 0 else currentLine - n) tabWidth w)"

definition move_to_next_line :: "text_services \<Rightarrow> nat \<Rightarrow> world \<Rightarrow> world option" where
  "move_to_next_line svc tabWidth w = move_down_lines svc 1 tabWidth w"

definition move_to_previous_line :: "text_services \<Rightarrow> nat \<Rightarrow> world \<Rightarrow> world option" where
  "move_to_previous_line svc tabWidth w = move_up_lines svc 1 tabWidth w"


section \<open>The scans return\<close>

text \<open>A run of codepoints of a class, from one offset to another.\<close>

inductive codepoints_run :: "(char32 \<Rightarrow> bool) \<Rightarrow> bytes \<Rightarrow> offset \<Rightarrow> offset \<Rightarrow> bool" for P s where
  run_empty: "codepoints_run P s a a"
| run_step: "a < length s \<Longrightarrow> P (fst (decoded_at s a)) \<Longrightarrow> codepoints_run P s (a + snd (decoded_at s a)) b \<Longrightarrow>
    codepoints_run P s a b"

lemma codepoints_run_le: "codepoints_run P s a b \<Longrightarrow> a \<le> b"
  by (induction rule: codepoints_run.induct) auto

lemma skip_forward_run:
  assumes "st_ok h st"
  shows "off \<le> length (st_content h st) \<Longrightarrow>
    \<exists>n. skip_forward P h st (length (st_content h st)) off = Some n \<and> n \<le> length (st_content h st) \<and>
      codepoints_run P (st_content h st) off n \<and>
      (n < length (st_content h st) \<longrightarrow> \<not> P (fst (decoded_at (st_content h st) n)))"
proof (induction "length (st_content h st) - off" arbitrary: off rule: less_induct)
  case less
  let ?s = "st_content h st"
  let ?d = "decoded_at ?s off"
  show ?case
  proof (cases "off < length ?s \<and> P (fst ?d)")
    case True
    then have d: "1 \<le> snd ?d" "off + snd ?d \<le> length ?s"
      using snd_decoded_at_pos [of off ?s] snd_decoded_at_le [of off ?s] by auto
    have "skip_forward P h st (length ?s) off = skip_forward P h st (length ?s) (off + snd ?d)"
      using True any_codepoints.codepoint_at [OF assms] any_codepoints.next_boundary [OF assms]
      by (subst skip_forward.simps) simp
    moreover have "\<exists>n. skip_forward P h st (length ?s) (off + snd ?d) = Some n \<and> n \<le> length ?s \<and>
        codepoints_run P ?s (off + snd ?d) n \<and> (n < length ?s \<longrightarrow> \<not> P (fst (decoded_at ?s n)))"
      by (rule less.hyps) (use d True in auto)
    ultimately show ?thesis
      using True by (auto intro: run_step)
  next
    case False
    then have "skip_forward P h st (length ?s) off = Some off"
      using any_codepoints.codepoint_at [OF assms] by (subst skip_forward.simps) auto
    with False less.prems show ?thesis by (auto intro: run_empty)
  qed
qed

lemma skip_backward_returns:
  assumes "st_ok h st"
  shows "off \<le> length (st_content h st) \<Longrightarrow> \<exists>n. skip_backward P h st off = Some n \<and> n \<le> off"
proof (induction off rule: less_induct)
  case (less off)
  let ?s = "st_content h st"
  show ?case
  proof (cases "off = 0")
    case False
    then obtain q where q: "m_previous_boundary storage_class h st off = Some q" "q < off"
      using any_codepoints.previous_boundary [OF assms, of off] less.prems by auto
    obtain n where "skip_backward P h st q = Some n" "n \<le> q"
      using less.IH [OF q(2)] less.prems q(2) by auto
    then show ?thesis
      using False q any_codepoints.codepoint_at [OF assms]
      by (subst skip_backward.simps) auto
  qed (subst skip_backward.simps, simp)
qed

lemma skip_backward_back:
  assumes "st_ok h st" "off \<le> length (st_content h st)"
  obtains n where "skip_backward P h st off = Some n" "n \<le> off"
  using skip_backward_returns [OF assms] by blast

section \<open>What a motion does to a buffer\<close>

text \<open>A motion changes point, the goal column and the coalescing flag, and point stays inside the text.\<close>

definition only_moved :: "world \<Rightarrow> world \<Rightarrow> bool" where
  "only_moved w w' \<longleftrightarrow> fst w' = fst w \<and>
     (\<exists>p c g. p \<le> buf_length (snd w) \<and> snd w' = (snd w)\<lparr>point := p, canAmend := c, goalColumn := g\<rparr>)"

lemma arrive_only_moved: "p \<le> buf_length (snd w) \<Longrightarrow> only_moved w (arrive p w)"
  by (auto simp: only_moved_def arrive_def)

lemma snapped:
  assumes "st_ok (fst w) (bufStorage (snd w))"
  obtains p where "snap_to_grapheme_boundary storage_class brk (fst w) (bufStorage (snd w)) off = Some p"
    "p \<le> buf_length (snd w)"
  using any_codepoints.snap_grapheme [OF assms, of brk off] any_codepoints.size [OF assms] that by auto

lemma land_returns:
  assumes "st_ok (fst w) (bufStorage (snd w))"
  shows "\<exists>w'. land brk w off = Some w' \<and> only_moved w w'"
proof -
  obtain p where "snap_to_grapheme_boundary storage_class brk (fst w) (bufStorage (snd w)) off = Some p"
    "p \<le> buf_length (snd w)"
    by (rule snapped [OF assms])
  then have "land brk w off = Some (arrive p w)" "only_moved w (arrive p w)"
    by (auto simp: land_def intro: arrive_only_moved)
  then show ?thesis by blast
qed

lemma settle_returns:
  assumes "st_ok (fst w) (bufStorage (snd w))"
  shows "\<exists>w'. settle brk w desired off = Some w' \<and> only_moved w w' \<and> goalColumn (snd w') = Some desired"
proof -
  obtain p where p: "snap_to_grapheme_boundary storage_class brk (fst w) (bufStorage (snd w)) off = Some p"
    "p \<le> buf_length (snd w)"
    by (rule snapped [OF assms])
  let ?w = "(fst w, (snd w)\<lparr>point := p, canAmend := False, goalColumn := Some desired\<rparr>)"
  have "settle brk w desired off = Some ?w"
    using p by (simp add: settle_def)
  moreover have "only_moved w ?w"
    unfolding only_moved_def using p(2) by auto
  ultimately show ?thesis by fastforce
qed

lemma forward_word_returns:
  assumes "st_ok h st" "off \<le> length (st_content h st)"
  shows "\<exists>m n. forward_word h st off = Some n \<and> n \<le> length (st_content h st) \<and>
    codepoints_run (\<lambda>cp. \<not> is_word_codepoint cp) (st_content h st) off m \<and>
    codepoints_run is_word_codepoint (st_content h st) m n \<and>
    (m < length (st_content h st) \<longrightarrow> is_word_codepoint (fst (decoded_at (st_content h st) m))) \<and>
    (n < length (st_content h st) \<longrightarrow> \<not> is_word_codepoint (fst (decoded_at (st_content h st) n)))"
proof -
  obtain m where m: "skip_forward (\<lambda>cp. \<not> is_word_codepoint cp) h st (length (st_content h st)) off = Some m"
    "m \<le> length (st_content h st)" "codepoints_run (\<lambda>cp. \<not> is_word_codepoint cp) (st_content h st) off m"
    "m < length (st_content h st) \<longrightarrow> is_word_codepoint (fst (decoded_at (st_content h st) m))"
    using skip_forward_run [OF assms, of "\<lambda>cp. \<not> is_word_codepoint cp"] by auto
  moreover obtain n where "skip_forward is_word_codepoint h st (length (st_content h st)) m = Some n"
    "n \<le> length (st_content h st)" "codepoints_run is_word_codepoint (st_content h st) m n"
    "n < length (st_content h st) \<longrightarrow> \<not> is_word_codepoint (fst (decoded_at (st_content h st) n))"
    using skip_forward_run [OF assms(1) m(2), of is_word_codepoint] by blast
  ultimately show ?thesis
    using any_codepoints.size [OF assms(1)] by (auto simp: forward_word_def Let_def)
qed

lemma backward_word_returns:
  assumes "st_ok h st" "off \<le> length (st_content h st)"
  shows "\<exists>n. backward_word h st off = Some n \<and> n \<le> off"
proof -
  obtain m where m: "skip_backward (\<lambda>cp. \<not> is_word_codepoint cp) h st off = Some m" "m \<le> off"
    by (rule skip_backward_back [OF assms])
  moreover obtain n where "skip_backward is_word_codepoint h st m = Some n" "n \<le> m"
    using skip_backward_returns [OF assms(1), of m] m(2) assms(2) by fastforce
  ultimately show ?thesis by (auto simp: backward_word_def)
qed

lemma forward_sentence_returns:
  assumes "st_ok h st" "off \<le> length (st_content h st)"
  shows "\<exists>n. forward_sentence h st off = Some n \<and> off \<le> n \<and> n \<le> length (st_content h st)"
proof -
  let ?s = "st_content h st"
  obtain m where m: "skip_forward (\<lambda>cp. \<not> is_sentence_end_codepoint cp) h st (length ?s) off = Some m" "m \<le> length ?s"
    "codepoints_run (\<lambda>cp. \<not> is_sentence_end_codepoint cp) ?s off m"
    using skip_forward_run [OF assms] by blast
  note le = codepoints_run_le [OF m(3)]
  show ?thesis
  proof (cases "m < length ?s")
    case True
    then have d: "1 \<le> snd (decoded_at ?s m)" "m + snd (decoded_at ?s m) \<le> length ?s"
      using snd_decoded_at_pos [of m ?s] snd_decoded_at_le [of m ?s] by auto
    obtain n where "skip_forward is_space_or_newline_codepoint h st (length ?s) (m + snd (decoded_at ?s m)) = Some n"
      "n \<le> length ?s" "codepoints_run is_space_or_newline_codepoint ?s (m + snd (decoded_at ?s m)) n"
      using skip_forward_run [OF assms(1) d(2)] by blast
    then show ?thesis
      using m True le codepoints_run_le [OF \<open>codepoints_run is_space_or_newline_codepoint _ _ n\<close>]
        any_codepoints.next_boundary [OF assms(1) True] any_codepoints.size [OF assms(1)]
      by (auto simp: forward_sentence_def)
  next
    case False
    with m le any_codepoints.size [OF assms(1)] show ?thesis by (auto simp: forward_sentence_def)
  qed
qed

lemma backward_sentence_returns:
  assumes "st_ok h st" "off \<le> length (st_content h st)"
  shows "\<exists>n. backward_sentence h st off = Some n \<and> n \<le> length (st_content h st)"
proof -
  let ?s = "st_content h st"
  let ?hop = "\<lambda>off1. if off1 > 0
      then m_previous_boundary storage_class h st off1 \<bind> (\<lambda>previous.
           m_codepoint_at storage_class h st previous \<bind> (\<lambda>d.
           Some (if is_sentence_end_codepoint (fst d) then previous else off1)))
      else Some off1"
  obtain off1 where 1: "skip_backward is_space_or_newline_codepoint h st off = Some off1" "off1 \<le> off"
    by (rule skip_backward_back [OF assms])
  have "\<exists>off2. ?hop off1 = Some off2 \<and> off2 \<le> off1"
    using any_codepoints.previous_boundary [OF assms(1), of off1] any_codepoints.codepoint_at [OF assms(1)] 1 assms(2)
    by (cases "off1 = 0") auto
  then obtain off2 where 2: "?hop off1 = Some off2" "off2 \<le> off1" by blast
  obtain off3 where 3: "skip_backward (\<lambda>cp. \<not> is_sentence_end_codepoint cp) h st off2 = Some off3" "off3 \<le> off2"
    using skip_backward_returns [OF assms(1), of off2] 1 2 assms(2) by fastforce
  have "off3 \<le> length ?s" using 1 2 3 assms(2) by simp
  then obtain n where "skip_forward is_space_or_newline_codepoint h st (length ?s) off3 = Some n" "n \<le> length ?s"
    using skip_forward_run [OF assms(1)] by blast
  then show ?thesis
    unfolding backward_sentence_def 1 bind.bind_lunit 2 3
    using any_codepoints.size [OF assms(1)] by simp
qed


section \<open>Columns\<close>

text \<open>
  The glyphs of a storage between two offsets, measured with the given end, and the column
  they lead to.
\<close>

fun column_after :: "nat \<Rightarrow> nat \<Rightarrow> glyph list \<Rightarrow> nat" where
  "column_after tabWidth column [] = column"
| "column_after tabWidth column (g # gs) = column_after tabWidth (column + glyph_columns_from g column tabWidth) gs"

fun glyphs_between :: "text_services \<Rightarrow> heap \<Rightarrow> storage \<Rightarrow> offset \<Rightarrow> offset \<Rightarrow> glyph list \<Rightarrow> offset \<Rightarrow> bool" where
  "glyphs_between svc h st stop off [] n \<longleftrightarrow> off = n"
| "glyphs_between svc h st stop off (g # gs) n \<longleftrightarrow>
     off < stop \<and> glyph_at svc storage_class h st off stop = Some g \<and>
     glyphs_between svc h st stop (off + glyphBytes g) gs n"

lemma storage_glyph:
  assumes "st_ok h st" "consumes svc" "off < length (st_content h st)"
  obtains g where "glyph_at svc storage_class h st off stop = Some g" "1 \<le> glyphBytes g"
    "off + glyphBytes g \<le> length (st_content h st)"
  using glyph_bounds [OF assms, of stop] by blast

text \<open>Past the end of the text a glyph is empty; with the scan's cap even that walk returns.\<close>

lemma glyph_at_returns:
  assumes "st_ok h st" "consumes svc"
  shows "\<exists>g. glyph_at svc storage_class h st off stop = Some g"
proof (cases "off < length (st_content h st)")
  case True
  then show ?thesis using storage_glyph [OF assms] by metis
next
  case False
  let ?fin = "min stop (length (st_content h st))"
  have "decoded_at (st_content h st) off = (replacement_char, 0)"
    using False by (simp add: decoded_at_def)
  then have dec: "storage_decoder storage_class h st off =
      Some \<lparr>stepCodepoint = replacement_char, stepLength = 0, stepRaw = False\<rparr>"
    by (simp add: storage_decoder_def any_codepoints.codepoint_at [OF assms(1)])
  have "cluster_loop svc (storage_decoder storage_class h st) ?fin off replacement_char 0 cl = Some (cl, off)" for cl
    using False by (subst cluster_loop.simps) simp
  moreover have "\<not> is_control replacement_char" "\<not> is_ascii_printable replacement_char"
    by (simp_all add: is_control_def is_ascii_printable_def)
  ultimately show ?thesis
    using measure_cluster_glyph [OF assms(2), of "encode_codepoint_utf8 replacement_char" replacement_char 0]
    by (auto simp: glyph_at_def cluster_at_def dec any_codepoints.size [OF assms(1)])
qed

lemma byte_offset_loop_returns:
  assumes "st_ok h st" "consumes svc"
  shows "\<exists>n. byte_offset_loop svc h st stop column tabWidth off vc steps = Some n"
proof (induction "kMaxTabAwareColumnScan - steps" arbitrary: off vc steps rule: less_induct)
  case less
  obtain g where g: "glyph_at svc storage_class h st off stop = Some g"
    using glyph_at_returns [OF assms] by blast
  let ?nxt = "vc + glyph_columns_from g vc tabWidth"
  have "\<exists>n. byte_offset_loop svc h st stop column tabWidth (off + glyphBytes g) ?nxt (steps + 1) = Some n"
    if "steps < kMaxTabAwareColumnScan"
    by (rule less.hyps) (use that in simp)
  then show ?case
    using g by (subst byte_offset_loop.simps) (auto simp: Let_def)
qed

lemma visual_column_loop_returns:
  assumes "st_ok h st" "consumes svc"
  shows "\<exists>n. visual_column_loop svc h st stop tabWidth off column steps = Some n"
proof (induction "kMaxTabAwareColumnScan - steps" arbitrary: off column steps rule: less_induct)
  case less
  obtain g where g: "glyph_at svc storage_class h st off stop = Some g"
    using glyph_at_returns [OF assms] by blast
  have "\<exists>n. visual_column_loop svc h st stop tabWidth (off + glyphBytes g)
      (column + glyph_columns_from g column tabWidth) (steps + 1) = Some n"
    if "steps < kMaxTabAwareColumnScan"
    by (rule less.hyps) (use that in simp)
  then show ?case
    using g by (subst visual_column_loop.simps) auto
qed

section \<open>Every motion returns\<close>

datatype motion =
    MoveForward | MoveBackward | MoveForwardWord | MoveBackwardWord
  | MoveForwardSentence | MoveBackwardSentence
  | MoveToLine nat nat | MoveDownLines nat nat | MoveUpLines nat nat
  | MoveToColumnInRange offset int offset offset int nat

fun motion_step :: "text_services \<Rightarrow> motion \<Rightarrow> world \<Rightarrow> world option" where
  "motion_step svc MoveForward w = move_forward (graphemeBreak svc) w"
| "motion_step svc MoveBackward w = move_backward (graphemeBreak svc) w"
| "motion_step svc MoveForwardWord w = move_forward_word (graphemeBreak svc) w"
| "motion_step svc MoveBackwardWord w = move_backward_word (graphemeBreak svc) w"
| "motion_step svc MoveForwardSentence w = move_forward_sentence (graphemeBreak svc) w"
| "motion_step svc MoveBackwardSentence w = move_backward_sentence (graphemeBreak svc) w"
| "motion_step svc (MoveToLine line tab) w = move_to_line svc line tab w"
| "motion_step svc (MoveDownLines n tab) w = move_down_lines svc n tab w"
| "motion_step svc (MoveUpLines n tab) w = move_up_lines svc n tab w"
| "motion_step svc (MoveToColumnInRange s hang s' e' hang' tab) w = move_to_column_in_range svc s hang s' e' hang' tab w"

lemma desired_column_returns:
  assumes "st_ok (fst w) (bufStorage (snd w))" "consumes svc"
  shows "\<exists>d. desired_column svc w hang rowStart tab = Some d \<and> (\<forall>g. goalColumn (snd w) = Some g \<longrightarrow> d = g)"
  using visual_column_loop_returns [OF assms, of "point (snd w)" tab rowStart 0 0]
  by (auto simp: desired_column_def visual_column_for_byte_offset_def)

lemma move_to_line_returns:
  assumes "st_ok (fst w) (bufStorage (snd w))" "consumes svc"
  shows "\<exists>w'. move_to_line svc line tab w = Some w' \<and> only_moved w w'"
proof -
  let ?st = "bufStorage (snd w)"
  obtain d where d: "desired_column svc w 0 (m_line_to_byte_offset storage_class (fst w) ?st
      (m_byte_offset_to_line storage_class (fst w) ?st (point (snd w)))) tab = Some d"
    using desired_column_returns [OF assms] by blast
  obtain a e where r: "row_range (fst w) ?st (min line (m_line_count storage_class ?st - 1)) = (a, e)"
    by (cases "row_range (fst w) ?st (min line (m_line_count storage_class ?st - 1))")
  obtain n where n: "byte_offset_loop svc (fst w) ?st e d tab a 0 0 = Some n"
    using byte_offset_loop_returns [OF assms] by blast
  from settle_returns [OF assms(1)] obtain w' where "settle (graphemeBreak svc) w d n = Some w'" "only_moved w w'"
    by blast
  with d r n show ?thesis
    by (simp add: move_to_line_def Let_def byte_offset_for_line_and_column_def byte_offset_for_range_and_column_def)
qed

lemma move_to_column_in_range_returns:
  assumes "st_ok (fst w) (bufStorage (snd w))" "consumes svc"
  shows "\<exists>w'. move_to_column_in_range svc s hang a e hang' tab w = Some w' \<and> only_moved w w'"
proof -
  let ?st = "bufStorage (snd w)"
  obtain d where d: "desired_column svc w (nat (max 0 hang)) s tab = Some d"
    using desired_column_returns [OF assms] by blast
  let ?c = "if d > nat (max 0 hang') then d - nat (max 0 hang') else 0"
  obtain n where n: "byte_offset_loop svc (fst w) ?st e ?c tab a 0 0 = Some n"
    using byte_offset_loop_returns [OF assms] by blast
  from settle_returns [OF assms(1)] obtain w' where "settle (graphemeBreak svc) w d n = Some w'" "only_moved w w'"
    by blast
  with d n show ?thesis
    by (simp add: move_to_column_in_range_def Let_def byte_offset_for_range_and_column_def)
qed

lemma only_moved_refl: "point (snd w) \<le> buf_length (snd w) \<Longrightarrow> only_moved w w"
  unfolding only_moved_def by (intro conjI refl exI [of _ "point (snd w)"] exI [of _ "canAmend (snd w)"]
    exI [of _ "goalColumn (snd w)"]) simp_all

text \<open>A motion that computes an offset of the text and lands there.\<close>

lemma lands:
  assumes "st_ok (fst w) (bufStorage (snd w))" "\<exists>n. target = Some n \<and> Q n"
  shows "\<exists>w'. target \<bind> land brk w = Some w' \<and> only_moved w w'"
proof -
  obtain n where "target = Some n" using assms(2) by blast
  then show ?thesis using land_returns [OF assms(1), of brk n] by simp
qed

section \<open>Columns there and back\<close>

text \<open>
  A printable ASCII character alone takes one column, which every \<open>wcwidth\<close> says: then a
  glyph is the same measured to any end at or after its own.
\<close>

definition ascii_narrow :: "text_services \<Rightarrow> bool" where
  "ascii_narrow svc \<longleftrightarrow> (\<forall>cp. is_ascii_printable cp \<longrightarrow> terminal_columns svc (encode_codepoint_utf8 cp) = Some 1)"

lemma plain_services_simps:
  "mbToWide plain_services (c # cs) = Some (ucast (u8 c), 1)" "clusterBreak plain_services x y = True"
  "variationSelector plain_services x = False" "wcWidth plain_services x = 1"
  by (simp_all add: plain_services_def)

lemma plain_services_narrow: "ascii_narrow plain_services"
  unfolding ascii_narrow_def
proof (intro allI impI)
  fix cp assume cp: "is_ascii_printable cp"
  then have less: "cp < 0x80" "0x20 \<le> cp"
    by (auto simp: is_ascii_printable_def word_less_nat_alt)
  then have enc: "encode_codepoint_utf8 cp = [to_byte cp]" and wide: "ucast (u8 (to_byte cp)) = cp"
    using lead1 [of cp] by (simp_all add: encode_codepoint_utf8_def)
  have "cp \<noteq> 0" "cp \<noteq> 0x200D"
    using less by (auto simp: word_less_nat_alt word_le_nat_alt)
  have "to_byte cp \<noteq> CHR 0x00"
  proof
    assume "to_byte cp = CHR 0x00"
    then have "cp = ucast (u8 CHR 0x00)" using wide by simp
    with \<open>cp \<noteq> 0\<close> show False by simp
  qed
  moreover note \<open>cp \<noteq> 0\<close> \<open>cp \<noteq> 0x200D\<close>
  moreover have "notcurses_cluster plain_services [] 1 1 cp False = Some (1, 1)" if "cp \<noteq> 0"
    using that by (subst notcurses_cluster.simps) (simp add: read_wide_def plain_services_simps)
  ultimately have "notcurses_cluster plain_services [to_byte cp] 0 0 0 False = Some (1, 1)"
    using wide by (subst notcurses_cluster.simps) (simp add: read_wide_def plain_services_simps)
  then show "terminal_columns plain_services (encode_codepoint_utf8 cp) = Some 1"
    using \<open>to_byte cp \<noteq> CHR 0x00\<close> by (simp add: enc terminal_columns_def terminal_loop.simps)
qed

lemma cluster_loop_shorter:
  assumes "st_ok h st" "e \<le> length (st_content h st)" "p \<le> e"
  shows "cluster_loop svc (storage_decoder storage_class h st) e nxt prev state cluster = Some (cl, n) \<Longrightarrow>
    n \<le> p \<Longrightarrow> nxt \<le> n \<Longrightarrow>
    cluster_loop svc (storage_decoder storage_class h st) p nxt prev state cluster = Some (cl, n)"
proof (induction "e - nxt" arbitrary: nxt prev state cluster rule: less_induct)
  case less
  let ?step = "text_step (st_content h st) nxt"
  let ?more = "nxt < e \<and> \<not> (stepRaw ?step \<or> is_control (stepCodepoint ?step) \<or> stepCodepoint ?step = tab_char) \<and>
    \<not> fst (graphemeBreak svc prev (stepCodepoint ?step) state)"
  show ?case
  proof (cases ?more)
    case False
    then have "n = nxt \<and> cl = cluster"
      using less.prems(1) storage_decoder_step [OF assms(1), of nxt] assms(2)
      by (subst (asm) cluster_loop.simps) (auto split: prod.splits if_splits)
    with False show ?thesis
      using storage_decoder_step [OF assms(1), of nxt] assms(2,3)
      by (subst cluster_loop.simps) (auto split: prod.splits)
  next
    case True
    then have inside: "nxt < length (st_content h st)" using assms(2) by simp
    obtain state' where b: "graphemeBreak svc prev (stepCodepoint ?step) state = (False, state')"
      using True by (cases "graphemeBreak svc prev (stepCodepoint ?step) state") auto
    have unfold: "cluster_loop svc (storage_decoder storage_class h st) stop nxt prev state cluster =
        cluster_loop svc (storage_decoder storage_class h st) stop (nxt + stepLength ?step) (stepCodepoint ?step) state'
          (cluster @ encode_codepoint_utf8 (stepCodepoint ?step))" if "nxt < stop" for stop
      using True b that storage_decoder_step [OF assms(1) inside] by (subst cluster_loop.simps) simp
    have loop: "cluster_loop svc (storage_decoder storage_class h st) e (nxt + stepLength ?step) (stepCodepoint ?step)
        state' (cluster @ encode_codepoint_utf8 (stepCodepoint ?step)) = Some (cl, n)"
      using less.prems(1) unfold [of e] True by simp
    obtain n' where "cluster_loop svc (storage_decoder storage_class h st) e (nxt + stepLength ?step) (stepCodepoint ?step)
        state' (cluster @ encode_codepoint_utf8 (stepCodepoint ?step)) =
        Some ((cluster @ encode_codepoint_utf8 (stepCodepoint ?step)) @
          substr (st_content h st) (nxt + stepLength ?step) (n' - (nxt + stepLength ?step)), n')"
      "clean_run (st_content h st) (nxt + stepLength ?step) n'"
      using storages.cluster_loop_run [of "(h, st)" e "nxt + stepLength ?step" svc "stepCodepoint ?step" state'
          "cluster @ encode_codepoint_utf8 (stepCodepoint ?step)"] assms text_step_bounds [OF inside] by auto
    then have le: "nxt + stepLength ?step \<le> n"
      using loop clean_run_le by fastforce
    then have "cluster_loop svc (storage_decoder storage_class h st) p (nxt + stepLength ?step) (stepCodepoint ?step)
        state' (cluster @ encode_codepoint_utf8 (stepCodepoint ?step)) = Some (cl, n)"
      by (intro less.hyps) (use loop less.prems text_step_bounds [OF inside] True in auto)
    moreover have "nxt < p"
      using le less.prems(2) text_step_bounds [OF inside] by simp
    ultimately show ?thesis using unfold by simp
  qed
qed


lemma glyph_at_shorter:
  assumes "st_ok h st" "consumes svc" "ascii_narrow svc" "off < p" "p \<le> e" "e \<le> length (st_content h st)"
    "glyph_at svc storage_class h st off e = Some g" "off + glyphBytes g \<le> p"
  shows "glyph_at svc storage_class h st off p = Some g"
proof -
  let ?dec = "storage_decoder storage_class h st" and ?s = "st_content h st"
  let ?step = "text_step ?s off"
  let ?cp = "stepCodepoint ?step" and ?nxt = "off + stepLength ?step"
  have inside: "off < length ?s" using assms by simp
  note dec = storage_decoder_step [OF assms(1) inside] and bounds = text_step_bounds [OF inside]
  have e: "cluster_at svc ?dec off e = Some g" and size: "st_byte_length st = length ?s"
    using assms(6,7) any_codepoints.size [OF assms(1)] by (simp_all add: glyph_at_def min_def)
  let ?alone = "\<lambda>stop. ?nxt \<ge> stop \<or> stepCodepoint (text_step ?s ?nxt) < 0x80"
  have at: "cluster_at svc ?dec off stop =
    (if stepRaw ?step then Some (raw_byte_glyph ?cp)
     else if ?cp = tab_char then Some (plain_glyph (stepLength ?step) ?cp 1)
     else if is_control ?cp then Some (placeholder_glyph ?cp (stepLength ?step))
     else if is_ascii_printable ?cp \<and> ?alone stop then Some (plain_glyph (stepLength ?step) ?cp 1)
     else cluster_loop svc ?dec stop ?nxt ?cp 0 (encode_codepoint_utf8 ?cp) \<bind> (\<lambda>(cl, n).
       measure_cluster svc cl ?cp (n - off)))" if "stop \<le> length ?s" for stop
    using that storage_decoder_step [OF assms(1), of ?nxt]
    by (cases "stop \<le> ?nxt") (simp_all add: cluster_at_def dec Let_def)
  obtain n where loop: "cluster_loop svc ?dec e ?nxt ?cp 0 (encode_codepoint_utf8 ?cp) =
      Some (encode_codepoint_utf8 ?cp @ substr ?s ?nxt (n - ?nxt), n)" and run: "clean_run ?s ?nxt n"
    using storages.cluster_loop_run [of "(h, st)" e ?nxt svc ?cp 0 "encode_codepoint_utf8 ?cp"] assms bounds by auto
  let ?loops = "\<not> stepRaw ?step \<and> ?cp \<noteq> tab_char \<and> \<not> is_control ?cp \<and> \<not> (is_ascii_printable ?cp \<and> ?alone e)"
  show ?thesis
  proof (cases ?loops)
    case False
    then have "cluster_at svc ?dec off p = Some g"
      using e at [of e] at [of p] assms(5,6) by (auto split: if_splits)
    then show ?thesis using assms(5,6) size by (simp add: glyph_at_def min_def)
  next
    case True
    then have "cluster_at svc ?dec off e = cluster_loop svc ?dec e ?nxt ?cp 0 (encode_codepoint_utf8 ?cp) \<bind>
        (\<lambda>(cl, n). measure_cluster svc cl ?cp (n - off))"
      using at [of e] assms(6) by auto
    then have m: "measure_cluster svc (encode_codepoint_utf8 ?cp @ substr ?s ?nxt (n - ?nxt)) ?cp (n - off) = Some g"
      using e loop by simp
    then have "glyphBytes g = n - off"
      using measure_cluster_glyph [OF assms(2)] by (metis option.inject)
    then have n: "n \<le> p" "?nxt \<le> n"
      using assms(4,8) clean_run_le [OF run] by auto
    have loop': "cluster_loop svc ?dec p ?nxt ?cp 0 (encode_codepoint_utf8 ?cp) =
      Some (encode_codepoint_utf8 ?cp @ substr ?s ?nxt (n - ?nxt), n)"
      by (rule cluster_loop_shorter [OF assms(1,6,5) loop n])
    have "cluster_at svc ?dec off p = Some g"
    proof (cases "is_ascii_printable ?cp \<and> ?alone p")
      case alone: True
      then have "p \<le> ?nxt" using True by auto
      then have "n = ?nxt" using n by simp
      then have "g = plain_glyph (stepLength ?step) ?cp 1"
        using m alone assms(3) by (simp add: measure_cluster_def ascii_narrow_def substr_def)
      then show ?thesis using at [of p] True alone assms(5,6) by simp
    next
      case False
      then have "cluster_at svc ?dec off p = cluster_loop svc ?dec p ?nxt ?cp 0 (encode_codepoint_utf8 ?cp) \<bind> (\<lambda>(cl, n).
         measure_cluster svc cl ?cp (n - off))"
        using at [of p] True assms(5,6) by auto
      then show ?thesis using loop' m by simp
    qed
    then show ?thesis using assms(5,6) size by (simp add: glyph_at_def min_def)
  qed
qed

text \<open>Columns stay small: no cast of the column arithmetic wraps on a line of 512 glyphs.\<close>

lemma to_int32_small: "n < 2 ^ 31 \<Longrightarrow> to_int32 n = int n"
  by (simp add: to_int32_def signed_of_nat signed_take_bit_int_eq_self)

lemma smod_small: "0 \<le> a \<Longrightarrow> 0 < t \<Longrightarrow> 0 \<le> a smod t \<and> a smod t < (t :: int)"
  by (cases "a = 0") (simp_all add: signed_modulo_int_def signed_divide_int_def minus_div_mult_eq_mod)

lemma glyph_columns_from_bounds:
  assumes "1 \<le> glyphCells g" "glyphCells g \<le> 8" "column < 2 ^ 31" "tabWidth \<le> 2 ^ 20"
  shows "1 \<le> glyph_columns_from g column tabWidth \<and> glyph_columns_from g column tabWidth \<le> 8 + tabWidth"
proof -
  let ?t = "int (max tabWidth 1)"
  have casts: "to_int32 column = int column" "to_int32 (max tabWidth 1) = ?t"
    using assms(3,4) by (auto intro!: to_int32_small)
  have smod: "0 \<le> int column smod ?t" "int column smod ?t < ?t"
    using smod_small [of "int column" ?t] by auto
  have "1 \<le> glyph_columns g (int column) ?t \<and> glyph_columns g (int column) ?t \<le> int (8 + tabWidth)"
    using assms(1,2) smod by (auto simp: glyph_columns_def)
  moreover from this have "glyph_columns g (int column) ?t mod 2 ^ 64 = glyph_columns g (int column) ?t"
    using assms(4) by (intro mod_pos_pos_trivial) auto
  ultimately show ?thesis
    unfolding glyph_columns_from_def casts by (auto simp: nat_le_iff le_nat_iff)
qed


lemma glyphs_between_le:
  assumes "st_ok h st" "consumes svc" "e \<le> length (st_content h st)"
  shows "glyphs_between svc h st e off gs n \<Longrightarrow> off \<le> n"
proof (induction gs arbitrary: off)
  case (Cons g gs)
  then show ?case
    using Cons.IH [of "off + glyphBytes g"] by (auto dest: add_leD1)
qed simp

lemma column_after_ge: "column \<le> column_after tabWidth column gs"
  by (induction gs arbitrary: column) (auto intro: le_trans [OF le_add1])

text \<open>A line's glyph and its share of the columns, within the bound on the scan.\<close>

lemma glyph_columns_on_line:
  assumes "st_ok h st" "consumes svc" "e \<le> length (st_content h st)" "off < e" "tabWidth \<le> 2 ^ 20"
    "glyph_at svc storage_class h st off e = Some g" "steps < kMaxTabAwareColumnScan" "column \<le> steps * (8 + tabWidth)"
  shows "1 \<le> glyphBytes g" "1 \<le> glyph_columns_from g column tabWidth"
    "column + glyph_columns_from g column tabWidth \<le> (steps + 1) * (8 + tabWidth)"
proof -
  have cells: "1 \<le> glyphCells g" "glyphCells g \<le> 8" and bytes: "1 \<le> glyphBytes g"
    using glyph_bounds [OF assms(1,2), of off e] assms(3,4,6) by (auto split: if_splits)
  have "steps * (8 + tabWidth) \<le> 512 * (8 + 2 ^ 20)"
    using assms(5,7) by (intro mult_le_mono) (auto simp: kMaxTabAwareColumnScan_def)
  then have "column < 2 ^ 31" using assms(8) by simp
  from glyph_columns_from_bounds [OF cells this assms(5)] bytes assms(8)
  show "1 \<le> glyphBytes g" "1 \<le> glyph_columns_from g column tabWidth"
    "column + glyph_columns_from g column tabWidth \<le> (steps + 1) * (8 + tabWidth)"
    by simp_all
qed

text \<open>The column of the end of a run of glyphs, and the way back from that column.\<close>

lemma visual_column_chain:
  assumes "st_ok h st" "consumes svc" "ascii_narrow svc" "e \<le> length (st_content h st)" "p \<le> e"
  shows "glyphs_between svc h st e off gs p \<Longrightarrow> steps + length gs \<le> kMaxTabAwareColumnScan \<Longrightarrow>
    visual_column_loop svc h st p tabWidth off column steps = Some (column_after tabWidth column gs)"
proof (induction gs arbitrary: off column steps)
  case Nil
  then show ?case by (subst visual_column_loop.simps) simp
next
  case (Cons g gs)
  then have g: "off < e" "glyph_at svc storage_class h st off e = Some g"
    "glyphs_between svc h st e (off + glyphBytes g) gs p" by auto
  have bytes: "1 \<le> glyphBytes g"
    using glyph_bounds [OF assms(1,2), of off e] g(1,2) assms(4) by auto
  have le: "off + glyphBytes g \<le> p"
    by (rule glyphs_between_le [OF assms(1,2,4) g(3)])
  then have "off < p" using bytes by simp
  then have "glyph_at svc storage_class h st off p = Some g"
    by (rule glyph_at_shorter [OF assms(1-3) _ assms(5,4) g(2) le])
  then have "visual_column_loop svc h st p tabWidth off column steps =
      visual_column_loop svc h st p tabWidth (off + glyphBytes g) (column + glyph_columns_from g column tabWidth) (steps + 1)"
    using \<open>off < p\<close> Cons.prems(2) by (subst visual_column_loop.simps) simp
  then show ?case
    using Cons.IH [OF g(3), of "steps + 1"] Cons.prems(2) by simp
qed

lemma byte_offset_chain:
  assumes "st_ok h st" "consumes svc" "e \<le> length (st_content h st)" "tabWidth \<le> 2 ^ 20"
  shows "glyphs_between svc h st e off gs p \<Longrightarrow> steps + length gs \<le> kMaxTabAwareColumnScan \<Longrightarrow>
    column \<le> steps * (8 + tabWidth) \<Longrightarrow>
    byte_offset_loop svc h st e (column_after tabWidth column gs) tabWidth off column steps = Some p"
proof (induction gs arbitrary: off column steps)
  case Nil
  then show ?case by (subst byte_offset_loop.simps) simp
next
  case (Cons g gs)
  then have g: "off < e" "glyph_at svc storage_class h st off e = Some g"
    "glyphs_between svc h st e (off + glyphBytes g) gs p" "steps < kMaxTabAwareColumnScan" by auto
  note cols = glyph_columns_on_line [OF assms(1-3) g(1) assms(4) g(2,4) Cons.prems(3)]
  let ?nxt = "column + glyph_columns_from g column tabWidth"
  have "?nxt \<le> column_after tabWidth ?nxt gs" by (rule column_after_ge)
  then have "byte_offset_loop svc h st e (column_after tabWidth ?nxt gs) tabWidth off column steps =
      byte_offset_loop svc h st e (column_after tabWidth ?nxt gs) tabWidth (off + glyphBytes g) ?nxt (steps + 1)"
    using g cols(2) by (subst byte_offset_loop.simps) (simp add: Let_def)
  then show ?case
    using Cons.IH [OF g(3), of "steps + 1" ?nxt] Cons.prems(2) cols(3) by simp
qed

lemma line_start_mono: "i \<le> j \<Longrightarrow> line_start s i \<le> line_start s j"
proof (induction s arbitrary: i j)
  case Nil
  then show ?case by (cases i; cases j) simp_all
next
  case (Cons c s)
  then show ?case by (cases i; cases j) (simp_all split: if_split)
qed

lemma count_newlines_take_mono: "i \<le> j \<Longrightarrow> count_newlines (take i s) \<le> count_newlines (take j s)"
  by (metis append_take_drop_id count_newlines_append le_add1 min.absorb1 take_take)

lemma line_of_offset:
  assumes "p \<le> length s" "count_newlines (take p s) + 1 \<le> count_newlines s"
  shows "p \<le> line_start s (count_newlines (take p s) + 1) - 1"
proof (rule ccontr)
  assume "\<not> p \<le> line_start s (count_newlines (take p s) + 1) - 1"
  then have "line_start s (count_newlines (take p s) + 1) \<le> p" by simp
  from count_newlines_take_mono [OF this, of s] count_newlines_line_start [OF assms(2)] show False by simp
qed


section \<open>Line motions remember the column\<close>

text \<open>Line motions one after the other.\<close>

fun move_through :: "text_services \<Rightarrow> nat \<Rightarrow> nat list \<Rightarrow> world \<Rightarrow> world option" where
  "move_through svc tabWidth [] w = Some w"
| "move_through svc tabWidth (line # lines) w =
     move_to_line svc line tabWidth w \<bind> move_through svc tabWidth lines"

lemma only_movedI:
  "p \<le> buf_length b \<Longrightarrow> only_moved (h, b) (h, b\<lparr>point := p, canAmend := c, goalColumn := g\<rparr>)"
  unfolding only_moved_def by auto

lemma only_movedE:
  assumes "only_moved (h, b) w'"
  obtains p c g where "w' = (h, b\<lparr>point := p, canAmend := c, goalColumn := g\<rparr>)" "p \<le> buf_length b"
  using assms by (cases w') (auto simp: only_moved_def)

lemma only_moved_trans:
  assumes "only_moved w w'" "only_moved w' w''"
  shows "only_moved w w''"
proof -
  obtain h b where w: "w = (h, b)" by (cases w)
  obtain p c g where w': "w' = (h, b\<lparr>point := p, canAmend := c, goalColumn := g\<rparr>)"
    using only_movedE assms(1) w by blast
  obtain p' c' g' where "w'' = (h, b\<lparr>point := p, canAmend := c, goalColumn := g\<rparr>\<lparr>point := p', canAmend := c', goalColumn := g'\<rparr>)"
    "p' \<le> buf_length (b\<lparr>point := p, canAmend := c, goalColumn := g\<rparr>)"
    by (rule only_movedE [OF assms(2) [unfolded w']])
  then show ?thesis using only_movedI w by simp
qed

lemma move_to_line_settles:
  assumes "move_to_line svc line tabWidth w = Some w'"
  shows "\<exists>d n. desired_column svc w 0 (m_line_to_byte_offset storage_class (fst w) (bufStorage (snd w))
      (m_byte_offset_to_line storage_class (fst w) (bufStorage (snd w)) (point (snd w)))) tabWidth = Some d \<and>
    byte_offset_for_line_and_column svc (fst w) (bufStorage (snd w)) line d tabWidth = Some n \<and>
    settle (graphemeBreak svc) w d n = Some w' \<and> goalColumn (snd w') = Some d"
  using assms by (auto simp: move_to_line_def settle_def Let_def bind_eq_Some_conv)

lemma move_through_goal:
  assumes "st_ok (fst w) (bufStorage (snd w))" "consumes svc"
  shows "point (snd w) \<le> buf_length (snd w) \<Longrightarrow> goalColumn (snd w) = Some v \<Longrightarrow>
    \<exists>w'. move_through svc tabWidth lines w = Some w' \<and> only_moved w w' \<and> goalColumn (snd w') = Some v"
  using assms
proof (induction lines arbitrary: w)
  case Nil
  then show ?case by (simp add: only_moved_refl)
next
  case (Cons line lines)
  obtain w1 where w1: "move_to_line svc line tabWidth w = Some w1" "only_moved w w1"
    using move_to_line_returns [OF Cons.prems(3,4)] by blast
  obtain d where d: "goalColumn (snd w1) = Some d" "desired_column svc w 0 (m_line_to_byte_offset storage_class (fst w) (bufStorage (snd w))
      (m_byte_offset_to_line storage_class (fst w) (bufStorage (snd w)) (point (snd w)))) tabWidth = Some d"
    using move_to_line_settles [OF w1(1)] by blast
  then have "d = v" using desired_column_returns [OF Cons.prems(3,4)] Cons.prems(2) by fastforce
  moreover have "point (snd w1) \<le> buf_length (snd w1)" "st_ok (fst w1) (bufStorage (snd w1))"
    using w1(2) Cons.prems(3) by (auto simp: only_moved_def)
  ultimately obtain w' where "move_through svc tabWidth lines w1 = Some w'" "only_moved w1 w'" "goalColumn (snd w') = Some v"
    using Cons.IH [of w1] Cons.prems(4) d by blast
  then show ?case using w1 only_moved_trans by (auto simp del: split_paired_Ex)
qed

lemma move_through_append:
  "move_through svc tabWidth (xs @ ys) w = move_through svc tabWidth xs w \<bind> move_through svc tabWidth ys"
proof (induction xs arbitrary: w)
  case (Cons x xs)
  then show ?case by (cases "move_to_line svc x tabWidth w") (simp_all del: split_paired_All)
qed simp

text \<open>A column of a line, and the offset it leads to, seen from a point of that line.\<close>

lemma home_column:
  assumes "st_ok h st" "consumes svc" "ascii_narrow svc" "tabWidth \<le> 2 ^ 20" "p \<le> length (st_content h st)"
    "glyphs_between svc h st (snd (row_range h st line)) (fst (row_range h st line)) gs p"
    "line = m_byte_offset_to_line storage_class h st p" "length gs \<le> kMaxTabAwareColumnScan"
  shows "visual_column_for_byte_offset svc h st (m_line_to_byte_offset storage_class h st line) p tabWidth =
      Some (column_after tabWidth 0 gs)"
    and "byte_offset_for_line_and_column svc h st line (column_after tabWidth 0 gs) tabWidth = Some p"
proof -
  let ?s = "st_content h st" and ?a = "fst (row_range h st line)" and ?e = "snd (row_range h st line)"
  note ln = any_class.lines [OF assms(1)]
  have count: "m_line_count storage_class st = count_newlines ?s + 1"
    using any_class.measures [OF assms(1)] by blast
  have line: "line = count_newlines (take p ?s)" using assms(7) ln by blast
  have le: "line \<le> count_newlines ?s" using count_newlines_take_le line by simp
  have a: "?a = m_line_to_byte_offset storage_class h st line" by (simp add: row_range_def)
  have e: "?e \<le> length ?s" "p \<le> ?e"
    using ln line_start_le [of ?s "line + 1"] any_codepoints.size [OF assms(1)] line_of_offset [OF assms(5)] assms(5) line
    by (auto simp: row_range_def count)
  show "visual_column_for_byte_offset svc h st (m_line_to_byte_offset storage_class h st line) p tabWidth =
      Some (column_after tabWidth 0 gs)"
    unfolding visual_column_for_byte_offset_def a [symmetric]
    by (rule visual_column_chain [OF assms(1-3) e assms(6)]) (use assms(8) in simp)
  have "byte_offset_loop svc h st ?e (column_after tabWidth 0 gs) tabWidth ?a 0 0 = Some p"
    by (rule byte_offset_chain [OF assms(1,2) e(1) assms(4,6)]) (use assms(8) in simp_all)
  then show "byte_offset_for_line_and_column svc h st line (column_after tabWidth 0 gs) tabWidth = Some p"
    using le by (simp add: byte_offset_for_line_and_column_def byte_offset_for_range_and_column_def count split_beta)
qed

section \<open>Motions as a whole\<close>

text \<open>
  Every motion returns, whatever the break rule answers: it changes nothing but point,
  the goal column and the coalescing flag, and leaves point inside the text.
\<close>

lemma motions_return:
  assumes "st_ok (fst w) (bufStorage (snd w))" "consumes svc" "point (snd w) \<le> buf_length (snd w)"
  shows "\<exists>w'. motion_step svc m w = Some w' \<and> only_moved w w'"
proof -
  let ?st = "bufStorage (snd w)"
  note ok = assms(1) and size = any_codepoints.size [OF assms(1)]
  have pt: "point (snd w) \<le> length (st_content (fst w) ?st)" using assms(3) size by simp
  show ?thesis
  proof (cases m)
    case MoveForward
    then show ?thesis
      using any_codepoints.next_grapheme [OF ok, of "graphemeBreak svc" "point (snd w)"] size
      by (auto simp: move_forward_def arrive_only_moved simp del: split_paired_Ex)
  next
    case MoveBackward
    then show ?thesis
      using any_codepoints.previous_grapheme [OF ok pt, of "graphemeBreak svc"] size pt
      by (auto simp: move_backward_def arrive_only_moved simp del: split_paired_Ex)
  next
    case MoveForwardWord
    then show ?thesis
      using lands [OF ok, of "forward_word (fst w) ?st (point (snd w))" "\<lambda>_. True"] forward_word_returns [OF ok pt]
      by (auto simp: move_forward_word_def simp del: split_paired_Ex)
  next
    case MoveBackwardWord
    then show ?thesis
      using lands [OF ok backward_word_returns [OF ok pt]] by (simp add: move_backward_word_def)
  next
    case MoveForwardSentence
    then show ?thesis
      using lands [OF ok forward_sentence_returns [OF ok pt]] by (simp add: move_forward_sentence_def)
  next
    case MoveBackwardSentence
    then show ?thesis
      using lands [OF ok backward_sentence_returns [OF ok pt]] by (simp add: move_backward_sentence_def)
  next
    case (MoveToLine line tab)
    then show ?thesis using move_to_line_returns [OF assms(1,2)] by simp
  next
    case (MoveDownLines n tab)
    then show ?thesis
      using move_to_line_returns [OF assms(1,2)] only_moved_refl [OF assms(3)]
      by (simp add: move_down_lines_def Let_def del: split_paired_Ex)
  next
    case (MoveUpLines n tab)
    then show ?thesis
      using move_to_line_returns [OF assms(1,2)] only_moved_refl [OF assms(3)]
      by (simp add: move_up_lines_def Let_def del: split_paired_Ex)
  next
    case (MoveToColumnInRange s hang a e hang' tab)
    then show ?thesis
      using move_to_column_in_range_returns [OF assms(1,2)] by simp
  qed
qed

section \<open>The properties\<close>

text \<open>
  C33: the word motion stops where it should.  The offset \<open>MoveForwardWord\<close> lands on comes
  after a run of codepoints outside words and then a run of word codepoints, and no word
  codepoint follows it.
\<close>

theorem forward_word_stops_after_word:
  assumes "st_ok h st" "off \<le> length (st_content h st)"
  shows "\<exists>m n. forward_word h st off = Some n \<and> n \<le> length (st_content h st) \<and>
    codepoints_run (\<lambda>cp. \<not> is_word_codepoint cp) (st_content h st) off m \<and>
    codepoints_run is_word_codepoint (st_content h st) m n \<and>
    (m < length (st_content h st) \<longrightarrow> is_word_codepoint (fst (decoded_at (st_content h st) m))) \<and>
    (n < length (st_content h st) \<longrightarrow> \<not> is_word_codepoint (fst (decoded_at (st_content h st) n)))"
  by (rule forward_word_returns [OF assms])

theorem forward_word_stops_after_word_witness:
  "\<exists>m n. forward_word [] (RopeStorage (rope_make_leaf ''ab'')) 0 = Some n \<and>
    n \<le> length (st_content [] (RopeStorage (rope_make_leaf ''ab''))) \<and>
    codepoints_run (\<lambda>cp. \<not> is_word_codepoint cp) (st_content [] (RopeStorage (rope_make_leaf ''ab''))) 0 m \<and>
    codepoints_run is_word_codepoint (st_content [] (RopeStorage (rope_make_leaf ''ab''))) m n \<and>
    (m < length (st_content [] (RopeStorage (rope_make_leaf ''ab''))) \<longrightarrow>
      is_word_codepoint (fst (decoded_at (st_content [] (RopeStorage (rope_make_leaf ''ab''))) m))) \<and>
    (n < length (st_content [] (RopeStorage (rope_make_leaf ''ab''))) \<longrightarrow>
      \<not> is_word_codepoint (fst (decoded_at (st_content [] (RopeStorage (rope_make_leaf ''ab''))) n)))"
  by (rule forward_word_stops_after_word) simp_all

text \<open>
  C34: line motions remember where they started.  From a point on a glyph of its line, at most
  512 glyphs in, any sequence of line motions followed by one back to that line puts point back
  exactly where it was, however short or long the lines visited between.
\<close>

theorem line_motions_come_back:
  assumes "st_ok h (bufStorage b)" "consumes svc" "ascii_narrow svc" "tabWidth \<le> 2 ^ 20"
    "point b \<le> buf_length b" "goalColumn b = None"
    "line = m_byte_offset_to_line storage_class h (bufStorage b) (point b)"
    "row_range h (bufStorage b) line = (a, e)" "glyphs_between svc h (bufStorage b) e a gs (point b)"
    "length gs \<le> kMaxTabAwareColumnScan"
    "snap_to_grapheme_boundary storage_class (graphemeBreak svc) h (bufStorage b) (point b) = Some (point b)"
  shows "\<exists>w'. move_through svc tabWidth (lines @ [line]) (h, b) = Some w' \<and> only_moved (h, b) w' \<and>
    point (snd w') = point b"
proof -
  let ?st = "bufStorage b" and ?v = "column_after tabWidth 0 gs"
  have pt: "point b \<le> length (st_content h ?st)"
    using assms(5) any_codepoints.size [OF assms(1)] by simp
  have home: "visual_column_for_byte_offset svc h ?st (m_line_to_byte_offset storage_class h ?st line) (point b) tabWidth = Some ?v"
    "byte_offset_for_line_and_column svc h ?st line ?v tabWidth = Some (point b)"
    using home_column [OF assms(1-4) pt _ assms(7,10)] assms(8,9) by simp_all
  have return: "\<exists>w'. move_to_line svc line tabWidth w = Some w' \<and> only_moved (h, b) w' \<and> point (snd w') = point b"
    if w: "only_moved (h, b) w" and d: "desired_column svc w 0 (m_line_to_byte_offset storage_class h ?st
      (m_byte_offset_to_line storage_class h ?st (point (snd w)))) tabWidth = Some ?v" for w
  proof -
    obtain p c g where w: "w = (h, b\<lparr>point := p, canAmend := c, goalColumn := g\<rparr>)" "p \<le> buf_length b"
      by (rule only_movedE [OF w])
    let ?w' = "(h, b\<lparr>point := point b, canAmend := False, goalColumn := Some ?v\<rparr>)"
    have "move_to_line svc line tabWidth w = Some ?w'"
      using d home(2) assms(11) w(1) by (simp add: move_to_line_def Let_def settle_def)
    then show ?thesis using only_movedI [OF assms(5)] by fastforce
  qed
  have first: "desired_column svc (h, b) 0 (m_line_to_byte_offset storage_class h ?st
      (m_byte_offset_to_line storage_class h ?st (point b))) tabWidth = Some ?v"
    using home(1) assms(6,7) by (simp add: desired_column_def)
  show ?thesis
  proof (cases lines)
    case Nil
    then show ?thesis
      using return [of "(h, b)"] first only_moved_refl [of "(h, b)"] assms(5) by auto
  next
    case (Cons l ls)
    have start: "st_ok (fst (h, b)) (bufStorage (snd (h, b)))" "point (snd (h, b)) \<le> buf_length (snd (h, b))"
      using assms(1,5) by simp_all
    obtain w1 where w1: "move_to_line svc l tabWidth (h, b) = Some w1" "only_moved (h, b) w1"
      using move_to_line_returns [OF start(1) assms(2)] by blast
    then have goal: "goalColumn (snd w1) = Some ?v"
      using move_to_line_settles [OF w1(1)] first by auto
    obtain p c g where w1': "w1 = (h, b\<lparr>point := p, canAmend := c, goalColumn := g\<rparr>)" "p \<le> buf_length b"
      by (rule only_movedE [OF w1(2)])
    then obtain w2 where w2: "move_through svc tabWidth ls w1 = Some w2" "only_moved w1 w2" "goalColumn (snd w2) = Some ?v"
      using move_through_goal [of w1 svc ?v tabWidth ls] assms(1,2) goal by auto
    have moved: "only_moved (h, b) w2" by (rule only_moved_trans [OF w1(2) w2(2)])
    obtain p' c' g' where w2': "w2 = (h, b\<lparr>point := p', canAmend := c', goalColumn := g'\<rparr>)" "p' \<le> buf_length b"
      by (rule only_movedE [OF moved])
    have "\<exists>d. desired_column svc w2 0 (m_line_to_byte_offset storage_class h ?st
      (m_byte_offset_to_line storage_class h ?st (point (snd w2)))) tabWidth = Some d \<and>
      (\<forall>g. goalColumn (snd w2) = Some g \<longrightarrow> d = g)"
      by (rule desired_column_returns) (use assms(1,2) w2' in auto)
    then have "desired_column svc w2 0 (m_line_to_byte_offset storage_class h ?st
      (m_byte_offset_to_line storage_class h ?st (point (snd w2)))) tabWidth = Some ?v"
      using w2(3) by auto
    from return [OF moved this] obtain w' where "move_to_line svc line tabWidth w2 = Some w'" "only_moved (h, b) w'"
      "point (snd w') = point b" by blast
    then show ?thesis
      using Cons w1(1) w2(1) by (simp add: move_through_append del: split_paired_Ex)
  qed
qed

theorem line_motions_come_back_witness:
  defines "b \<equiv> (new_buffer ''x'' (rope_make_leaf [CHR ''a'', CHR ''b'', newline, CHR ''c'']))\<lparr>point := 1\<rparr>"
  shows "\<exists>w'. move_through plain_services 4 ([1] @ [0]) ([], b) = Some w' \<and> only_moved ([], b) w' \<and>
    point (snd w') = point b"
proof (rule line_motions_come_back [OF _ plain_services_consume, where gs = "[plain_glyph 1 0x61 1]" and a = 0 and e = 2])
  show "ascii_narrow plain_services"
    by (rule plain_services_narrow)
qed (simp add: b_def new_buffer_def | code_simp)+

end
