(* ===== verification/BufferSession.thy ===== *)
theory BufferSession
  imports BufferInvariant BufferFile BufferMotion
begin

text \<open>
  A buffer in use: the commands that reach it, in any order, with a save in flight or not.
  Every command is reduced once to a few effects (a splice, a swap, a replacement, and changes
  that leave the text alone); the properties are inductions over effects.
\<close>

section \<open>Commands\<close>

text \<open>The operations a command may also run once per cursor.\<close>

datatype primitive =
    InsertAtPoint bytes
  | InsertAt offset bytes
  | AppendWhileReadOnly bytes
  | DeleteBackwardAtPoint
  | DeleteForwardAtPoint
  | DeleteRange offset nat
  | SetPoint offset
  | SetMark offset
  | ClearMark
  | Move text_services motion

fun primitive_step :: "break_rule \<Rightarrow> primitive \<Rightarrow> world \<Rightarrow> (unit outcome \<times> world) option" where
  "primitive_step brk (InsertAtPoint s) w = insert_at_point s w"
| "primitive_step brk (InsertAt off s) w = insert_at off s w"
| "primitive_step brk (AppendWhileReadOnly s) w = append_while_read_only s w"
| "primitive_step brk DeleteBackwardAtPoint w = delete_backward_at_point brk w"
| "primitive_step brk DeleteForwardAtPoint w = delete_forward_at_point brk w"
| "primitive_step brk (DeleteRange off n) w =
     map_option (map_prod (case_outcome (\<lambda>_. Done ()) Threw) id) (delete_range off n w)"
| "primitive_step brk (SetPoint off) w = map_option (Pair (Done ())) (set_point brk off w)"
| "primitive_step brk (SetMark off) w = map_option (Pair (Done ())) (set_mark brk off w)"
| "primitive_step brk ClearMark w = Some (Done (), fst w, clear_mark (snd w))"
| "primitive_step brk (Move svc m) w =
     map_option (Pair (Done ())) (motion_step (svc\<lparr>graphemeBreak := brk\<rparr>) m w)"

fun primitive_ok :: "primitive \<Rightarrow> bool" where
  "primitive_ok (InsertAtPoint s) = chunkable kChunkSize s"
| "primitive_ok (InsertAt off s) = chunkable kChunkSize s"
| "primitive_ok (AppendWhileReadOnly s) = chunkable kChunkSize s"
| "primitive_ok (Move svc m) = consumes svc"
| "primitive_ok p = True"

section \<open>Effects\<close>

definition quiet :: "buffer \<Rightarrow> buffer \<Rightarrow> bool" where
  "quiet b b' \<longleftrightarrow>
     bufStorage b' = bufStorage b \<and> savedSnapshot b' = savedSnapshot b \<and> undoTree b' = undoTree b \<and>
     undoGroupDepth b' = undoGroupDepth b \<and> undoGroupDirty b' = undoGroupDirty b \<and>
     contentGeneration b' = contentGeneration b \<and> editJournal b' = editJournal b \<and>
     unsavedChangeRanges b' = unsavedChangeRanges b \<and> saveInFlightRanges b' = saveInFlightRanges b \<and>
     saving b' = saving b \<and> savingSnapshotBytes b' = savingSnapshotBytes b \<and> excerptRanges b' = excerptRanges b"

inductive edits :: "world \<Rightarrow> world \<Rightarrow> bool" where
  edits_refl: "edits w w"
| edits_quiet: "edits w (h, b) \<Longrightarrow> quiet b b' \<Longrightarrow> buffer_ok h b' \<Longrightarrow> edits w (h, b')"
| edits_splice: "edits w w' \<Longrightarrow> spliced w' w'' off old ins \<Longrightarrow>
    excerptRanges (snd w') = [] \<or> old = 0 \<and> can_insert_at_excerpt (snd w') off \<or>
      ins = [] \<and> can_delete_excerpt_range (snd w') off (off + old) \<Longrightarrow> edits w w''"

lemma edits_trans: "edits w' w'' \<Longrightarrow> edits w w' \<Longrightarrow> edits w w''"
  by (induction rule: edits.induct) (auto intro: edits.intros)

lemma edits_ok: "edits w w' \<Longrightarrow> buffer_ok (fst w) (snd w) \<Longrightarrow> buffer_ok (fst w') (snd w') \<and> heap_le (fst w) (fst w')"
proof (induction rule: edits.induct)
  case (edits_splice w w' w'' off old ins)
  then have "heap_le (fst w) (fst w')" "heap_le (fst w') (fst w'')" "buffer_ok (fst w'') (snd w'')"
    by (simp_all add: spliced_def split: prod.splits)
  then show ?case using heap_le_trans by blast
qed auto

text \<open>During a pass over the cursors their number stays, so the pass ends.\<close>

definition same_pass :: "buffer \<Rightarrow> buffer \<Rightarrow> bool" where
  "same_pass b b' \<longleftrightarrow> cursorIterationActive b' = cursorIterationActive b \<and>
     (cursorIterationActive b \<longrightarrow> length (secondaryCursors b') = length (secondaryCursors b))"

lemma quiet_field:
  "quiet b (b\<lparr>point := p, canAmend := c, goalColumn := g\<rparr>)"
  "quiet b (b\<lparr>mark := m\<rparr>)" "quiet b b"
  by (simp_all add: quiet_def)

lemma spliced_pass: "spliced (h, b) (h', b') off old ins \<Longrightarrow> same_pass b b'"
  by (simp add: spliced_def same_pass_def)

lemma primitive_edits:
  assumes ok: "buffer_ok h b" and p: "primitive_ok p"
  shows "\<exists>r h' b'. primitive_step brk p (h, b) = Some (r, h', b') \<and> edits (h, b) (h', b') \<and> same_pass b b'"
proof -
  have stay: "edits (h, b) (h, b)" "same_pass b b" by (simp_all add: edits_refl same_pass_def)
  have point: "point b \<le> length (content h b)" "buf_length b = length (content h b)"
    using buffer_okD(5,6) [OF ok] by (simp_all add: tracked_ok_def)
  have ins: "\<exists>h' b'. insert_text can off s (h, b) = Some (Done (), h', b') \<and> edits (h, b) (h', b') \<and> same_pass b b'"
    if "chunkable kChunkSize s" "s \<noteq> []" "off \<le> length (content h b)" "can_insert_at_excerpt b off" for can off s
    using insert_spliced [OF ok that(1,2,3), of can] edits_splice [OF edits_refl] spliced_pass that(4) by fastforce
  have del: "\<exists>b'. erase_text rs re (h, b) = Some (h, b') \<and> edits (h, b) (h, b') \<and> same_pass b b'"
    if "rs < re" "re \<le> length (content h b)" "can_delete_excerpt_range b rs re" for rs re
    using erase_spliced [OF ok that(1,2)] edits_splice [OF edits_refl] spliced_pass that by fastforce
  show ?thesis
  proof (cases p)
    case (InsertAtPoint s)
    then show ?thesis using ins [of s "point b" True] stay p point
      by (auto simp: insert_at_point_def Let_def)
  next
    case (InsertAt off s)
    then show ?thesis using ins [of s "min off (length (content h b))" False] stay p point
      by (auto simp: insert_at_def insert_at_impl_def Let_def)
  next
    case (AppendWhileReadOnly s)
    let ?seen = "\<lambda>b. if unseenTracking b then b else b\<lparr>unseenTracking := True, seenGeneration := seenGeneration b + 1\<rparr>"
    have seen: "edits (h, b) (h', ?seen b') \<and> same_pass b (?seen b')" if "edits (h, b) (h', b')" "same_pass b b'" for h' b'
    proof -
      have "buffer_ok h' b'" using edits_ok [OF that(1)] ok by simp
      then have "buffer_ok h' (?seen b')" by (simp add: buffer_ok_def tracked_ok_def)
      then show ?thesis using that edits_quiet [OF that(1), of "?seen b'"] by (simp add: quiet_def same_pass_def)
    qed
    have "\<exists>h' b'. insert_at_impl (length (content h b)) s (h, b) = Some (Done (), h', b') \<and> edits (h, b) (h', b') \<and> same_pass b b'"
      using ins [of s "length (content h b)" False] stay p AppendWhileReadOnly point(2)
      by (cases "s = [] \<or> \<not> can_insert_at_excerpt b (length (content h b))") (auto simp: insert_at_impl_def Let_def)
    then obtain h' b' where i: "insert_at_impl (length (content h b)) s (h, b) = Some (Done (), h', b')"
      "edits (h, b) (h', b')" "same_pass b b'" by blast
    show ?thesis
      using AppendWhileReadOnly stay i(1) seen [OF i(2,3)] point(2) by (simp add: append_while_read_only_def)
  next
    case DeleteBackwardAtPoint
    obtain q where "previous_grapheme_boundary storage_class brk h (bufStorage b) (point b) = Some q"
      "0 < point b \<longrightarrow> q < point b"
      using any_codepoints.previous_grapheme [OF buffer_okD(1) [OF ok] point(1)] by blast
    then show ?thesis using DeleteBackwardAtPoint del [of q "point b"] stay point
      by (auto simp: delete_backward_at_point_def)
  next
    case DeleteForwardAtPoint
    obtain q where "next_grapheme_boundary storage_class brk h (bufStorage b) (point b) = Some q"
      "q \<le> length (content h b)" "point b < length (content h b) \<longrightarrow> point b < q"
      using any_codepoints.next_grapheme [OF buffer_okD(1) [OF ok]] by blast
    then show ?thesis using DeleteForwardAtPoint del [of "point b" q] stay point
      by (auto simp: delete_forward_at_point_def)
  next
    case (DeleteRange off n)
    define off' n' where "off' = min off (length (content h b))" "n' = min n (length (content h b) - off')"
    then have range: "off' + n' \<le> length (content h b)" by simp
    have "delete_range off n (h, b) =
        (if readOnly b then Some (Threw (BufferReadOnly (readOnlyReason b)), h, b)
         else if n' = 0 \<or> \<not> can_delete_excerpt_range b off' (off' + n') then Some (Done [], h, b)
         else erase_text off' (off' + n') (h, b) \<bind> (\<lambda>w'. Some (Done (st_substring h (bufStorage b) off' n'), w')))"
      unfolding delete_range_def Let_def prod.case point(2) off'_n'_def [symmetric] by simp
    then show ?thesis using DeleteRange del [of off' "off' + n'"] stay range by auto
  next
    case (SetPoint off)
    obtain q where q: "snap_to_grapheme_boundary storage_class brk h (bufStorage b) off = Some q" "q \<le> length (content h b)"
      using snap_ok [OF buffer_okD(1) [OF ok]] by blast
    have "buffer_ok h (b\<lparr>point := q, canAmend := False, goalColumn := None\<rparr>)"
      using ok q(2) point(2) by (simp add: buffer_ok_def tracked_ok_def)
    then show ?thesis using SetPoint q edits_quiet [OF edits_refl quiet_field(1)]
      by (auto simp: set_point_def same_pass_def)
  next
    case (SetMark off)
    obtain q where q: "snap_to_grapheme_boundary storage_class brk h (bufStorage b) off = Some q" "q \<le> length (content h b)"
      using snap_ok [OF buffer_okD(1) [OF ok]] by blast
    have "buffer_ok h (b\<lparr>mark := Some q\<rparr>)"
      using ok q(2) point(2) by (simp add: buffer_ok_def tracked_ok_def)
    then show ?thesis using SetMark q edits_quiet [OF edits_refl quiet_field(2)]
      by (auto simp: set_mark_def same_pass_def)
  next
    case ClearMark
    have "buffer_ok h (b\<lparr>mark := None\<rparr>)"
      using ok by (simp add: buffer_ok_def tracked_ok_def)
    then show ?thesis using ClearMark edits_quiet [OF edits_refl quiet_field(2)]
      by (auto simp: clear_mark_def same_pass_def)
  next
    case (Move svc m)
    let ?svc = "svc\<lparr>graphemeBreak := brk\<rparr>"
    have "st_ok (fst (h, b)) (bufStorage (snd (h, b)))" "consumes ?svc" "point (snd (h, b)) \<le> buf_length (snd (h, b))"
      using buffer_okD(1) [OF ok] p Move point by (simp_all add: consumes_def)
    from motions_return [OF this, of m] obtain w' where w': "motion_step ?svc m (h, b) = Some w'" "only_moved (h, b) w'"
      by blast
    obtain q c g where q: "w' = (h, b\<lparr>point := q, canAmend := c, goalColumn := g\<rparr>)" "q \<le> buf_length b"
      by (rule only_movedE [OF w'(2)])
    then have "buffer_ok h (b\<lparr>point := q, canAmend := c, goalColumn := g\<rparr>)"
      using ok by (simp add: buffer_ok_def tracked_ok_def)
    from edits_quiet [OF edits_refl quiet_field(1) this] show ?thesis
      using Move w'(1) q(1) by (simp add: same_pass_def)
  qed
qed

section \<open>A pass over the cursors\<close>

text \<open>What leaves the text, the saved text and their ranges alone.\<close>

definition same_text :: "buffer \<Rightarrow> buffer \<Rightarrow> bool" where
  "same_text b b' \<longleftrightarrow>
     bufStorage b' = bufStorage b \<and> savedSnapshot b' = savedSnapshot b \<and>
     contentGeneration b' = contentGeneration b \<and> editJournal b' = editJournal b \<and>
     unsavedChangeRanges b' = unsavedChangeRanges b \<and> saveInFlightRanges b' = saveInFlightRanges b \<and>
     saving b' = saving b \<and> savingSnapshotBytes b' = savingSnapshotBytes b"

text \<open>A replacement that is no edit: the journal gets a barrier.\<close>

definition replaced :: "world \<Rightarrow> world \<Rightarrow> bool" where
  "replaced w w' \<longleftrightarrow> (let (h, b) = w; (h', b') = w' in
     h' = h \<and> buffer_ok h b' \<and> contentGeneration b' = contentGeneration b + 1 \<and>
     journal_record (editJournal b) (op_barrier (contentGeneration b + 1)) = Some (editJournal b') \<and>
     saving b' = saving b \<and>
     (unsavedChangeRanges b' = [] \<longrightarrow> content h b' = [] \<or> content h b' = saved_content h b'))"

text \<open>\<open>nav\<close> says whether the whole content may be exchanged on the way.\<close>

inductive effects :: "bool \<Rightarrow> world \<Rightarrow> world \<Rightarrow> bool" for nav where
  effects_refl: "effects nav w w"
| effects_same: "effects nav w (h, b) \<Longrightarrow> same_text b b' \<Longrightarrow> buffer_ok h b' \<Longrightarrow> effects nav w (h, b')"
| effects_splice: "effects nav w w' \<Longrightarrow> spliced w' w'' off old ins \<Longrightarrow> effects nav w w''"
| effects_swap: "effects nav w w' \<Longrightarrow> nav \<Longrightarrow> swapped w' w'' t new \<Longrightarrow> effects nav w w''"
| effects_replace: "effects nav w w' \<Longrightarrow> nav \<Longrightarrow> replaced w' w'' \<Longrightarrow> effects nav w w''"

lemma quiet_same: "quiet b b' \<Longrightarrow> same_text b b'"
  by (simp add: quiet_def same_text_def)

lemma effects_edits: "edits w' w'' \<Longrightarrow> effects nav w w' \<Longrightarrow> effects nav w w''"
  by (induction rule: edits.induct) (auto intro: effects_same effects_splice quiet_same)

lemma effects_ok: "effects nav w w' \<Longrightarrow> buffer_ok (fst w) (snd w) \<Longrightarrow> buffer_ok (fst w') (snd w') \<and> heap_le (fst w) (fst w')"
proof (induction rule: effects.induct)
  case (effects_splice w w' w'' off old ins)
  then have "heap_le (fst w) (fst w')" "heap_le (fst w') (fst w'')" "buffer_ok (fst w'') (snd w'')"
    by (simp_all add: spliced_def split: prod.splits)
  then show ?case using heap_le_trans by blast
next
  case (effects_swap w w' w'' t new)
  then show ?case by (auto simp: swapped_def split: prod.splits)
next
  case (effects_replace w w' w'')
  then show ?case by (auto simp: replaced_def split: prod.splits)
qed auto

lemma swap_cursor_quiet:
  assumes ok: "buffer_ok h b" and i: "i < length (secondaryCursors b)"
  shows "\<exists>b'. swap_cursor i b = Some b' \<and> quiet b b' \<and> buffer_ok h b' \<and> same_pass b b' \<and>
    length (secondaryCursors b') = length (secondaryCursors b)"
proof -
  let ?c = "secondaryCursors b ! i" and ?c' = "\<lparr>cursorPoint = point b, cursorMark = mark b, cursorGoal = goalColumn b\<rparr>"
  have tr: "tracked_ok (buf_length b) b" using ok by (simp add: buffer_ok_def)
  then have "cursor_in (buf_length b) ?c" "cursor_in (buf_length b) ?c'"
    using i by (simp_all add: tracked_ok_def list_all_length cursor_in_def)
  moreover from this(2) tr have "list_all (cursor_in (buf_length b)) ((secondaryCursors b)[i := ?c'])"
    by (auto simp: tracked_ok_def list_all_iff dest!: set_update_subset_insert [THEN subsetD])
  ultimately have "buffer_ok h (b\<lparr>point := cursorPoint ?c, mark := cursorMark ?c, goalColumn := cursorGoal ?c,
      secondaryCursors := (secondaryCursors b)[i := ?c']\<rparr>)"
    using ok by (simp add: buffer_ok_def tracked_ok_def cursor_in_def)
  then show ?thesis using i by (simp add: swap_cursor_def Let_def quiet_def same_pass_def)
qed

lemma cursor_loop_edits:
  assumes "buffer_ok h b" "cursorIterationActive b" "primitive_ok p"
  shows "\<exists>r h' b'. cursor_loop (primitive_step brk p) i (h, b) = Some (r, h', b') \<and> edits (h, b) (h', b')"
  using assms
proof (induction "length (secondaryCursors b) - i" arbitrary: i h b rule: less_induct)
  case less
  show ?case
  proof (cases "i < length (secondaryCursors b)")
    case True
    obtain b1 where b1: "swap_cursor i b = Some b1" "quiet b b1" "buffer_ok h b1" "same_pass b b1"
      "length (secondaryCursors b1) = length (secondaryCursors b)"
      using swap_cursor_quiet [OF less.prems(1) True] by blast
    obtain r h2 b2 where b2: "primitive_step brk p (h, b1) = Some (r, h2, b2)" "edits (h, b1) (h2, b2)" "same_pass b1 b2"
      using primitive_edits [OF b1(3) less.prems(3)] by blast
    have active: "cursorIterationActive b2" "length (secondaryCursors b2) = length (secondaryCursors b)"
      using b1 b2(3) less.prems(2) by (simp_all add: same_pass_def)
    have ok2: "buffer_ok h2 b2" using edits_ok [OF b2(2)] b1(3) by simp
    obtain b3 where b3: "swap_cursor i b2 = Some b3" "quiet b2 b3" "buffer_ok h2 b3" "same_pass b2 b3"
      "length (secondaryCursors b3) = length (secondaryCursors b2)"
      using swap_cursor_quiet [OF ok2] True active by auto
    have e: "edits (h, b) (h2, b3)"
      using edits_quiet [OF edits_trans [OF b2(2) edits_quiet [OF edits_refl b1(2,3)]] b3(2,3)] .
    have "\<exists>r h' b'. cursor_loop (primitive_step brk p) (i + 1) (h2, b3) = Some (r, h', b') \<and> edits (h2, b3) (h', b')"
      using less.hyps [of b3 "i + 1" h2] True active b3 less.prems(3) by (simp add: same_pass_def)
    then obtain r' h' b' where l: "cursor_loop (primitive_step brk p) (i + 1) (h2, b3) = Some (r', h', b')"
      "edits (h, b) (h', b')" using edits_trans [OF _ e] by blast
    have "cursor_loop (primitive_step brk p) i (h, b) =
        (case r of Threw e \<Rightarrow> Some (Threw e, h2, b3) | Done _ \<Rightarrow> Some (r', h', b'))"
      using True b1(1) b2(1) b3(1) l(1) by (subst cursor_loop.simps) (simp split: outcome.split)
    with e l(2) show ?thesis by (cases r) auto
  qed (subst cursor_loop.simps, simp add: edits_refl)
qed

lemma begin_undo_group_same: "buffer_ok h b \<Longrightarrow> same_text b (begin_undo_group b) \<and> buffer_ok h (begin_undo_group b)"
  by (simp add: begin_undo_group_def same_text_def buffer_ok_def tracked_ok_def)

lemma end_undo_group_same:
  assumes "buffer_ok h b"
  shows "same_text b (end_undo_group b) \<and> buffer_ok h (end_undo_group b)"
proof -
  define c where "c = b\<lparr>undoGroupDepth := undoGroupDepth b - 1\<rparr>"
  define d where "d = (record_undo c)\<lparr>canAmend := False, undoGroupDirty := False\<rparr>"
  have same: "same_text b c" by (simp add: c_def same_text_def)
  have c: "buffer_ok h c" if "\<not> (undoGroupDepth c = 0 \<and> undoGroupDirty c)"
    using assms that by (auto simp: c_def buffer_ok_def tracked_ok_def)
  have "history_ok h (undoTree c)" "st_ok h (bufStorage c)" using assms by (simp_all add: buffer_ok_def c_def)
  note h = history_ok_record [OF this]
  note r = record_undo_same [of c]
  have "buffer_ok h d"
    using assms h r same_document_tracked(1) [OF r, of "buf_length b"]
    by (simp add: buffer_ok_def same_document_def d_def record_undo_fields) (simp add: c_def tracked_ok_def)
  moreover have "same_text b d"
    using same r same_document_tracked [OF r] by (simp add: same_text_def same_document_def d_def)
  moreover have "end_undo_group b = (if undoGroupDepth b = 0 then b
      else if undoGroupDepth c = 0 \<and> undoGroupDirty c then d else c)"
    by (simp add: end_undo_group_def c_def d_def Let_def)
  ultimately show ?thesis using assms c same by (simp add: same_text_def)
qed

lemma normalized_same:
  assumes "buffer_ok h b"
  shows "same_text b (normalize_secondary_cursors b) \<and> buffer_ok h (normalize_secondary_cursors b)"
  using assms normalized_cursors [of "cursor_in (buf_length b)" b]
  by (simp add: normalize_secondary_cursors_def same_text_def buffer_ok_def tracked_ok_def)

definition pass_start :: "buffer \<Rightarrow> buffer" where
  "pass_start b = (begin_undo_group b)\<lparr>cursorIterationActive := True\<rparr>"

lemma pass_start_ok: "buffer_ok h b \<Longrightarrow> buffer_ok h (pass_start b)" "same_text b (pass_start b)"
  by (simp_all add: pass_start_def begin_undo_group_def same_text_def buffer_ok_def tracked_ok_def)

text \<open>A pass is edits between the opening and the closing of its undo group.\<close>

lemma for_each_cursor_edits:
  assumes "buffer_ok h b" "primitive_ok p"
  shows "\<exists>r h2 b2. for_each_cursor (primitive_step brk p) (h, b) = Some (r, h2, end_iteration b2) \<and>
    edits (h, pass_start b) (h2, b2)"
proof -
  have b0: "buffer_ok h (pass_start b)" "cursorIterationActive (pass_start b)"
    using pass_start_ok(1) [OF assms(1)] by (simp_all add: pass_start_def)
  obtain r h1 b1 where 1: "primitive_step brk p (h, pass_start b) = Some (r, h1, b1)" "edits (h, pass_start b) (h1, b1)"
    "same_pass (pass_start b) b1"
    using primitive_edits [OF b0(1) assms(2)] by blast
  have b1: "buffer_ok h1 b1" "cursorIterationActive b1"
    using edits_ok [OF 1(2)] b0 1(3) by (simp_all add: same_pass_def)
  obtain r2 h2 b2 where 2: "(case r of Threw e \<Rightarrow> Some (Threw e, h1, b1)
      | Done _ \<Rightarrow> cursor_loop (primitive_step brk p) 0 (h1, b1)) = Some (r2, h2, b2)" "edits (h1, b1) (h2, b2)"
    using cursor_loop_edits [OF b1 assms(2), of brk 0] edits_refl by (cases r) auto
  have "for_each_cursor (primitive_step brk p) (h, b) = Some (r2, h2, end_iteration b2)"
    using 1(1) 2(1) by (simp add: for_each_cursor_def pass_start_def)
  then show ?thesis using edits_trans [OF 2(2) 1(2)] by blast
qed

lemma for_each_cursor_effects:
  assumes "buffer_ok h b" "primitive_ok p"
  shows "\<exists>r h' b'. for_each_cursor (primitive_step brk p) (h, b) = Some (r, h', b') \<and> effects nav (h, b) (h', b')"
proof -
  obtain r h2 b2 where pass: "for_each_cursor (primitive_step brk p) (h, b) = Some (r, h2, end_iteration b2)"
    "edits (h, pass_start b) (h2, b2)" using for_each_cursor_edits [OF assms] by blast
  have e: "effects nav (h, b) (h2, b2)"
    using effects_edits [OF pass(2) effects_same [OF effects_refl pass_start_ok(2) pass_start_ok(1) [OF assms(1)]]] .
  then have ok2: "buffer_ok h2 b2" using effects_ok [OF e] assms(1) by simp
  have off: "same_text b2 (b2\<lparr>cursorIterationActive := False\<rparr>)" "buffer_ok h2 (b2\<lparr>cursorIterationActive := False\<rparr>)"
    using ok2 by (simp_all add: same_text_def buffer_ok_def tracked_ok_def)
  note norm = normalized_same [OF off(2)]
  note group = end_undo_group_same [OF conjunct2 [OF norm]]
  have "effects nav (h, b) (h2, end_iteration b2)"
    unfolding end_iteration_def using e off norm group by (meson effects_same)
  then show ?thesis using pass(1) by blast
qed

section \<open>Replacing the content\<close>

lemma replace_content_result:
  assumes ok: "buffer_ok h b" and st: "st_ok h st"
  shows "\<exists>b'. replace_content brk st pt (h, b) = Some (h, b') \<and> buffer_ok h b' \<and> bufStorage b' = st \<and>
    savedSnapshot b' = savedSnapshot b \<and> saving b' = saving b \<and> contentGeneration b' = contentGeneration b + 1 \<and>
    journal_record (editJournal b) (op_barrier (contentGeneration b + 1)) = Some (editJournal b')"
proof -
  obtain p where p: "snap_to_grapheme_boundary storage_class brk h st (min pt (st_byte_length st)) = Some p"
    "p \<le> length (st_content h st)"
    using snap_ok [OF st] by blast
  define b1 where "b1 = b\<lparr>bufStorage := st, point := p, mark := None, secondaryCursors := [], addedCursorOrder := [],
    narrowedRange := None, foldMarkers := [], foldGeneration := foldGeneration b + 1\<rparr>"
  define b2 where "b2 = record_or_amend_undo False b1"
  have b1: "bufStorage b1 = st" "undoTree b1 = undoTree b" by (simp_all add: b1_def)
  note r = record_or_amend_result [of h b1 False, folded b2_def, unfolded b1, OF buffer_okD(3) [OF ok] st]
  have b2: "bufStorage b2 = st" "savedSnapshot b2 = savedSnapshot b" "editJournal b2 = editJournal b"
    "contentGeneration b2 = contentGeneration b" "saving b2 = saving b"
    using r(1) same_document_tracked(4) [OF r(1)] by (simp_all add: same_document_def) (simp_all add: b1_def)
  obtain j where j: "journal_record (editJournal b) (op_barrier (contentGeneration b + 1)) = Some j"
    "journal_below (contentGeneration b + 1) j"
    "commit_op op_barrier anchor_apply_barrier (b2\<lparr>goalColumn := None\<rparr>) =
      Some (b2\<lparr>goalColumn := None, contentGeneration := contentGeneration b + 1, editJournal := j,
               anchorSet := anchor_apply_barrier (anchorSet b2)\<rparr>)"
    using commit_op_result [of "b2\<lparr>goalColumn := None\<rparr>" op_barrier anchor_apply_barrier] buffer_okD(4) [OF ok] b2
    by (auto simp: op_barrier_def)
  define b3 where "b3 = b2\<lparr>goalColumn := None, contentGeneration := contentGeneration b + 1, editJournal := j,
    anchorSet := anchor_apply_barrier (anchorSet b2)\<rparr>"
  define b4 where "b4 = (disarm_unseen_tracking b3)\<lparr>diagnostics := [], diagnosticsGeneration := diagnosticsGeneration b3 + 1\<rparr>"
  have commit: "commit_barrier (b2\<lparr>goalColumn := None\<rparr>) = Some b4"
    using j(3) by (simp add: commit_barrier_def b4_def b3_def disarm_unseen_tracking_def)
  have tracked: "tracked_ok (length (st_content h st)) b1"
    using buffer_okD(5) [OF ok] p(2) by (simp add: tracked_ok_def b1_def folds_ok_def)
  then have "tracked_ok (length (st_content h st)) b4"
    using same_document_tracked(1) [OF r(1)]
    by (simp add: b4_def b3_def disarm_unseen_tracking_def) (simp add: tracked_ok_def)
  moreover have fields: "bufStorage b4 = st" "savedSnapshot b4 = savedSnapshot b" "saving b4 = saving b"
    "contentGeneration b4 = contentGeneration b + 1" "editJournal b4 = j" "undoTree b4 = undoTree b2"
    "undoGroupDirty b4 = undoGroupDirty b2" "undoGroupDepth b4 = undoGroupDepth b2"
    using b2 by (simp_all add: b4_def b3_def disarm_unseen_tracking_def)
  moreover have "undoGroupDepth b2 = undoGroupDepth b1" using r(1) by (simp add: same_document_def)
  moreover have "undoGroupDepth b1 = undoGroupDepth b" "undoGroupDirty b1 = undoGroupDirty b" by (simp_all add: b1_def)
  ultimately have "buffer_ok h b4"
    using st buffer_okD(2,8) [OF ok] r(2-4) j(2) st_length [OF st]
    by (cases "undoGroupDepth b = 0") (simp_all add: buffer_ok_def)
  then show ?thesis
    using fields j(1) commit [unfolded b2_def b1_def] p(1) by (simp add: replace_content_def)
qed

lemma restore_content_replaced:
  assumes ok: "buffer_ok h b" and s: "chunkable kChunkSize s"
  shows "\<exists>w'. restore_content brk s (h, b) = Some w' \<and> replaced (h, b) w'"
proof -
  obtain r where r: "rope_of_text s = Some r" "rope_wf r" using rope_of_text_returns [OF s] by blast
  then obtain b' where b': "replace_content brk (RopeStorage r) (point b) (h, b) = Some (h, b')" "buffer_ok h b'"
    "saving b' = saving b" "contentGeneration b' = contentGeneration b + 1"
    "journal_record (editJournal b) (op_barrier (contentGeneration b + 1)) = Some (editJournal b')"
    using replace_content_result [OF ok, of "RopeStorage r"] by force
  then have "replaced (h, b) (h, mark_all_unsaved b')"
    using buffer_okD(6) [OF b'(2)]
    by (auto simp: replaced_def mark_all_unsaved_def buffer_ok_def tracked_ok_def ranges_ok_Cons)
  then show ?thesis using r(1) b'(1) by (simp add: restore_content_def)
qed

lemma adopt_reverted_replaced:
  assumes ok: "buffer_ok h b" and st: "st_ok h (bufStorage fresh)"
  shows "\<exists>w'. adopt_reverted brk fresh (h, b) = Some w' \<and> replaced (h, b) w'"
proof -
  let ?b = "b\<lparr>bufCharset := bufCharset fresh\<rparr>"
  have "buffer_ok h ?b" using ok by (simp add: buffer_ok_def tracked_ok_def)
  then obtain b' where b': "replace_content brk (bufStorage fresh) (point b) (h, ?b) = Some (h, b')" "buffer_ok h b'"
    "saving b' = saving b" "contentGeneration b' = contentGeneration b + 1"
    "journal_record (editJournal b) (op_barrier (contentGeneration b + 1)) = Some (editJournal b')"
    using replace_content_result [of h ?b "bufStorage fresh"] st by force
  then show ?thesis
    by (simp add: adopt_reverted_def replaced_def buffer_ok_def tracked_ok_def)
qed

section \<open>A session\<close>

text \<open>
  A session is a buffer, its heap and the plan of the save in flight, if there is one.  \<open>Revert\<close>
  is given the buffer the file was read into; the file operations answer by \<open>fs\<close>.
\<close>

datatype command =
    Edit primitive
  | EditEachCursor primitive
  | AddCursorAt offset "offset option"
  | ClearSecondaryCursors
  | RemoveLastAddedCursor
  | NarrowToRegion offset offset
  | Widen
  | SetFoldMarker offset "fold_marker option"
  | SetReadOnly bool "bytes option"
  | SetSnippetRanges "snippet_range list"
  | SetExcerptRanges "excerpt_range list"
  | SetDiagnostics "diagnostic list"
  | BeginUndoGroup
  | EndUndoGroup
  | Undo
  | Redo
  | JumpToUndoSequence nat
  | RestoreContent bytes
  | Revert buffer
  | BeginSave bytes bool bool "line_ending option"
  | FinishSave bytes
  | AbandonSave

type_synonym session = "world \<times> storage save_plan option"

fun command_step :: "break_rule \<Rightarrow> file_system \<Rightarrow> command \<Rightarrow> session \<Rightarrow> session option" where
  "command_step brk fs (Edit p) (w, plan) = map_option (\<lambda>(r, w'). (w', plan)) (primitive_step brk p w)"
| "command_step brk fs (EditEachCursor p) (w, plan) =
     map_option (\<lambda>(r, w'). (w', plan)) (for_each_cursor (primitive_step brk p) w)"
| "command_step brk fs (AddCursorAt pt mk) (w, plan) = map_option (\<lambda>w'. (w', plan)) (add_cursor_at brk pt mk w)"
| "command_step brk fs ClearSecondaryCursors ((h, b), plan) = Some ((h, clear_secondary_cursors b), plan)"
| "command_step brk fs RemoveLastAddedCursor ((h, b), plan) = Some ((h, snd (remove_last_added_cursor b)), plan)"
| "command_step brk fs (NarrowToRegion x y) (w, plan) = Some (narrow_to_region x y w, plan)"
| "command_step brk fs Widen ((h, b), plan) = Some ((h, widen b), plan)"
| "command_step brk fs (SetFoldMarker off m) ((h, b), plan) = Some ((h, set_fold_marker off m b), plan)"
| "command_step brk fs (SetReadOnly ro why) ((h, b), plan) = Some ((h, set_read_only ro why b), plan)"
| "command_step brk fs (SetSnippetRanges rs) ((h, b), plan) = Some ((h, set_snippet_ranges rs b), plan)"
| "command_step brk fs (SetExcerptRanges rs) ((h, b), plan) = Some ((h, set_excerpt_ranges rs b), plan)"
| "command_step brk fs (SetDiagnostics ds) ((h, b), plan) = Some ((h, set_diagnostics ds b), plan)"
| "command_step brk fs BeginUndoGroup ((h, b), plan) = Some ((h, begin_undo_group b), plan)"
| "command_step brk fs EndUndoGroup ((h, b), plan) = Some ((h, end_undo_group b), plan)"
| "command_step brk fs Undo (w, plan) = map_option (\<lambda>w'. (w', plan)) (buffer_undo brk w)"
| "command_step brk fs Redo (w, plan) = map_option (\<lambda>w'. (w', plan)) (buffer_redo brk w)"
| "command_step brk fs (JumpToUndoSequence n) (w, plan) =
     map_option (\<lambda>(found, w'). (w', plan)) (try_jump_to_undo_sequence brk n w)"
| "command_step brk fs (RestoreContent s) (w, plan) = map_option (\<lambda>w'. (w', plan)) (restore_content brk s w)"
| "command_step brk fs (Revert fresh) (w, plan) = map_option (\<lambda>w'. (w', plan)) (adopt_reverted brk fresh w)"
| "command_step brk fs (BeginSave path nl trim ending) (w, plan) =
     Some (case begin_save fs path nl trim ending w of
       (Done plan', w') \<Rightarrow> (w', Some plan') | (Threw e, w') \<Rightarrow> (w', plan))"
| "command_step brk fs (FinishSave path) ((h, b), plan) =
     Some (case plan of None \<Rightarrow> ((h, b), None) | Some pl \<Rightarrow> ((h, finish_save fs path pl b), None))"
| "command_step brk fs AbandonSave ((h, b), plan) =
     Some (case plan of None \<Rightarrow> ((h, b), None) | Some pl \<Rightarrow> ((h, abandon_save b), None))"

fun run_commands :: "break_rule \<Rightarrow> file_system \<Rightarrow> command list \<Rightarrow> session \<Rightarrow> session option" where
  "run_commands brk fs [] s = Some s"
| "run_commands brk fs (c # cs) s = command_step brk fs c s \<bind> run_commands brk fs cs"

text \<open>
  The side conditions under which a session is shown not to fault.  They are assumptions of the
  lemmas and no part of the code: every text put in can be cut into chunks, which nothing in the
  source sees to (\<open>malformed_text_stalls\<close> in \<open>Rope\<close>), fold markers are inside the text, and a reverted
  file comes in a well-formed rope.
\<close>

fun allowed :: "command \<Rightarrow> session \<Rightarrow> bool" where
  "allowed (Edit p) s = primitive_ok p"
| "allowed (EditEachCursor p) s = primitive_ok p"
| "allowed (SetFoldMarker off m) s = (off \<le> buf_length (snd (fst s)))"
| "allowed (RestoreContent s) _ = chunkable kChunkSize s"
| "allowed (Revert fresh) _ = (case bufStorage fresh of RopeStorage r \<Rightarrow> rope_wf r | _ \<Rightarrow> False)"
| "allowed c s = True"

text \<open>Exchanging the content while a save is in flight is what \<open>calm\<close> sessions never do.\<close>

fun exchanges :: "command \<Rightarrow> bool" where
  "exchanges Undo = True"
| "exchanges Redo = True"
| "exchanges (JumpToUndoSequence n) = True"
| "exchanges (RestoreContent s) = True"
| "exchanges (Revert fresh) = True"
| "exchanges c = False"

fun all_steps :: "(command \<Rightarrow> session \<Rightarrow> bool) \<Rightarrow> break_rule \<Rightarrow> file_system \<Rightarrow> command list \<Rightarrow> session \<Rightarrow> bool" where
  "all_steps P brk fs [] s = True"
| "all_steps P brk fs (c # cs) s =
     (P c s \<and> (case command_step brk fs c s of None \<Rightarrow> True | Some s' \<Rightarrow> all_steps P brk fs cs s'))"

definition calm :: "command \<Rightarrow> session \<Rightarrow> bool" where
  "calm c s \<longleftrightarrow> allowed c s \<and> (exchanges c \<longrightarrow> \<not> saving (snd (fst s)))"

definition session_ok :: "session \<Rightarrow> bool" where
  "session_ok s \<longleftrightarrow> (let ((h, b), plan) = s in
     buffer_ok h b \<and> (case plan of None \<Rightarrow> \<not> saving b | Some pl \<Rightarrow> saving b \<and> st_ok h (planSnapshot pl)))"

section \<open>Every command, as effects\<close>

lemma narrowed_same:
  assumes ok: "buffer_ok h b"
  shows "\<exists>b'. narrow_to_region x y (h, b) = (h, b') \<and> same_text b b' \<and> buffer_ok h b'"
proof -
  let ?t = "content h b"
  define l1 l2 where "l1 = count_newlines (take (min (min x y) (length ?t)) ?t)"
    "l2 = count_newlines (take (min (max x y) (length ?t)) ?t)"
  have l: "l1 \<le> l2" unfolding l1_l2_def by (rule count_newlines_take_mono) simp
  define s e where "s = line_start ?t l1"
    "e = (if l2 + 1 < m_line_count storage_class (bufStorage b) then line_start ?t (l2 + 1) else length ?t)"
  have se: "s \<le> e" "e \<le> length ?t"
    using line_start_mono [of l1 "l2 + 1" ?t] line_start_le l by (simp_all add: s_e_def)
  define p where "p = (if point b < s then s else if (if e > s then e - 1 else s) < point b
    then (if e > s then e - 1 else s) else point b)"
  have p: "p \<le> length ?t" using se buffer_okD(5) [OF ok] by (auto simp: p_def tracked_ok_def)
  have "narrow_to_region x y (h, b) = (h, b\<lparr>narrowedRange := Some (s, e), point := p\<rparr>)"
    unfolding narrow_to_region_def Let_def prod.case buffer_okD(6) [OF ok]
      any_class.lines [OF buffer_okD(1) [OF ok], THEN conjunct1] any_class.lines [OF buffer_okD(1) [OF ok], THEN conjunct2]
      l1_l2_def [symmetric] s_e_def [symmetric] p_def [symmetric] ..
  moreover have "buffer_ok h (b\<lparr>narrowedRange := Some (s, e), point := p\<rparr>)"
    using ok se p buffer_okD(6) [OF ok] by (simp add: buffer_ok_def tracked_ok_def)
  ultimately show ?thesis by (simp add: same_text_def)
qed

lemma last_added_same:
  "buffer_ok h b \<Longrightarrow> same_text b (snd (remove_last_added_cursor b)) \<and> buffer_ok h (snd (remove_last_added_cursor b))"
proof (induction b rule: remove_last_added_cursor.induct)
  case (1 b)
  show ?case
  proof (cases "addedCursorOrder b = []")
    case True
    with 1 show ?thesis by (subst (1 2) remove_last_added_cursor.simps) (simp add: same_text_def)
  next
    case False
    define kept where "kept = filter (\<lambda>c. cursorPoint c \<noteq> last (addedCursorOrder b)) (secondaryCursors b)"
    define b' where "b' = b\<lparr>addedCursorOrder := butlast (addedCursorOrder b), secondaryCursors := kept\<rparr>"
    have b': "same_text b b'" "buffer_ok h b'"
      using 1(2) by (auto simp: b'_def kept_def same_text_def buffer_ok_def tracked_ok_def list_all_iff dest: in_set_butlastD)
    have step: "remove_last_added_cursor b =
        (if length kept \<noteq> length (secondaryCursors b) then (True, b') else remove_last_added_cursor b')"
      using False by (subst remove_last_added_cursor.simps) (simp add: b'_def kept_def Let_def)
    show ?thesis
    proof (cases "length kept = length (secondaryCursors b)")
      case True
      then have "same_text b' (snd (remove_last_added_cursor b')) \<and> buffer_ok h (snd (remove_last_added_cursor b'))"
        using 1(1) [OF False refl refl refl] b'(2) by (simp add: b'_def kept_def)
      with b'(1) step True show ?thesis by (simp add: same_text_def)
    qed (use b' step in simp)
  qed
qed

lemma added_cursor_same:
  assumes ok: "buffer_ok h b"
  shows "\<exists>b'. add_cursor_at brk pt mk (h, b) = Some (h, b') \<and> same_text b b' \<and> buffer_ok h b'"
proof -
  let ?len = "buf_length b"
  note len = buffer_okD(6) [OF ok]
  obtain p where p: "snap_to_grapheme_boundary storage_class brk h (bufStorage b) (min pt ?len) = Some p" "p \<le> ?len"
    using snap_ok [OF buffer_okD(1) [OF ok]] len by metis
  obtain m where m: "(case mk of None \<Rightarrow> Some None | Some m \<Rightarrow>
      snap_to_grapheme_boundary storage_class brk h (bufStorage b) (min m ?len) \<bind> (\<lambda>m'. Some (Some m'))) = Some m"
    "pred_option (\<lambda>m. m \<le> ?len) m"
  proof (cases mk)
    case (Some m)
    then show ?thesis using that snap_ok [OF buffer_okD(1) [OF ok], of brk "min m ?len"] len by force
  qed (use that in simp)
  define b' where "b' = b\<lparr>secondaryCursors := secondaryCursors b @ [\<lparr>cursorPoint = p, cursorMark = m, cursorGoal = None\<rparr>],
    addedCursorOrder := addedCursorOrder b @ [p]\<rparr>"
  have b': "buffer_ok h b'" "same_text b b'"
    using ok p(2) m(2) by (simp_all add: b'_def buffer_ok_def tracked_ok_def cursor_in_def same_text_def)
  have "add_cursor_at brk pt mk (h, b) =
      Some (h, if p = point b \<or> list_ex (\<lambda>c. cursorPoint c = p) (secondaryCursors b) then b
        else normalize_secondary_cursors b')"
    using p(1) m(1) by (simp add: add_cursor_at_def b'_def)
  then show ?thesis using normalized_same [OF b'(1)] b'(2) ok by (auto simp: same_text_def)
qed

text \<open>Undo, redo and jumps swap in the node they land on.\<close>

lemma navigated:
  assumes ok: "buffer_ok h b" and t: "history_ok h t"
  shows "\<exists>w'. apply_undo_tree_navigation brk (st_clone (bufStorage b)) (h, b\<lparr>undoTree := t\<rparr>) = Some w' \<and>
    effects True (h, b) w'"
  using navigation_swapped [OF assms, of brk] effects_swap [OF effects_refl TrueI] by fastforce

lemma history_moves:
  assumes "history_ok h t"
  shows "history_ok h (undo_undo t)" "undo_redo t = Some t' \<Longrightarrow> history_ok h t'" "\<exists>t'. undo_redo t = Some t'"
    "history_ok h (snd (undo_jump_to t q))"
proof -
  have inv: "undo_inv t" using assms by (simp add: history_ok_def)
  show "history_ok h (undo_undo t)"
    using assms undo_undo_inv [OF inv] by (simp add: history_ok_def undo_undo_def split: option.splits)
  show "\<exists>t'. undo_redo t = Some t'" using undo_redo_inv [OF inv] by blast
  show "history_ok h t'" if "undo_redo t = Some t'"
    using assms that undo_redo_inv [OF inv] by (auto simp: history_ok_def undo_redo_def split: if_splits)
  have "nodeState n \<in> nodeState ` set (nodes t)" if n: "n \<in> set (nodes (snd (undo_jump_to t q)))" for n
  proof (cases "bySequence t q")
    case None
    with n show ?thesis by (simp add: undo_jump_to_def)
  next
    case (Some target)
    have target: "target < length (nodes t)" using sequences_okD(3) [OF _ Some] inv by (simp add: undo_inv_def)
    show ?thesis
    proof (cases "nodeParent (nodes t ! target)")
      case None
      with n Some show ?thesis by (simp add: undo_jump_to_def)
    next
      case (Some p)
      then have "p < target" using links_okD(2) [of "nodes t" "rootNode t" target p] target inv by (simp add: undo_inv_def)
      then have p: "p < length (nodes t)" using target by simp
      obtain k where "nodes (snd (undo_jump_to t q)) = (nodes t)[p := (nodes t ! p)\<lparr>mostRecentChild := k\<rparr>]"
        using \<open>bySequence t q = Some target\<close> Some by (simp add: undo_jump_to_def Let_def)
      with n have "n = (nodes t ! p)\<lparr>mostRecentChild := k\<rparr> \<or> n \<in> set (nodes t)"
        using set_update_subset_insert by fastforce
      then show ?thesis using nth_mem [OF p] by auto
    qed
  qed
  then show "history_ok h (snd (undo_jump_to t q))"
    using assms undo_jump_props [OF inv, of q] by (fastforce simp: history_ok_def)
qed

definition saves :: "command \<Rightarrow> bool" where
  "saves c \<longleftrightarrow> (case c of BeginSave _ _ _ _ \<Rightarrow> True | FinishSave _ \<Rightarrow> True | AbandonSave \<Rightarrow> True | _ \<Rightarrow> False)"

lemma tracked_only_effects: "same_text b b' \<Longrightarrow> buffer_ok h b' \<Longrightarrow> effects nav (h, b) (h, b')"
  using effects_same [OF effects_refl] .

lemma command_effects:
  assumes ok: "buffer_ok h b" and c: "allowed c ((h, b), plan)" "\<not> saves c"
  shows "\<exists>w'. command_step brk fs c ((h, b), plan) = Some (w', plan) \<and> effects (exchanges c) (h, b) w'"
proof (cases c)
  case (Edit p)
  with c primitive_edits [OF ok, of p brk] show ?thesis
    using effects_edits [OF _ effects_refl] by fastforce
next
  case (EditEachCursor p)
  with c for_each_cursor_effects [OF ok, of p brk] show ?thesis by fastforce
next
  case (AddCursorAt pt mk)
  with added_cursor_same [OF ok, of brk pt mk] show ?thesis using tracked_only_effects by fastforce
next
  case RemoveLastAddedCursor
  with last_added_same [OF ok] show ?thesis using tracked_only_effects by simp
next
  case (NarrowToRegion x y)
  with narrowed_same [OF ok, of x y] show ?thesis using tracked_only_effects by fastforce
next
  case (SetFoldMarker off m)
  have "folds_ok (buf_length b) (foldMarkers (set_fold_marker off m b))"
    using c ok SetFoldMarker fold_assign_ok [of "buf_length b" "foldMarkers b" off]
    by (auto simp: set_fold_marker_def buffer_ok_def tracked_ok_def folds_ok_def sorted_wrt_map sorted_wrt_filter
        split: option.split)
  then have "buffer_ok h (set_fold_marker off m b)"
    using ok by (simp add: set_fold_marker_def buffer_ok_def tracked_ok_def)
  with SetFoldMarker show ?thesis using tracked_only_effects by (simp add: same_text_def set_fold_marker_def)
next
  case BeginUndoGroup
  with begin_undo_group_same [OF ok] show ?thesis using tracked_only_effects by simp
next
  case EndUndoGroup
  with end_undo_group_same [OF ok] show ?thesis using tracked_only_effects by simp
next
  case Undo
  with navigated [OF ok history_moves(1) [OF buffer_okD(3) [OF ok]], of brk] show ?thesis
    using effects_refl by (fastforce simp: buffer_undo_def)
next
  case Redo
  obtain t where t: "undo_redo (undoTree b) = Some t" using history_moves(3) [OF buffer_okD(3) [OF ok]] by blast
  with Redo navigated [OF ok history_moves(2) [OF buffer_okD(3) [OF ok] t], of brk] show ?thesis
    using effects_refl by (fastforce simp: buffer_redo_def)
next
  case (JumpToUndoSequence q)
  with navigated [OF ok history_moves(4) [OF buffer_okD(3) [OF ok], of q], of brk] show ?thesis
    using effects_refl by (fastforce simp: try_jump_to_undo_sequence_def split: prod.split bool.split)
next
  case (RestoreContent s)
  with c restore_content_replaced [OF ok, of s brk] show ?thesis
    using effects_replace [OF effects_refl TrueI] by fastforce
next
  case (Revert fresh)
  have "st_ok h (bufStorage fresh)" using c Revert by (auto split: storage.splits)
  with Revert adopt_reverted_replaced [OF ok, of fresh brk] show ?thesis
    using effects_replace [OF effects_refl TrueI] by fastforce
qed (use ok c in \<open>auto simp: saves_def clear_secondary_cursors_def widen_def set_read_only_def set_snippet_ranges_def
      set_excerpt_ranges_def snapshot_excerpt_range_offsets_def set_diagnostics_def
      same_text_def buffer_ok_def tracked_ok_def intro!: tracked_only_effects\<close>)

section \<open>Saves\<close>

lemma begin_save_result:
  assumes ok: "buffer_ok h b"
  shows "(\<exists>e. begin_save fs path nl trim ending (h, b) = (Threw e, (h, b))) \<or>
    (\<exists>pl h' b'. begin_save fs path nl trim ending (h, b) = (Done pl, h', b') \<and> \<not> saving b \<and> heap_le h h' \<and>
      buffer_ok h' b' \<and> saving b' \<and> saveInFlightRanges b' = [] \<and> st_ok h' (planSnapshot pl) \<and>
      savingSnapshotBytes b' = length (content h b) \<and>
      st_content h' (planSnapshot pl) = content h b \<and> bufStorage b' = bufStorage b \<and> savedSnapshot b' = savedSnapshot b \<and>
      unsavedChangeRanges b' = unsavedChangeRanges b \<and> editJournal b' = editJournal b \<and>
      contentGeneration b' = contentGeneration b \<and> content h' b' = content h b \<and>
      saved_content h' b' = saved_content h b)"
proof -
  obtain h' u where u: "m_snapshot storage_class h (bufStorage b) = (h', u)" by fastforce
  have s: "heap_le h h'" "st_ok h' u" "st_content h' u = content h b"
    using any_class.snapshot [OF buffer_okD(1) [OF ok] u] by simp_all
  define b' where "b' = b\<lparr>saving := True, savingSnapshotBytes := st_byte_length u, saveInFlightRanges := []\<rparr>"
  have "buffer_ok h' b'"
    using ok st_kept [OF _ s(1)] history_ok_later [OF _ s(1)] history_ok_current [OF buffer_okD(3) [OF ok]]
    by (simp add: b'_def buffer_ok_def tracked_ok_def)
  moreover have "content h' b' = content h b" "saved_content h' b' = saved_content h b"
    using st_kept(2) [OF buffer_okD(1) [OF ok] s(1)] st_kept(2) [OF buffer_okD(2) [OF ok] s(1)] by (simp_all add: b'_def)
  ultimately show ?thesis
    using s u st_length [OF s(2)] by (auto simp: begin_save_def require_savable_def start_save_plan_def Let_def b'_def split: option.splits)
qed

lemma finish_save_fields:
  "bufStorage (finish_save fs path pl b) = bufStorage b" "savedSnapshot (finish_save fs path pl b) = planSnapshot pl"
  "unsavedChangeRanges (finish_save fs path pl b) = saveInFlightRanges b"
  "saving (finish_save fs path pl b) = False" "editJournal (finish_save fs path pl b) = editJournal b"
  "contentGeneration (finish_save fs path pl b) = contentGeneration b"
  by (simp_all add: finish_save_def commit_save_def capture_disk_timestamp_def)

lemma finish_save_ok:
  assumes "buffer_ok h b" "st_ok h (planSnapshot pl)"
  shows "buffer_ok h (finish_save fs path pl b)"
  using assms by (simp add: buffer_ok_def tracked_ok_def finish_save_def commit_save_def capture_disk_timestamp_def)

lemma abandon_save_ok: "buffer_ok h b \<Longrightarrow> buffer_ok h (abandon_save b)"
  by (simp add: buffer_ok_def tracked_ok_def abandon_save_def)

section \<open>The invariant holds in every session\<close>

lemma effects_saving: "effects nav w w' \<Longrightarrow> saving (snd w') = saving (snd w)"
  by (induction rule: effects.induct) (auto simp: same_text_def spliced_def swapped_def replaced_def split: prod.splits)

lemma session_step:
  assumes ok: "session_ok s" and c: "allowed c s"
  shows "\<exists>s'. command_step brk fs c s = Some s' \<and> session_ok s'"
proof -
  obtain h b plan where s: "s = ((h, b), plan)" by (metis prod.collapse)
  have b: "buffer_ok h b" using ok s by (simp add: session_ok_def)
  show ?thesis
  proof (cases "saves c")
    case False
    obtain h' b' where w': "command_step brk fs c s = Some ((h', b'), plan)" "effects (exchanges c) (h, b) (h', b')"
      using command_effects [OF b, of c plan brk fs] c False s by (metis prod.collapse)
    then have "buffer_ok h' b'" "heap_le h h'" "saving b' = saving b"
      using effects_ok [OF w'(2)] effects_saving [OF w'(2)] b by simp_all
    then show ?thesis using w'(1) ok s by (auto simp: session_ok_def st_kept split: option.splits)
  next
    case True
    then show ?thesis
    proof (cases c)
      case (BeginSave path nl trim ending)
      then show ?thesis
        using begin_save_result [OF b, of fs path nl trim ending] ok s by (auto simp: session_ok_def)
    next
      case (FinishSave path)
      then show ?thesis
        using ok s finish_save_ok [OF b] by (auto simp: session_ok_def finish_save_fields split: option.splits)
    next
      case AbandonSave
      then show ?thesis
        using ok s abandon_save_ok [OF b] by (auto simp: session_ok_def abandon_save_def split: option.splits)
    qed (simp_all add: saves_def)
  qed
qed

lemma session_run:
  "session_ok s \<Longrightarrow> all_steps allowed brk fs cs s \<Longrightarrow> \<exists>s'. run_commands brk fs cs s = Some s' \<and> session_ok s'"
proof (induction cs arbitrary: s)
  case (Cons c cs)
  then obtain s1 where "command_step brk fs c s = Some s1" "session_ok s1" using session_step [of s c brk fs] by auto
  with Cons show ?case by simp
qed simp

lemma run_commands_append:
  "run_commands brk fs (cs @ ds) s = run_commands brk fs cs s \<bind> run_commands brk fs ds"
  by (induction cs arbitrary: s) (auto split: bind_splits)

lemma new_session_ok:
  assumes "rope_wf r"
  shows "session_ok (([], new_buffer nm r), None)"
proof -
  have "st_ok [] (RopeStorage r)" using assms by simp
  then show ?thesis
    by (simp add: session_ok_def buffer_ok_def new_buffer_def history_ok_def undo_init_inv journal_below_def empty_journal_def
        tracked_ok_def folds_ok_def) (simp add: undo_init_def undo_current_def)
qed

end
