(* ===== verification/BufferSafety.thy ===== *)
theory BufferSafety
  imports BufferSession
begin

text \<open>
  What holds of a buffer in every session: it never faults and keeps its invariant, it calls
  itself unmodified only when its text is the saved one, and its journal is an exact account
  of what happened to the text.
\<close>

section \<open>The unsaved ranges\<close>

definition saved_inv :: "session \<Rightarrow> bool" where
  "saved_inv s \<longleftrightarrow> (let ((h, b), plan) = s in
     (unsavedChangeRanges b = [] \<longrightarrow> content h b = [] \<or> content h b = saved_content h b) \<and>
     (\<forall>pl. plan = Some pl \<longrightarrow> savingSnapshotBytes b = length (st_content h (planSnapshot pl)) \<and>
        (saveInFlightRanges b = [] \<longrightarrow> content h b = [] \<or> content h b = st_content h (planSnapshot pl))))"

lemma session_okD:
  assumes "session_ok ((h, b), plan)"
  shows "buffer_ok h b" "saving b \<longleftrightarrow> plan \<noteq> None" "plan = Some pl \<Longrightarrow> st_ok h (planSnapshot pl)"
  using assms by (auto simp: session_ok_def split: option.splits)

lemma session_ok_effects:
  assumes "session_ok (w, plan)" "effects nav w w'"
  shows "session_ok (w', plan)"
proof -
  obtain h b h' b' where w: "w = (h, b)" "w' = (h', b')" by (metis prod.collapse)
  have "buffer_ok h' b'" "heap_le h h'" "saving b' = saving b"
    using effects_ok [OF assms(2)] effects_saving [OF assms(2)] assms(1) w by (simp_all add: session_okD)
  then show ?thesis using assms(1) w by (auto simp: session_ok_def st_kept split: option.splits)
qed

lemma spliced_saved:
  assumes "spliced (h, b) (h', b') off old ins"
  shows "heap_le h h'" "unsavedChangeRanges b' = [] \<longrightarrow> content h' b' = []"
    "saving b \<longrightarrow> saveInFlightRanges b' = [] \<longrightarrow> content h' b' = []" "savingSnapshotBytes b' = savingSnapshotBytes b"
  using assms unfolding spliced_def Let_def prod.case by blast+

lemma saved_inv_effects:
  "effects nav w w' \<Longrightarrow> session_ok (w, plan) \<Longrightarrow> saved_inv (w, plan) \<Longrightarrow> (nav \<Longrightarrow> plan = None) \<Longrightarrow>
    saved_inv (w', plan)"
proof (induction rule: effects.induct)
  case (effects_same w h b b')
  then have inv: "saved_inv ((h, b), plan)" by blast
  with effects_same.hyps(2) show ?case by (simp add: saved_inv_def same_text_def)
next
  case (effects_splice w w' w'' off old ins)
  obtain h b h' b' where w: "w' = (h, b)" "w'' = (h', b')" by (metis prod.collapse)
  have ok: "session_ok ((h, b), plan)" using session_ok_effects [OF effects_splice.prems(1) effects_splice.hyps(1)] w by simp
  have inv: "saved_inv ((h, b), plan)" using effects_splice w by simp
  have s: "spliced (h, b) (h', b') off old ins" using effects_splice.hyps(2) w by simp
  have "st_content h' (planSnapshot pl) = st_content h (planSnapshot pl)" if "plan = Some pl" for pl
    by (rule st_kept(2) [OF session_okD(3) [OF ok that] spliced_saved(1) [OF s]])
  moreover have "\<forall>pl. plan = Some pl \<longrightarrow> savingSnapshotBytes b = length (st_content h (planSnapshot pl))"
    using inv by (simp add: saved_inv_def)
  ultimately show ?case
    using spliced_saved(2-4) [OF s] session_okD(2) [OF ok] unfolding w saved_inv_def by auto
next
  case (effects_swap w w' w'' t new)
  obtain h b h' b' where w: "w' = (h, b)" "w'' = (h', b')" by (metis prod.collapse)
  have "saved_inv ((h, b), plan)" "plan = None" "swapped (h, b) (h', b') t new" using effects_swap w by simp_all
  then show ?case using w by (auto simp: swapped_def saved_inv_def)
next
  case (effects_replace w w' w'')
  then show ?case by (cases w'; cases w'') (simp add: replaced_def saved_inv_def)
qed

lemma saved_inv_step:
  assumes ok: "session_ok s" and inv: "saved_inv s" and c: "calm c s" and s': "command_step brk fs c s = Some s'"
  shows "saved_inv s'"
proof -
  obtain h b plan where s: "s = ((h, b), plan)" by (metis prod.collapse)
  have b: "buffer_ok h b" using ok s by (simp add: session_okD)
  have allowed: "allowed c ((h, b), plan)" "exchanges c \<Longrightarrow> plan = None"
    using c ok s session_okD(2) [of h b plan] by (simp_all add: calm_def)
  show ?thesis
  proof (cases "saves c")
    case False
    then obtain w' where "s' = (w', plan)" "effects (exchanges c) (h, b) w'"
      using command_effects [OF b allowed(1), of brk fs] s s' by auto
    then show ?thesis using saved_inv_effects [OF _ ok [unfolded s]] inv s allowed(2) by blast
  next
    case True
    then show ?thesis
    proof (cases c)
      case (BeginSave path nl trim ending)
      then show ?thesis
        using begin_save_result [OF b, of fs path nl trim ending] inv s s' by (auto simp: saved_inv_def)
    next
      case (FinishSave path)
      then show ?thesis
        using inv s s' by (auto simp: saved_inv_def finish_save_fields split: option.splits)
    next
      case AbandonSave
      then show ?thesis
        using inv s s' by (auto simp: saved_inv_def abandon_save_def split: option.splits)
    qed (simp_all add: saves_def)
  qed
qed

lemma saved_inv_run:
  "session_ok s \<Longrightarrow> saved_inv s \<Longrightarrow> all_steps calm brk fs cs s \<Longrightarrow>
    \<exists>s'. run_commands brk fs cs s = Some s' \<and> session_ok s' \<and> saved_inv s'"
proof (induction cs arbitrary: s)
  case (Cons c cs)
  then obtain s1 where "command_step brk fs c s = Some s1" "session_ok s1"
    using session_step [of s c brk fs] by (auto simp: calm_def)
  with Cons saved_inv_step [of s c brk fs s1] show ?case by simp
qed simp

section \<open>The journal\<close>

text \<open>Running a list of journal operations, each with the bytes it put in.\<close>

fun replay :: "(edit_op \<times> bytes) list \<Rightarrow> bytes \<Rightarrow> bytes option" where
  "replay [] t = Some t"
| "replay ((op, ins) # es) t = (if op_applies op ins t then replay es (op_result op ins t) else None)"

lemma replay_append: "replay (xs @ ys) t = replay xs t \<bind> replay ys"
  by (induction xs arbitrary: t) auto

definition journaled :: "world \<Rightarrow> world \<Rightarrow> edit_op list \<Rightarrow> bytes list \<Rightarrow> bool" where
  "journaled w w' ops inss \<longleftrightarrow> (let (h, b) = w; (h', b') = w' in
     length inss = length ops \<and> record_all (editJournal b) ops = Some (editJournal b') \<and>
     map generation ops = [contentGeneration b + 1..<contentGeneration b' + 1] \<and>
     contentGeneration b \<le> contentGeneration b' \<and>
     (list_all (Not \<circ> barrier) ops \<longrightarrow> replay (zip ops inss) (content h b) = Some (content h' b')))"

lemma upt_joined: "i \<le> j \<Longrightarrow> j \<le> k \<Longrightarrow> [i..<j] @ [j..<k] = [i..<k]"
  by (metis le_add_diff_inverse upt_add_eq_append)

lemma journaled_trans:
  assumes "journaled w w' ops inss" "journaled w' w'' ops' inss'"
  shows "journaled w w'' (ops @ ops') (inss @ inss')"
proof -
  obtain h b h' b' h'' b'' where w: "w = (h, b)" "w' = (h', b')" "w'' = (h'', b'')" by (metis prod.collapse)
  note j = assms [unfolded w journaled_def Let_def prod.case]
  have "map generation (ops @ ops') = [contentGeneration b + 1..<contentGeneration b'' + 1]"
    using j upt_joined [of "contentGeneration b + 1" "contentGeneration b' + 1" "contentGeneration b'' + 1"]
    unfolding map_append by (metis add_le_mono1)
  moreover have "replay (zip (ops @ ops') (inss @ inss')) (content h b) = Some (content h'' b'')"
    if "list_all (Not \<circ> barrier) (ops @ ops')"
    using j that by (simp add: replay_append)
  moreover have "record_all (editJournal b) (ops @ ops') = Some (editJournal b'')"
    using j by (simp add: record_all_append)
  ultimately show ?thesis using j unfolding w journaled_def Let_def prod.case by simp
qed

lemma journaled_op:
  assumes "off + old \<le> length (content h b)"
    "content h' b' = take off (content h b) @ ins @ drop (off + old) (content h b)"
    "contentGeneration b' = contentGeneration b + 1"
    "journal_record (editJournal b) (op_replaced (contentGeneration b + 1) off old (length ins)) = Some (editJournal b')"
  shows "journaled (h, b) (h', b') [op_replaced (contentGeneration b + 1) off old (length ins)] [ins]"
  using assms by (simp add: journaled_def op_replaced_def op_applies_def op_result_def)

lemma effects_journaled: "effects nav w w' \<Longrightarrow> \<exists>ops inss. journaled w w' ops inss"
proof (induction rule: effects.induct)
  case (effects_refl w)
  then show ?case by (intro exI [of _ "[]"]) (simp add: journaled_def split: prod.splits)
next
  case (effects_same w h b b')
  then have "journaled (h, b) (h, b') [] []" by (simp add: journaled_def same_text_def)
  then show ?case using effects_same.IH journaled_trans by blast
next
  case (effects_splice w w' w'' off old ins)
  obtain h b h' b' where w: "w' = (h, b)" "w'' = (h', b')" by (metis prod.collapse)
  have "journaled w' w'' [op_replaced (contentGeneration b + 1) off old (length ins)] [ins]"
    using effects_splice.hyps(2) unfolding w by (intro journaled_op) (simp_all add: spliced_def)
  then show ?case using effects_splice.IH journaled_trans by blast
next
  case (effects_swap w w' w'' t new)
  obtain h b h' b' where w: "w' = (h, b)" "w'' = (h', b')" by (metis prod.collapse)
  then obtain off old ins where "off + old \<le> length (content h b)"
    "content h' b' = take off (content h b) @ ins @ drop (off + old) (content h b)"
    "contentGeneration b' = contentGeneration b + 1"
    "journal_record (editJournal b) (op_replaced (contentGeneration b + 1) off old (length ins)) = Some (editJournal b')"
    using effects_swap.hyps(3) by (auto simp: swapped_def)
  then show ?case using effects_swap.IH journaled_trans journaled_op w by blast
next
  case (effects_replace w w' w'')
  obtain h b h' b' where w: "w' = (h, b)" "w'' = (h', b')" by (metis prod.collapse)
  have "journaled w' w'' [op_barrier (contentGeneration b + 1)] [[]]"
    using effects_replace.hyps(3) unfolding w by (simp add: replaced_def journaled_def op_barrier_def)
  then show ?case using effects_replace.IH journaled_trans by blast
qed

lemma quiet_journaled:
  assumes "editJournal b' = editJournal b" "contentGeneration b' = contentGeneration b" "content h' b' = content h b"
  shows "journaled (h, b) (h', b') [] []"
  using assms by (simp add: journaled_def)

lemma step_journaled:
  assumes ok: "session_ok s" and c: "allowed c s" and s': "command_step brk fs c s = Some s'"
  shows "\<exists>ops inss. journaled (fst s) (fst s') ops inss"
proof -
  obtain h b plan where s: "s = ((h, b), plan)" by (metis prod.collapse)
  have b: "buffer_ok h b" using ok s by (simp add: session_okD)
  show ?thesis
  proof (cases "saves c")
    case False
    then obtain w' where "s' = (w', plan)" "effects (exchanges c) (h, b) w'"
      using command_effects [OF b, of c plan brk fs] s s' c by auto
    then show ?thesis using effects_journaled s by simp
  next
    case True
    then have "journaled (h, b) (fst s') [] []"
    proof (cases c)
      case (BeginSave path nl trim ending)
      then show ?thesis
        using begin_save_result [OF b, of fs path nl trim ending] s s' by (auto intro!: quiet_journaled)
    next
      case (FinishSave path)
      then show ?thesis
        using s s' by (auto simp: finish_save_fields intro!: quiet_journaled split: option.splits)
    next
      case AbandonSave
      then show ?thesis
        using s s' by (auto simp: abandon_save_def intro!: quiet_journaled split: option.splits)
    qed (simp_all add: saves_def)
    then show ?thesis using s by auto
  qed
qed

lemma run_journaled:
  "session_ok s \<Longrightarrow> all_steps allowed brk fs cs s \<Longrightarrow> run_commands brk fs cs s = Some s' \<Longrightarrow>
    \<exists>ops inss. journaled (fst s) (fst s') ops inss"
proof (induction cs arbitrary: s)
  case Nil
  then have "journaled (fst s) (fst s') [] []" by (cases "fst s") (auto intro!: quiet_journaled)
  then show ?case by blast
next
  case (Cons c cs)
  then obtain s1 where s1: "command_step brk fs c s = Some s1" "session_ok s1" using session_step [of s c brk fs] by auto
  moreover obtain ops inss where "journaled (fst s1) (fst s') ops inss" using Cons s1 by fastforce
  moreover obtain ops' inss' where "journaled (fst s) (fst s1) ops' inss'"
    using step_journaled [OF Cons.prems(1) _ s1(1)] Cons.prems(2) by auto
  ultimately show ?case using journaled_trans by blast
qed

section \<open>The properties\<close>

lemma all_steps_static: "(\<And>c s. c \<in> set cs \<Longrightarrow> P c s) \<Longrightarrow> all_steps P brk fs cs s"
  by (induction cs arbitrary: s) (auto split: option.split)

lemma all_steps_mono: "(\<And>c s. P c s \<Longrightarrow> Q c s) \<Longrightarrow> all_steps P brk fs cs s \<Longrightarrow> all_steps Q brk fs cs s"
  by (induction cs arbitrary: s) (auto split: option.splits)

lemma all_steps_append:
  "all_steps P brk fs (cs @ ds) s \<Longrightarrow> run_commands brk fs cs s = Some s' \<Longrightarrow>
    all_steps P brk fs cs s \<and> all_steps P brk fs ds s'"
  by (induction cs arbitrary: s) (auto split: bind_splits)

text \<open>A file system with nothing in it and room for everything.\<close>

definition empty_disk :: file_system where
  "empty_disk = \<lparr>fsHead = (\<lambda>_. None), fsRead = (\<lambda>_. Inl []), fsWriteTime = (\<lambda>_. None), fsSize = (\<lambda>_. None),
     fsTarget = (\<lambda>p. p), fsSpace = (\<lambda>_ _. None), fsStore = (\<lambda>_ _. None), fsHuge = (\<lambda>_. Inl []),
     fsCharset = None, hugeThreshold = 1024\<rparr>"

abbreviation opened :: "bytes \<Rightarrow> rope \<Rightarrow> session" where
  "opened nm r \<equiv> (([], new_buffer nm r), None)"

lemma new_saved_inv: "saved_inv (opened nm r)"
  by (simp add: saved_inv_def new_buffer_def)

text \<open>
  C1: in a session that starts on a rope-backed buffer, no sequence of commands faults, whatever
  the grapheme rule and the file system answer, as long as every text inserted or restored can be
  cut into chunks (it has no \<open>kChunkSize\<close> continuation bytes in a row; the code hangs on some texts
  that do, as \<open>malformed_text_stalls\<close> in \<open>Rope\<close> shows), a reverted file comes in a well-formed rope,
  and fold markers are set inside the text.  Afterwards point, mark, every cursor, the narrowing and
  the folds are inside the text, the unsaved ranges are sorted, apart and not empty, and the undo
  history is well formed.
\<close>

theorem session_never_faults:
  assumes "rope_wf r" "all_steps allowed brk fs cs (opened nm r)"
  shows "\<exists>h b plan. run_commands brk fs cs (opened nm r) = Some ((h, b), plan) \<and>
    tracked_ok (length (buf_text h b)) b \<and> undo_inv (undoTree b)"
proof -
  obtain h b plan where "run_commands brk fs cs (opened nm r) = Some ((h, b), plan)" "buffer_ok h b"
    using session_run [OF new_session_ok [OF assms(1)] assms(2)] session_okD(1) by (metis prod.collapse)
  then show ?thesis
    using buffer_okD(3,5) [of h b] st_reads [OF buffer_okD(1)] by (auto simp: buf_text_def history_ok_def)
qed

theorem session_never_faults_witness:
  "\<exists>h b plan. run_commands (\<lambda>_ _ s. (True, s)) empty_disk
      [Edit (InsertAtPoint ''ab''), AddCursorAt 1 None, EditEachCursor DeleteBackwardAtPoint, Undo, Redo]
      (opened [] None) = Some ((h, b), plan) \<and>
    tracked_ok (length (buf_text h b)) b \<and> undo_inv (undoTree b)"
  by (rule session_never_faults)
    (simp, rule all_steps_static, auto simp: short_text_chunkable kChunkSize_def)



lemma journaled_of_new:
  assumes "journaled ([], new_buffer nm r) (h, b) ops inss"
  shows "editJournal b = journal_of ops" "map generation ops = [1..<contentGeneration b + 1]"
proof -
  have "record_all empty_journal ops = Some (editJournal b)" and
    gens: "map generation ops = [1..<contentGeneration b + 1]"
    using assms by (simp_all add: journaled_def new_buffer_def)
  moreover have "sorted_wrt (<) (map generation ops)" unfolding gens by (rule sorted_wrt_upt)
  ultimately show "editJournal b = journal_of ops" using record_all_of [of ops] by simp
  show "map generation ops = [1..<contentGeneration b + 1]" by (rule gens)
qed

lemma filter_later:
  assumes "map generation ops = [a + 1..<c + 1]" "g \<le> a"
  shows "filter (\<lambda>op. g < generation op) ops = ops"
proof -
  have "g < generation op" if "op \<in> set ops" for op
  proof -
    have "generation op \<in> set [a + 1..<c + 1]" using that by (metis assms(1) imageI list.set_map)
    with assms(2) show ?thesis by (simp only: set_upt atLeastLessThan_iff) linarith
  qed
  then show ?thesis by (simp add: filter_id_conv)
qed

lemma filter_earlier:
  assumes "map generation ops = [a + 1..<c + 1]" "c \<le> g"
  shows "filter (\<lambda>op. g < generation op) ops = []"
proof -
  have "\<not> g < generation op" if "op \<in> set ops" for op
  proof -
    have "generation op \<in> set [a + 1..<c + 1]" using that by (metis assms(1) imageI list.set_map)
    with assms(2) show ?thesis by (simp only: set_upt atLeastLessThan_iff) linarith
  qed
  then show ?thesis by (simp add: filter_empty_conv)
qed

text \<open>
  C3: the journal is an exact account.  Whoever looked at the text at one moment of a session
  and asks at a later one what happened since is given, unless more than \<open>kCapacity\<close> operations
  have passed, one operation per generation; if none of them is a barrier, they lead from the
  text seen then to the text there is now, whatever commands, undos and redos were run.
\<close>

theorem journal_accounts_for_text:
  assumes "rope_wf r" "all_steps allowed brk fs (cs @ ds) (opened nm r)"
    and "run_commands brk fs cs (opened nm r) = Some ((h, b), plan)"
    and "run_commands brk fs ds ((h, b), plan) = Some ((h', b'), plan')"
  shows "if contentGeneration b' - contentGeneration b \<le> kCapacity
    then \<exists>ops inss. ops_since (editJournal b') (contentGeneration b) = Some ops \<and> length inss = length ops \<and>
      map generation ops = [contentGeneration b + 1..<contentGeneration b' + 1] \<and>
      (list_ex barrier ops \<or> replay (zip ops inss) (buf_text h b) = Some (buf_text h' b'))
    else ops_since (editJournal b') (contentGeneration b) = None"
proof -
  note steps = all_steps_append [OF assms(2,3)]
  have new: "session_ok (opened nm r)" by (rule new_session_ok [OF assms(1)])
  have ok: "session_ok ((h, b), plan)" "session_ok ((h', b'), plan')"
    using session_run [OF new conjunct1 [OF steps]] assms(3) session_run [OF _ conjunct2 [OF steps]] assms(4) by simp_all
  obtain ops1 inss1 where j1: "journaled ([], new_buffer nm r) (h, b) ops1 inss1"
    using run_journaled [OF new conjunct1 [OF steps] assms(3)] by auto
  obtain ops inss where j2: "journaled (h, b) (h', b') ops inss"
    using run_journaled [OF ok(1) conjunct2 [OF steps] assms(4)] by auto
  note all = journaled_of_new [OF journaled_trans [OF j1 j2]]
  have gens: "map generation ops = [contentGeneration b + 1..<contentGeneration b' + 1]"
    "map generation ops1 = [0 + 1..<contentGeneration b + 1]"
    using j2 journaled_of_new(2) [OF j1] by (simp_all add: journaled_def)
  have missed: "filter (\<lambda>op. contentGeneration b < generation op) (ops1 @ ops) = ops"
    using filter_later [OF gens(1) order_refl] filter_earlier [OF gens(2) order_refl] by simp
  have "sorted_wrt (<) (map generation (ops1 @ ops))" unfolding all(2) by (rule sorted_wrt_upt)
  then have since: "ops_since (editJournal b') (contentGeneration b) = (if length ops \<le> kCapacity then Some ops else None)"
    using ops_since_journal_of [of "ops1 @ ops" "contentGeneration b"] unfolding missed all(1) by blast
  have len: "length ops = contentGeneration b' - contentGeneration b"
    using arg_cong [OF gens(1), of length] by (simp only: length_map length_upt)
  have reads: "buf_text h b = content h b" "buf_text h' b' = content h' b'"
    using st_reads buffer_okD(1) session_okD(1) ok by (simp_all add: buf_text_def)
  have "list_ex barrier ops \<or> replay (zip ops inss) (content h b) = Some (content h' b')" "length inss = length ops"
    using j2 by (auto simp: journaled_def list_ex_iff list_all_iff)
  then show ?thesis using since len gens(1) reads by auto
qed

theorem journal_accounts_for_text_witness:
  defines "fs \<equiv> empty_disk" and "brk \<equiv> \<lambda>_ _ s. (True, s)"
  shows "\<exists>h b plan h' b' plan'.
    run_commands brk fs [Edit (InsertAtPoint ''ab'')] (opened [] None) = Some ((h, b), plan) \<and>
    run_commands brk fs [Undo, Edit (InsertAt 1 ''c'')] ((h, b), plan) = Some ((h', b'), plan') \<and>
    (contentGeneration b' - contentGeneration b \<le> kCapacity \<or> ops_since (editJournal b') (contentGeneration b) = None)"
proof -
  let ?cs = "[Edit (InsertAtPoint ''ab'')]" and ?ds = "[Undo, Edit (InsertAt 1 ''c'')]"
  have all: "all_steps allowed brk fs (?cs @ ?ds) (opened [] None)"
    by (rule all_steps_static) (auto simp: short_text_chunkable kChunkSize_def)
  obtain h' b' plan' where r': "run_commands brk fs (?cs @ ?ds) (opened [] None) = Some ((h', b'), plan')"
    using session_run [OF new_session_ok [of None] all] by fastforce
  then obtain h b plan where r: "run_commands brk fs ?cs (opened [] None) = Some ((h, b), plan)"
    "run_commands brk fs ?ds ((h, b), plan) = Some ((h', b'), plan')"
    unfolding run_commands_append by (auto split: bind_splits)
  show ?thesis using journal_accounts_for_text [OF _ all r] r by (auto split: if_splits)
qed

end
