(* ===== verification/BufferGroups.thy ===== *)
theory BufferGroups
  imports BufferSafety
begin

text \<open>
  Two promises of the buffer that rest on its edits alone: a group of edits is one step of the
  undo history, and the text around the editable excerpts of a multibuffer is never touched.
\<close>

section \<open>A group is one undo step\<close>

lemma edits_in_group:
  assumes "edits w w'" "0 < undoGroupDepth (snd w)"
  shows "undoTree (snd w') = undoTree (snd w)" "undoGroupDepth (snd w') = undoGroupDepth (snd w)"
    "undoGroupDirty (snd w') \<or> content (fst w') (snd w') = content (fst w) (snd w)"
  using assms
proof (induction rule: edits.induct)
  case (edits_splice w w' w'' off old ins)
  {
    case 1
    with edits_splice show ?case by (auto simp: spliced_def split: prod.splits)
  next
    case 2
    with edits_splice show ?case by (auto simp: spliced_def split: prod.splits)
  next
    case 3
    with edits_splice show ?case by (auto simp: spliced_def split: prod.splits)
  }
qed (simp_all add: quiet_def)

text \<open>\<open>b1\<close> is the buffer at the end of the group, \<open>b0\<close> at its start.\<close>

lemma group_closed:
  assumes ok: "buffer_ok h b" and depth: "undoGroupDepth b = 0"
    and start: "undoTree b0 = undoTree b" "undoGroupDepth b0 = 1" "bufStorage b0 = bufStorage b"
    and edits: "edits (h, b0) (h1, b1)" and ok1: "buffer_ok h1 b1" "heap_le h h1"
    and final: "undoTree b2 = undoTree b1" "undoGroupDepth b2 = undoGroupDepth b1" "undoGroupDirty b2 = undoGroupDirty b1"
      "bufStorage b2 = bufStorage b1"
  shows "content h1 (end_undo_group b2) = content h1 b1"
    "content h1 b1 \<noteq> content h b \<Longrightarrow> undoTree (end_undo_group b2) = undo_record (undoTree b) (bufStorage b1)"
proof -
  note g = edits_in_group [OF edits, simplified, unfolded start, simplified]
  show "content h1 (end_undo_group b2) = content h1 b1"
    by (simp add: end_undo_group_def Let_def final record_undo_def snapshot_excerpt_range_offsets_def)
  assume "content h1 b1 \<noteq> content h b"
  then have "undoGroupDirty b1" using g(3) start(3) by simp
  then show "undoTree (end_undo_group b2) = undo_record (undoTree b) (bufStorage b1)"
    by (simp add: end_undo_group_def Let_def final g(1,2) record_undo_fields)
qed

text \<open>Undo after a record goes back, and redo comes again.\<close>

lemma undo_redo_record:
  assumes ok: "buffer_ok h b" and t: "history_ok h t" and rec: "undoTree b = undo_record t (bufStorage b)"
  shows "\<exists>b1 b2. buffer_undo brk (h, b) = Some (h, b1) \<and> buffer_redo brk (h, b1) = Some (h, b2) \<and>
    buffer_ok h b1 \<and> buffer_ok h b2 \<and>
    content h b1 = st_content h (undo_current t) \<and> content h b2 = content h b"
proof -
  have inv: "undo_inv t" using t by (simp add: history_ok_def)
  note r = undo_after_record [OF inv, of "bufStorage b"]
  have can: "can_undo (undoTree b)" unfolding rec by (simp add: can_undo_def undo_record_def Let_def nth_append)
  obtain b1 where b1: "apply_undo_tree_navigation brk (bufStorage b) (h, b\<lparr>undoTree := undo_undo (undoTree b)\<rparr>) = Some (h, b1)"
    "swapped (h, b) (h, b1) (undo_undo (undoTree b)) (st_content h (undo_current t))"
    using navigation_swapped [OF ok history_moves(1) [OF buffer_okD(3) [OF ok]], of brk] r(4) rec by auto
  have ok1: "buffer_ok h b1" "undoTree b1 = undo_undo (undoTree b)" "content h b1 = st_content h (undo_current t)"
    using b1(2) by (simp_all add: swapped_def)
  have redo: "undo_redo (undoTree b1) = Some (undoTree b)" using ok1(2) r(2) rec by simp
  have can_redo: "can_redo (undoTree b1)"
    using inv unfolding ok1(2) rec r(1)
    by (simp add: can_redo_def undo_record_def Let_def nth_append undo_inv_def)
  obtain b2 where b2: "apply_undo_tree_navigation brk (bufStorage b1) (h, b1\<lparr>undoTree := undoTree b\<rparr>) = Some (h, b2)"
    "swapped (h, b1) (h, b2) (undoTree b) (st_content h (undo_current (undoTree b)))"
    using navigation_swapped [OF ok1(1) buffer_okD(3) [OF ok], of brk] by blast
  have "content h b2 = content h b" "buffer_ok h b2" using b2(2) r(3) rec by (simp_all add: swapped_def)
  then show ?thesis
    using b1(1) b2(1) ok1 can can_redo redo by (simp add: buffer_undo_def buffer_redo_def)
qed

lemma run_primitives:
  assumes "buffer_ok h b" "list_all primitive_ok ps"
  shows "\<exists>h' b'. run_commands brk fs (map Edit ps) ((h, b), plan) = Some ((h', b'), plan) \<and> edits (h, b) (h', b')"
  using assms
proof (induction ps arbitrary: h b)
  case Nil
  then show ?case by (simp add: edits_refl)
next
  case (Cons p ps)
  obtain r h1 b1 where 1: "primitive_step brk p (h, b) = Some (r, h1, b1)" "edits (h, b) (h1, b1)"
    using primitive_edits [of h b p brk] Cons.prems by auto
  have "buffer_ok h1 b1" using edits_ok [OF 1(2)] Cons.prems(1) by simp
  then obtain h' b' where "run_commands brk fs (map Edit ps) ((h1, b1), plan) = Some ((h', b'), plan)" "edits (h1, b1) (h', b')"
    using Cons.IH Cons.prems(2) by fastforce
  then show ?case using 1 edits_trans by fastforce
qed

lemma begun:
  assumes "buffer_ok h b"
  shows "buffer_ok h (begin_undo_group b)" "undoTree (begin_undo_group b) = undoTree b"
    "undoGroupDepth (begin_undo_group b) = undoGroupDepth b + 1" "bufStorage (begin_undo_group b) = bufStorage b"
  using begin_undo_group_same [OF assms] by (simp_all add: begin_undo_group_def)

text \<open>Both kinds of group, as edits and their closing.\<close>

lemma group_run:
  assumes ok: "buffer_ok h b" and depth: "undoGroupDepth b = 0" and ps: "list_all primitive_ok ps"
    and gs: "gs = BeginUndoGroup # map Edit ps @ [EndUndoGroup] \<or> (\<exists>p. gs = [EditEachCursor p] \<and> ps = [p])"
  shows "\<exists>h' b1 b'. run_commands brk fs gs ((h, b), plan) = Some ((h', b'), plan) \<and> buffer_ok h' b' \<and> heap_le h h' \<and>
    content h' b' = content h' b1 \<and> bufStorage b' = bufStorage b1 \<and>
    (content h' b1 \<noteq> content h b \<longrightarrow> undoTree b' = undo_record (undoTree b) (bufStorage b1))"
proof -
  have storage: "bufStorage (end_undo_group c) = bufStorage c" for c
    by (simp add: end_undo_group_def Let_def record_undo_def snapshot_excerpt_range_offsets_def)
  from gs show ?thesis
  proof
    assume gs: "gs = BeginUndoGroup # map Edit ps @ [EndUndoGroup]"
    obtain h' b1 where 1: "run_commands brk fs (map Edit ps) ((h, begin_undo_group b), plan) = Some ((h', b1), plan)"
      "edits (h, begin_undo_group b) (h', b1)"
      using run_primitives [OF begun(1) [OF ok] ps] by blast
    have ok1: "buffer_ok h' b1" "heap_le h h'" using edits_ok [OF 1(2)] begun(1) [OF ok] by simp_all
    have "run_commands brk fs gs ((h, b), plan) = Some ((h', end_undo_group b1), plan)"
      using 1(1) by (simp add: gs run_commands_append)
    then show ?thesis
      using group_closed [OF ok depth begun(2) [OF ok] _ begun(4) [OF ok] 1(2) ok1 refl refl refl refl] begun(3) [OF ok] depth
        end_undo_group_same [OF ok1(1)] ok1(2) storage by auto
  next
    assume "\<exists>p. gs = [EditEachCursor p] \<and> ps = [p]"
    then obtain p where gs: "gs = [EditEachCursor p]" "primitive_ok p" using ps by auto
    obtain r h' b1 where 1: "for_each_cursor (primitive_step brk p) (h, b) = Some (r, h', end_iteration b1)"
      "edits (h, pass_start b) (h', b1)" using for_each_cursor_edits [OF ok gs(2)] by blast
    have ok1: "buffer_ok h' b1" "heap_le h h'" using edits_ok [OF 1(2)] pass_start_ok(1) [OF ok] by simp_all
    let ?b = "normalize_secondary_cursors (b1\<lparr>cursorIterationActive := False\<rparr>)"
    have "buffer_ok h' (b1\<lparr>cursorIterationActive := False\<rparr>)" using ok1(1) by (simp add: buffer_ok_def tracked_ok_def)
    note norm = conjunct2 [OF normalized_same [OF this]]
    have final: "undoTree ?b = undoTree b1" "undoGroupDepth ?b = undoGroupDepth b1" "undoGroupDirty ?b = undoGroupDirty b1"
      "bufStorage ?b = bufStorage b1"
      by (simp_all add: normalize_secondary_cursors_def)
    have start: "undoTree (pass_start b) = undoTree b" "undoGroupDepth (pass_start b) = 1" "bufStorage (pass_start b) = bufStorage b"
      using depth by (simp_all add: pass_start_def begin_undo_group_def)
    have "run_commands brk fs gs ((h, b), plan) = Some ((h', end_iteration b1), plan)"
      using 1(1) by (simp add: gs)
    then show ?thesis
      using group_closed [OF ok depth start 1(2) ok1 final] end_undo_group_same [OF norm] ok1(2) storage [of ?b] final(4)
      unfolding end_iteration_def by auto
  qed
qed

lemma group_undone:
  assumes "rope_wf r" "all_steps allowed brk fs cs (opened nm r)" "run_commands brk fs cs (opened nm r) = Some ((h, b), plan)"
    and depth: "undoGroupDepth b = 0" and ps: "list_all primitive_ok ps"
    and gs: "gs = BeginUndoGroup # map Edit ps @ [EndUndoGroup] \<or> (\<exists>p. gs = [EditEachCursor p] \<and> ps = [p])"
  shows "\<exists>h' b' b1 b2. run_commands brk fs gs ((h, b), plan) = Some ((h', b'), plan) \<and>
    (buf_text h' b' = buf_text h b \<or>
      run_commands brk fs [Undo] ((h', b'), plan) = Some ((h', b1), plan) \<and> buf_text h' b1 = buf_text h b \<and>
      run_commands brk fs [Redo] ((h', b1), plan) = Some ((h', b2), plan) \<and> buf_text h' b2 = buf_text h' b')"
proof -
  have ok: "buffer_ok h b"
    using session_run [OF new_session_ok [OF assms(1)] assms(2)] assms(3) session_okD(1) by simp
  obtain h' b1 b' where g: "run_commands brk fs gs ((h, b), plan) = Some ((h', b'), plan)" "buffer_ok h' b'" "heap_le h h'"
    "content h' b' = content h' b1" "bufStorage b' = bufStorage b1"
    "content h' b1 \<noteq> content h b \<longrightarrow> undoTree b' = undo_record (undoTree b) (bufStorage b1)"
    using group_run [OF ok depth ps gs] by blast
  have reads: "buf_text h b = content h b" "buf_text h' b' = content h' b'"
    using st_reads buffer_okD(1) ok g(2) by (simp_all add: buf_text_def)
  show ?thesis
  proof (cases "content h' b1 = content h b")
    case True
    then show ?thesis using g(1,4) reads by simp
  next
    case False
    have "history_ok h' (undoTree b)" using history_ok_later [OF buffer_okD(3) [OF ok] g(3)] .
    then obtain c1 c2 where c: "buffer_undo brk (h', b') = Some (h', c1)" "buffer_redo brk (h', c1) = Some (h', c2)"
      "content h' c1 = st_content h' (undo_current (undoTree b))" "content h' c2 = content h' b'"
      "buffer_ok h' c1" "buffer_ok h' c2"
      using undo_redo_record [OF g(2), of "undoTree b" brk] g(5,6) False by auto
    have "st_content h' (undo_current (undoTree b)) = content h b"
      using st_kept(2) [OF history_ok_current [OF buffer_okD(3) [OF ok]] g(3)] buffer_okD(7,8) [OF ok] depth by simp
    moreover have "buf_text h' c1 = content h' c1" "buf_text h' c2 = content h' c2"
      using st_reads buffer_okD(1) c(5,6) by (simp_all add: buf_text_def)
    ultimately show ?thesis using g(1) c reads by auto
  qed
qed

text \<open>
  C4: whatever edits run in one undo group, or in one pass over the cursors, a single undo takes
  the text back to what it was before the group, and a redo brings the edited text again.
\<close>

theorem group_is_one_undo_step:
  assumes "rope_wf r" "all_steps allowed brk fs cs (opened nm r)" "run_commands brk fs cs (opened nm r) = Some ((h, b), plan)"
    and depth: "undoGroupDepth b = 0" and ps: "list_all primitive_ok ps"
    and gs: "gs = BeginUndoGroup # map Edit ps @ [EndUndoGroup] \<or> (\<exists>p. gs = [EditEachCursor p] \<and> ps = [p])"
  shows "\<exists>h' b' b1 b2. run_commands brk fs gs ((h, b), plan) = Some ((h', b'), plan) \<and>
    (buf_text h' b' = buf_text h b \<or>
      run_commands brk fs [Undo] ((h', b'), plan) = Some ((h', b1), plan) \<and> buf_text h' b1 = buf_text h b \<and>
      run_commands brk fs [Redo] ((h', b1), plan) = Some ((h', b2), plan) \<and> buf_text h' b2 = buf_text h' b')"
  by (rule group_undone [OF assms])

theorem group_is_one_undo_step_witness:
  defines "fs \<equiv> empty_disk" and "brk \<equiv> \<lambda>_ _ s. (True, s)"
  shows "\<exists>h' b' b1 b2.
    run_commands brk fs [BeginUndoGroup, Edit (InsertAtPoint ''ab''), Edit (InsertAt 0 ''c''), EndUndoGroup] (opened [] None) =
      Some ((h', b'), None) \<and>
    (buf_text h' b' = buf_text [] (new_buffer [] None) \<or>
      run_commands brk fs [Undo] ((h', b'), None) = Some ((h', b1), None) \<and>
      buf_text h' b1 = buf_text [] (new_buffer [] None) \<and>
      run_commands brk fs [Redo] ((h', b1), None) = Some ((h', b2), None) \<and> buf_text h' b2 = buf_text h' b')"
  using group_is_one_undo_step [of None brk fs "[]" "[]" "[]" "new_buffer [] None" None
      "[InsertAtPoint ''ab'', InsertAt 0 ''c'']"
      "[BeginUndoGroup, Edit (InsertAtPoint ''ab''), Edit (InsertAt 0 ''c''), EndUndoGroup]"]
  by (simp add: short_text_chunkable kChunkSize_def new_buffer_def)

section \<open>The text around the excerpts\<close>

text \<open>The bounds of the editable excerpts, and the bytes between them.\<close>

definition excerpt_bounds :: "buffer \<Rightarrow> byte_range list" where
  "excerpt_bounds b = map (\<lambda>r. (excerptStart r, excerptEnd r)) (filter editable (excerptRanges b))"

fun fixed_parts :: "nat \<Rightarrow> byte_range list \<Rightarrow> bytes \<Rightarrow> bytes list" where
  "fixed_parts from [] t = [drop from t]"
| "fixed_parts from ((s, e) # rs) t = substr t from (s - from) # fixed_parts e rs t"

definition spaced :: "nat \<Rightarrow> byte_range list \<Rightarrow> bool" where
  "spaced len rs \<longleftrightarrow> (\<forall>(s, e) \<in> set rs. s \<le> e \<and> e \<le> len) \<and> sorted_wrt (\<lambda>a b. snd a < fst b) rs"

text \<open>How a splice inside \<open>[s, e]\<close> moves the bounds: those before stay, those after shift.\<close>

definition move_bounds :: "offset \<Rightarrow> nat \<Rightarrow> nat \<Rightarrow> byte_range \<Rightarrow> byte_range" where
  "move_bounds off old n r =
     (if snd r < off then r
      else if fst r \<le> off \<and> off + old \<le> snd r then (fst r, snd r - old + n)
      else (fst r - old + n, snd r - old + n))"

lemma fixed_parts_shift:
  assumes "off + old \<le> from" "from \<le> length t" "spaced (length t) rs" "\<forall>r \<in> set rs. from < fst r"
  shows "fixed_parts (from - old + length ins) (map (move_bounds off old (length ins)) rs)
      (take off t @ ins @ drop (off + old) t) = fixed_parts from rs t"
proof -
  have tail: "drop (q - old + length ins) (take off t @ ins @ drop (off + old) t) = drop q t"
    if "off + old \<le> q" "q \<le> length t" for q
    using that by (simp add: min_absorb2 add.commute)
  show ?thesis
    using assms
  proof (induction rs arbitrary: "from")
    case Nil
    then show ?case using tail by simp
  next
    case (Cons r rs)
    obtain s e where r: "r = (s, e)" by fastforce
    have b: "from < s" "s \<le> e" "e \<le> length t" "\<forall>q \<in> set rs. e < fst q" "spaced (length t) rs"
      using Cons.prems r by (auto simp: spaced_def)
    have mv: "move_bounds off old (length ins) r = (s - old + length ins, e - old + length ins)"
      using b Cons.prems(1) r by (simp add: move_bounds_def)
    have "fixed_parts (e - old + length ins) (map (move_bounds off old (length ins)) rs)
        (take off t @ ins @ drop (off + old) t) = fixed_parts e rs t"
      using Cons.IH [of e] Cons.prems(1) b by simp
    then show ?case
      using mv r tail [OF Cons.prems(1,2)] b(1) Cons.prems(1) by (simp add: substr_def)
  qed
qed

lemma fixed_parts_splice:
  assumes "from \<le> off" "spaced (length t) rs" "\<forall>r \<in> set rs. from \<le> fst r"
    "\<exists>(s, e) \<in> set rs. s \<le> off \<and> off + old \<le> e"
  shows "fixed_parts from (map (move_bounds off old (length ins)) rs) (take off t @ ins @ drop (off + old) t) =
    fixed_parts from rs t"
  using assms
proof (induction rs arbitrary: "from")
  case (Cons r rs)
  obtain s e where r: "r = (s, e)" by fastforce
  have b: "from \<le> s" "s \<le> e" "e \<le> length t" "\<forall>q \<in> set rs. e < fst q" "spaced (length t) rs"
    using Cons.prems r by (auto simp: spaced_def)
  have head: "substr (take off t @ ins @ drop (off + old) t) from (s - from) = substr t from (s - from)" if "s \<le> off"
    using that b by (simp add: substr_def drop_take min_def)
  show ?case
  proof (cases "s \<le> off \<and> off + old \<le> e")
    case True
    then have "fixed_parts (e - old + length ins) (map (move_bounds off old (length ins)) rs)
        (take off t @ ins @ drop (off + old) t) = fixed_parts e rs t"
      using b by (intro fixed_parts_shift) auto
    moreover have "move_bounds off old (length ins) r = (s, e - old + length ins)"
      using True r b(2) by (auto simp: move_bounds_def)
    ultimately show ?thesis using True r head by simp
  next
    case False
    then obtain s' e' where q: "(s', e') \<in> set rs" "s' \<le> off" "off + old \<le> e'" using Cons.prems(4) r by auto
    then have "e < off" using b(4) by fastforce
    then have "fixed_parts e (map (move_bounds off old (length ins)) rs) (take off t @ ins @ drop (off + old) t) =
        fixed_parts e rs t"
      using Cons.IH [of e] b q by (fastforce simp: less_imp_le)
    moreover have "move_bounds off old (length ins) r = (s, e)" using r \<open>e < off\<close> by (simp add: move_bounds_def)
    ultimately show ?thesis using r head \<open>e < off\<close> b(2) by simp
  qed
qed simp

lemma spaced_splice:
  assumes "spaced len rs" "\<exists>(s, e) \<in> set rs. s \<le> off \<and> off + old \<le> e"
  shows "spaced (len - old + n) (map (move_bounds off old n) rs)"
proof -
  obtain k s e where k: "k < length rs" "rs ! k = (s, e)" "s \<le> off" "off + old \<le> e"
    using assms(2) by (auto simp: in_set_conv_nth)
  have sorted: "snd (rs ! i) < fst (rs ! j)" if "i < j" "j < length rs" for i j
    using assms(1) that by (simp add: spaced_def sorted_wrt_iff_nth_less)
  have range: "fst (rs ! i) \<le> snd (rs ! i)" "snd (rs ! i) \<le> len" if "i < length rs" for i
    using assms(1) nth_mem [OF that] by (cases "rs ! i"; force simp: spaced_def)+
  have place: "if i < k then snd (rs ! i) < off else if i = k then rs ! i = (s, e) else off + old < fst (rs ! i)"
    if "i < length rs" for i
    using sorted [of i k] sorted [of k i] that k by (auto simp: not_less_iff_gr_or_eq)
  have moved: "move_bounds off old n (rs ! i) = (if i < k then rs ! i else if i = k then (s, e - old + n)
      else (fst (rs ! i) - old + n, snd (rs ! i) - old + n))" if "i < length rs" for i
    using place [OF that] range [OF that] k(3,4) by (auto simp: move_bounds_def)
  have "fst (move_bounds off old n (rs ! i)) \<le> snd (move_bounds off old n (rs ! i)) \<and>
      snd (move_bounds off old n (rs ! i)) \<le> len - old + n" if i: "i < length rs" for i
    using moved [OF i] place [OF i] range [OF i] range(2) [OF k(1)] k by (auto split: if_splits)
  moreover have "snd (move_bounds off old n (rs ! i)) < fst (move_bounds off old n (rs ! j))"
    if "i < j" "j < length rs" for i j
    using moved [of i] moved [of j] place [of i] place [of j] sorted [OF that] range [of i] range [of j] that k
    by (auto split: if_splits)
  ultimately show ?thesis
    by (auto simp: spaced_def sorted_wrt_iff_nth_less in_set_conv_nth split: prod.splits) (metis fst_conv snd_conv)+
qed

lemma spaced_place:
  assumes "spaced len rs" "\<exists>(s, e) \<in> set rs. s \<le> off \<and> off + old \<le> e" "r \<in> set rs"
  shows "snd r < off \<or> fst r \<le> off \<and> off + old \<le> snd r \<or> off + old < fst r"
proof -
  obtain c where c: "c \<in> set rs" "fst c \<le> off" "off + old \<le> snd c" using assms(2) by auto
  have "r = c \<or> snd r < fst c \<or> snd c < fst r"
    using assms(1,3) c(1) by (induction rs) (auto simp: spaced_def)
  with c show ?thesis by auto
qed

lemma relocate_excerpt_bounds:
  assumes "0 < n \<longrightarrow> old = 0" "excerptStart r \<le> excerptEnd r"
    "excerptEnd r < off \<or> excerptStart r \<le> off \<and> off + old \<le> excerptEnd r \<or> off + old < excerptStart r"
  shows "(excerptStart (relocate_excerpt off old n r), excerptEnd (relocate_excerpt off old n r)) =
    move_bounds off old n (excerptStart r, excerptEnd r)"
  using assms
  by (auto simp: relocate_excerpt_def relocate_excerpt_for_insert_def relocate_for_delete_def move_bounds_def Let_def)

lemma editable_relocate: "editable (relocate_excerpt off old n r) = editable r"
  by (simp add: relocate_excerpt_def relocate_excerpt_for_insert_def Let_def)

lemma excerpt_bounds_spliced:
  assumes "excerptRanges b' = map (relocate_excerpt off old n) (excerptRanges b)" "0 < n \<longrightarrow> old = 0"
    "spaced len (excerpt_bounds b)" "\<exists>(s, e) \<in> set (excerpt_bounds b). s \<le> off \<and> off + old \<le> e"
  shows "excerpt_bounds b' = map (move_bounds off old n) (excerpt_bounds b)"
proof -
  have "(excerptStart (relocate_excerpt off old n r), excerptEnd (relocate_excerpt off old n r)) =
      move_bounds off old n (excerptStart r, excerptEnd r)" if "r \<in> set (filter editable (excerptRanges b))" for r
  proof (rule relocate_excerpt_bounds [OF assms(2)])
    have r: "(excerptStart r, excerptEnd r) \<in> set (excerpt_bounds b)" using that by (auto simp: excerpt_bounds_def)
    show "excerptStart r \<le> excerptEnd r" using assms(3) r by (auto simp: spaced_def)
    show "excerptEnd r < off \<or> excerptStart r \<le> off \<and> off + old \<le> excerptEnd r \<or> off + old < excerptStart r"
      using spaced_place [OF assms(3,4) r] by simp
  qed
  then show ?thesis
    unfolding excerpt_bounds_def assms(1) filter_map by (simp add: o_def editable_relocate)
qed

lemma edits_keep_fixed_parts:
  assumes "edits w w'" "excerptRanges (snd w) \<noteq> []" "spaced (length (content (fst w) (snd w))) (excerpt_bounds (snd w))"
  shows "excerptRanges (snd w') \<noteq> [] \<and> spaced (length (content (fst w') (snd w'))) (excerpt_bounds (snd w')) \<and>
    fixed_parts 0 (excerpt_bounds (snd w')) (content (fst w') (snd w')) =
      fixed_parts 0 (excerpt_bounds (snd w)) (content (fst w) (snd w))"
  using assms
proof (induction rule: edits.induct)
  case (edits_quiet w h b b')
  then show ?case by (simp add: quiet_def excerpt_bounds_def)
next
  case (edits_splice w w' w'' off old ins)
  obtain h b h' b' where w: "w' = (h, b)" "w'' = (h', b')" by (metis prod.collapse)
  have IH: "excerptRanges b \<noteq> []" "spaced (length (content h b)) (excerpt_bounds b)"
    "fixed_parts 0 (excerpt_bounds b) (content h b) = fixed_parts 0 (excerpt_bounds (snd w)) (content (fst w) (snd w))"
    using edits_splice.IH edits_splice.prems w by simp_all
  have s: "off + old \<le> length (content h b)" "content h' b' = take off (content h b) @ ins @ drop (off + old) (content h b)"
    "excerptRanges b' = map (relocate_excerpt off old (length ins)) (excerptRanges b)"
    using edits_splice.hyps(2) unfolding w spliced_def Let_def prod.case by blast+
  have guard: "old = 0 \<and> can_insert_at_excerpt b off \<or> ins = [] \<and> can_delete_excerpt_range b off (off + old)"
    using edits_splice.hyps(3) IH(1) w by simp
  then have inside: "\<exists>(s, e) \<in> set (excerpt_bounds b). s \<le> off \<and> off + old \<le> e"
    using IH(1) by (force simp: can_insert_at_excerpt_def can_delete_excerpt_range_def excerpt_bounds_def list_ex_iff)
  have one: "0 < length ins \<longrightarrow> old = 0" using guard by auto
  note bounds = excerpt_bounds_spliced [OF s(3) one IH(2) inside]
  have len: "length (content h' b') = length (content h b) - old + length ins" using s(1,2) by simp
  have "spaced (length (content h' b')) (excerpt_bounds b')"
    unfolding bounds len by (rule spaced_splice [OF IH(2) inside])
  moreover have "fixed_parts 0 (excerpt_bounds b') (content h' b') = fixed_parts 0 (excerpt_bounds b) (content h b)"
    unfolding bounds s(2) by (rule fixed_parts_splice [OF _ IH(2) _ inside]) simp_all
  ultimately show ?case using IH(1,3) s(3) w by simp
qed simp

lemma end_group_excerpts:
  "excerptRanges (end_iteration b) = excerptRanges b" "bufStorage (end_iteration b) = bufStorage b"
  by (simp_all add: end_iteration_def end_undo_group_def Let_def record_undo_def snapshot_excerpt_range_offsets_def
      normalize_secondary_cursors_def)

text \<open>Commands that only type.\<close>

fun types :: "command \<Rightarrow> bool" where
  "types (Edit p) = primitive_ok p"
| "types (EditEachCursor p) = primitive_ok p"
| "types c = False"

lemma typed_command:
  assumes ok: "buffer_ok h b" and excerpts: "excerptRanges b \<noteq> []" "spaced (length (content h b)) (excerpt_bounds b)"
    and c: "types c"
  shows "\<exists>h' b'. command_step brk fs c ((h, b), plan) = Some ((h', b'), plan) \<and> buffer_ok h' b' \<and>
    excerptRanges b' \<noteq> [] \<and> spaced (length (content h' b')) (excerpt_bounds b') \<and>
    fixed_parts 0 (excerpt_bounds b') (content h' b') = fixed_parts 0 (excerpt_bounds b) (content h b)"
proof -
  have "\<exists>h' b1 b'. command_step brk fs c ((h, b), plan) = Some ((h', b'), plan) \<and> buffer_ok h' b' \<and>
      excerptRanges b' = excerptRanges b1 \<and> bufStorage b' = bufStorage b1 \<and>
      (\<exists>b0. edits (h, b0) (h', b1) \<and> excerptRanges b0 = excerptRanges b \<and> bufStorage b0 = bufStorage b)"
    using c
  proof (cases c rule: types.cases)
    case (1 p)
    then show ?thesis using primitive_edits [OF ok, of p brk] edits_ok ok c by fastforce
  next
    case (2 p)
    then have p: "primitive_ok p" using c by simp
    obtain r h' b1 where 1: "for_each_cursor (primitive_step brk p) (h, b) = Some (r, h', end_iteration b1)"
      "edits (h, pass_start b) (h', b1)" using for_each_cursor_edits [OF ok p] by blast
    obtain r' h2 b2 where e: "for_each_cursor (primitive_step brk p) (h, b) = Some (r', h2, b2)" "effects False (h, b) (h2, b2)"
      using for_each_cursor_effects [OF ok p] by blast
    have "buffer_ok h' (end_iteration b1)" using effects_ok [OF e(2)] ok 1(1) e(1) by simp
    then show ?thesis using 2 1 end_group_excerpts
      by (fastforce simp: pass_start_def begin_undo_group_def)
  qed simp_all
  then obtain h' b1 b' b0 where e: "command_step brk fs c ((h, b), plan) = Some ((h', b'), plan)" "buffer_ok h' b'"
    "excerptRanges b' = excerptRanges b1" "bufStorage b' = bufStorage b1" "edits (h, b0) (h', b1)"
    "excerptRanges b0 = excerptRanges b" "bufStorage b0 = bufStorage b" by blast
  have "excerpt_bounds b' = excerpt_bounds b1" "excerpt_bounds b0 = excerpt_bounds b"
    using e(3,6) by (simp_all add: excerpt_bounds_def)
  then show ?thesis using edits_keep_fixed_parts [OF e(5)] excerpts e by simp
qed

lemma typed_commands:
  "buffer_ok h b \<Longrightarrow> excerptRanges b \<noteq> [] \<Longrightarrow> spaced (length (content h b)) (excerpt_bounds b) \<Longrightarrow> list_all types ds \<Longrightarrow>
    \<exists>h' b'. run_commands brk fs ds ((h, b), plan) = Some ((h', b'), plan) \<and> buffer_ok h' b' \<and>
      excerptRanges b' \<noteq> [] \<and> spaced (length (content h' b')) (excerpt_bounds b') \<and>
      fixed_parts 0 (excerpt_bounds b') (content h' b') = fixed_parts 0 (excerpt_bounds b) (content h b)"
proof (induction ds arbitrary: h b)
  case (Cons c ds)
  obtain h1 b1 where 1: "command_step brk fs c ((h, b), plan) = Some ((h1, b1), plan)" "buffer_ok h1 b1"
    "excerptRanges b1 \<noteq> []" "spaced (length (content h1 b1)) (excerpt_bounds b1)"
    "fixed_parts 0 (excerpt_bounds b1) (content h1 b1) = fixed_parts 0 (excerpt_bounds b) (content h b)"
    using typed_command [OF Cons.prems(1-3), of c brk fs plan] Cons.prems(4) by auto
  then show ?case using Cons.IH [OF 1(2-4)] Cons.prems(4) by auto
qed simp

text \<open>
  C5: in a buffer of excerpts that are apart, no editing, at one cursor or at each of many,
  touches a byte outside the editable excerpts: the pieces of text before, between and after them
  stay what they were, and the excerpts stay apart.
\<close>

theorem text_around_excerpts_kept:
  assumes "rope_wf r" "all_steps allowed brk fs cs (opened nm r)" "run_commands brk fs cs (opened nm r) = Some ((h, b), plan)"
    and excerpts: "excerptRanges b \<noteq> []" "spaced (length (buf_text h b)) (excerpt_bounds b)" and ds: "list_all types ds"
  shows "\<exists>h' b'. run_commands brk fs ds ((h, b), plan) = Some ((h', b'), plan) \<and>
    spaced (length (buf_text h' b')) (excerpt_bounds b') \<and>
    fixed_parts 0 (excerpt_bounds b') (buf_text h' b') = fixed_parts 0 (excerpt_bounds b) (buf_text h b)"
proof -
  have ok: "buffer_ok h b"
    using session_run [OF new_session_ok [OF assms(1)] assms(2)] assms(3) session_okD(1) by simp
  have reads: "buffer_ok g c \<Longrightarrow> buf_text g c = content g c" for g c
    using st_reads buffer_okD(1) by (simp add: buf_text_def)
  show ?thesis
    using typed_commands [OF ok excerpts(1) _ ds] excerpts(2) reads ok by fastforce
qed

theorem text_around_excerpts_kept_witness:
  defines "fs \<equiv> empty_disk" and "brk \<equiv> \<lambda>_ _ s. (True, s)" and "r \<equiv> rope_make_leaf ''head\<newline>body''"
  defines "e \<equiv> \<lparr>excerptStart = 5, excerptEnd = 9, sourcePath = ''f'', sourceStartByte = 0, sourceEndByte = 4,
    editable = True, originalText = ''body''\<rparr>"
  shows "\<exists>h' b'. run_commands brk fs [SetExcerptRanges [e], Edit (InsertAt 9 ''x''), Edit (DeleteRange 0 6)] (opened [] r) =
      Some ((h', b'), None) \<and>
    fixed_parts 0 (excerpt_bounds b') (buf_text h' b') = [''head\<newline>'', []]"
proof -
  let ?b = "set_excerpt_ranges [e] (new_buffer [] r)"
  have r: "rope_wf r" "rope_text r = ''head\<newline>body''"
    unfolding r_def by (rule rope_make_leaf)+
  have b: "excerptRanges ?b = [e]" "buf_text [] ?b = ''head\<newline>body''"
    using r by (simp_all add: set_excerpt_ranges_def snapshot_excerpt_range_offsets_def buf_text_def new_buffer_def
        st_reads)
  have "fixed_parts 0 (excerpt_bounds ?b) (buf_text [] ?b) = [''head\<newline>'', []]"
    "spaced (length (buf_text [] ?b)) (excerpt_bounds ?b)"
    unfolding b(2) excerpt_bounds_def b(1) by (simp_all add: e_def substr_def spaced_def)
  then show ?thesis
    using text_around_excerpts_kept [OF r(1), of brk fs "[SetExcerptRanges [e]]" "[]" "[]" ?b None
        "[Edit (InsertAt 9 ''x''), Edit (DeleteRange 0 6)]"] b(1)
    by (auto simp: short_text_chunkable kChunkSize_def)
qed

section \<open>A typing run is one undo step\<close>

lemma amend_record: "undo_amend (undo_record t s) s' = undo_record t s'"
  by (simp add: undo_amend_def undo_record_def Let_def nth_append list_update_append)

lemma relocate_keeps_amend:
  "canAmend (relocate_tracked_state l off 0 n b) = canAmend b" "readOnly (relocate_tracked_state l off 0 n b) = readOnly b"
  "point (relocate_tracked_state l off 0 n b) = (if 0 < n then relocate_for_insert off n (point b) else point b)"
  by (simp_all add: relocate_tracked_state_def relocate_unseen_def disarm_unseen_tracking_def insert_half_defs Let_def)

lemma typed_text:
  assumes ok: "buffer_ok h b" and free: "undoGroupDepth b = 0" "\<not> readOnly b" "excerptRanges b = []"
    and s: "chunkable kChunkSize s" "s \<noteq> []"
  shows "\<exists>h' b'. insert_at_point s (h, b) = Some (Done (), h', b') \<and> buffer_ok h' b' \<and> heap_le h h' \<and>
    canAmend b' \<and> undoGroupDepth b' = 0 \<and> \<not> readOnly b' \<and> excerptRanges b' = [] \<and>
    point b' = point b + length s \<and> content h' b' = splice_in (content h b) (point b) s \<and>
    undoTree b' = (if canAmend b then undo_amend else undo_record) (undoTree b) (bufStorage b')"
proof -
  have "point b \<le> length (content h b)" using buffer_okD(5) [OF ok] by (simp add: tracked_ok_def)
  then obtain h' b' where i: "insert_text True (point b) s (h, b) = Some (Done (), h', b')" "spliced (h, b) (h', b') (point b) 0 s"
    using insert_spliced [OF ok s] by blast
  obtain st b1 where b1: "apply_insert (point b) (length s) (b\<lparr>bufStorage := st\<rparr>) = Some b1"
    "b' = (record_or_amend_undo True b1)\<lparr>goalColumn := None\<rparr>"
    using i(1) by (auto simp: insert_text_def split: bind_splits)
  have "undoGroupDepth b1 = 0" "point b1 = point b + length s" "canAmend b1 = canAmend b" "undoTree b1 = undoTree b" "\<not> readOnly b1"
    using b1(1) free s(2) relocate_keeps_document(1) [of "st_byte_length st" "point b" "length s" "b\<lparr>bufStorage := st\<rparr>"]
      relocate_keeps_amend [of "st_byte_length st" "point b" "length s" "b\<lparr>bufStorage := st\<rparr>"]
    by (auto simp: apply_insert_def commit_insert_def commit_op_def Let_def relocate_for_insert_def split: bind_splits)
  then have "canAmend b'" "point b' = point b + length s" "\<not> readOnly b'" "undoGroupDepth b' = 0"
    "undoTree b' = (if canAmend b then undo_amend else undo_record) (undoTree b) (bufStorage b')"
    by (simp_all add: b1(2) record_or_amend_undo_def Let_def record_undo_def amend_undo_def snapshot_excerpt_range_offsets_def)
  moreover have "excerptRanges b' = []" "buffer_ok h' b'" "heap_le h h'" "content h' b' = splice_in (content h b) (point b) s"
    using i(2) free(3) by (simp_all add: spliced_def splice_in_def)
  moreover have "insert_at_point s (h, b) = Some (Done (), h', b')"
    using i(1) free(2,3) s(2) by (simp add: insert_at_point_def can_insert_at_excerpt_def)
  ultimately show ?thesis by blast
qed

lemma splice_in_twice:
  "off \<le> length t \<Longrightarrow> splice_in (splice_in t off s) (off + length s) s' = splice_in t off (s @ s')"
  by (simp add: splice_in_def)

lemma typing_run:
  "buffer_ok h b \<Longrightarrow> undoGroupDepth b = 0 \<Longrightarrow> \<not> readOnly b \<Longrightarrow> excerptRanges b = [] \<Longrightarrow> canAmend b \<Longrightarrow>
    undoTree b = undo_record t (bufStorage b) \<Longrightarrow> list_all (\<lambda>s. chunkable kChunkSize s \<and> s \<noteq> []) ss \<Longrightarrow>
    \<exists>h' b'. run_commands brk fs (map (\<lambda>s. Edit (InsertAtPoint s)) ss) ((h, b), plan) = Some ((h', b'), plan) \<and>
      buffer_ok h' b' \<and> heap_le h h' \<and> undoTree b' = undo_record t (bufStorage b') \<and>
      content h' b' = splice_in (content h b) (point b) (concat ss)"
proof (induction ss arbitrary: h b)
  case Nil
  then show ?case by (simp add: splice_in_def)
next
  case (Cons s ss)
  obtain h1 b1 where 1: "insert_at_point s (h, b) = Some (Done (), h1, b1)" "buffer_ok h1 b1" "heap_le h h1" "canAmend b1"
    "undoGroupDepth b1 = 0" "\<not> readOnly b1" "excerptRanges b1 = []" "point b1 = point b + length s"
    "content h1 b1 = splice_in (content h b) (point b) s" "undoTree b1 = undo_amend (undoTree b) (bufStorage b1)"
    using typed_text [OF Cons.prems(1-4), of s] Cons.prems(5,7) by auto
  have t: "undoTree b1 = undo_record t (bufStorage b1)" using 1(10) Cons.prems(6) by (simp add: amend_record)
  have p: "point b \<le> length (content h b)" using buffer_okD(5) [OF Cons.prems(1)] by (simp add: tracked_ok_def)
  obtain h' b' where 2: "run_commands brk fs (map (\<lambda>s. Edit (InsertAtPoint s)) ss) ((h1, b1), plan) = Some ((h', b'), plan)"
    "buffer_ok h' b'" "heap_le h1 h'" "undoTree b' = undo_record t (bufStorage b')"
    "content h' b' = splice_in (content h1 b1) (point b1) (concat ss)"
    using Cons.IH [OF 1(2,5,6,7,4) t] Cons.prems(7) by auto
  have "heap_le h h'" using heap_le_trans 1(3) 2(3) by blast
  moreover have "content h' b' = splice_in (content h b) (point b) (s @ concat ss)"
    using 2(5) 1(8,9) splice_in_twice [OF p] by simp
  ultimately show ?case using 1(1) 2(1,2,4) by simp
qed

text \<open>
  C6: a run of typing is one undo step.  Text typed piece by piece, with nothing between the
  pieces, goes in at point in order; a single undo takes all of it back, and a redo all of it
  in again.
\<close>

theorem typing_is_one_undo_step:
  assumes "rope_wf r" "all_steps allowed brk fs cs (opened nm r)" "run_commands brk fs cs (opened nm r) = Some ((h, b), plan)"
    and free: "undoGroupDepth b = 0" "\<not> readOnly b" "excerptRanges b = []" "\<not> canAmend b"
    and ss: "ss \<noteq> []" "list_all (\<lambda>s. chunkable kChunkSize s \<and> s \<noteq> []) ss"
  shows "\<exists>h' b' b1 b2. run_commands brk fs (map (\<lambda>s. Edit (InsertAtPoint s)) ss) ((h, b), plan) = Some ((h', b'), plan) \<and>
    buf_text h' b' = splice_in (buf_text h b) (point b) (concat ss) \<and>
    run_commands brk fs [Undo] ((h', b'), plan) = Some ((h', b1), plan) \<and> buf_text h' b1 = buf_text h b \<and>
    run_commands brk fs [Redo] ((h', b1), plan) = Some ((h', b2), plan) \<and> buf_text h' b2 = buf_text h' b'"
proof -
  have ok: "buffer_ok h b"
    using session_run [OF new_session_ok [OF assms(1)] assms(2)] assms(3) session_okD(1) by simp
  obtain s ss' where s: "ss = s # ss'" using ss(1) by (cases ss) auto
  obtain h1 b1 where 1: "insert_at_point s (h, b) = Some (Done (), h1, b1)" "buffer_ok h1 b1" "heap_le h h1" "canAmend b1"
    "undoGroupDepth b1 = 0" "\<not> readOnly b1" "excerptRanges b1 = []" "point b1 = point b + length s"
    "content h1 b1 = splice_in (content h b) (point b) s" "undoTree b1 = undo_record (undoTree b) (bufStorage b1)"
    using typed_text [OF ok free(1-3), of s] ss(2) s free(4) by auto
  obtain h' b' where 2: "run_commands brk fs (map (\<lambda>s. Edit (InsertAtPoint s)) ss') ((h1, b1), plan) = Some ((h', b'), plan)"
    "buffer_ok h' b'" "heap_le h1 h'" "undoTree b' = undo_record (undoTree b) (bufStorage b')"
    "content h' b' = splice_in (content h1 b1) (point b1) (concat ss')"
    using typing_run [OF 1(2,5,6,7,4,10), where ss = ss' and brk = brk and fs = fs and plan = plan] ss(2) s by auto
  have heap: "heap_le h h'" using 1(3) 2(3) heap_le_trans by blast
  have p: "point b \<le> length (content h b)" using buffer_okD(5) [OF ok] by (simp add: tracked_ok_def)
  obtain c1 c2 where c: "buffer_undo brk (h', b') = Some (h', c1)" "buffer_redo brk (h', c1) = Some (h', c2)"
    "buffer_ok h' c1" "buffer_ok h' c2" "content h' c1 = st_content h' (undo_current (undoTree b))" "content h' c2 = content h' b'"
    using undo_redo_record [OF 2(2) history_ok_later [OF buffer_okD(3) [OF ok] heap] 2(4), of brk] by blast
  have "st_content h' (undo_current (undoTree b)) = content h b"
    using st_kept(2) [OF history_ok_current [OF buffer_okD(3) [OF ok]] heap] buffer_okD(7,8) [OF ok] free(1) by simp
  moreover have "content h' b' = splice_in (content h b) (point b) (concat ss)"
    using 2(5) 1(8,9) s splice_in_twice [OF p] by simp
  moreover have "run_commands brk fs (map (\<lambda>s. Edit (InsertAtPoint s)) ss) ((h, b), plan) = Some ((h', b'), plan)"
    using 1(1) 2(1) s by simp
  moreover have "buf_text g d = content g d" if "buffer_ok g d" for g d
    using st_reads buffer_okD(1) that by (simp add: buf_text_def)
  ultimately show ?thesis using c ok 2(2) by auto
qed

theorem typing_is_one_undo_step_witness:
  defines "fs \<equiv> empty_disk" and "brk \<equiv> \<lambda>_ _ s. (True, s)"
  shows "\<exists>h' b' b1. run_commands brk fs [Edit (InsertAtPoint ''ab''), Edit (InsertAtPoint ''c'')] (opened [] None) =
      Some ((h', b'), None) \<and>
    buf_text h' b' = ''abc'' \<and> run_commands brk fs [Undo] ((h', b'), None) = Some ((h', b1), None) \<and> buf_text h' b1 = []"
proof -
  have "buf_text [] (new_buffer [] None) = []"
    using st_reads [of "[]" "RopeStorage None"] by (simp add: buf_text_def new_buffer_def)
  moreover have "point (new_buffer [] None) = 0" by (simp add: new_buffer_def)
  ultimately show ?thesis
    using typing_is_one_undo_step [of None brk fs "[]" "[]" "[]" "new_buffer [] None" None "[''ab'', ''c'']"]
    by (auto simp: new_buffer_def short_text_chunkable kChunkSize_def splice_in_def)
qed

end
