(* ===== verification/CountedEdits.thy ===== *)
theory CountedEdits
  imports PrefixArgument BufferGroups
begin

text \<open>
  The dispatcher over a buffer: a command that performs an edit, run under a prefix argument.
  The world of the command context is the session of \<open>BufferSession\<close>, and the undo groups the
  dispatcher opens and closes are the buffer's.
\<close>

section \<open>Commands on a session\<close>

definition perform :: "break_rule \<Rightarrow> file_system \<Rightarrow> BufferSession.command \<Rightarrow> session \<Rightarrow> session" where
  "perform brk fs c w = (case run_commands brk fs [c] w of None \<Rightarrow> w | Some w' \<Rightarrow> w')"

definition buffer_groups :: "break_rule \<Rightarrow> file_system \<Rightarrow> session undo_groups" where
  "buffer_groups brk fs =
     \<lparr>beginUndoGroup = perform brk fs BeginUndoGroup, endUndoGroup = perform brk fs EndUndoGroup\<rparr>"

definition edit_command :: "break_rule \<Rightarrow> file_system \<Rightarrow> primitive \<Rightarrow> session command_function" where
  "edit_command brk fs p ctx = (ctx\<lparr>contextWorld := perform brk fs (Edit p) (contextWorld ctx)\<rparr>, False)"

lemma performed: "run_commands brk fs cs w = Some w' \<Longrightarrow> fold (perform brk fs) cs w = w'"
proof (induction cs arbitrary: w)
  case (Cons c cs)
  then obtain w1 where "command_step brk fs c w = Some w1" "run_commands brk fs cs w1 = Some w'"
    by (auto simp: bind_eq_Some_conv)
  with Cons.IH [of w1] show ?case by (simp add: perform_def)
qed simp

lemma performed_group:
  assumes "run_commands brk fs (BeginUndoGroup # replicate n (Edit p) @ [EndUndoGroup]) w = Some w'"
  shows "endUndoGroup (buffer_groups brk fs)
    ((perform brk fs (Edit p) ^^ n) (beginUndoGroup (buffer_groups brk fs) w)) = w'"
proof -
  have "fold (perform brk fs) (replicate n (Edit p)) = perform brk fs (Edit p) ^^ n" by (induction n) (auto simp: funpow_swap1 fun_eq_iff)
  with performed [OF assms] show ?thesis by (simp add: buffer_groups_def)
qed

section \<open>The property\<close>

text \<open>
  C40: a counted edit is one undo step.  In a session of a buffer, a key bound to an editing
  command and pressed from idle under the argument \<open>n > 1\<close> leaves the very buffer that opening an
  undo group, running the edit \<open>n\<close> times and closing the group leaves; and a single undo takes all
  of it back, one redo brings it again.  No group is open before, the key resolves at once, and
  the texts inserted can be cut into chunks.
\<close>

theorem counted_edit_is_one_undo_step:
  assumes "rope_wf rope" "all_steps allowed brk fs cs (opened nm rope)"
    "run_commands brk fs cs (opened nm rope) = Some ((h, b), plan)" "undoGroupDepth b = 0" "primitive_ok p"
    "1 < n" "pendingKeys d = []" "\<not> is_bare_ctrl_g chord" "stack_resolve (dispatchKeymaps d) [chord] = Match name"
    "map_of r name = Some command" "commandFunction command = edit_command brk fs p"
    "contextWorld ctx = ((h, b), plan)" "prefixArg ctx = Some (int n)"
  shows "\<exists>d' ctx' h' b' b1 b2. feed (buffer_groups brk fs) r chord d ctx = (d', ctx', Returned Invoked) \<and>
    contextWorld ctx' = ((h', b'), plan) \<and>
    run_commands brk fs (BeginUndoGroup # replicate n (Edit p) @ [EndUndoGroup]) ((h, b), plan) = Some ((h', b'), plan) \<and>
    (buf_text h' b' = buf_text h b \<or>
      run_commands brk fs [Undo] ((h', b'), plan) = Some ((h', b1), plan) \<and> buf_text h' b1 = buf_text h b \<and>
      run_commands brk fs [Redo] ((h', b1), plan) = Some ((h', b2), plan) \<and> buf_text h' b2 = buf_text h' b')"
proof -
  let ?gs = "BeginUndoGroup # map Edit (replicate n p) @ [EndUndoGroup]"
  have "list_all primitive_ok (replicate n p)" using assms(5) by (induction n) auto
  from group_undone [OF assms(1-4) this disjI1 [OF refl]]
  obtain h' b' b1 b2 where group: "run_commands brk fs ?gs ((h, b), plan) = Some ((h', b'), plan)"
    and undo: "buf_text h' b' = buf_text h b \<or>
      run_commands brk fs [Undo] ((h', b'), plan) = Some ((h', b1), plan) \<and> buf_text h' b1 = buf_text h b \<and>
      run_commands brk fs [Redo] ((h', b1), plan) = Some ((h', b2), plan) \<and> buf_text h' b2 = buf_text h' b'"
    by blast
  have world: "changes_world r name (perform brk fs (Edit p))"
    using assms(10,11) by (auto simp: changes_world_def registry_find_def edit_command_def)
  have pass: "passed chord d ctx" using assms(7,8) by simp
  have match: "stack_resolve (dispatchKeymaps d) (pendingKeys d @ [chord]) = Match name" using assms(7,9) by simp
  let ?c = "ctx\<lparr>triggeringKey := chord, lastCommand := lastInvokedCommand d\<rparr>"
  have "prefixArg ?c = Some (int n)" using assms(13) by simp
  note run = counted_run [OF world _ this, of "buffer_groups brk fs"]
  obtain d' where feed: "feed (buffer_groups brk fs) r chord d ctx =
      (d', fst (run_matched (buffer_groups brk fs) r name ?c), Returned Invoked)"
    using feed_matched [OF pass match, of "buffer_groups brk fs" r "fst (run_matched (buffer_groups brk fs) r name ?c)"] run
    by auto
  have "contextWorld (fst (run_matched (buffer_groups brk fs) r name ?c)) = ((h', b'), plan)"
    using run assms(6,12) performed_group [of brk fs n p "((h, b), plan)"] group by (simp add: map_replicate)
  moreover have "run_commands brk fs (BeginUndoGroup # replicate n (Edit p) @ [EndUndoGroup]) ((h, b), plan) = Some ((h', b'), plan)"
    using group by (simp add: map_replicate)
  ultimately show ?thesis using feed undo by blast
qed

theorem counted_edit_is_one_undo_step_witness:
  defines "fs \<equiv> empty_disk" and "brk \<equiv> \<lambda>_ _ s. (True, s)"
  shows "\<exists>d' ctx' h' b' b1 b2.
    feed (buffer_groups brk fs)
      [(''x'', \<lparr>commandName = ''x'', commandDocstring = [], commandFunction = edit_command brk fs (InsertAtPoint ''x'')\<rparr>)]
      no_chord (new_dispatcher \<lparr>stackLayers = [keymap_of [BindKeys [no_chord] ''x'']], stackNames = []\<rparr>)
      \<lparr>triggeringKey = no_chord, prefixArg = Some 3, lastCommand = [], contextWorld = opened [] None\<rparr> =
      (d', ctx', Returned Invoked) \<and>
    contextWorld ctx' = ((h', b'), None) \<and>
    run_commands brk fs (BeginUndoGroup # replicate 3 (Edit (InsertAtPoint ''x'')) @ [EndUndoGroup]) (([], new_buffer [] None), None) =
      Some ((h', b'), None) \<and>
    (buf_text h' b' = buf_text [] (new_buffer [] None) \<or>
      run_commands brk fs [Undo] ((h', b'), None) = Some ((h', b1), None) \<and>
      buf_text h' b1 = buf_text [] (new_buffer [] None) \<and>
      run_commands brk fs [Redo] ((h', b1), None) = Some ((h', b2), None) \<and> buf_text h' b2 = buf_text h' b')"
proof (rule counted_edit_is_one_undo_step)
  show "rope_wf None" by simp
  show "all_steps allowed brk fs [] (opened [] None)" by simp
  show "run_commands brk fs [] (opened [] None) = Some (([], new_buffer [] None), None)" by simp
  show "primitive_ok (InsertAtPoint ''x'')" by (simp add: short_text_chunkable kChunkSize_def)
  show "stack_resolve (dispatchKeymaps (new_dispatcher \<lparr>stackLayers = [keymap_of [BindKeys [no_chord] ''x'']], stackNames = []\<rparr>))
      [no_chord] = Match ''x''"
    by (simp add: new_dispatcher_def stack_resolve_def resolve_def keymap_of_def empty_keymap_def)
  show "commandFunction \<lparr>commandName = ''x'', commandDocstring = [],
      commandFunction = edit_command brk fs (InsertAtPoint ''x'')\<rparr> = edit_command brk fs (InsertAtPoint ''x'')"
    by (rule Dispatcher.command.select_convs)
qed (simp_all add: new_buffer_def new_dispatcher_def is_bare_ctrl_g_def no_chord_def)

end
