(* ===== verification/Registers.thy ===== *)
theory Registers
  imports Keys "HOL-Library.Char_ord" "HOL-Library.List_Lexorder"
begin

text \<open>
  The two stores of \<open>Source/Editor\<close> that keyboard commands keep between key presses:
  \<open>Register.h\<close> and \<open>Register.cpp\<close>, the registers, and \<open>MacroRegistry.h\<close> and
  \<open>MacroRegistry.cpp\<close>, the named keyboard macros.  A \<open>std::map\<close> is a partial function; a null
  pointer and a missing value are \<open>None\<close>, a thrown \<open>std::runtime_error\<close> is \<open>Inl\<close>.
\<close>

section \<open>Registers\<close>

record point_register_value =
  registerBuffer :: bytes
  registerOffsets :: "offset list"

datatype register_value = PointRegister point_register_value | TextRegister "bytes list" bytes

type_synonym register_table = "char32 \<rightharpoonup> register_value"

definition join_register_pieces :: "bytes list \<Rightarrow> bytes" where
  "join_register_pieces pieces =
     concat (map (\<lambda>i. (if i > 0 then [newline] else []) @ pieces ! i) [0..<length pieces])"

definition register_set_point :: "char32 \<Rightarrow> bytes \<Rightarrow> offset list \<Rightarrow> register_table \<Rightarrow> register_table" where
  "register_set_point name buffer offsets t =
     t(name \<mapsto> PointRegister \<lparr>registerBuffer = buffer, registerOffsets = (if offsets = [] then [0] else offsets)\<rparr>)"

definition register_set_text_pieces :: "char32 \<Rightarrow> bytes list \<Rightarrow> register_table \<Rightarrow> register_table" where
  "register_set_text_pieces name pieces0 t =
     (let pieces = (if pieces0 = [] then [[]] else pieces0) in t(name \<mapsto> TextRegister pieces (join_register_pieces pieces)))"

definition register_set_text :: "char32 \<Rightarrow> bytes \<Rightarrow> register_table \<Rightarrow> register_table" where
  "register_set_text name s t = register_set_text_pieces name [s] t"

definition register_point :: "char32 \<Rightarrow> register_table \<Rightarrow> point_register_value option" where
  "register_point name t = (case t name of Some (PointRegister p) \<Rightarrow> Some p | _ \<Rightarrow> None)"

definition register_text :: "char32 \<Rightarrow> register_table \<Rightarrow> bytes option" where
  "register_text name t = (case t name of Some (TextRegister pieces joined) \<Rightarrow> Some joined | _ \<Rightarrow> None)"

definition register_text_pieces :: "char32 \<Rightarrow> register_table \<Rightarrow> bytes list option" where
  "register_text_pieces name t = (case t name of Some (TextRegister pieces joined) \<Rightarrow> Some pieces | _ \<Rightarrow> None)"

lemma join_register_pieces_Cons: "join_register_pieces (p # ps) = p @ concat (map (\<lambda>q. newline # q) ps)"
proof -
  have "[0..<length (p # ps)] = 0 # map Suc [0..<length ps]" by (simp add: map_Suc_upt upt_conv_Cons del: upt_Suc)
  then have "join_register_pieces (p # ps) = p @ concat (map (\<lambda>i. newline # ps ! i) [0..<length ps])"
    by (simp add: join_register_pieces_def o_def del: upt_Suc)
  also have "map (\<lambda>i. newline # ps ! i) [0..<length ps] = map (\<lambda>q. newline # q) ps"
    by (rule nth_equalityI) simp_all
  finally show ?thesis .
qed

text \<open>A register holds one kind of value at a time, and its text is its pieces, one a line.\<close>

lemma register_holds_one_kind:
  "register_point name t = None \<or> register_text name t = None"
  "register_point name (register_set_point name b (p # ps) t) = Some \<lparr>registerBuffer = b, registerOffsets = p # ps\<rparr>"
  "register_text name (register_set_point name b ps t) = None"
  "register_text_pieces name (register_set_text_pieces name (q # qs) t) = Some (q # qs)"
  "register_text name (register_set_text name s t) = Some s"
  "register_point name (register_set_text_pieces name qs t) = None"
  by (auto simp: register_point_def register_text_def register_text_pieces_def register_set_point_def
      register_set_text_def register_set_text_pieces_def join_register_pieces_Cons Let_def split: option.splits register_value.splits)

section \<open>Named macros\<close>

text \<open>The ordered map of the registry: its entries in the order of their names.\<close>

type_synonym macro_registry = "(bytes \<times> key_chord list) list"

fun macro_put :: "bytes \<Rightarrow> key_chord list \<Rightarrow> macro_registry \<Rightarrow> macro_registry" where
  "macro_put name chords [] = [(name, chords)]"
| "macro_put name chords ((n, cs) # m) =
     (if name = n then (name, chords) # m
      else if name < n then (name, chords) # (n, cs) # m
      else (n, cs) # macro_put name chords m)"

datatype macro_error = MacroNameEmpty

definition register_macro :: "bytes \<Rightarrow> key_chord list \<Rightarrow> macro_registry \<Rightarrow> macro_error + macro_registry" where
  "register_macro name chords m =
     (if name = [] then Inl MacroNameEmpty
      else if chords = [] then Inr (filter (\<lambda>(n, _). n \<noteq> name) m)
      else Inr (macro_put name chords m))"

definition macro_for_name :: "bytes \<Rightarrow> macro_registry \<Rightarrow> key_chord list option" where
  "macro_for_name name m = map_of m name"

definition macro_names :: "macro_registry \<Rightarrow> bytes list" where
  "macro_names m = map fst m"

definition clear_all_macros :: "macro_registry \<Rightarrow> macro_registry" where
  "clear_all_macros m = []"

definition macros_sorted :: "macro_registry \<Rightarrow> bool" where
  "macros_sorted m \<longleftrightarrow> sorted_wrt (<) (map fst m)"

lemma macro_put_names: "set (map fst (macro_put name chords m)) = insert name (set (map fst m))"
  by (induction name chords m rule: macro_put.induct) auto

lemma macro_put_sorted: "macros_sorted m \<Longrightarrow> macros_sorted (macro_put name chords m)"
proof (induction name chords m rule: macro_put.induct)
  case (2 name chords n cs m)
  then show ?case using macro_put_names [of name chords m] by (fastforce simp: macros_sorted_def)
qed (simp add: macros_sorted_def)

lemma macro_put_lookup: "macros_sorted m \<Longrightarrow> map_of (macro_put name chords m) = (map_of m)(name \<mapsto> chords)"
proof (induction name chords m rule: macro_put.induct)
  case (2 name chords n cs m)
  have "map_of m name = None" if "name < n"
    using "2.prems" that by (force simp: macros_sorted_def map_of_eq_None_iff)
  with 2 show ?case by (auto simp: macros_sorted_def fun_eq_iff)
qed (simp add: fun_eq_iff)

lemma macro_erase:
  "map_of (filter (\<lambda>(n, _). n \<noteq> name) m) = (map_of m)(name := None)"
  "macros_sorted m \<Longrightarrow> macros_sorted (filter (\<lambda>(n, _). n \<noteq> name) m)"
  by (induction m) (auto simp: macros_sorted_def fun_eq_iff)

text \<open>Registering overwrites, registering no chords erases, and the names stay sorted.\<close>

lemma register_macro_updates:
  "macros_sorted m \<Longrightarrow> register_macro name chords m = Inr m' \<Longrightarrow>
    macros_sorted m' \<and> (\<lambda>n. macro_for_name n m') =
      (\<lambda>n. macro_for_name n m)(name := if chords = [] then None else Some chords)"
  by (auto simp: register_macro_def macro_for_name_def macro_put_sorted macro_put_lookup fun_eq_iff
      macro_erase split: if_splits)

end
