(* ===== verification/ConflictHunk.thy ===== *)
theory ConflictHunk
  imports Prelude
begin

text \<open>
  \<open>Source/Text/ConflictHunk.h\<close> and \<open>ConflictHunk.cpp\<close>: reading conflict markers back from a
  text.  \<open>std::string_view::npos\<close> is \<open>None\<close>.  The main lemma says that the parser inverts the
  convention of writing conflicts, whatever the sections hold, as long as no line of theirs
  looks like a marker.
\<close>

section \<open>The parser\<close>

type_synonym byte_span = "offset \<times> offset"

record conflict_hunk =
  conflictStart :: offset
  conflictEnd :: offset
  oursRange :: byte_span
  baseRange :: "byte_span option"
  theirsRange :: byte_span

text \<open>The scanning loops: the first position of a text, from one on, that satisfies a test.\<close>

function scan_from :: "(offset \<Rightarrow> bool) \<Rightarrow> nat \<Rightarrow> offset \<Rightarrow> offset option" where
  "scan_from P n pos = (if pos < n then if P pos then Some pos else scan_from P n (pos + 1) else None)"
  by pat_completeness auto
termination by (relation "measure (\<lambda>(P, n, pos). n - pos)") auto

declare scan_from.simps [simp del]

definition is_line_start :: "bytes \<Rightarrow> offset \<Rightarrow> bool" where
  "is_line_start s pos \<longleftrightarrow> pos = 0 \<or> s ! (pos - 1) = newline"

definition find_labeled_marker :: "bytes \<Rightarrow> offset \<Rightarrow> bytes \<Rightarrow> offset option" where
  "find_labeled_marker s start marker =
     scan_from (\<lambda>pos. is_line_start s pos \<and> substr s pos (length marker) = marker \<and>
       pos + length marker < length s \<and> s ! (pos + length marker) = CHR '' '') (length s) start"

definition find_separator :: "bytes \<Rightarrow> offset \<Rightarrow> offset option" where
  "find_separator s start =
     scan_from (\<lambda>pos. is_line_start s pos \<and> substr s pos 7 = ''======='' \<and>
       (pos + 7 = length s \<or> s ! (pos + 7) = newline)) (length s) start"

definition line_end_after :: "bytes \<Rightarrow> offset \<Rightarrow> offset" where
  "line_end_after s markerStart =
     (case scan_from (\<lambda>pos. s ! pos = newline) (length s) markerStart of
        None \<Rightarrow> length s | Some nl \<Rightarrow> nl + 1)"

text \<open>
  One turn of the loop, from the start marker it found: the hunk, or \<open>None\<close> where the code
  drops the marker and resumes after its line.
\<close>

definition read_hunk :: "bytes \<Rightarrow> offset \<Rightarrow> conflict_hunk option" where
  "read_hunk s startMarker =
     (let oursStart = line_end_after s startMarker;
          sepMarker = find_separator s oursStart;
          nestedBeforeSep = find_labeled_marker s oursStart ''<<<<<<<''
      in case sepMarker of
           None \<Rightarrow> None
         | Some sep \<Rightarrow>
             if (case nestedBeforeSep of None \<Rightarrow> False | Some n \<Rightarrow> n < sep) then None
             else
               let baseMarker = (case find_labeled_marker s oursStart ''|||||||'' of
                                   None \<Rightarrow> None | Some b \<Rightarrow> if b > sep then None else Some b);
                   oursEnd = (case baseMarker of None \<Rightarrow> sep | Some b \<Rightarrow> b);
                   base = map_option (\<lambda>b. (line_end_after s b, sep)) baseMarker;
                   theirsStart = line_end_after s sep;
                   nestedAfterSep = find_labeled_marker s theirsStart ''<<<<<<<''
               in case find_labeled_marker s theirsStart ''>>>>>>>'' of
                    None \<Rightarrow> None
                  | Some e \<Rightarrow>
                      if (case nestedAfterSep of None \<Rightarrow> False | Some n \<Rightarrow> n < e) then None
                      else Some \<lparr>conflictStart = startMarker, conflictEnd = line_end_after s e,
                                 oursRange = (oursStart, oursEnd), baseRange = base,
                                 theirsRange = (theirsStart, e)\<rparr>)"

lemma scan_from_Some:
  "scan_from P n pos = Some p \<Longrightarrow> pos \<le> p \<and> p < n \<and> P p \<and> (\<forall>q. pos \<le> q \<and> q < p \<longrightarrow> \<not> P q)"
proof (induction P n pos rule: scan_from.induct)
  case (1 P n pos)
  show ?case
  proof (cases "pos < n \<and> \<not> P pos")
    case True
    then have "scan_from P n (pos + 1) = Some p"
      using "1.prems" by (simp add: scan_from.simps [of P n pos])
    with "1.IH" True show ?thesis by (metis Suc_eq_plus1 Suc_leD Suc_leI le_neq_implies_less)
  next
    case False
    then show ?thesis using "1.prems" by (auto simp: scan_from.simps [of P n pos] split: if_splits)
  qed
qed

lemma scan_from_None: "scan_from P n pos = None \<Longrightarrow> \<forall>q. pos \<le> q \<and> q < n \<longrightarrow> \<not> P q"
proof (induction P n pos rule: scan_from.induct)
  case (1 P n pos)
  show ?case
  proof (cases "pos < n")
    case True
    then have "\<not> P pos" "scan_from P n (pos + 1) = None"
      using "1.prems" by (auto simp: scan_from.simps [of P n pos] split: if_splits)
    with "1.IH" True have "\<forall>q. pos + 1 \<le> q \<and> q < n \<longrightarrow> \<not> P q" by blast
    with \<open>\<not> P pos\<close> show ?thesis by (metis Suc_eq_plus1 Suc_leI le_neq_implies_less)
  qed auto
qed

lemma scan_from_hit: "pos < n \<Longrightarrow> P pos \<Longrightarrow> scan_from P n pos = Some pos"
  by (subst scan_from.simps) simp

lemma scan_from_skip:
  "pos \<le> m \<Longrightarrow> (\<And>q. pos \<le> q \<Longrightarrow> q < m \<Longrightarrow> \<not> P q) \<Longrightarrow> m \<le> n \<Longrightarrow> scan_from P n pos = scan_from P n m"
proof (induction "m - pos" arbitrary: pos)
  case (Suc d)
  have pos: "pos < m" "pos < n" using Suc.hyps(2) Suc.prems(3) by simp_all
  then have "\<not> P pos" using Suc.prems(2) by simp
  with pos have "scan_from P n pos = scan_from P n (pos + 1)"
    by (subst scan_from.simps) simp
  also have "\<dots> = scan_from P n m"
    by (rule Suc.hyps(1)) (use Suc.hyps(2) Suc.prems in auto)
  finally show ?case .
qed simp

lemma line_end_after_bounds: "p < length s \<Longrightarrow> p < line_end_after s p \<and> line_end_after s p \<le> length s"
  by (auto simp: line_end_after_def split: option.splits dest!: scan_from_Some)

lemma find_bounds:
  "find_labeled_marker s start m = Some p \<Longrightarrow> start \<le> p \<and> p < length s"
  "find_separator s start = Some p \<Longrightarrow> start \<le> p \<and> p < length s"
  unfolding find_labeled_marker_def find_separator_def by (blast dest: scan_from_Some)+

lemma line_end_after_start: "is_line_start s (line_end_after s p) \<or> line_end_after s p = length s"
  by (auto simp: line_end_after_def is_line_start_def split: option.splits dest!: scan_from_Some)

text \<open>A hunk's parts follow one another.\<close>

lemma read_hunk_cases:
  assumes "read_hunk s p = Some k"
  obtains sep e where "find_separator s (line_end_after s p) = Some sep"
    "find_labeled_marker s (line_end_after s sep) ''>>>>>>>'' = Some e"
    "k = \<lparr>conflictStart = p, conflictEnd = line_end_after s e,
       oursRange = (line_end_after s p, case baseRange k of None \<Rightarrow> sep | Some _ \<Rightarrow> snd (oursRange k)),
       baseRange = baseRange k, theirsRange = (line_end_after s sep, e)\<rparr>"
    "\<And>r. baseRange k = Some r \<Longrightarrow>
       find_labeled_marker s (line_end_after s p) ''|||||||'' = Some (snd (oursRange k)) \<and>
       snd (oursRange k) \<le> sep \<and> r = (line_end_after s (snd (oursRange k)), sep)"
  using assms
  by (auto simp: read_hunk_def Let_def split: option.splits if_splits)

lemma marker_line_start:
  "find_labeled_marker s start m = Some p \<Longrightarrow> is_line_start s p"
  "find_separator s start = Some p \<Longrightarrow> is_line_start s p"
  unfolding find_labeled_marker_def find_separator_def by (blast dest: scan_from_Some)+

lemma marker_apart:
  assumes "find_separator s a = Some sep" "find_labeled_marker s b m = Some q" "m \<noteq> ''=======''" "length m = 7"
  shows "q \<noteq> sep"
  using assms unfolding find_separator_def find_labeled_marker_def by (auto dest!: scan_from_Some)

text \<open>A line that starts between a marker and the next line start does not exist.\<close>

lemma line_end_after_least:
  assumes "p < q" "q < length s" "is_line_start s q"
  shows "line_end_after s p \<le> q"
proof -
  have nl: "s ! (q - 1) = newline" "p \<le> q - 1" "q - 1 < length s"
    using assms by (auto simp: is_line_start_def)
  show ?thesis
  proof (cases "scan_from (\<lambda>pos. s ! pos = newline) (length s) p")
    case None
    from scan_from_None [OF None] nl show ?thesis by blast
  next
    case (Some m)
    then have "m \<le> q - 1"
      using scan_from_Some [OF Some] nl by (meson not_le)
    then show ?thesis using Some assms(1) by (simp add: line_end_after_def)
  qed
qed

lemma read_hunk_bounds:
  assumes "read_hunk s p = Some k" "p < length s"
  shows "conflictStart k = p" "p < fst (oursRange k)" "fst (oursRange k) \<le> snd (oursRange k)"
    "\<And>b. baseRange k = Some b \<Longrightarrow> snd (oursRange k) < fst b \<and> fst b \<le> snd b \<and> snd b < fst (theirsRange k)"
    "snd (oursRange k) < fst (theirsRange k)"
    "fst (theirsRange k) \<le> snd (theirsRange k)" "snd (theirsRange k) < conflictEnd k" "conflictEnd k \<le> length s"
    "is_line_start s (snd (oursRange k))" "is_line_start s (snd (theirsRange k))"
    "\<And>b. baseRange k = Some b \<Longrightarrow> is_line_start s (snd b)"
    "is_line_start s (conflictEnd k) \<or> conflictEnd k = length s"
proof -
  from assms(1) obtain sep e where f: "find_separator s (line_end_after s p) = Some sep"
    "find_labeled_marker s (line_end_after s sep) ''>>>>>>>'' = Some e"
    "k = \<lparr>conflictStart = p, conflictEnd = line_end_after s e,
       oursRange = (line_end_after s p, case baseRange k of None \<Rightarrow> sep | Some _ \<Rightarrow> snd (oursRange k)),
       baseRange = baseRange k, theirsRange = (line_end_after s sep, e)\<rparr>"
    "\<And>r. baseRange k = Some r \<Longrightarrow>
       find_labeled_marker s (line_end_after s p) ''|||||||'' = Some (snd (oursRange k)) \<and>
       snd (oursRange k) \<le> sep \<and> r = (line_end_after s (snd (oursRange k)), sep)"
    by (rule read_hunk_cases) blast
  have sep: "line_end_after s p \<le> sep" "sep < length s" "is_line_start s sep"
    using find_bounds(2) [OF f(1)] marker_line_start(2) [OF f(1)] by simp_all
  have e: "line_end_after s sep \<le> e" "e < length s"
    using find_bounds(1) [OF f(2)] by auto
  have ours: "fst (oursRange k) = line_end_after s p" "fst (theirsRange k) = line_end_after s sep"
    "snd (theirsRange k) = e" "conflictEnd k = line_end_after s e" "conflictStart k = p"
    by (subst f(3), simp)+
  have base: "snd (oursRange k) < fst b \<and> fst b \<le> snd b \<and> snd b = sep \<and> line_end_after s p \<le> snd (oursRange k)"
    if "baseRange k = Some b" for b
  proof -
    let ?q = "snd (oursRange k)"
    have q: "find_labeled_marker s (line_end_after s p) ''|||||||'' = Some ?q" "?q \<le> sep" "b = (line_end_after s ?q, sep)"
      using f(4) [OF that] by blast+
    then have "?q \<noteq> sep" using marker_apart [OF f(1) q(1)] by simp
    then have "?q < sep" using q(2) by simp
    then show ?thesis
      using q(3) find_bounds(1) [OF q(1)] line_end_after_bounds [of ?q s] line_end_after_least [OF _ sep(2,3), of ?q] by simp
  qed
  have ours_end: "snd (oursRange k) = sep" if "baseRange k = None"
    using that by (subst f(3)) simp
  note lt = line_end_after_bounds [OF assms(2)] line_end_after_bounds [OF sep(2)] line_end_after_bounds [OF e(2)]
  show "conflictStart k = p" "p < fst (oursRange k)" "fst (theirsRange k) \<le> snd (theirsRange k)"
    "snd (theirsRange k) < conflictEnd k" "conflictEnd k \<le> length s"
    using ours e lt by simp_all
  show "fst (oursRange k) \<le> snd (oursRange k)"
    using ours base ours_end sep(1) by (cases "baseRange k") auto
  show "snd (oursRange k) < fst (theirsRange k)"
    using ours base ours_end lt by (cases "baseRange k") fastforce+
  show "snd (oursRange k) < fst b \<and> fst b \<le> snd b \<and> snd b < fst (theirsRange k)" if "baseRange k = Some b" for b
    using base [OF that] ours lt by simp
  show "is_line_start s (snd b)" if "baseRange k = Some b" for b
    using base [OF that] sep(3) by simp
  show "is_line_start s (conflictEnd k) \<or> conflictEnd k = length s"
    unfolding ours(4) by (rule line_end_after_start)
  show "is_line_start s (snd (theirsRange k))"
    unfolding ours(3) by (rule marker_line_start(1) [OF f(2)])
  show "is_line_start s (snd (oursRange k))"
  proof (cases "baseRange k")
    case None
    then show ?thesis using ours_end sep(3) by simp
  next
    case (Some b)
    show ?thesis
      by (rule marker_line_start(1) [OF conjunct1 [OF f(4) [OF Some]]])
  qed
qed

lemma read_hunk_advances:
  "read_hunk s p = Some k \<Longrightarrow> p < length s \<Longrightarrow> p < conflictEnd k"
  using read_hunk_bounds(2-7) [of s p k] by linarith

function parse_from :: "bytes \<Rightarrow> offset \<Rightarrow> conflict_hunk list" where
  "parse_from s pos =
     (if pos < length s then
        case find_labeled_marker s pos ''<<<<<<<'' of
          None \<Rightarrow> []
        | Some startMarker \<Rightarrow>
            (case read_hunk s startMarker of
               None \<Rightarrow> parse_from s (line_end_after s startMarker)
             | Some k \<Rightarrow> k # parse_from s (conflictEnd k))
      else [])"
  by pat_completeness auto
termination
proof (relation "measure (\<lambda>(s, pos). length s - pos)", goal_cases)
  case (2 s pos st)
  then show ?case
    using find_bounds(1) [of s pos] line_end_after_bounds [of st s] by fastforce
next
  case (3 s pos st k)
  then show ?case
    using find_bounds(1) [of s pos _ st] read_hunk_advances [of s st k] by fastforce
qed simp

declare parse_from.simps [simp del]

definition parse_conflict_hunks :: "bytes \<Rightarrow> conflict_hunk list" where
  "parse_conflict_hunks s = parse_from s 0"


section \<open>Texts in chunks\<close>

text \<open>What a line is to the parser, given the text from its start on.\<close>

definition labeled :: "bytes \<Rightarrow> bytes \<Rightarrow> bool" where
  "labeled marker t \<longleftrightarrow> take (length marker) t = marker \<and> length marker < length t \<and> t ! length marker = CHR '' ''"

definition separates :: "bytes \<Rightarrow> bool" where
  "separates t \<longleftrightarrow> take 7 t = ''======='' \<and> (length t = 7 \<or> t ! 7 = newline)"

datatype line_kind = StartLine | BaseLine | SeparatorLine | EndLine

fun is_kind :: "line_kind \<Rightarrow> bytes \<Rightarrow> bool" where
  "is_kind StartLine t = labeled ''<<<<<<<'' t"
| "is_kind BaseLine t = labeled ''|||||||'' t"
| "is_kind EndLine t = labeled ''>>>>>>>'' t"
| "is_kind SeparatorLine t = separates t"

definition find_kind :: "bytes \<Rightarrow> offset \<Rightarrow> line_kind \<Rightarrow> offset option" where
  "find_kind s start k = scan_from (\<lambda>pos. is_line_start s pos \<and> is_kind k (drop pos s)) (length s) start"

lemma scan_from_cong: "(\<And>q. q < n \<Longrightarrow> P q = Q q) \<Longrightarrow> scan_from P n pos = scan_from Q n pos"
proof (induction "n - pos" arbitrary: pos)
  case 0
  then show ?case by (subst (1 2) scan_from.simps) simp
next
  case (Suc d)
  then show ?case using Suc.hyps(1) [of "pos + 1"] by (subst (1 2) scan_from.simps) simp
qed

lemma labeled_drop:
  "q < length s \<Longrightarrow> labeled m (drop q s) \<longleftrightarrow>
    substr s q (length m) = m \<and> q + length m < length s \<and> s ! (q + length m) = CHR '' ''"
  by (auto simp: labeled_def substr_def)

lemma find_kinds:
  "find_labeled_marker s start ''<<<<<<<'' = find_kind s start StartLine"
  "find_labeled_marker s start ''|||||||'' = find_kind s start BaseLine"
  "find_labeled_marker s start ''>>>>>>>'' = find_kind s start EndLine"
  unfolding find_labeled_marker_def find_kind_def is_kind.simps
  by (rule scan_from_cong, simp add: labeled_drop)+

lemma find_separator_kind: "find_separator s start = find_kind s start SeparatorLine"
  unfolding find_separator_def find_kind_def is_kind.simps
proof (rule scan_from_cong)
  fix q assume q: "q < length s"
  have "q + 7 \<le> length s" if "substr s q 7 = ''======='' "
  proof -
    from that have "length (substr s q 7) = 7" by simp
    then show ?thesis using q by simp
  qed
  then show "(is_line_start s q \<and> substr s q 7 = ''======='' \<and> (q + 7 = length s \<or> s ! (q + 7) = newline)) =
      (is_line_start s q \<and> separates (drop q s))"
    using q by (auto simp: separates_def substr_def)
qed

text \<open>Text that ends with its last line's newline: what follows does not change its lines.\<close>

definition closed :: "bytes \<Rightarrow> bool" where
  "closed t \<longleftrightarrow> t = [] \<or> last t = newline"

lemma closed_append: "closed a \<Longrightarrow> closed b \<Longrightarrow> closed (a @ b)"
  by (auto simp: closed_def last_append)

lemma kind_local:
  assumes "closed t" "t \<noteq> []"
  shows "is_kind k (t @ r) \<longleftrightarrow> is_kind k t"
proof -
  have nl: "newline \<in> set t" using assms by (auto simp: closed_def dest: last_in_set)
  have lab: "labeled m (t @ r) \<longleftrightarrow> labeled m t" if "newline \<notin> set m" for m
  proof (cases "length m < length t")
    case True
    then show ?thesis by (simp add: labeled_def nth_append)
  next
    case False
    then have "take (length m) (t @ r) = t @ take (length m - length t) r" by simp
    moreover have "newline \<in> set (t @ take (length m - length t) r)" using nl by simp
    ultimately have "take (length m) (t @ r) \<noteq> m" using that by metis
    with False show ?thesis by (simp add: labeled_def)
  qed
  have sep: "separates (t @ r) \<longleftrightarrow> separates t"
  proof (cases "7 < length t")
    case True
    then show ?thesis by (simp add: separates_def nth_append)
  next
    case False
    then have "newline \<in> set (take 7 (t @ r))" "newline \<in> set (take 7 t)"
      using nl by simp_all
    moreover have "newline \<notin> set ''=======''" by simp
    ultimately show ?thesis unfolding separates_def by metis
  qed
  show ?thesis by (cases k) (simp_all add: lab sep)
qed

text \<open>The lines of a closed text that are of a kind.\<close>

definition free_of :: "line_kind \<Rightarrow> bytes \<Rightarrow> bool" where
  "free_of k t \<longleftrightarrow> (\<forall>q < length t. is_line_start t q \<longrightarrow> \<not> is_kind k (drop q t))"

lemma is_line_start_append:
  assumes "closed pre" "q < length t"
  shows "is_line_start (pre @ t @ r) (length pre + q) \<longleftrightarrow> is_line_start t q"
proof (cases q)
  case 0
  then show ?thesis
    using assms(1) by (cases "pre = []") (auto simp: is_line_start_def closed_def nth_append last_conv_nth)
next
  case (Suc q')
  then show ?thesis using assms(2) by (simp add: is_line_start_def nth_append)
qed

lemma closed_drop: "closed t \<Longrightarrow> closed (drop q t)"
  by (cases "q < length t") (auto simp: closed_def last_drop)

lemma find_kind_skip:
  assumes "closed pre" "closed t" "free_of k t"
  shows "find_kind (pre @ t @ r) (length pre) k = find_kind (pre @ t @ r) (length pre + length t) k"
  unfolding find_kind_def
proof (rule scan_from_skip)
  fix q assume q: "length pre \<le> q" "q < length pre + length t"
  define j where "j = q - length pre"
  have j: "q = length pre + j" "j < length t" using q by (auto simp: j_def)
  have "is_kind k (drop q (pre @ t @ r)) \<longleftrightarrow> is_kind k (drop j t)"
    using kind_local [OF closed_drop [OF assms(2)], of j k r] j by simp
  then show "\<not> (is_line_start (pre @ t @ r) q \<and> is_kind k (drop q (pre @ t @ r)))"
    using is_line_start_append [OF assms(1) j(2), of r] assms(3) j by (auto simp: free_of_def)
qed auto

lemma find_kind_hit:
  assumes "closed pre" "closed t" "t \<noteq> []" "is_kind k t"
  shows "find_kind (pre @ t @ r) (length pre) k = Some (length pre)"
  unfolding find_kind_def
  using assms kind_local [OF assms(2,3), of k r] is_line_start_append [OF assms(1), of 0 t r]
  by (intro scan_from_hit) (auto simp: is_line_start_def)

lemma find_kind_end: "find_kind s (length s) k = None"
  unfolding find_kind_def by (subst scan_from.simps) simp

type_synonym chunk = "line_kind option \<times> bytes"

fun chunk_ok :: "chunk \<Rightarrow> bool" where
  "chunk_ok (None, t) \<longleftrightarrow> closed t \<and> (\<forall>k. free_of k t)"
| "chunk_ok (Some k, t) \<longleftrightarrow> (\<exists>l. t = l @ [newline] \<and> newline \<notin> set l) \<and> (\<forall>k'. is_kind k' t \<longleftrightarrow> k' = k)"

fun find_chunk :: "line_kind \<Rightarrow> chunk list \<Rightarrow> nat option" where
  "find_chunk k [] = None"
| "find_chunk k ((k', t) # cs) = (if k' = Some k then Some 0 else map_option ((+) (length t)) (find_chunk k cs))"

abbreviation flat :: "chunk list \<Rightarrow> bytes" where
  "flat cs \<equiv> concat (map snd cs)"

lemma single_line:
  assumes "t = l @ [newline]" "newline \<notin> set l" "q < length t" "is_line_start t q"
  shows "q = 0"
proof (rule ccontr)
  assume "q \<noteq> 0"
  then have "t ! (q - 1) = newline" "q - 1 < length l"
    using assms by (auto simp: is_line_start_def)
  then have "l ! (q - 1) = newline" using assms(1) by (simp add: nth_append)
  moreover have "l ! (q - 1) \<in> set l" by (rule nth_mem) fact
  ultimately show False using assms(2) by simp
qed

lemma chunk_ok_closed: "chunk_ok (k, t) \<Longrightarrow> closed t"
  by (cases k) (auto simp: closed_def)

lemma header_free: "chunk_ok (Some k, t) \<Longrightarrow> k' \<noteq> k \<Longrightarrow> free_of k' t"
  using single_line by (fastforce simp: free_of_def)

lemma find_kind_chunks:
  "closed pre \<Longrightarrow> list_all chunk_ok cs \<Longrightarrow>
    find_kind (pre @ flat cs) (length pre) k = map_option ((+) (length pre)) (find_chunk k cs)"
proof (induction cs arbitrary: pre)
  case Nil
  then show ?case using find_kind_end [of pre k] by simp
next
  case (Cons c cs)
  obtain k' t where c: "c = (k', t)" by (cases c)
  have ok: "chunk_ok (k', t)" "list_all chunk_ok cs" "closed t"
    using Cons.prems(2) c chunk_ok_closed by auto
  show ?case
  proof (cases "k' = Some k")
    case True
    then have "t \<noteq> []" "is_kind k t" using ok(1) by auto
    then show ?thesis
      using find_kind_hit [OF Cons.prems(1) ok(3), of k "flat cs"] c True by simp
  next
    case False
    then have "free_of k t"
      using ok(1) header_free [of _ t k] by (cases k') auto
    from find_kind_skip [OF Cons.prems(1) ok(3) this, of "flat cs"]
    have "find_kind (pre @ flat (c # cs)) (length pre) k = find_kind ((pre @ t) @ flat cs) (length (pre @ t)) k"
      using c by simp
    also have "\<dots> = map_option ((+) (length (pre @ t))) (find_chunk k cs)"
      by (rule Cons.IH [OF closed_append [OF Cons.prems(1) ok(3)] ok(2)])
    finally show ?thesis using c False by (cases "find_chunk k cs") simp_all
  qed
qed

lemma line_end_after_header:
  assumes "chunk_ok (Some k, t)"
  shows "line_end_after (pre @ t @ r) (length pre) = length pre + length t"
proof -
  obtain l where l: "t = l @ [newline]" "newline \<notin> set l" using assms by auto
  let ?s = "pre @ t @ r"
  have "scan_from (\<lambda>pos. ?s ! pos = newline) (length ?s) (length pre) =
      scan_from (\<lambda>pos. ?s ! pos = newline) (length ?s) (length pre + length l)"
  proof (rule scan_from_skip)
    fix q assume q: "length pre \<le> q" "q < length pre + length l"
    then have j: "q - length pre < length l" by simp
    then have "?s ! q = l ! (q - length pre)"
      using l(1) q by (simp add: nth_append)
    moreover have "l ! (q - length pre) \<in> set l" using j by (rule nth_mem)
    ultimately show "?s ! q \<noteq> newline" using l(2) by metis
  qed (simp_all add: l(1))
  also have "\<dots> = Some (length pre + length l)"
    using l(1) by (intro scan_from_hit) (simp_all add: nth_append)
  finally show ?thesis by (simp add: line_end_after_def l(1))
qed

section \<open>Writing conflicts\<close>

text \<open>
  The convention of \<open>ThreeWayMerge\<close> and of \<open>git merge\<close>: text between conflicts, and conflicts of
  two labels, our section, the base section of diff3 style with its label if there is one, and
  their section.
\<close>

datatype piece =
    Plain bytes
  | Conflict bytes bytes "(bytes \<times> bytes) option" bytes bytes

definition header :: "bytes \<Rightarrow> bytes \<Rightarrow> bytes" where
  "header marker label = marker @ CHR '' '' # label @ [newline]"

definition separator :: bytes where
  "separator = ''=======''  @ [newline]"

definition base_chunks :: "(bytes \<times> bytes) option \<Rightarrow> chunk list" where
  "base_chunks base = (case base of None \<Rightarrow> [] | Some (label, b) \<Rightarrow> [(Some BaseLine, header ''|||||||'' label), (None, b)])"

fun piece_chunks :: "piece \<Rightarrow> chunk list" where
  "piece_chunks (Plain t) = [(None, t)]"
| "piece_chunks (Conflict label ours base theirs label') =
     [(Some StartLine, header ''<<<<<<<'' label), (None, ours)] @ base_chunks base @
     [(Some SeparatorLine, separator), (None, theirs), (Some EndLine, header ''>>>>>>>'' label')]"

definition render :: "piece list \<Rightarrow> bytes" where
  "render ps = flat (concat (map piece_chunks ps))"

definition plain_text :: "bytes \<Rightarrow> bool" where
  "plain_text t \<longleftrightarrow> closed t \<and> (\<forall>k. free_of k t)"

fun piece_ok :: "piece \<Rightarrow> bool" where
  "piece_ok (Plain t) \<longleftrightarrow> plain_text t"
| "piece_ok (Conflict label ours base theirs label') \<longleftrightarrow>
     newline \<notin> set label \<and> newline \<notin> set label' \<and> plain_text ours \<and> plain_text theirs \<and>
     (case base of None \<Rightarrow> True | Some (label'', b) \<Rightarrow> newline \<notin> set label'' \<and> plain_text b)"

text \<open>The hunks of pieces written from an offset on.\<close>

fun hunks_of :: "offset \<Rightarrow> piece list \<Rightarrow> conflict_hunk list" where
  "hunks_of off [] = []"
| "hunks_of off (Plain t # ps) = hunks_of (off + length t) ps"
| "hunks_of off (Conflict label ours base theirs label' # ps) =
     (let oursStart = off + length (header ''<<<<<<<'' label);
          sep = oursStart + length ours + length (flat (base_chunks base));
          theirsStart = sep + length separator;
          theirsEnd = theirsStart + length theirs;
          e = theirsEnd + length (header ''>>>>>>>'' label')
      in \<lparr>conflictStart = off, conflictEnd = e, oursRange = (oursStart, oursStart + length ours),
          baseRange = map_option (\<lambda>(l, b). (oursStart + length ours + length (header ''|||||||'' l), sep)) base,
          theirsRange = (theirsStart, theirsEnd)\<rparr> # hunks_of e ps)"

lemma header_ok:
  assumes "newline \<notin> set label"
  shows "chunk_ok (Some StartLine, header ''<<<<<<<'' label)" "chunk_ok (Some BaseLine, header ''|||||||'' label)"
    "chunk_ok (Some EndLine, header ''>>>>>>>'' label)" "chunk_ok (Some SeparatorLine, separator)"
proof -
  have kinds: "(\<forall>k. P k) \<longleftrightarrow> P StartLine \<and> P BaseLine \<and> P SeparatorLine \<and> P EndLine" for P
    using line_kind.induct [of P] by blast
  have shape: "\<exists>l. header m label = l @ [newline] \<and> newline \<notin> set l" if "newline \<notin> set m" for m
    using that assms by (intro exI [of _ "m @ CHR '' '' # label"]) (simp add: header_def)
  show "chunk_ok (Some StartLine, header ''<<<<<<<'' label)"
    unfolding chunk_ok.simps kinds
    by (rule conjI, rule shape, simp, simp add: header_def labeled_def separates_def)
  show "chunk_ok (Some BaseLine, header ''|||||||'' label)"
    unfolding chunk_ok.simps kinds
    by (rule conjI, rule shape, simp, simp add: header_def labeled_def separates_def)
  show "chunk_ok (Some EndLine, header ''>>>>>>>'' label)"
    unfolding chunk_ok.simps kinds
    by (rule conjI, rule shape, simp, simp add: header_def labeled_def separates_def)
  have "\<exists>l. separator = l @ [newline] \<and> newline \<notin> set l"
    by (intro exI [of _ "''=======''"]) (simp add: separator_def)
  then show "chunk_ok (Some SeparatorLine, separator)"
    unfolding chunk_ok.simps kinds
    by (rule conjI) (simp add: separator_def labeled_def separates_def)
qed

lemma pieces_ok: "list_all piece_ok ps \<Longrightarrow> list_all chunk_ok (concat (map piece_chunks ps))"
proof (induction ps)
  case (Cons p ps)
  have plain: "chunk_ok (None, t) \<longleftrightarrow> plain_text t" for t by (simp add: plain_text_def)
  have "list_all chunk_ok (piece_chunks p)"
    using Cons.prems
    by (cases p) (auto simp: plain base_chunks_def simp del: chunk_ok.simps intro: header_ok
      header_ok [of "[]", simplified] split: option.splits prod.splits)
  with Cons show ?case by simp
qed simp


lemma parse_from_skip:
  assumes "find_kind s p StartLine = find_kind s q StartLine" "p \<le> q" "q \<le> length s"
  shows "parse_from s p = parse_from s q"
proof (cases "q < length s")
  case True
  then show ?thesis
    using assms by (subst (1 2) parse_from.simps) (simp add: find_kinds)
next
  case False
  then have "find_kind s p StartLine = None" using assms find_kind_end [of s] by simp
  then show ?thesis
    using False by (subst (1 2) parse_from.simps) (simp add: find_kinds)
qed

lemma read_hunk_piece:
  assumes pre: "closed pre" and ok: "piece_ok (Conflict label ours base theirs label')" and rest: "list_all chunk_ok rest"
  shows "read_hunk (pre @ flat (piece_chunks (Conflict label ours base theirs label') @ rest)) (length pre) =
    Some (hd (hunks_of (length pre) [Conflict label ours base theirs label']))"
proof -
  let ?h1 = "header ''<<<<<<<'' label" and ?h2 = "header ''>>>>>>>'' label'"
  let ?bc = "base_chunks base"
  let ?s = "pre @ flat (piece_chunks (Conflict label ours base theirs label') @ rest)"
  let ?ch3 = "(None, theirs) # (Some EndLine, ?h2) # rest"
  let ?ch2 = "(Some SeparatorLine, separator) # ?ch3"
  have l: "newline \<notin> set label" "newline \<notin> set label'" using ok by simp_all
  note h1 = header_ok(1) [OF l(1)] and h2 = header_ok(3) [OF l(2)] and sep = header_ok(4) [OF l(1)]
  have all: "list_all chunk_ok (concat (map piece_chunks [Conflict label ours base theirs label']))"
    by (rule pieces_ok) (use ok in simp)
  have cls: "closed ?h1" "closed ours" "closed theirs" "closed separator"
    using chunk_ok_closed [OF h1] chunk_ok_closed [OF sep] ok by (simp_all add: plain_text_def)
  have cb: "closed (flat ?bc)"
  proof (cases base)
    case (Some x)
    then obtain lb b where x: "base = Some (lb, b)" by (cases x) auto
    then have "closed (header ''|||||||'' lb)" "closed b"
      using chunk_ok_closed [OF header_ok(2) [of lb]] ok by (simp_all add: plain_text_def)
    then show ?thesis using closed_append by (simp add: x base_chunks_def)
  qed (simp add: base_chunks_def closed_def)
  have s1: "?s = (pre @ ?h1) @ flat ((None, ours) # ?bc @ ?ch2)" by simp
  have s2: "?s = (pre @ ?h1 @ ours @ flat ?bc @ separator) @ flat ?ch3" by simp
  have ok1: "list_all chunk_ok ((None, ours) # ?bc @ ?ch2)" and ok3: "list_all chunk_ok ?ch3"
    using all rest by (simp_all del: chunk_ok.simps)
  have find1: "find_kind ?s (length (pre @ ?h1)) k =
      map_option ((+) (length (pre @ ?h1))) (find_chunk k ((None, ours) # ?bc @ ?ch2))" for k
    unfolding s1 by (rule find_kind_chunks [OF closed_append [OF pre cls(1)] ok1])
  have find3: "find_kind ?s (length (pre @ ?h1 @ ours @ flat ?bc @ separator)) k =
      map_option ((+) (length (pre @ ?h1 @ ours @ flat ?bc @ separator))) (find_chunk k ?ch3)" for k
    unfolding s2 by (rule find_kind_chunks [OF _ ok3]) (intro closed_append pre cls cb)
  define a1 where "a1 = length pre + length ?h1"
  define ps where "ps = a1 + length ours + length (flat ?bc)"
  define a3 where "a3 = ps + length separator"
  define pe where "pe = a3 + length theirs"
  have ends: "line_end_after ?s (length pre) = a1" "line_end_after ?s ps = a3"
    "line_end_after ?s pe = pe + length ?h2"
    using line_end_after_header [OF h1, of pre] line_end_after_header [OF sep, of "pre @ ?h1 @ ours @ flat ?bc"]
      line_end_after_header [OF h2, of "pre @ ?h1 @ ours @ flat ?bc @ separator @ theirs"]
    by (simp_all add: a1_def ps_def a3_def pe_def add.assoc)
  have sepm: "find_kind ?s a1 SeparatorLine = Some ps"
    using find1 [of SeparatorLine] by (cases base) (auto simp: base_chunks_def a1_def ps_def split: prod.splits)
  have nest1: "find_kind ?s a1 StartLine = Some n \<Longrightarrow> ps \<le> n" for n
    using find1 [of StartLine]
    by (cases base; cases "find_chunk StartLine rest") (auto simp: base_chunks_def a1_def ps_def split: prod.splits)
  have endm: "find_kind ?s a3 EndLine = Some pe"
    using find3 [of EndLine] by (simp add: a1_def ps_def a3_def pe_def add.assoc)
  have nest3: "find_kind ?s a3 StartLine = Some n \<Longrightarrow> pe \<le> n" for n
    using find3 [of StartLine]
    by (cases "find_chunk StartLine rest") (auto simp: a1_def ps_def a3_def pe_def add.assoc)
  have basem: "find_kind ?s a1 BaseLine = Some n \<Longrightarrow> ps < n" if "base = None" for n
    using find1 [of BaseLine] that
    by (cases "find_chunk BaseLine rest") (auto simp: base_chunks_def a1_def ps_def separator_def)
  have basem': "find_kind ?s a1 BaseLine = Some (a1 + length ours)" "a1 + length ours < ps"
    "line_end_after ?s (a1 + length ours) = a1 + length ours + length (header ''|||||||'' lb)"
    if "base = Some (lb, b)" for lb b
  proof -
    show "find_kind ?s a1 BaseLine = Some (a1 + length ours)" "a1 + length ours < ps"
      using find1 [of BaseLine] that by (simp_all add: base_chunks_def a1_def ps_def header_def)
    have "newline \<notin> set lb" using ok that by simp
    from line_end_after_header [OF header_ok(2) [OF this], of "pre @ ?h1 @ ours"]
    show "line_end_after ?s (a1 + length ours) = a1 + length ours + length (header ''|||||||'' lb)"
      using that by (simp add: base_chunks_def a1_def add.assoc)
  qed
  note facts = ends sepm endm
  have n1: "\<not> (case find_kind ?s a1 StartLine of None \<Rightarrow> False | Some n \<Rightarrow> n < ps)"
    using nest1 by (auto split: option.splits simp: not_less)
  have n3: "\<not> (case find_kind ?s a3 StartLine of None \<Rightarrow> False | Some n \<Rightarrow> n < pe)"
    using nest3 by (auto split: option.splits simp: not_less)
  have bm: "(case find_kind ?s a1 BaseLine of None \<Rightarrow> None | Some b \<Rightarrow> if b > ps then None else Some b) =
      map_option (\<lambda>_. a1 + length ours) base"
  proof (cases base)
    case None
    then show ?thesis using basem by (auto split: option.splits)
  next
    case (Some x)
    then obtain lb b where "base = Some (lb, b)" by (cases x) auto
    from basem' [OF this] this show ?thesis by simp
  qed
  have hunk: "hunks_of (length pre) [Conflict label ours base theirs label'] =
    [\<lparr>conflictStart = length pre, conflictEnd = pe + length ?h2, oursRange = (a1, a1 + length ours),
      baseRange = map_option (\<lambda>(l, b). (a1 + length ours + length (header ''|||||||'' l), ps)) base,
      theirsRange = (a3, pe)\<rparr>]"
    by (simp add: Let_def a1_def ps_def a3_def pe_def)
  have "read_hunk ?s (length pre) =
    Some \<lparr>conflictStart = length pre, conflictEnd = pe + length ?h2,
      oursRange = (a1, case map_option (\<lambda>_. a1 + length ours) base of None \<Rightarrow> ps | Some b \<Rightarrow> b),
      baseRange = map_option (\<lambda>b. (line_end_after ?s b, ps)) (map_option (\<lambda>_. a1 + length ours) base),
      theirsRange = (a3, pe)\<rparr>"
    unfolding read_hunk_def find_kinds find_separator_kind ends Let_def sepm option.case if_not_P [OF n1] bm
      endm if_not_P [OF n3] ..
  also have "(case map_option (\<lambda>_. a1 + length ours) base of None \<Rightarrow> ps | Some b \<Rightarrow> b) = a1 + length ours"
    by (cases base) (auto simp: ps_def base_chunks_def)
  also have "map_option (\<lambda>b. (line_end_after ?s b, ps)) (map_option (\<lambda>_. a1 + length ours) base) =
      map_option (\<lambda>(l, b). (a1 + length ours + length (header ''|||||||'' l), ps)) base"
    using basem'(3) by (cases base) auto
  finally show ?thesis unfolding hunk by simp
qed


lemma parse_from_pieces:
  "closed pre \<Longrightarrow> list_all piece_ok ps \<Longrightarrow> parse_from (pre @ render ps) (length pre) = hunks_of (length pre) ps"
proof (induction ps arbitrary: pre)
  case Nil
  then show ?case by (subst parse_from.simps) (simp add: render_def)
next
  case (Cons p ps)
  have rest: "list_all chunk_ok (concat (map piece_chunks ps))"
    by (rule pieces_ok) (use Cons.prems(2) in simp)
  show ?case
  proof (cases p)
    case (Plain t)
    then have t: "closed t" "free_of StartLine t" using Cons.prems(2) by (simp_all add: plain_text_def)
    have eq: "pre @ render (p # ps) = pre @ t @ render ps" using Plain by (simp add: render_def)
    have "parse_from (pre @ t @ render ps) (length pre) = parse_from (pre @ t @ render ps) (length pre + length t)"
      by (rule parse_from_skip [OF find_kind_skip [OF Cons.prems(1) t]]) simp_all
    also have "\<dots> = hunks_of (length pre + length t) ps"
      using Cons.IH [of "pre @ t"] closed_append [OF Cons.prems(1) t(1)] Cons.prems(2) by simp
    finally show ?thesis unfolding eq using Plain by simp
  next
    case (Conflict label ours base theirs label')
    let ?p = "Conflict label ours base theirs label'"
    let ?k = "hd (hunks_of (length pre) [?p])"
    let ?s = "pre @ render (p # ps)"
    have eq: "?s = pre @ flat (piece_chunks ?p @ concat (map piece_chunks ps))" "?s = (pre @ flat (piece_chunks ?p)) @ render ps"
      using Conflict by (simp_all add: render_def)
    have okp: "piece_ok ?p" using Conflict Cons.prems(2) by simp
    have read: "read_hunk ?s (length pre) = Some ?k"
      unfolding eq(1) by (rule read_hunk_piece [OF Cons.prems(1) okp rest])
    have all: "list_all chunk_ok (piece_chunks ?p @ concat (map piece_chunks ps))"
      using pieces_ok [of "[?p]"] okp rest by simp
    have find: "find_kind ?s (length pre) StartLine = Some (length pre)"
      unfolding eq(1) find_kind_chunks [OF Cons.prems(1) all] by simp
    have ends: "conflictEnd ?k = length (pre @ flat (piece_chunks ?p))"
      by (simp add: Let_def)
    have "closed (flat (piece_chunks ?p))"
      by (auto simp: closed_def header_def)
    then have cl: "closed (pre @ flat (piece_chunks ?p))" by (rule closed_append [OF Cons.prems(1)])
    have "length pre < length ?s" by (simp add: eq(2) header_def)
    then have "parse_from ?s (length pre) = ?k # parse_from ?s (conflictEnd ?k)"
      using find read by (subst parse_from.simps) (simp add: find_kinds)
    also have "parse_from ?s (conflictEnd ?k) = hunks_of (conflictEnd ?k) ps"
      unfolding eq(2) ends by (rule Cons.IH [OF cl]) (use Cons.prems(2) in simp)
    finally show ?thesis using Conflict by (simp add: Let_def)
  qed
qed

text \<open>Hunks come in order, one after the other, each with its parts in order.\<close>

fun hunks_ordered :: "bytes \<Rightarrow> offset \<Rightarrow> conflict_hunk list \<Rightarrow> bool" where
  "hunks_ordered s off [] \<longleftrightarrow> True"
| "hunks_ordered s off (k # ks) \<longleftrightarrow>
     off \<le> conflictStart k \<and> is_line_start s (conflictStart k) \<and>
     conflictStart k < fst (oursRange k) \<and> fst (oursRange k) \<le> snd (oursRange k) \<and>
     snd (oursRange k) < fst (theirsRange k) \<and> fst (theirsRange k) \<le> snd (theirsRange k) \<and>
     snd (theirsRange k) < conflictEnd k \<and> conflictEnd k \<le> length s \<and>
     (\<forall>b. baseRange k = Some b \<longrightarrow> snd (oursRange k) < fst b \<and> fst b \<le> snd b \<and> snd b < fst (theirsRange k) \<and>
       is_line_start s (snd b)) \<and>
     (is_line_start s (conflictEnd k) \<or> conflictEnd k = length s) \<and>
     is_line_start s (snd (oursRange k)) \<and> is_line_start s (snd (theirsRange k)) \<and>
     hunks_ordered s (conflictEnd k) ks"

lemma in_order_weaken: "hunks_ordered s off ks \<Longrightarrow> off' \<le> off \<Longrightarrow> hunks_ordered s off' ks"
  by (cases ks) auto

lemma parse_from_in_order: "hunks_ordered s pos (parse_from s pos)"
proof (induction s pos rule: parse_from.induct)
  case (1 s pos)
  show ?case
  proof (cases "pos < length s")
    case False
    then show ?thesis by (subst parse_from.simps) simp
  next
    case True
    show ?thesis
    proof (cases "find_labeled_marker s pos ''<<<<<<<''")
      case None
      then show ?thesis by (subst parse_from.simps) simp
    next
      case (Some st)
      have st: "pos \<le> st" "st < length s" "is_line_start s st"
        using Some by (auto simp: find_labeled_marker_def dest!: scan_from_Some)
      show ?thesis
      proof (cases "read_hunk s st")
        case None
        then have "parse_from s pos = parse_from s (line_end_after s st)"
          using True Some by (subst parse_from.simps) simp
        then show ?thesis
          using "1.IH"(1) [OF True Some None] line_end_after_bounds [OF st(2)] st(1) in_order_weaken by simp
      next
        case k: (Some k)
        then have "parse_from s pos = k # parse_from s (conflictEnd k)"
          using True Some by (subst parse_from.simps) simp
        then show ?thesis
          using "1.IH"(2) [OF True Some k] st read_hunk_bounds [OF k st(2)] by simp
      qed
    qed
  qed
qed

section \<open>The properties\<close>

text \<open>
  C26: conflicts are read back exactly as they are written.  A text of plain parts and conflicts
  (labels, our section, a diff3 base section or none, their section), in which every plain part and
  every section is empty or ends its last line, none of them holds a line that looks like a marker,
  and no label has a newline, parses to one hunk per conflict with the very ranges its parts were
  written at.  (A section that does not end its last line is written right in front of the next
  marker, which is then no line of its own, and the conflict is not found.)
\<close>

theorem conflicts_read_back:
  assumes "list_all piece_ok ps"
  shows "parse_conflict_hunks (render ps) = hunks_of 0 ps"
  using parse_from_pieces [of "[]" ps] assms by (simp add: parse_conflict_hunks_def closed_def)

theorem conflicts_read_back_witness:
  "parse_conflict_hunks (render [Plain [], Conflict ''buffer'' [CHR ''a'', newline] (Some ([], [])) [] ''disk'']) =
    hunks_of 0 [Plain [], Conflict ''buffer'' [CHR ''a'', newline] (Some ([], [])) [] ''disk'']"
  by (rule conflicts_read_back)
    (auto simp: plain_text_def closed_def free_of_def is_line_start_def labeled_def separates_def less_Suc_eq
      split: line_kind.splits elim!: is_kind.elims)

text \<open>
  Whatever text is parsed, malformed markers included, the parser ends and its hunks are in
  document order, apart from each other, start on a line, lie inside the text, and hold their
  sections in the order start marker, ours, base, separator, theirs, end marker.
\<close>

theorem hunks_are_in_order:
  "hunks_ordered s 0 (parse_conflict_hunks s)"
  unfolding parse_conflict_hunks_def by (rule parse_from_in_order)

end

