(* ===== verification/MergeAlignment.thy ===== *)
theory MergeAlignment
  imports ConflictHunk LineDiff
begin

text \<open>
  \<open>Source/Text/MergeAlignment.h\<close> and \<open>MergeAlignment.cpp\<close>: the sides of a text with conflict
  markers, how their lines correspond to its own, and the blank rows that put corresponding
  lines of several panes on one screen row.

  A side is a text and a list of chunks that tile both texts.  \<open>None\<close> is \<open>std::nullopt\<close> for
  \<open>merge_side_from_markers\<close> and \<open>side_line_at\<close>; for \<open>align_panes\<close> it is a subtraction that
  would wrap around or a write outside a vector, and for \<open>refine_merge_side\<close> what is \<open>None\<close> in
  the line diff.  The lemmas exclude these faults.
\<close>

section \<open>Sides\<close>

record aligned_chunk =
  mergedLine :: nat
  mergedCount :: nat
  sideLine :: nat
  sideCount :: nat
  chunkChanged :: bool

record merge_side =
  sideText :: bytes
  sideLineCount :: nat
  sideChunks :: "aligned_chunk list"

datatype merge_side_kind = Ours | Base | Theirs

definition lines_before :: "bytes \<Rightarrow> offset \<Rightarrow> nat" where
  "lines_before s byte =
     count_list (take byte s) newline + (if byte > 0 \<and> s ! (byte - 1) \<noteq> newline then 1 else 0)"

fun section_of :: "conflict_hunk \<Rightarrow> merge_side_kind \<Rightarrow> byte_span option" where
  "section_of k Ours = Some (oursRange k)"
| "section_of k Theirs = Some (theirsRange k)"
| "section_of k Base = baseRange k"

text \<open>The locals of \<open>MergeSideFromMarkers\<close>: the side so far, \<open>copiedTo\<close> and \<open>mergedLine\<close>.\<close>

record side_builder =
  builtSide :: merge_side
  copiedTo :: offset
  mergedAt :: nat

definition append_unchanged :: "bytes \<Rightarrow> offset \<Rightarrow> side_builder \<Rightarrow> side_builder" where
  "append_unchanged merged e b =
     (let side = builtSide b;
          n = lines_before merged e - mergedAt b;
          chunk = \<lparr>mergedLine = mergedAt b, mergedCount = n, sideLine = sideLineCount side, sideCount = n,
                   chunkChanged = False\<rparr>
      in \<lparr>builtSide = \<lparr>sideText = sideText side @ substr merged (copiedTo b) (e - copiedTo b),
                        sideLineCount = sideLineCount side + n,
                        sideChunks = sideChunks side @ (if n > 0 then [chunk] else [])\<rparr>,
          copiedTo = e, mergedAt = mergedAt b + n\<rparr>)"

definition append_section :: "bytes \<Rightarrow> conflict_hunk \<Rightarrow> byte_span \<Rightarrow> side_builder \<Rightarrow> side_builder" where
  "append_section merged k sect b =
     (let side = builtSide b;
          content = substr merged (fst sect) (snd sect - fst sect);
          n = length (split_lines content);
          m = lines_before merged (conflictEnd k) - mergedAt b;
          chunk = \<lparr>mergedLine = mergedAt b, mergedCount = m, sideLine = sideLineCount side, sideCount = n,
                   chunkChanged = True\<rparr>
      in \<lparr>builtSide = \<lparr>sideText = sideText side @ content, sideLineCount = sideLineCount side + n,
                        sideChunks = sideChunks side @ [chunk]\<rparr>,
          copiedTo = conflictEnd k, mergedAt = mergedAt b + m\<rparr>)"

fun append_hunks :: "bytes \<Rightarrow> merge_side_kind \<Rightarrow> conflict_hunk list \<Rightarrow> side_builder \<Rightarrow> side_builder option" where
  "append_hunks merged kind [] b = Some b"
| "append_hunks merged kind (k # ks) b =
     (case section_of k kind of
        None \<Rightarrow> None
      | Some sect \<Rightarrow>
          append_hunks merged kind ks (append_section merged k sect (append_unchanged merged (conflictStart k) b)))"

definition merge_side_from_markers :: "bytes \<Rightarrow> conflict_hunk list \<Rightarrow> merge_side_kind \<Rightarrow> merge_side option" where
  "merge_side_from_markers merged hunks kind =
     map_option (\<lambda>b. builtSide (append_unchanged merged (length merged) b))
       (append_hunks merged kind hunks
         \<lparr>builtSide = \<lparr>sideText = [], sideLineCount = 0, sideChunks = []\<rparr>, copiedTo = 0, mergedAt = 0\<rparr>)"

section \<open>Refining a side\<close>

record change_region =
  regionFirst :: nat
  regionLast :: nat
  mergedExtra :: int
  sideExtra :: int

definition changed_pieces :: "aligned_chunk list \<Rightarrow> line_diff_hunk list \<Rightarrow> change_region list" where
  "changed_pieces chunks hunks =
     map (\<lambda>c. \<lparr>regionFirst = sideLine c, regionLast = sideLine c + sideCount c,
                mergedExtra = int (mergedCount c) - int (sideCount c), sideExtra = 0\<rparr>) (filter chunkChanged chunks) @
     map (\<lambda>h. \<lparr>regionFirst = aStart h, regionLast = aStart h + aCount h,
                mergedExtra = 0, sideExtra = int (bCount h) - int (aCount h)\<rparr>) hunks"

text \<open>One turn of the loop that joins pieces; the back of the vector is the end of the list.\<close>

definition join_piece :: "change_region list \<Rightarrow> change_region \<Rightarrow> change_region list" where
  "join_piece regions p =
     (if regions \<noteq> [] \<and> regionFirst p \<le> regionLast (last regions) then
        let r = last regions in
          butlast regions @ [r\<lparr>regionLast := max (regionLast r) (regionLast p),
                               mergedExtra := mergedExtra r + mergedExtra p,
                               sideExtra := sideExtra r + sideExtra p\<rparr>]
      else regions @ [p])"

text \<open>The locals of \<open>RefineMergeSide\<close>'s last loop.\<close>

record refine_state =
  refinedChunks :: "aligned_chunk list"
  refinedMarker :: nat
  refinedMerged :: nat
  refinedSide :: nat

definition refine_unchanged :: "nat \<Rightarrow> refine_state \<Rightarrow> refine_state" where
  "refine_unchanged until t =
     (let n = until - refinedMarker t in
        if n > 0 then
          \<lparr>refinedChunks = refinedChunks t @
             [\<lparr>mergedLine = refinedMerged t, mergedCount = n, sideLine = refinedSide t, sideCount = n, chunkChanged = False\<rparr>],
           refinedMarker = until, refinedMerged = refinedMerged t + n, refinedSide = refinedSide t + n\<rparr>
        else t\<lparr>refinedMarker := until\<rparr>)"

definition refine_region :: "refine_state \<Rightarrow> change_region \<Rightarrow> refine_state" where
  "refine_region t0 r =
     (let t = refine_unchanged (regionFirst r) t0;
          span = regionLast r - regionFirst r;
          m = nat (int span + mergedExtra r);
          n = nat (int span + sideExtra r)
      in \<lparr>refinedChunks = refinedChunks t @
            [\<lparr>mergedLine = refinedMerged t, mergedCount = m, sideLine = refinedSide t, sideCount = n, chunkChanged = True\<rparr>],
          refinedMarker = regionLast r, refinedMerged = refinedMerged t + m, refinedSide = refinedSide t + n\<rparr>)"

definition refine_merge_side :: "merge_side \<Rightarrow> bytes \<Rightarrow> merge_side option" where
  "refine_merge_side fromMarkers text_of_side =
     (let markerLines = split_lines (sideText fromMarkers);
          sideLines = split_lines text_of_side
      in map_option (\<lambda>hunks.
           let pieces = sort_key regionFirst (changed_pieces (sideChunks fromMarkers) hunks);
               regions = foldl join_piece [] pieces;
               t = foldl refine_region
                     \<lparr>refinedChunks = [], refinedMarker = 0, refinedMerged = 0, refinedSide = 0\<rparr> regions
           in \<lparr>sideText = text_of_side, sideLineCount = length sideLines,
               sideChunks = refinedChunks (refine_unchanged (sideLineCount fromMarkers) t)\<rparr>)
         (diff_lines markerLines sideLines))"

section \<open>The rows of a pane\<close>

text \<open>\<open>PaneAlignment\<close> is its vector \<open>rowOfLine_\<close>, which is never empty.\<close>

type_synonym pane_alignment = "nat list"

definition leading_rows :: "pane_alignment \<Rightarrow> nat" where
  "leading_rows rows = rows ! 0"

definition rows_after :: "pane_alignment \<Rightarrow> nat \<Rightarrow> nat" where
  "rows_after rows line = (if line + 1 \<ge> length rows then 0 else rows ! (line + 1) - rows ! line - 1)"

definition aligned_row :: "pane_alignment \<Rightarrow> nat \<Rightarrow> nat" where
  "aligned_row rows line = rows ! min line (length rows - 1)"

text \<open>\<open>std::upper_bound\<close> over the rows of lines, which increase.\<close>

definition line_at_aligned_row :: "pane_alignment \<Rightarrow> nat \<Rightarrow> nat" where
  "line_at_aligned_row rows row =
     (let lineCount = length rows - 1;
          it = length (takeWhile (\<lambda>r. r \<le> row) (take lineCount rows))
      in if lineCount = 0 then 0 else if it = 0 then 0 else it - 1)"

definition total_rows :: "pane_alignment \<Rightarrow> nat" where
  "total_rows rows = last rows"

definition pane_line_count :: "pane_alignment \<Rightarrow> nat" where
  "pane_line_count rows = length rows - 1"

record pane_top =
  topLine :: nat
  topPadding :: nat

definition row_at_top :: "pane_alignment \<Rightarrow> pane_top \<Rightarrow> nat" where
  "row_at_top rows t =
     (let above = (if topLine t = 0 then topPadding t + leading_rows rows else topPadding t);
          row = aligned_row rows (topLine t)
      in if row > above then row - above else 0)"

definition top_for_row :: "pane_alignment \<Rightarrow> nat \<Rightarrow> pane_top" where
  "top_for_row rows row =
     (if pane_line_count rows = 0 then \<lparr>topLine = 0, topPadding = 0\<rparr>
      else
        let line = line_at_aligned_row rows row in
          if aligned_row rows line \<ge> row then \<lparr>topLine = line, topPadding = 0\<rparr>
          else if line + 1 < pane_line_count rows then
            \<lparr>topLine = line + 1, topPadding = aligned_row rows (line + 1) - row\<rparr>
          else \<lparr>topLine = line, topPadding = 0\<rparr>)"

section \<open>Aligning panes\<close>

text \<open>The loop of \<open>SideLineAt\<close>, and the side line a merged line maps to.\<close>

definition covers :: "nat \<Rightarrow> aligned_chunk \<Rightarrow> bool" where
  "covers c chunk \<longleftrightarrow>
     mergedLine chunk + mergedCount chunk > c \<or> (mergedCount chunk = 0 \<and> mergedLine chunk = c)"

function skip_chunks :: "nat \<Rightarrow> aligned_chunk list \<Rightarrow> nat \<Rightarrow> nat" where
  "skip_chunks c chunks index =
     (if index < length chunks then
        if covers c (chunks ! index) then index else skip_chunks c chunks (index + 1)
      else index)"
  by pat_completeness auto
termination by (relation "measure (\<lambda>(c, chunks, index). length chunks - index)") auto

declare skip_chunks.simps [simp del]

definition line_in_chunk :: "nat \<Rightarrow> aligned_chunk \<Rightarrow> nat option" where
  "line_in_chunk c chunk =
     (if mergedLine chunk = c then Some (sideLine chunk)
      else if \<not> chunkChanged chunk then Some (sideLine chunk + (c - mergedLine chunk))
      else None)"

definition side_line_at :: "merge_side \<Rightarrow> nat \<Rightarrow> nat \<Rightarrow> nat \<times> nat option" where
  "side_line_at side index0 c =
     (let index = skip_chunks c (sideChunks side) index0 in
      (index, if index = length (sideChunks side) then Some (sideLineCount side)
              else line_in_chunk c (sideChunks side ! index)))"

text \<open>
  A \<open>SyncPoint\<close> is the list of its lines, the merged one first.  The loop over the sides stops at
  the first that has none, so the indices of later sides stay.
\<close>

type_synonym sync_point = "nat list"

fun point_sides :: "nat \<Rightarrow> merge_side list \<Rightarrow> nat list \<Rightarrow> nat list \<times> nat list option" where
  "point_sides c (side # sides) (index # indices) =
     (case side_line_at side index c of
        (index', None) \<Rightarrow> (index' # indices, None)
      | (index', Some line) \<Rightarrow>
          (let (indices', lines_found) = point_sides c sides indices
           in (index' # indices', map_option ((#) line) lines_found)))"
| "point_sides c _ indices = (indices, Some [])"

fun sync_loop :: "merge_side list \<Rightarrow> nat list \<Rightarrow> nat list \<Rightarrow> sync_point list" where
  "sync_loop sides [] indices = []"
| "sync_loop sides (c # cs) indices =
     (case point_sides c sides indices of
        (indices', Some ls) \<Rightarrow> (c # ls) # sync_loop sides cs indices'
      | (indices', None) \<Rightarrow> sync_loop sides cs indices')"

definition sync_points :: "nat \<Rightarrow> merge_side list \<Rightarrow> sync_point list" where
  "sync_points n sides =
     [0 # map (\<lambda>_. 0) sides] @ sync_loop sides [1..<n] (map (\<lambda>_. 0) sides) @ [n # map sideLineCount sides]"

text \<open>\<open>leading\<close> and \<open>rowsAfter\<close> of one pane.\<close>

record pane_pads =
  padLeading :: nat
  padAfter :: "nat list"

definition pad_pane :: "nat \<Rightarrow> nat \<Rightarrow> nat \<Rightarrow> pane_pads \<Rightarrow> pane_pads option" where
  "pad_pane height a e p =
     (if e < a \<or> height < e - a then None
      else let pad = height - (e - a) in
        if pad = 0 then Some p
        else if e = 0 then Some (p\<lparr>padLeading := padLeading p + pad\<rparr>)
        else if e - 1 < length (padAfter p) then
          Some (p\<lparr>padAfter := (padAfter p)[e - 1 := padAfter p ! (e - 1) + pad]\<rparr>)
        else None)"

definition segment_height :: "sync_point \<Rightarrow> sync_point \<Rightarrow> nat" where
  "segment_height a e = foldl max 0 (map2 (\<lambda>x y. y - x) a e)"

fun pad_panes :: "nat \<Rightarrow> nat list \<Rightarrow> nat list \<Rightarrow> pane_pads list \<Rightarrow> pane_pads list option" where
  "pad_panes height (a # as) (e # es) (p # ps) =
     pad_pane height a e p \<bind> (\<lambda>p'. pad_panes height as es ps \<bind> (\<lambda>ps'. Some (p' # ps')))"
| "pad_panes height _ _ _ = Some []"

fun pad_segments :: "sync_point list \<Rightarrow> pane_pads list \<Rightarrow> pane_pads list option" where
  "pad_segments (a # e # points) panes =
     pad_panes (segment_height a e) a e panes \<bind> pad_segments (e # points)"
| "pad_segments _ panes = Some panes"

fun rows_from :: "nat \<Rightarrow> nat list \<Rightarrow> nat list" where
  "rows_from row [] = [row]"
| "rows_from row (pad # pads) = row # rows_from (row + 1 + pad) pads"

definition align_panes :: "nat \<Rightarrow> merge_side list \<Rightarrow> pane_alignment list option" where
  "align_panes mergedLineCount sides =
     map_option (map (\<lambda>p. rows_from (padLeading p) (padAfter p)))
       (pad_segments (sync_points mergedLineCount sides)
         (map (\<lambda>n. \<lparr>padLeading = 0, padAfter = replicate n 0\<rparr>) (mergedLineCount # map sideLineCount sides)))"

section \<open>Lines of a text\<close>

lemma split_lines_length: "length (split_lines s) = count_list s newline + (if closed s then 0 else 1)"
proof (induction s rule: split_lines.induct)
  case (1 s)
  let ?b = "takeWhile (\<lambda>c. c \<noteq> newline) s"
  show ?case
  proof (cases "s = []")
    case False
    show ?thesis
    proof (cases "length ?b = length s")
      case True
      then have "?b = s" by (metis le_refl take_all takeWhile_eq_take)
      then have "newline \<notin> set s" by (metis (mono_tags, lifting) set_takeWhileD)
      then show ?thesis
        using True False by (subst split_lines.simps) (auto simp: closed_def count_list_0_iff dest: last_in_set)
    next
      case len: False
      then have less: "length ?b < length s" by (simp add: le_neq_implies_less length_takeWhile_le)
      have nl: "s ! length ?b = newline"
        using nth_length_takeWhile [OF less] by simp
      let ?r = "drop (length ?b + 1) s"
      have s: "s = ?b @ newline # ?r"
        using less nl by (metis Cons_nth_drop_Suc Suc_eq_plus1 append_take_drop_id takeWhile_eq_take)
      have "newline \<notin> set ?b" by (metis (mono_tags, lifting) set_takeWhileD)
      then have "count_list s newline = 1 + count_list ?r newline"
        by (subst s) (simp add: count_list_0_iff)
      moreover have "closed s \<longleftrightarrow> closed ?r"
        by (subst s) (auto simp: closed_def)
      moreover have "split_lines s = take (length ?b + 1) s # split_lines ?r"
        using False len by (subst split_lines.simps) (simp add: Let_def)
      ultimately show ?thesis
        using "1.IH" [OF False refl len] by simp
    qed
  qed (simp add: split_lines.simps closed_def)
qed


section \<open>What padding does to the rows of a pane\<close>

definition row_in :: "pane_pads \<Rightarrow> nat \<Rightarrow> nat" where
  "row_in p j = padLeading p + j + sum_list (take j (padAfter p))"

lemma length_rows_from [simp]: "length (rows_from r pads) = Suc (length pads)"
  by (induction pads arbitrary: r) auto

lemma rows_from_nth: "j \<le> length pads \<Longrightarrow> rows_from r pads ! j = r + j + sum_list (take j pads)"
proof (induction pads arbitrary: r j)
  case (Cons p pads)
  then show ?case by (cases j) auto
qed simp

lemma rows_of_pane: "j \<le> length (padAfter p) \<Longrightarrow> aligned_row (rows_from (padLeading p) (padAfter p)) j = row_in p j"
  by (simp add: aligned_row_def rows_from_nth row_in_def)

lemma total_of_pane: "total_rows (rows_from (padLeading p) (padAfter p)) = row_in p (length (padAfter p))"
proof -
  let ?r = "rows_from (padLeading p) (padAfter p)"
  have "last ?r = ?r ! length (padAfter p)"
    by (subst last_conv_nth) (auto simp flip: length_0_conv)
  then show ?thesis by (simp add: total_rows_def rows_from_nth row_in_def)
qed

lemma sum_take_update:
  "i < length xs \<Longrightarrow> sum_list (take j (xs[i := xs ! i + (d :: nat)])) = sum_list (take j xs) + (if i < j then d else 0)"
proof (induction xs arbitrary: i j)
  case (Cons x xs)
  then show ?case by (cases i; cases j) auto
qed simp

text \<open>A pane padded up to line \<open>x\<close>, which stands at row \<open>H\<close>: no blank row after it yet.\<close>

definition pane_at :: "nat \<Rightarrow> nat \<Rightarrow> pane_pads \<Rightarrow> bool" where
  "pane_at H x p \<longleftrightarrow> x \<le> length (padAfter p) \<and> (\<forall>j. x \<le> j \<and> j \<le> length (padAfter p) \<longrightarrow> row_in p j = H + (j - x))"

lemma pad_pane_step:
  assumes "pane_at H x p" "x \<le> e" "e \<le> length (padAfter p)" "e - x \<le> h"
  shows "\<exists>p'. pad_pane h x e p = Some p' \<and> pane_at (H + h) e p' \<and> length (padAfter p') = length (padAfter p) \<and>
    (\<forall>j<e. row_in p' j = row_in p j)"
proof -
  let ?pad = "h - (e - x)"
  have at: "padLeading p + j + sum_list (take j (padAfter p)) = H + (j - x)" if "x \<le> j" "j \<le> length (padAfter p)" for j
    using assms(1) that by (simp add: pane_at_def row_in_def)
  have sum: "H + (j - x) + ?pad = H + h + (j - e)" if "e \<le> j" for j
    using that assms(2,4) by simp
  consider "?pad = 0" | "?pad > 0" "e = 0" | "?pad > 0" "e > 0" by blast
  then show ?thesis
  proof cases
    case 1
    then show ?thesis
      using assms at by (auto simp: pad_pane_def pane_at_def row_in_def)
  next
    case 2
    then show ?thesis
      using assms at by (auto simp: pad_pane_def pane_at_def row_in_def)
  next
    case 3
    let ?p' = "p\<lparr>padAfter := (padAfter p)[e - 1 := padAfter p ! (e - 1) + ?pad]\<rparr>"
    have i: "e - 1 < length (padAfter p)" using 3 assms(3) by simp
    have row: "row_in ?p' j = row_in p j + (if e \<le> j then ?pad else 0)" for j
    proof -
      have "e - 1 < j \<longleftrightarrow> e \<le> j" using 3 by linarith
      then show ?thesis
        using sum_take_update [OF i, of j ?pad] by (simp add: row_in_def del: add_diff_assoc)
    qed
    have "pad_pane h x e p = Some ?p'"
      using 3 i assms by (simp add: pad_pane_def Let_def)
    moreover have "pane_at (H + h) e ?p'"
    proof -
      have "row_in ?p' j = H + h + (j - e)" if "e \<le> j" "j \<le> length (padAfter p)" for j
      proof -
        have "x \<le> j" using that(1) assms(2) by simp
        from at [OF this that(2)] have "row_in p j = H + (j - x)" by (simp add: row_in_def)
        then show ?thesis using row [of j] sum [OF that(1)] that(1) by (simp only: if_True)
      qed
      then show ?thesis using assms(3) by (simp add: pane_at_def)
    qed
    ultimately show ?thesis using row by simp
  qed
qed

lemma pad_panes_step:
  assumes "list_all2 (pane_at H) as ps" "list_all2 (\<le>) as es" "list_all2 (\<lambda>e p. e \<le> length (padAfter p)) es ps"
    "\<forall>d \<in> set (map2 (\<lambda>x y. y - x) as es). d \<le> h"
  shows "\<exists>ps'. pad_panes h as es ps = Some ps' \<and> list_all2 (pane_at (H + h)) es ps' \<and>
    map (\<lambda>p. length (padAfter p)) ps' = map (\<lambda>p. length (padAfter p)) ps \<and>
    (\<forall>k<length ps. \<forall>j<es ! k. row_in (ps' ! k) j = row_in (ps ! k) j)"
  using assms
proof (induction as arbitrary: es ps)
  case (Cons a as)
  obtain e es' p ps1 where eq: "es = e # es'" "ps = p # ps1"
    using Cons.prems(1,2) by (auto simp: list_all2_Cons1)
  obtain p' where p': "pad_pane h a e p = Some p'" "pane_at (H + h) e p'" "length (padAfter p') = length (padAfter p)"
    "\<forall>j<e. row_in p' j = row_in p j"
    using pad_pane_step [of H a p e h] Cons.prems eq by auto
  obtain ps' where ps': "pad_panes h as es' ps1 = Some ps'" "list_all2 (pane_at (H + h)) es' ps'"
    "map (\<lambda>p. length (padAfter p)) ps' = map (\<lambda>p. length (padAfter p)) ps1"
    "\<forall>k<length ps1. \<forall>j<es' ! k. row_in (ps' ! k) j = row_in (ps1 ! k) j"
    using Cons.IH [of ps1 es'] Cons.prems eq by auto
  have "row_in ((p' # ps') ! k) j = row_in ((p # ps1) ! k) j" if "k < length (p # ps1)" "j < (e # es') ! k" for k j
    using that p'(4) ps'(4) by (cases k) auto
  then show ?case using p' ps' eq by simp
qed simp

lemma foldl_max_ge: "a \<le> foldl max a xs \<and> (\<forall>x \<in> set xs. x \<le> foldl max (a :: nat) xs)"
proof (induction xs arbitrary: a)
  case (Cons x xs)
  from Cons.IH [of "max a x"] show ?case by auto
qed simp

lemma pad_segments_rows:
  assumes "successively (list_all2 (\<le>)) (a # pts)" "\<forall>pt \<in> set (a # pts). list_all2 (\<le>) pt (map (\<lambda>p. length (padAfter p)) panes)"
    "list_all2 (pane_at H) a panes"
  shows "\<exists>panes'. pad_segments (a # pts) panes = Some panes' \<and>
    map (\<lambda>p. length (padAfter p)) panes' = map (\<lambda>p. length (padAfter p)) panes \<and>
    (\<exists>T. list_all2 (pane_at T) (last (a # pts)) panes') \<and>
    (\<forall>k<length panes. \<forall>j<a ! k. row_in (panes' ! k) j = row_in (panes ! k) j) \<and>
    (\<forall>i<length pts. \<exists>R. \<forall>k<length panes. (a # pts) ! i ! k < pts ! i ! k \<longrightarrow>
      row_in (panes' ! k) ((a # pts) ! i ! k) = R)"
  using assms
proof (induction pts arbitrary: a panes H)
  case Nil
  then show ?case by auto
next
  case (Cons e pts)
  let ?h = "segment_height a e"
  have le: "list_all2 (\<lambda>e p. e \<le> length (padAfter p)) e panes"
    using Cons.prems(2) by (simp add: list_all2_map2)
  have "\<forall>d \<in> set (map2 (\<lambda>x y. y - x) a e). d \<le> ?h"
    unfolding segment_height_def using foldl_max_ge by blast
  from pad_panes_step [OF Cons.prems(3) _ le this] Cons.prems(1)
  obtain ps where ps: "pad_panes ?h a e panes = Some ps" "list_all2 (pane_at (H + ?h)) e ps"
    "map (\<lambda>p. length (padAfter p)) ps = map (\<lambda>p. length (padAfter p)) panes"
    "\<forall>k<length panes. \<forall>j<e ! k. row_in (ps ! k) j = row_in (panes ! k) j"
    by auto
  have len: "length ps = length panes" using ps(3) by (rule map_eq_imp_length_eq)
  obtain panes' T where p': "pad_segments (e # pts) ps = Some panes'"
    "map (\<lambda>p. length (padAfter p)) panes' = map (\<lambda>p. length (padAfter p)) ps" "list_all2 (pane_at T) (last (e # pts)) panes'"
    and kept: "\<forall>k<length ps. \<forall>j<e ! k. row_in (panes' ! k) j = row_in (ps ! k) j"
    and sync: "\<forall>i<length pts. \<exists>R. \<forall>k<length ps. (e # pts) ! i ! k < pts ! i ! k \<longrightarrow>
      row_in (panes' ! k) ((e # pts) ! i ! k) = R"
    using Cons.IH [OF _ _ ps(2)] Cons.prems(1,2) ps(3) by (auto simp: successively.simps)
  have a_le: "a ! k \<le> e ! k" if "k < length panes" for k
  proof -
    have "list_all2 (\<le>) a e" "k < length a"
      using Cons.prems(1,3) that by (auto dest: list_all2_lengthD)
    then show ?thesis by (rule list_all2_nthD)
  qed
  have early: "row_in (panes' ! k) j = row_in (panes ! k) j" if "k < length panes" "j < e ! k" for k j
    using kept ps(4) that len by simp
  have "\<exists>R. \<forall>k<length panes. (a # e # pts) ! i ! k < (e # pts) ! i ! k \<longrightarrow>
      row_in (panes' ! k) ((a # e # pts) ! i ! k) = R" if "i < length (e # pts)" for i
  proof (cases i)
    case 0
    have "row_in (panes' ! k) (a ! k) = H" if "k < length panes" "a ! k < e ! k" for k
      using early [OF that] list_all2_nthD2 [OF Cons.prems(3) that(1)] by (simp add: pane_at_def)
    then show ?thesis using 0 by auto
  next
    case (Suc i')
    then show ?thesis using sync that len by auto
  qed
  moreover have "\<forall>k<length panes. \<forall>j<a ! k. row_in (panes' ! k) j = row_in (panes ! k) j"
    using early a_le by (meson less_le_trans)
  ultimately show ?case using ps(1,3) p' by auto
qed


section \<open>Sync points\<close>

definition side_line :: "merge_side \<Rightarrow> nat \<Rightarrow> nat option" where
  "side_line side c = snd (side_line_at side 0 c)"

definition stale :: "nat \<Rightarrow> merge_side \<Rightarrow> nat \<Rightarrow> bool" where
  "stale c side index \<longleftrightarrow> index \<le> length (sideChunks side) \<and> (\<forall>i<index. \<not> covers c (sideChunks side ! i))"

lemma stale_later: "stale c side index \<Longrightarrow> c \<le> c' \<Longrightarrow> stale c' side index"
  by (fastforce simp: stale_def covers_def)

lemma skip_chunks_stale:
  "stale c side index \<Longrightarrow> stale c side (skip_chunks c (sideChunks side) index)"
proof (induction c "sideChunks side" index rule: skip_chunks.induct)
  case (1 c index)
  then show ?case
    by (subst skip_chunks.simps) (auto simp: stale_def less_Suc_eq)
qed

lemma skip_chunks_from:
  "stale c side index \<Longrightarrow> skip_chunks c (sideChunks side) 0 = skip_chunks c (sideChunks side) index"
proof (induction index)
  case (Suc index)
  then have "stale c side index" "\<not> covers c (sideChunks side ! index)" "index < length (sideChunks side)"
    by (auto simp: stale_def)
  with Suc.IH show ?case by (simp add: skip_chunks.simps [of c _ index])
qed simp

lemma side_line_at_stale:
  "stale c side index \<Longrightarrow> snd (side_line_at side index c) = side_line side c \<and> stale c side (fst (side_line_at side index c))"
  using skip_chunks_from [of c side index] skip_chunks_stale [of c side index]
  by (simp add: side_line_def side_line_at_def Let_def)

lemma point_sides_stale:
  "list_all2 (stale c) sides is \<Longrightarrow>
    list_all2 (stale c) sides (fst (point_sides c sides is)) \<and>
    snd (point_sides c sides is) = those (map (\<lambda>s. side_line s c) sides)"
proof (induction sides arbitrary: "is")
  case (Cons side sides)
  then obtain index indices where eq: "is = index # indices" and st: "stale c side index" "list_all2 (stale c) sides indices"
    by (auto simp: list_all2_Cons1)
  obtain i' r where at: "side_line_at side index c = (i', r)" by fastforce
  then have "stale c side i'" "side_line side c = r"
    using side_line_at_stale [OF st(1)] by auto
  then show ?case
    using Cons.IH [OF st(2)] st(2) at eq by (cases r) (auto split: prod.splits)
qed simp

definition side_lines :: "merge_side list \<Rightarrow> nat \<Rightarrow> nat list option" where
  "side_lines sides c = those (map (\<lambda>s. side_line s c) sides)"

lemma sync_loop_points:
  "sorted cs \<Longrightarrow> \<forall>c \<in> set cs. list_all2 (stale c) sides is \<Longrightarrow>
    sync_loop sides cs is =
      map (\<lambda>c. c # the (side_lines sides c)) (filter (\<lambda>c. side_lines sides c \<noteq> None) cs)"
proof (induction cs arbitrary: "is")
  case (Cons c cs)
  obtain is' r where p: "point_sides c sides is = (is', r)" by fastforce
  with point_sides_stale [of c sides "is"] Cons.prems(2)
  have "list_all2 (stale c) sides is'" and r: "r = side_lines sides c" by (auto simp: side_lines_def)
  then have "\<forall>c' \<in> set cs. list_all2 (stale c') sides is'"
    using Cons.prems(1) by (auto elim!: list_all2_mono intro: stale_later)
  with Cons.IH Cons.prems(1) p r show ?case by (cases r) auto
qed simp

text \<open>What the points are, given the chunks of every side tile it and the merged text.\<close>

fun chunks_tile :: "nat \<Rightarrow> nat \<Rightarrow> aligned_chunk list \<Rightarrow> nat \<Rightarrow> nat \<Rightarrow> bool" where
  "chunks_tile m l [] M L \<longleftrightarrow> m = M \<and> l = L"
| "chunks_tile m l (k # ks) M L \<longleftrightarrow>
     mergedLine k = m \<and> sideLine k = l \<and> (\<not> chunkChanged k \<longrightarrow> mergedCount k = sideCount k) \<and>
     chunks_tile (m + mergedCount k) (l + sideCount k) ks M L"

definition tiled_side :: "nat \<Rightarrow> merge_side \<Rightarrow> bool" where
  "tiled_side n side \<longleftrightarrow> chunks_tile 0 0 (sideChunks side) n (sideLineCount side)"

text \<open>
  Merged line \<open>c\<close> is line \<open>l\<close> of the side, unchanged; and the first line the side has for it: \<open>l\<close>
  itself, or the first of the side's own lines right before it, which no merged line stands for.
\<close>

definition held_line :: "aligned_chunk list \<Rightarrow> nat \<Rightarrow> nat \<Rightarrow> bool" where
  "held_line ks c l \<longleftrightarrow>
     (\<exists>k \<in> set ks. \<not> chunkChanged k \<and> mergedLine k \<le> c \<and> c < mergedLine k + mergedCount k \<and>
        l = sideLine k + (c - mergedLine k))"

definition first_line_for :: "aligned_chunk list \<Rightarrow> nat \<Rightarrow> nat \<Rightarrow> nat" where
  "first_line_for ks c l =
     (case filter (\<lambda>k. mergedCount k = 0 \<and> mergedLine k = c) ks of [] \<Rightarrow> l | k # _ \<Rightarrow> sideLine k)"

definition stands_for :: "aligned_chunk list \<Rightarrow> nat \<Rightarrow> nat \<Rightarrow> bool" where
  "stands_for ks c x \<longleftrightarrow> (\<exists>l. held_line ks c l \<and> x = first_line_for ks c l)"

fun line_in :: "aligned_chunk list \<Rightarrow> nat \<Rightarrow> nat \<Rightarrow> nat option" where
  "line_in [] L c = Some L"
| "line_in (k # ks) L c = (if covers c k then line_in_chunk c k else line_in ks L c)"

lemma line_in_skip:
  "index \<le> length ks \<Longrightarrow>
    (let i = skip_chunks c ks index in if i = length ks then Some L else line_in_chunk c (ks ! i)) =
    line_in (drop index ks) L c"
proof (induction c ks index rule: skip_chunks.induct)
  case (1 c ks index)
  show ?case
  proof (cases "index < length ks")
    case True
    then have "drop index ks = ks ! index # drop (index + 1) ks" by (simp add: Cons_nth_drop_Suc)
    with "1.IH" True show ?thesis
      by (cases "covers c (ks ! index)"; subst skip_chunks.simps) (simp_all add: Let_def)
  next
    case False
    with "1.prems" show ?thesis by (subst skip_chunks.simps) simp
  qed
qed

lemma side_line_in: "side_line side c = line_in (sideChunks side) (sideLineCount side) c"
  using line_in_skip [of 0 "sideChunks side" c "sideLineCount side"] by (simp add: side_line_def side_line_at_def Let_def)

lemma tiles_after: "chunks_tile m l ks M L \<Longrightarrow> k \<in> set ks \<Longrightarrow> m \<le> mergedLine k"
  by (induction m l ks M L rule: chunks_tile.induct) fastforce+

lemma tiles_le: "chunks_tile m l ks M L \<Longrightarrow> m \<le> M \<and> l \<le> L"
  by (induction m l ks M L rule: chunks_tile.induct) auto

lemma line_in_bounds: "chunks_tile m l ks M L \<Longrightarrow> m \<le> c \<Longrightarrow> line_in ks L c = Some x \<Longrightarrow> l \<le> x \<and> x \<le> L"
proof (induction m l ks M L rule: chunks_tile.induct)
  case (2 m l k ks M L)
  have "l + sideCount k \<le> L" using "2.prems"(1) tiles_le by auto
  with 2 show ?case
    by (cases "covers c k") (auto simp: covers_def line_in_chunk_def split: if_splits)
qed simp

lemma line_in_mono:
  "chunks_tile m l ks M L \<Longrightarrow> m \<le> c \<Longrightarrow> c \<le> c' \<Longrightarrow> line_in ks L c = Some x \<Longrightarrow> line_in ks L c' = Some y \<Longrightarrow> x \<le> y"
proof (induction m l ks M L rule: chunks_tile.induct)
  case (2 m l k ks M L)
  have k: "mergedLine k = m" "sideLine k = l" "\<not> chunkChanged k \<Longrightarrow> mergedCount k = sideCount k"
    and rest: "chunks_tile (m + mergedCount k) (l + sideCount k) ks M L"
    using "2.prems"(1) by auto
  show ?case
  proof (cases "covers c' k")
    case True
    then show ?thesis
      using "2.prems" k by (auto simp: covers_def line_in_chunk_def split: if_splits)
  next
    case False
    then have c': "m + mergedCount k \<le> c'" "line_in ks L c' = Some y" using k "2.prems"(5) by (auto simp: covers_def)
    from line_in_bounds [OF rest this] have y: "l + sideCount k \<le> y" by simp
    show ?thesis
    proof (cases "covers c k")
      case True
      with y k "2.prems"(2,4) show ?thesis
        by (auto simp: covers_def line_in_chunk_def split: if_splits)
    next
      case F: False
      then have "m + mergedCount k \<le> c" using k by (auto simp: covers_def)
      with "2.IH" [OF rest this "2.prems"(3)] "2.prems"(4) c'(2) F show ?thesis by simp
    qed
  qed
qed simp

lemma held_line_in:
  "chunks_tile m l ks M L \<Longrightarrow> m \<le> c \<Longrightarrow> held_line ks c x \<Longrightarrow>
    line_in ks L c = Some (first_line_for ks c x) \<and> first_line_for ks c x < L \<and>
    (\<forall>c' y. c < c' \<longrightarrow> line_in ks L c' = Some y \<longrightarrow> first_line_for ks c x < y)"
proof (induction m l ks M L rule: chunks_tile.induct)
  case (2 m l k ks M L)
  have k: "mergedLine k = m" "sideLine k = l" "\<not> chunkChanged k \<Longrightarrow> mergedCount k = sideCount k"
    and rest: "chunks_tile (m + mergedCount k) (l + sideCount k) ks M L"
    using "2.prems"(1) by auto
  consider (own) "mergedCount k = 0" "c = m" | (here) "c < m + mergedCount k" | (later) "m + mergedCount k \<le> c" "\<not> (mergedCount k = 0 \<and> c = m)"
    by linarith
  then show ?case
  proof cases
    case own
    have first: "first_line_for (k # ks) c x = l" using own k by (simp add: first_line_for_def)
    have "held_line ks c x" using "2.prems"(3) own by (auto simp: held_line_def)
    from "2.IH" [OF rest _ this] own
    have ih: "line_in ks L c = Some (first_line_for ks c x)" "first_line_for ks c x < L"
      "\<forall>c' y. c < c' \<longrightarrow> line_in ks L c' = Some y \<longrightarrow> first_line_for ks c x < y" by auto
    have "l \<le> first_line_for ks c x" using line_in_bounds [OF rest _ ih(1)] own by simp
    then have "l < L" "l < y" if "c < c'" "line_in ks L c' = Some y" for c' y
      using ih(2,3) that by fastforce+
    moreover have "l < L" using \<open>l \<le> first_line_for ks c x\<close> ih(2) by simp
    moreover have "\<not> covers c' k" if "c < c'" for c' using own k that by (simp add: covers_def)
    ultimately show ?thesis using own k unfolding first by (auto simp: covers_def line_in_chunk_def)
  next
    case here
    have "mergedLine k' \<noteq> c" if "k' \<in> set ks" for k' using tiles_after [OF rest that] here by simp
    then have first: "first_line_for (k # ks) c x = x"
      using here k "2.prems"(2) by (auto simp: first_line_for_def filter_empty_conv split: list.split)
    have "\<not> chunkChanged k" "x = l + (c - m)"
      using "2.prems"(3) k here tiles_after [OF rest] by (fastforce simp: held_line_def)+
    moreover have "x < y" if "c < c'" "line_in (k # ks) L c' = Some y" for c' y
    proof (cases "covers c' k")
      case True
      then show ?thesis
        using that calculation k "2.prems"(2) by (auto simp: covers_def line_in_chunk_def split: if_splits)
    next
      case F: False
      then have "m + mergedCount k \<le> c'" "line_in ks L c' = Some y" using k that(2) by (auto simp: covers_def)
      from line_in_bounds [OF rest this] have "l + sideCount k \<le> y" by simp
      moreover have "l + (c - m) < l + sideCount k"
        using k(3) [OF \<open>\<not> chunkChanged k\<close>] here "2.prems"(2) by simp
      ultimately show ?thesis using \<open>x = l + (c - m)\<close> by simp
    qed
    moreover have "l + sideCount k \<le> L" using tiles_le [OF rest] by simp
    ultimately show ?thesis
      unfolding first using here k "2.prems"(2) by (auto simp: covers_def line_in_chunk_def)
  next
    case later
    have nc: "\<not> covers c k" using later k by (auto simp: covers_def)
    have held: "held_line ks c x" using "2.prems"(3) later k by (auto simp: held_line_def)
    have first: "first_line_for (k # ks) c x = first_line_for ks c x" using later k by (auto simp: first_line_for_def)
    from "2.IH" [OF rest later(1) held] nc
    have ih: "line_in (k # ks) L c = Some (first_line_for ks c x)" "first_line_for ks c x < L"
      "\<forall>c' y. c < c' \<longrightarrow> line_in ks L c' = Some y \<longrightarrow> first_line_for ks c x < y" by auto
    have "first_line_for ks c x < y" if "c < c'" "line_in (k # ks) L c' = Some y" for c' y
    proof -
      have "\<not> covers c' k" using later that(1) k by (auto simp: covers_def)
      with ih(3) that show ?thesis by simp
    qed
    with ih show ?thesis unfolding first by blast
  qed
qed (simp add: held_line_def)

lemma stands_for_in:
  assumes "chunks_tile m l ks M L" "m \<le> c" "stands_for ks c x"
  shows "line_in ks L c = Some x \<and> x < L \<and> (\<forall>c' y. c < c' \<longrightarrow> line_in ks L c' = Some y \<longrightarrow> x < y)"
  using assms(3) held_line_in [OF assms(1,2)] by (auto simp: stands_for_def)

section \<open>Aligned panes\<close>

lemma side_lines_nth:
  "side_lines sides c = Some ls \<longleftrightarrow>
    length ls = length sides \<and> (\<forall>k<length sides. side_line (sides ! k) c = Some (ls ! k))"
proof (induction sides arbitrary: ls)
  case (Cons s sides)
  show ?case
  proof (cases ls)
    case (Cons l ls')
    then show ?thesis
      using Cons.IH [of ls'] by (auto simp: side_lines_def All_less_Suc2 split: option.splits)
  qed (auto simp: side_lines_def split: option.splits)
qed (auto simp: side_lines_def)

definition point_at :: "merge_side list \<Rightarrow> nat \<Rightarrow> sync_point" where
  "point_at sides c = c # (if c = 0 then map (\<lambda>_. 0) sides else the (side_lines sides c))"

definition synced :: "nat \<Rightarrow> merge_side list \<Rightarrow> nat list" where
  "synced n sides = 0 # filter (\<lambda>c. side_lines sides c \<noteq> None) [1..<n]"

lemma sync_points_eq: "sync_points n sides = map (point_at sides) (synced n sides) @ [n # map sideLineCount sides]"
proof -
  have "list_all2 (stale c) sides (map (\<lambda>_. 0) sides)" for c
    by (simp add: list_all2_conv_all_nth stale_def)
  then show ?thesis
    by (simp add: sync_points_def sync_loop_points synced_def point_at_def)
qed

lemma synced_sorted: "sorted_wrt (<) (synced n sides)"
  by (simp add: synced_def sorted_wrt_filter)

text \<open>A sync point's line of pane \<open>k\<close>, once the point is one of the loop's.\<close>

lemma point_at_synced:
  assumes "c \<in> set (synced n sides)"
  obtains ls where "point_at sides c = c # ls" "length ls = length sides"
    "\<And>k. k < length sides \<Longrightarrow> if c = 0 then ls ! k = 0 else side_line (sides ! k) c = Some (ls ! k)"
proof (cases "c = 0")
  case True
  with that [of "map (\<lambda>_. 0) sides"] show ?thesis by (simp add: point_at_def)
next
  case False
  then obtain ls where "side_lines sides c = Some ls" using assms by (auto simp: synced_def)
  moreover from this [unfolded side_lines_nth] False that [of ls] calculation show ?thesis
    by (simp add: point_at_def)
qed

lemma length_point_at: "c \<in> set (synced n sides) \<Longrightarrow> length (point_at sides c) = Suc (length sides)"
  by (erule point_at_synced) simp

lemma point_at_nth:
  assumes "c \<in> set (synced n sides)" "k < length sides"
  shows "if c = 0 then point_at sides c ! Suc k = 0 else side_line (sides ! k) c = Some (point_at sides c ! Suc k)"
  using point_at_synced [OF assms(1)] assms(2) by (metis nth_Cons_Suc)

lemma points_mono:
  assumes "\<forall>s \<in> set sides. tiled_side n s" "c \<in> set (synced n sides)" "c' \<in> set (synced n sides)" "c < c'"
  shows "list_all2 (\<le>) (point_at sides c) (point_at sides c')"
proof (rule list_all2_all_nthI)
  show "length (point_at sides c) = length (point_at sides c')" using assms length_point_at by simp
  fix i assume i: "i < length (point_at sides c)"
  show "point_at sides c ! i \<le> point_at sides c' ! i"
  proof (cases i)
    case (Suc k)
    then have k: "k < length sides" using i length_point_at [OF assms(2)] by simp
    then have "chunks_tile 0 0 (sideChunks (sides ! k)) n (sideLineCount (sides ! k))"
      using assms(1) by (simp add: tiled_side_def)
    note mono = line_in_mono [OF this le0 less_imp_le [OF assms(4)]]
    show ?thesis
      using point_at_nth [OF assms(2) k] point_at_nth [OF assms(3) k] assms(4) Suc mono
      by (cases "c = 0") (simp_all add: side_line_in)
  qed (use assms(4) in \<open>simp add: point_at_def\<close>)
qed

lemma points_end:
  assumes "\<forall>s \<in> set sides. tiled_side n s" "c \<in> set (synced n sides)"
  shows "list_all2 (\<le>) (point_at sides c) (n # map sideLineCount sides)"
proof (rule list_all2_all_nthI)
  show "length (point_at sides c) = length (n # map sideLineCount sides)" using assms length_point_at by simp
  fix i assume i: "i < length (point_at sides c)"
  show "point_at sides c ! i \<le> (n # map sideLineCount sides) ! i"
  proof (cases i)
    case (Suc k)
    then have k: "k < length sides" using i length_point_at [OF assms(2)] by simp
    then have "chunks_tile 0 0 (sideChunks (sides ! k)) n (sideLineCount (sides ! k))"
      using assms(1) by (simp add: tiled_side_def)
    note bounds = line_in_bounds [OF this le0]
    show ?thesis
      using point_at_nth [OF assms(2) k] Suc k bounds
      by (cases "c = 0") (simp_all add: side_line_in)
  qed (use assms(2) in \<open>auto simp: point_at_def synced_def\<close>)
qed

text \<open>At a line all sides hold unchanged, the next point is further on in every pane.\<close>

lemma points_strict:
  assumes "\<forall>k<length sides. tiled_side n (sides ! k) \<and> stands_for (sideChunks (sides ! k)) c (ls ! k)"
    "length ls = length sides" "c < n"
  shows "c \<in> set (synced n sides)" "point_at sides c = c # ls"
    "c' \<in> set (synced n sides) \<Longrightarrow> c < c' \<Longrightarrow> k \<le> length sides \<Longrightarrow> (c # ls) ! k < point_at sides c' ! k"
    "k \<le> length sides \<Longrightarrow> (c # ls) ! k < (n # map sideLineCount sides) ! k"
proof -
  have at: "side_line (sides ! k) c = Some (ls ! k) \<and> ls ! k < sideLineCount (sides ! k) \<and>
      (\<forall>c' y. c < c' \<longrightarrow> side_line (sides ! k) c' = Some y \<longrightarrow> ls ! k < y)" if "k < length sides" for k
  proof -
    have "chunks_tile 0 0 (sideChunks (sides ! k)) n (sideLineCount (sides ! k))" "stands_for (sideChunks (sides ! k)) c (ls ! k)"
      using assms(1) that by (simp_all add: tiled_side_def)
    then show ?thesis unfolding side_line_in by (rule stands_for_in [OF _ le0])
  qed
  then have found: "side_lines sides c = Some ls" using side_lines_nth assms(2) by blast
  then show mem: "c \<in> set (synced n sides)" using assms(3) by (cases "c = 0") (auto simp: synced_def)
  have zero: "ls ! k = 0" if "k < length sides" "c = 0" for k
  proof -
    have "chunks_tile 0 0 (sideChunks (sides ! k)) n (sideLineCount (sides ! k))" "side_line (sides ! k) 0 = Some (ls ! k)"
      using assms(1) at that by (auto simp: tiled_side_def)
    then show ?thesis
      using assms(1) that
      by (cases "sideChunks (sides ! k)") (auto simp: side_line_in covers_def line_in_chunk_def stands_for_def held_line_def split: if_splits)
  qed
  show "point_at sides c = c # ls"
    using found zero assms(2) by (auto simp: point_at_def intro!: nth_equalityI)
  show "(c # ls) ! k < point_at sides c' ! k" if "c' \<in> set (synced n sides)" "c < c'" "k \<le> length sides"
  proof (cases k)
    case (Suc j)
    then show ?thesis using at [of j] point_at_nth [OF that(1), of j] that by auto
  qed (use that(2) in \<open>simp add: point_at_def\<close>)
  show "(c # ls) ! k < (n # map sideLineCount sides) ! k" if "k \<le> length sides"
    using at that assms(3) by (cases k) auto
qed

lemma sync_points_ascend:
  assumes "\<forall>s \<in> set sides. tiled_side n s"
  shows "successively (list_all2 (\<le>)) (sync_points n sides)"
    "\<forall>pt \<in> set (sync_points n sides). list_all2 (\<le>) pt (n # map sideLineCount sides)"
proof -
  have "sorted_wrt (\<lambda>c c'. list_all2 (\<le>) (point_at sides c) (point_at sides c')) (synced n sides)"
    by (rule sorted_wrt_mono_rel [OF _ synced_sorted]) (rule points_mono [OF assms])
  then have "sorted_wrt (list_all2 (\<le>)) (sync_points n sides)"
    using points_end [OF assms] by (simp add: sync_points_eq sorted_wrt_map sorted_wrt_append)
  then show "successively (list_all2 (\<le>)) (sync_points n sides)" by (rule successively_if_sorted_wrt)
  show "\<forall>pt \<in> set (sync_points n sides). list_all2 (\<le>) pt (n # map sideLineCount sides)"
    using points_end [OF assms] by (auto simp: sync_points_eq list_all2_refl)
qed

lemma align_panes_rows:
  assumes "\<forall>s \<in> set sides. tiled_side n s"
  obtains panes where
    "align_panes n sides = Some (map (\<lambda>p. rows_from (padLeading p) (padAfter p)) panes)"
    "map (\<lambda>p. length (padAfter p)) panes = n # map sideLineCount sides"
    "\<exists>T. \<forall>p \<in> set panes. row_in p (length (padAfter p)) = T"
    "\<forall>i. Suc i < length (sync_points n sides) \<longrightarrow> (\<exists>R. \<forall>k\<le>length sides.
       sync_points n sides ! i ! k < sync_points n sides ! Suc i ! k \<longrightarrow> row_in (panes ! k) (sync_points n sides ! i ! k) = R)"
proof -
  let ?p0 = "map (\<lambda>n. \<lparr>padLeading = 0, padAfter = replicate n 0\<rparr>) (n # map sideLineCount sides)"
  have len0: "map (\<lambda>p. length (padAfter p)) ?p0 = n # map sideLineCount sides" by simp
  obtain pts where pts: "sync_points n sides = (0 # map (\<lambda>_. 0) sides) # pts" by (simp add: sync_points_def)
  have sum0: "sum_list (take j (replicate m (0 :: nat))) = 0" for j m by (simp add: sum_list_replicate min_def)
  have start: "list_all2 (pane_at 0) (0 # map (\<lambda>_. 0) sides) ?p0"
    by (simp add: list_all2_map1 list_all2_map2 pane_at_def row_in_def sum0 list_all2_refl del: replicate.simps)
  have asc: "successively (list_all2 (\<le>)) ((0 # map (\<lambda>_. 0) sides) # pts)"
    using sync_points_ascend(1) [OF assms] pts by simp
  have below: "\<forall>pt \<in> set ((0 # map (\<lambda>_. 0) sides) # pts). list_all2 (\<le>) pt (map (\<lambda>p. length (padAfter p)) ?p0)"
    using sync_points_ascend(2) [OF assms] unfolding len0 pts by simp
  from pad_segments_rows [OF asc below start, folded pts]
  obtain panes T where p: "pad_segments (sync_points n sides) ?p0 = Some panes"
    "map (\<lambda>p. length (padAfter p)) panes = map (\<lambda>p. length (padAfter p)) ?p0"
    "list_all2 (pane_at T) (last (sync_points n sides)) panes"
    "\<forall>i<length pts. \<exists>R. \<forall>k<length ?p0. sync_points n sides ! i ! k < pts ! i ! k \<longrightarrow>
      row_in (panes ! k) (sync_points n sides ! i ! k) = R"
    by (elim exE conjE) (rule that)
  note counts = p(2) [unfolded len0]
  have "list_all2 (pane_at T) (n # map sideLineCount sides) panes"
    using p(3) by (simp add: sync_points_def)
  then have "list_all2 (pane_at T) (map (\<lambda>p. length (padAfter p)) panes) panes" using counts by simp
  then have "\<forall>p \<in> set panes. row_in p (length (padAfter p)) = T"
    by (auto simp: list_all2_conv_all_nth in_set_conv_nth pane_at_def)
  moreover have "align_panes n sides = Some (map (\<lambda>p. rows_from (padLeading p) (padAfter p)) panes)"
    using p(1) by (simp add: align_panes_def)
  ultimately show ?thesis
    using that counts p(4) pts by (auto simp: less_Suc_eq_le)
qed

lemma aligned_sides:
  assumes "\<forall>s \<in> set sides. tiled_side n s" "length ls = length sides" "c < n"
    "\<forall>k<length sides. stands_for (sideChunks (sides ! k)) c (ls ! k)"
  shows "\<exists>panes. align_panes n sides = Some panes \<and> length panes = Suc (length sides) \<and>
    (\<forall>k\<le>length sides. total_rows (panes ! k) = total_rows (panes ! 0)) \<and>
    (\<forall>k<length sides. aligned_row (panes ! Suc k) (ls ! k) = aligned_row (panes ! 0) c)"
proof -
  let ?pts = "sync_points n sides"
  obtain ps where ps: "align_panes n sides = Some (map (\<lambda>p. rows_from (padLeading p) (padAfter p)) ps)"
    "map (\<lambda>p. length (padAfter p)) ps = n # map sideLineCount sides"
    "\<exists>T. \<forall>p \<in> set ps. row_in p (length (padAfter p)) = T"
    and sync: "\<forall>i. Suc i < length ?pts \<longrightarrow> (\<exists>R. \<forall>k\<le>length sides.
       ?pts ! i ! k < ?pts ! Suc i ! k \<longrightarrow> row_in (ps ! k) (?pts ! i ! k) = R)"
    by (rule align_panes_rows [OF assms(1)])
  have len: "length ps = Suc (length sides)" using arg_cong [OF ps(2), of length] by simp
  have both: "\<forall>k<length sides. tiled_side n (sides ! k) \<and> stands_for (sideChunks (sides ! k)) c (ls ! k)"
    using assms(1,4) by simp
  note pt = points_strict [OF both assms(2,3)]
  obtain i where i: "i < length (synced n sides)" "synced n sides ! i = c" using pt(1) by (auto simp: in_set_conv_nth)
  have at: "?pts ! i = c # ls" using i pt(2) by (simp add: sync_points_eq nth_append)
  have "(c # ls) ! k < ?pts ! Suc i ! k" if "k \<le> length sides" for k
  proof (cases "Suc i < length (synced n sides)")
    case True
    then have "c < synced n sides ! Suc i"
      using sorted_wrt_nth_less [OF synced_sorted lessI True] i by simp
    then show ?thesis using pt(3) [OF _ _ that, of "synced n sides ! Suc i"] True by (simp add: sync_points_eq nth_append)
  next
    case False
    then have "Suc i = length (synced n sides)" using i by simp
    then show ?thesis using pt(4) [OF that] by (simp add: sync_points_eq nth_append)
  qed
  moreover have "Suc i < length ?pts" using i by (simp add: sync_points_eq)
  ultimately obtain R where R: "row_in (ps ! k) ((c # ls) ! k) = R" if "k \<le> length sides" for k
    using sync at by metis
  have counts: "length (padAfter (ps ! k)) = (n # map sideLineCount sides) ! k" if "k \<le> length sides" for k
    using arg_cong [OF ps(2), of "\<lambda>xs. xs ! k"] that len by (simp del: map_eq_Cons_conv nth.simps)
  have row: "aligned_row (rows_from (padLeading (ps ! k)) (padAfter (ps ! k))) ((c # ls) ! k) = R" if "k \<le> length sides" for k
    using rows_of_pane [of "(c # ls) ! k" "ps ! k"] counts [OF that] pt(4) [OF that] R [OF that] by simp
  let ?panes = "map (\<lambda>p. rows_from (padLeading p) (padAfter p)) ps"
  have "total_rows (?panes ! k) = total_rows (?panes ! 0)" if "k \<le> length sides" for k
    using ps(3) that len by (auto simp: total_of_pane)
  moreover have "aligned_row (?panes ! Suc k) (ls ! k) = aligned_row (?panes ! 0) c" if "k < length sides" for k
    using row [of "Suc k"] row [of 0] that len by simp
  moreover have "length ?panes = Suc (length sides)" using len by simp
  ultimately show ?thesis using ps(1) by blast
qed


section \<open>Rows and scroll positions\<close>

lemma rows_from_increase: "sorted_wrt (<) (rows_from r pads) \<and> (\<forall>x \<in> set (rows_from r pads). r \<le> x)"
proof (induction pads arbitrary: r)
  case (Cons p pads)
  from Cons.IH [of "r + 1 + p"] show ?case by fastforce
qed simp

lemma line_at_row:
  assumes "sorted_wrt (<) rows" "0 < pane_line_count rows" "leading_rows rows \<le> row"
  shows "line_at_aligned_row rows row < pane_line_count rows" "rows ! line_at_aligned_row rows row \<le> row"
    "\<And>j. line_at_aligned_row rows row < j \<Longrightarrow> j < pane_line_count rows \<Longrightarrow> row < rows ! j"
proof -
  let ?n = "length rows - 1"
  let ?xs = "take ?n rows"
  let ?it = "length (takeWhile (\<lambda>r. r \<le> row) ?xs)"
  have n: "?n > 0" "length ?xs = ?n" using assms(2) by (simp_all add: pane_line_count_def)
  then have first: "?xs ! 0 \<le> row" using assms(3) by (simp add: leading_rows_def)
  have it: "0 < ?it"
  proof (cases ?xs)
    case (Cons x xs)
    then show ?thesis using first by simp
  qed (use n in simp)
  have le: "?it \<le> ?n" using length_takeWhile_le [of _ ?xs] n by metis
  have eq: "line_at_aligned_row rows row = ?it - 1" using n it by (simp add: line_at_aligned_row_def Let_def)
  show "line_at_aligned_row rows row < pane_line_count rows"
    unfolding eq pane_line_count_def using it le by linarith
  have "?xs ! (?it - 1) \<in> set (takeWhile (\<lambda>r. r \<le> row) ?xs)"
    using it by (metis diff_less less_numeral_extra(1) nth_mem takeWhile_nth)
  then have "?xs ! (?it - 1) \<le> row" using set_takeWhileD by metis
  moreover have "?it - 1 < ?n" using it le by linarith
  ultimately show "rows ! line_at_aligned_row rows row \<le> row" unfolding eq by simp
  show "row < rows ! j" if j: "line_at_aligned_row rows row < j" "j < pane_line_count rows" for j
  proof -
    have lt: "?it < ?n" "?it \<le> j" using j eq it by (simp_all add: pane_line_count_def)
    then have "row < rows ! ?it" using nth_length_takeWhile [of _ ?xs] n by fastforce
    also have "rows ! ?it \<le> rows ! j"
      using sorted_wrt_nth_less [OF assms(1), of ?it j] lt j(2)
      by (cases "?it = j") (simp_all add: pane_line_count_def less_imp_le)
    finally show ?thesis .
  qed
qed

lemma scrolled_to_row:
  assumes "sorted_wrt (<) rows" "leading_rows rows < row" "row \<le> aligned_row rows (pane_line_count rows - 1)"
    "0 < pane_line_count rows"
  shows "row_at_top rows (top_for_row rows row) = row"
proof -
  let ?n = "pane_line_count rows" and ?l = "line_at_aligned_row rows row"
  note l = line_at_row [OF assms(1,4), of row]
  have at: "aligned_row rows j = rows ! j" if "j < ?n" for j
    using that by (simp add: aligned_row_def pane_line_count_def min_def)
  show ?thesis
  proof (cases "rows ! ?l = row")
    case True
    then have "?l \<noteq> 0" using assms(2) unfolding leading_rows_def by (intro notI) simp
    then show ?thesis
      using True l(1) assms(2,4) at by (simp add: top_for_row_def row_at_top_def Let_def)
  next
    case False
    then have less: "rows ! ?l < row" using l(2) assms(2) by simp
    have next_line: "?l + 1 < ?n"
    proof (rule ccontr)
      assume "\<not> ?l + 1 < ?n"
      then have "?l = ?n - 1" using l(1) assms(2) by simp
      then show False using assms(3) less at [of ?l] l(1) assms(2) by simp
    qed
    then have "row < rows ! (?l + 1)" using l(3) [of "?l + 1"] assms(2) by simp
    then show ?thesis
      using less next_line l(1) assms(2,4) at
      by (simp add: top_for_row_def row_at_top_def Let_def)
  qed
qed

section \<open>Sides from markers\<close>

lemma split_lines_append: "closed a \<or> b = [] \<Longrightarrow> split_lines (a @ b) = split_lines a @ split_lines b"
proof (induction a rule: split_lines.induct)
  case (1 a)
  show ?case
  proof (cases "a = [] \<or> b = []")
    case True
    then show ?thesis by (auto simp: split_lines.simps [of "[]"])
  next
    case False
    then have cl: "closed a" "a \<noteq> []" "b \<noteq> []" using "1.prems" by simp_all
    then have nl: "newline \<in> set a" using last_in_set [of a] by (simp add: closed_def)
    let ?w = "takeWhile (\<lambda>c. c \<noteq> newline)"
    have w: "?w (a @ b) = ?w a" using nl by (auto simp: takeWhile_append1)
    have less: "length (?w a) < length a"
    proof (rule ccontr)
      assume "\<not> ?thesis"
      then have "?w a = a" using length_takeWhile_le [of _ a] by (metis le_antisym not_less take_all takeWhile_eq_take)
      then show False using nl set_takeWhileD [of newline _ a] by metis
    qed
    let ?n = "length (?w a) + 1"
    have "closed (drop ?n a)" using cl(1) by (rule closed_drop)
    then have ih: "split_lines (drop ?n a @ b) = split_lines (drop ?n a) @ split_lines b"
      using "1.IH" [OF cl(2) refl less_imp_neq [OF less]] by blast
    have "split_lines (a @ b) = take ?n a # split_lines (drop ?n a @ b)"
      using cl(2) less by (subst split_lines.simps) (simp add: w Let_def)
    also have "\<dots> = (take ?n a # split_lines (drop ?n a)) @ split_lines b" by (simp only: ih append_Cons)
    also have "take ?n a # split_lines (drop ?n a) = split_lines a"
      using cl(2) less by (subst (2) split_lines.simps) (simp add: Let_def)
    finally show ?thesis .
  qed
qed

lemma last_take: "0 < e \<Longrightarrow> e \<le> length s \<Longrightarrow> last (take e s) = s ! (e - 1)"
  by (subst last_conv_nth) auto

lemma closed_take: "e \<le> length s \<Longrightarrow> closed (take e s) \<longleftrightarrow> is_line_start s e"
  by (cases "e = 0") (auto simp: closed_def is_line_start_def last_take)

lemma lines_before_split: "e \<le> length s \<Longrightarrow> lines_before s e = length (split_lines (take e s))"
  by (simp add: lines_before_def split_lines_length closed_take is_line_start_def)

text \<open>What the header promises of the text of a side.\<close>

fun sections_in_place :: "bytes \<Rightarrow> merge_side_kind \<Rightarrow> offset \<Rightarrow> conflict_hunk list \<Rightarrow> bytes" where
  "sections_in_place s kind from [] = drop from s"
| "sections_in_place s kind from (k # ks) =
     substr s from (conflictStart k - from) @
     (case section_of k kind of None \<Rightarrow> [] | Some (a, e) \<Rightarrow> substr s a (e - a)) @
     sections_in_place s kind (conflictEnd k) ks"

text \<open>Unchanged chunks pair identical lines.\<close>

definition chunks_agree :: "bytes list \<Rightarrow> bytes list \<Rightarrow> aligned_chunk list \<Rightarrow> bool" where
  "chunks_agree ms ss ks \<longleftrightarrow> (\<forall>k \<in> set ks. \<not> chunkChanged k \<longrightarrow>
     substr ms (mergedLine k) (mergedCount k) = substr ss (sideLine k) (sideCount k) \<and>
     mergedLine k + mergedCount k \<le> length ms \<and> sideLine k + sideCount k \<le> length ss)"

lemma substr_prefix: "a + n \<le> length xs \<Longrightarrow> substr (xs @ ys) a n = substr xs a n"
  by (simp add: substr_def)

lemma chunks_agree_append: "chunks_agree ms ss ks \<Longrightarrow> chunks_agree (ms @ ms') (ss @ ss') ks"
  by (auto simp: chunks_agree_def substr_prefix)

lemma chunks_agree_snoc:
  "chunks_agree ms ss (ks @ [k]) \<longleftrightarrow> chunks_agree ms ss ks \<and> chunks_agree ms ss [k]"
  by (auto simp: chunks_agree_def)

lemma chunks_agree_changed: "chunkChanged k \<Longrightarrow> chunks_agree ms ss [k]"
  by (simp add: chunks_agree_def)

lemma tiles_append: "chunks_tile m l (ks @ [k]) M L \<longleftrightarrow>
    (\<exists>M' L'. chunks_tile m l ks M' L' \<and> chunks_tile M' L' [k] M L)"
  by (induction m l ks M L rule: chunks_tile.induct) auto

definition built :: "bytes \<Rightarrow> side_builder \<Rightarrow> bool" where
  "built s b \<longleftrightarrow> (let side = builtSide b in
     copiedTo b \<le> length s \<and>
     (closed (take (copiedTo b) s) \<and> closed (sideText side) \<or> copiedTo b = length s) \<and>
     mergedAt b = length (split_lines (take (copiedTo b) s)) \<and>
     sideLineCount side = length (split_lines (sideText side)) \<and>
     chunks_tile 0 0 (sideChunks side) (mergedAt b) (sideLineCount side) \<and>
     chunks_agree (split_lines (take (copiedTo b) s)) (split_lines (sideText side)) (sideChunks side))"

lemma take_substr: "p \<le> e \<Longrightarrow> take e s = take p s @ substr s p (e - p)"
  by (simp add: substr_def flip: take_add)

lemma append_unchanged_built:
  assumes "built s b" "copiedTo b \<le> e" "e \<le> length s" "is_line_start s e \<or> e = length s"
  shows "built s (append_unchanged s e b)" "copiedTo (append_unchanged s e b) = e"
    "sideText (builtSide (append_unchanged s e b)) = sideText (builtSide b) @ substr s (copiedTo b) (e - copiedTo b)"
proof -
  let ?p = "copiedTo b" and ?side = "builtSide b"
  let ?u = "substr s ?p (e - ?p)"
  have b: "closed (take ?p s) \<and> closed (sideText ?side) \<or> ?p = length s" "mergedAt b = length (split_lines (take ?p s))"
    "sideLineCount ?side = length (split_lines (sideText ?side))"
    "chunks_tile 0 0 (sideChunks ?side) (mergedAt b) (sideLineCount ?side)"
    "chunks_agree (split_lines (take ?p s)) (split_lines (sideText ?side)) (sideChunks ?side)"
    using assms(1) by (auto simp: built_def Let_def)
  have cl: "closed (take ?p s) \<or> ?u = []" "closed (sideText ?side) \<or> ?u = []"
    using b(1) assms(2,3) by (auto simp: substr_def)
  have merged: "split_lines (take e s) = split_lines (take ?p s) @ split_lines ?u"
    unfolding take_substr [OF assms(2)] by (rule split_lines_append [OF cl(1)])
  have side: "split_lines (sideText ?side @ ?u) = split_lines (sideText ?side) @ split_lines ?u"
    by (rule split_lines_append [OF cl(2)])
  let ?n = "length (split_lines ?u)"
  have n: "lines_before s e - mergedAt b = ?n"
    using lines_before_split [OF assms(3)] b(2) merged by simp
  have closed: "closed (take e s) \<and> closed (sideText ?side @ ?u) \<or> e = length s"
  proof (cases "e = length s")
    case False
    then have "closed (take e s)" using closed_take [OF assms(3)] assms(4) by simp
    moreover have "closed (sideText ?side)" using False b(1) assms(2,3) by auto
    moreover have "closed ?u"
      using calculation(1) unfolding take_substr [OF assms(2)] by (cases "?u = []") (auto simp: closed_def)
    ultimately show ?thesis using closed_append by blast
  qed simp
  have agree: "chunks_agree (split_lines (take e s)) (split_lines (sideText ?side @ ?u)) (sideChunks ?side)"
    unfolding merged side by (rule chunks_agree_append [OF b(5)])
  let ?chunk = "\<lparr>mergedLine = mergedAt b, mergedCount = ?n, sideLine = sideLineCount ?side, sideCount = ?n,
    chunkChanged = False\<rparr>"
  have "chunks_agree (split_lines (take e s)) (split_lines (sideText ?side @ ?u)) [?chunk]"
    unfolding merged side by (simp add: chunks_agree_def b(2,3) substr_def)
  with agree have all: "chunks_agree (split_lines (take e s)) (split_lines (sideText ?side @ ?u))
      (sideChunks ?side @ (if ?n > 0 then [?chunk] else []))"
    by (simp add: chunks_agree_snoc)
  have tiled: "chunks_tile 0 0 (sideChunks ?side @ (if ?n > 0 then [?chunk] else [])) (mergedAt b + ?n) (sideLineCount ?side + ?n)"
    using b(4) by (simp add: tiles_append)
  have at: "mergedAt b + ?n = length (split_lines (take e s))"
    "sideLineCount ?side + ?n = length (split_lines (sideText ?side @ ?u))"
    by (simp_all only: b(2,3) merged side length_append)
  show "built s (append_unchanged s e b)"
    unfolding built_def append_unchanged_def Let_def n
    using closed assms(3) all tiled at
    by (simp only: side_builder.simps merge_side.simps simp_thms)
  show "copiedTo (append_unchanged s e b) = e"
    "sideText (builtSide (append_unchanged s e b)) = sideText ?side @ ?u"
    by (simp_all add: append_unchanged_def Let_def)
qed

lemma append_section_built:
  assumes "built s b" "copiedTo b = conflictStart k" "conflictStart k \<le> conflictEnd k" "conflictEnd k \<le> length s"
    "is_line_start s (conflictEnd k) \<or> conflictEnd k = length s" "conflictStart k < length s"
    "fst r \<le> snd r" "snd r \<le> length s" "is_line_start s (snd r)"
  shows "built s (append_section s k r b)" "copiedTo (append_section s k r b) = conflictEnd k"
    "sideText (builtSide (append_section s k r b)) = sideText (builtSide b) @ substr s (fst r) (snd r - fst r)"
proof -
  let ?p = "copiedTo b" and ?e = "conflictEnd k" and ?side = "builtSide b"
  let ?c = "substr s (fst r) (snd r - fst r)"
  have b: "closed (take ?p s)" "closed (sideText ?side)" "mergedAt b = length (split_lines (take ?p s))"
    "sideLineCount ?side = length (split_lines (sideText ?side))"
    "chunks_tile 0 0 (sideChunks ?side) (mergedAt b) (sideLineCount ?side)"
    "chunks_agree (split_lines (take ?p s)) (split_lines (sideText ?side)) (sideChunks ?side)"
    using assms(1,2,6) by (auto simp: built_def Let_def)
  have merged: "split_lines (take ?e s) = split_lines (take ?p s) @ split_lines (substr s ?p (?e - ?p))"
    using take_substr [of ?p ?e s] assms(2,3) split_lines_append b(1) by metis
  have side: "split_lines (sideText ?side @ ?c) = split_lines (sideText ?side) @ split_lines ?c"
    using split_lines_append b(2) by blast
  have cc: "closed ?c"
  proof (cases "?c = []")
    case False
    then have "fst r < snd r" by (auto simp: substr_def)
    moreover have "last ?c = s ! (snd r - 1)"
      using calculation assms(8) False by (simp add: last_conv_nth substr_def)
    ultimately show ?thesis using assms(9) by (auto simp: closed_def is_line_start_def)
  qed (simp add: closed_def)
  have ce: "closed (take ?e s) \<or> ?e = length s"
    using assms(5) closed_take [OF assms(4)] by simp
  have agree: "chunks_agree (split_lines (take ?e s)) (split_lines (sideText ?side @ ?c)) (sideChunks ?side)"
    unfolding merged side by (rule chunks_agree_append [OF b(6)])
  let ?n = "length (split_lines ?c)" and ?m = "lines_before s ?e - mergedAt b"
  let ?chunk = "\<lparr>mergedLine = mergedAt b, mergedCount = ?m, sideLine = sideLineCount ?side, sideCount = ?n,
    chunkChanged = True\<rparr>"
  have all: "chunks_agree (split_lines (take ?e s)) (split_lines (sideText ?side @ ?c)) (sideChunks ?side @ [?chunk])"
    using agree by (simp add: chunks_agree_snoc chunks_agree_changed)
  have tiled: "chunks_tile 0 0 (sideChunks ?side @ [?chunk]) (mergedAt b + ?m) (sideLineCount ?side + ?n)"
    using b(5) by (simp add: tiles_append)
  have at: "mergedAt b + ?m = length (split_lines (take ?e s))"
    "sideLineCount ?side + ?n = length (split_lines (sideText ?side @ ?c))"
    by (simp_all add: b(3,4) merged side lines_before_split [OF assms(4)])
  have closed: "closed (take ?e s) \<and> closed (sideText ?side @ ?c) \<or> ?e = length s"
    using ce closed_append [OF b(2) cc] by blast
  show "built s (append_section s k r b)"
    unfolding built_def append_section_def Let_def
    using closed assms(4) all tiled at
    by (simp only: side_builder.simps merge_side.simps simp_thms)
  show "copiedTo (append_section s k r b) = ?e"
    "sideText (builtSide (append_section s k r b)) = sideText ?side @ ?c"
    by (simp_all add: append_section_def Let_def)
qed


lemma hunk_section:
  assumes "hunks_ordered s off (k # ks)" "section_of k kind = Some r"
  shows "fst r \<le> snd r" "snd r \<le> length s" "is_line_start s (snd r)"
  using assms by (cases kind; force)+

lemma append_hunks_built:
  assumes "built s b" "hunks_ordered s (copiedTo b) ks"
  shows "case append_hunks s kind ks b of
      None \<Rightarrow> kind = Base \<and> (\<exists>k \<in> set ks. baseRange k = None)
    | Some b' \<Rightarrow> built s b' \<and>
        sideText (builtSide b') @ drop (copiedTo b') s = sideText (builtSide b) @ sections_in_place s kind (copiedTo b) ks"
  using assms
proof (induction ks arbitrary: b)
  case (Cons k ks)
  show ?case
  proof (cases "section_of k kind")
    case None
    then show ?thesis by (cases kind) auto
  next
    case (Some r)
    have k: "copiedTo b \<le> conflictStart k" "conflictStart k < conflictEnd k" "conflictEnd k \<le> length s"
      "is_line_start s (conflictStart k)" "is_line_start s (conflictEnd k) \<or> conflictEnd k = length s"
      "hunks_ordered s (conflictEnd k) ks"
      using Cons.prems(2) by auto
    let ?b1 = "append_unchanged s (conflictStart k) b"
    have b1: "built s ?b1" "copiedTo ?b1 = conflictStart k"
      "sideText (builtSide ?b1) = sideText (builtSide b) @ substr s (copiedTo b) (conflictStart k - copiedTo b)"
      by (rule append_unchanged_built [OF Cons.prems(1) k(1)]; use k in simp)+
    let ?b2 = "append_section s k r ?b1"
    have b2: "built s ?b2" "copiedTo ?b2 = conflictEnd k"
      "sideText (builtSide ?b2) = sideText (builtSide ?b1) @ substr s (fst r) (snd r - fst r)"
      by (rule append_section_built [OF b1(1,2)]; use k hunk_section [OF Cons.prems(2) Some] in simp)+
    have eq: "append_hunks s kind (k # ks) b = append_hunks s kind ks ?b2"
      "sideText (builtSide ?b2) @ sections_in_place s kind (conflictEnd k) ks =
        sideText (builtSide b) @ sections_in_place s kind (copiedTo b) (k # ks)"
      using Some b1(3) b2(3) by (simp_all add: split_beta)
    have "hunks_ordered s (copiedTo ?b2) ks" unfolding b2(2) by (rule k(6))
    from Cons.IH [OF b2(1) this] show ?thesis
      unfolding eq(1) eq(2) [symmetric] b2(2) by (simp split: option.splits)
  qed
qed simp

section \<open>The properties\<close>

text \<open>
  C27: a side derived from the conflict markers is the merged text with every hunk replaced by
  that side's section; its chunks tile the lines of both texts, the unchanged ones pairing
  identical lines; and only a base side is refused, when a hunk has no base section.
\<close>

theorem side_replaces_markers:
  "case merge_side_from_markers s (parse_conflict_hunks s) kind of
     None \<Rightarrow> kind = Base \<and> (\<exists>k \<in> set (parse_conflict_hunks s). baseRange k = None)
   | Some side \<Rightarrow>
       sideText side = sections_in_place s kind 0 (parse_conflict_hunks s) \<and>
       sideLineCount side = length (split_lines (sideText side)) \<and>
       tiled_side (length (split_lines s)) side \<and>
       chunks_agree (split_lines s) (split_lines (sideText side)) (sideChunks side)"
proof -
  let ?b0 = "\<lparr>builtSide = \<lparr>sideText = [], sideLineCount = 0, sideChunks = []\<rparr>, copiedTo = 0, mergedAt = 0\<rparr>"
  have "built s ?b0" by (simp add: built_def closed_def split_lines.simps [of "[]"] chunks_agree_def)
  from append_hunks_built [OF this, of "parse_conflict_hunks s" kind]
  have fold: "case append_hunks s kind (parse_conflict_hunks s) ?b0 of
      None \<Rightarrow> kind = Base \<and> (\<exists>k \<in> set (parse_conflict_hunks s). baseRange k = None)
    | Some b' \<Rightarrow> built s b' \<and>
        sideText (builtSide b') @ drop (copiedTo b') s = sections_in_place s kind 0 (parse_conflict_hunks s)"
    using parse_from_in_order [of s 0] by (auto simp: parse_conflict_hunks_def split: option.splits)
  show ?thesis
  proof (cases "append_hunks s kind (parse_conflict_hunks s) ?b0")
    case None
    then show ?thesis using fold by (simp add: merge_side_from_markers_def)
  next
    case (Some b)
    then have b: "built s b" "sideText (builtSide b) @ drop (copiedTo b) s = sections_in_place s kind 0 (parse_conflict_hunks s)"
      using fold by simp_all
    let ?e = "append_unchanged s (length s) b"
    have le: "copiedTo b \<le> length s" using b(1) by (simp add: built_def Let_def)
    have e: "built s ?e" "copiedTo ?e = length s"
      "sideText (builtSide ?e) = sideText (builtSide b) @ substr s (copiedTo b) (length s - copiedTo b)"
      by (rule append_unchanged_built [OF b(1) le]; simp)+
    have "sideText (builtSide ?e) = sections_in_place s kind 0 (parse_conflict_hunks s)"
      using e(3) b(2) by (simp add: substr_def)
    then show ?thesis
      using Some e(1,2) by (auto simp: merge_side_from_markers_def built_def Let_def tiled_side_def)
  qed
qed

lemma panes_of_sides:
  assumes "\<forall>s \<in> set sides. tiled_side n s"
  shows "\<exists>panes. align_panes n sides = Some panes \<and> length panes = Suc (length sides) \<and>
    (\<forall>k\<le>length sides. total_rows (panes ! k) = total_rows (panes ! 0))"
proof -
  obtain ps where ps: "align_panes n sides = Some (map (\<lambda>p. rows_from (padLeading p) (padAfter p)) ps)"
    "map (\<lambda>p. length (padAfter p)) ps = n # map sideLineCount sides"
    "\<exists>T. \<forall>p \<in> set ps. row_in p (length (padAfter p)) = T"
    by (rule align_panes_rows [OF assms])
  have len: "length ps = Suc (length sides)" using arg_cong [OF ps(2), of length] by simp
  let ?panes = "map (\<lambda>p. rows_from (padLeading p) (padAfter p)) ps"
  have "total_rows (?panes ! k) = total_rows (?panes ! 0)" if "k \<le> length sides" for k
    using ps(3) that len by (auto simp: total_of_pane)
  moreover have "length ?panes = Suc (length sides)" using len by simp
  ultimately show ?thesis using ps(1) by blast
qed

text \<open>
  C28: for sides whose chunks tile their lines and those of the merged text, \<open>AlignPanes\<close> always
  returns, and all panes have as many rows.  A merged line that every side holds unchanged shares
  its row, in each pane, with its counterpart there; only where a side has lines of its own right
  before the counterpart is it the first of those lines that has the row, and the counterpart
  itself comes further down.
\<close>

theorem panes_share_rows:
  assumes "\<forall>s \<in> set sides. tiled_side n s"
  shows "\<exists>panes. align_panes n sides = Some panes \<and> length panes = Suc (length sides) \<and>
    (\<forall>k\<le>length sides. total_rows (panes ! k) = total_rows (panes ! 0)) \<and>
    (\<forall>c ls. c < n \<and> length ls = length sides \<and> (\<forall>k<length sides. held_line (sideChunks (sides ! k)) c (ls ! k)) \<longrightarrow>
      (\<forall>k<length sides. aligned_row (panes ! Suc k) (first_line_for (sideChunks (sides ! k)) c (ls ! k)) =
        aligned_row (panes ! 0) c))"
proof -
  obtain panes where panes: "align_panes n sides = Some panes" "length panes = Suc (length sides)"
    "\<forall>k\<le>length sides. total_rows (panes ! k) = total_rows (panes ! 0)"
    using panes_of_sides [OF assms] by blast
  have "aligned_row (panes ! Suc k) (first_line_for (sideChunks (sides ! k)) c (ls ! k)) = aligned_row (panes ! 0) c"
    if ls: "c < n" "length ls = length sides" "\<forall>k<length sides. held_line (sideChunks (sides ! k)) c (ls ! k)"
      and k: "k < length sides" for c ls k
  proof -
    let ?first = "map (\<lambda>k. first_line_for (sideChunks (sides ! k)) c (ls ! k)) [0..<length sides]"
    have "\<forall>k<length sides. stands_for (sideChunks (sides ! k)) c (?first ! k)"
      using ls(3) by (auto simp: stands_for_def)
    from aligned_sides [OF assms _ ls(1) this] panes(1) k show ?thesis by simp
  qed
  with panes show ?thesis by blast
qed

theorem panes_share_rows_witness:
  "\<exists>panes. align_panes 3 [\<lparr>sideText = ''a'', sideLineCount = 7,
        sideChunks = [\<lparr>mergedLine = 0, mergedCount = 1, sideLine = 0, sideCount = 3, chunkChanged = True\<rparr>,
          \<lparr>mergedLine = 1, mergedCount = 1, sideLine = 3, sideCount = 1, chunkChanged = False\<rparr>,
          \<lparr>mergedLine = 2, mergedCount = 0, sideLine = 4, sideCount = 2, chunkChanged = True\<rparr>,
          \<lparr>mergedLine = 2, mergedCount = 1, sideLine = 6, sideCount = 1, chunkChanged = False\<rparr>]\<rparr>] = Some panes \<and>
     length panes = 2 \<and> total_rows (panes ! 1) = total_rows (panes ! 0) \<and>
     aligned_row (panes ! 1) 3 = aligned_row (panes ! 0) 1 \<and> aligned_row (panes ! 1) 4 = aligned_row (panes ! 0) 2"
  (is "\<exists>panes. align_panes 3 [?side] = _ \<and> _")
proof -
  have main: "\<exists>panes. align_panes 3 [side] = Some panes \<and> length panes = 2 \<and>
      total_rows (panes ! 1) = total_rows (panes ! 0) \<and>
      aligned_row (panes ! 1) (first_line_for (sideChunks side) 1 3) = aligned_row (panes ! 0) 1 \<and>
      aligned_row (panes ! 1) (first_line_for (sideChunks side) 2 6) = aligned_row (panes ! 0) 2"
    if tiled: "tiled_side 3 side" and held: "held_line (sideChunks side) 1 3" "held_line (sideChunks side) 2 6" for side
  proof -
    have "\<forall>s \<in> set [side]. tiled_side 3 s" using tiled by simp
    from panes_share_rows [OF this] obtain panes where p: "align_panes 3 [side] = Some panes"
      "length panes = Suc (length [side])" "\<forall>k\<le>length [side]. total_rows (panes ! k) = total_rows (panes ! 0)"
      "\<And>c ls. c < 3 \<and> length ls = length [side] \<and> (\<forall>k<length [side]. held_line (sideChunks ([side] ! k)) c (ls ! k)) \<Longrightarrow>
        (\<forall>k<length [side]. aligned_row (panes ! Suc k) (first_line_for (sideChunks ([side] ! k)) c (ls ! k)) =
          aligned_row (panes ! 0) c)"
      by blast
    from p(2) have "length panes = 2" by simp
    moreover from spec [OF p(3), of 1] have "total_rows (panes ! 1) = total_rows (panes ! 0)" by simp
    moreover from p(4) [of 1 "[3]"] held(1)
    have "aligned_row (panes ! 1) (first_line_for (sideChunks side) 1 3) = aligned_row (panes ! 0) 1" by simp
    moreover from p(4) [of 2 "[6]"] held(2)
    have "aligned_row (panes ! 1) (first_line_for (sideChunks side) 2 6) = aligned_row (panes ! 0) 2" by simp
    ultimately show ?thesis using p(1) by blast
  qed
  have side: "tiled_side 3 ?side" "held_line (sideChunks ?side) 1 3" "held_line (sideChunks ?side) 2 6" by code_simp+
  have first: "first_line_for (sideChunks ?side) 1 3 = 3" "first_line_for (sideChunks ?side) 2 6 = 4" by code_simp+
  show ?thesis by (rule main [OF side, unfolded first])
qed

text \<open>
  Where nothing of the merged text stands for the lines a side has right before an unchanged
  line, \<open>SideLineAt\<close> answers the first of those lines, so the unchanged line does not share
  its row with its counterpart.
\<close>

lemma insertion_shifts_line:
  "case align_panes 2 [\<lparr>sideText = ''a'', sideLineCount = 4,
        sideChunks = [\<lparr>mergedLine = 0, mergedCount = 1, sideLine = 0, sideCount = 1, chunkChanged = False\<rparr>,
          \<lparr>mergedLine = 1, mergedCount = 0, sideLine = 1, sideCount = 2, chunkChanged = True\<rparr>,
          \<lparr>mergedLine = 1, mergedCount = 1, sideLine = 3, sideCount = 1, chunkChanged = False\<rparr>]\<rparr>] of None \<Rightarrow> False
   | Some panes \<Rightarrow> aligned_row (panes ! 0) 1 = 1 \<and> aligned_row (panes ! 1) 1 = 1 \<and> aligned_row (panes ! 1) 3 = 3"
  by code_simp

end
