(* ===== verification/RegexPattern.thy ===== *)
theory RegexPattern
  imports RemoteFile Utf8
begin

text \<open>
  \<open>Source/Editor/RegexPattern.cpp\<close>: searching with a compiled pattern, expanding a replacement
  template against a match, and replacing every match of a text.

  PCRE2 is not part of the program.  A compiled pattern is a \<open>pcre\<close>: what \<open>pcre2_match\<close> answers on
  a subject from an offset, the number of capture groups, and the number of a named group.  What
  PCRE2 documents of a match, and the code relies on, is \<open>pcre_sound\<close>.  The spans of a match on a
  subject lie inside it, so that taking them out of it (\<open>substr\<close>, \<open>take\<close>, \<open>drop\<close>) never throws;
  a match of another subject is not given to \<open>FormatReplacement\<close>.
\<close>

section \<open>Patterns and matches\<close>

record group_span =
  groupMatched :: bool
  groupStart :: offset
  groupEnd :: offset

record regex_match =
  regexStart :: offset
  regexEnd :: offset
  matchGroups :: "group_span list"

datatype regex_error = MatchLimitExceeded | MatchFailed int | GroupNumberTooLarge

text \<open>A match is the ovector: the whole match, then the later pairs below \<open>rc\<close>; \<open>None\<close> is \<open>PCRE2_UNSET\<close>.\<close>

datatype pcre_result =
    PcreNoMatch
  | PcreLimit
  | PcreError int
  | PcreMatch "offset \<times> offset" "(offset \<times> offset) option list"

record pcre =
  pcreMatch :: "bytes \<Rightarrow> offset \<Rightarrow> pcre_result"
  captureCount :: nat
  groupNumber :: "bytes \<Rightarrow> int"

definition group_spans :: "nat \<Rightarrow> (offset \<times> offset) option list \<Rightarrow> group_span list" where
  "group_spans cc pairs =
     map (\<lambda>i. case if i < length pairs then pairs ! i else None of
         None \<Rightarrow> \<lparr>groupMatched = False, groupStart = 0, groupEnd = 0\<rparr>
       | Some (s, e) \<Rightarrow> \<lparr>groupMatched = True, groupStart = s, groupEnd = e\<rparr>) [0..<cc + 1]"

definition regex_search :: "pcre \<Rightarrow> bytes \<Rightarrow> offset \<Rightarrow> regex_error + regex_match option" where
  "regex_search p subject startOffset =
     (if length subject < startOffset then Inr None
      else case pcreMatch p subject startOffset of
        PcreNoMatch \<Rightarrow> Inr None
      | PcreLimit \<Rightarrow> Inl MatchLimitExceeded
      | PcreError e \<Rightarrow> Inl (MatchFailed e)
      | PcreMatch whole rest \<Rightarrow> Inr (Some \<lparr>regexStart = fst whole, regexEnd = snd whole,
          matchGroups = group_spans (captureCount p) (Some whole # rest)\<rparr>))"

section \<open>Replacement templates\<close>

definition group_text :: "bytes \<Rightarrow> regex_match \<Rightarrow> nat \<Rightarrow> bytes" where
  "group_text subject m n =
     (if length (matchGroups m) \<le> n \<or> \<not> groupMatched (matchGroups m ! n) then []
      else let g = matchGroups m ! n in substr subject (groupStart g) (groupEnd g - groupStart g))"

abbreviation dollar :: char where
  "dollar \<equiv> CHR ''$''"

definition decimal_digit :: "char \<Rightarrow> bool" where
  "decimal_digit c \<longleftrightarrow> 48 \<le> (of_char c :: nat) \<and> (of_char c :: nat) \<le> 57"

definition decimal_value :: "bytes \<Rightarrow> nat" where
  "decimal_value s = fold (\<lambda>c v. v * 10 + (of_char c - 48)) s 0"

text \<open>\<open>$n\<close> and \<open>$nn\<close>: two digits when they name a group, else one; the number of digits and the group.\<close>

definition numbered_group :: "nat \<Rightarrow> bytes \<Rightarrow> offset \<Rightarrow> (nat \<times> nat) option" where
  "numbered_group cc t i =
     (let two = decimal_value (substr t (i + 1) 2); one = decimal_value (substr t (i + 1) 1)
      in if i + 2 < length t \<and> decimal_digit (t ! (i + 2)) \<and> two \<le> cc then Some (2, two)
         else if one \<le> cc then Some (1, one) else None)"

text \<open>\<open>${name}\<close> and \<open>${n}\<close>; \<open>std::stoul\<close> throws on a number past 64 bits.\<close>

definition braced_group :: "pcre \<Rightarrow> bytes \<Rightarrow> regex_error + nat option" where
  "braced_group p nm =
     (if list_all decimal_digit nm then
        if 2 ^ 64 \<le> decimal_value nm then Inl GroupNumberTooLarge
        else Inr (if decimal_value nm \<le> captureCount p then Some (decimal_value nm) else None)
      else let n = groupNumber p (takeWhile (\<lambda>c. c \<noteq> CHR 0x00) nm)
        in Inr (if 0 < n then Some (nat n) else None))"

text \<open>One turn of the loop of \<open>FormatReplacement\<close>: what it appends, and where it goes on.\<close>

definition template_item ::
  "pcre \<Rightarrow> bytes \<Rightarrow> regex_match \<Rightarrow> bytes \<Rightarrow> offset \<Rightarrow> regex_error + bytes \<times> offset" where
  "template_item p subject m t i =
     (if t ! i \<noteq> dollar \<or> length t \<le> i + 1 then Inr ([t ! i], i + 1)
      else let nxt = t ! (i + 1); literal = Inr ([dollar], i + 1)
        in if nxt = dollar then Inr ([dollar], i + 2)
           else if nxt = CHR ''&'' then Inr (group_text subject m 0, i + 2)
           else if nxt = CHR 0x60 then Inr (take (regexStart m) subject, i + 2)
           else if nxt = CHR 0x27 then Inr (drop (regexEnd m) subject, i + 2)
           else if decimal_digit nxt then
             (case numbered_group (captureCount p) t i of
                None \<Rightarrow> literal
              | Some (digits, n) \<Rightarrow> Inr (group_text subject m n, i + 1 + digits))
           else if nxt = CHR ''{'' then
             (case find_char_from (CHR ''}'') (i + 2) t of
                None \<Rightarrow> literal
              | Some closing \<Rightarrow> if closing = i + 2 then literal
                  else (case braced_group p (substr t (i + 2) (closing - i - 2)) of
                      Inl e \<Rightarrow> Inl e
                    | Inr None \<Rightarrow> literal
                    | Inr (Some n) \<Rightarrow> Inr (group_text subject m n, closing + 1)))
           else literal)"

lemma find_char_from_ge: "find_char_from c i s = Some k \<Longrightarrow> i \<le> k"
  by (auto simp: find_char_from_def)

lemma template_item_advances: "template_item p subject m t i = Inr (piece, j) \<Longrightarrow> i < j"
  by (auto simp: template_item_def Let_def split: if_splits option.splits sum.splits dest: find_char_from_ge)

function format_from ::
  "pcre \<Rightarrow> bytes \<Rightarrow> regex_match \<Rightarrow> bytes \<Rightarrow> offset \<Rightarrow> regex_error + bytes" where
  "format_from p subject m t i =
     (if i < length t then
        (case template_item p subject m t i of
           Inl e \<Rightarrow> Inl e
         | Inr (piece, j) \<Rightarrow> map_sum id ((@) piece) (format_from p subject m t j))
      else Inr [])"
  by pat_completeness auto

termination
  by (relation "measure (\<lambda>(p, subject, m, t, i). length t - i)") (auto dest!: template_item_advances)

declare format_from.simps [simp del]

definition format_replacement :: "pcre \<Rightarrow> bytes \<Rightarrow> regex_match \<Rightarrow> bytes \<Rightarrow> regex_error + bytes" where
  "format_replacement p subject m t = format_from p subject m t 0"

section \<open>Replacing every match\<close>

record replaced =
  replacedText :: bytes
  replacedCount :: nat

partial_function (option) replace_loop ::
  "pcre \<Rightarrow> bytes \<Rightarrow> bytes \<Rightarrow> replaced \<Rightarrow> offset \<Rightarrow> offset \<Rightarrow> (regex_error + replaced) option" where
  "replace_loop p subject t r copiedThrough searchFrom =
     (case regex_search p subject searchFrom of
        Inl e \<Rightarrow> Some (Inl e)
      | Inr None \<Rightarrow> Some (Inr (r\<lparr>replacedText := replacedText r @ drop copiedThrough subject\<rparr>))
      | Inr (Some m) \<Rightarrow>
          (case format_replacement p subject m t of
             Inl e \<Rightarrow> Some (Inl e)
           | Inr piece \<Rightarrow>
               let r' = \<lparr>replacedText = replacedText r @
                           substr subject copiedThrough (regexStart m - copiedThrough) @ piece,
                         replacedCount = replacedCount r + 1\<rparr>
               in if regexEnd m = regexStart m then
                    let nxt = next_codepoint_boundary subject (regexEnd m)
                    in if nxt = regexEnd m
                       then Some (Inr (r'\<lparr>replacedText := replacedText r' @ drop (regexEnd m) subject\<rparr>))
                       else replace_loop p subject t
                         (r'\<lparr>replacedText := replacedText r' @ substr subject (regexEnd m) (nxt - regexEnd m)\<rparr>) nxt nxt
                  else replace_loop p subject t r' (regexEnd m) (regexEnd m)))"

definition regex_replace_all :: "pcre \<Rightarrow> bytes \<Rightarrow> bytes \<Rightarrow> (regex_error + replaced) option" where
  "regex_replace_all p subject t = replace_loop p subject t \<lparr>replacedText = [], replacedCount = 0\<rparr> 0 0"

section \<open>What PCRE2 documents\<close>

text \<open>A match lies at or after the offset asked for, in order, within the subject; its first group is itself.\<close>

definition pcre_sound :: "pcre \<Rightarrow> bool" where
  "pcre_sound p \<longleftrightarrow> (\<forall>subject i whole rest. i \<le> length subject \<longrightarrow>
     pcreMatch p subject i = PcreMatch whole rest \<longrightarrow>
     i \<le> fst whole \<and> fst whole \<le> snd whole \<and> snd whole \<le> length subject)"

lemma search_found:
  assumes "regex_search p subject i = Inr (Some m)"
  obtains whole rest where "pcreMatch p subject i = PcreMatch whole rest" "i \<le> length subject"
    "m = \<lparr>regexStart = fst whole, regexEnd = snd whole, matchGroups = group_spans (captureCount p) (Some whole # rest)\<rparr>"
proof (cases "pcreMatch p subject i")
  case (PcreMatch whole rest)
  show ?thesis
  proof (rule that [OF PcreMatch])
    show "i \<le> length subject" using assms by (simp add: regex_search_def split: if_splits)
    then show "m = \<lparr>regexStart = fst whole, regexEnd = snd whole,
        matchGroups = group_spans (captureCount p) (Some whole # rest)\<rparr>"
      using assms PcreMatch by (simp add: regex_search_def)
  qed
qed (use assms in \<open>simp_all add: regex_search_def split: if_splits\<close>)

lemma search_sound:
  assumes "pcre_sound p" "regex_search p subject i = Inr (Some m)"
  shows "i \<le> regexStart m" "regexStart m \<le> regexEnd m" "regexEnd m \<le> length subject"
    "group_text subject m 0 = substr subject (regexStart m) (regexEnd m - regexStart m)"
proof -
  obtain whole rest where m: "pcreMatch p subject i = PcreMatch whole rest" "i \<le> length subject"
    "m = \<lparr>regexStart = fst whole, regexEnd = snd whole, matchGroups = group_spans (captureCount p) (Some whole # rest)\<rparr>"
    by (rule search_found [OF assms(2)])
  show "i \<le> regexStart m" "regexStart m \<le> regexEnd m" "regexEnd m \<le> length subject"
    using assms(1) [unfolded pcre_sound_def, rule_format, OF m(2,1)] m(3) by simp_all
  have "group_spans (captureCount p) (Some whole # rest) ! 0 =
      \<lparr>groupMatched = True, groupStart = fst whole, groupEnd = snd whole\<rparr>"
    unfolding group_spans_def by (subst nth_map) (simp_all split: prod.splits del: upt_Suc)
  moreover have "length (group_spans (captureCount p) (Some whole # rest)) = captureCount p + 1"
    by (simp add: group_spans_def del: upt_Suc)
  ultimately show "group_text subject m 0 = substr subject (regexStart m) (regexEnd m - regexStart m)"
    using m(3) by (simp add: group_text_def)
qed

section \<open>Templates\<close>

definition escape_template :: "bytes \<Rightarrow> bytes" where
  "escape_template s = concat (map (\<lambda>c. if c = dollar then [dollar, dollar] else [c]) s)"

lemma format_escaped:
  "format_from p subject m (pre @ escape_template s) (length pre) = Inr s"
proof (induction s arbitrary: pre)
  case Nil
  then show ?case by (simp add: escape_template_def format_from.simps)
next
  case (Cons c s)
  let ?e = "if c = dollar then [dollar, dollar] else [c]"
  have split: "pre @ escape_template (c # s) = (pre @ ?e) @ escape_template s" by (simp add: escape_template_def)
  have "template_item p subject m (pre @ escape_template (c # s)) (length pre) = Inr ([c], length (pre @ ?e))"
    by (simp add: template_item_def escape_template_def nth_append)
  then show ?case
    using Cons.IH [of "pre @ ?e"] split by (subst format_from.simps) (simp add: escape_template_def)
qed

lemma template_without_references: "dollar \<notin> set s \<Longrightarrow> escape_template s = s"
  by (induction s) (auto simp: escape_template_def)

lemma format_literal: "dollar \<notin> set t \<Longrightarrow> format_replacement p subject m t = Inr t"
  using format_escaped [of p subject m "[]" t] by (simp add: format_replacement_def template_without_references)

text \<open>The template language can say every text: doubling its dollars quotes it.\<close>

lemma escaped_template_round_trip: "format_replacement p subject m (escape_template s) = Inr s"
  using format_escaped [of p subject m "[]" s] by (simp add: format_replacement_def)

lemma whole_match_template: "format_replacement p subject m ''$&'' = Inr (group_text subject m 0)"
  by (simp add: format_replacement_def format_from.simps template_item_def)

text \<open>The header says that nothing in a template raises an error; a long group number does.\<close>

lemma long_group_number_throws:
  "format_replacement p subject m ''${18446744073709551616}'' = Inl GroupNumberTooLarge"
  by (simp add: format_replacement_def format_from.simps template_item_def find_char_from_def substr_def
      braced_group_def decimal_digit_def decimal_value_def)

section \<open>What replacing every match does\<close>

text \<open>The matches one after another, and the edits in place, the last one first.\<close>

definition search_after :: "bytes \<Rightarrow> regex_match \<Rightarrow> offset option" where
  "search_after subject m =
     (if regexStart m < regexEnd m then Some (regexEnd m)
      else if regexEnd m < length subject then Some (next_codepoint_boundary subject (regexEnd m)) else None)"

fun successive_matches :: "pcre \<Rightarrow> bytes \<Rightarrow> offset option \<Rightarrow> regex_match list \<Rightarrow> bool" where
  "successive_matches p subject None ms \<longleftrightarrow> ms = []"
| "successive_matches p subject (Some i) [] \<longleftrightarrow> regex_search p subject i = Inr None"
| "successive_matches p subject (Some i) (m # ms) \<longleftrightarrow>
     regex_search p subject i = Inr (Some m) \<and> successive_matches p subject (search_after subject m) ms"

definition edit_in_place :: "(regex_match \<times> bytes) list \<Rightarrow> bytes \<Rightarrow> bytes" where
  "edit_in_place edits subject =
     foldr (\<lambda>(m, s) text. take (regexStart m) text @ s @ drop (regexEnd m) text) edits subject"

lemma next_boundary_step:
  assumes "i \<le> length s"
  shows "next_codepoint_boundary s i = i \<longleftrightarrow> i = length s" "i < length s \<Longrightarrow> i < next_codepoint_boundary s i"
proof -
  show "i < length s \<Longrightarrow> i < next_codepoint_boundary s i" by (rule next_boundary_progress)
  then show "next_codepoint_boundary s i = i \<longleftrightarrow> i = length s"
    using assms next_boundary_bound [of s i] by (cases "i < length s") (auto simp: next_codepoint_boundary_def)
qed

lemma edits_after:
  assumes "pcre_sound p" "successive_matches p subject (Some i) (map fst edits)" "i \<le> length subject"
  shows "take i (edit_in_place edits subject) = take i subject" "i \<le> length (edit_in_place edits subject)"
proof -
  have "take i (edit_in_place edits subject) = take i subject \<and> i \<le> length (edit_in_place edits subject)"
    using assms(2,3)
  proof (induction edits arbitrary: i)
    case Nil
    then show ?case by (simp add: edit_in_place_def)
  next
    case (Cons e edits)
    obtain m s where e: "e = (m, s)" by (cases e)
    let ?rest = "edit_in_place edits subject"
    note m = search_sound [OF assms(1), of subject i m]
    have found: "regex_search p subject i = Inr (Some m)" using Cons.prems e by simp
    have "take (regexStart m) ?rest = take (regexStart m) subject \<and> regexStart m \<le> length ?rest"
    proof (cases "search_after subject m")
      case None
      then show ?thesis using Cons.prems e m [OF found] by (simp add: edit_in_place_def)
    next
      case (Some j)
      then have j: "regexStart m \<le> j" "j \<le> length subject"
        using m [OF found] next_boundary_step(2) [of "regexEnd m" subject] next_boundary_bound [of subject "regexEnd m"]
        by (auto simp: search_after_def split: if_splits)
      from Some Cons.IH [of j] Cons.prems e j(2)
      have "take j ?rest = take j subject" "j \<le> length ?rest" by simp_all
      with j(1) show ?thesis by (metis le_trans min.absorb1 take_take)
    qed
    then show ?case using m(1) [OF found] e Cons.prems(2)
      by (simp add: edit_in_place_def)
  qed
  then show "take i (edit_in_place edits subject) = take i subject" "i \<le> length (edit_in_place edits subject)"
    by simp_all
qed

text \<open>What one edit in place does, with the rest of the text edited from \<open>j\<close> on.\<close>

lemma edit_first:
  assumes "i \<le> regexStart m" "regexStart m \<le> regexEnd m" "regexEnd m \<le> j" "j \<le> length subject"
    "take j (edit_in_place edits subject) = take j subject" "j \<le> length (edit_in_place edits subject)"
  shows "drop i (edit_in_place ((m, piece) # edits) subject) =
    substr subject i (regexStart m - i) @ piece @
      substr subject (regexEnd m) (j - regexEnd m) @ drop j (edit_in_place edits subject)"
proof -
  let ?rest = "edit_in_place edits subject"
  have "take (regexStart m) ?rest = take (regexStart m) subject"
    using assms(2,3,5) by (metis min.absorb1 order_trans take_take)
  then have "drop i (edit_in_place ((m, piece) # edits) subject) =
      substr subject i (regexStart m - i) @ piece @ drop (regexEnd m) ?rest"
    using assms(1-4) by (simp add: edit_in_place_def substr_def drop_take)
  moreover have "substr subject (regexEnd m) (j - regexEnd m) = take (j - regexEnd m) (drop (regexEnd m) ?rest)"
    using assms(5) by (simp add: substr_def flip: drop_take)
  then have "substr subject (regexEnd m) (j - regexEnd m) @ drop j ?rest = drop (regexEnd m) ?rest"
    using assms(3) append_take_drop_id [of "j - regexEnd m" "drop (regexEnd m) ?rest"] by simp
  ultimately show ?thesis by simp
qed

lemma replace_loop_edits:
  assumes "pcre_sound p" "i \<le> length subject"
  shows "\<exists>res. replace_loop p subject t r i i = Some res \<and>
    (case res of
       Inl e \<Rightarrow> \<exists>j m. regex_search p subject j = Inl e \<or> format_replacement p subject m t = Inl e
     | Inr out \<Rightarrow> \<exists>edits. successive_matches p subject (Some i) (map fst edits) \<and>
         (\<forall>(m, s) \<in> set edits. format_replacement p subject m t = Inr s) \<and>
         replacedText out = replacedText r @ drop i (edit_in_place edits subject) \<and>
         replacedCount out = replacedCount r + length edits)"
    (is "\<exists>res. _ = Some res \<and> ?goal i r res")
  using assms(2)
proof (induction "length subject - i" arbitrary: i r rule: less_induct)
  case less
  consider (error) e where "regex_search p subject i = Inl e"
    | (none) "regex_search p subject i = Inr None"
    | (found) m where "regex_search p subject i = Inr (Some m)"
    by (cases "regex_search p subject i") (auto split: option.splits intro: option.exhaust)
  then show ?case
  proof cases
    case error
    then show ?thesis by (subst replace_loop.simps) auto
  next
    case none
    then have "?goal i r (Inr (r\<lparr>replacedText := replacedText r @ drop i subject\<rparr>))"
      by (auto intro!: exI [of _ "[]"] simp: edit_in_place_def)
    then show ?thesis using none by (subst replace_loop.simps) auto
  next
    case found
    note m = search_sound [OF assms(1) found]
    show ?thesis
    proof (cases "format_replacement p subject m t")
      case (Inl e)
      then show ?thesis using found by (subst replace_loop.simps) auto
    next
      case (Inr piece)
      define r' where "r' = \<lparr>replacedText = replacedText r @ substr subject i (regexStart m - i) @ piece,
        replacedCount = replacedCount r + 1\<rparr>"
      show ?thesis
      proof (cases "search_after subject m")
        case None
        then have at_end: "regexEnd m = length subject" "regexStart m = regexEnd m"
          using m by (auto simp: search_after_def split: if_splits)
        let ?out = "Inr (r'\<lparr>replacedText := replacedText r' @ drop (regexEnd m) subject\<rparr>)"
        have "replace_loop p subject t r i i = Some ?out"
          using found Inr at_end by (subst replace_loop.simps) (simp add: r'_def next_codepoint_boundary_def)
        moreover have "?goal i r ?out"
          using edit_first [of i m "length subject" subject "[]" piece] m at_end None found Inr
          by (auto intro!: exI [of _ "[(m, piece)]"] simp: r'_def substr_def) (simp add: edit_in_place_def)
        ultimately show ?thesis by blast
      next
        case (Some j)
        define r'' where "r'' = r'\<lparr>replacedText := replacedText r' @ substr subject (regexEnd m) (j - regexEnd m)\<rparr>"
        have j: "regexEnd m \<le> j" "i < j" "j \<le> length subject"
          and step: "replace_loop p subject t r i i = replace_loop p subject t r'' j j"
          using Some m found Inr next_boundary_step [of "regexEnd m" subject] next_boundary_bound [of subject "regexEnd m"]
          by (auto simp: search_after_def replace_loop.simps [of p subject t r i i] substr_def [of _ _ 0] r''_def r'_def Let_def split: if_splits)
        have "length subject - j < length subject - i" using j(2,3) by linarith
        from less.hyps [OF this j(3), of r''] obtain res
          where res: "replace_loop p subject t r'' j j = Some res" "?goal j r'' res" by blast
        have "?goal i r res"
        proof (cases res)
          case (Inl e)
          then show ?thesis using res(2) by simp
        next
          case out: (Inr out)
          then obtain edits where edits: "successive_matches p subject (Some j) (map fst edits)"
            "\<forall>(m, s) \<in> set edits. format_replacement p subject m t = Inr s"
            "replacedText out = replacedText r'' @ drop j (edit_in_place edits subject)"
            "replacedCount out = replacedCount r'' + length edits"
            using res(2) by auto
          let ?rest = "edit_in_place edits subject"
          note kept = edits_after [OF assms(1) edits(1) j(3)]
          note edited = edit_first [OF m(1,2) j(1,3) kept]
          then have "replacedText out = replacedText r @ drop i (edit_in_place ((m, piece) # edits) subject)"
            using edits(3) by (simp add: edited r''_def r'_def)
          then show ?thesis
            using out found Some Inr edits
            by (auto intro!: exI [of _ "(m, piece) # edits"] simp: r''_def r'_def)
        qed
        with res(1) step show ?thesis by auto
      qed
    qed
  qed
qed


section \<open>A pattern of one byte\<close>

definition byte_pattern :: "char \<Rightarrow> pcre" where
  "byte_pattern c =
     \<lparr>pcreMatch = (\<lambda>s i. case find_char_from c i s of None \<Rightarrow> PcreNoMatch | Some k \<Rightarrow> PcreMatch (k, k + 1) []),
      captureCount = 0, groupNumber = (\<lambda>nm. - 49)\<rparr>"

lemma find_byte: "find_text [c] s = Some k \<Longrightarrow> k < length s \<and> s ! k = c \<and> c \<notin> set (take k s)"
  by (induction s arbitrary: k) (auto split: if_splits)

lemma byte_pattern_sound: "pcre_sound (byte_pattern c)"
  by (auto simp: pcre_sound_def byte_pattern_def find_char_from_def dest!: find_byte split: option.splits)

section \<open>Replacing all as edits in place\<close>

text \<open>
  Replacing every match always ends, and gives the text with each successive match edited in
  place, the last one first; it fails only where a search or the template fails.
\<close>

lemma replace_all_edits_in_place:
  assumes "pcre_sound p"
  shows "\<exists>res. regex_replace_all p subject t = Some res \<and>
    (case res of
       Inl e \<Rightarrow> \<exists>i m. regex_search p subject i = Inl e \<or> format_replacement p subject m t = Inl e
     | Inr out \<Rightarrow> \<exists>edits. successive_matches p subject (Some 0) (map fst edits) \<and>
         (\<forall>(m, s) \<in> set edits. format_replacement p subject m t = Inr s) \<and>
         replacedText out = edit_in_place edits subject \<and> replacedCount out = length edits)"
  using replace_loop_edits [OF assms, of 0 subject t "\<lparr>replacedText = [], replacedCount = 0\<rparr>"]
  by (simp add: regex_replace_all_def cong: sum.case_cong)

lemma banana_edited:
  "regex_replace_all (byte_pattern CHR ''a'') ''banana'' ''<$&>'' =
     Some (Inr \<lparr>replacedText = ''b<a>n<a>n<a>'', replacedCount = 3\<rparr>)"
  by (simp add: regex_replace_all_def replace_loop.simps regex_search_def byte_pattern_def find_char_from_def
      format_replacement_def format_from.simps template_item_def group_text_def group_spans_def substr_def Let_def)

text \<open>Replacing by the match itself changes nothing.\<close>

lemma replacing_by_itself:
  assumes "pcre_sound p" "regex_replace_all p subject ''$&'' = Some (Inr out)"
  shows "replacedText out = subject"
proof -
  have "edit_in_place edits subject = subject"
    if "successive_matches p subject (Some i) (map fst edits)" "i \<le> length subject"
      "\<forall>(m, s) \<in> set edits. format_replacement p subject m ''$&'' = Inr s" for i edits
    using that
  proof (induction edits arbitrary: i)
    case (Cons e edits)
    obtain m s where e: "e = (m, s)" by (cases e)
    have found: "regex_search p subject i = Inr (Some m)" using Cons.prems e by simp
    note m = search_sound [OF assms(1) found]
    have s: "s = substr subject (regexStart m) (regexEnd m - regexStart m)"
      using Cons.prems(3) e m(4) whole_match_template [of p subject m] by simp
    have "edit_in_place edits subject = subject"
    proof (cases "search_after subject m")
      case None
      then show ?thesis using Cons.prems e by (simp add: edit_in_place_def)
    next
      case (Some j)
      then have "j \<le> length subject"
        using m next_boundary_bound [of subject "regexEnd m"] by (auto simp: search_after_def split: if_splits)
      with Cons.IH [of j] Cons.prems e Some show ?thesis by simp
    qed
    moreover have "take (regexStart m) subject @ s @ drop (regexEnd m) subject = subject"
      using substr_append_take_drop [of "regexStart m" subject "regexEnd m - regexStart m"] m s by simp
    ultimately show ?case using e by (simp add: edit_in_place_def)
  qed (simp add: edit_in_place_def)
  with replace_loop_edits [OF assms(1), of 0 subject "''$&''" "\<lparr>replacedText = [], replacedCount = 0\<rparr>"] assms(2)
  show ?thesis by (auto simp: regex_replace_all_def)
qed

end
