(* ===== verification/Spec2Isabelle.thy ===== *)
theory Spec2Isabelle
  imports Rope PieceTable TextStorage OffsetRemap EditJournal AnchorSet UndoTree KillRing LineEnding
    WhitespaceHygiene FileUri Base64 LineDiffScript UnifiedView CountedEdits Registers MergeAlignment
    RegexPattern
begin

text \<open>
  A verification library for the core of the ned editor: the code under \<open>Source/Text\<close>,
  everything a buffer is made of, from the bytes of a codepoint to the file a save writes; and
  from \<open>Source/Editor\<close> the way from key presses to commands.

  \<^bold>\<open>How the program is put together.\<close>  A \<open>Buffer\<close> holds its content through the interface
  \<open>ITextStorage\<close>: an ordinary buffer in a \<open>Rope\<close>, a huge one in a \<open>PieceTable\<close> whose spans
  point into the mapped file and a shared append buffer.  Every content mutation is one
  storage operation, one relocation of every position the buffer tracks, one entry of the
  \<open>EditJournal\<close>, one step of the \<open>AnchorSet\<close> and one record or amendment of the \<open>UndoTree\<close>.
  Undo swaps a whole storage back in and recovers the changed span by comparing the two.
  Loading decodes the file's bytes by \<open>Charset\<close> and \<open>LineEnding\<close>; a save snapshots the
  storage into a \<open>SavePlan\<close>, which is written while editing goes on, and the buffer keeps
  the ranges edited since in a set of their own.  An external change comes in by a line diff
  (\<open>LineDiff\<close>) and a three-way merge; conflict markers are parsed back and a merge view aligns
  the sides with the merged text.  Key chords go to a \<open>Dispatcher\<close>, which looks the pending
  sequence up in a stack of keymaps and runs the command it names, as often as the prefix
  argument says, in one undo group of the buffer.

  \<^bold>\<open>Which theory models what.\<close>
  \<^item> \<open>Prelude\<close>: bytes, offsets, splicing; the collections \<open>text_simps\<close>, \<open>stat_simps\<close> and
    \<open>inv_intros\<close>.
  \<^item> \<open>Utf8\<close> (\<open>Utf8.cpp\<close>): the codec and the codepoint boundaries.  \<open>DecodeBytes\<close>: what a decoded
    codepoint says of the bytes it was read from.
  \<^item> \<open>TextTree\<close>, \<open>Rope\<close>, \<open>PieceTable\<close> (\<open>Rope.cpp\<close>, \<open>PieceTable.cpp\<close>): the two balanced trees
    of chunks.  The piece table's append buffer and mapped file live on a heap of addressed
    buffers, since tables share them; \<open>pt_abs\<close> maps a table to the rope of its text.
  \<^item> \<open>TextStorage\<close> (\<open>ITextStorage.h\<close>, \<open>RopeStorage.cpp\<close>, \<open>PieceTableStorage.cpp\<close>): a class is a
    record of its virtual methods; the locale \<open>text_storage\<close> is the contract, interpreted on
    both classes and on the dispatched calls.  \<open>Grapheme\<close> (\<open>Grapheme.cpp\<close>) extends it by
    what the codepoint queries promise.
  \<^item> \<open>OffsetRemap\<close>, \<open>EditJournal\<close>, \<open>AnchorSet\<close>: how one edit, a run of edits and a barrier
    move an offset.  \<open>UndoTree\<close>: the tree of states with its sequence numbers.
  \<^item> \<open>KillRing\<close>, \<open>LineEnding\<close>, \<open>WhitespaceHygiene\<close>, \<open>FileUri\<close>, \<open>Base64\<close>, \<open>RemoteFile\<close>: one
    source file each.
  \<^item> \<open>EditDistance\<close>, \<open>LineDiff\<close>, \<open>LineDiffSearch\<close>, \<open>LineDiffScript\<close>, \<open>UnifiedView\<close>
    (\<open>LineDiff.cpp\<close>): a reference edit distance, the model, the middle-snake search, the
    hunks and the unified view.  \<open>ThreeWayMerge\<close>: the merge over two diffs.  \<open>ConflictHunk\<close>:
    the parser of conflict markers.  \<open>MergeAlignment\<close>: the sides of a text with markers, and
    the blank rows that align several panes.
  \<^item> \<open>Charset\<close>, \<open>CharsetFeed\<close>, \<open>BinaryDetect\<close>, \<open>SavePlan\<close>: the bytes of a file.
  \<^item> \<open>DisplayWidth\<close> (\<open>DisplayWidth.cpp\<close>): the clusters and widths of drawn text over any
    \<open>text_services\<close>, the answers of the Unicode tables; \<open>consumes\<close> says that a cluster is not
    empty.
  \<^item> \<open>BufferState\<close>, \<open>Buffer\<close>, \<open>BufferFile\<close>, \<open>BufferMotion\<close> (\<open>Buffer.cpp\<close>): the tracked positions
    and their relocation; the buffer, its edits, cursors and undo; its file; its motions, with
    the cap of 512 glyphs on a column scan.
  \<^item> \<open>BufferRanges\<close>, \<open>BufferTracked\<close>, \<open>BufferInvariant\<close>: the sets of unsaved ranges, the
    relocated state, and the invariant \<open>buffer_ok\<close> with its preservation by every operation.
    \<open>BufferSession\<close>: a session is a run of \<open>command\<close>s (edits and motions at point or at every
    cursor, undo groups, narrowing, folds, undo, revert, the steps of a save) on one buffer.
    \<open>BufferSafety\<close>, \<open>BufferGroups\<close>: what holds after any session.  Merges, restoring an undo
    tree from disk and background loading are modelled but are no commands of a session; a
    \<open>calm\<close> session does not exchange the whole content while a save is in flight.
  \<^item> \<open>Keys\<close>, \<open>Keymap\<close> (\<open>Key.cpp\<close>, \<open>Keymap.cpp\<close>): chords and their notation; the trie of
    sequences, with its view as a partial function, and the stack.  \<open>Dispatcher\<close>
    (\<open>Command.cpp\<close>, \<open>Dispatcher.cpp\<close>), \<open>PrefixArgument\<close>: the registry, \<open>Feed\<close>, recording, and
    the universal argument; the type of the context's world is a parameter, and \<open>CountedEdits\<close>
    fills it with a session.  \<open>Registers\<close>: registers and named macros.
  \<^item> \<open>RegexPattern\<close> (\<open>RegexPattern.cpp\<close>): searching, replacement templates and replacing every
    match, over any \<open>pcre\<close>, the answers of PCRE2 for a compiled pattern; \<open>pcre_sound\<close> says that
    a match is a range of the subject at or after the offset asked for.

  \<^bold>\<open>Conventions.\<close>  A method that changes an object returns the changed record; a buffer's
  operations return the world they leave (the heap and the buffer) and an \<open>outcome\<close>, a value
  or what was thrown.  \<open>None\<close> is a fault the code does not handle: a failed assertion, a read
  outside a container, a loop that does not end.  \<open>std::size_t\<close> is a natural number and each
  place that relies on wrap-around says so; codepoints and UTF-16 units are words.
  The grapheme break rule (utf8proc), \<open>std::sort\<close> on ties, the file system and the installed
  charset resolver are arguments.

  \<^bold>\<open>What the lemmas show.\<close>  The trees compute the text they stand for, stay balanced and
  keep exact counts; both storages meet one contract, which the claims about single operations
  rest on.  The sessions start on a rope-backed buffer.  Remapping
  an offset through journalled edits is remapping it edit by edit.
  The undo tree's links, sequence numbers and current node stay consistent under every
  command, and undo after an edit gives back the state before.  The diff rebuilds
  the second text and is minimal within its work limit.
  Feeding a decoder or an encoder in pieces is feeding it at once, encoding inverts
  decoding, and the streaming writer of a huge save writes the same bytes as the ordinary one.
  No session of a buffer faults as long as the texts put in can be cut into chunks, its journal
  accounts for its text, and, unless content is exchanged during a save, what says it is
  unmodified is what was saved.  Bare \<open>C-g\<close>, throwing commands and pending prefix arguments apart,
  typing reaches exactly the bindings a stack lists and a replayed macro runs the commands that
  were recorded; no key sequence waits for ever.  Replacing every match of a pattern ends, and
  gives what editing the successive matches in place, the last one first, gives.

  \<^bold>\<open>Where the code falls short.\<close>  Building a rope hangs on a byte followed by \<open>kChunkSize\<close>
  continuation bytes (\<open>Rope\<close>: \<open>stalls\<close> says exactly on which texts); the decoder of base64 does not
  count padding; a group number past 64 bits in a replacement template throws; a huge context size
  wraps around in the unified view; \<open>SideLineAt\<close> gives the first of a side's own lines for the
  merged line after them; and the lemma at the end shows a merge whose conflict its own parser does
  not find.

  \<^bold>\<open>Bounds and fuel.\<close>  The chunk loops of the trees, the walks of the undo tree, the grapheme
  scans and the cursor loop are \<open>partial_function (option)\<close> or recursions with a measure;
  where a loop can fail to end, the lemmas show that it returns.  The line diff's work limit
  is the code's own.

  \<^bold>\<open>Not modelled.\<close>  Memory maps, file attributes and disk space, which are system calls;
  threads, since each object modelled here is confined to one; and most of \<open>Source/Editor\<close>,
  \<open>Source/UI\<close> and \<open>Source/Janet\<close>: the bodies of the commands, the Vim layer, the grammar
  compiler and parser runtime with their generated scanners, the protocol clients and the
  user interface.
\<close>

section \<open>Merging and reading back\<close>

text \<open>
  A conflict on a last line without a newline: the section is written right in front of the
  separator, so the merge counts one conflict and the parser finds none in its output.
\<close>

lemma unterminated_conflict_is_lost:
  "map_option (\<lambda>r. (conflictCount r, parse_conflict_hunks (mergedText r)))
     (three_way_merge (\<lambda>hs. hs) ''x'' ''a'' ''b'') = Some (1, [])"
  by code_simp

end
